(* ===== verification/Prelude.thy ===== *)
theory Prelude
  imports Main "HOL-Library.Multiset" "HOL-Library.Monad_Syntax"
begin

text \<open>
  Shared vocabulary of the development: C code that can run into undefined behaviour is a
  function into \<^typ>\<open>'a option\<close>, where \<^const>\<open>None\<close> stands for undefined behaviour (an
  out-of-range access, a null dereference, a failed \<open>malloc\<close> that is used all the same).
  The theory holds the total-correctness predicate \<open>returns\<close> with its rules, C arrays as
  lists with checked reads and writes, and the lemmas on array segments, permutations and
  sortedness which the component theories share.
\<close>

section \<open>Collections and the total-correctness predicate\<close>

named_theorems wp \<open>rewrite rules that compute weakest preconditions of option programs\<close>

text \<open>\<open>returns m Q\<close>: the program \<open>m\<close> terminates without undefined behaviour and its
  result satisfies \<open>Q\<close>.\<close>

definition returns :: "'a option \<Rightarrow> ('a \<Rightarrow> bool) \<Rightarrow> bool" where
  "returns m Q = (case m of None \<Rightarrow> False | Some x \<Rightarrow> Q x)"

lemma returns_Some [wp, simp]: "returns (Some x) Q = Q x"
  by (simp add: returns_def)

lemma returns_None [wp, simp]: "returns None Q = False"
  by (simp add: returns_def)

lemma returns_bind [wp]: "returns (Option.bind m f) Q = returns m (\<lambda>x. returns (f x) Q)"
  by (cases m) simp_all

lemma returns_if [wp]:
  "returns (if b then m else m') Q = ((b \<longrightarrow> returns m Q) \<and> (\<not> b \<longrightarrow> returns m' Q))"
  by simp

lemma returns_Let [wp]: "returns (Let x f) Q = (let y = x in returns (f y) Q)"
  by simp

lemma returns_prod [wp]:
  "returns (case p of (x, y) \<Rightarrow> f x y) Q = (case p of (x, y) \<Rightarrow> returns (f x y) Q)"
  by (cases p) simp

lemma returns_mono: "returns m P \<Longrightarrow> (\<And>x. P x \<Longrightarrow> Q x) \<Longrightarrow> returns m Q"
  by (cases m) auto

lemma returns_iff: "returns m Q \<longleftrightarrow> (\<exists>x. m = Some x \<and> Q x)"
  by (cases m) auto

lemma returns_conj: "returns m P \<Longrightarrow> returns m Q \<Longrightarrow> returns m (\<lambda>x. P x \<and> Q x)"
  by (cases m) auto

lemma returns_eq: "returns m (\<lambda>x. x = y) \<longleftrightarrow> m = Some y"
  by (cases m) auto

text \<open>Recursive calls under a bind: the function package may use that the first program
  returned.\<close>

declare Option.bind_cong [fundef_cong]

section \<open>C arrays\<close>

text \<open>A C array is a list; reading or writing outside it is undefined behaviour.\<close>

definition rd :: "'a list \<Rightarrow> nat \<Rightarrow> 'a option" where
  "rd a i = (if i < length a then Some (a ! i) else None)"

definition wr :: "'a list \<Rightarrow> nat \<Rightarrow> 'a \<Rightarrow> 'a list option" where
  "wr a i x = (if i < length a then Some (a[i := x]) else None)"

lemma rd_eq [simp]: "i < length a \<Longrightarrow> rd a i = Some (a ! i)"
  by (simp add: rd_def)

lemma wr_eq [simp]: "i < length a \<Longrightarrow> wr a i x = Some (a[i := x])"
  by (simp add: wr_def)

lemma rd_out [simp]: "length a \<le> i \<Longrightarrow> rd a i = None"
  by (simp add: rd_def)

lemma wr_out [simp]: "length a \<le> i \<Longrightarrow> wr a i x = None"
  by (simp add: wr_def)

lemma returns_rd [wp]: "returns (rd a i) Q \<longleftrightarrow> i < length a \<and> Q (a ! i)"
  by (simp add: rd_def)

lemma returns_wr [wp]: "returns (wr a i x) Q \<longleftrightarrow> i < length a \<and> Q (a[i := x])"
  by (simp add: wr_def)

section \<open>Segments of an array\<close>

text \<open>\<open>sorted_seg a lo hi\<close>: the elements at \<open>lo, ..., hi - 1\<close> are in ascending order.\<close>

definition sorted_seg :: "'a::linorder list \<Rightarrow> nat \<Rightarrow> nat \<Rightarrow> bool" where
  "sorted_seg a lo hi \<longleftrightarrow> (\<forall>i j. lo \<le> i \<and> i < j \<and> j < hi \<longrightarrow> a ! i \<le> a ! j)"

text \<open>\<open>perm_seg a b lo hi\<close>: \<open>b\<close> is a rearrangement of \<open>a\<close> which differs from it only at
  the indices \<open>lo, ..., hi - 1\<close>.\<close>

definition perm_seg :: "'a list \<Rightarrow> 'a list \<Rightarrow> nat \<Rightarrow> nat \<Rightarrow> bool" where
  "perm_seg a b lo hi \<longleftrightarrow>
     mset b = mset a \<and> (\<forall>i < length a. i < lo \<or> hi \<le> i \<longrightarrow> b ! i = a ! i)"

lemma perm_seg_length: "perm_seg a b lo hi \<Longrightarrow> length b = length a"
  unfolding perm_seg_def by (blast dest: mset_eq_length)

lemma perm_seg_mset: "perm_seg a b lo hi \<Longrightarrow> mset b = mset a"
  by (simp add: perm_seg_def)

lemma perm_seg_refl [simp]: "perm_seg a a lo hi"
  by (simp add: perm_seg_def)

lemma perm_seg_trans [trans]:
  "perm_seg a b lo hi \<Longrightarrow> perm_seg b c lo hi \<Longrightarrow> perm_seg a c lo hi"
  by (auto simp: perm_seg_def dest: mset_eq_length)

lemma perm_seg_mono:
  "perm_seg a b lo hi \<Longrightarrow> lo' \<le> lo \<Longrightarrow> hi \<le> hi' \<Longrightarrow> perm_seg a b lo' hi'"
  by (auto simp: perm_seg_def)

lemma perm_seg_outside:
  "perm_seg a b lo hi \<Longrightarrow> i < length a \<Longrightarrow> i < lo \<or> hi \<le> i \<Longrightarrow> b ! i = a ! i"
  by (auto simp: perm_seg_def)

lemma perm_seg_swap:
  assumes "i < length a" "j < length a" "lo \<le> i" "i < hi" "lo \<le> j" "j < hi"
  shows "perm_seg a (a[i := a ! j, j := a ! i]) lo hi"
  using assms by (auto simp: perm_seg_def mset_swap nth_list_update)

text \<open>A segment and the whole list, by \<^const>\<open>take\<close> and \<^const>\<open>drop\<close>.\<close>

definition slice :: "'a list \<Rightarrow> nat \<Rightarrow> nat \<Rightarrow> 'a list" where
  "slice a lo hi = take (hi - lo) (drop lo a)"

lemma length_slice [simp]: "hi \<le> length a \<Longrightarrow> length (slice a lo hi) = hi - lo"
  by (simp add: slice_def)

lemma nth_slice [simp]:
  "i < hi - lo \<Longrightarrow> hi \<le> length a \<Longrightarrow> slice a lo hi ! i = a ! (lo + i)"
  by (simp add: slice_def)

lemma slice_decomp: "lo \<le> hi \<Longrightarrow> a = take lo a @ slice a lo hi @ drop hi a"
  by (simp add: slice_def) (metis add.commute append_take_drop_id drop_drop le_add_diff_inverse2)

lemma set_slice: "hi \<le> length a \<Longrightarrow> set (slice a lo hi) = {a ! i |i. lo \<le> i \<and> i < hi}"
proof -
  assume hi: "hi \<le> length a"
  have "set (slice a lo hi) = {a ! (lo + i) |i. i < hi - lo}"
    using hi by (force simp: set_conv_nth)
  also have "\<dots> = {a ! i |i. lo \<le> i \<and> i < hi}"
  proof (intro set_eqI iffI; clarsimp)
    fix i assume "i < hi - lo"
    then show "\<exists>k. a ! (lo + i) = a ! k \<and> lo \<le> k \<and> k < hi" by (intro exI [of _ "lo + i"]) auto
  next
    fix i assume "lo \<le> i" "i < hi"
    then show "\<exists>k. a ! i = a ! (lo + k) \<and> k < hi - lo" by (intro exI [of _ "i - lo"]) auto
  qed
  finally show ?thesis .
qed

lemma slice_Cons: "i < hi \<Longrightarrow> hi \<le> length a \<Longrightarrow> slice a i hi = a ! i # slice a (Suc i) hi"
  by (rule nth_equalityI) (auto simp: nth_Cons split: nat.split)

lemma slice_empty [simp]: "hi \<le> i \<Longrightarrow> slice a i hi = []"
  by (simp add: slice_def)

lemma slice_append:
  "lo \<le> mid \<Longrightarrow> mid \<le> hi \<Longrightarrow> hi \<le> length a \<Longrightarrow> slice a lo hi = slice a lo mid @ slice a mid hi"
  by (rule nth_equalityI) (auto simp: nth_append add.commute)

lemma sorted_slice: "hi \<le> length a \<Longrightarrow> sorted (slice a lo hi) \<longleftrightarrow> sorted_seg a lo hi"
proof -
  assume hi: "hi \<le> length a"
  have "sorted (slice a lo hi) \<longleftrightarrow>
      (\<forall>i j. i < j \<and> j < hi - lo \<longrightarrow> a ! (lo + i) \<le> a ! (lo + j))"
    using hi by (auto simp: sorted_iff_nth_mono_less)
  also have "\<dots> \<longleftrightarrow> sorted_seg a lo hi"
    unfolding sorted_seg_def
  proof (intro iffI allI impI; elim conjE)
    fix i j assume *: "\<forall>i j. i < j \<and> j < hi - lo \<longrightarrow> a ! (lo + i) \<le> a ! (lo + j)"
      and "lo \<le> i" "i < j" "j < hi"
    moreover from this have "i - lo < j - lo \<and> j - lo < hi - lo" by linarith
    ultimately show "a ! i \<le> a ! j" using spec [OF spec [OF *, of "i - lo"], of "j - lo"] by simp
  qed auto
  finally show ?thesis .
qed

lemma perm_seg_iff:
  assumes "lo \<le> hi" "hi \<le> length a"
  shows "perm_seg a b lo hi \<longleftrightarrow>
    (\<exists>xs. mset xs = mset (slice a lo hi) \<and> b = take lo a @ xs @ drop hi a)"
proof
  assume p: "perm_seg a b lo hi"
  note len = perm_seg_length [OF p]
  have 1: "take lo b = take lo a" "drop hi b = drop hi a"
    using p assms len by (auto simp: list_eq_iff_nth_eq perm_seg_outside)
  have b: "b = take lo a @ slice b lo hi @ drop hi a"
    using slice_decomp [OF assms(1), of b] 1 by simp
  have "mset (take lo a @ slice b lo hi @ drop hi a) = mset (take lo a @ slice a lo hi @ drop hi a)"
    using b slice_decomp [OF assms(1), of a] perm_seg_mset [OF p] by metis
  then have "mset (slice b lo hi) = mset (slice a lo hi)" by simp
  with b show "\<exists>xs. mset xs = mset (slice a lo hi) \<and> b = take lo a @ xs @ drop hi a" by blast
next
  assume "\<exists>xs. mset xs = mset (slice a lo hi) \<and> b = take lo a @ xs @ drop hi a"
  then obtain xs where xs: "mset xs = mset (slice a lo hi)" and b: "b = take lo a @ xs @ drop hi a"
    by blast
  have "mset b = mset (take lo a @ slice a lo hi @ drop hi a)" using b xs by simp
  then have "mset b = mset a" using slice_decomp [OF assms(1), of a] by metis
  moreover have "length xs = hi - lo" using xs assms by (metis length_slice mset_eq_length)
  ultimately show "perm_seg a b lo hi"
    using assms by (auto simp: perm_seg_def b nth_append)
qed

text \<open>What holds of every element of the segment before holds of every element after.\<close>

lemma perm_seg_all:
  assumes p: "perm_seg a b lo hi" and hi: "hi \<le> length a"
    and all: "\<And>i. lo \<le> i \<Longrightarrow> i < hi \<Longrightarrow> P (a ! i)" and i: "lo \<le> i" "i < hi"
  shows "P (b ! i)"
proof -
  obtain xs where xs: "mset xs = mset (slice a lo hi)" and b: "b = take lo a @ xs @ drop hi a"
    using p hi i perm_seg_iff [of lo hi a b] by auto
  have "length xs = hi - lo" using xs hi by (metis length_slice mset_eq_length)
  with b hi i have "b ! i = xs ! (i - lo)" "i - lo < length xs" by (auto simp: nth_append)
  then have "b ! i \<in> set xs" by simp
  also have "set xs = set (slice a lo hi)" using xs by (metis set_mset_mset)
  finally have "b ! i \<in> {a ! i |i. lo \<le> i \<and> i < hi}" using set_slice [OF hi] by simp
  then show ?thesis using all by auto
qed

lemma perm_seg_slice:
  assumes "perm_seg a b lo hi" "lo \<le> hi" "hi \<le> length a"
  shows "mset (slice b lo hi) = mset (slice a lo hi)"
proof -
  obtain xs where xs: "mset xs = mset (slice a lo hi)" and b: "b = take lo a @ xs @ drop hi a"
    using assms perm_seg_iff [of lo hi a b] by auto
  have "length xs = hi - lo" using xs assms by (metis length_slice mset_eq_length)
  then have "slice b lo hi = xs" using b assms by (simp add: slice_def)
  with xs show ?thesis by simp
qed

lemma perm_seg_slice_outside:
  assumes "perm_seg a b lo hi" "h \<le> length a" "h \<le> lo \<or> hi \<le> l"
  shows "slice b l h = slice a l h"
proof (rule nth_equalityI)
  note len = perm_seg_length [OF assms(1)]
  show "length (slice b l h) = length (slice a l h)" using assms len by simp
  fix i assume "i < length (slice b l h)"
  then have i: "i < h - l" using assms len by simp
  then have "b ! (l + i) = a ! (l + i)"
    using assms by (intro perm_seg_outside [OF assms(1)]) auto
  then show "slice b l h ! i = slice a l h ! i" using assms len i by simp
qed

text \<open>Sorting a segment has exactly one outcome.\<close>

lemma sorted_perm_seg_unique:
  fixes a :: "'a::linorder list"
  assumes "perm_seg a b lo hi" "sorted_seg b lo hi" "lo \<le> hi" "hi \<le> length a"
  shows "b = take lo a @ sort (slice a lo hi) @ drop hi a"
proof -
  obtain xs where xs: "mset xs = mset (slice a lo hi)" and b: "b = take lo a @ xs @ drop hi a"
    using assms perm_seg_iff [of lo hi a b] by auto
  have len: "length xs = hi - lo" using xs assms by (metis length_slice mset_eq_length)
  have "slice b lo hi = xs" using b len assms by (simp add: slice_def)
  then have "sorted xs"
    using assms sorted_slice [of hi b lo] perm_seg_length [OF assms(1)] by simp
  then have "sort (slice a lo hi) = xs" using xs by (intro properties_for_sort) auto
  with b show ?thesis by simp
qed

lemma sorted_seg_prefix:
  fixes a :: "'a::linorder list"
  assumes "perm_seg a b 0 n" "sorted_seg b 0 n" "n \<le> length a"
  shows "b = sort (take n a) @ drop n a"
  using sorted_perm_seg_unique [OF assms(1,2) _ assms(3)] by (simp add: slice_def)

lemma sorted_segD: "sorted_seg a lo hi \<Longrightarrow> lo \<le> i \<Longrightarrow> i \<le> j \<Longrightarrow> j < hi \<Longrightarrow> a ! i \<le> a ! j"
  by (cases "i = j") (auto simp: sorted_seg_def)

lemma sorted_seg_empty [simp]: "hi \<le> Suc lo \<Longrightarrow> sorted_seg a lo hi"
  by (auto simp: sorted_seg_def)

lemma sorted_seg_cong:
  assumes "\<And>i. lo \<le> i \<Longrightarrow> i < hi \<Longrightarrow> a ! i = b ! i"
  shows "sorted_seg a lo hi = sorted_seg b lo hi"
proof -
  have "\<And>i j. lo \<le> i \<and> i < j \<and> j < hi \<Longrightarrow> a ! i = b ! i \<and> a ! j = b ! j"
    using assms by simp
  then show ?thesis unfolding sorted_seg_def by metis
qed

section \<open>Overwriting a block of an array\<close>

definition put :: "'a list \<Rightarrow> nat \<Rightarrow> 'a list \<Rightarrow> 'a list" where
  "put t k zs = take k t @ zs @ drop (k + length zs) t"

lemma put_Nil [simp]: "put t k [] = t"
  by (simp add: put_def)

lemma put_update: "k < length t \<Longrightarrow> put (t[k := x]) (Suc k) zs = put t k (x # zs)"
  by (simp add: put_def take_Suc_conv_app_nth)

lemma length_put [simp]: "k + length zs \<le> length t \<Longrightarrow> length (put t k zs) = length t"
  by (simp add: put_def)

lemma put_put: "k + length xs \<le> length t \<Longrightarrow> put (put t k xs) (k + length xs) ys = put t k (xs @ ys)"
  by (simp add: put_def ac_simps)

lemma slice_put: "k + length zs \<le> length t \<Longrightarrow> slice (put t k zs) k (k + length zs) = zs"
  by (simp add: put_def slice_def)

section \<open>Interfaces of the sorting routines\<close>

text \<open>The contract of an in-place sorting routine \<open>srt a n\<close> called on the first \<open>n\<close>
  elements of the array \<open>a\<close>.\<close>

locale array_sorter =
  fixes srt :: "int list \<Rightarrow> nat \<Rightarrow> int list option"
  assumes srt_total: "n \<le> length a \<Longrightarrow> returns (srt a n) (\<lambda>b. perm_seg a b 0 n \<and> sorted_seg b 0 n)"
begin

lemma srt_eq: "n \<le> length a \<Longrightarrow> srt a n = Some (sort (take n a) @ drop n a)"
  using srt_total [of n a] sorted_seg_prefix by (fastforce simp: returns_iff)

lemma srt_all: "srt a (length a) = Some (sort a)"
  by (simp add: srt_eq)

end

section \<open>The interface of a search tree\<close>

text \<open>Inserting the elements of a list one after the other.\<close>

fun insert_all :: "('t \<Rightarrow> 'a \<Rightarrow> 't option) \<Rightarrow> 't \<Rightarrow> 'a list \<Rightarrow> 't option" where
  "insert_all ins t [] = Some t"
| "insert_all ins t (x # xs) = do { t \<leftarrow> ins t x; insert_all ins t xs }"

text \<open>The contract of a dynamic set: the operations keep an invariant \<open>inv\<close> and work on the set
  \<open>elems t\<close> as the mathematical operations do.\<close>

locale search_set =
  fixes inv :: "'t \<Rightarrow> bool" and elems :: "'t \<Rightarrow> 'a set"
    and ins :: "'t \<Rightarrow> 'a \<Rightarrow> 't option" and mem :: "'t \<Rightarrow> 'a \<Rightarrow> bool"
  assumes ins_law: "inv t \<Longrightarrow> returns (ins t x) (\<lambda>t'. inv t' \<and> elems t' = insert x (elems t))"
    and mem_law: "inv t \<Longrightarrow> mem t x \<longleftrightarrow> x \<in> elems t"
begin

lemma insert_all_spec:
  "inv t \<Longrightarrow> returns (insert_all ins t xs) (\<lambda>t'. inv t' \<and> elems t' = elems t \<union> set xs)"
proof (induction xs arbitrary: t)
  case (Cons x xs)
  obtain t1 where t1: "ins t x = Some t1" "inv t1" "elems t1 = insert x (elems t)"
    using ins_law [OF Cons.prems, of x] by (auto simp: returns_iff)
  then show ?case using Cons.IH [OF t1(2)] by (auto simp: returns_iff)
qed simp

lemma mem_insert_all:
  "inv t \<Longrightarrow> returns (insert_all ins t xs) (\<lambda>t'. \<forall>y. mem t' y \<longleftrightarrow> mem t y \<or> y \<in> set xs)"
  by (rule returns_mono [OF insert_all_spec]) (auto simp: mem_law)

end

end
