(* ===== verification/Clrs_Sorting.thy ===== *)
theory Clrs_Sorting
  imports Prelude
begin

text \<open>
  The elementary sorts of \<open>src/clrs/sorting.c\<close>: the XOR \<open>swap\<close>, bubble sort, selection
  sort, insertion sort and Shell sort. Each C loop is one recursive function over the array
  and the loop's variables; every array access is checked. The element type is C's
  \<open>int\<close>, whose values are only compared and combined by XOR, so they are mathematical
  integers here (XOR on them is the sign-extended one, which agrees with the 32-bit one).
\<close>

unbundle bit_operations_syntax

section \<open>The code\<close>

text \<open>\<open>swap(a+i, a+j)\<close>: three XOR assignments, guarded against equal pointers.\<close>

definition swap :: "int list \<Rightarrow> nat \<Rightarrow> nat \<Rightarrow> int list option" where
  "swap a i j =
     (if i = j then Some a
      else do {
        x \<leftarrow> rd a i; y \<leftarrow> rd a j; a \<leftarrow> wr a i (x XOR y);
        y \<leftarrow> rd a j; x \<leftarrow> rd a i; a \<leftarrow> wr a j (y XOR x);
        x \<leftarrow> rd a i; y \<leftarrow> rd a j; wr a i (x XOR y)
      })"

text \<open>\<open>bubblesort\<close>: the inner loop runs \<open>j\<close> down from \<open>n-1\<close> to \<open>i+1\<close>.\<close>

fun bubble_inner :: "int list \<Rightarrow> nat \<Rightarrow> nat \<Rightarrow> int list option" where
  "bubble_inner a i j =
     (if i < j then do {
        x \<leftarrow> rd a j; y \<leftarrow> rd a (j - 1);
        a \<leftarrow> (if x < y then swap a j (j - 1) else Some a);
        bubble_inner a i (j - 1)
      } else Some a)"

function bubble_outer :: "int list \<Rightarrow> nat \<Rightarrow> nat \<Rightarrow> int list option" where
  "bubble_outer a i n =
     (if i < n - 1 then do {
        a \<leftarrow> bubble_inner a i (n - 1);
        bubble_outer a (Suc i) n
      } else Some a)"
  by pat_completeness auto
termination
  by (relation "measure (\<lambda>(a, i, n). n - i)") auto

definition bubblesort :: "int list \<Rightarrow> nat \<Rightarrow> int list option" where
  "bubblesort a n = bubble_outer a 0 n"

text \<open>\<open>selectsort\<close>: \<open>select_min\<close> is the inner loop, which updates \<open>min\<close> (here \<open>mn\<close>).\<close>

fun select_min :: "int list \<Rightarrow> nat \<Rightarrow> nat \<Rightarrow> nat \<Rightarrow> nat option" where
  "select_min a i mn j =
     (if i < j then do {
        x \<leftarrow> rd a j; y \<leftarrow> rd a mn;
        select_min a i (if x < y then j else mn) (j - 1)
      } else Some mn)"

function select_outer :: "int list \<Rightarrow> nat \<Rightarrow> nat \<Rightarrow> int list option" where
  "select_outer a i n =
     (if i < n - 1 then do {
        mn \<leftarrow> select_min a i i (n - 1);
        a \<leftarrow> swap a i mn;
        select_outer a (Suc i) n
      } else Some a)"
  by pat_completeness auto
termination
  by (relation "measure (\<lambda>(a, i, n). n - i)") auto

definition selectsort :: "int list \<Rightarrow> nat \<Rightarrow> int list option" where
  "selectsort a n = select_outer a 0 n"

text \<open>\<open>insertsort\<close>: the inner loop shifts the elements greater than \<open>tmp\<close> up by one and
  leaves \<open>j\<close> at the hole.\<close>

fun insert_shift :: "int list \<Rightarrow> nat \<Rightarrow> int \<Rightarrow> (int list \<times> nat) option" where
  "insert_shift a j tmp =
     (if 0 < j then do {
        x \<leftarrow> rd a (j - 1);
        if tmp < x then do {
          a \<leftarrow> wr a j x;
          insert_shift a (j - 1) tmp
        } else Some (a, j)
      } else Some (a, j))"

function insert_outer :: "int list \<Rightarrow> nat \<Rightarrow> nat \<Rightarrow> int list option" where
  "insert_outer a i n =
     (if i < n then do {
        tmp \<leftarrow> rd a i;
        (a, j) \<leftarrow> insert_shift a i tmp;
        a \<leftarrow> wr a j tmp;
        insert_outer a (Suc i) n
      } else Some a)"
  by pat_completeness auto
termination
  by (relation "measure (\<lambda>(a, i, n). n - i)") auto

definition insertsort :: "int list \<Rightarrow> nat \<Rightarrow> int list option" where
  "insertsort a n = insert_outer a 1 n"

text \<open>\<open>shellsort\<close>: the gap \<open>sep\<close> is halved until it is 0. The inner loop is called with
  \<open>sep\<close> at least 1 only, so the guard \<open>0 < sep\<close> never fails; it makes the recursion on
  \<open>j\<close> well founded.\<close>

function shell_shift :: "int list \<Rightarrow> nat \<Rightarrow> nat \<Rightarrow> int \<Rightarrow> (int list \<times> nat) option" where
  "shell_shift a sep j tmp =
     (if 0 < sep \<and> sep \<le> j then do {
        x \<leftarrow> rd a (j - sep);
        if tmp < x then do {
          a \<leftarrow> wr a j x;
          shell_shift a sep (j - sep) tmp
        } else Some (a, j)
      } else Some (a, j))"
  by pat_completeness auto
termination
  by (relation "measure (\<lambda>(a, sep, j, tmp). j)") auto

function shell_pass :: "int list \<Rightarrow> nat \<Rightarrow> nat \<Rightarrow> nat \<Rightarrow> int list option" where
  "shell_pass a sep i n =
     (if i < n then do {
        tmp \<leftarrow> rd a i;
        (a, j) \<leftarrow> shell_shift a sep i tmp;
        a \<leftarrow> wr a j tmp;
        shell_pass a sep (Suc i) n
      } else Some a)"
  by pat_completeness auto
termination
  by (relation "measure (\<lambda>(a, sep, i, n). n - i)") auto

fun shell_outer :: "int list \<Rightarrow> nat \<Rightarrow> nat \<Rightarrow> int list option" where
  "shell_outer a sep n =
     (if 1 \<le> sep then do {
        a \<leftarrow> shell_pass a sep sep n;
        shell_outer a (sep div 2) n
      } else Some a)"

definition shellsort :: "int list \<Rightarrow> nat \<Rightarrow> int list option" where
  "shellsort a n = shell_outer a (n div 2) n"

lemmas clrs_loops =
  bubble_inner.simps bubble_outer.simps select_min.simps select_outer.simps
  insert_shift.simps insert_outer.simps shell_shift.simps shell_pass.simps shell_outer.simps

declare clrs_loops [simp del]

section \<open>The XOR swap\<close>

lemma swap_eq:
  assumes "i < length a" "j < length a"
  shows "swap a i j = Some (a[i := a ! j, j := a ! i])"
proof (cases "i = j")
  case True
  then show ?thesis by (simp add: swap_def)
next
  case False
  let ?x = "a ! i" and ?y = "a ! j"
  have y: "?y XOR (?x XOR ?y) = ?x" by (simp add: xor.left_commute)
  have x: "(?x XOR ?y) XOR ?x = ?y" by (metis xor.commute xor.left_commute xor_self_eq xor.right_neutral)
  from False assms show ?thesis
    by (simp add: swap_def x y list_update_swap)
qed

lemma returns_swap [wp]:
  "i < length a \<Longrightarrow> j < length a \<Longrightarrow> returns (swap a i j) Q \<longleftrightarrow> Q (a[i := a ! j, j := a ! i])"
  by (simp add: swap_eq)

section \<open>Bubble sort and selection sort\<close>

text \<open>After \<open>i\<close> rounds the first \<open>i\<close> elements are sorted and below all the others.\<close>

definition front_sorted :: "int list \<Rightarrow> nat \<Rightarrow> nat \<Rightarrow> bool" where
  "front_sorted a i n \<longleftrightarrow> sorted_seg a 0 i \<and> (\<forall>p q. p < i \<and> i \<le> q \<and> q < n \<longrightarrow> a ! p \<le> a ! q)"

lemma front_sorted_0 [simp]: "front_sorted a 0 n"
  by (simp add: front_sorted_def sorted_seg_def)

text \<open>One round: putting a least element of the rest at position \<open>i\<close> extends the sorted
  front.\<close>

lemma front_sorted_step:
  assumes f: "front_sorted a i n" and p: "perm_seg a b i n" and n: "i < n" "n \<le> length a"
    and least: "\<And>k. i \<le> k \<Longrightarrow> k < n \<Longrightarrow> b ! i \<le> a ! k"
  shows "front_sorted b (Suc i) n"
proof -
  have front: "b ! k = a ! k" if "k < i" for k
    using perm_seg_outside [OF p, of k] that n by auto
  have rest: "b ! i \<le> b ! k" if "i \<le> k" "k < n" for k
    using perm_seg_all [OF p n(2), where P = "\<lambda>x. b ! i \<le> x"] least that by blast
  have below: "b ! q \<le> b ! k" if "q < i" "i \<le> k" "k < n" for q k
    using perm_seg_all [OF p n(2), where P = "\<lambda>x. a ! q \<le> x"] f that front [of q]
    unfolding front_sorted_def by auto
  have "sorted_seg b 0 (Suc i)"
    unfolding sorted_seg_def
  proof (intro allI impI, elim conjE)
    fix q k assume "q < k" "k < Suc i"
    then show "b ! q \<le> b ! k"
      using f front [of q] front [of k] below [of q k] n
      by (cases "k = i") (auto simp: front_sorted_def sorted_seg_def)
  qed
  then show ?thesis
    using rest below by (auto simp: front_sorted_def less_Suc_eq)
qed

lemma front_sorted_end: "front_sorted a i n \<Longrightarrow> n \<le> Suc i \<Longrightarrow> sorted_seg a 0 n"
  unfolding front_sorted_def sorted_seg_def by (metis less_Suc_eq less_Suc_eq_le order.trans le_less_trans not_le)

lemma bubble_inner_spec:
  "i \<le> j \<Longrightarrow> j < length a \<Longrightarrow> returns (bubble_inner a i j)
     (\<lambda>b. perm_seg a b i (Suc j) \<and> (\<forall>k. i \<le> k \<and> k \<le> j \<longrightarrow> b ! i \<le> a ! k))"
proof (induction a i j rule: bubble_inner.induct)
  case (1 a i j)
  show ?case
  proof (cases "i < j")
    case False
    with 1 show ?thesis by (subst bubble_inner.simps) auto
  next
    case True
    define a' where "a' = (if a ! j < a ! (j - 1) then a[j := a ! (j - 1), j - 1 := a ! j] else a)"
    have len: "length a' = length a" by (simp add: a'_def)
    have p: "perm_seg a a' i (Suc j)"
      using perm_seg_swap [of j a "j - 1" i "Suc j"] True 1 by (auto simp: a'_def)
    have run: "bubble_inner a i j = bubble_inner a' i (j - 1)"
      using True 1 by (subst bubble_inner.simps) (simp add: a'_def swap_eq)
    have lo: "a' ! (j - 1) \<le> a ! (j - 1)" "a' ! (j - 1) \<le> a ! j"
      using True 1 by (auto simp: a'_def nth_list_update)
    have same: "k < j - 1 \<Longrightarrow> a' ! k = a ! k" for k by (auto simp: a'_def nth_list_update)
    have sel: "(if a ! j < a ! (j - 1) then swap a j (j - 1) else Some a) = Some a'"
      using True 1 by (simp add: a'_def swap_eq)
    have "returns (bubble_inner a' i (j - 1))
      (\<lambda>b. perm_seg a' b i (Suc (j - 1)) \<and> (\<forall>k. i \<le> k \<and> k \<le> j - 1 \<longrightarrow> b ! i \<le> a' ! k))"
      using "1.IH" [OF True _ _ sel] 1(2,3) True len by auto
    then have "returns (bubble_inner a' i (j - 1))
      (\<lambda>b. perm_seg a b i (Suc j) \<and> (\<forall>k. i \<le> k \<and> k \<le> j \<longrightarrow> b ! i \<le> a ! k))"
    proof (rule returns_mono, elim conjE, intro conjI allI impI)
      fix b assume b: "perm_seg a' b i (Suc (j - 1))"
        and least: "\<forall>k. i \<le> k \<and> k \<le> j - 1 \<longrightarrow> b ! i \<le> a' ! k"
      show "perm_seg a b i (Suc j)"
        using p perm_seg_mono [OF b, of i "Suc j"] by (auto intro: perm_seg_trans)
      fix k assume k: "i \<le> k \<and> k \<le> j"
      from least True have top: "b ! i \<le> a' ! (j - 1)" by auto
      from k consider "k < j - 1" | "k = j - 1" | "k = j" by linarith
      then show "b ! i \<le> a ! k"
        by cases (use top lo same [of k] least k in auto)
    qed
    then show ?thesis by (simp only: run)
  qed
qed

lemma bubble_outer_spec:
  "front_sorted a i n \<Longrightarrow> n \<le> length a \<Longrightarrow> returns (bubble_outer a i n)
     (\<lambda>b. perm_seg a b 0 n \<and> sorted_seg b 0 n)"
proof (induction a i n rule: bubble_outer.induct)
  case (1 a i n)
  show ?case
  proof (cases "i < n - 1")
    case False
    with 1 show ?thesis by (auto simp: bubble_outer.simps [of a i n] intro: front_sorted_end)
  next
    case True
    obtain b where b: "bubble_inner a i (n - 1) = Some b" "perm_seg a b i n"
      "\<forall>k. i \<le> k \<and> k < n \<longrightarrow> b ! i \<le> a ! k"
      using bubble_inner_spec [of i "n - 1" a] True 1(3) by (fastforce simp: returns_iff)
    have len: "length b = length a" using b(2) by (rule perm_seg_length)
    have "front_sorted b (Suc i) n"
      using front_sorted_step [OF 1(2) b(2)] b(3) True 1(3) by auto
    from "1.IH" [OF True b(1) this] have
      "returns (bubble_outer b (Suc i) n) (\<lambda>c. perm_seg b c 0 n \<and> sorted_seg c 0 n)"
      using 1(3) len by simp
    then have "returns (bubble_outer b (Suc i) n) (\<lambda>c. perm_seg a c 0 n \<and> sorted_seg c 0 n)"
      by (rule returns_mono) (auto intro: perm_seg_trans perm_seg_mono [OF b(2)])
    then show ?thesis using True b(1) by (simp add: bubble_outer.simps [of a i n])
  qed
qed

interpretation bubble: array_sorter bubblesort
  by unfold_locales (simp add: bubblesort_def bubble_outer_spec)

text \<open>Selection sort.\<close>

lemma select_min_spec:
  "j < length a \<Longrightarrow> mn < length a \<Longrightarrow> returns (select_min a i mn j)
     (\<lambda>m. (m = mn \<or> i < m \<and> m \<le> j) \<and> a ! m \<le> a ! mn \<and> (\<forall>k. i < k \<and> k \<le> j \<longrightarrow> a ! m \<le> a ! k))"
proof (induction a i mn j rule: select_min.induct)
  case (1 a i mn j)
  show ?case
  proof (cases "i < j")
    case False
    then show ?thesis by (subst select_min.simps) auto
  next
    case True
    define m' where "m' = (if a ! j < a ! mn then j else mn)"
    have m': "a ! m' \<le> a ! mn" "a ! m' \<le> a ! j" "m' = mn \<or> m' = j"
      by (auto simp: m'_def)
    have "returns (select_min a i m' (j - 1)) (\<lambda>m. (m = m' \<or> i < m \<and> m \<le> j - 1) \<and>
        a ! m \<le> a ! m' \<and> (\<forall>k. i < k \<and> k \<le> j - 1 \<longrightarrow> a ! m \<le> a ! k))"
      using "1.IH" [of "a ! j" "a ! mn"] True 1(2,3) by (simp add: m'_def)
    then have "returns (select_min a i m' (j - 1)) (\<lambda>m. (m = mn \<or> i < m \<and> m \<le> j) \<and>
        a ! m \<le> a ! mn \<and> (\<forall>k. i < k \<and> k \<le> j \<longrightarrow> a ! m \<le> a ! k))"
    proof (rule returns_mono, elim conjE, intro conjI allI impI)
      fix m k assume m: "m = m' \<or> i < m \<and> m \<le> j - 1" "a ! m \<le> a ! m'"
        "\<forall>k. i < k \<and> k \<le> j - 1 \<longrightarrow> a ! m \<le> a ! k"
      show "m = mn \<or> i < m \<and> m \<le> j" "a ! m \<le> a ! mn" using m m' True by auto
      assume "i < k \<and> k \<le> j"
      then consider "k = j" | "i < k" "k \<le> j - 1" by linarith
      then show "a ! m \<le> a ! k" by cases (use m m' in auto)
    qed
    then show ?thesis using True 1(2,3) by (simp add: select_min.simps [of a i mn j] m'_def)
  qed
qed

lemma select_outer_spec:
  "front_sorted a i n \<Longrightarrow> n \<le> length a \<Longrightarrow> returns (select_outer a i n)
     (\<lambda>b. perm_seg a b 0 n \<and> sorted_seg b 0 n)"
proof (induction a i n rule: select_outer.induct)
  case (1 a i n)
  show ?case
  proof (cases "i < n - 1")
    case False
    with 1 show ?thesis by (auto simp: select_outer.simps [of a i n] intro: front_sorted_end)
  next
    case True
    obtain m where m: "select_min a i i (n - 1) = Some m" "i \<le> m" "m < n"
      "\<forall>k. i \<le> k \<and> k < n \<longrightarrow> a ! m \<le> a ! k"
      using select_min_spec [of "n - 1" a i i] True 1(3)
      by (fastforce simp: returns_iff le_less)
    define b where "b = a[i := a ! m, m := a ! i]"
    have s: "swap a i m = Some b" using True m 1(3) by (simp add: b_def swap_eq)
    have p: "perm_seg a b i n" using True m 1(3) by (simp add: b_def perm_seg_swap)
    have "b ! i = a ! m" using True m 1(3) by (auto simp: b_def nth_list_update)
    then have "front_sorted b (Suc i) n"
      using front_sorted_step [OF 1(2) p] m(4) True 1(3) by auto
    from "1.IH" [OF True m(1) s this] have
      "returns (select_outer b (Suc i) n) (\<lambda>c. perm_seg b c 0 n \<and> sorted_seg c 0 n)"
      using 1(3) perm_seg_length [OF p] by simp
    then have "returns (select_outer b (Suc i) n) (\<lambda>c. perm_seg a c 0 n \<and> sorted_seg c 0 n)"
      by (rule returns_mono) (auto intro: perm_seg_trans perm_seg_mono [OF p])
    then show ?thesis using True m(1) s by (simp add: select_outer.simps [of a i n])
  qed
qed

interpretation select: array_sorter selectsort
  by unfold_locales (simp add: selectsort_def select_outer_spec)

section \<open>Insertion sort\<close>

text \<open>The segment \<open>0..i\<close> with a hole at \<open>j\<close>: sorted when the hole is left out, and nothing
  above the hole is smaller than \<open>tmp\<close>.\<close>

definition hole_sorted :: "int list \<Rightarrow> nat \<Rightarrow> nat \<Rightarrow> int \<Rightarrow> bool" where
  "hole_sorted a j i tmp \<longleftrightarrow> (\<forall>p q. p < q \<and> q \<le> i \<and> p \<noteq> j \<and> q \<noteq> j \<longrightarrow> a ! p \<le> a ! q)
     \<and> (\<forall>q. j < q \<and> q \<le> i \<longrightarrow> tmp \<le> a ! q)"

lemma hole_sorted_shift:
  assumes h: "hole_sorted a j i tmp" and j: "0 < j" "j \<le> i" "i < length a" and t: "tmp < a ! (j - 1)"
  shows "hole_sorted (a[j := a ! (j - 1)]) (j - 1) i tmp"
proof -
  let ?a = "a[j := a ! (j - 1)]"
  have eq: "?a ! k = (if k = j then a ! (j - 1) else a ! k)" for k
    using j by (auto simp: nth_list_update)
  have s: "\<And>p q. p < q \<Longrightarrow> q \<le> i \<Longrightarrow> p \<noteq> j \<Longrightarrow> q \<noteq> j \<Longrightarrow> a ! p \<le> a ! q"
    using h by (auto simp: hole_sorted_def)
  have "?a ! p \<le> ?a ! q" if "p < q" "q \<le> i" "p \<noteq> j - 1" "q \<noteq> j - 1" for p q
    using s [of p "j - 1"] s [of "j - 1" q] s [of p q] that j
    by (cases "p = j"; cases "q = j") (auto simp: eq)
  moreover have "tmp \<le> ?a ! q" if "j - 1 < q" "q \<le> i" for q
    using h t that j by (cases "q = j") (auto simp: hole_sorted_def nth_list_update)
  ultimately show ?thesis by (auto simp: hole_sorted_def)
qed

lemma hole_sorted_fill:
  assumes h: "hole_sorted a j i tmp" and j: "j \<le> i" "i < length a"
    and t: "j = 0 \<or> a ! (j - 1) \<le> tmp"
  shows "sorted_seg (a[j := tmp]) 0 (Suc i)"
proof -
  have s: "\<And>p q. p < q \<Longrightarrow> q \<le> i \<Longrightarrow> p \<noteq> j \<Longrightarrow> q \<noteq> j \<Longrightarrow> a ! p \<le> a ! q"
    and above: "\<And>q. j < q \<Longrightarrow> q \<le> i \<Longrightarrow> tmp \<le> a ! q"
    using h by (auto simp: hole_sorted_def)
  have below: "a ! p \<le> tmp" if "p < j" for p
  proof -
    have "p = j - 1 \<or> p < j - 1" using that by linarith
    then have "a ! p \<le> a ! (j - 1)" using s [of p "j - 1"] that j by auto
    with t that show ?thesis by simp
  qed
  show ?thesis
    unfolding sorted_seg_def using j s above below
    by (auto simp: nth_list_update less_Suc_eq_le)
qed

text \<open>Filling the hole with \<open>tmp\<close>, the array stays a rearrangement; this holds for any
  gap.\<close>

lemma shell_shift_perm:
  "0 < sep \<Longrightarrow> j < length a \<Longrightarrow> returns (shell_shift a sep j tmp)
     (\<lambda>(b, j'). j' \<le> j \<and> perm_seg (a[j := tmp]) (b[j' := tmp]) 0 (Suc j))"
proof (induction a sep j tmp rule: shell_shift.induct)
  case (1 a sep j tmp)
  show ?case
  proof (cases "sep \<le> j \<and> tmp < a ! (j - sep)")
    case False
    with 1 show ?thesis by (auto simp: shell_shift.simps [of a sep j tmp])
  next
    case True
    define a' where "a' = a[j := a ! (j - sep)]"
    have run: "shell_shift a sep j tmp = shell_shift a' sep (j - sep) tmp"
      using True 1 by (subst shell_shift.simps) (simp add: a'_def)
    have "j - sep \<noteq> j" using True 1 by linarith
    then have "a'[j - sep := tmp] = (a[j := tmp])[j := a[j := tmp] ! (j - sep), j - sep := a[j := tmp] ! j]"
      using True 1 by (simp add: a'_def)
    then have p: "perm_seg (a[j := tmp]) (a'[j - sep := tmp]) 0 (Suc j)"
      using True 1 by (simp only: perm_seg_swap length_list_update)
    have "returns (shell_shift a' sep (j - sep) tmp)
        (\<lambda>(b, j'). j' \<le> j - sep \<and> perm_seg (a'[j - sep := tmp]) (b[j' := tmp]) 0 (Suc (j - sep)))"
      using "1.IH" [of "a ! (j - sep)" a'] True 1(2,3) by (simp add: a'_def)
    then have "returns (shell_shift a' sep (j - sep) tmp)
        (\<lambda>(b, j'). j' \<le> j \<and> perm_seg (a[j := tmp]) (b[j' := tmp]) 0 (Suc j))"
    proof (rule returns_mono, safe)
      fix b j' assume "j' \<le> j - sep"
        and q: "perm_seg (a'[j - sep := tmp]) (b[j' := tmp]) 0 (Suc (j - sep))"
      then show "j' \<le> j" by linarith
      show "perm_seg (a[j := tmp]) (b[j' := tmp]) 0 (Suc j)"
        using perm_seg_trans [OF p perm_seg_mono [OF q]] by simp
    qed
    then show ?thesis by (simp only: run)
  qed
qed

lemma shell_shift_1: "shell_shift a (Suc 0) j tmp = insert_shift a j tmp"
proof (induction a j tmp rule: insert_shift.induct)
  case (1 a j tmp)
  show ?case
  proof (cases "0 < j \<and> j \<le> length a")
    case False
    then show ?thesis by (auto simp: shell_shift.simps [of a "Suc 0" j tmp] insert_shift.simps [of a j tmp])
  next
    case True
    then have "rd a (j - 1) = Some (a ! (j - 1))" by (intro rd_eq) linarith
    then show ?thesis
      using True 1
      by (cases "tmp < a ! (j - 1)"; cases "wr a j (a ! (j - 1))")
        (auto simp: shell_shift.simps [of a "Suc 0" j tmp] insert_shift.simps [of a j tmp])
  qed
qed

lemma insert_shift_sorted:
  "hole_sorted a j i tmp \<Longrightarrow> j \<le> i \<Longrightarrow> i < length a \<Longrightarrow>
   returns (insert_shift a j tmp) (\<lambda>(b, j'). sorted_seg (b[j' := tmp]) 0 (Suc i))"
proof (induction a j tmp rule: insert_shift.induct)
  case (1 a j tmp)
  show ?case
  proof (cases "0 < j \<and> tmp < a ! (j - 1)")
    case False
    with 1 show ?thesis
      using hole_sorted_fill [OF 1(2-4)] by (subst insert_shift.simps) (auto simp: not_less)
  next
    case True
    then have "hole_sorted (a[j := a ! (j - 1)]) (j - 1) i tmp"
      using hole_sorted_shift [OF 1(2)] 1(3,4) by auto
    with True 1(3,4) "1.IH" [of "a ! (j - 1)" "a[j := a ! (j - 1)]"] show ?thesis
      by (subst insert_shift.simps) auto
  qed
qed

lemma insert_shift_spec:
  assumes "sorted_seg a 0 i" "i < length a"
  shows "returns (insert_shift a i (a ! i)) (\<lambda>(b, j). j < length b \<and>
    perm_seg a (b[j := a ! i]) 0 (Suc i) \<and> sorted_seg (b[j := a ! i]) 0 (Suc i))"
proof -
  have "hole_sorted a i i (a ! i)" using assms by (auto simp: hole_sorted_def sorted_seg_def)
  from insert_shift_sorted [OF this] shell_shift_perm [of "Suc 0" i a "a ! i"] assms
  have "returns (insert_shift a i (a ! i)) (\<lambda>r. (case r of (b, j) \<Rightarrow> sorted_seg (b[j := a ! i]) 0 (Suc i))
     \<and> (case r of (b, j) \<Rightarrow> j \<le> i \<and> perm_seg a (b[j := a ! i]) 0 (Suc i)))"
    by (intro returns_conj) (simp_all add: shell_shift_1)
  then show ?thesis
    by (rule returns_mono) (use assms in \<open>auto dest: perm_seg_length\<close>)
qed

lemma insert_outer_spec:
  "sorted_seg a 0 i \<Longrightarrow> n \<le> length a \<Longrightarrow> returns (insert_outer a i n)
     (\<lambda>b. perm_seg a b 0 n \<and> sorted_seg b 0 n)"
proof (induction a i n rule: insert_outer.induct)
  case (1 a i n)
  show ?case
  proof (cases "i < n")
    case False
    with 1 show ?thesis by (subst insert_outer.simps) (auto simp: sorted_seg_def)
  next
    case True
    obtain b j where b: "insert_shift a i (a ! i) = Some (b, j)" "j < length b"
      "perm_seg a (b[j := a ! i]) 0 (Suc i)" "sorted_seg (b[j := a ! i]) 0 (Suc i)"
      using insert_shift_spec [OF 1(2)] True 1(3) by (auto simp: returns_iff)
    have "returns (insert_outer (b[j := a ! i]) (Suc i) n)
        (\<lambda>c. perm_seg (b[j := a ! i]) c 0 n \<and> sorted_seg c 0 n)"
      using "1.IH" [OF True _ b(1), of b j "b[j := a ! i]"] True 1(3) b perm_seg_length [OF b(3)] by simp
    moreover have "perm_seg a (b[j := a ! i]) 0 n"
      using perm_seg_mono [OF b(3)] True by simp
    ultimately have "returns (insert_outer (b[j := a ! i]) (Suc i) n) (\<lambda>c. perm_seg a c 0 n \<and> sorted_seg c 0 n)"
      by (auto elim!: returns_mono intro: perm_seg_trans)
    then show ?thesis using True b 1(3) by (simp add: insert_outer.simps [of a i n])
  qed
qed

interpretation insert: array_sorter insertsort
  by unfold_locales (simp add: insertsort_def insert_outer_spec)

section \<open>Shell sort\<close>

text \<open>Every pass rearranges the array; the last one, with gap 1, is insertion sort.\<close>

lemma shell_pass_perm:
  "0 < sep \<Longrightarrow> n \<le> length a \<Longrightarrow> returns (shell_pass a sep i n) (\<lambda>b. perm_seg a b 0 n)"
proof (induction a sep i n rule: shell_pass.induct)
  case (1 a sep i n)
  show ?case
  proof (cases "i < n")
    case False
    then show ?thesis by (subst shell_pass.simps) auto
  next
    case True
    obtain b j where b: "shell_shift a sep i (a ! i) = Some (b, j)" "j \<le> i"
      "perm_seg a (b[j := a ! i]) 0 (Suc i)"
      using shell_shift_perm [OF 1(2), of i a "a ! i"] True 1(3) by (auto simp: returns_iff)
    have len: "length b = length a" using perm_seg_length [OF b(3)] by simp
    have p: "perm_seg a (b[j := a ! i]) 0 n" using perm_seg_mono [OF b(3)] True by simp
    have "returns (shell_pass (b[j := a ! i]) sep (Suc i) n) (\<lambda>c. perm_seg (b[j := a ! i]) c 0 n)"
      using "1.IH" [OF True _ b(1), of b j "b[j := a ! i]"] True 1(2,3) b(2) len by simp
    then have "returns (shell_pass (b[j := a ! i]) sep (Suc i) n) (\<lambda>c. perm_seg a c 0 n)"
      by (rule returns_mono) (rule perm_seg_trans [OF p])
    then show ?thesis using True b(1,2) len 1(3) by (simp add: shell_pass.simps [of a sep i n])
  qed
qed

lemma shell_pass_1: "shell_pass a (Suc 0) i n = insert_outer a i n"
proof (induction a i n rule: insert_outer.induct)
  case (1 a i n)
  show ?case
  proof (cases "i < n \<and> i < length a")
    case False
    then show ?thesis
      by (auto simp: shell_pass.simps [of a "Suc 0" i n] insert_outer.simps [of a i n])
  next
    case True
    then show ?thesis
      using 1 by (cases "insert_shift a i (a ! i)")
        (auto simp: shell_pass.simps [of a "Suc 0" i n] insert_outer.simps [of a i n]
          shell_shift_1 wr_def)
  qed
qed

lemma shell_outer_spec:
  "n \<le> length a \<Longrightarrow> 1 \<le> sep \<Longrightarrow> returns (shell_outer a sep n)
     (\<lambda>b. perm_seg a b 0 n \<and> sorted_seg b 0 n)"
proof (induction a sep n rule: shell_outer.induct)
  case (1 a sep n)
  show ?case
  proof (cases "sep = 1")
    case True
    then show ?thesis
      using insert_outer_spec [of a 1 n] 1(2)
      by (simp add: shell_outer.simps [of a _ n] shell_pass_1 returns_iff shell_outer.simps [of _ 0 n])
  next
    case False
    obtain b where b: "shell_pass a sep sep n = Some b" "perm_seg a b 0 n"
      using shell_pass_perm [of sep n a sep] 1(2,3) by (auto simp: returns_iff)
    have "returns (shell_outer b (sep div 2) n) (\<lambda>c. perm_seg b c 0 n \<and> sorted_seg c 0 n)"
      using "1.IH" [OF 1(3) b(1)] False 1(2,3) perm_seg_length [OF b(2)] by simp
    then have "returns (shell_outer b (sep div 2) n) (\<lambda>c. perm_seg a c 0 n \<and> sorted_seg c 0 n)"
      by (auto elim!: returns_mono intro: perm_seg_trans [OF b(2)])
    then show ?thesis using b(1) 1(3) by (simp add: shell_outer.simps [of a sep n])
  qed
qed

interpretation shell: array_sorter shellsort
proof
  fix n and a :: "int list" assume "n \<le> length a"
  then show "returns (shellsort a n) (\<lambda>b. perm_seg a b 0 n \<and> sorted_seg b 0 n)"
    using shell_outer_spec [of n a "n div 2"]
    by (cases "n div 2 = 0") (auto simp: shellsort_def shell_outer.simps [of a 0 n])
qed

section \<open>Properties\<close>

text \<open>The XOR swap exchanges the two elements and leaves the rest of the array alone, also
  when both pointers are equal.\<close>

theorem swap_exchanges:
  "i < length a \<Longrightarrow> j < length a \<Longrightarrow> swap a i j = Some (a[i := a ! j, j := a ! i])"
  by (rule swap_eq)

theorem swap_exchanges_witness: "swap [7, -3, 5] 0 1 = Some [-3, 7, 5]"
  using swap_exchanges [of 0 "[7, -3, 5]" 1] by simp

text \<open>C36: \<open>bubblesort\<close>, \<open>selectsort\<close>, \<open>insertsort\<close> and \<open>shellsort\<close>, called on the first \<open>n\<close>
  elements of an array, stay in bounds, terminate, sort those elements and leave the
  elements behind them alone.\<close>

theorem elementary_sorts_correct:
  assumes "n \<le> length a"
  shows "bubblesort a n = Some (sort (take n a) @ drop n a) \<and>
    selectsort a n = Some (sort (take n a) @ drop n a) \<and>
    insertsort a n = Some (sort (take n a) @ drop n a) \<and>
    shellsort a n = Some (sort (take n a) @ drop n a)"
  using assms by (simp add: bubble.srt_eq select.srt_eq insert.srt_eq shell.srt_eq)

theorem elementary_sorts_correct_witness:
  "bubblesort [3, 1, 2, 0] 3 = Some [1, 2, 3, 0] \<and> selectsort [3, 1, 2, 0] 3 = Some [1, 2, 3, 0] \<and>
   insertsort [3, 1, 2, 0] 3 = Some [1, 2, 3, 0] \<and> shellsort [3, 1, 2, 0] 3 = Some [1, 2, 3, 0]"
  using elementary_sorts_correct [of 3 "[3, 1, 2, 0]"] by simp

end
