(* ===== verification/Merge_Sorts.thy ===== *)
theory Merge_Sorts
  imports Prelude
begin

text \<open>
  The merge sorts: \<open>mergesort\<close>, \<open>msort\<close> and \<open>merge\<close> of \<open>src/clrs/sorting.c\<close>, the same three
  of \<open>src/data_structure_and_algorithm/sort/mergesort.c\<close> (prefix \<open>dsa_\<close>), and the
  inversion counter \<open>src/clrs/problems/02.4inversions.c\<close>, which merges and counts.
  The temporary array comes from \<open>malloc\<close>: its cells hold \<^const>\<open>None\<close> until they are
  written, and reading such a cell is undefined behaviour. The Boolean argument \<open>ok\<close> of
  the entry points says whether \<open>malloc\<close> succeeded.
\<close>

section \<open>The code\<close>

text \<open>Reading a cell of the temporary array.\<close>

definition rdi :: "'a option list \<Rightarrow> nat \<Rightarrow> 'a option" where
  "rdi t i = do { c \<leftarrow> rd t i; c }"

text \<open>\<open>while (i < mid) tmpa[ti++] = a[i++]\<close> and its twin for \<open>j\<close>; both return the array
  and the final \<open>ti\<close>.\<close>

function copy_rest :: "int list \<Rightarrow> int option list \<Rightarrow> nat \<Rightarrow> nat \<Rightarrow> nat \<Rightarrow> (int option list \<times> nat) option"
  where
  "copy_rest a tmpa ti i mid =
     (if i < mid then do {
        x \<leftarrow> rd a i;
        tmpa \<leftarrow> wr tmpa ti (Some x);
        copy_rest a tmpa (Suc ti) (Suc i) mid
      } else Some (tmpa, ti))"
  by pat_completeness auto
termination
  by (relation "measure (\<lambda>(a, tmpa, ti, i, mid). mid - i)") auto

text \<open>The first loop of \<open>merge\<close>; it returns the array and the final \<open>ti\<close>, \<open>i\<close> and \<open>j\<close>.\<close>

function merge_loop :: "int list \<Rightarrow> int option list \<Rightarrow> nat \<Rightarrow> nat \<Rightarrow> nat \<Rightarrow> nat \<Rightarrow> nat
    \<Rightarrow> (int option list \<times> nat \<times> nat \<times> nat) option" where
  "merge_loop a tmpa ti i j mid e =
     (if i < mid \<and> j < e then do {
        x \<leftarrow> rd a i; y \<leftarrow> rd a j;
        if x < y then do {
          tmpa \<leftarrow> wr tmpa ti (Some x);
          merge_loop a tmpa (Suc ti) (Suc i) j mid e
        } else do {
          tmpa \<leftarrow> wr tmpa ti (Some y);
          merge_loop a tmpa (Suc ti) i (Suc j) mid e
        }
      } else Some (tmpa, ti, i, j))"
  by pat_completeness auto
termination
  by (relation "measure (\<lambda>(a, tmpa, ti, i, j, mid, e). (mid - i) + (e - j))") auto

text \<open>\<open>for (i = b, ti = 0; i < e;) a[i++] = tmpa[ti++]\<close>\<close>

function copy_back :: "int list \<Rightarrow> int option list \<Rightarrow> nat \<Rightarrow> nat \<Rightarrow> nat \<Rightarrow> int list option" where
  "copy_back a tmpa ti i e =
     (if i < e then do {
        x \<leftarrow> rdi tmpa ti;
        a \<leftarrow> wr a i x;
        copy_back a tmpa (Suc ti) (Suc i) e
      } else Some a)"
  by pat_completeness auto
termination
  by (relation "measure (\<lambda>(a, tmpa, ti, i, e). e - i)") auto

definition merge :: "int list \<Rightarrow> int option list \<Rightarrow> nat \<Rightarrow> nat \<Rightarrow> nat \<Rightarrow> (int list \<times> int option list) option"
  where
  "merge a tmpa b mid e = do {
     (tmpa, ti, i, j) \<leftarrow> merge_loop a tmpa 0 b mid mid e;
     (tmpa, ti) \<leftarrow> copy_rest a tmpa ti i mid;
     (tmpa, ti) \<leftarrow> copy_rest a tmpa ti j e;
     a \<leftarrow> copy_back a tmpa 0 b e;
     Some (a, tmpa)
   }"

function msort :: "int list \<Rightarrow> int option list \<Rightarrow> nat \<Rightarrow> nat \<Rightarrow> (int list \<times> int option list) option"
  where
  "msort a tmpa b e =
     (if b + 1 < e then do {
        (a, tmpa) \<leftarrow> msort a tmpa b ((b + e) div 2);
        (a, tmpa) \<leftarrow> msort a tmpa ((b + e) div 2) e;
        merge a tmpa b ((b + e) div 2) e
      } else Some (a, tmpa))"
  by pat_completeness auto
termination
  by (relation "measure (\<lambda>(a, tmpa, b, e). e - b)") auto

definition mergesort :: "bool \<Rightarrow> int list \<Rightarrow> nat \<Rightarrow> int list option" where
  "mergesort ok a n =
     (if ok then do {
        (a, tmpa) \<leftarrow> msort a (replicate n None) 0 n;
        Some a
      } else Some a)"

text \<open>\<open>sort/mergesort.c\<close>: the merge writes \<open>tmparray\<close> from \<open>lpos\<close> on and takes the left
  element when both are equal.\<close>

function dsa_merge_loop :: "int list \<Rightarrow> int option list \<Rightarrow> nat \<Rightarrow> nat \<Rightarrow> nat \<Rightarrow> nat \<Rightarrow> nat
    \<Rightarrow> (int option list \<times> nat \<times> nat \<times> nat) option" where
  "dsa_merge_loop a tmparray tmppos lpos rpos leftend rightend =
     (if lpos < leftend \<and> rpos < rightend then do {
        x \<leftarrow> rd a lpos; y \<leftarrow> rd a rpos;
        if x \<le> y then do {
          tmparray \<leftarrow> wr tmparray tmppos (Some x);
          dsa_merge_loop a tmparray (Suc tmppos) (Suc lpos) rpos leftend rightend
        } else do {
          tmparray \<leftarrow> wr tmparray tmppos (Some y);
          dsa_merge_loop a tmparray (Suc tmppos) lpos (Suc rpos) leftend rightend
        }
      } else Some (tmparray, tmppos, lpos, rpos))"
  by pat_completeness auto
termination
  by (relation "measure (\<lambda>(a, t, p, l, r, le, re). (le - l) + (re - r))") auto

definition dsa_merge :: "int list \<Rightarrow> int option list \<Rightarrow> nat \<Rightarrow> nat \<Rightarrow> nat \<Rightarrow> (int list \<times> int option list) option"
  where
  "dsa_merge a tmparray lpos rpos rightend = (
     let i = lpos; tmppos = lpos; leftend = rpos in do {
     (tmparray, tmppos, lpos, rpos) \<leftarrow> dsa_merge_loop a tmparray tmppos lpos rpos leftend rightend;
     (tmparray, tmppos) \<leftarrow> copy_rest a tmparray tmppos lpos leftend;
     (tmparray, tmppos) \<leftarrow> copy_rest a tmparray tmppos rpos rightend;
     a \<leftarrow> copy_back a tmparray i i rightend;
     Some (a, tmparray)
   })"

function dsa_msort :: "int list \<Rightarrow> int option list \<Rightarrow> nat \<Rightarrow> nat \<Rightarrow> (int list \<times> int option list) option"
  where
  "dsa_msort a tmparray left right =
     (if left + 1 < right then do {
        (a, tmparray) \<leftarrow> dsa_msort a tmparray left ((left + right) div 2);
        (a, tmparray) \<leftarrow> dsa_msort a tmparray ((left + right) div 2) right;
        dsa_merge a tmparray left ((left + right) div 2) right
      } else Some (a, tmparray))"
  by pat_completeness auto
termination
  by (relation "measure (\<lambda>(a, t, left, right). right - left)") auto

definition dsa_mergesort :: "bool \<Rightarrow> int list \<Rightarrow> nat \<Rightarrow> int list option" where
  "dsa_mergesort ok a n =
     (if ok then do {
        (a, tmparray) \<leftarrow> dsa_msort a (replicate n None) 0 n;
        Some a
      } else Some a)"

text \<open>\<open>02.4inversions.c\<close>: \<open>tmp\<close> counts the elements already taken from the right half, and
  \<open>*num\<close> grows by \<open>j - i - tmp\<close>, an \<open>int\<close> expression, at every such step.\<close>

function inv_merge_loop :: "int list \<Rightarrow> int option list \<Rightarrow> nat \<Rightarrow> nat \<Rightarrow> nat \<Rightarrow> nat \<Rightarrow> nat \<Rightarrow> int \<Rightarrow> int
    \<Rightarrow> (int option list \<times> nat \<times> nat \<times> nat \<times> int) option" where
  "inv_merge_loop a tmparr index i j mid e num tmp =
     (if i < mid \<and> j < e then do {
        x \<leftarrow> rd a i; y \<leftarrow> rd a j;
        if x \<le> y then do {
          tmparr \<leftarrow> wr tmparr index (Some x);
          inv_merge_loop a tmparr (Suc index) (Suc i) j mid e num tmp
        } else do {
          tmparr \<leftarrow> wr tmparr index (Some y);
          inv_merge_loop a tmparr (Suc index) i (Suc j) mid e (num + (int j - int i - tmp)) (tmp + 1)
        }
      } else Some (tmparr, index, i, j, num))"
  by pat_completeness auto
termination
  by (relation "measure (\<lambda>(a, t, x, i, j, mid, e, n, p). (mid - i) + (e - j))") auto

definition inv_merge :: "int list \<Rightarrow> nat \<Rightarrow> nat \<Rightarrow> nat \<Rightarrow> int \<Rightarrow> int option list
    \<Rightarrow> (int list \<times> int \<times> int option list) option" where
  "inv_merge a beg mid e num tmparr = do {
     (tmparr, index, i, j, num) \<leftarrow> inv_merge_loop a tmparr 0 beg mid mid e num 0;
     (tmparr, index) \<leftarrow> copy_rest a tmparr index i mid;
     (tmparr, index) \<leftarrow> copy_rest a tmparr index j e;
     a \<leftarrow> copy_back a tmparr 0 beg e;
     Some (a, num, tmparr)
   }"

function inversions :: "int list \<Rightarrow> nat \<Rightarrow> nat \<Rightarrow> int \<Rightarrow> int option list
    \<Rightarrow> (int list \<times> int \<times> int option list) option" where
  "inversions a beg e num tmparr =
     (if beg + 1 < e then do {
        (a, num, tmparr) \<leftarrow> inversions a beg ((beg + e) div 2) num tmparr;
        (a, num, tmparr) \<leftarrow> inversions a ((beg + e) div 2) e num tmparr;
        inv_merge a beg ((beg + e) div 2) e num tmparr
      } else Some (a, num, tmparr))"
  by pat_completeness auto
termination
  by (relation "measure (\<lambda>(a, beg, e, n, t). e - beg)") auto

text \<open>\<open>inverse_pairs\<close>: the test \<open>malloc(..) < 0\<close> never holds, so a failed \<open>malloc\<close> passes
  a null pointer on, which is an array without cells.\<close>

definition inverse_pairs :: "bool \<Rightarrow> int list \<Rightarrow> nat \<Rightarrow> int \<Rightarrow> (int list \<times> int) option" where
  "inverse_pairs ok a n num = do {
     (a, num, tmparr) \<leftarrow> inversions a 0 n num (if ok then replicate n None else []);
     Some (a, num)
   }"

lemmas merge_loops =
  copy_rest.simps merge_loop.simps copy_back.simps msort.simps dsa_merge_loop.simps
  dsa_msort.simps inv_merge_loop.simps inversions.simps

declare merge_loops [simp del]

section \<open>The loops compute a reference merge\<close>

text \<open>\<open>mrg c\<close>: merge two lists, taking the left head when \<open>c\<close> holds of the two heads.\<close>

fun mrg :: "('a \<Rightarrow> 'a \<Rightarrow> bool) \<Rightarrow> 'a list \<Rightarrow> 'a list \<Rightarrow> 'a list" where
  "mrg c [] ys = ys"
| "mrg c (x # xs) [] = x # xs"
| "mrg c (x # xs) (y # ys) =
     (if c x y then x # mrg c xs (y # ys) else y # mrg c (x # xs) ys)"

lemma mrg_Nil2 [simp]: "mrg c xs [] = xs"
  by (cases xs) simp_all

lemma mset_mrg [simp]: "mset (mrg c xs ys) = mset xs + mset ys"
  by (induction c xs ys rule: mrg.induct) auto

lemma length_mrg [simp]: "length (mrg c xs ys) = length xs + length ys"
  by (induction c xs ys rule: mrg.induct) auto

lemma set_mrg [simp]: "set (mrg c xs ys) = set xs \<union> set ys"
  by (induction c xs ys rule: mrg.induct) auto

lemma sorted_mrg:
  fixes xs :: "'a::linorder list"
  assumes "\<And>x y. c x y \<Longrightarrow> x \<le> y" and "\<And>x y. \<not> c x y \<Longrightarrow> y \<le> x"
  shows "sorted xs \<Longrightarrow> sorted ys \<Longrightarrow> sorted (mrg c xs ys)"
  using assms by (induction c xs ys rule: mrg.induct) (auto, (meson order.trans)+)

lemma copy_rest_eq:
  "mid \<le> length a \<Longrightarrow> ti + (mid - i) \<le> length t \<Longrightarrow>
   copy_rest a t ti i mid = Some (put t ti (map Some (slice a i mid)), ti + (mid - i))"
proof (induction a t ti i mid rule: copy_rest.induct)
  case (1 a t ti i mid)
  then show ?case
    by (cases "i < mid") (auto simp: copy_rest.simps [of a t ti i mid] slice_Cons put_update)
qed

lemma copy_rests_eq:
  assumes "mid \<le> length a" "e \<le> length a" "ti + (mid - i) + (e - j) \<le> length t"
  shows "do { (t, ti) \<leftarrow> copy_rest a t ti i mid; copy_rest a t ti j e } =
    Some (put t ti (map Some (slice a i mid @ slice a j e)), ti + (mid - i) + (e - j))"
  using assms put_put [of ti "map Some (slice a i mid)" t "map Some (slice a j e)"]
  by (simp add: copy_rest_eq)

text \<open>The state in which the first loop stops, and what is then appended.\<close>

lemma merge_loop_eq:
  "mid \<le> length a \<Longrightarrow> e \<le> length a \<Longrightarrow> ti + (mid - i) + (e - j) \<le> length t \<Longrightarrow>
   do { (t, ti, i, j) \<leftarrow> merge_loop a t ti i j mid e;
        (t, ti) \<leftarrow> copy_rest a t ti i mid; copy_rest a t ti j e } =
   Some (put t ti (map Some (mrg (<) (slice a i mid) (slice a j e))), ti + (mid - i) + (e - j))"
proof (induction a t ti i j mid e rule: merge_loop.induct)
  case (1 a t ti i j mid e)
  show ?case
  proof (cases "i < mid \<and> j < e")
    case False
    then have "slice a i mid = [] \<or> slice a j e = []" by auto
    then show ?thesis
      using 1(3-5) False copy_rests_eq [of mid a e ti i j t]
      by (auto simp: merge_loop.simps [of a t ti i j mid e] not_less)
  next
    case True
    then show ?thesis
      using 1 by (auto simp: merge_loop.simps [of a t ti i j mid e] slice_Cons put_update)
  qed
qed

lemma inv_merge_loop_dsa:
  "map_option (\<lambda>(t, ti, i, j, num). (t, ti, i, j)) (inv_merge_loop a t ti i j mid e num tmp) =
   dsa_merge_loop a t ti i j mid e"
proof (induction a t ti i j mid e num tmp rule: inv_merge_loop.induct)
  case (1 a t ti i j mid e num tmp)
  show ?case
    by (subst inv_merge_loop.simps, subst dsa_merge_loop.simps)
      (use 1 in \<open>auto simp: rd_def wr_def\<close>)
qed

lemma dsa_merge_loop_eq:
  "mid \<le> length a \<Longrightarrow> e \<le> length a \<Longrightarrow> ti + (mid - i) + (e - j) \<le> length t \<Longrightarrow>
   do { (t, ti, i, j) \<leftarrow> dsa_merge_loop a t ti i j mid e;
        (t, ti) \<leftarrow> copy_rest a t ti i mid; copy_rest a t ti j e } =
   Some (put t ti (map Some (mrg (\<le>) (slice a i mid) (slice a j e))), ti + (mid - i) + (e - j))"
proof (induction a t ti i j mid e rule: dsa_merge_loop.induct)
  case (1 a t ti i j mid e)
  show ?case
  proof (cases "i < mid \<and> j < e")
    case False
    then have "slice a i mid = [] \<or> slice a j e = []" by auto
    then show ?thesis
      using 1(3-5) False copy_rests_eq [of mid a e ti i j t]
      by (auto simp: dsa_merge_loop.simps [of a t ti i j mid e] not_less)
  next
    case True
    then show ?thesis
      using 1 by (auto simp: dsa_merge_loop.simps [of a t ti i j mid e] slice_Cons put_update)
  qed
qed

lemma copy_back_eq:
  "e \<le> length a \<Longrightarrow> i \<le> e \<Longrightarrow> ti + (e - i) \<le> length t \<Longrightarrow> slice t ti (ti + (e - i)) = map Some zs \<Longrightarrow>
   copy_back a t ti i e = Some (put a i zs)"
proof (induction a t ti i e arbitrary: zs rule: copy_back.induct)
  case (1 a t ti i e)
  show ?case
  proof (cases "i < e")
    case False
    with 1 show ?thesis by (subst copy_back.simps) auto
  next
    case True
    then have eq: "ti + (e - i) = Suc ti + (e - Suc i)" by simp
    have "map Some zs = t ! ti # slice t (Suc ti) (Suc ti + (e - Suc i))"
      using slice_Cons [of ti "ti + (e - i)" t] "1.prems" True unfolding eq by simp
    then obtain z zs' where zs: "zs = z # zs'" "t ! ti = Some z"
      and rest: "slice t (Suc ti) (Suc ti + (e - Suc i)) = map Some zs'"
      by (cases zs) auto
    have "copy_back (a[i := z]) t (Suc ti) (Suc i) e = Some (put (a[i := z]) (Suc i) zs')"
      using "1.IH" [OF True, of z "a[i := z]" zs'] True "1.prems" zs rest by (simp add: rdi_def)
    then show ?thesis
      using True "1.prems" zs by (simp add: copy_back.simps [of a t ti i e] rdi_def put_update)
  qed
qed

section \<open>Sorting\<close>

text \<open>The outcome of a merge step, shared by the three programs.\<close>

lemma put_mrg_sorted:
  fixes a :: "int list"
  assumes c: "\<And>x y. c x y \<Longrightarrow> x \<le> y" "\<And>x y. \<not> c x y \<Longrightarrow> y \<le> x"
    and le: "b \<le> mid" "mid \<le> e" "e \<le> length a"
    and s: "sorted_seg a b mid" "sorted_seg a mid e"
  shows "perm_seg a (put a b (mrg c (slice a b mid) (slice a mid e))) b e"
    and "sorted_seg (put a b (mrg c (slice a b mid) (slice a mid e))) b e"
proof -
  let ?zs = "mrg c (slice a b mid) (slice a mid e)"
  have len: "length ?zs = e - b" using le by simp
  have "slice a b e = slice a b mid @ slice a mid e"
    using le by (rule slice_append)
  then show "perm_seg a (put a b ?zs) b e"
    using le len by (subst perm_seg_iff) (auto simp: put_def intro!: exI [of _ ?zs])
  have "sorted ?zs" using s le by (intro sorted_mrg) (auto dest: c simp: sorted_slice)
  moreover have "slice (put a b ?zs) b (b + length ?zs) = ?zs" using le len by (intro slice_put) simp
  ultimately have "sorted (slice (put a b ?zs) b e)" using le len by simp
  then show "sorted_seg (put a b ?zs) b e"
    using le len by (subst (asm) sorted_slice) (simp_all add: length_put)
qed

lemma merge_spec:
  assumes le: "b \<le> mid" "mid \<le> e" "e \<le> length a" "e - b \<le> length t"
    and s: "sorted_seg a b mid" "sorted_seg a mid e"
  shows "returns (merge a t b mid e)
    (\<lambda>(a', t'). perm_seg a a' b e \<and> sorted_seg a' b e \<and> length t' = length t)"
proof -
  let ?zs = "mrg (<) (slice a b mid) (slice a mid e)"
  have len: "length ?zs = e - b" using le by simp
  have "slice (put t 0 (map Some ?zs)) 0 (0 + (e - b)) = map Some ?zs"
    using slice_put [of 0 "map Some ?zs" t] le len by simp
  then have "copy_back a (put t 0 (map Some ?zs)) 0 b e = Some (put a b ?zs)"
    using le len by (intro copy_back_eq) auto
  moreover have "do { (t, ti, i, j) \<leftarrow> merge_loop a t 0 b mid mid e;
        (t, ti) \<leftarrow> copy_rest a t ti i mid; copy_rest a t ti j e } =
      Some (put t 0 (map Some ?zs), 0 + (mid - b) + (e - mid))"
    using le by (intro merge_loop_eq) auto
  ultimately have "merge a t b mid e = Some (put a b ?zs, put t 0 (map Some ?zs))"
    by (fastforce simp: merge_def Option.bind_eq_Some_conv split: prod.splits)
  then show ?thesis
    using put_mrg_sorted [of "(<)" b mid e a] le s len by simp
qed

lemma dsa_merge_spec:
  assumes le: "b \<le> mid" "mid \<le> e" "e \<le> length a" "e \<le> length t"
    and s: "sorted_seg a b mid" "sorted_seg a mid e"
  shows "returns (dsa_merge a t b mid e)
    (\<lambda>(a', t'). perm_seg a a' b e \<and> sorted_seg a' b e \<and> length t' = length t)"
proof -
  let ?zs = "mrg (\<le>) (slice a b mid) (slice a mid e)"
  have len: "length ?zs = e - b" using le by simp
  have "slice (put t b (map Some ?zs)) b (b + (e - b)) = map Some ?zs"
    using slice_put [of b "map Some ?zs" t] le len by simp
  then have "copy_back a (put t b (map Some ?zs)) b b e = Some (put a b ?zs)"
    using le len by (intro copy_back_eq) auto
  moreover have "do { (t, ti, i, j) \<leftarrow> dsa_merge_loop a t b b mid mid e;
        (t, ti) \<leftarrow> copy_rest a t ti i mid; copy_rest a t ti j e } =
      Some (put t b (map Some ?zs), b + (mid - b) + (e - mid))"
    using le by (intro dsa_merge_loop_eq) auto
  ultimately have "dsa_merge a t b mid e = Some (put a b ?zs, put t b (map Some ?zs))"
    by (fastforce simp: dsa_merge_def Option.bind_eq_Some_conv split: prod.splits)
  then show ?thesis
    using put_mrg_sorted [of "(\<le>)" b mid e a] le s len by simp
qed

text \<open>Two sorted halves after the two recursive calls.\<close>

lemma halves_sorted:
  assumes "perm_seg a a1 b mid" "sorted_seg a1 b mid" "perm_seg a1 a2 mid e" "sorted_seg a2 mid e"
    and le: "b \<le> mid" "mid \<le> e" "e \<le> length a"
  shows "perm_seg a a2 b e" "sorted_seg a2 b mid" "length a1 = length a" "length a2 = length a"
proof -
  note len = perm_seg_length [OF assms(1)] perm_seg_length [OF assms(3)]
  show "length a1 = length a" "length a2 = length a" using len by simp_all
  show "perm_seg a a2 b e"
    using perm_seg_trans [OF perm_seg_mono [OF assms(1)] perm_seg_mono [OF assms(3)]] le by simp
  have "a2 ! i = a1 ! i" if "b \<le> i" "i < mid" for i
    using perm_seg_outside [OF assms(3)] that le len by simp
  then show "sorted_seg a2 b mid" using assms(2) sorted_seg_cong by metis
qed

lemma msort_spec:
  "b \<le> e \<Longrightarrow> e \<le> length a \<Longrightarrow> e - b \<le> length t \<Longrightarrow> returns (msort a t b e)
     (\<lambda>(a', t'). perm_seg a a' b e \<and> sorted_seg a' b e \<and> length t' = length t)"
proof (induction a t b e rule: msort.induct)
  case (1 a t b e)
  let ?m = "(b + e) div 2"
  show ?case
  proof (cases "b + 1 < e")
    case False
    with 1 show ?thesis by (subst msort.simps) auto
  next
    case True
    then have m: "b \<le> ?m" "?m \<le> e" by auto
    with "1.prems" have lt: "?m - b \<le> length t" "e - ?m \<le> length t" by linarith+
    obtain a1 t1 where 1: "msort a t b ?m = Some (a1, t1)" "perm_seg a a1 b ?m" "sorted_seg a1 b ?m"
        "length t1 = length t"
      using "1.IH"(1) [OF True] m lt 1(4,5) by (auto simp: returns_iff)
    obtain a2 t2 where 2: "msort a1 t1 ?m e = Some (a2, t2)" "perm_seg a1 a2 ?m e" "sorted_seg a2 ?m e"
        "length t2 = length t"
      using "1.IH"(2) [OF True 1(1) refl] m lt "1.prems" 1(4) perm_seg_length [OF 1(2)]
      by (auto simp: returns_iff)
    note h = halves_sorted [OF 1(2,3) 2(2,3) m "1.prems"(2)]
    have "returns (merge a2 t2 b ?m e)
        (\<lambda>(a', t'). perm_seg a a' b e \<and> sorted_seg a' b e \<and> length t' = length t)"
      using merge_spec [OF m _ _ h(2) 2(3), of t2] "1.prems" h(4) 2(4)
      by (auto elim!: returns_mono intro: perm_seg_trans [OF h(1)])
    then show ?thesis
      using True by (simp add: msort.simps [of a t b e] 1(1) 2(1))
  qed
qed

lemma dsa_msort_spec:
  "b \<le> e \<Longrightarrow> e \<le> length a \<Longrightarrow> e \<le> length t \<Longrightarrow> returns (dsa_msort a t b e)
     (\<lambda>(a', t'). perm_seg a a' b e \<and> sorted_seg a' b e \<and> length t' = length t)"
proof (induction a t b e rule: dsa_msort.induct)
  case (1 a t b e)
  let ?m = "(b + e) div 2"
  show ?case
  proof (cases "b + 1 < e")
    case False
    with 1 show ?thesis by (subst dsa_msort.simps) auto
  next
    case True
    then have m: "b \<le> ?m" "?m \<le> e" by auto
    obtain a1 t1 where 1: "dsa_msort a t b ?m = Some (a1, t1)" "perm_seg a a1 b ?m"
        "sorted_seg a1 b ?m" "length t1 = length t"
      using "1.IH"(1) [OF True] m 1(4,5) by (auto simp: returns_iff)
    obtain a2 t2 where 2: "dsa_msort a1 t1 ?m e = Some (a2, t2)" "perm_seg a1 a2 ?m e"
        "sorted_seg a2 ?m e" "length t2 = length t"
      using "1.IH"(2) [OF True 1(1) refl] m "1.prems" 1(4) perm_seg_length [OF 1(2)]
      by (auto simp: returns_iff)
    note h = halves_sorted [OF 1(2,3) 2(2,3) m "1.prems"(2)]
    have "returns (dsa_merge a2 t2 b ?m e)
        (\<lambda>(a', t'). perm_seg a a' b e \<and> sorted_seg a' b e \<and> length t' = length t)"
      using dsa_merge_spec [OF m _ _ h(2) 2(3), of t2] "1.prems" h(4) 2(4)
      by (auto elim!: returns_mono intro: perm_seg_trans [OF h(1)])
    then show ?thesis
      using True by (simp add: dsa_msort.simps [of a t b e] 1(1) 2(1))
  qed
qed

interpretation clrs_ms: array_sorter "mergesort True"
proof
  fix n and a :: "int list" assume "n \<le> length a"
  then show "returns (mergesort True a n) (\<lambda>b. perm_seg a b 0 n \<and> sorted_seg b 0 n)"
    using msort_spec [of 0 n a "replicate n None"]
    by (auto simp: mergesort_def returns_iff)
qed

interpretation dsa_ms: array_sorter "dsa_mergesort True"
proof
  fix n and a :: "int list" assume "n \<le> length a"
  then show "returns (dsa_mergesort True a n) (\<lambda>b. perm_seg a b 0 n \<and> sorted_seg b 0 n)"
    using dsa_msort_spec [of 0 n a "replicate n None"]
    by (auto simp: dsa_mergesort_def returns_iff)
qed

section \<open>Counting inversions\<close>

text \<open>The specification: the pairs of positions that are out of order.\<close>

definition inversion_pairs :: "int list \<Rightarrow> (nat \<times> nat) set" where
  "inversion_pairs xs = {(p, q). p < q \<and> q < length xs \<and> xs ! q < xs ! p}"

text \<open>The same number by recursion, and the pairs between two lists.\<close>

fun invs :: "int list \<Rightarrow> nat" where
  "invs [] = 0"
| "invs (x # xs) = length (filter (\<lambda>y. y < x) xs) + invs xs"

fun cross :: "int list \<Rightarrow> int list \<Rightarrow> nat" where
  "cross [] ys = 0"
| "cross (x # xs) ys = length (filter (\<lambda>y. y < x) ys) + cross xs ys"

lemma finite_inversion_pairs: "finite (inversion_pairs xs)"
  by (rule finite_subset [of _ "{..length xs} \<times> {..length xs}"]) (auto simp: inversion_pairs_def)

lemma inversion_pairs_Cons: "inversion_pairs (x # xs) =
    (\<lambda>q. (0, Suc q)) ` {q. q < length xs \<and> xs ! q < x} \<union> (\<lambda>(p, q). (Suc p, Suc q)) ` inversion_pairs xs"
proof (intro set_eqI, clarify)
  fix p q
  show "(p, q) \<in> inversion_pairs (x # xs) \<longleftrightarrow>
    (p, q) \<in> (\<lambda>q. (0, Suc q)) ` {q. q < length xs \<and> xs ! q < x} \<union> (\<lambda>(p, q). (Suc p, Suc q)) ` inversion_pairs xs"
    by (cases p; cases q) (auto simp: inversion_pairs_def image_iff)
qed

lemma card_inversion_pairs: "card (inversion_pairs xs) = invs xs"
proof (induction xs)
  case Nil
  then show ?case by (simp add: inversion_pairs_def)
next
  case (Cons x xs)
  have "card (inversion_pairs (x # xs)) =
      card ((\<lambda>q. (0::nat, Suc q)) ` {q. q < length xs \<and> xs ! q < x}) +
      card ((\<lambda>(p, q). (Suc p, Suc q)) ` inversion_pairs xs)"
    unfolding inversion_pairs_Cons
    by (rule card_Un_disjoint) (auto simp: finite_inversion_pairs)
  also have "\<dots> = card {q. q < length xs \<and> xs ! q < x} + card (inversion_pairs xs)"
    by (subst (1 2) card_image) (auto simp: inj_on_def)
  finally show ?case using Cons.IH by (simp add: length_filter_conv_card)
qed

lemma cross_mset:
  "mset ys = mset ys' \<Longrightarrow> cross xs ys = cross xs ys'"
  by (induction xs) (auto, metis mset_filter size_mset)

lemma cross_eq: "cross xs ys = (\<Sum>x\<in>#mset xs. length (filter (\<lambda>y. y < x) ys))"
  by (induction xs) auto

lemma invs_append: "invs (xs @ ys) = invs xs + invs ys + cross xs ys"
  by (induction xs) auto

lemma cross_Cons2: "cross xs (y # ys) = length (filter (\<lambda>x. y < x) xs) + cross xs ys"
  by (induction xs) auto

lemma cross_Nil2 [simp]: "cross xs [] = 0"
  by (induction xs) auto

lemma invs_sorted: "sorted xs \<Longrightarrow> invs xs = 0"
  by (induction xs) (auto simp: filter_empty_conv)

lemma inv_merge_loop_count:
  "mid \<le> length a \<Longrightarrow> e \<le> length a \<Longrightarrow> ti + (mid - i) + (e - j) \<le> length t \<Longrightarrow>
   sorted (slice a i mid) \<Longrightarrow> sorted (slice a j e) \<Longrightarrow> tmp = int j - int mid \<Longrightarrow>
   returns (inv_merge_loop a t ti i j mid e num tmp)
     (\<lambda>(t', ti', i', j', num'). num' = num + int (cross (slice a i mid) (slice a j e)))"
proof (induction a t ti i j mid e num tmp rule: inv_merge_loop.induct)
  case (1 a t ti i j mid e num tmp)
  show ?case
  proof (cases "i < mid \<and> j < e")
    case False
    then have "cross (slice a i mid) (slice a j e) = 0" by auto
    with False show ?thesis by (subst inv_merge_loop.simps) auto
  next
    case True
    then have sl: "slice a i mid = a ! i # slice a (Suc i) mid" "slice a j e = a ! j # slice a (Suc j) e"
      using 1(3,4) by (simp_all add: slice_Cons)
    have small: "a ! i \<le> a ! j \<Longrightarrow> filter (\<lambda>y. y < a ! i) (slice a j e) = []"
      using 1(7) unfolding sl by (force simp: filter_empty_conv)
    have big: "a ! j < a ! i \<Longrightarrow> filter (\<lambda>x. a ! j < x) (slice a i mid) = slice a i mid"
      using 1(6) unfolding sl by (force simp: filter_id_conv)
    have len: "length (slice a i mid) = mid - i" using 1(3) by simp
    have room: "Suc ti + (mid - Suc i) + (e - j) \<le> length t" "Suc ti + (mid - i) + (e - Suc j) \<le> length t"
        "ti < length t"
      using True 1(5) by linarith+
    have tails: "sorted (slice a (Suc i) mid)" "sorted (slice a (Suc j) e)"
      using 1(6,7) unfolding sl by simp_all
    show ?thesis
    proof (cases "a ! i \<le> a ! j")
      case le: True
      have "returns (inv_merge_loop a (t[ti := Some (a ! i)]) (Suc ti) (Suc i) j mid e num tmp)
        (\<lambda>(t', ti', i', j', num'). num' = num + int (cross (slice a (Suc i) mid) (slice a j e)))"
        using "1.IH"(1) [OF True, of "a ! i" "a ! j" "t[ti := Some (a ! i)]"] True le "1.prems" room tails by simp
      moreover have "cross (slice a i mid) (slice a j e) = cross (slice a (Suc i) mid) (slice a j e)"
        using small [OF le] by (subst sl(1)) simp
      ultimately show ?thesis
        using True le room "1.prems" by (subst inv_merge_loop.simps) simp
    next
      case gt: False
      let ?num = "num + (int j - int i - tmp)"
      have "returns (inv_merge_loop a (t[ti := Some (a ! j)]) (Suc ti) i (Suc j) mid e ?num (tmp + 1))
        (\<lambda>(t', ti', i', j', num'). num' = ?num + int (cross (slice a i mid) (slice a (Suc j) e)))"
        using "1.IH"(2) [OF True, of "a ! i" "a ! j" "t[ti := Some (a ! j)]"] True gt "1.prems" room tails by simp
      moreover have "int (cross (slice a i mid) (slice a j e)) =
          (int j - int i - tmp) + int (cross (slice a i mid) (slice a (Suc j) e))"
        using big gt len True 1(8) by (subst sl(2)) (simp add: cross_Cons2)
      ultimately show ?thesis
        using True gt room "1.prems"(1,2) by (subst inv_merge_loop.simps) (simp add: add.assoc)
    qed
  qed
qed

lemma inv_merge_spec:
  assumes le: "b \<le> mid" "mid \<le> e" "e \<le> length a" "e - b \<le> length t"
    and s: "sorted_seg a b mid" "sorted_seg a mid e"
  shows "returns (inv_merge a b mid e num t)
    (\<lambda>(a', num', t'). perm_seg a a' b e \<and> sorted_seg a' b e \<and> length t' = length t \<and>
       num' = num + int (cross (slice a b mid) (slice a mid e)))"
proof -
  let ?zs = "mrg (\<le>) (slice a b mid) (slice a mid e)"
  have len: "length ?zs = e - b" using le by simp
  have room: "0 + (mid - b) + (e - mid) \<le> length t" using le by simp
  obtain t1 i1 j1 k1 num1 where l: "inv_merge_loop a t 0 b mid mid e num 0 = Some (t1, k1, i1, j1, num1)"
      "num1 = num + int (cross (slice a b mid) (slice a mid e))"
    using inv_merge_loop_count [OF _ _ room, of a 0 num] le s by (auto simp: returns_iff sorted_slice)
  then have d: "dsa_merge_loop a t 0 b mid mid e = Some (t1, k1, i1, j1)"
    using inv_merge_loop_dsa [of a t 0 b mid mid e num 0] by simp
  have "slice (put t 0 (map Some ?zs)) 0 (0 + (e - b)) = map Some ?zs"
    using slice_put [of 0 "map Some ?zs" t] le len by simp
  then have "copy_back a (put t 0 (map Some ?zs)) 0 b e = Some (put a b ?zs)"
    using le len by (intro copy_back_eq) auto
  moreover have "do { (t, ti) \<leftarrow> copy_rest a t1 k1 i1 mid; copy_rest a t ti j1 e } =
      Some (put t 0 (map Some ?zs), 0 + (mid - b) + (e - mid))"
    using dsa_merge_loop_eq [OF _ _ room, of a] le d by simp
  ultimately have "inv_merge a b mid e num t = Some (put a b ?zs, num1, put t 0 (map Some ?zs))"
    using l(1) by (fastforce simp: inv_merge_def Option.bind_eq_Some_conv split: prod.splits)
  then show ?thesis
    using put_mrg_sorted [of "(\<le>)" b mid e a] le s len l(2) by simp
qed

lemma inversions_spec:
  "b \<le> e \<Longrightarrow> e \<le> length a \<Longrightarrow> e - b \<le> length t \<Longrightarrow> returns (inversions a b e num t)
     (\<lambda>(a', num', t'). perm_seg a a' b e \<and> sorted_seg a' b e \<and> length t' = length t \<and>
        num' = num + int (invs (slice a b e)))"
proof (induction a b e num t rule: inversions.induct)
  case (1 a b e num t)
  let ?m = "(b + e) div 2"
  show ?case
  proof (cases "b + 1 < e")
    case False
    then have "invs (slice a b e) = 0"
      using 1(4) by (cases "b < e") (auto simp: slice_Cons not_less)
    with False show ?thesis by (subst inversions.simps) auto
  next
    case True
    then have m: "b \<le> ?m" "?m \<le> e" by auto
    with "1.prems" have lt: "?m - b \<le> length t" "e - ?m \<le> length t" "?m \<le> length a" by linarith+
    obtain a1 n1 t1 where 1: "inversions a b ?m num t = Some (a1, n1, t1)" "perm_seg a a1 b ?m"
        "sorted_seg a1 b ?m" "length t1 = length t" "n1 = num + int (invs (slice a b ?m))"
      using "1.IH"(1) [OF True] m lt by (auto simp: returns_iff)
    note len1 = perm_seg_length [OF 1(2)]
    have tail: "slice a1 ?m e = slice a ?m e"
      using perm_seg_slice_outside [OF 1(2), of e ?m] "1.prems" by simp
    obtain a2 n2 t2 where 2: "inversions a1 ?m e n1 t1 = Some (a2, n2, t2)" "perm_seg a1 a2 ?m e"
        "sorted_seg a2 ?m e" "length t2 = length t" "n2 = n1 + int (invs (slice a ?m e))"
      using "1.IH"(2) [OF True 1(1) refl refl] m lt "1.prems" 1(4) len1 tail
      by (auto simp: returns_iff)
    note h = halves_sorted [OF 1(2,3) 2(2,3) m "1.prems"(2)]
    have "mset (slice a2 b ?m) = mset (slice a b ?m)"
      using perm_seg_slice_outside [OF 2(2), of ?m b] perm_seg_slice [OF 1(2)] m lt len1 by simp
    moreover have "mset (slice a2 ?m e) = mset (slice a ?m e)"
      using perm_seg_slice [OF 2(2)] m "1.prems" len1 tail by simp
    ultimately have "cross (slice a2 b ?m) (slice a2 ?m e) = cross (slice a b ?m) (slice a ?m e)"
      using cross_mset by (metis cross_eq)
    then have "num + int (invs (slice a b e)) = n2 + int (cross (slice a2 b ?m) (slice a2 ?m e))"
      using slice_append [OF m "1.prems"(2)] 1(5) 2(5) by (simp add: invs_append)
    then have "returns (inv_merge a2 b ?m e n2 t2)
        (\<lambda>(a', num', t'). perm_seg a a' b e \<and> sorted_seg a' b e \<and> length t' = length t \<and>
           num' = num + int (invs (slice a b e)))"
      using inv_merge_spec [OF m _ _ h(2) 2(3), of t2 n2] "1.prems" h(4) 2(4)
      by (auto elim!: returns_mono intro: perm_seg_trans [OF h(1)])
    then show ?thesis
      using True by (simp add: inversions.simps [of a b e num t] 1(1) 2(1))
  qed
qed

section \<open>Properties\<close>

text \<open>Both merge sorts, when \<open>malloc\<close> succeeds, never read an uninitialised or foreign
  cell, terminate, sort the first \<open>n\<close> elements and leave the elements behind them alone;
  when \<open>malloc\<close> fails they leave the array as it is.\<close>

theorem merge_sorts_correct:
  assumes "n \<le> length a"
  shows "mergesort True a n = Some (sort (take n a) @ drop n a) \<and>
    dsa_mergesort True a n = Some (sort (take n a) @ drop n a) \<and>
    mergesort False a n = Some a \<and> dsa_mergesort False a n = Some a"
  using assms
  by (simp add: clrs_ms.srt_eq dsa_ms.srt_eq mergesort_def [of False] dsa_mergesort_def [of False])

theorem merge_sorts_correct_witness:
  "mergesort True [3, 1, 2, 0] 3 = Some [1, 2, 3, 0] \<and> dsa_mergesort True [3, 1, 2, 0] 3 = Some [1, 2, 3, 0]"
  using merge_sorts_correct [of 3 "[3, 1, 2, 0]"] by simp

text \<open>\<open>inverse_pairs(a, n, &num)\<close> sorts the array and adds to \<open>num\<close> the number of pairs of
  positions whose elements are out of order.\<close>

theorem inverse_pairs_counts:
  assumes "n \<le> length a"
  shows "inverse_pairs True a n num =
    Some (sort (take n a) @ drop n a, num + int (card (inversion_pairs (take n a))))"
proof -
  obtain b num' t' where "inversions a 0 n num (replicate n None) = Some (b, num', t')"
    "perm_seg a b 0 n" "sorted_seg b 0 n" "num' = num + int (invs (take n a))"
    using inversions_spec [of 0 n a "replicate n None" num] assms by (auto simp: returns_iff slice_def)
  then show ?thesis
    using sorted_seg_prefix [of a b n] assms by (simp add: inverse_pairs_def card_inversion_pairs)
qed

theorem inverse_pairs_counts_witness:
  "inverse_pairs True [2, 3, 8, 6, 1] 5 0 = Some ([1, 2, 3, 6, 8], 5)"
proof -
  have "card (inversion_pairs [2, 3, 8, 6, 1]) = 5" by (simp add: card_inversion_pairs)
  with inverse_pairs_counts [of 5 "[2, 3, 8, 6, 1]" 0] show ?thesis by simp
qed

end
