(* ===== verification/Heap_Order.thy ===== *)
theory Heap_Order
  imports Prelude
begin

text \<open>
  The heap order that \<open>src/clrs/sorting.c\<close> (\<open>sink\<close>), \<open>sort/heapsort.c\<close> (\<open>percdown\<close>) and
  \<open>priority_queue/heap/heap.c\<close> share. Nodes are numbered from 1, the children of \<open>k\<close> are
  \<open>2k\<close> and \<open>2k+1\<close>, and \<open>f c\<close> is the element at node \<open>c\<close>; \<open>R\<close> is \<open>(\<ge>)\<close> for a max-heap
  and \<open>(\<le>)\<close> for a min-heap. The laws that sifting needs of \<open>R\<close> are a locale, interpreted
  for both orders.
\<close>

definition heap_on :: "('a \<Rightarrow> 'a \<Rightarrow> bool) \<Rightarrow> (nat \<Rightarrow> 'a) \<Rightarrow> nat \<Rightarrow> nat \<Rightarrow> bool" where
  "heap_on R f lo n \<longleftrightarrow> (\<forall>c. 2 \<le> c \<and> c \<le> n \<and> lo \<le> c div 2 \<longrightarrow> R (f (c div 2)) (f c))"

text \<open>The heap order except between \<open>k\<close> and its children; the children of \<open>k\<close> are in order
  with the parent of \<open>k\<close>.\<close>

definition heap_but :: "('a \<Rightarrow> 'a \<Rightarrow> bool) \<Rightarrow> (nat \<Rightarrow> 'a) \<Rightarrow> nat \<Rightarrow> nat \<Rightarrow> nat \<Rightarrow> bool" where
  "heap_but R f lo n k \<longleftrightarrow>
     (\<forall>c. 2 \<le> c \<and> c \<le> n \<and> lo \<le> c div 2 \<and> c div 2 \<noteq> k \<longrightarrow> R (f (c div 2)) (f c)) \<and>
     (\<forall>c. 2 \<le> c \<and> c \<le> n \<and> c div 2 = k \<and> lo \<le> k div 2 \<longrightarrow> R (f (k div 2)) (f c))"

lemma heap_on_cong:
  assumes "1 \<le> lo" "\<And>c. 1 \<le> c \<Longrightarrow> c \<le> n \<Longrightarrow> f c = g c"
  shows "heap_on R f lo n = heap_on R g lo n"
proof -
  have "f (c div 2) = g (c div 2) \<and> f c = g c" if "2 \<le> c" "c \<le> n" for c
    using assms(2) [of c] assms(2) [of "c div 2"] that by auto
  then show ?thesis unfolding heap_on_def by metis
qed

lemma heap_but_cong:
  assumes h: "heap_but R f lo n k" and lo: "1 \<le> lo" and eq: "\<And>c. 1 \<le> c \<Longrightarrow> c \<le> n \<Longrightarrow> f c = g c"
  shows "heap_but R g lo n k"
proof -
  have *: "f (c div 2) = g (c div 2)" "f c = g c" if "2 \<le> c" "c \<le> n" for c
    using eq [of c] eq [of "c div 2"] that by auto
  have two: "R (g (k div 2)) (g c)" if c: "2 \<le> c" "c \<le> n" "c div 2 = k" "lo \<le> k div 2" for c
  proof -
    have "k div 2 \<le> n" using c div_le_dividend [of c 2] div_le_dividend [of k 2] by linarith
    then have "f (k div 2) = g (k div 2)" using lo c eq [of "k div 2"] by simp
    moreover have "R (f (k div 2)) (f c)" using h c unfolding heap_but_def by blast
    ultimately show ?thesis using * c by simp
  qed
  have one: "R (g (c div 2)) (g c)" if c: "2 \<le> c" "c \<le> n" "lo \<le> c div 2" "c div 2 \<noteq> k" for c
  proof -
    have "R (f (c div 2)) (f c)" using h c unfolding heap_but_def by blast
    then show ?thesis using * c by simp
  qed
  from one two show ?thesis unfolding heap_but_def by blast
qed

lemma heap_on_empty [simp]: "n < 2 * lo \<Longrightarrow> heap_on R f lo n"
  by (auto simp: heap_on_def)

lemma heap_on_shorter: "heap_on R f lo n \<Longrightarrow> m \<le> n \<Longrightarrow> heap_on R f lo m"
  by (auto simp: heap_on_def)

locale heap_order =
  fixes R :: "'a \<Rightarrow> 'a \<Rightarrow> bool"
  assumes R_total: "R x y \<or> R y x"
    and R_trans: "R x y \<Longrightarrow> R y z \<Longrightarrow> R x z"
begin

lemma R_refl: "R x x"
  using R_total [of x x] by blast

lemma root_best: "heap_on R f 1 n \<Longrightarrow> 1 \<le> c \<Longrightarrow> c \<le> n \<Longrightarrow> R (f 1) (f c)"
proof (induction c rule: less_induct)
  case (less c)
  show ?case
  proof (cases "c = 1")
    case True
    then show ?thesis by (simp add: R_refl)
  next
    case False
    with less have "R (f 1) (f (c div 2))" by auto
    moreover have "R (f (c div 2)) (f c)" using less False by (auto simp: heap_on_def)
    ultimately show ?thesis by (rule R_trans)
  qed
qed

text \<open>A heap from \<open>k + 1\<close> on is a heap from \<open>k\<close> on except at \<open>k\<close>.\<close>

lemma heap_but_start: "heap_on R f (Suc k) n \<Longrightarrow> 1 \<le> k \<Longrightarrow> heap_but R f k n k"
  by (auto simp: heap_on_def heap_but_def)

text \<open>Replacing the root leaves a heap except at the root.\<close>

lemma heap_but_root: "heap_on R f 1 n \<Longrightarrow> heap_but R (f(1 := x)) 1 n 1"
  by (auto simp: heap_on_def heap_but_def)

lemma heap_but_any: "heap_on R f lo n \<Longrightarrow> 1 \<le> lo \<Longrightarrow> heap_but R f lo n k"
  unfolding heap_on_def heap_but_def
proof (intro conjI allI impI; elim conjE)
  fix c
  assume h: "\<forall>c. 2 \<le> c \<and> c \<le> n \<and> lo \<le> c div 2 \<longrightarrow> R (f (c div 2)) (f c)"
    and c: "1 \<le> lo" "2 \<le> c" "c \<le> n" "c div 2 = k" "lo \<le> k div 2"
  have "k \<le> c" "k div 2 \<le> k" using c(4) div_le_dividend [of c 2] div_le_dividend [of k 2] by auto
  then have "R (f (k div 2)) (f k)" "R (f k) (f c)"
    using h [rule_format, of k] h [rule_format, of c] c by auto
  then show "R (f (k div 2)) (f c)" by (rule R_trans)
qed auto

lemma heap_but_leaf: "heap_but R f lo n k \<Longrightarrow> n < 2 * k \<Longrightarrow> heap_on R f lo n"
  by (auto simp: heap_on_def heap_but_def)

text \<open>One step of sifting down, with \<open>b\<close> the better child of \<open>k\<close>.\<close>

lemma sift_stop:
  assumes h: "heap_but R f lo n k" and b: "R (f k) (f b)"
    and best: "\<And>c. c div 2 = k \<Longrightarrow> 2 \<le> c \<Longrightarrow> c \<le> n \<Longrightarrow> R (f b) (f c)"
  shows "heap_on R f lo n"
  unfolding heap_on_def
proof (intro allI impI)
  fix c assume c: "2 \<le> c \<and> c \<le> n \<and> lo \<le> c div 2"
  show "R (f (c div 2)) (f c)"
    using h c R_trans [OF b best [of c]] by (cases "c div 2 = k") (auto simp: heap_but_def)
qed

lemma sift_step:
  assumes h: "heap_but R f lo n k" and k: "1 \<le> lo" "lo \<le> k" and bk: "b div 2 = k" "2 \<le> b" "b \<le> n"
    and b: "R (f b) (f k)"
    and best: "\<And>c. c div 2 = k \<Longrightarrow> 2 \<le> c \<Longrightarrow> c \<le> n \<Longrightarrow> R (f b) (f c)"
  shows "heap_but R (f(k := f b, b := f k)) lo n b"
proof -
  let ?g = "f(k := f b, b := f k)"
  have ne: "k \<noteq> b" "k div 2 \<noteq> k" using k bk by auto
  have one: "R (?g (c div 2)) (?g c)" if c: "2 \<le> c" "c \<le> n" "lo \<le> c div 2" "c div 2 \<noteq> b" for c
  proof -
    consider "c = b" | "c \<noteq> b" "c div 2 = k" | "c \<noteq> b" "c div 2 \<noteq> k" "c = k" | "c \<noteq> b" "c div 2 \<noteq> k" "c \<noteq> k"
      by blast
    then show ?thesis
    proof cases
      case 1
      then show ?thesis using b bk ne by simp
    next
      case 2
      then have "c \<noteq> k" using c by auto
      with 2 show ?thesis using best [of c] c ne by simp
    next
      case 3
      then have "R (f (k div 2)) (f b)" using h bk c by (auto simp: heap_but_def)
      then show ?thesis using 3 c ne by simp
    next
      case 4
      then have "R (f (c div 2)) (f c)" using h c by (auto simp: heap_but_def)
      then show ?thesis using 4 c by simp
    qed
  qed
  have two: "R (?g (b div 2)) (?g c)" if c: "2 \<le> c" "c \<le> n" "c div 2 = b" for c
  proof -
    have "lo \<le> c div 2" "c div 2 \<noteq> k" using c k bk ne by linarith+
    then have "R (f (c div 2)) (f c)" using h c unfolding heap_but_def by blast
    moreover have "c \<noteq> b" "c \<noteq> k" using c(1) bk(1,2) unfolding c(3) [symmetric] by linarith+
    ultimately show ?thesis unfolding bk(1) using c(3) ne by simp
  qed
  from one two show ?thesis unfolding heap_but_def by blast
qed

end

interpretation max_order: heap_order "(\<ge>) :: int \<Rightarrow> int \<Rightarrow> bool"
  by unfold_locales auto

interpretation min_order: heap_order "(\<le>) :: int \<Rightarrow> int \<Rightarrow> bool"
  by unfold_locales auto

end
