(* ===== verification/Heap_Sorts.thy ===== *)
theory Heap_Sorts
  imports Heap_Order Clrs_Sorting
begin

text \<open>
  The two heap sorts: \<open>heapsort\<close>, \<open>buildheap\<close> and \<open>sink\<close> of \<open>src/clrs/sorting.c\<close>, which
  number the nodes from 1, and \<open>heapsort\<close> with \<open>percdown\<close> of
  \<open>src/data_structure_and_algorithm/sort/heapsort.c\<close> (prefix \<open>dsa_\<close>), which numbers them
  from 0 and moves a hole instead of swapping.
\<close>

section \<open>The code\<close>

text \<open>\<open>sink(a, k, n)\<close>. With \<open>k = 0\<close> the code reads \<open>a[-1]\<close>.\<close>

definition bigger_child :: "int list \<Rightarrow> nat \<Rightarrow> nat \<Rightarrow> nat option" where
  "bigger_child a k n =
     (if 2 * k + 1 > n then Some (2 * k)
      else do { x \<leftarrow> rd a (2 * k - 1); y \<leftarrow> rd a (2 * k); Some (if x > y then 2 * k else 2 * k + 1) })"

function sink :: "int list \<Rightarrow> nat \<Rightarrow> nat \<Rightarrow> int list option" where
  "sink a k n =
     (if 2 * k \<le> n then
        if k = 0 then None
        else do {
          biggerchild \<leftarrow> bigger_child a k n;
          x \<leftarrow> rd a (k - 1); y \<leftarrow> rd a (biggerchild - 1);
          a \<leftarrow> (if x < y then swap a (k - 1) (biggerchild - 1) else Some a);
          sink a biggerchild n
        }
      else Some a)"
  by pat_completeness auto
termination
  by (relation "measure (\<lambda>(a, k, n). Suc n - k)")
    (auto simp: bigger_child_def Option.bind_eq_Some_conv split: if_splits)

fun buildheap_loop :: "int list \<Rightarrow> nat \<Rightarrow> nat \<Rightarrow> int list option" where
  "buildheap_loop a i n =
     (if 0 < i then do { a \<leftarrow> sink a i n; buildheap_loop a (i - 1) n } else Some a)"

definition buildheap :: "int list \<Rightarrow> nat \<Rightarrow> int list option" where
  "buildheap a n = buildheap_loop a (n div 2) n"

fun heapsort_loop :: "int list \<Rightarrow> nat \<Rightarrow> int list option" where
  "heapsort_loop a i =
     (if 0 < i then do {
        a \<leftarrow> swap a 0 (i - 1);
        a \<leftarrow> sink a 1 (i - 1);
        heapsort_loop a (i - 1)
      } else Some a)"

definition heapsort :: "int list \<Rightarrow> nat \<Rightarrow> int list option" where
  "heapsort a n = do { a \<leftarrow> buildheap a n; heapsort_loop a n }"

text \<open>\<open>sort/heapsort.c\<close>.\<close>

definition dsa_swap :: "int list \<Rightarrow> nat \<Rightarrow> nat \<Rightarrow> int list option" where
  "dsa_swap a i j = do { tmp \<leftarrow> rd a i; y \<leftarrow> rd a j; a \<leftarrow> wr a i y; wr a j tmp }"

definition leftchild :: "nat \<Rightarrow> nat" where
  "leftchild i = 2 * i + 1"

function percdown_loop :: "int list \<Rightarrow> nat \<Rightarrow> nat \<Rightarrow> int \<Rightarrow> (int list \<times> nat) option" where
  "percdown_loop a i n tmp =
     (if leftchild i < n then do {
        x \<leftarrow> rd a (leftchild i);
        child \<leftarrow> (if leftchild i \<noteq> n - 1
                  then do { y \<leftarrow> rd a (leftchild i + 1); Some (if y > x then leftchild i + 1 else leftchild i) }
                  else Some (leftchild i));
        z \<leftarrow> rd a child;
        if tmp < z then do { a \<leftarrow> wr a i z; percdown_loop a child n tmp }
        else Some (a, i)
      } else Some (a, i))"
  by pat_completeness auto
termination
  by (relation "measure (\<lambda>(a, i, n, tmp). n - i)")
    (auto simp: leftchild_def Option.bind_eq_Some_conv split: if_splits)

definition percdown :: "int list \<Rightarrow> nat \<Rightarrow> nat \<Rightarrow> int list option" where
  "percdown a i n = do {
     tmp \<leftarrow> rd a i;
     (a, i) \<leftarrow> percdown_loop a i n tmp;
     wr a i tmp
   }"

text \<open>The first loop of \<open>heapsort\<close> runs \<open>i\<close> from \<open>n/2\<close> down to 0 inclusive, the second from
  \<open>n-1\<close> down to 1.\<close>

fun dsa_build :: "int list \<Rightarrow> nat \<Rightarrow> nat \<Rightarrow> int list option" where
  "dsa_build a 0 n = percdown a 0 n"
| "dsa_build a (Suc i) n = do { a \<leftarrow> percdown a (Suc i) n; dsa_build a i n }"

fun dsa_extract :: "int list \<Rightarrow> nat \<Rightarrow> int list option" where
  "dsa_extract a 0 = Some a"
| "dsa_extract a (Suc i) = do {
     a \<leftarrow> dsa_swap a 0 (Suc i);
     a \<leftarrow> percdown a 0 (Suc i);
     dsa_extract a i
   }"

definition dsa_heapsort :: "int list \<Rightarrow> nat \<Rightarrow> int list option" where
  "dsa_heapsort a n = do { a \<leftarrow> dsa_build a (n div 2) n; dsa_extract a (n - 1) }"

lemmas heap_loops =
  sink.simps buildheap_loop.simps heapsort_loop.simps percdown_loop.simps

declare heap_loops [simp del]

section \<open>Sifting down\<close>

abbreviation node :: "int list \<Rightarrow> nat \<Rightarrow> int" where
  "node a c \<equiv> a ! (c - 1)"

lemma bigger_child_spec:
  assumes "1 \<le> k" "2 * k \<le> n" "n \<le> length a"
  shows "returns (bigger_child a k n) (\<lambda>b. b div 2 = k \<and> 2 \<le> b \<and> b \<le> n \<and>
    (\<forall>c. c div 2 = k \<and> 2 \<le> c \<and> c \<le> n \<longrightarrow> node a c \<le> node a b))"
proof -
  have kids: "c = 2 * k \<or> c = 2 * k + 1" if "c div 2 = k" for c using that by presburger
  show ?thesis
  proof (cases "2 * k + 1 > n")
    case True
    then have "c = 2 * k" if "c div 2 = k" "c \<le> n" for c using kids [OF that(1)] that by auto
    then show ?thesis using assms True by (simp add: bigger_child_def) (metis order_refl)
  next
    case False
    define b where "b = (if a ! (2 * k - 1) > a ! (2 * k) then 2 * k else 2 * k + 1)"
    have "bigger_child a k n = Some b"
      using False assms by (simp add: bigger_child_def b_def)
    moreover have "node a c \<le> node a b" if "c div 2 = k" for c
      using kids [OF that] by (auto simp: b_def)
    ultimately show ?thesis using False assms by (auto simp: b_def)
  qed
qed

lemma node_swap:
  assumes "1 \<le> i" "1 \<le> j" "i \<noteq> j" "i \<le> length a" "j \<le> length a" "1 \<le> c"
  shows "node (a[i - 1 := node a j, j - 1 := node a i]) c = ((node a)(i := node a j, j := node a i)) c"
proof -
  have "i - 1 < length a" "j - 1 < length a" using assms by auto
  moreover have "i - 1 = c - 1 \<longleftrightarrow> i = c" "j - 1 = c - 1 \<longleftrightarrow> j = c" using assms by auto
  ultimately show ?thesis by (auto simp: nth_list_update)
qed

lemma sink_spec:
  "heap_but (\<ge>) (node a) lo n k \<Longrightarrow> 1 \<le> lo \<Longrightarrow> lo \<le> k \<Longrightarrow> n \<le> length a \<Longrightarrow>
   returns (sink a k n) (\<lambda>b. perm_seg a b 0 n \<and> heap_on (\<ge>) (node b) lo n)"
proof (induction a k n rule: sink.induct)
  case (1 a k n)
  show ?case
  proof (cases "2 * k \<le> n")
    case False
    then show ?thesis
      using max_order.heap_but_leaf [OF 1(2)] by (simp add: sink.simps [of a k n])
  next
    case True
    have k: "k \<noteq> 0" using 1(3,4) by simp
    obtain b where b: "bigger_child a k n = Some b" "b div 2 = k" "2 \<le> b" "b \<le> n"
      and best: "\<And>c. c div 2 = k \<Longrightarrow> 2 \<le> c \<Longrightarrow> c \<le> n \<Longrightarrow> node a c \<le> node a b"
      using bigger_child_spec [of k n a] True k 1(5) by (auto simp: returns_iff)
    have idx: "k - 1 < length a" "b - 1 < length a" "k - 1 < n" "b - 1 < n" "lo \<le> b"
      using True k b 1(3-5) by auto
    define a' where "a' = (if node a k < node a b then a[k - 1 := node a b, b - 1 := node a k] else a)"
    have sel: "(if node a k < node a b then swap a (k - 1) (b - 1) else Some a) = Some a'"
      using idx by (simp add: a'_def swap_eq)
    have p: "perm_seg a a' 0 n" using idx by (auto simp: a'_def intro: perm_seg_swap)
    have "heap_but (\<ge>) (node a') lo n b"
    proof (cases "node a k < node a b")
      case lt: True
      have "heap_but (\<ge>) ((node a)(k := node a b, b := node a k)) lo n b"
        using max_order.sift_step [OF 1(2) 1(3) 1(4) b(2-4)] lt best by auto
      then show ?thesis
        by (rule heap_but_cong) (use lt idx k b(2) 1 in \<open>auto simp: a'_def node_swap\<close>)
    next
      case False
      then show ?thesis
        using max_order.sift_stop [OF 1(2), of b] best max_order.heap_but_any [OF _ 1(3)]
        by (auto simp: a'_def)
    qed
    from "1.IH" [OF True k b(1) _ _ sel this 1(3) idx(5)]
    have "returns (sink a' b n) (\<lambda>c. perm_seg a' c 0 n \<and> heap_on (\<ge>) (node c) lo n)"
      using idx 1(5) perm_seg_length [OF p] by simp
    then have "returns (sink a' b n) (\<lambda>c. perm_seg a c 0 n \<and> heap_on (\<ge>) (node c) lo n)"
      by (auto elim!: returns_mono intro: perm_seg_trans [OF p])
    then show ?thesis
      using True k b(1) idx sel by (simp add: sink.simps [of a k n])
  qed
qed

lemma buildheap_spec:
  "heap_on (\<ge>) (node a) (Suc i) n \<Longrightarrow> n \<le> length a \<Longrightarrow>
   returns (buildheap_loop a i n) (\<lambda>b. perm_seg a b 0 n \<and> heap_on (\<ge>) (node b) 1 n)"
proof (induction a i n rule: buildheap_loop.induct)
  case (1 a i n)
  show ?case
  proof (cases "0 < i")
    case False
    with 1 show ?thesis by (subst buildheap_loop.simps) auto
  next
    case True
    obtain b where b: "sink a i n = Some b" "perm_seg a b 0 n" "heap_on (\<ge>) (node b) i n"
      using sink_spec [OF max_order.heap_but_start [OF 1(2)]] True 1(3) by (auto simp: returns_iff)
    then have "returns (buildheap_loop b (i - 1) n) (\<lambda>c. perm_seg b c 0 n \<and> heap_on (\<ge>) (node c) 1 n)"
      using "1.IH" [OF True b(1)] True 1(3) perm_seg_length [OF b(2)] by simp
    then have "returns (buildheap_loop b (i - 1) n) (\<lambda>c. perm_seg a c 0 n \<and> heap_on (\<ge>) (node c) 1 n)"
      by (auto elim!: returns_mono intro: perm_seg_trans [OF b(2)])
    then show ?thesis using True b(1) by (simp add: buildheap_loop.simps [of a i n])
  qed
qed

section \<open>Taking the maximum off the heap\<close>

text \<open>The first \<open>i\<close> elements are a heap, the others are sorted and above them.\<close>

definition extract_inv :: "int list \<Rightarrow> nat \<Rightarrow> nat \<Rightarrow> bool" where
  "extract_inv a i n \<longleftrightarrow> heap_on (\<ge>) (node a) 1 i \<and> sorted_seg a i n \<and>
     (\<forall>p q. p < i \<and> i \<le> q \<and> q < n \<longrightarrow> a ! p \<le> a ! q)"

lemma extract_inv_end: "extract_inv a i n \<Longrightarrow> i \<le> 1 \<Longrightarrow> sorted_seg a 0 n"
proof -
  assume h: "extract_inv a i n" "i \<le> 1"
  have "a ! p \<le> a ! q" if "p < q" "q < n" for p q
    using h that unfolding extract_inv_def sorted_seg_def
    by (cases "p < i") (auto simp: not_less)
  then show ?thesis by (auto simp: sorted_seg_def)
qed

text \<open>The array right after the root has been swapped with the last element of the heap.\<close>

lemma extract_swap:
  assumes h: "extract_inv a i n" and i: "1 \<le> i" "i \<le> n" "n \<le> length a"
  defines "a' \<equiv> a[0 := a ! (i - 1), i - 1 := a ! 0]"
  shows "heap_but (\<ge>) (node a') 1 (i - 1) 1" and "perm_seg a a' 0 n"
    and "perm_seg a' b 0 (i - 1) \<Longrightarrow> heap_on (\<ge>) (node b) 1 (i - 1) \<Longrightarrow> extract_inv b (i - 1) n"
proof -
  have len: "length a' = length a" by (simp add: a'_def)
  have root: "a ! p \<le> a ! 0" if "p < i" for p
    using max_order.root_best [of "node a" i "Suc p"] h that by (simp add: extract_inv_def)
  have eq: "a' ! p = (if p = i - 1 then a ! 0 else if p = 0 then a ! (i - 1) else a ! p)" for p
  proof -
    have "0 < length a" "i - 1 < length a" using i by auto
    then show ?thesis by (auto simp: a'_def nth_list_update)
  qed
  have "heap_on (\<ge>) (node a) 1 (i - 1)"
    by (rule heap_on_shorter [of _ _ 1 i]) (use h in \<open>auto simp: extract_inv_def\<close>)
  then show "heap_but (\<ge>) (node a') 1 (i - 1) 1"
    by (rule heap_but_cong [OF max_order.heap_but_root [of _ _ "a ! (i - 1)"]]) (auto simp: eq)
  show "perm_seg a a' 0 n" using i by (auto simp: a'_def intro!: perm_seg_swap)
  assume p: "perm_seg a' b 0 (i - 1)" and hb: "heap_on (\<ge>) (node b) 1 (i - 1)"
  have out: "b ! q = a' ! q" if "i - 1 \<le> q" "q < n" for q
    using perm_seg_outside [OF p, of q] that len i by auto
  have low: "b ! k \<le> a ! 0" if "k < i - 1" for k
  proof (rule perm_seg_all [OF p])
    show "i - 1 \<le> length a'" using len i by simp
    show "a' ! k \<le> a ! 0" if "k < i - 1" for k using that root by (auto simp: eq)
  qed (use that in auto)
  have up: "b ! k \<le> a ! q" if "k < i - 1" "i \<le> q" "q < n" for k q
  proof (rule perm_seg_all [OF p])
    show "i - 1 \<le> length a'" using len i by simp
    show "a' ! k \<le> a ! q" if "k < i - 1" for k
      using that h i \<open>i \<le> q\<close> \<open>q < n\<close> by (auto simp: eq extract_inv_def)
  qed (use that in auto)
  have "a ! 0 \<le> a ! q" if "i \<le> q" "q < n" for q using h i that by (auto simp: extract_inv_def)
  then have "sorted_seg b (i - 1) n"
    using h out i by (auto simp: sorted_seg_def eq extract_inv_def)
  moreover have "b ! k \<le> b ! q" if "k < i - 1" "i - 1 \<le> q" "q < n" for k q
    using low [of k] up [of k q] out [of q] that i by (cases "q = i - 1") (auto simp: eq)
  ultimately show "extract_inv b (i - 1) n" using hb by (auto simp: extract_inv_def)
qed

lemma heapsort_loop_spec:
  "extract_inv a i n \<Longrightarrow> i \<le> n \<Longrightarrow> n \<le> length a \<Longrightarrow>
   returns (heapsort_loop a i) (\<lambda>b. perm_seg a b 0 n \<and> sorted_seg b 0 n)"
proof (induction a i rule: heapsort_loop.induct)
  case (1 a i)
  show ?case
  proof (cases "0 < i")
    case False
    with 1 extract_inv_end show ?thesis by (subst heapsort_loop.simps) auto
  next
    case True
    define a' where "a' = a[0 := a ! (i - 1), i - 1 := a ! 0]"
    note step = extract_swap [OF 1(2) _ 1(3,4), folded a'_def]
    have "0 < length a" "i - 1 < length a" using True 1(3,4) by auto
    then have sw: "swap a 0 (i - 1) = Some a'" by (simp add: a'_def swap_eq)
    have len: "length a' = length a" by (simp add: a'_def)
    obtain b where b: "sink a' 1 (i - 1) = Some b" "perm_seg a' b 0 (i - 1)"
        "heap_on (\<ge>) (node b) 1 (i - 1)"
      using sink_spec [OF step(1)] \<open>i - 1 < length a\<close> True len by (auto simp: returns_iff)
    have pb: "perm_seg a b 0 n"
      using perm_seg_trans [OF step(2) perm_seg_mono [OF b(2)]] True 1(3) by simp
    have "returns (heapsort_loop b (i - 1)) (\<lambda>c. perm_seg b c 0 n \<and> sorted_seg c 0 n)"
      using "1.IH" [OF True sw b(1)] step(3) [OF _ b(2,3)] True 1(3,4) perm_seg_length [OF pb] by simp
    then have "returns (heapsort_loop b (i - 1)) (\<lambda>c. perm_seg a c 0 n \<and> sorted_seg c 0 n)"
      by (auto elim!: returns_mono intro: perm_seg_trans [OF pb])
    then show ?thesis using True sw b(1) by (simp add: heapsort_loop.simps [of a i])
  qed
qed

lemma extract_inv_start: "heap_on (\<ge>) (node a) 1 n \<Longrightarrow> extract_inv a n n"
  by (simp add: extract_inv_def)

interpretation clrs_heap: array_sorter heapsort
proof
  fix n and a :: "int list" assume n: "n \<le> length a"
  obtain b where b: "buildheap a n = Some b" "perm_seg a b 0 n" "heap_on (\<ge>) (node b) 1 n"
    using buildheap_spec [of a "n div 2" n] n by (auto simp: buildheap_def returns_iff)
  have "returns (heapsort_loop b n) (\<lambda>c. perm_seg b c 0 n \<and> sorted_seg c 0 n)"
    using heapsort_loop_spec [OF extract_inv_start [OF b(3)]] n perm_seg_length [OF b(2)] by simp
  then show "returns (heapsort a n) (\<lambda>b. perm_seg a b 0 n \<and> sorted_seg b 0 n)"
    by (auto simp: heapsort_def b(1) elim!: returns_mono intro: perm_seg_trans [OF b(2)])
qed

section \<open>The hole-moving variant\<close>

text \<open>Seen with \<open>tmp\<close> in the hole, a step of \<open>percdown\<close> is a swap.\<close>

lemma percdown_loop_spec:
  "heap_but (\<ge>) (node (a[i := tmp])) lo n (Suc i) \<Longrightarrow> 1 \<le> lo \<Longrightarrow> lo \<le> Suc i \<Longrightarrow>
   i < length a \<Longrightarrow> n \<le> length a \<Longrightarrow>
   returns (percdown_loop a i n tmp) (\<lambda>(b, j). j < length b \<and>
     perm_seg (a[i := tmp]) (b[j := tmp]) 0 (max n (Suc i)) \<and> heap_on (\<ge>) (node (b[j := tmp])) lo n)"
proof (induction a i n tmp rule: percdown_loop.induct)
  case (1 a i n tmp)
  let ?v = "a[i := tmp]"
  show ?case
  proof (cases "leftchild i < n")
    case False
    then show ?thesis
      using max_order.heap_but_leaf [OF 1(2)] 1(5)
      by (simp add: percdown_loop.simps [of a i n tmp] leftchild_def)
  next
    case True
    define ch where "ch = (if leftchild i \<noteq> n - 1 \<and> a ! (leftchild i + 1) > a ! leftchild i
      then leftchild i + 1 else leftchild i)"
    have ch: "ch < n" "Suc ch div 2 = Suc i" "i < ch" "lo \<le> Suc ch"
      using True 1(4) by (auto simp: ch_def leftchild_def)
    have kids: "c = Suc (leftchild i) \<or> c = Suc (leftchild i + 1)" if "c div 2 = Suc i" for c
      using that unfolding leftchild_def by presburger
    have best: "node ?v c \<le> node ?v (Suc ch)" if "c div 2 = Suc i" "2 \<le> c" "c \<le> n" for c
      using kids [OF that(1)] that True
      by (auto simp: ch_def leftchild_def nth_list_update)
    have val: "node ?v (Suc ch) = a ! ch" "node ?v (Suc i) = tmp" using ch 1(5) by auto
    have sel: "(if leftchild i \<noteq> n - 1
         then do { y \<leftarrow> rd a (leftchild i + 1); Some (if y > a ! leftchild i then leftchild i + 1 else leftchild i) }
         else Some (leftchild i)) = Some ch"
      using True 1(6) by (auto simp: ch_def)
    have rd1: "rd a (leftchild i) = Some (a ! leftchild i)" "rd a ch = Some (a ! ch)"
      using True ch 1(6) by auto
    have run: "percdown_loop a i n tmp =
        (if tmp < a ! ch then percdown_loop (a[i := a ! ch]) ch n tmp else Some (a, i))"
      using True rd1 sel 1(5) by (simp add: percdown_loop.simps [of a i n tmp])
    show ?thesis
    proof (cases "tmp < a ! ch")
      case False
      then have "heap_on (\<ge>) (node ?v) lo n"
        using max_order.sift_stop [OF 1(2), of "Suc ch"] best val by auto
      with False run 1(5) show ?thesis by simp
    next
      case lt: True
      let ?a = "a[i := a ! ch]"
      have eq: "?a[ch := tmp] = ?v[i := ?v ! ch, ch := ?v ! i]" using ch 1(5) by simp
      have p: "perm_seg ?v (?a[ch := tmp]) 0 (max n (Suc i))"
        unfolding eq using ch 1(5,6) by (intro perm_seg_swap) auto
      have "heap_but (\<ge>) ((node ?v)(Suc i := node ?v (Suc ch), Suc ch := node ?v (Suc i))) lo n (Suc ch)"
        using max_order.sift_step [OF 1(2-4) ch(2)] ch lt val best by auto
      then have hb: "heap_but (\<ge>) (node (?a[ch := tmp])) lo n (Suc ch)"
        by (rule heap_but_cong)
          (use ch 1(3,5,6) node_swap [of "Suc i" "Suc ch" ?v] in \<open>auto simp: eq simp del: list_update_overwrite\<close>)
      have "returns (percdown_loop ?a ch n tmp) (\<lambda>(b, j). j < length b \<and>
         perm_seg (?a[ch := tmp]) (b[j := tmp]) 0 (max n (Suc ch)) \<and> heap_on (\<ge>) (node (b[j := tmp])) lo n)"
        using "1.IH" [OF True rd1(1) sel rd1(2) lt _ hb 1(3) ch(4)] ch 1(5,6) by simp
      then have "returns (percdown_loop ?a ch n tmp) (\<lambda>(b, j). j < length b \<and>
         perm_seg ?v (b[j := tmp]) 0 (max n (Suc i)) \<and> heap_on (\<ge>) (node (b[j := tmp])) lo n)"
      proof (rule returns_mono, safe)
        fix b j assume q: "perm_seg (?a[ch := tmp]) (b[j := tmp]) 0 (max n (Suc ch))"
        show "perm_seg ?v (b[j := tmp]) 0 (max n (Suc i))"
          using perm_seg_trans [OF p perm_seg_mono [OF q]] ch by simp
      qed
      with lt run show ?thesis by simp
    qed
  qed
qed

lemma percdown_spec:
  assumes "heap_but (\<ge>) (node a) lo n (Suc i)" "1 \<le> lo" "lo \<le> Suc i" "i < length a" "n \<le> length a"
  shows "returns (percdown a i n) (\<lambda>b. perm_seg a b 0 (max n (Suc i)) \<and> heap_on (\<ge>) (node b) lo n)"
  using percdown_loop_spec [of a i "a ! i" lo n] assms
  by (auto simp: percdown_def returns_iff)

lemma dsa_build_spec:
  "heap_on (\<ge>) (node a) (Suc (Suc i)) n \<Longrightarrow> i < n \<Longrightarrow> n \<le> length a \<Longrightarrow>
   returns (dsa_build a i n) (\<lambda>b. perm_seg a b 0 n \<and> heap_on (\<ge>) (node b) 1 n)"
proof (induction a i n rule: dsa_build.induct)
  case (1 a n)
  then have "heap_but (\<ge>) (node a) 1 n 1"
    using max_order.heap_but_start [of "node a" 1 n] by (simp add: numeral_2_eq_2)
  moreover have "max n (Suc 0) = n" "0 < length a" using 1 by auto
  ultimately show ?case using percdown_spec [of a 1 n 0] 1 by simp
next
  case (2 a i n)
  have mx: "max n (Suc (Suc i)) = n" using 2(3) by simp
  obtain b where b: "percdown a (Suc i) n = Some b" "perm_seg a b 0 n" "heap_on (\<ge>) (node b) (Suc (Suc i)) n"
    using percdown_spec [OF max_order.heap_but_start [OF 2(2)]] 2(3,4) by (auto simp: returns_iff mx)
  then show ?case
    using "2.IH" [OF b(1)] 2(3,4) perm_seg_length [OF b(2)]
    by (auto elim!: returns_mono intro: perm_seg_trans [OF b(2)])
qed

lemma dsa_extract_spec:
  "extract_inv a (Suc i) n \<Longrightarrow> i < n \<Longrightarrow> n \<le> length a \<Longrightarrow>
   returns (dsa_extract a i) (\<lambda>b. perm_seg a b 0 n \<and> sorted_seg b 0 n)"
proof (induction a i rule: dsa_extract.induct)
  case (1 a)
  then show ?case using extract_inv_end [of a 1 n] by simp
next
  case (2 a i)
  define a' where "a' = a[0 := a ! (Suc (Suc i) - 1), Suc (Suc i) - 1 := a ! 0]"
  note step = extract_swap [OF 2(2), folded a'_def]
  have sw: "dsa_swap a 0 (Suc i) = Some a'"
    using 2(3,4) by (cases a) (auto simp: dsa_swap_def a'_def)
  have len: "length a' = length a" by (simp add: a'_def)
  obtain b where b: "percdown a' 0 (Suc i) = Some b" "perm_seg a' b 0 (Suc i)"
      "heap_on (\<ge>) (node b) 1 (Suc i)"
    using percdown_spec [of a' 1 "Suc i" 0] step(1) 2(3,4) len
    by (cases a) (auto simp: returns_iff)
  have pb: "perm_seg a b 0 n"
    using perm_seg_trans [OF step(2) perm_seg_mono [OF b(2)]] 2(3,4) by simp
  have "returns (dsa_extract b i) (\<lambda>c. perm_seg b c 0 n \<and> sorted_seg c 0 n)"
    using "2.IH" [OF sw b(1)] step(3) [of b] b(2,3) 2(3,4) perm_seg_length [OF pb] by simp
  then show ?case
    by (auto simp: sw b(1) elim!: returns_mono intro: perm_seg_trans [OF pb])
qed

lemma dsa_heapsort_spec:
  assumes n: "0 < n" "n \<le> length a"
  shows "returns (dsa_heapsort a n) (\<lambda>b. perm_seg a b 0 n \<and> sorted_seg b 0 n)"
proof -
  obtain b where b: "dsa_build a (n div 2) n = Some b" "perm_seg a b 0 n" "heap_on (\<ge>) (node b) 1 n"
    using dsa_build_spec [of a "n div 2" n] n by (auto simp: returns_iff)
  have "returns (dsa_extract b (n - 1)) (\<lambda>c. perm_seg b c 0 n \<and> sorted_seg c 0 n)"
    using dsa_extract_spec [of b "n - 1" n] extract_inv_start [OF b(3)] n perm_seg_length [OF b(2)] by simp
  then show ?thesis
    by (auto simp: dsa_heapsort_def b(1) elim!: returns_mono intro: perm_seg_trans [OF b(2)])
qed

section \<open>Properties\<close>

text \<open>\<open>heapsort(a, n)\<close> of \<open>clrs/sorting.c\<close> stays in bounds, terminates, sorts the first
  \<open>n\<close> elements and leaves the elements behind them alone.\<close>

theorem heapsort_correct:
  "n \<le> length a \<Longrightarrow> heapsort a n = Some (sort (take n a) @ drop n a)"
  by (rule clrs_heap.srt_eq)

theorem heapsort_correct_witness: "heapsort [3, 1, 2, 0] 3 = Some [1, 2, 3, 0]"
  using heapsort_correct [of 3 "[3, 1, 2, 0]"] by simp

text \<open>\<open>heapsort(a, n)\<close> of \<open>sort/heapsort.c\<close> sorts the first \<open>n\<close> elements for every positive
  \<open>n\<close>; for an array without elements it accesses \<open>a[0]\<close> out of bounds.\<close>

theorem dsa_heapsort_correct:
  assumes "n \<le> length a"
  shows "(0 < n \<longrightarrow> dsa_heapsort a n = Some (sort (take n a) @ drop n a)) \<and> dsa_heapsort [] 0 = None"
proof -
  have "dsa_heapsort [] 0 = None" by (simp add: dsa_heapsort_def percdown_def)
  then show ?thesis
    using dsa_heapsort_spec [of n a] sorted_seg_prefix [of a _ n] assms by (auto simp: returns_iff)
qed

theorem dsa_heapsort_correct_witness: "dsa_heapsort [3, 1, 2, 0] 3 = Some [1, 2, 3, 0]"
  using dsa_heapsort_correct [of 3 "[3, 1, 2, 0]"] by simp

end
