(* ===== verification/Quick_Sorts.thy ===== *)
theory Quick_Sorts
  imports Heap_Sorts
begin

text \<open>
  The two quicksorts: \<open>my_qsort\<close> and \<open>quicksort\<close> of \<open>src/clrs/sorting.c\<close>, which moves a hole
  through the segment \<open>[b, e)\<close>, and \<open>quicksort\<close>, \<open>qsort\<close> and \<open>median3\<close> of
  \<open>src/data_structure_and_algorithm/sort/quicksort.c\<close> (prefix \<open>dsa_\<close>), whose scans run
  without bounds checks between sentinels. The latter calls a function \<open>insertionsort\<close>
  that is nowhere defined (the library's is called \<open>insertion_sort\<close>): it is a parameter
  \<open>isort\<close> of the model. The theory also holds \<open>sort/insertion_sort.c\<close> and
  \<open>sort/shellsort.c\<close>, which repeat the loops of \<open>clrs/sorting.c\<close>.
\<close>

section \<open>The code of clrs/sorting.c\<close>

text \<open>\<open>while (i < j && a[j] >= tmp) j--\<close>\<close>

fun scan_down :: "int list \<Rightarrow> nat \<Rightarrow> nat \<Rightarrow> int \<Rightarrow> nat option" where
  "scan_down a i j tmp =
     (if i < j then do { x \<leftarrow> rd a j; if x \<ge> tmp then scan_down a i (j - 1) tmp else Some j }
      else Some j)"

text \<open>\<open>while (i < j && a[i] <= tmp) i++\<close>\<close>

function scan_up :: "int list \<Rightarrow> nat \<Rightarrow> nat \<Rightarrow> int \<Rightarrow> nat option" where
  "scan_up a i j tmp =
     (if i < j then do { x \<leftarrow> rd a i; if x \<le> tmp then scan_up a (Suc i) j tmp else Some i }
      else Some i)"
  by pat_completeness auto
termination
  by (relation "measure (\<lambda>(a, i, j, tmp). j - i)") auto

lemma scan_down_le: "scan_down a i j tmp = Some j' \<Longrightarrow> j' \<le> j \<and> (i \<le> j \<longrightarrow> i \<le> j')"
proof (induction a i j tmp rule: scan_down.induct)
  case (1 a i j tmp)
  show ?case
    using 1(2) "1.IH" by (subst (asm) (1) scan_down.simps)
      (fastforce simp: Option.bind_eq_Some_conv simp del: scan_down.simps split: if_splits)
qed

lemma scan_up_ge: "scan_up a i j tmp = Some i' \<Longrightarrow> i \<le> i' \<and> (i \<le> j \<longrightarrow> i' \<le> j)"
proof (induction a i j tmp rule: scan_up.induct)
  case (1 a i j tmp)
  show ?case
    using 1(2) "1.IH" by (subst (asm) (1) scan_up.simps)
      (fastforce simp: Option.bind_eq_Some_conv simp del: scan_up.simps split: if_splits)
qed

function part_loop :: "int list \<Rightarrow> nat \<Rightarrow> nat \<Rightarrow> int \<Rightarrow> (int list \<times> nat) option" where
  "part_loop a i j tmp =
     (if i < j then do {
        j \<leftarrow> scan_down a i j tmp;
        (a, i) \<leftarrow> (if i < j then do { x \<leftarrow> rd a j; a \<leftarrow> wr a i x; Some (a, Suc i) } else Some (a, i));
        i \<leftarrow> scan_up a i j tmp;
        (a, j) \<leftarrow> (if i < j then do { x \<leftarrow> rd a i; a \<leftarrow> wr a j x; Some (a, j - 1) } else Some (a, j));
        part_loop a i j tmp
      } else Some (a, i))"
  by pat_completeness auto
termination
proof (relation "measure (\<lambda>(a, i, j, tmp). j - i)", simp)
  fix a :: "int list" and i j j1 i1 i2 j2 :: nat and tmp and p q a1 a2
  assume ij: "i < j" and j1: "scan_down a i j tmp = Some j1"
    and p: "(if i < j1 then do { x \<leftarrow> rd a j1; a \<leftarrow> wr a i x; Some (a, Suc i) } else Some (a, i)) = Some p"
      "(a1, i1) = p"
    and i2: "scan_up a1 i1 j1 tmp = Some i2"
    and q: "(if i2 < j1 then do { x \<leftarrow> rd a1 i2; a \<leftarrow> wr a1 j1 x; Some (a, j1 - 1) } else Some (a1, j1)) = Some q"
      "(a2, j2) = q"
  have "j1 \<le> j" "i \<le> j1" using scan_down_le [OF j1] ij by auto
  moreover have "i < j1 \<and> i1 = Suc i \<or> j1 \<le> i \<and> i1 = i"
    using p by (auto simp: Option.bind_eq_Some_conv split: if_splits)
  moreover have "i1 \<le> i2" using scan_up_ge [OF i2] by simp
  moreover have "j2 \<le> j1" using q by (auto simp: Option.bind_eq_Some_conv split: if_splits)
  ultimately show "((a2, i2, j2, tmp), a, i, j, tmp) \<in> measure (\<lambda>(a, i, j, tmp). j - i)"
    using ij by auto
qed

declare scan_down.simps [simp del] scan_up.simps [simp del] part_loop.simps [simp del]

lemma part_loop_bounds:
  "part_loop a i j tmp = Some (b, k) \<Longrightarrow> i \<le> k \<and> (i \<le> j \<longrightarrow> k \<le> j)"
proof (induction a i j tmp rule: part_loop.induct)
  case (1 a i j tmp)
  show ?case
  proof (cases "i < j")
    case False
    with 1(2) show ?thesis by (simp add: part_loop.simps [of a i j tmp])
  next
    case True
    obtain j1 p a1 i1 i2 q a2 j2 where j1: "scan_down a i j tmp = Some j1"
      and p: "(if i < j1 then do { x \<leftarrow> rd a j1; a \<leftarrow> wr a i x; Some (a, Suc i) } else Some (a, i)) = Some p"
        "(a1, i1) = p"
      and i2: "scan_up a1 i1 j1 tmp = Some i2"
      and q: "(if i2 < j1 then do { x \<leftarrow> rd a1 i2; a \<leftarrow> wr a1 j1 x; Some (a, j1 - 1) } else Some (a1, j1)) = Some q"
        "(a2, j2) = q"
      and rec: "part_loop a2 i2 j2 tmp = Some (b, k)"
      using 1(2) True by (subst (asm) part_loop.simps) (auto simp: Option.bind_eq_Some_conv)
    have "i2 \<le> k \<and> (i2 \<le> j2 \<longrightarrow> k \<le> j2)" by (rule "1.IH" [OF True j1 p i2 q rec])
    moreover have "j1 \<le> j" "i \<le> j1" using scan_down_le [OF j1] True by auto
    moreover have "i < j1 \<and> i1 = Suc i \<or> j1 \<le> i \<and> i1 = i"
      using p by (auto simp: Option.bind_eq_Some_conv split: if_splits)
    moreover have "i1 \<le> i2" "i1 \<le> j1 \<longrightarrow> i2 \<le> j1" using scan_up_ge [OF i2] by auto
    moreover have "i2 < j1 \<and> j2 = j1 - 1 \<or> j1 \<le> i2 \<and> j2 = j1"
      using q by (auto simp: Option.bind_eq_Some_conv split: if_splits)
    ultimately show ?thesis by linarith
  qed
qed

function quicksort :: "int list \<Rightarrow> nat \<Rightarrow> nat \<Rightarrow> int list option" where
  "quicksort a b e = do {
     tmp \<leftarrow> rd a b;
     (a, i) \<leftarrow> part_loop a b (e - 1) tmp;
     a \<leftarrow> wr a i tmp;
     if b + 2 < e then do {
       a \<leftarrow> quicksort a b i;
       quicksort a (i + 1) e
     } else Some a
   }"
  by pat_completeness auto
termination
  by (relation "measure (\<lambda>(a, b, e). e - b)") (auto dest!: part_loop_bounds)

declare quicksort.simps [simp del]

definition my_qsort :: "int list \<Rightarrow> nat \<Rightarrow> int list option" where
  "my_qsort a n = quicksort a 0 n"

section \<open>Partitioning with a hole\<close>

lemma scan_down_spec:
  "i \<le> j \<Longrightarrow> j < length a \<Longrightarrow> returns (scan_down a i j tmp)
     (\<lambda>j'. i \<le> j' \<and> j' \<le> j \<and> (\<forall>k. j' < k \<and> k \<le> j \<longrightarrow> tmp \<le> a ! k) \<and> (i < j' \<longrightarrow> a ! j' < tmp))"
proof (induction a i j tmp rule: scan_down.induct)
  case (1 a i j tmp)
  show ?case
  proof (cases "i < j \<and> tmp \<le> a ! j")
    case False
    with 1 show ?thesis by (subst scan_down.simps) auto
  next
    case True
    then have "returns (scan_down a i (j - 1) tmp) (\<lambda>j'. i \<le> j' \<and> j' \<le> j - 1 \<and>
        (\<forall>k. j' < k \<and> k \<le> j - 1 \<longrightarrow> tmp \<le> a ! k) \<and> (i < j' \<longrightarrow> a ! j' < tmp))"
      using 1 by auto
    then have "returns (scan_down a i (j - 1) tmp) (\<lambda>j'. i \<le> j' \<and> j' \<le> j \<and>
        (\<forall>k. j' < k \<and> k \<le> j \<longrightarrow> tmp \<le> a ! k) \<and> (i < j' \<longrightarrow> a ! j' < tmp))"
    proof (rule returns_mono, elim conjE, intro conjI allI impI)
      fix j' k assume "\<forall>k. j' < k \<and> k \<le> j - 1 \<longrightarrow> tmp \<le> a ! k" and "j' < k \<and> k \<le> j"
      then show "tmp \<le> a ! k" using True by (cases "k = j") auto
    qed auto
    with True 1(3) show ?thesis by (simp add: scan_down.simps [of a i j tmp])
  qed
qed

lemma scan_up_spec:
  "i \<le> j \<Longrightarrow> j < length a \<Longrightarrow> returns (scan_up a i j tmp)
     (\<lambda>i'. i \<le> i' \<and> i' \<le> j \<and> (\<forall>k. i \<le> k \<and> k < i' \<longrightarrow> a ! k \<le> tmp) \<and> (i' < j \<longrightarrow> tmp < a ! i'))"
proof (induction a i j tmp rule: scan_up.induct)
  case (1 a i j tmp)
  show ?case
  proof (cases "i < j \<and> a ! i \<le> tmp")
    case False
    with 1 show ?thesis by (subst scan_up.simps) auto
  next
    case True
    then have "returns (scan_up a (Suc i) j tmp) (\<lambda>i'. Suc i \<le> i' \<and> i' \<le> j \<and>
        (\<forall>k. Suc i \<le> k \<and> k < i' \<longrightarrow> a ! k \<le> tmp) \<and> (i' < j \<longrightarrow> tmp < a ! i'))"
      using 1 by simp
    then have "returns (scan_up a (Suc i) j tmp) (\<lambda>i'. i \<le> i' \<and> i' \<le> j \<and>
        (\<forall>k. i \<le> k \<and> k < i' \<longrightarrow> a ! k \<le> tmp) \<and> (i' < j \<longrightarrow> tmp < a ! i'))"
    proof (rule returns_mono, elim conjE, intro conjI allI impI)
      fix i' k assume "\<forall>k. Suc i \<le> k \<and> k < i' \<longrightarrow> a ! k \<le> tmp" and "i \<le> k \<and> k < i'"
      then show "a ! k \<le> tmp" using True by (cases "k = i") auto
    qed auto
    with True 1(3) show ?thesis by (simp add: scan_up.simps [of a i j tmp])
  qed
qed

text \<open>\<open>split_at a b e tmp i j\<close>: left of \<open>i\<close> nothing exceeds the pivot \<open>tmp\<close>, right of \<open>j\<close>
  nothing is below it.\<close>

definition split_at :: "int list \<Rightarrow> nat \<Rightarrow> nat \<Rightarrow> int \<Rightarrow> nat \<Rightarrow> nat \<Rightarrow> bool" where
  "split_at a b e tmp i j \<longleftrightarrow>
     (\<forall>k. b \<le> k \<and> k < i \<longrightarrow> a ! k \<le> tmp) \<and> (\<forall>k. j < k \<and> k < e \<longrightarrow> tmp \<le> a ! k)"

lemma swap_hole:
  assumes "i < length a" "j < length a" "i \<noteq> j" "b \<le> i" "i < e" "b \<le> j" "j < e"
  shows "perm_seg (a[i := tmp]) (a[i := a ! j, j := tmp]) b e"
  using perm_seg_swap [of i "a[i := tmp]" j b e] assms by simp

lemma part_loop_spec:
  "split_at a b e tmp i j \<Longrightarrow> b \<le> i \<Longrightarrow> i \<le> j \<Longrightarrow> j < e \<Longrightarrow> e \<le> length a \<Longrightarrow>
   returns (part_loop a i j tmp) (\<lambda>(c, k). i \<le> k \<and> k \<le> j \<and>
     perm_seg (a[i := tmp]) (c[k := tmp]) b e \<and> split_at c b e tmp k k)"
proof (induction a i j tmp rule: part_loop.induct)
  case (1 a i j tmp)
  show ?case
  proof (cases "i < j")
    case False
    with 1 show ?thesis by (subst part_loop.simps) auto
  next
    case True
    obtain j1 where j1: "scan_down a i j tmp = Some j1" "i \<le> j1" "j1 \<le> j"
      "\<And>k. j1 < k \<Longrightarrow> k \<le> j \<Longrightarrow> tmp \<le> a ! k" "i < j1 \<longrightarrow> a ! j1 < tmp"
      using scan_down_spec [of i j a tmp] True 1(5,6) by (auto simp: returns_iff)
    define a1 i1 where "a1 = (if i < j1 then a[i := a ! j1] else a)" and "i1 = (if i < j1 then Suc i else i)"
    have p: "(if i < j1 then do { x \<leftarrow> rd a j1; a \<leftarrow> wr a i x; Some (a, Suc i) } else Some (a, i)) = Some (a1, i1)"
      using j1 1(5,6) by (auto simp: a1_def i1_def)
    have len1: "length a1 = length a" by (simp add: a1_def)
    have i1: "i \<le> i1" "i1 \<le> j1" using j1 by (auto simp: i1_def)
    have s1: "split_at a1 b e tmp i1 j1"
      using 1(2) j1 1(5,6) by (auto simp: split_at_def a1_def i1_def nth_list_update less_Suc_eq)
        (metis linorder_not_le)+
    have q1: "perm_seg (a[i := tmp]) (a1[j1 := tmp]) b e"
      using swap_hole [of i a j1 b e tmp] j1 1(3,5,6) by (auto simp: a1_def)
    obtain i2 where i2: "scan_up a1 i1 j1 tmp = Some i2" "i1 \<le> i2" "i2 \<le> j1"
      "\<And>k. i1 \<le> k \<Longrightarrow> k < i2 \<Longrightarrow> a1 ! k \<le> tmp" "i2 < j1 \<longrightarrow> tmp < a1 ! i2"
      using scan_up_spec [of i1 j1 a1 tmp] i1 j1 1(5,6) len1 by (auto simp: returns_iff)
    define a2 j2 where "a2 = (if i2 < j1 then a1[j1 := a1 ! i2] else a1)" and "j2 = (if i2 < j1 then j1 - 1 else j1)"
    have q: "(if i2 < j1 then do { x \<leftarrow> rd a1 i2; a \<leftarrow> wr a1 j1 x; Some (a, j1 - 1) } else Some (a1, j1)) = Some (a2, j2)"
      using i2 j1 1(5,6) len1 by (auto simp: a2_def j2_def)
    have j2: "i2 \<le> j2" "j2 \<le> j1" using i2 by (auto simp: j2_def)
    have s2: "split_at a2 b e tmp i2 j2"
    proof -
      have "a2 ! k \<le> tmp" if "b \<le> k" "k < i2" for k
        using s1 i2(4) [of k] that i2(3) by (cases "k < i1") (auto simp: split_at_def a2_def nth_list_update)
      moreover have "tmp \<le> a2 ! k" if "j2 < k" "k < e" for k
        using s1 i2 that j1 1(5,6) len1
        by (cases "k = j1") (auto simp: split_at_def a2_def j2_def nth_list_update split: if_splits)
      ultimately show ?thesis by (simp add: split_at_def)
    qed
    have q2: "perm_seg (a1[j1 := tmp]) (a2[i2 := tmp]) b e"
      using swap_hole [of j1 a1 i2 b e tmp] i1 i2 j1 1(3,5,6) len1 by (auto simp: a2_def)
    have "returns (part_loop a2 i2 j2 tmp) (\<lambda>(c, k). i2 \<le> k \<and> k \<le> j2 \<and>
        perm_seg (a2[i2 := tmp]) (c[k := tmp]) b e \<and> split_at c b e tmp k k)"
      using "1.IH" [OF True j1(1) p refl i2(1) q refl s2] j2 j1 i1 i2 1(3,5,6) len1 by (auto simp: a2_def)
    then have "returns (part_loop a2 i2 j2 tmp) (\<lambda>(c, k). i \<le> k \<and> k \<le> j \<and>
        perm_seg (a[i := tmp]) (c[k := tmp]) b e \<and> split_at c b e tmp k k)"
      by (rule returns_mono)
        (use i1 i2 j1 j2 in \<open>auto intro: perm_seg_trans [OF perm_seg_trans [OF q1 q2]]\<close>)
    then show ?thesis
      using True by (simp add: part_loop.simps [of a i j tmp] j1(1) p i2(1) q)
  qed
qed

text \<open>Sorting both sides of the pivot sorts the segment.\<close>

lemma quick_combine:
  fixes a :: "int list"
  assumes i: "b \<le> i" "i < e" "e \<le> length a"
    and low: "\<And>k. b \<le> k \<Longrightarrow> k < i \<Longrightarrow> a ! k \<le> a ! i" and high: "\<And>k. i < k \<Longrightarrow> k < e \<Longrightarrow> a ! i \<le> a ! k"
    and 1: "perm_seg a a1 b i" "sorted_seg a1 b i" and 2: "perm_seg a1 a2 (Suc i) e" "sorted_seg a2 (Suc i) e"
  shows "perm_seg a a2 b e" and "sorted_seg a2 b e"
proof -
  note len = perm_seg_length [OF 1(1)] perm_seg_length [OF 2(1)]
  show "perm_seg a a2 b e"
    using perm_seg_trans [OF perm_seg_mono [OF 1(1)] perm_seg_mono [OF 2(1)]] i by simp
  have left: "a2 ! k = a1 ! k" if "k \<le> i" for k
    using perm_seg_outside [OF 2(1), of k] that i len by simp
  have right: "a1 ! k = a ! k" if "i \<le> k" "k < e" for k
    using perm_seg_outside [OF 1(1), of k] that i by simp
  have l: "a2 ! k \<le> a ! i" if "b \<le> k" "k < i" for k
    using perm_seg_all [OF 1(1), where P = "\<lambda>x. x \<le> a ! i"] low left [of k] that i by auto
  have r: "a ! i \<le> a2 ! k" if "i < k" "k < e" for k
    using perm_seg_all [OF 2(1), where P = "\<lambda>x. a ! i \<le> x"] high right that i len by auto
  show "sorted_seg a2 b e"
    unfolding sorted_seg_def
  proof (intro allI impI, elim conjE)
    fix p q assume pq: "b \<le> p" "p < q" "q < e"
    consider "q < i" | "p < i" "q = i" | "p < i" "i < q" | "p = i" | "i < p" using pq by linarith
    then show "a2 ! p \<le> a2 ! q"
    proof cases
      case 1
      then show ?thesis using assms(7) left pq by (simp add: sorted_seg_def)
    next
      case 2
      then show ?thesis using l [of p] left [of i] right [of i] pq i by simp
    next
      case 3
      then show ?thesis using l [of p] r [of q] pq by simp
    next
      case 4
      then show ?thesis using r [of q] left [of i] right [of i] pq i by simp
    next
      case 5
      then show ?thesis using 2(2) pq by (simp add: sorted_seg_def)
    qed
  qed
qed

text \<open>The code reads and writes \<open>a[e]\<close> when the pivot ends up last, so it needs one more
  cell behind the segment.\<close>

lemma quicksort_spec:
  "b \<le> e \<Longrightarrow> e < length a \<Longrightarrow> returns (quicksort a b e) (\<lambda>c. perm_seg a c b e \<and> sorted_seg c b e)"
proof (induction a b e rule: quicksort.induct)
  case (1 a b e)
  show ?case
  proof (cases "b = e")
    case True
    then have "part_loop a b (e - 1) (a ! b) = Some (a, b)" by (subst part_loop.simps) auto
    then show ?thesis using True 1(4) by (subst quicksort.simps) simp
  next
    case False
    then have be: "b < e" using 1(3) by simp
    obtain c i where c: "part_loop a b (e - 1) (a ! b) = Some (c, i)" "b \<le> i" "i < e"
        "perm_seg a (c[i := a ! b]) b e" "split_at c b e (a ! b) i i"
      using part_loop_spec [of a b e "a ! b" b "e - 1"] be 1(4)
      by (fastforce simp: returns_iff split_at_def)
    define d where "d = c[i := a ! b]"
    have len: "length c = length a" "length d = length a" using perm_seg_length [OF c(4)] by (auto simp: d_def)
    have w: "wr c i (a ! b) = Some d" using c 1(4) len by (simp add: d_def)
    have low: "\<And>k. b \<le> k \<Longrightarrow> k < i \<Longrightarrow> d ! k \<le> d ! i" and high: "\<And>k. i < k \<Longrightarrow> k < e \<Longrightarrow> d ! i \<le> d ! k"
      using c 1(4) len by (auto simp: d_def split_at_def)
    show ?thesis
    proof (cases "b + 2 < e")
      case False
      have "d ! p \<le> d ! q" if pq: "b \<le> p" "p < q" "q < e" for p q
      proof -
        have "p = b" "q = Suc b" using pq False by auto
        with c(2,3) False have "i = p \<or> i = q" by auto
        then show ?thesis using low [of p] high [of q] pq by auto
      qed
      then have "sorted_seg d b e" by (simp add: sorted_seg_def)
      then show ?thesis
        using False c(1,4) w be 1(4) by (simp add: quicksort.simps [of a b e] d_def)
    next
      case True
      obtain d1 where d1: "quicksort d b i = Some d1" "perm_seg d d1 b i" "sorted_seg d1 b i"
        using "1.IH"(1) [OF _ c(1) refl w True] be c(2,3) 1(4) len by (auto simp: returns_iff)
      have len1: "length d1 = length a" using perm_seg_length [OF d1(2)] len by simp
      obtain d2 where d2: "quicksort d1 (i + 1) e = Some d2" "perm_seg d1 d2 (Suc i) e" "sorted_seg d2 (Suc i) e"
        using "1.IH"(2) [OF _ c(1) refl w True d1(1)] be c(2,3) 1(4) len1 by (auto simp: returns_iff)
      have "perm_seg d d2 b e" "sorted_seg d2 b e"
        using quick_combine [OF c(2,3) _ low high d1(2,3) d2(2,3)] 1(4) len by auto
      moreover from this have "perm_seg a d2 b e" using perm_seg_trans [OF c(4)] by (simp add: d_def)
      ultimately show ?thesis
        using True c(1) w d1(1) d2(1) be 1(4) by (simp add: quicksort.simps [of a b e])
    qed
  qed
qed

section \<open>The code of sort/quicksort.c\<close>

text \<open>\<open>median3(a, left, right)\<close>: orders the first, the middle and the last element and hides the
  median at \<open>right - 1\<close>.\<close>

definition cond_swap :: "int list \<Rightarrow> nat \<Rightarrow> nat \<Rightarrow> int list option" where
  "cond_swap a i j = do { x \<leftarrow> rd a i; y \<leftarrow> rd a j; if x > y then dsa_swap a i j else Some a }"

definition median3 :: "int list \<Rightarrow> nat \<Rightarrow> nat \<Rightarrow> (int list \<times> int) option" where
  "median3 a left right = (let center = (left + right) div 2 in do {
     a \<leftarrow> cond_swap a left center;
     a \<leftarrow> cond_swap a left right;
     a \<leftarrow> cond_swap a center right;
     a \<leftarrow> dsa_swap a center (right - 1);
     pivot \<leftarrow> rd a (right - 1);
     Some (a, pivot)
   })"

text \<open>\<open>while (a[++i] < pivot) {}\<close> and \<open>while (a[--j] > pivot) {}\<close>: only the array's own bounds
  stop them, by undefined behaviour.\<close>

function run_up :: "int list \<Rightarrow> nat \<Rightarrow> int \<Rightarrow> nat option" where
  "run_up a i pivot = do { x \<leftarrow> rd a (Suc i); if x < pivot then run_up a (Suc i) pivot else Some (Suc i) }"
  by pat_completeness auto
termination
  by (relation "measure (\<lambda>(a, i, pivot). length a - i)") (auto simp: rd_def split: if_splits)

fun run_down :: "int list \<Rightarrow> nat \<Rightarrow> int \<Rightarrow> nat option" where
  "run_down a 0 pivot = None"
| "run_down a (Suc j) pivot = do { x \<leftarrow> rd a j; if x > pivot then run_down a j pivot else Some j }"

declare run_up.simps [simp del]

lemma run_up_gt: "run_up a i pivot = Some i' \<Longrightarrow> i < i'"
proof (induction a i pivot rule: run_up.induct)
  case (1 a i pivot)
  show ?case
    using 1(2) "1.IH" by (subst (asm) (1) run_up.simps)
      (fastforce simp: Option.bind_eq_Some_conv split: if_splits)
qed

lemma run_down_lt: "run_down a j pivot = Some j' \<Longrightarrow> j' < j"
  by (induction a j pivot rule: run_down.induct)
    (fastforce simp: Option.bind_eq_Some_conv split: if_splits)+

text \<open>The loop \<open>for (;;)\<close> of \<open>qsort\<close>, which returns the final \<open>i\<close>.\<close>

function qsort_part :: "int list \<Rightarrow> nat \<Rightarrow> nat \<Rightarrow> int \<Rightarrow> (int list \<times> nat) option" where
  "qsort_part a i j pivot = do {
     i \<leftarrow> run_up a i pivot;
     j \<leftarrow> run_down a j pivot;
     if i < j then do { a \<leftarrow> dsa_swap a i j; qsort_part a i j pivot }
     else Some (a, i)
   }"
  by pat_completeness auto
termination
proof (relation "measure (\<lambda>(a, i, j, pivot). j - i)", simp)
  fix a :: "int list" and i j i' j' pivot and a'
  assume "run_up a i pivot = Some i'" "run_down a j pivot = Some j'" "i' < j'"
  moreover from this have "i < i'" "j' < j" using run_up_gt run_down_lt by blast+
  ultimately show "((a', i', j', pivot), a, i, j, pivot) \<in> measure (\<lambda>(a, i, j, pivot). j - i)"
    by simp
qed

declare qsort_part.simps [simp del]

text \<open>Conditional swaps, the median of three and the scans between sentinels.\<close>

lemma dsa_swap_eq:
  "i < length a \<Longrightarrow> j < length a \<Longrightarrow> dsa_swap a i j = Some (a[i := a ! j, j := a ! i])"
  by (simp add: dsa_swap_def)

lemma cond_swap_eq:
  "i < length a \<Longrightarrow> j < length a \<Longrightarrow>
   cond_swap a i j = Some (if a ! i > a ! j then a[i := a ! j, j := a ! i] else a)"
  by (simp add: cond_swap_def dsa_swap_eq)

lemma cond_swap_spec:
  assumes "i < j" "j < length a"
  shows "returns (cond_swap a i j) (\<lambda>b. length b = length a \<and> perm_seg a b i (Suc j) \<and>
    b ! i = min (a ! i) (a ! j) \<and> b ! j = max (a ! i) (a ! j) \<and> (\<forall>k. k \<noteq> i \<and> k \<noteq> j \<longrightarrow> b ! k = a ! k))"
  using assms perm_seg_swap [of i a j i "Suc j"] by (simp add: cond_swap_eq)

lemma median3_spec:
  assumes lr: "left + 3 \<le> right" "right < length a"
  shows "returns (median3 a left right) (\<lambda>(b, pivot). perm_seg a b left (Suc right) \<and>
    b ! left \<le> pivot \<and> b ! (right - 1) = pivot \<and> pivot \<le> b ! right)"
proof -
  define m where "m = (left + right) div 2"
  have m: "left < m" "m < right - 1" "m < right" "m < length a" using lr by (auto simp: m_def)
  obtain b where b: "cond_swap a left m = Some b" "perm_seg a b left (Suc m)" "length b = length a"
      "b ! left = min (a ! left) (a ! m)" "b ! m = max (a ! left) (a ! m)"
    using cond_swap_spec [of left m a] m lr by (auto simp: returns_iff)
  obtain c where c: "cond_swap b left right = Some c" "perm_seg b c left (Suc right)" "length c = length a"
      "c ! left = min (b ! left) (b ! right)" "c ! right = max (b ! left) (b ! right)" "c ! m = b ! m"
    using cond_swap_spec [of left right b] m lr b(3) by (auto simp: returns_iff)
  obtain d where d: "cond_swap c m right = Some d" "perm_seg c d m (Suc right)" "length d = length a"
      "d ! m = min (c ! m) (c ! right)" "d ! right = max (c ! m) (c ! right)" "d ! left = c ! left"
    using cond_swap_spec [of m right c] m lr c(3) by (auto simp: returns_iff)
  define f where "f = d[m := d ! (right - 1), right - 1 := d ! m]"
  have f: "dsa_swap d m (right - 1) = Some f" using d(3) m lr by (simp add: dsa_swap_eq f_def)
  have pf: "perm_seg d f left (Suc right)" using d(3) m lr by (auto simp: f_def intro!: perm_seg_swap)
  have "perm_seg a f left (Suc right)"
    using perm_seg_trans [OF perm_seg_trans [OF perm_seg_trans [OF perm_seg_mono [OF b(2)] c(2)]
        perm_seg_mono [OF d(2)]] pf] m by simp
  moreover have "f ! left = d ! left" "f ! (right - 1) = d ! m" "f ! right = d ! right" "length f = length a"
    using d(3) m lr by (auto simp: f_def nth_list_update)
  moreover have "median3 a left right = Some (f, f ! (right - 1))"
    using b(1) c(1) d(1) f \<open>length f = length a\<close> lr by (simp add: median3_def Let_def flip: m_def)
  moreover have "min (b ! left) (b ! right) \<le> min (c ! m) (c ! right)"
    using b(4,5) c(4-6) by (simp add: min_def max_def)
  moreover from calculation have "f ! left \<le> f ! (right - 1)" using c(4) d(4-6) by simp
  moreover from calculation have "f ! (right - 1) \<le> f ! right" using d(4-6) by simp
  ultimately show ?thesis by simp
qed

lemma run_up_spec:
  "i < j \<Longrightarrow> j < length a \<Longrightarrow> p \<le> a ! j \<Longrightarrow> returns (run_up a i p)
     (\<lambda>i'. i < i' \<and> i' \<le> j \<and> (\<forall>k. i < k \<and> k < i' \<longrightarrow> a ! k < p) \<and> p \<le> a ! i')"
proof (induction a i p rule: run_up.induct)
  case (1 a i p)
  show ?case
  proof (cases "a ! Suc i < p")
    case False
    with 1(2-4) show ?thesis by (subst run_up.simps) (auto simp: Suc_le_eq)
  next
    case True
    with 1(2-4) have ij: "Suc i < j" by (cases "Suc i = j") auto
    then have "returns (run_up a (Suc i) p)
        (\<lambda>i'. Suc i < i' \<and> i' \<le> j \<and> (\<forall>k. Suc i < k \<and> k < i' \<longrightarrow> a ! k < p) \<and> p \<le> a ! i')"
      using "1.IH" [of "a ! Suc i"] True 1(3,4) by simp
    then have "returns (run_up a (Suc i) p)
        (\<lambda>i'. i < i' \<and> i' \<le> j \<and> (\<forall>k. i < k \<and> k < i' \<longrightarrow> a ! k < p) \<and> p \<le> a ! i')"
    proof (rule returns_mono, elim conjE, intro conjI allI impI)
      fix i' k assume "\<forall>k. Suc i < k \<and> k < i' \<longrightarrow> a ! k < p" "i < k \<and> k < i'"
      then show "a ! k < p" using True by (cases "k = Suc i") auto
    qed auto
    with True ij 1(3) show ?thesis by (simp add: run_up.simps [of a i p])
  qed
qed

lemma run_down_spec:
  "i < j \<Longrightarrow> j \<le> length a \<Longrightarrow> a ! i \<le> p \<Longrightarrow> returns (run_down a j p)
     (\<lambda>j'. i \<le> j' \<and> j' < j \<and> (\<forall>k. j' < k \<and> k < j \<longrightarrow> p < a ! k) \<and> a ! j' \<le> p)"
proof (induction a j p rule: run_down.induct)
  case (2 a j p)
  show ?case
  proof (cases "p < a ! j")
    case False
    with 2 show ?thesis by auto
  next
    case True
    with 2(2-4) have ij: "i < j" by (cases "i = j") auto
    then have "returns (run_down a j p)
        (\<lambda>j'. i \<le> j' \<and> j' < j \<and> (\<forall>k. j' < k \<and> k < j \<longrightarrow> p < a ! k) \<and> a ! j' \<le> p)"
      using "2.IH" [of "a ! j"] True 2(3,4) by simp
    then have "returns (run_down a j p)
        (\<lambda>j'. i \<le> j' \<and> j' < Suc j \<and> (\<forall>k. j' < k \<and> k < Suc j \<longrightarrow> p < a ! k) \<and> a ! j' \<le> p)"
    proof (rule returns_mono, elim conjE, intro conjI allI impI)
      fix j' k assume "\<forall>k. j' < k \<and> k < j \<longrightarrow> p < a ! k" "j' < k \<and> k < Suc j"
      then show "p < a ! k" using True by (cases "k = j") auto
    qed auto
    with True 2(3) show ?thesis by simp
  qed
qed simp

lemma qsort_part_spec:
  "lo \<le> i \<Longrightarrow> i < j \<Longrightarrow> j < hi \<Longrightarrow> hi \<le> length a \<Longrightarrow>
   (\<And>k. lo \<le> k \<Longrightarrow> k \<le> i \<Longrightarrow> a ! k \<le> p) \<Longrightarrow> (\<And>k. j \<le> k \<Longrightarrow> k < hi \<Longrightarrow> p \<le> a ! k) \<Longrightarrow>
   returns (qsort_part a i j p) (\<lambda>(b, k). i < k \<and> k \<le> j \<and> perm_seg a b (Suc i) j \<and>
     (\<forall>x. lo \<le> x \<and> x < k \<longrightarrow> b ! x \<le> p) \<and> (\<forall>x. k \<le> x \<and> x < hi \<longrightarrow> p \<le> b ! x))"
proof (induction a i j p rule: qsort_part.induct)
  case (1 a i j p)
  obtain i' where i': "run_up a i p = Some i'" "i < i'" "i' \<le> j"
      "\<And>k. i < k \<Longrightarrow> k < i' \<Longrightarrow> a ! k < p" "p \<le> a ! i'"
    using run_up_spec [of i j a p] 1(3-5) 1(7) [of j] by (auto simp: returns_iff)
  obtain j' where j': "run_down a j p = Some j'" "i \<le> j'" "j' < j"
      "\<And>k. j' < k \<Longrightarrow> k < j \<Longrightarrow> p < a ! k" "a ! j' \<le> p"
    using run_down_spec [of i j a p] 1(2-5) 1(6) [of i] by (auto simp: returns_iff)
  have low: "a ! k \<le> p" if "lo \<le> k" "k < i'" for k
    using 1(6) [of k] i'(4) [of k] that by (cases "k \<le> i") auto
  have high: "p \<le> a ! k" if "j' < k" "k < hi" for k
    using 1(7) [of k] j'(4) [of k] that by (cases "j \<le> k") auto
  show ?case
  proof (cases "i' < j'")
    case False
    have "p \<le> a ! x" if "i' \<le> x" "x < hi" for x
      using high [of x] i'(5) that False by (cases "x = i'") auto
    then show ?thesis
      using False i' j' low by (simp add: qsort_part.simps [of a i j p])
  next
    case True
    define b where "b = a[i' := a ! j', j' := a ! i']"
    have sw: "dsa_swap a i' j' = Some b" using True i' j' 1(4,5) by (simp add: dsa_swap_eq b_def)
    have bv: "b ! k = (if k = j' then a ! i' else if k = i' then a ! j' else a ! k)" for k
      using True j' 1(4,5) by (auto simp: b_def nth_list_update)
    have pb: "perm_seg a b (Suc i) j" using True i' j' 1(4,5) by (auto simp: b_def intro!: perm_seg_swap)
    have "returns (qsort_part b i' j' p) (\<lambda>(c, k). i' < k \<and> k \<le> j' \<and> perm_seg b c (Suc i') j' \<and>
        (\<forall>x. lo \<le> x \<and> x < k \<longrightarrow> c ! x \<le> p) \<and> (\<forall>x. k \<le> x \<and> x < hi \<longrightarrow> p \<le> c ! x))"
      by (rule "1.IH" [OF i'(1) j'(1) True sw])
        (use True 1(2-5) i' j' low high in \<open>auto simp: bv b_def [THEN arg_cong [where f = length]]\<close>)
    then have "returns (qsort_part b i' j' p) (\<lambda>(c, k). i < k \<and> k \<le> j \<and> perm_seg a c (Suc i) j \<and>
        (\<forall>x. lo \<le> x \<and> x < k \<longrightarrow> c ! x \<le> p) \<and> (\<forall>x. k \<le> x \<and> x < hi \<longrightarrow> p \<le> c ! x))"
    proof (rule returns_mono, safe)
      fix c k assume "perm_seg b c (Suc i') j'"
      then show "perm_seg a c (Suc i) j"
        using perm_seg_trans [OF pb perm_seg_mono [of b c "Suc i'" j' "Suc i" j]] i' j' by simp
    qed (use i' j' in auto)
    then show ?thesis using True by (simp add: qsort_part.simps [of a i j p] i'(1) j'(1) sw)
  qed
qed

lemma cond_swap_Some: "cond_swap a i j = Some b \<Longrightarrow> j < length a \<and> length b = length a"
  by (auto simp: cond_swap_def dsa_swap_def rd_def wr_def Option.bind_eq_Some_conv split: if_splits)

lemma median3_Some: "median3 a left right = Some (b, p) \<Longrightarrow> right < length a"
  by (auto simp: median3_def Let_def Option.bind_eq_Some_conv dest!: cond_swap_Some)

lemma median3_part:
  assumes "left + 3 \<le> right" "right < length a"
  shows "returns (do { (a, p) \<leftarrow> median3 a left right; (a, i) \<leftarrow> qsort_part a left (right - 1) p;
      a \<leftarrow> dsa_swap a i (right - 1); Some (a, i) })
    (\<lambda>(b, i). left < i \<and> i < right \<and> perm_seg a b left (Suc right) \<and>
      (\<forall>k. left \<le> k \<and> k < i \<longrightarrow> b ! k \<le> b ! i) \<and> (\<forall>k. i < k \<and> k \<le> right \<longrightarrow> b ! i \<le> b ! k))"
proof -
  obtain b p where b: "median3 a left right = Some (b, p)" "perm_seg a b left (Suc right)"
      "b ! left \<le> p" "b ! (right - 1) = p" "p \<le> b ! right"
    using median3_spec [OF assms] by (auto simp: returns_iff)
  have len: "length b = length a" using perm_seg_length [OF b(2)] .
  have "p \<le> b ! k" if "right - 1 \<le> k" "k < Suc right" for k
    using that b(4,5) by (cases "k = right") (auto simp: le_less_Suc_eq dest!: le_neq_implies_less)
  moreover have "b ! k \<le> p" if "left \<le> k" "k \<le> left" for k using that b(3) by simp
  ultimately obtain c i where c: "qsort_part b left (right - 1) p = Some (c, i)" "left < i" "i \<le> right - 1"
      "perm_seg b c (Suc left) (right - 1)" "\<And>x. left \<le> x \<Longrightarrow> x < i \<Longrightarrow> c ! x \<le> p"
      "\<And>x. i \<le> x \<Longrightarrow> x < Suc right \<Longrightarrow> p \<le> c ! x"
    using qsort_part_spec [of left left "right - 1" "Suc right" b p] assms len by (force simp: returns_iff)
  have cl: "length c = length a" using perm_seg_length [OF c(4)] len by simp
  have cp: "c ! (right - 1) = p" using perm_seg_outside [OF c(4), of "right - 1"] assms len b(4) by simp
  define d where "d = c[i := c ! (right - 1), right - 1 := c ! i]"
  have d: "dsa_swap c i (right - 1) = Some d" using c(2,3) assms cl by (simp add: dsa_swap_eq d_def)
  have dv: "d ! k = (if k = right - 1 then c ! i else if k = i then p else c ! k)" for k
    using c(2,3) assms cl cp by (auto simp: d_def nth_list_update)
  have di: "d ! i = p" using c(2,3) cp by (simp add: dv)
  have "perm_seg c d left (Suc right)" using c(2,3) assms cl by (auto simp: d_def intro!: perm_seg_swap)
  then have "perm_seg a d left (Suc right)"
    using perm_seg_trans [OF perm_seg_trans [OF b(2) perm_seg_mono [OF c(4)]]] by simp
  moreover have "d ! k \<le> p" if "left \<le> k" "k < i" for k using that c(3) c(5) [of k] by (simp add: dv)
  moreover have "p \<le> d ! k" if "i < k" "k \<le> right" for k
    using that c(3) c(6) [of k] c(6) [of i] by (simp add: dv)
  ultimately show ?thesis using b(1) c(1-3) d di assms by simp
qed

lemma median3_part_bounds:
  assumes "left + 3 \<le> right" "median3 a left right = Some (b, p)"
    "qsort_part b left (right - 1) p = Some (c, i)"
  shows "left < i \<and> i < right"
  using median3_part [OF assms(1) median3_Some [OF assms(2)]] assms(2,3)
  by (auto simp: returns_iff Option.bind_eq_Some_conv)

text \<open>\<open>qsort(a, left, right)\<close>. Only \<open>right\<close> can be negative, in the call \<open>qsort(a, 0, -1)\<close>
  for the empty array; \<open>insertionsort(a + left, right - left + 1)\<close> works on the array from
  \<open>left\<close> on.\<close>

function dsa_qsort :: "(int list \<Rightarrow> nat \<Rightarrow> int list option) \<Rightarrow> int list \<Rightarrow> nat \<Rightarrow> int \<Rightarrow> int list option" where
  "dsa_qsort isort a left right =
     (if int left + 3 \<le> right then do {
        (a, pivot) \<leftarrow> median3 a left (nat right);
        (a, i) \<leftarrow> qsort_part a left (nat right - 1) pivot;
        a \<leftarrow> dsa_swap a i (nat right - 1);
        a \<leftarrow> dsa_qsort isort a left (int i - 1);
        dsa_qsort isort a (i + 1) right
      } else do {
        s \<leftarrow> isort (drop left a) (nat (right - int left + 1));
        Some (take left a @ s)
      })"
  by pat_completeness auto
termination
proof (relation "measure (\<lambda>(isort, a, left, right). nat (right + 1 - int left))", simp)
  fix a :: "int list" and left :: nat and right :: int and isort :: "int list \<Rightarrow> nat \<Rightarrow> int list option"
    and u v and b c :: "int list" and p i d
  assume lr: "int left + 3 \<le> right" and 1: "median3 a left (nat right) = Some u" "(b, p) = u"
    and 2: "qsort_part b left (nat right - 1) p = Some v" "(c, i) = v"
  have "left + 3 \<le> nat right" using lr by linarith
  then have "left < i" "i < nat right" using median3_part_bounds 1 2 by blast+
  then show "((isort, d, left, int i - 1), isort, a, left, right)
        \<in> measure (\<lambda>(isort, a, left, right). nat (right + 1 - int left))"
    by (simp, linarith)
next
  fix a :: "int list" and left :: nat and right :: int and isort :: "int list \<Rightarrow> nat \<Rightarrow> int list option"
    and u v and b c :: "int list" and p i d
  assume lr: "int left + 3 \<le> right" and 1: "median3 a left (nat right) = Some u" "(b, p) = u"
    and 2: "qsort_part b left (nat right - 1) p = Some v" "(c, i) = v"
  have "left + 3 \<le> nat right" using lr by linarith
  then have "left < i" "i < nat right" using median3_part_bounds 1 2 by blast+
  then show "((isort, d, i + 1, right), isort, a, left, right)
        \<in> measure (\<lambda>(isort, a, left, right). nat (right + 1 - int left))"
    using lr by (simp add: less_diff_eq)
qed

declare dsa_qsort.simps [simp del]

definition dsa_quicksort :: "(int list \<Rightarrow> nat \<Rightarrow> int list option) \<Rightarrow> int list \<Rightarrow> nat \<Rightarrow> int list option" where
  "dsa_quicksort isort a n = dsa_qsort isort a 0 (int n - 1)"

text \<open>Sorting a suffix in place sorts a segment.\<close>

lemma sorter_suffix:
  assumes "array_sorter isort" "left + n \<le> length a"
  shows "returns (do { s \<leftarrow> isort (drop left a) n; Some (take left a @ s) })
    (\<lambda>b. perm_seg a b left (left + n) \<and> sorted_seg b left (left + n))"
proof -
  have "isort (drop left a) n = Some (sort (take n (drop left a)) @ drop n (drop left a))"
    using assms by (intro array_sorter.srt_eq) auto
  moreover define b where "b = take left a @ sort (slice a left (left + n)) @ drop (left + n) a"
  moreover have p: "perm_seg a b left (left + n)"
    using assms(2) by (subst perm_seg_iff) (auto simp: b_def)
  moreover have "slice b left (left + n) = sort (slice a left (left + n))"
    using assms(2) by (simp add: b_def slice_def)
  then have "sorted_seg b left (left + n)"
    using sorted_slice [of "left + n" b left] perm_seg_length [OF p] assms(2) by simp
  ultimately show ?thesis by (simp add: slice_def add.commute)
qed

lemma dsa_qsort_spec:
  "array_sorter isort \<Longrightarrow> int left \<le> right + 1 \<Longrightarrow> nat (right + 1) \<le> length a \<Longrightarrow>
   returns (dsa_qsort isort a left right)
     (\<lambda>b. perm_seg a b left (nat (right + 1)) \<and> sorted_seg b left (nat (right + 1)))"
proof (induction isort a left right rule: dsa_qsort.induct)
  case (1 isort a left right)
  define r where "r = nat right"
  show ?case
  proof (cases "int left + 3 \<le> right")
    case False
    have "left + nat (right - int left + 1) = nat (right + 1)" using 1(4) by linarith
    then show ?thesis
      using sorter_suffix [of isort left "nat (right - int left + 1)" a] False 1(3,5)
      by (simp add: dsa_qsort.simps [of isort a left right])
  next
    case True
    then have r: "left + 3 \<le> r" "r < length a" "right = int r" using 1(5) by (auto simp: r_def)
    obtain b p c i d where b: "median3 a left r = Some (b, p)" "qsort_part b left (r - 1) p = Some (c, i)"
        "dsa_swap c i (r - 1) = Some d" and i: "left < i" "i < r" and p: "perm_seg a d left (Suc r)"
      and low: "\<And>k. left \<le> k \<Longrightarrow> k < i \<Longrightarrow> d ! k \<le> d ! i"
      and high: "\<And>k. i < k \<Longrightarrow> k < Suc r \<Longrightarrow> d ! i \<le> d ! k"
      using median3_part [OF r(1,2)] by (auto simp: returns_iff Option.bind_eq_Some_conv)
    note len = perm_seg_length [OF p]
    obtain d1 where d1: "dsa_qsort isort d left (int i - 1) = Some d1" "perm_seg d d1 left i" "sorted_seg d1 left i"
      using "1.IH"(1) [OF True _ _ _ _ _ 1(3)] b i r len by (force simp: returns_iff)
    obtain d2 where d2: "dsa_qsort isort d1 (i + 1) right = Some d2" "perm_seg d1 d2 (Suc i) (Suc r)"
        "sorted_seg d2 (Suc i) (Suc r)"
      using "1.IH"(2) [OF True _ _ _ _ _ d1(1) 1(3)] b i r len perm_seg_length [OF d1(2)]
      by (force simp: returns_iff nat_add_distrib)
    have "perm_seg d d2 left (Suc r)" "sorted_seg d2 left (Suc r)"
      using quick_combine [OF _ _ _ low high d1(2,3) d2(2,3)] i r len by auto
    then have "perm_seg a d2 left (Suc r)" "sorted_seg d2 left (Suc r)" using perm_seg_trans [OF p] by auto
    then show ?thesis
      using True b d1(1) d2(1) r(3) by (simp add: dsa_qsort.simps [of isort a left "int r"] nat_add_distrib)
  qed
qed

section \<open>The code of sort/insertion\_sort.c and sort/shellsort.c\<close>

text \<open>\<open>insertion_sort\<close> and \<open>shellsort\<close>; the inner loop of the latter tests the gap in the
  loop header and the element in its body, from where it breaks out.\<close>

fun insertion_shift :: "int list \<Rightarrow> nat \<Rightarrow> int \<Rightarrow> (int list \<times> nat) option" where
  "insertion_shift a 0 tmp = Some (a, 0)"
| "insertion_shift a (Suc j) tmp = do {
     x \<leftarrow> rd a j;
     if x > tmp then do { a \<leftarrow> wr a (Suc j) x; insertion_shift a j tmp } else Some (a, Suc j) }"

function insertion_loop :: "int list \<Rightarrow> nat \<Rightarrow> nat \<Rightarrow> int list option" where
  "insertion_loop a i n =
     (if i < n then do {
        tmp \<leftarrow> rd a i;
        (a, j) \<leftarrow> insertion_shift a i tmp;
        a \<leftarrow> wr a j tmp;
        insertion_loop a (i + 1) n
      } else Some a)"
  by pat_completeness auto
termination
  by (relation "measure (\<lambda>(a, i, n). n - i)") auto

definition insertion_sort :: "int list \<Rightarrow> nat \<Rightarrow> int list option" where
  "insertion_sort a n = insertion_loop a 1 n"

function dsa_gap_shift :: "int list \<Rightarrow> nat \<Rightarrow> nat \<Rightarrow> int \<Rightarrow> (int list \<times> nat) option" where
  "dsa_gap_shift a increment j tmp =
     (if increment = 0 \<or> j < increment then Some (a, j)
      else do {
        x \<leftarrow> rd a (j - increment);
        if tmp < x then do { a \<leftarrow> wr a j x; dsa_gap_shift a increment (j - increment) tmp }
        else Some (a, j)
      })"
  by pat_completeness auto
termination
  by (relation "measure (\<lambda>(a, increment, j, tmp). j)") auto

function dsa_gap_pass :: "int list \<Rightarrow> nat \<Rightarrow> nat \<Rightarrow> nat \<Rightarrow> int list option" where
  "dsa_gap_pass a increment i n =
     (if i < n then do {
        tmp \<leftarrow> rd a i;
        (a, j) \<leftarrow> dsa_gap_shift a increment i tmp;
        a \<leftarrow> wr a j tmp;
        dsa_gap_pass a increment (i + 1) n
      } else Some a)"
  by pat_completeness auto
termination
  by (relation "measure (\<lambda>(a, increment, i, n). n - i)") auto

fun dsa_gap_loop :: "int list \<Rightarrow> nat \<Rightarrow> nat \<Rightarrow> int list option" where
  "dsa_gap_loop a increment n =
     (if increment > 0 then do {
        a \<leftarrow> dsa_gap_pass a increment increment n;
        dsa_gap_loop a (increment div 2) n
      } else Some a)"

definition dsa_shellsort :: "int list \<Rightarrow> nat \<Rightarrow> int list option" where
  "dsa_shellsort a n = dsa_gap_loop a (n div 2) n"

declare insertion_loop.simps [simp del] dsa_gap_shift.simps [simp del] dsa_gap_pass.simps [simp del]
  dsa_gap_loop.simps [simp del]

lemma insertion_shift_eq: "insertion_shift a j tmp = insert_shift a j tmp"
  by (induction a j tmp rule: insertion_shift.induct) (subst insert_shift.simps, auto intro!: Option.bind_cong)+

lemma insertion_loop_eq: "insertion_loop a i n = insert_outer a i n"
  by (induction a i n rule: insertion_loop.induct)
    (auto simp: insertion_loop.simps insert_outer.simps insertion_shift_eq intro!: Option.bind_cong)

lemma dsa_gap_shift_eq: "dsa_gap_shift a sep j tmp = shell_shift a sep j tmp"
  by (induction a sep j tmp rule: dsa_gap_shift.induct)
    (subst dsa_gap_shift.simps, subst shell_shift.simps, auto intro!: Option.bind_cong)

lemma dsa_gap_pass_eq: "dsa_gap_pass a sep i n = shell_pass a sep i n"
  by (induction a sep i n rule: dsa_gap_pass.induct)
    (auto simp: dsa_gap_pass.simps shell_pass.simps dsa_gap_shift_eq intro!: Option.bind_cong)

lemma dsa_gap_loop_eq: "dsa_gap_loop a sep n = shell_outer a sep n"
  by (induction a sep n rule: dsa_gap_loop.induct)
    (subst dsa_gap_loop.simps, subst shell_outer.simps, auto simp: dsa_gap_pass_eq intro!: Option.bind_cong)

lemma dsa_sorts_eq: "insertion_sort a n = insertsort a n" "dsa_shellsort a n = shellsort a n"
  by (simp_all add: insertion_sort_def insertsort_def insertion_loop_eq
      dsa_shellsort_def shellsort_def dsa_gap_loop_eq)

interpretation dsa_ins: array_sorter insertion_sort
  by unfold_locales (simp add: dsa_sorts_eq insert.srt_total)

interpretation dsa_shell: array_sorter dsa_shellsort
  by unfold_locales (simp add: dsa_sorts_eq shell.srt_total)

section \<open>Properties\<close>

text \<open>\<open>my_qsort(a, n)\<close> of \<open>clrs/sorting.c\<close> sorts the first \<open>n\<close> elements and leaves the rest
  of the array alone, provided that the array has at least one element more than \<open>n\<close>: the
  code reads and writes back the cell just behind an empty right part.\<close>

theorem my_qsort_sorts:
  assumes "n < length a"
  shows "my_qsort a n = Some (sort (take n a) @ drop n a)"
  using quicksort_spec [of 0 n a] sorted_seg_prefix [of a _ n] assms
  by (fastforce simp: my_qsort_def returns_iff)

theorem my_qsort_sorts_witness: "my_qsort [3, 1, 2, 9] 3 = Some [1, 2, 3, 9]"
  using my_qsort_sorts [of 3 "[3, 1, 2, 9]"] by simp

text \<open>The spare cell is needed. On a three-element array whose first element is the
  largest, and on an empty array, \<open>my_qsort\<close> accesses the array one past its end.\<close>

theorem my_qsort_overrun: "my_qsort [3, 1, 2] 3 = None \<and> my_qsort [] 0 = None"
proof
  show "my_qsort [] 0 = None" by (simp add: my_qsort_def quicksort.simps)
  show "my_qsort [3, 1, 2] 3 = None"
    by (simp add: my_qsort_def quicksort.simps part_loop.simps scan_down.simps scan_up.simps)
qed

text \<open>\<open>quicksort(a, n)\<close> of \<open>sort/quicksort.c\<close>, with any correct sorting routine in the
  place of the undefined \<open>insertionsort\<close>, sorts the first \<open>n\<close> elements; its unbounded scans
  never leave the segment, and it is correct for \<open>n = 0\<close> as well.\<close>

theorem dsa_quicksort_correct:
  assumes "array_sorter isort" "n \<le> length a"
  shows "dsa_quicksort isort a n = Some (sort (take n a) @ drop n a)"
  using dsa_qsort_spec [of isort 0 "int n - 1" a] sorted_seg_prefix [of a _ n] assms
  by (fastforce simp: dsa_quicksort_def returns_iff)

theorem dsa_quicksort_correct_witness:
  "dsa_quicksort insertion_sort [10, 5, 78, 111, 34] 5 = Some [5, 10, 34, 78, 111]"
  using dsa_quicksort_correct [OF dsa_ins.array_sorter_axioms, of 5 "[10, 5, 78, 111, 34]"] by simp

text \<open>\<open>insertion_sort\<close> and \<open>shellsort\<close> of \<open>data_structure_and_algorithm/sort\<close> sort the first
  \<open>n\<close> elements of the array and leave the others alone.\<close>

theorem dsa_simple_sorts_correct:
  assumes "n \<le> length a"
  shows "insertion_sort a n = Some (sort (take n a) @ drop n a) \<and>
         dsa_shellsort a n = Some (sort (take n a) @ drop n a)"
  using dsa_ins.srt_eq [OF assms] dsa_shell.srt_eq [OF assms] by simp

theorem dsa_simple_sorts_correct_witness:
  "insertion_sort [34, 8, 64, 51] 3 = Some [8, 34, 64, 51] \<and>
   dsa_shellsort [34, 8, 64, 51] 3 = Some [8, 34, 64, 51]"
  using dsa_simple_sorts_correct [of 3 "[34, 8, 64, 51]"] by simp

end
