(* ===== verification/Avl_Tree.thy ===== *)
theory Avl_Tree
  imports Prelude
begin

text \<open>
  The AVL tree of \<open>src/data_structure_and_algorithm/avl/avltree.c\<close>. A pointer to a node is the
  tree below it and \<open>NULL\<close> is the empty tree; the code never shares nodes, so that updating a
  node in place is building it anew. Following a null pointer is \<^const>\<open>None\<close>. The argument \<open>ok\<close> of
  \<open>insert_node\<close> says whether \<open>malloc\<close> succeeds. The traversals return the numbers they print.
\<close>

section \<open>The code\<close>

datatype avltree = NULL | Node (left: avltree) (element: int) (hgt: int) (right: avltree)

fun height :: "avltree \<Rightarrow> int" where
  "height NULL = 0"
| "height (Node l e h r) = h"

fun preorder_avltree :: "avltree \<Rightarrow> int list" where
  "preorder_avltree NULL = []"
| "preorder_avltree (Node l e h r) = e # preorder_avltree l @ preorder_avltree r"

fun inorder_avltree :: "avltree \<Rightarrow> int list" where
  "inorder_avltree NULL = []"
| "inorder_avltree (Node l e h r) = inorder_avltree l @ e # inorder_avltree r"

fun postorder_avltree :: "avltree \<Rightarrow> int list" where
  "postorder_avltree NULL = []"
| "postorder_avltree (Node l e h r) = postorder_avltree l @ postorder_avltree r @ [e]"

fun findmin :: "avltree \<Rightarrow> avltree" where
  "findmin NULL = NULL"
| "findmin (Node l e h r) = (if l = NULL then Node l e h r else findmin l)"

fun findmax :: "avltree \<Rightarrow> avltree" where
  "findmax NULL = NULL"
| "findmax (Node l e h r) = (if r \<noteq> NULL then findmax r else Node l e h r)"

definition mk :: "avltree \<Rightarrow> int \<Rightarrow> avltree \<Rightarrow> avltree" where
  "mk l e r = Node l e (max (height l) (height r) + 1) r"

fun left_left_rotate :: "avltree \<Rightarrow> avltree option" where
  "left_left_rotate (Node (Node a x h1 b) y h2 c) = Some (mk a x (mk b y c))"
| "left_left_rotate _ = None"

fun right_right_rotate :: "avltree \<Rightarrow> avltree option" where
  "right_right_rotate (Node a x h2 (Node b y h1 c)) = Some (mk (mk a x b) y c)"
| "right_right_rotate _ = None"

fun left_right_rotate :: "avltree \<Rightarrow> avltree option" where
  "left_right_rotate (Node l e h r) = do { l \<leftarrow> right_right_rotate l; left_left_rotate (Node l e h r) }"
| "left_right_rotate NULL = None"

fun right_left_rotate :: "avltree \<Rightarrow> avltree option" where
  "right_left_rotate (Node l e h r) = do { r \<leftarrow> left_left_rotate r; right_right_rotate (Node l e h r) }"
| "right_left_rotate NULL = None"

text \<open>\<open>t->height = max(height(t->left), height(t->right)) + 1\<close>\<close>

fun set_height :: "avltree \<Rightarrow> avltree option" where
  "set_height (Node l e h r) = Some (mk l e r)"
| "set_height NULL = None"

text \<open>The element of a node that is read through a pointer.\<close>

fun elem :: "avltree \<Rightarrow> int option" where
  "elem (Node l e h r) = Some e"
| "elem NULL = None"

text \<open>The rebalancing after an insertion on the left or on the right.\<close>

fun insert_fix_left :: "avltree \<Rightarrow> int \<Rightarrow> avltree option" where
  "insert_fix_left (Node l e h r) x =
     (if height l - height r = 2 then do {
        y \<leftarrow> elem l;
        if x < y then left_left_rotate (Node l e h r) else left_right_rotate (Node l e h r)
      } else Some (Node l e h r))"
| "insert_fix_left NULL x = None"

fun insert_fix_right :: "avltree \<Rightarrow> int \<Rightarrow> avltree option" where
  "insert_fix_right (Node l e h r) x =
     (if height r - height l = 2 then do {
        y \<leftarrow> elem r;
        if x > y then right_right_rotate (Node l e h r) else right_left_rotate (Node l e h r)
      } else Some (Node l e h r))"
| "insert_fix_right NULL x = None"

fun insert_node :: "bool \<Rightarrow> avltree \<Rightarrow> int \<Rightarrow> avltree option" where
  "insert_node ok NULL x = (if ok then set_height (Node NULL x 0 NULL) else set_height NULL)"
| "insert_node ok (Node l e h r) x =
     (if x < e then do {
        l \<leftarrow> insert_node ok l x;
        t \<leftarrow> insert_fix_left (Node l e h r) x;
        set_height t
      } else if x > e then do {
        r \<leftarrow> insert_node ok r x;
        t \<leftarrow> insert_fix_right (Node l e h r) x;
        set_height t
      } else set_height (Node l e h r))"

fun find_node :: "avltree \<Rightarrow> int \<Rightarrow> avltree" where
  "find_node NULL x = NULL"
| "find_node (Node l e h r) x =
     (if x < e then find_node l x else if x > e then find_node r x else Node l e h r)"

text \<open>The rebalancing after a deletion on the left or on the right.\<close>

fun delete_fix_left :: "avltree \<Rightarrow> int \<Rightarrow> avltree option" where
  "delete_fix_left (Node l e h r) x =
     (if height r - height l = 2 then do {
        y \<leftarrow> elem r;
        if x < y then right_left_rotate (Node l e h r) else right_right_rotate (Node l e h r)
      } else Some (Node l e h r))"
| "delete_fix_left NULL x = None"

fun delete_fix_right :: "avltree \<Rightarrow> int \<Rightarrow> avltree option" where
  "delete_fix_right (Node l e h r) x =
     (if height l - height r = 2 then do {
        y \<leftarrow> elem l;
        if x < y then left_left_rotate (Node l e h r) else left_right_rotate (Node l e h r)
      } else Some (Node l e h r))"
| "delete_fix_right NULL x = None"

fun delete_node :: "avltree \<Rightarrow> int \<Rightarrow> avltree option" where
  "delete_node NULL x = Some NULL"
| "delete_node (Node l e h r) x =
     (if find_node (Node l e h r) x = NULL then Some (Node l e h r)
      else do {
        t \<leftarrow> (if x < e then do { l \<leftarrow> delete_node l x; delete_fix_left (Node l e h r) x }
             else if x > e then do { r \<leftarrow> delete_node r x; delete_fix_right (Node l e h r) x }
             else if l \<noteq> NULL \<and> r \<noteq> NULL then do {
               m \<leftarrow> elem (findmin r);
               r \<leftarrow> delete_node r m;
               Some (Node l m h r)
             } else Some (if l \<noteq> NULL then l else r));
        if t \<noteq> NULL then set_height t else Some t
      })"

text \<open>\<open>destroy_avltree\<close> frees the nodes, children first; the result is the elements of the nodes
  in the order in which they are freed.\<close>

fun destroy_avltree :: "avltree \<Rightarrow> int list" where
  "destroy_avltree NULL = []"
| "destroy_avltree (Node l e h r) =
     (if l \<noteq> NULL then destroy_avltree l else []) @ (if r \<noteq> NULL then destroy_avltree r else []) @ [e]"

text \<open>The test program \<open>avltree_test.c\<close>: it inserts the numbers of \<open>arr\<close>, prints the traversals and the
  height, deletes 8 and prints the height and the elements again.\<close>

definition arr :: "int list" where
  "arr = [3, 2, 1, 4, 5, 6, 7, 16, 15, 14, 13, 12, 11, 10, 8, 9]"

definition avltree_test :: "(int list \<times> int list \<times> int list \<times> int \<times> int \<times> int list) option" where
  "avltree_test = do {
     root \<leftarrow> insert_all (insert_node True) NULL arr;
     root' \<leftarrow> delete_node root 8;
     Some (preorder_avltree root, inorder_avltree root, postorder_avltree root, height root,
           height root', inorder_avltree root')
   }"

section \<open>Invariants\<close>

fun bst :: "avltree \<Rightarrow> bool" where
  "bst NULL = True"
| "bst (Node l e h r) \<longleftrightarrow> bst l \<and> bst r \<and> (\<forall>x \<in> set (inorder_avltree l). x < e) \<and> (\<forall>x \<in> set (inorder_avltree r). e < x)"

text \<open>The height fields are right.\<close>

fun heights_ok :: "avltree \<Rightarrow> bool" where
  "heights_ok NULL = True"
| "heights_ok (Node l e h r) \<longleftrightarrow> heights_ok l \<and> heights_ok r \<and> h = max (height l) (height r) + 1"

fun balanced :: "avltree \<Rightarrow> bool" where
  "balanced NULL = True"
| "balanced (Node l e h r) \<longleftrightarrow> balanced l \<and> balanced r \<and> \<bar>height l - height r\<bar> \<le> 1"

abbreviation avl :: "avltree \<Rightarrow> bool" where
  "avl t \<equiv> heights_ok t \<and> balanced t"

lemma bst_sorted: "bst t \<longleftrightarrow> sorted_wrt (<) (inorder_avltree t)"
proof (induction t)
  case (Node l e h r)
  then show ?case by (auto simp: sorted_wrt_append) (metis order.strict_trans)
qed simp

lemma height_nonneg: "heights_ok t \<Longrightarrow> 0 \<le> height t"
  by (induction t) auto

lemma height_0: "heights_ok t \<Longrightarrow> height t = 0 \<longleftrightarrow> t = NULL"
  using height_nonneg by (cases t) fastforce+

lemma height_mk [simp]: "height (mk l e r) = max (height l) (height r) + 1"
  by (simp add: mk_def)

lemma inorder_mk [simp]: "inorder_avltree (mk l e r) = inorder_avltree l @ e # inorder_avltree r"
  by (simp add: mk_def)

lemma heights_mk [simp]: "heights_ok (mk l e r) \<longleftrightarrow> heights_ok l \<and> heights_ok r"
  by (simp add: mk_def)

lemma balanced_mk [simp]: "balanced (mk l e r) \<longleftrightarrow> balanced l \<and> balanced r \<and> \<bar>height l - height r\<bar> \<le> 1"
  by (simp add: mk_def)

lemma mk_not_NULL [simp]: "mk l e r \<noteq> NULL"
  by (simp add: mk_def)

lemma set_height_mk [simp]: "set_height (mk l e r) = Some (mk l e r)"
  by (simp add: mk_def)

lemma mk_sel [simp]: "left (mk l e r) = l" "element (mk l e r) = e" "right (mk l e r) = r"
  by (simp_all add: mk_def)

lemma rotate_mk [simp]:
  "left_left_rotate (Node (mk a x b) y h c) = Some (mk a x (mk b y c))"
  "right_right_rotate (Node a x h (mk b y c)) = Some (mk (mk a x b) y c)"
  by (simp_all add: mk_def)

section \<open>Rotations\<close>

text \<open>A rotation keeps the elements in order and makes the height fields right.\<close>

definition keeps_tree :: "avltree \<Rightarrow> avltree \<Rightarrow> bool" where
  "keeps_tree t t' \<longleftrightarrow> inorder_avltree t' = inorder_avltree t \<and> t' \<noteq> NULL \<and>
     (t \<noteq> NULL \<longrightarrow> heights_ok (left t) \<longrightarrow> heights_ok (right t) \<longrightarrow> heights_ok t')"

lemma keeps_LL: "left_left_rotate t = Some t' \<Longrightarrow> keeps_tree t t'"
  by (cases t rule: left_left_rotate.cases) (auto simp: keeps_tree_def)

lemma keeps_RR: "right_right_rotate t = Some t' \<Longrightarrow> keeps_tree t t'"
  by (cases t rule: right_right_rotate.cases) (auto simp: keeps_tree_def)

lemma keeps_LR:
  assumes "left_right_rotate t = Some t'"
  shows "keeps_tree t t'"
proof -
  obtain l e h r l' where t: "t = Node l e h r" "right_right_rotate l = Some l'" "left_left_rotate (Node l' e h r) = Some t'"
    using assms by (cases t) (auto simp: Option.bind_eq_Some_conv)
  from keeps_RR [OF t(2)] keeps_LL [OF t(3)] t(1,2) show ?thesis
    by (cases l) (auto simp: keeps_tree_def)
qed

lemma keeps_RL:
  assumes "right_left_rotate t = Some t'"
  shows "keeps_tree t t'"
proof -
  obtain l e h r r' where t: "t = Node l e h r" "left_left_rotate r = Some r'" "right_right_rotate (Node l e h r') = Some t'"
    using assms by (cases t) (auto simp: Option.bind_eq_Some_conv)
  from keeps_LL [OF t(2)] keeps_RR [OF t(3)] t(1,2) show ?thesis
    by (cases r) (auto simp: keeps_tree_def)
qed

lemma set_height_keeps: "set_height t = Some t' \<Longrightarrow> keeps_tree t t'"
  by (cases t) (auto simp: keeps_tree_def)

lemma fix_keeps:
  "insert_fix_left t x = Some t' \<Longrightarrow> inorder_avltree t' = inorder_avltree t \<and> t' \<noteq> NULL \<and>
     (heights_ok (left t) \<longrightarrow> heights_ok (right t) \<longrightarrow> heights_ok (left t') \<and> heights_ok (right t'))"
  "insert_fix_right t x = Some t' \<Longrightarrow> inorder_avltree t' = inorder_avltree t \<and> t' \<noteq> NULL \<and>
     (heights_ok (left t) \<longrightarrow> heights_ok (right t) \<longrightarrow> heights_ok (left t') \<and> heights_ok (right t'))"
  "delete_fix_left t x = Some t' \<Longrightarrow> inorder_avltree t' = inorder_avltree t \<and> t' \<noteq> NULL \<and>
     (heights_ok (left t) \<longrightarrow> heights_ok (right t) \<longrightarrow> heights_ok (left t') \<and> heights_ok (right t'))"
  "delete_fix_right t x = Some t' \<Longrightarrow> inorder_avltree t' = inorder_avltree t \<and> t' \<noteq> NULL \<and>
     (heights_ok (left t) \<longrightarrow> heights_ok (right t) \<longrightarrow> heights_ok (left t') \<and> heights_ok (right t'))"
proof -
  have sub: "heights_ok u \<Longrightarrow> u \<noteq> NULL \<Longrightarrow> heights_ok (left u) \<and> heights_ok (right u)" for u by (cases u) auto
  have *: "inorder_avltree t' = inorder_avltree t \<and> t' \<noteq> NULL \<and>
      (heights_ok (left t) \<longrightarrow> heights_ok (right t) \<longrightarrow> heights_ok (left t') \<and> heights_ok (right t'))"
    if "t \<noteq> NULL" "t' = t \<or> left_left_rotate t = Some t' \<or> right_right_rotate t = Some t' \<or> left_right_rotate t = Some t' \<or> right_left_rotate t = Some t'"
    using that keeps_LL [of t t'] keeps_RR [of t t'] keeps_LR [of t t'] keeps_RL [of t t'] sub [of t']
    by (auto simp: keeps_tree_def)
  note [simp del] = left_left_rotate.simps right_right_rotate.simps left_right_rotate.simps right_left_rotate.simps
  show "insert_fix_left t x = Some t' \<Longrightarrow> inorder_avltree t' = inorder_avltree t \<and> t' \<noteq> NULL \<and>
     (heights_ok (left t) \<longrightarrow> heights_ok (right t) \<longrightarrow> heights_ok (left t') \<and> heights_ok (right t'))"
    by (rule *; cases t) (auto simp: Option.bind_eq_Some_conv split: if_splits)
  show "insert_fix_right t x = Some t' \<Longrightarrow> inorder_avltree t' = inorder_avltree t \<and> t' \<noteq> NULL \<and>
     (heights_ok (left t) \<longrightarrow> heights_ok (right t) \<longrightarrow> heights_ok (left t') \<and> heights_ok (right t'))"
    by (rule *; cases t) (auto simp: Option.bind_eq_Some_conv split: if_splits)
  show "delete_fix_left t x = Some t' \<Longrightarrow> inorder_avltree t' = inorder_avltree t \<and> t' \<noteq> NULL \<and>
     (heights_ok (left t) \<longrightarrow> heights_ok (right t) \<longrightarrow> heights_ok (left t') \<and> heights_ok (right t'))"
    by (rule *; cases t) (auto simp: Option.bind_eq_Some_conv split: if_splits)
  show "delete_fix_right t x = Some t' \<Longrightarrow> inorder_avltree t' = inorder_avltree t \<and> t' \<noteq> NULL \<and>
     (heights_ok (left t) \<longrightarrow> heights_ok (right t) \<longrightarrow> heights_ok (left t') \<and> heights_ok (right t'))"
    by (rule *; cases t) (auto simp: Option.bind_eq_Some_conv split: if_splits)
qed

section \<open>Insertion\<close>

lemma insert_node_order:
  assumes "insert_node ok t x = Some t'" "bst t" "heights_ok t"
  shows "bst t' \<and> set (inorder_avltree t') = insert x (set (inorder_avltree t)) \<and> heights_ok t'"
  using assms
proof (induction t arbitrary: t')
  case NULL
  then show ?case by (cases ok) (auto simp: mk_def)
next
  case (Node l e h r)
  note [simp del] = insert_fix_left.simps insert_fix_right.simps
  consider "x < e" | "x > e" | "x = e" by linarith
  then show ?case
  proof cases
    case 1
    obtain l' u where l': "insert_node ok l x = Some l'" and u: "insert_fix_left (Node l' e h r) x = Some u" "set_height u = Some t'"
      using Node.prems(1) 1 by (auto simp: Option.bind_eq_Some_conv)
    have ih: "bst l'" "set (inorder_avltree l') = insert x (set (inorder_avltree l))" "heights_ok l'"
      using Node.IH(1) [OF l'] Node.prems(2,3) by auto
    have "inorder_avltree t' = inorder_avltree (Node l' e h r)" "heights_ok t'"
      using fix_keeps(1) [OF u(1)] set_height_keeps [OF u(2)] ih(3) Node.prems(3) by (auto simp: keeps_tree_def)
    then show ?thesis using ih 1 Node.prems(2) by (auto simp: bst_sorted sorted_wrt_append)
  next
    case 2
    obtain r' u where r': "insert_node ok r x = Some r'" and u: "insert_fix_right (Node l e h r') x = Some u" "set_height u = Some t'"
      using Node.prems(1) 2 by (auto simp: Option.bind_eq_Some_conv)
    have ih: "bst r'" "set (inorder_avltree r') = insert x (set (inorder_avltree r))" "heights_ok r'"
      using Node.IH(2) [OF r'] Node.prems(2,3) by auto
    have "inorder_avltree t' = inorder_avltree (Node l e h r')" "heights_ok t'"
      using fix_keeps(2) [OF u(1)] set_height_keeps [OF u(2)] ih(3) Node.prems(3) by (auto simp: keeps_tree_def)
    then show ?thesis using ih 2 Node.prems(2) by (auto simp: bst_sorted sorted_wrt_append)
  next
    case 3
    then show ?thesis using Node.prems by (auto simp: mk_def)
  qed
qed

text \<open>The balance: the height grows by at most one, and when the height of a nonempty tree grows,
  then on the side of the new element.\<close>

definition grown :: "avltree \<Rightarrow> int \<Rightarrow> avltree \<Rightarrow> bool" where
  "grown t x t' \<longleftrightarrow> heights_ok t' \<and> balanced t' \<and> t' \<noteq> NULL \<and> (height t' = height t \<or> height t' = height t + 1 \<and>
     (t = NULL \<or> (if x < element t' then height (left t') = height (right t') + 1
                  else x > element t' \<and> height (right t') = height (left t') + 1)))"

lemma fix_left_grown:
  assumes l: "grown l x l'" and t: "heights_ok (Node l e h r)" "balanced (Node l e h r)" and x: "x < e"
  shows "\<exists>u t'. insert_fix_left (Node l' e h r) x = Some u \<and> set_height u = Some t' \<and> grown (Node l e h r) x t'"
proof (cases "height l' - height r = 2")
  case False
  then show ?thesis using assms by (auto simp: grown_def mk_def)
next
  case True
  then have h: "height l' = height l + 1" "height l = height r + 1" using l t(2) by (auto simp: grown_def)
  have "l \<noteq> NULL" using h(2) height_nonneg [of r] t(1) by auto
  then have side: "if x < element l' then height (left l') = height (right l') + 1
      else x > element l' \<and> height (right l') = height (left l') + 1" using l h by (auto simp: grown_def)
  obtain a y hl b where l': "l' = Node a y hl b" using l by (cases l') (auto simp: grown_def)
  show ?thesis
  proof (cases "x < y")
    case True
    then show ?thesis using \<open>height l' - height r = 2\<close> l t h side l' by (auto simp: grown_def)
  next
    case False
    then obtain c z hb d where b: "b = Node c z hb d"
      using side l' l height_nonneg [of a] by (cases b) (auto simp: grown_def)
    have "grown (Node l e h r) x (mk (mk a y c) z (mk d e r))" using False l t h side l' b by (auto simp: grown_def)
    then show ?thesis using False \<open>height l' - height r = 2\<close> l' b by simp
  qed
qed

lemma fix_right_grown:
  assumes r: "grown r x r'" and t: "heights_ok (Node l e h r)" "balanced (Node l e h r)" and x: "x > e"
  shows "\<exists>u t'. insert_fix_right (Node l e h r') x = Some u \<and> set_height u = Some t' \<and> grown (Node l e h r) x t'"
proof (cases "height r' - height l = 2")
  case False
  then show ?thesis using assms by (auto simp: grown_def mk_def)
next
  case True
  then have h: "height r' = height r + 1" "height r = height l + 1" using r t(2) by (auto simp: grown_def)
  have "r \<noteq> NULL" using h(2) height_nonneg [of l] t(1) by auto
  then have side: "if x < element r' then height (left r') = height (right r') + 1
      else x > element r' \<and> height (right r') = height (left r') + 1" using r h by (auto simp: grown_def)
  obtain a y hr b where r': "r' = Node a y hr b" using r by (cases r') (auto simp: grown_def)
  show ?thesis
  proof (cases "x > y")
    case True
    then show ?thesis using \<open>height r' - height l = 2\<close> r t h side r' by (auto simp: grown_def)
  next
    case False
    then obtain c z ha d where a: "a = Node c z ha d"
      using side r' r height_nonneg [of b] by (cases a) (auto simp: grown_def split: if_splits)
    have "grown (Node l e h r) x (mk (mk l e c) z (mk d y b))" using False r t h side r' a
      by (auto simp: grown_def split: if_splits)
    then show ?thesis using False \<open>height r' - height l = 2\<close> r' a by simp
  qed
qed

lemma insert_node_total:
  "heights_ok t \<Longrightarrow> balanced t \<Longrightarrow> \<exists>t'. insert_node True t x = Some t' \<and> grown t x t'"
proof (induction t)
  case NULL
  then show ?case by (auto simp: grown_def mk_def)
next
  case (Node l e h r)
  consider "x < e" | "x > e" | "x = e" by linarith
  then show ?case
  proof cases
    case 1
    then show ?thesis using Node fix_left_grown [of l x _ e h r] by fastforce
  next
    case 2
    then show ?thesis using Node fix_right_grown [of r x _ l e h] by fastforce
  next
    case 3
    then show ?thesis using Node.prems by (auto simp: grown_def mk_def)
  qed
qed

section \<open>Searching\<close>

lemma find_node_spec:
  "bst t \<Longrightarrow> (find_node t x \<noteq> NULL \<longleftrightarrow> x \<in> set (inorder_avltree t)) \<and> (find_node t x \<noteq> NULL \<longrightarrow> element (find_node t x) = x)"
  by (induction t) (auto dest: order.strict_trans)

lemma findmin_spec:
  "bst t \<Longrightarrow> t \<noteq> NULL \<Longrightarrow> findmin t \<noteq> NULL \<and> element (findmin t) \<in> set (inorder_avltree t) \<and>
     (\<forall>y \<in> set (inorder_avltree t). element (findmin t) \<le> y)"
proof (induction t)
  case (Node l e h r)
  then show ?case by (cases "l = NULL") (auto simp: less_imp_le, force)
qed simp

lemma findmax_spec:
  "bst t \<Longrightarrow> t \<noteq> NULL \<Longrightarrow> findmax t \<noteq> NULL \<and> element (findmax t) \<in> set (inorder_avltree t) \<and>
     (\<forall>y \<in> set (inorder_avltree t). y \<le> element (findmax t))"
proof (induction t)
  case (Node l e h r)
  then show ?case by (cases "r = NULL") (auto simp: less_imp_le, force)
qed simp

interpretation avl_set: search_set "\<lambda>t. bst t \<and> avl t" "\<lambda>t. set (inorder_avltree t)" "insert_node True" "\<lambda>t x. find_node t x \<noteq> NULL"
proof
  fix t x assume inv: "bst t \<and> avl t"
  show "returns (insert_node True t x) (\<lambda>t'. (bst t' \<and> avl t') \<and> set (inorder_avltree t') = insert x (set (inorder_avltree t)))"
    using insert_node_total [of t x] insert_node_order [of True t x] inv by (auto simp: returns_iff grown_def)
  show "find_node t x \<noteq> NULL \<longleftrightarrow> x \<in> set (inorder_avltree t)" using find_node_spec inv by blast
qed

section \<open>Deletion\<close>

lemma elem_findmin: "t \<noteq> NULL \<Longrightarrow> elem (findmin t) = Some (element (findmin t))"
  by (induction t) auto

lemma delete_node_order:
  assumes "delete_node t x = Some t'" "bst t" "heights_ok t"
  shows "bst t' \<and> set (inorder_avltree t') = set (inorder_avltree t) - {x} \<and> heights_ok t'"
  using assms
proof (induction t x arbitrary: t' rule: delete_node.induct)
  case (2 l e h r x)
  note [simp del] = delete_fix_left.simps delete_fix_right.simps
  have fin: "inorder_avltree t' = inorder_avltree u \<and> heights_ok t'"
    if "(if u \<noteq> NULL then set_height u else Some u) = Some t'" "u \<noteq> NULL \<longrightarrow> heights_ok (left u) \<and> heights_ok (right u)" for u
    using that set_height_keeps [of u t'] by (auto simp: keeps_tree_def split: if_splits)
  show ?case
  proof (cases "find_node (Node l e h r) x = NULL")
    case True
    then show ?thesis using "2.prems" find_node_spec [of "Node l e h r" x] by auto
  next
    case False
    consider "x < e" | "x > e" | (two) "x = e" "l \<noteq> NULL" "r \<noteq> NULL" | (one) "x = e" "l = NULL \<or> r = NULL" by fastforce
    then show ?thesis
    proof cases
      case 1
      obtain l' u where l': "delete_node l x = Some l'" and u: "delete_fix_left (Node l' e h r) x = Some u"
          "(if u \<noteq> NULL then set_height u else Some u) = Some t'"
        using "2.prems"(1) False 1 by (auto simp: Option.bind_eq_Some_conv simp del: find_node.simps)
      have ih: "bst l'" "set (inorder_avltree l') = set (inorder_avltree l) - {x}" "heights_ok l'"
        using "2.IH"(1) [OF False 1 l'] "2.prems"(2,3) by auto
      have "inorder_avltree t' = inorder_avltree (Node l' e h r)" "heights_ok t'"
        using fin [OF u(2)] fix_keeps(3) [OF u(1)] ih(3) "2.prems"(3) by auto
      then show ?thesis using ih 1 "2.prems"(2) by (auto simp: bst_sorted sorted_wrt_append)
    next
      case gt: 2
      obtain r' u where r': "delete_node r x = Some r'" and u: "delete_fix_right (Node l e h r') x = Some u"
          "(if u \<noteq> NULL then set_height u else Some u) = Some t'"
        using "2.prems"(1) False gt by (auto simp: Option.bind_eq_Some_conv simp del: find_node.simps)
      have ih: "bst r'" "set (inorder_avltree r') = set (inorder_avltree r) - {x}" "heights_ok r'"
        using "2.IH"(2) [OF False _ gt r'] "2.prems"(2,3) gt by auto
      have "inorder_avltree t' = inorder_avltree (Node l e h r')" "heights_ok t'"
        using fin [OF u(2)] fix_keeps(4) [OF u(1)] ih(3) "2.prems"(3) by auto
      then show ?thesis using ih gt "2.prems"(2) by (auto simp: bst_sorted sorted_wrt_append)
    next
      case two
      define m where "m = element (findmin r)"
      have em: "elem (findmin r) = Some m" using elem_findmin [OF two(3)] by (simp add: m_def)
      have mm: "m \<in> set (inorder_avltree r)" "\<And>y. y \<in> set (inorder_avltree r) \<Longrightarrow> m \<le> y"
        using findmin_spec [OF _ two(3)] "2.prems"(2) by (auto simp: m_def)
      obtain r' where r': "delete_node r m = Some r'" and u: "set_height (Node l m h r') = Some t'"
        using "2.prems"(1) False two em by (auto simp: Option.bind_eq_Some_conv simp del: find_node.simps)
      have ih: "bst r'" "set (inorder_avltree r') = set (inorder_avltree r) - {m}" "heights_ok r'"
        using "2.IH"(3) [OF False _ _ _ em r'] "2.prems"(2,3) two by auto
      have "inorder_avltree t' = inorder_avltree (Node l m h r')" "heights_ok t'"
        using set_height_keeps [OF u] ih(3) "2.prems"(3) by (auto simp: keeps_tree_def)
      then show ?thesis using ih two mm "2.prems"(2)
        by (auto simp: bst_sorted sorted_wrt_append) (metis Diff_iff insertE order.strict_trans order.not_eq_order_implies_strict singletonI)+
    next
      case one
      define u where "u = (if l \<noteq> NULL then l else r)"
      have "(if u \<noteq> NULL then set_height u else Some u) = Some t'"
        using "2.prems"(1) False one by (auto simp: u_def simp del: find_node.simps split: if_splits)
      moreover have "heights_ok u" "bst u" "set (inorder_avltree u) = set (inorder_avltree (Node l e h r)) - {e}"
        using "2.prems"(2,3) one by (auto simp: u_def)
      ultimately show ?thesis using fin [of u] one by (cases u) (auto simp: bst_sorted)
    qed
  qed
qed simp

section \<open>Properties\<close>

text \<open>C37: insertion into an AVL tree succeeds when \<open>malloc\<close> does: the result is again a binary search
  tree with correct height fields whose subtrees differ in height by at most one, it holds
  the old elements and the new one, and its height has grown by at most one. When \<open>malloc\<close>
  fails the code follows a null pointer.\<close>

theorem avl_insert_correct:
  assumes "bst t" "heights_ok t" "balanced t"
  shows "(\<exists>t'. insert_node True t x = Some t' \<and> bst t' \<and> heights_ok t' \<and> balanced t' \<and>
      set (inorder_avltree t') = insert x (set (inorder_avltree t)) \<and> height t \<le> height t' \<and> height t' \<le> height t + 1) \<and>
    insert_node False NULL x = None"
  using insert_node_total [OF assms(2,3), of x] insert_node_order [of True t x] assms by (auto simp: grown_def)

theorem avl_insert_correct_witness:
  "\<exists>t'. insert_node True (Node (Node NULL 1 1 NULL) 2 2 NULL) 0 = Some t' \<and> balanced t' \<and> set (inorder_avltree t') = {0, 1, 2}"
  using avl_insert_correct [of "Node (Node NULL 1 1 NULL) 2 2 NULL" 0] by auto

text \<open>After any sequence of insertions into the empty tree, \<open>find\<close> finds exactly the inserted
  numbers, and the traversal in order prints them in ascending order without repetitions.\<close>

theorem avl_insert_all_find:
  "\<exists>t. insert_all (insert_node True) NULL xs = Some t \<and> (\<forall>y. find_node t y \<noteq> NULL \<longleftrightarrow> y \<in> set xs) \<and>
     inorder_avltree t = sorted_list_of_set (set xs) \<and> heights_ok t \<and> balanced t"
proof -
  obtain t where t: "insert_all (insert_node True) NULL xs = Some t" "bst t" "avl t" "set (inorder_avltree t) = set xs"
    using avl_set.insert_all_spec [of NULL xs] by (auto simp: returns_iff)
  have "sorted (inorder_avltree t)" "distinct (inorder_avltree t)"
    using t(2) by (auto simp: bst_sorted strict_sorted_iff)
  then have "inorder_avltree t = sorted_list_of_set (set xs)"
    using t(4) by (metis sorted_list_of_set.idem_if_sorted_distinct)
  then show ?thesis using t find_node_spec by blast
qed

text \<open>In a nonempty search tree \<open>findmin\<close> and \<open>findmax\<close> return the nodes with the least and the
  greatest element.\<close>

theorem avl_min_max:
  assumes "bst t" "t \<noteq> NULL"
  shows "findmin t \<noteq> NULL \<and> findmax t \<noteq> NULL \<and> element (findmin t) = Min (set (inorder_avltree t)) \<and>
    element (findmax t) = Max (set (inorder_avltree t))"
  using findmin_spec [OF assms] findmax_spec [OF assms] by (auto intro!: Min_eqI [symmetric] Max_eqI [symmetric])

theorem avl_min_max_witness:
  "element (findmin (Node (Node NULL 1 1 NULL) 2 2 NULL)) = 1 \<and> element (findmax (Node (Node NULL 1 1 NULL) 2 2 NULL)) = 2"
  using avl_min_max [of "Node (Node NULL 1 1 NULL) 2 2 NULL"] by auto

text \<open>Fewer than two levels per doubling of the number of nodes.\<close>

lemma balanced_size:
  "heights_ok t \<Longrightarrow> balanced t \<Longrightarrow> 2 ^ (nat (height t) div 2) \<le> length (inorder_avltree t) + 1"
proof (induction t)
  case (Node l e h r)
  let ?k = "(nat h - 2) div 2"
  have hl: "0 \<le> height l" "0 \<le> height r" and h: "h = max (height l) (height r) + 1" "\<bar>height l - height r\<bar> \<le> 1"
    using height_nonneg Node.prems by auto
  have "nat h - 2 \<le> nat (height l)" "nat h - 2 \<le> nat (height r)" using h hl by auto
  then have "?k \<le> nat (height l) div 2" "?k \<le> nat (height r) div 2" by (auto intro: div_le_mono)
  then have "(2::nat) ^ ?k \<le> 2 ^ (nat (height l) div 2)" "(2::nat) ^ ?k \<le> 2 ^ (nat (height r) div 2)"
    by (auto intro: power_increasing)
  moreover have "2 ^ (nat (height l) div 2) \<le> length (inorder_avltree l) + 1" "2 ^ (nat (height r) div 2) \<le> length (inorder_avltree r) + 1"
    using Node by auto
  ultimately have "2 ^ ?k \<le> length (inorder_avltree l) + 1" "2 ^ ?k \<le> length (inorder_avltree r) + 1" by (meson order.trans)+
  then have two: "2 * 2 ^ ?k \<le> length (inorder_avltree (Node l e h r)) + 1" by simp
  show ?case
  proof (cases "nat h < 2")
    case False
    then have "nat h div 2 = Suc ?k" by (simp add: div_if)
    then show ?thesis using two by simp
  qed (auto simp: div_if)
qed simp

text \<open>The height of an AVL tree is at most twice the binary logarithm of its number of nodes.\<close>

theorem avl_height_bound:
  assumes "heights_ok t" "balanced t"
  shows "2 ^ (nat (height t) div 2) \<le> length (inorder_avltree t) + 1"
  using balanced_size [OF assms] .

theorem avl_height_bound_witness: "(2::nat) ^ (nat (height (Node NULL 1 1 NULL)) div 2) \<le> length (inorder_avltree (Node NULL 1 1 NULL)) + 1"
  using avl_height_bound [of "Node NULL 1 1 NULL"] by simp

text \<open>C38: whenever \<open>delete_node\<close> returns, the result is a binary search tree with correct height
  fields and without the deleted element. But it does not always return, and need not keep
  the balance: both rotations after a deletion are chosen by a comparison whose outcome
  is always the same, so that deleting 1 from the AVL tree of 2, 1, 3, 4 follows a null
  pointer; and no rebalancing follows the deletion of a node with two children, so that
  deleting 2 from the AVL tree of 2, 1, 3, 0 leaves an unbalanced tree.\<close>

theorem avl_delete:
  "(\<forall>t x t'. bst t \<longrightarrow> heights_ok t \<longrightarrow> delete_node t x = Some t' \<longrightarrow>
      bst t' \<and> heights_ok t' \<and> set (inorder_avltree t') = set (inorder_avltree t) - {x}) \<and>
   (\<exists>t. insert_all (insert_node True) NULL [2, 1, 3, 4] = Some t \<and> delete_node t 1 = None) \<and>
   (\<exists>t t'. insert_all (insert_node True) NULL [2, 1, 3, 0] = Some t \<and> delete_node t 2 = Some t' \<and> \<not> balanced t')"
proof (intro conjI)
  show "\<forall>t x t'. bst t \<longrightarrow> heights_ok t \<longrightarrow> delete_node t x = Some t' \<longrightarrow>
      bst t' \<and> heights_ok t' \<and> set (inorder_avltree t') = set (inorder_avltree t) - {x}"
    using delete_node_order by blast
  show "\<exists>t. insert_all (insert_node True) NULL [2, 1, 3, 4] = Some t \<and> delete_node t 1 = None"
    by (rule exI [of _ "Node (Node NULL 1 1 NULL) 2 3 (Node NULL 3 2 (Node NULL 4 1 NULL))"]) code_simp
  show "\<exists>t t'. insert_all (insert_node True) NULL [2, 1, 3, 0] = Some t \<and> delete_node t 2 = Some t' \<and> \<not> balanced t'"
    by (rule exI [of _ "Node (Node (Node NULL 0 1 NULL) 1 2 NULL) 2 3 (Node NULL 3 1 NULL)"],
        rule exI [of _ "Node (Node (Node NULL 0 1 NULL) 1 2 NULL) 3 3 NULL"]) code_simp
qed

theorem avl_delete_witness:
  "bst (Node (Node NULL 1 1 NULL) 2 2 NULL) \<and> (\<exists>t'. delete_node (Node (Node NULL 1 1 NULL) 2 2 NULL) 2 = Some t' \<and> bst t' \<and>
     set (inorder_avltree t') = {1})"
proof -
  have gen: "\<And>t x t'. bst t \<Longrightarrow> heights_ok t \<Longrightarrow> delete_node t x = Some t' \<Longrightarrow>
      bst t' \<and> heights_ok t' \<and> set (inorder_avltree t') = set (inorder_avltree t) - {x}"
    by (rule avl_delete [THEN conjunct1, THEN spec, THEN spec, THEN spec, THEN mp, THEN mp, THEN mp])
  have d: "delete_node (Node (Node NULL 1 1 NULL) 2 2 NULL) 2 = Some (Node NULL 1 1 NULL)" by code_simp
  have b: "bst (Node (Node NULL 1 1 NULL) 2 2 NULL)" "heights_ok (Node (Node NULL 1 1 NULL) 2 2 NULL)" by simp_all
  from gen [OF b d] have "bst (Node NULL 1 1 NULL) \<and> set (inorder_avltree (Node NULL 1 1 NULL)) = {1}" by simp
  with b(1) d show ?thesis by blast
qed

text \<open>The test program meets neither of the two flaws.\<close>

lemma avltree_test_result:
  "avltree_test = Some ([7, 4, 2, 1, 3, 6, 5, 13, 11, 9, 8, 10, 12, 15, 14, 16],
     [1, 2, 3, 4, 5, 6, 7, 8, 9, 10, 11, 12, 13, 14, 15, 16],
     [1, 3, 2, 5, 6, 4, 8, 10, 9, 12, 11, 14, 16, 15, 13, 7], 5, 5, [1, 2, 3, 4, 5, 6, 7, 9, 10, 11, 12, 13, 14, 15, 16])"
  by (simp add: avltree_test_def arr_def mk_def)

end
