(* ===== verification/Search_Tree.thy ===== *)
theory Search_Tree
  imports Prelude
begin

text \<open>
  The binary search tree of \<open>src/data_structure_and_algorithm/binary_search_tree\<close>. As for the AVL tree, a
  pointer to a node is the tree below it. The field written \<open>left\<close> in \<open>Find\<close> is the field \<open>Left\<close>.
\<close>

section \<open>The code\<close>

datatype SearchTree = NULL | TreeNode (Left: SearchTree) (Element: int) (Right: SearchTree)

text \<open>\<open>MakeEmpty\<close> returns \<open>NULL\<close> and frees the nodes; the second component lists their elements in the
  order of the calls of \<open>free\<close>.\<close>

fun MakeEmpty :: "SearchTree \<Rightarrow> SearchTree \<times> int list" where
  "MakeEmpty NULL = (NULL, [])"
| "MakeEmpty (TreeNode l e r) = (NULL, snd (MakeEmpty l) @ snd (MakeEmpty r) @ [e])"

fun Find :: "int \<Rightarrow> SearchTree \<Rightarrow> SearchTree" where
  "Find X NULL = NULL"
| "Find X (TreeNode l e r) =
     (if X < e then Find X l else if X > e then Find X r else TreeNode l e r)"

text \<open>\<open>FindMin\<close> follows the right pointers.\<close>

fun FindMin :: "SearchTree \<Rightarrow> SearchTree" where
  "FindMin NULL = NULL"
| "FindMin (TreeNode l e r) = (if r \<noteq> NULL then FindMin r else TreeNode l e r)"

text \<open>\<open>Insert\<close> ends without a return statement, so that using its value is undefined
  (\<open>insert_value\<close>); the two recursive calls do use it. The result is the tree to which the
  caller's pointer leads after a call whose value is ignored: for an empty tree the new node
  is not reachable.\<close>

definition insert_value :: "SearchTree \<Rightarrow> SearchTree option" where
  "insert_value T = None"

fun Insert :: "int \<Rightarrow> SearchTree \<Rightarrow> SearchTree option" where
  "Insert X NULL = Some NULL"
| "Insert X (TreeNode l e r) =
     (if X < e then do { T \<leftarrow> Insert X l; l \<leftarrow> insert_value T; Some (TreeNode l e r) }
      else if X > e then do { T \<leftarrow> Insert X r; r \<leftarrow> insert_value T; Some (TreeNode l e r) }
      else Some (TreeNode l e r))"

text \<open>\<open>Delete\<close> only prints a message when the element is missing; \<^const>\<open>None\<close> is a null pointer
  that is followed.\<close>

fun Delete :: "int \<Rightarrow> SearchTree \<Rightarrow> SearchTree option" where
  "Delete X NULL = Some NULL"
| "Delete X (TreeNode l e r) =
     (if X < e then do { l \<leftarrow> Delete X l; Some (TreeNode l e r) }
      else if X > e then do { r \<leftarrow> Delete X r; Some (TreeNode l e r) }
      else if l \<noteq> NULL \<and> r \<noteq> NULL then
        (case FindMin r of
           NULL \<Rightarrow> None
         | TreeNode _ m _ \<Rightarrow> do { r \<leftarrow> Delete m r; Some (TreeNode l m r) })
      else Some (if l = NULL then r else l))"

section \<open>Search trees\<close>

fun elements :: "SearchTree \<Rightarrow> int list" where
  "elements NULL = []"
| "elements (TreeNode l e r) = elements l @ e # elements r"

fun search_tree :: "SearchTree \<Rightarrow> bool" where
  "search_tree NULL = True"
| "search_tree (TreeNode l e r) \<longleftrightarrow> search_tree l \<and> search_tree r \<and>
     (\<forall>x \<in> set (elements l). x < e) \<and> (\<forall>x \<in> set (elements r). e < x)"

lemma Find_spec:
  "search_tree T \<Longrightarrow> (Find X T \<noteq> NULL \<longleftrightarrow> X \<in> set (elements T)) \<and> (Find X T \<noteq> NULL \<longrightarrow> Element (Find X T) = X)"
  by (induction T) (auto dest: order.strict_trans)

lemma FindMin_max:
  "search_tree T \<Longrightarrow> T \<noteq> NULL \<Longrightarrow> FindMin T \<noteq> NULL \<and> Element (FindMin T) \<in> set (elements T) \<and>
     (\<forall>y \<in> set (elements T). y \<le> Element (FindMin T))"
proof (induction T)
  case (TreeNode l e r)
  then show ?case by (cases "r = NULL") (auto simp: less_imp_le, force)
qed simp

lemma Delete_elements:
  "search_tree T \<Longrightarrow> \<exists>T'. Delete X T = Some T' \<and> set (elements T') = set (elements T) - {X}"
proof (induction X T rule: Delete.induct)
  case (2 X l e r)
  consider "X < e" | "X > e" | (two) "X = e" "l \<noteq> NULL" "r \<noteq> NULL" | (one) "X = e" "l = NULL \<or> r = NULL" by fastforce
  then show ?case
  proof cases
    case 1
    then show ?thesis using "2.IH"(1) "2.prems" by (auto, force)
  next
    case gt: 2
    then show ?thesis using "2.IH"(2) "2.prems" by (auto, force)
  next
    case two
    obtain a m b where m: "FindMin r = TreeNode a m b" using FindMin_max [OF _ two(3)] "2.prems" by (cases "FindMin r") auto
    then have "m \<in> set (elements r)" using FindMin_max [OF _ two(3)] "2.prems" by auto
    moreover obtain r' where "Delete m r = Some r'" "set (elements r') = set (elements r) - {m}"
      using "2.IH"(3) [OF _ _ _ m] two "2.prems" by auto
    ultimately show ?thesis using two m "2.prems" by auto
  next
    case one
    then show ?thesis using "2.prems" by auto
  qed
qed simp

text \<open>Deletion keeps the order as long as it meets no node with two children, or one whose right
  subtree has a single element.\<close>

fun simple_delete :: "int \<Rightarrow> SearchTree \<Rightarrow> bool" where
  "simple_delete X NULL = True"
| "simple_delete X (TreeNode l e r) =
     (if X < e then simple_delete X l else if X > e then simple_delete X r
      else l = NULL \<or> length (elements r) \<le> 1)"

lemma one_element: "length (elements T) \<le> 1 \<Longrightarrow> T \<noteq> NULL \<Longrightarrow> \<exists>e. T = TreeNode NULL e NULL"
proof (cases T)
  case (TreeNode l e r)
  assume "length (elements T) \<le> 1"
  then have "elements l = []" "elements r = []" using TreeNode by auto
  then show ?thesis using TreeNode by (cases l; cases r) auto
qed simp

lemma Delete_order: "search_tree T \<Longrightarrow> simple_delete X T \<Longrightarrow> Delete X T = Some T' \<Longrightarrow> search_tree T'"
proof (induction X T arbitrary: T' rule: Delete.induct)
  case (2 X l e r)
  consider "X < e" | "X > e" | (two) "X = e" "l \<noteq> NULL" "r \<noteq> NULL" | (one) "X = e" "l = NULL \<or> r = NULL" by fastforce
  then show ?case
  proof cases
    case 1
    then obtain l' where l': "Delete X l = Some l'" "T' = TreeNode l' e r" using "2.prems"(3) by (auto simp: Option.bind_eq_Some_conv)
    moreover have "set (elements l') \<subseteq> set (elements l)" using Delete_elements [of l X] "2.prems"(1) l'(1) by auto
    ultimately show ?thesis using "2.IH"(1) [OF 1 _ _ l'(1)] 1 "2.prems" by auto
  next
    case gt: 2
    then obtain r' where r': "Delete X r = Some r'" "T' = TreeNode l e r'" using "2.prems"(3) by (auto simp: Option.bind_eq_Some_conv)
    moreover have "set (elements r') \<subseteq> set (elements r)" using Delete_elements [of r X] "2.prems"(1) r'(1) by auto
    ultimately show ?thesis using "2.IH"(2) [OF _ gt _ _ r'(1)] gt "2.prems" by auto
  next
    case two
    then obtain m where "r = TreeNode NULL m NULL" using one_element [of r] "2.prems"(2) by auto
    then show ?thesis using two "2.prems" by (auto, force)
  next
    case one
    then show ?thesis using "2.prems" by (auto split: if_splits)
  qed
qed simp

section \<open>Properties\<close>

text \<open>In a search tree \<open>Find\<close> returns the node of the element if there is one, and \<open>NULL\<close> otherwise;
  \<open>FindMin\<close>, against its name, returns the node with the greatest element.\<close>

theorem bst_find_correct:
  assumes "search_tree T"
  shows "(Find X T \<noteq> NULL \<longleftrightarrow> X \<in> set (elements T)) \<and> (Find X T \<noteq> NULL \<longrightarrow> Element (Find X T) = X) \<and>
    (T \<noteq> NULL \<longrightarrow> Element (FindMin T) = Max (set (elements T)))"
  using Find_spec [OF assms] FindMin_max [OF assms] by (auto intro!: Max_eqI [symmetric])

theorem bst_find_correct_witness:
  "Find 4 (TreeNode (TreeNode NULL 1 NULL) 2 (TreeNode NULL 4 NULL)) \<noteq> NULL \<and>
   Element (FindMin (TreeNode (TreeNode NULL 1 NULL) 2 (TreeNode NULL 4 NULL))) = 4"
  using bst_find_correct [of "TreeNode (TreeNode NULL 1 NULL) 2 (TreeNode NULL 4 NULL)" 4] by auto

text \<open>\<open>Delete\<close> on a search tree returns and removes exactly the given element; the result is a search
  tree when the deleted node has at most one child or its right subtree has one element.\<close>

theorem bst_delete_elements:
  assumes "search_tree T"
  shows "\<exists>T'. Delete X T = Some T' \<and> set (elements T') = set (elements T) - {X} \<and> (simple_delete X T \<longrightarrow> search_tree T')"
  using Delete_elements [OF assms, of X] Delete_order [OF assms, of X] by blast

theorem bst_delete_elements_witness:
  "\<exists>T'. Delete 2 (TreeNode (TreeNode NULL 1 NULL) 2 (TreeNode NULL 4 NULL)) = Some T' \<and> set (elements T') = {1, 4} \<and> search_tree T'"
  using bst_delete_elements [of "TreeNode (TreeNode NULL 1 NULL) 2 (TreeNode NULL 4 NULL)" 2] by auto

text \<open>Deleting a node with two children can destroy the order, because \<open>FindMin\<close> returns the maximum:
  after deleting 2 from the search tree with 1, 2, 3 and 4 the element 3 is still in the tree but
  \<open>Find\<close> does not find it. And every insertion that is not a repetition of the root
  is undefined, as \<open>Insert\<close> has no return statement.\<close>

theorem bst_delete_insert_broken:
  "search_tree (TreeNode (TreeNode NULL 1 NULL) 2 (TreeNode (TreeNode NULL 3 NULL) 4 NULL)) \<and>
   (\<exists>T'. Delete 2 (TreeNode (TreeNode NULL 1 NULL) 2 (TreeNode (TreeNode NULL 3 NULL) 4 NULL)) = Some T' \<and>
      3 \<in> set (elements T') \<and> Find 3 T' = NULL) \<and>
   (\<forall>X l e r. Insert X (TreeNode l e r) = (if X = e then Some (TreeNode l e r) else None))"
  by (auto simp: insert_value_def Option.bind_eq_None_conv)

end
