(* ===== verification/Priority_Queues.thy ===== *)
theory Priority_Queues
  imports Heap_Order
begin

text \<open>
  The priority queues of \<open>src/data_structure_and_algorithm/priority_queue\<close>: the leftist heap
  (\<open>leftist_heap/leftist_heap.c\<close>) and the binary heap with a sentinel (\<open>heap/heap.c\<close>). Functions and
  constants that the sources use without defining them (\<open>swapchildren\<close>, \<open>isempty\<close>, \<open>isfull\<close>, \<open>mindata\<close>,
  \<open>minpqsize\<close>) are parameters. In \<open>heap.c\<close>, which does not compile, line 42 is repaired: it assigns to \<open>x->elements[i]\<close>, though \<open>x\<close> is the element, and \<open>h->elements[i]\<close> is modelled. Both are interpretations of the contract of a priority
  queue over multisets.
\<close>

section \<open>The contract of a priority queue\<close>

fun drain :: "('q \<Rightarrow> (int \<times> 'q) option) \<Rightarrow> nat \<Rightarrow> 'q \<Rightarrow> int list option" where
  "drain del 0 q = Some []"
| "drain del (Suc n) q = do { (m, q) \<leftarrow> del q; ms \<leftarrow> drain del n q; Some (m # ms) }"

locale priority_queue =
  fixes pinv :: "'q \<Rightarrow> bool" and pmset :: "'q \<Rightarrow> int multiset" and room :: "'q \<Rightarrow> int \<Rightarrow> bool"
    and pins :: "'q \<Rightarrow> int \<Rightarrow> 'q option" and pdel :: "'q \<Rightarrow> (int \<times> 'q) option"
  assumes pins_law: "pinv q \<Longrightarrow> room q x \<Longrightarrow> returns (pins q x) (\<lambda>q'. pinv q' \<and> pmset q' = add_mset x (pmset q))"
    and pdel_law: "pinv q \<Longrightarrow> pmset q \<noteq> {#} \<Longrightarrow>
      returns (pdel q) (\<lambda>(m, q'). m = Min_mset (pmset q) \<and> pinv q' \<and> pmset q' = pmset q - {#m#})"
begin

lemma insert_all_mset:
  "pinv q \<Longrightarrow> (\<And>q x. room q x) \<Longrightarrow> returns (insert_all pins q xs) (\<lambda>q'. pinv q' \<and> pmset q' = pmset q + mset xs)"
proof (induction xs arbitrary: q)
  case (Cons x xs)
  obtain q1 where q1: "pins q x = Some q1" "pinv q1" "pmset q1 = add_mset x (pmset q)"
    using pins_law [OF Cons.prems(1) Cons.prems(2), of x] by (auto simp: returns_iff)
  then show ?case using Cons.IH [OF q1(2) Cons.prems(2)] by (auto simp: returns_iff)
qed simp

text \<open>Taking all elements out delivers them in ascending order.\<close>

lemma drain_sorted:
  "pinv q \<Longrightarrow> size (pmset q) = n \<Longrightarrow> drain pdel n q = Some (sorted_list_of_multiset (pmset q))"
proof (induction n arbitrary: q)
  case (Suc n)
  then have ne: "pmset q \<noteq> {#}" by auto
  define m where "m = Min_mset (pmset q)"
  have mem: "m \<in># pmset q" using ne by (simp add: m_def)
  obtain q' where q': "pdel q = Some (m, q')" "pinv q'" "pmset q' = pmset q - {#m#}"
    using pdel_law [OF Suc.prems(1) ne] by (auto simp: returns_iff m_def)
  have "size (pmset q') = n" using q'(3) mem Suc.prems(2) by (simp add: size_Diff_singleton)
  then have rec: "drain pdel n q' = Some (sorted_list_of_multiset (pmset q - {#m#}))" using Suc.IH q' by simp
  let ?xs = "m # sorted_list_of_multiset (pmset q - {#m#})"
  have "\<forall>y \<in># pmset q - {#m#}. m \<le> y" by (auto simp: m_def dest: in_diffD)
  then have "sort ?xs = ?xs" by (intro sorted_sort_id) simp
  moreover have "mset ?xs = pmset q" using mem by simp
  ultimately have "sorted_list_of_multiset (pmset q) = ?xs" by (metis sorted_list_of_multiset_mset)
  then show ?case using q'(1) rec by simp
qed simp

end

section \<open>The leftist heap\<close>

datatype treenode = NULL | Node (element: int) (left: treenode) (right: treenode) (npl: int)

definition npl_of :: "treenode \<Rightarrow> int option" where
  "npl_of h = (case h of NULL \<Rightarrow> None | Node e l r n \<Rightarrow> Some n)"

text \<open>\<open>merge\<close> and \<open>merge1\<close>; the latter is called with two nodes only. The guard for the empty
  second argument is that of \<open>merge\<close>.\<close>

function (sequential) merge :: "(treenode \<Rightarrow> treenode) \<Rightarrow> treenode \<Rightarrow> treenode \<Rightarrow> treenode option"
  and merge1 :: "(treenode \<Rightarrow> treenode) \<Rightarrow> treenode \<Rightarrow> treenode \<Rightarrow> treenode option" where
  "merge swapchildren NULL h2 = Some h2"
| "merge swapchildren h1 NULL = Some h1"
| "merge swapchildren (Node e1 l1 r1 n1) (Node e2 l2 r2 n2) =
     (if e1 < e2 then merge1 swapchildren (Node e1 l1 r1 n1) (Node e2 l2 r2 n2)
      else merge1 swapchildren (Node e2 l2 r2 n2) (Node e1 l1 r1 n1))"
| "merge1 swapchildren NULL h2 = None"
| "merge1 swapchildren (Node e l r n) h2 =
     (if l = NULL then Some (Node e h2 r n)
      else do {
        r \<leftarrow> merge swapchildren r h2;
        nl \<leftarrow> npl_of l;
        nr \<leftarrow> npl_of r;
        let h1 = (if nl < nr then swapchildren (Node e l r n) else Node e l r n);
        (case h1 of NULL \<Rightarrow> None
         | Node e l r n \<Rightarrow> do { nr \<leftarrow> npl_of r; Some (Node e l r (nr + 1)) })
      })"
  by pat_completeness auto
termination
  by (relation "measure (\<lambda>x. case x of Inl (s, h1, h2) \<Rightarrow> 2 * (size h1 + size h2) + 1 | Inr (s, h1, h2) \<Rightarrow> 2 * (size h1 + size h2))")
    auto

definition insert1 :: "(treenode \<Rightarrow> treenode) \<Rightarrow> bool \<Rightarrow> treenode \<Rightarrow> int \<Rightarrow> treenode option" where
  "insert1 swapchildren ok h x = (if ok then merge swapchildren (Node x NULL NULL 0) h else Some h)"

definition deletemin1 :: "(treenode \<Rightarrow> treenode) \<Rightarrow> (treenode \<Rightarrow> bool) \<Rightarrow> treenode \<Rightarrow> treenode option" where
  "deletemin1 swapchildren isempty h =
     (if isempty h then Some h
      else case h of NULL \<Rightarrow> None | Node e l r n \<Rightarrow> merge swapchildren l r)"

text \<open>What the undefined helpers are expected to do.\<close>

definition swaps_children :: "(treenode \<Rightarrow> treenode) \<Rightarrow> bool" where
  "swaps_children s \<longleftrightarrow> (\<forall>e l r n. s (Node e l r n) = Node e r l n)"

definition tests_empty :: "(treenode \<Rightarrow> bool) \<Rightarrow> bool" where
  "tests_empty isempty \<longleftrightarrow> (\<forall>h. isempty h \<longleftrightarrow> h = NULL)"

fun tree_mset :: "treenode \<Rightarrow> int multiset" where
  "tree_mset NULL = {#}"
| "tree_mset (Node e l r n) = add_mset e (tree_mset l + tree_mset r)"

text \<open>The null path length, -1 for the empty heap.\<close>

fun null_path :: "treenode \<Rightarrow> int" where
  "null_path NULL = -1"
| "null_path (Node e l r n) = min (null_path l) (null_path r) + 1"

fun leftist :: "treenode \<Rightarrow> bool" where
  "leftist NULL = True"
| "leftist (Node e l r n) \<longleftrightarrow> leftist l \<and> leftist r \<and> null_path r \<le> null_path l \<and> n = null_path r + 1 \<and>
     (\<forall>x \<in># tree_mset l + tree_mset r. e \<le> x)"

lemma null_path_ge: "-1 \<le> null_path h"
  by (induction h) auto

lemma null_path_NULL: "null_path h = -1 \<longleftrightarrow> h = NULL"
  using null_path_ge [of "left h"] null_path_ge [of "right h"] by (cases h) auto

lemma leftist_npl: "leftist h \<Longrightarrow> h \<noteq> NULL \<Longrightarrow> npl_of h = Some (null_path h)"
  by (cases h) (auto simp: npl_of_def)

lemma leftist_merge_spec:
  assumes "swaps_children s"
  shows "leftist h1 \<Longrightarrow> leftist h2 \<Longrightarrow> returns (merge s h1 h2) (\<lambda>h. leftist h \<and> tree_mset h = tree_mset h1 + tree_mset h2)"
    and "leftist h1 \<Longrightarrow> leftist h2 \<Longrightarrow> h1 \<noteq> NULL \<Longrightarrow> h2 \<noteq> NULL \<Longrightarrow> element h1 \<le> element h2 \<Longrightarrow>
      returns (merge1 s h1 h2) (\<lambda>h. leftist h \<and> tree_mset h = tree_mset h1 + tree_mset h2)"
  using assms
proof (induction s h1 h2 and s h1 h2 rule: merge_merge1.induct)
  case (5 s e l r n h2)
  have root: "\<forall>x \<in># tree_mset h2. e \<le> x" using 5(3,5,6) by (cases h2) (auto intro: order.trans)
  show ?case
  proof (cases "l = NULL")
    case True
    then have "r = NULL" using 5(2) null_path_ge [of r] null_path_NULL [of r] by auto
    then show ?thesis using True 5(2,3) root null_path_ge [of h2] by auto
  next
    case False
    obtain r' where r': "merge s r h2 = Some r'" "leftist r'" "tree_mset r' = tree_mset r + tree_mset h2"
      using 5(1) [OF False _ _ 5(7)] 5(2,3) by (auto simp: returns_iff)
    have "r' \<noteq> NULL" using r'(3) 5(5) by (cases h2) auto
    then have n: "npl_of l = Some (null_path l)" "npl_of r' = Some (null_path r')"
      using leftist_npl False r'(2) 5(2) by auto
    then show ?thesis using False r' n 5(2,7) root by (auto simp: swaps_children_def)
  qed
qed (auto simp: returns_iff)

section \<open>The binary heap\<close>

record heapstruct =
  capacity :: nat
  hsize :: nat
  elements :: "int list"

text \<open>\<open>initialize\<close>: \<open>ok\<close> tells whether the handle was allocated, \<open>junk\<close> is what the allocated array of
  \<open>maxelements + 1\<close> cells holds, if there is one. The three messages are only printed: after a failed
  allocation the code goes on and writes through the null pointer.\<close>

definition initialize :: "int \<Rightarrow> bool \<Rightarrow> int list option \<Rightarrow> nat \<Rightarrow> heapstruct option" where
  "initialize mindata ok junk maxelements =
     (if ok then do {
        elements \<leftarrow> junk;
        elements \<leftarrow> wr elements 0 mindata;
        Some \<lparr>capacity = maxelements, hsize = 0, elements = elements\<rparr>
      } else None)"

text \<open>The loop of \<open>insert\<close> has no bound but the sentinel. Its body is the repaired line 42: \<open>h->elements[i] = h->elements[i/2]\<close>.\<close>

partial_function (option) percolate_up :: "int \<Rightarrow> int list \<Rightarrow> nat \<Rightarrow> (int list \<times> nat) option" where
  "percolate_up x a i = do {
     p \<leftarrow> rd a (i div 2);
     if p > x then do { a \<leftarrow> wr a i p; percolate_up x a (i div 2) }
     else Some (a, i)
   }"

definition insert :: "(heapstruct \<Rightarrow> bool) \<Rightarrow> heapstruct \<Rightarrow> int \<Rightarrow> heapstruct option" where
  "insert isfull h x =
     (if isfull h then Some h
      else do {
        let h = h\<lparr>hsize := hsize h + 1\<rparr>;
        (a, i) \<leftarrow> percolate_up x (elements h) (hsize h);
        a \<leftarrow> wr a i x;
        Some (h\<lparr>elements := a\<rparr>)
      })"

text \<open>The loop of \<open>deletemin\<close>; \<open>i\<close> starts at 1, so that the guard \<open>0 < i\<close> never fails.\<close>

function percolate_down :: "int \<Rightarrow> int list \<Rightarrow> nat \<Rightarrow> nat \<Rightarrow> (int list \<times> nat) option" where
  "percolate_down lastelement a n i =
     (if 0 < i \<and> i * 2 \<le> n then do {
        child \<leftarrow> (if i * 2 \<noteq> n then do {
                    y \<leftarrow> rd a (i * 2 + 1);
                    z \<leftarrow> rd a (i * 2);
                    Some (if y < z then i * 2 + 1 else i * 2)
                  } else Some (i * 2));
        c \<leftarrow> rd a child;
        if lastelement > c then do { a \<leftarrow> wr a i c; percolate_down lastelement a n child }
        else Some (a, i)
      } else Some (a, i))"
  by pat_completeness auto
termination
proof (relation "measure (\<lambda>(l, a, n, i). n + 1 - i)", simp)
  fix lastelement a n i child c a'
  assume "0 < i \<and> i * 2 \<le> n" and "(if i * 2 \<noteq> n then do { y \<leftarrow> rd a (i * 2 + 1); z \<leftarrow> rd a (i * 2);
      Some (if y < z then i * 2 + 1 else i * 2) } else Some (i * 2)) = Some child"
  then have "i < child" "i * 2 \<le> n" by (auto simp: Option.bind_eq_Some_conv split: if_splits)
  then show "((lastelement, a', n, child), lastelement, a, n, i) \<in> measure (\<lambda>(l, a, n, i). n + 1 - i)" by simp
qed

declare percolate_down.simps [simp del]

definition deletemin :: "(heapstruct \<Rightarrow> bool) \<Rightarrow> heapstruct \<Rightarrow> (int \<times> heapstruct) option" where
  "deletemin isempty h =
     (if isempty h then do { x \<leftarrow> rd (elements h) 0; Some (x, h) }
      else do {
        minelement \<leftarrow> rd (elements h) 1;
        lastelement \<leftarrow> rd (elements h) (hsize h);
        let h = h\<lparr>hsize := hsize h - 1\<rparr>;
        (a, i) \<leftarrow> percolate_down lastelement (elements h) (hsize h) 1;
        a \<leftarrow> wr a i lastelement;
        Some (minelement, h\<lparr>elements := a\<rparr>)
      })"

section \<open>Correctness of the leftist heap\<close>

text \<open>The minimum is at the root, and \<open>deletemin1\<close> delivers the rest.\<close>

definition leftist_del :: "(treenode \<Rightarrow> treenode) \<Rightarrow> (treenode \<Rightarrow> bool) \<Rightarrow> treenode \<Rightarrow> (int \<times> treenode) option" where
  "leftist_del s e h = (case h of NULL \<Rightarrow> None | Node x l r n \<Rightarrow> do { h' \<leftarrow> deletemin1 s e h; Some (x, h') })"

lemma leftist_pq:
  assumes "swaps_children s" "tests_empty e"
  shows "priority_queue leftist tree_mset (\<lambda>_ _. True) (insert1 s True) (leftist_del s e)"
proof
  fix h x assume "leftist h"
  then show "returns (insert1 s True h x) (\<lambda>h'. leftist h' \<and> tree_mset h' = add_mset x (tree_mset h))"
    using leftist_merge_spec(1) [OF assms(1), of "Node x NULL NULL 0" h] by (simp add: insert1_def)
next
  fix h assume h: "leftist h" "tree_mset h \<noteq> {#}"
  then obtain x l r n where n: "h = Node x l r n" by (cases h) auto
  have "Min_mset (tree_mset h) = x" using h n by (auto intro!: Min_eqI)
  moreover have "deletemin1 s e h = merge s l r" using n assms(2) by (simp add: deletemin1_def tests_empty_def)
  ultimately show "returns (leftist_del s e h) (\<lambda>(m, h'). m = Min_mset (tree_mset h) \<and> leftist h' \<and> tree_mset h' = tree_mset h - {#m#})"
    using leftist_merge_spec(1) [OF assms(1), of l r] h n by (auto simp: leftist_del_def returns_iff)
qed

definition exchange :: "treenode \<Rightarrow> treenode" where
  "exchange h = (case h of NULL \<Rightarrow> NULL | Node e l r n \<Rightarrow> Node e r l n)"

lemma exchange_swaps: "swaps_children exchange"
  by (simp add: swaps_children_def exchange_def)

lemma is_NULL_tests: "tests_empty (\<lambda>h. h = NULL)"
  by (simp add: tests_empty_def)

interpretation leftist_heap: priority_queue leftist tree_mset "\<lambda>_ _. True" "insert1 exchange True" "leftist_del exchange (\<lambda>h. h = NULL)"
  by (rule leftist_pq [OF exchange_swaps is_NULL_tests])

section \<open>Correctness of the binary heap\<close>

text \<open>The heap order with a hole at \<open>i\<close>, on the way up: the new element \<open>x\<close> belongs at \<open>i\<close> or above.\<close>

definition hole_up :: "int \<Rightarrow> int list \<Rightarrow> nat \<Rightarrow> nat \<Rightarrow> bool" where
  "hole_up x a n i \<longleftrightarrow>
     (\<forall>c. 2 \<le> c \<and> c \<le> n \<and> c \<noteq> i \<and> c div 2 \<noteq> i \<longrightarrow> a ! (c div 2) \<le> a ! c) \<and>
     (\<forall>c. 2 \<le> c \<and> c \<le> n \<and> c div 2 = i \<longrightarrow> x \<le> a ! c \<and> (2 \<le> i \<longrightarrow> a ! (i div 2) \<le> a ! c))"

lemma hole_up_step:
  assumes h: "hole_up x a n i" and i: "2 \<le> i" "i \<le> n" "n < length a" and p: "x < a ! (i div 2)"
  shows "hole_up x (a[i := a ! (i div 2)]) n (i div 2)"
proof -
  let ?p = "i div 2" let ?a = "a[i := a ! ?p]"
  have pi: "?p \<noteq> i" "?p < i" "1 \<le> ?p" using i by auto
  have other: "a ! (c div 2) \<le> a ! c" if "2 \<le> c" "c \<le> n" "c \<noteq> i" "c div 2 \<noteq> i" for c
    using h that by (auto simp: hole_up_def)
  have kids: "a ! ?p \<le> a ! c" if "2 \<le> c" "c \<le> n" "c div 2 = i" for c using h that i by (auto simp: hole_up_def)
  have v: "?a ! c = (if c = i then a ! ?p else a ! c)" for c using i by (simp add: nth_list_update)
  have "?a ! (c div 2) \<le> ?a ! c" if "2 \<le> c" "c \<le> n" "c \<noteq> ?p" "c div 2 \<noteq> ?p" for c
    using that other [of c] kids [of c] by (cases "c = i"; cases "c div 2 = i") (auto simp: v)
  moreover have "x \<le> ?a ! c \<and> (2 \<le> ?p \<longrightarrow> ?a ! (?p div 2) \<le> ?a ! c)" if c: "2 \<le> c" "c \<le> n" "c div 2 = ?p" for c
  proof -
    have pc: "a ! ?p \<le> ?a ! c" using other [of c] c pi by (cases "c = i") (auto simp: v)
    have "a ! (?p div 2) \<le> a ! ?p" if "2 \<le> ?p" using other [of ?p] that pi i by (cases "?p div 2 = i") auto
    moreover have "?p div 2 \<noteq> i" using pi by auto
    ultimately show ?thesis using pc p by (auto simp: v)
  qed
  ultimately show ?thesis unfolding hole_up_def by blast
qed

lemma hole_up_done:
  assumes h: "hole_up x a n i" and i: "1 \<le> i" "i \<le> n" "n < length a" and p: "2 \<le> i \<longrightarrow> a ! (i div 2) \<le> x"
  shows "heap_on (\<le>) ((!) (a[i := x])) 1 n"
  unfolding heap_on_def
proof (intro allI impI)
  fix c assume c: "2 \<le> c \<and> c \<le> n \<and> 1 \<le> c div 2"
  have v: "a[i := x] ! k = (if k = i then x else a ! k)" for k using i by (simp add: nth_list_update)
  have "c div 2 \<noteq> c" using c by auto
  then show "a[i := x] ! (c div 2) \<le> a[i := x] ! c" using h c p unfolding v hole_up_def by auto
qed

lemma percolate_up_spec:
  "hole_up x a n i \<Longrightarrow> 1 \<le> i \<Longrightarrow> i \<le> n \<Longrightarrow> n < length a \<Longrightarrow> a ! 0 \<le> x \<Longrightarrow>
   returns (do { (b, j) \<leftarrow> percolate_up x a i; wr b j x })
     (\<lambda>b. perm_seg (a[i := x]) b 1 (Suc n) \<and> heap_on (\<le>) ((!) b) 1 n)"
proof (induction i arbitrary: a rule: less_induct)
  case (less i)
  show ?case
  proof (cases "a ! (i div 2) > x")
    case False
    then have "percolate_up x a i = Some (a, i)" using less.prems by (subst percolate_up.simps) simp
    then show ?thesis using hole_up_done [OF less.prems(1-4)] less.prems False by simp
  next
    case True
    then have i2: "2 \<le> i" using less.prems(2,5) by (cases "i = 1") auto
    let ?a = "a[i := a ! (i div 2)]"
    have step: "percolate_up x a i = percolate_up x ?a (i div 2)"
      using True less.prems by (subst percolate_up.simps) simp
    have "returns (do { (b, j) \<leftarrow> percolate_up x ?a (i div 2); wr b j x })
        (\<lambda>b. perm_seg (?a[i div 2 := x]) b 1 (Suc n) \<and> heap_on (\<le>) ((!) b) 1 n)"
      using less.prems i2 by (intro less.IH hole_up_step) (auto simp: True nth_list_update)
    moreover have "perm_seg (a[i := x]) (?a[i div 2 := x]) 1 (Suc n)"
    proof -
      have "?a[i div 2 := x] = (a[i := x])[i := (a[i := x]) ! (i div 2), i div 2 := (a[i := x]) ! i]"
        using less.prems i2 by (simp add: nth_list_update)
      then show ?thesis using perm_seg_swap [of i "a[i := x]" "i div 2" 1 "Suc n"] less.prems i2 by simp
    qed
    ultimately show ?thesis unfolding step by (auto elim!: returns_mono intro: perm_seg_trans)
  qed
qed

text \<open>On the way down the hole at \<open>i\<close> is where the last element is put.\<close>

lemma percolate_down_spec:
  "heap_but (\<le>) ((!) (a[i := l])) 1 n i \<Longrightarrow> 1 \<le> i \<Longrightarrow> i < length a \<Longrightarrow> n < length a \<Longrightarrow> i \<le> max 1 n \<Longrightarrow>
   returns (do { (b, j) \<leftarrow> percolate_down l a n i; wr b j l })
     (\<lambda>b. perm_seg (a[i := l]) b 1 (Suc (max 1 n)) \<and> heap_on (\<le>) ((!) b) 1 n)"
proof (induction l a n i rule: percolate_down.induct)
  case (1 l a n i)
  show ?case
  proof (cases "i * 2 \<le> n")
    case False
    then have "percolate_down l a n i = Some (a, i)" using 1 by (simp add: percolate_down.simps [of l a n i])
    then show ?thesis using min_order.heap_but_leaf [OF 1(2)] False 1 by simp
  next
    case True
    define c where "c = (if i * 2 \<noteq> n \<and> a ! (i * 2 + 1) < a ! (i * 2) then i * 2 + 1 else i * 2)"
    have pick: "(if i * 2 \<noteq> n then do { y \<leftarrow> rd a (i * 2 + 1); z \<leftarrow> rd a (i * 2); Some (if y < z then i * 2 + 1 else i * 2) }
        else Some (i * 2)) = Some c" using True 1(5) by (simp add: c_def)
    have c: "c div 2 = i" "2 \<le> c" "c \<le> n" "c \<noteq> i" "c < length a" using True 1(3,5) by (auto simp: c_def)
    have kids: "k = i * 2 \<or> k = i * 2 + 1" if "k div 2 = i" for k using that by presburger
    have best: "a[i := l] ! c \<le> a[i := l] ! k" if "k div 2 = i" "2 \<le> k" "k \<le> n" for k
      using kids [OF that(1)] that(3) 1(3) True by (auto simp: c_def)
    show ?thesis
    proof (cases "l > a ! c")
      case False
      then have "percolate_down l a n i = Some (a, i)" using True 1(3) pick c by (simp add: percolate_down.simps [of l a n i])
      moreover have "heap_on (\<le>) ((!) (a[i := l])) 1 n"
        by (rule min_order.sift_stop [OF 1(2), of c]) (use False 1(4) c(4) best in auto)
      ultimately show ?thesis using 1(4) by simp
    next
      case gt: True
      let ?a = "a[i := a ! c]"
      have step: "percolate_down l a n i = percolate_down l ?a n c"
        using True gt 1(3,4) pick c by (simp add: percolate_down.simps [of l a n i])
      have eq: "?a[c := l] = (a[i := l])[i := (a[i := l]) ! c, c := (a[i := l]) ! i]"
        using 1(4) c by (simp add: nth_list_update)
      have "heap_but (\<le>) (((!) (a[i := l]))(i := (a[i := l]) ! c, c := (a[i := l]) ! i)) 1 n c"
        by (rule min_order.sift_step [OF 1(2) _ 1(3) c(1-3)]) (use best gt 1(4) c(4) in auto)
      then have hb: "heap_but (\<le>) ((!) (?a[c := l])) 1 n c"
        by (rule heap_but_cong) (use 1(4) c in \<open>auto simp: nth_list_update\<close>)
      have "returns (do { (b, j) \<leftarrow> percolate_down l ?a n c; wr b j l })
          (\<lambda>b. perm_seg (?a[c := l]) b 1 (Suc (max 1 n)) \<and> heap_on (\<le>) ((!) b) 1 n)"
        using "1.IH" [OF _ pick _ gt, of ?a] hb 1(3-5) True c by simp
      moreover have "perm_seg (a[i := l]) (?a[c := l]) 1 (Suc (max 1 n))"
        unfolding eq using 1(3,4,6) c by (intro perm_seg_swap) auto
      ultimately show ?thesis unfolding step by (auto elim!: returns_mono intro: perm_seg_trans)
    qed
  qed
qed

text \<open>The invariant of the handle, with the sentinel below all elements, and its elements.\<close>

definition heap_inv :: "int \<Rightarrow> heapstruct \<Rightarrow> bool" where
  "heap_inv mindata h \<longleftrightarrow> length (elements h) = capacity h + 1 \<and> hsize h \<le> capacity h \<and>
     elements h ! 0 = mindata \<and> heap_on (\<le>) ((!) (elements h)) 1 (hsize h)"

definition heap_mset :: "heapstruct \<Rightarrow> int multiset" where
  "heap_mset h = mset (slice (elements h) 1 (Suc (hsize h)))"

lemma slice_snoc: "lo \<le> n \<Longrightarrow> n < length a \<Longrightarrow> slice a lo (Suc n) = slice a lo n @ [a ! n]"
  using slice_append [of lo n "Suc n" a] slice_Cons [of n "Suc n" a] by simp

lemma slice_upd: "i < lo \<or> hi \<le> i \<Longrightarrow> slice (a[i := x]) lo hi = slice a lo hi"
  unfolding slice_def by (rule nth_equalityI) (auto simp: nth_list_update)

lemma insert_spec:
  assumes h: "heap_inv mindata h" and r: "hsize h < capacity h" "mindata \<le> x" and f: "\<not> isfull h"
  shows "returns (insert isfull h x) (\<lambda>h'. heap_inv mindata h' \<and> heap_mset h' = add_mset x (heap_mset h))"
proof -
  define a n where "a = elements h" and "n = Suc (hsize h)"
  have a: "n < length a" "a ! 0 \<le> x" "1 \<le> n" using h r by (auto simp: heap_inv_def a_def n_def)
  have "hole_up x a n n" using h by (auto simp: hole_up_def heap_inv_def heap_on_def a_def n_def)
  from percolate_up_spec [OF this a(3) _ a(1,2)]
  obtain b j c where b: "percolate_up x a n = Some (b, j)" "wr b j x = Some c" "perm_seg (a[n := x]) c 1 (Suc n)"
      "heap_on (\<le>) ((!) c) 1 n" by (auto simp: returns_iff Option.bind_eq_Some_conv)
  have len: "length c = length a" using perm_seg_length [OF b(3)] by simp
  have "c ! 0 = a ! 0" using perm_seg_outside [OF b(3), of 0] a by (simp flip: length_greater_0_conv)
  moreover have "mset (slice c 1 (Suc n)) = mset (slice (a[n := x]) 1 (Suc n))"
    using perm_seg_slice [OF b(3)] a by simp
  moreover have "slice (a[n := x]) 1 (Suc n) = slice a 1 n @ [x]"
    using slice_snoc [of 1 n "a[n := x]"] slice_upd [of n 1 n a x] a by simp
  ultimately show ?thesis
    using b len h r f by (simp add: insert_def heap_inv_def heap_mset_def a_def n_def)
qed

lemma deletemin_spec:
  assumes h: "heap_inv mindata h" and e: "hsize h \<noteq> 0" "\<not> isempty h"
  shows "returns (deletemin isempty h) (\<lambda>(m, h'). m = Min_mset (heap_mset h) \<and> heap_inv mindata h' \<and> heap_mset h' = heap_mset h - {#m#})"
proof -
  define a n where "a = elements h" and "n = hsize h - 1"
  have n: "hsize h = Suc n" using e by (simp add: n_def)
  have a: "Suc n < length a" using h n by (auto simp: heap_inv_def a_def)
  have hp: "heap_on (\<le>) ((!) a) 1 (Suc n)" using h n by (simp add: heap_inv_def a_def)
  define l where "l = a ! Suc n"
  have "heap_but (\<le>) (((!) a)(1 := l)) 1 n 1" by (rule min_order.heap_but_root) (use heap_on_shorter [OF hp, of n] in auto)
  then have hb: "heap_but (\<le>) ((!) (a[1 := l])) 1 n 1" by (rule heap_but_cong) (use a in \<open>auto simp: nth_list_update\<close>)
  from percolate_down_spec [OF this] a
  obtain b j c where b: "percolate_down l a n 1 = Some (b, j)" "wr b j l = Some c" "perm_seg (a[1 := l]) c 1 (Suc (max 1 n))"
      "heap_on (\<le>) ((!) c) 1 n" by (auto simp: returns_iff Option.bind_eq_Some_conv)
  have len: "length c = length a" using perm_seg_length [OF b(3)] by simp
  have c0: "c ! 0 = a ! 0" using perm_seg_outside [OF b(3), of 0] a by (simp flip: length_greater_0_conv)
  have old: "mset (slice a 1 (Suc (Suc n))) = add_mset (a ! 1) (mset (slice a 2 (Suc (Suc n))))"
    using slice_Cons [of 1 "Suc (Suc n)" a] a by (simp add: numeral_2_eq_2)
  have new: "mset (slice c 1 (Suc n)) = mset (slice a 2 (Suc (Suc n)))"
  proof (cases "n = 0")
    case False
    have "mset (slice c 1 (Suc n)) = mset (slice (a[1 := l]) 1 (Suc n))"
      using perm_seg_slice [OF b(3)] a False by (simp add: max_def)
    also have "\<dots> = add_mset l (mset (slice a 2 (Suc n)))"
      using slice_Cons [of 1 "Suc n" "a[1 := l]"] slice_upd [of 1 2 "Suc n" a l] a False by (simp add: numeral_2_eq_2)
    also have "\<dots> = mset (slice a 2 (Suc (Suc n)))" using slice_snoc [of 2 "Suc n" a] a False by (simp add: l_def)
    finally show ?thesis .
  qed simp
  have mn: "a ! 1 = Min_mset (heap_mset h)"
  proof (rule Min_eqI [symmetric])
    show "a ! 1 \<in> set_mset (heap_mset h)" using old n by (simp add: heap_mset_def a_def)
    fix y assume "y \<in> set_mset (heap_mset h)"
    then obtain k where "1 \<le> k" "k \<le> Suc n" "y = a ! k" using set_slice [of "Suc (Suc n)" a 1] a n
      by (auto simp: heap_mset_def a_def less_Suc_eq_le)
    then show "a ! 1 \<le> y" using min_order.root_best [OF hp] by simp
  qed simp
  have "deletemin isempty h = Some (a ! 1, h\<lparr>hsize := n, elements := c\<rparr>)"
    using b(1,2) a e n by (simp add: deletemin_def l_def flip: a_def)
  moreover have "heap_inv mindata (h\<lparr>hsize := n, elements := c\<rparr>)" using c0 len b(4) h n by (simp add: heap_inv_def a_def)
  moreover have "heap_mset (h\<lparr>hsize := n, elements := c\<rparr>) = heap_mset h - {#a ! 1#}"
    using new old n by (simp add: heap_mset_def a_def)
  ultimately show ?thesis using mn by simp
qed

lemma binary_heap_pq:
  assumes "\<And>h. isfull h \<longleftrightarrow> hsize h = capacity h" "\<And>h. isempty h \<longleftrightarrow> hsize h = 0"
  shows "priority_queue (heap_inv mindata) heap_mset (\<lambda>h x. hsize h < capacity h \<and> mindata \<le> x) (insert isfull) (deletemin isempty)"
proof
  fix h x assume "heap_inv mindata h" "hsize h < capacity h \<and> mindata \<le> x"
  then show "returns (insert isfull h x) (\<lambda>h'. heap_inv mindata h' \<and> heap_mset h' = add_mset x (heap_mset h))"
    using assms by (intro insert_spec) auto
next
  fix h assume h: "heap_inv mindata h" "heap_mset h \<noteq> {#}"
  then have "hsize h \<noteq> 0" by (cases "hsize h") (auto simp: heap_mset_def slice_def)
  then show "returns (deletemin isempty h) (\<lambda>(m, h'). m = Min_mset (heap_mset h) \<and> heap_inv mindata h' \<and> heap_mset h' = heap_mset h - {#m#})"
    using assms h(1) by (intro deletemin_spec) auto
qed

interpretation binary_heap: priority_queue "heap_inv 0" heap_mset "\<lambda>h x. hsize h < capacity h \<and> 0 \<le> x"
    "insert (\<lambda>h. hsize h = capacity h)" "deletemin (\<lambda>h. hsize h = 0)"
  by (rule binary_heap_pq) auto

text \<open>At index 0 the loop compares the element with the sentinel again and again.\<close>

lemma percolate_up_zero: "percolate_up x a i = Some y \<Longrightarrow> \<not> (i = 0 \<and> a \<noteq> [] \<and> x < a ! 0)"
proof -
  assume *: "percolate_up x a i = Some y"
  show ?thesis
  proof (rule percolate_up.raw_induct [of "\<lambda>x a i y. \<not> (i = 0 \<and> a \<noteq> [] \<and> x < a ! 0)" "((x, a), i)" y, unfolded prod.case])
    show "\<not> (i = 0 \<and> a \<noteq> [] \<and> x < a ! 0)"
      if "\<And>x a i y. up x a i = Some y \<Longrightarrow> \<not> (i = 0 \<and> a \<noteq> [] \<and> x < a ! 0)"
        "do { p \<leftarrow> rd a (i div 2); if x < p then do { a \<leftarrow> wr a i p; up x a (i div 2) } else Some (a, i) } = Some y"
      for up x a i y
      using that(1) [of x a 0] that(2) by (cases y) (auto simp: Option.bind_eq_Some_conv)
  qed (rule *)
qed

section \<open>Properties\<close>

text \<open>With a \<open>swapchildren\<close> that exchanges the children, \<open>merge\<close> of two leftist heaps returns a leftist heap
  with correct null path lengths and the elements of both.\<close>

theorem leftist_merge_correct:
  assumes "swaps_children s" "leftist h1" "leftist h2"
  shows "\<exists>h. merge s h1 h2 = Some h \<and> leftist h \<and> tree_mset h = tree_mset h1 + tree_mset h2"
  using leftist_merge_spec(1) [OF assms] by (auto simp: returns_iff)

theorem leftist_merge_correct_witness:
  "\<exists>h. merge exchange (Node 3 NULL NULL 0) (Node 1 (Node 2 NULL NULL 0) NULL 0) = Some h \<and> leftist h \<and> tree_mset h = {#1, 2, 3#}"
proof -
  have "leftist (Node 3 NULL NULL 0)" "leftist (Node 1 (Node 2 NULL NULL 0) NULL 0)" by simp_all
  from leftist_merge_correct [OF exchange_swaps this] show ?thesis by (simp add: add_mset_commute)
qed

text \<open>Inserting numbers into the empty leftist heap and taking out the minimum (the root) again and
  again yields the numbers in ascending order.\<close>

theorem leftist_sorts:
  assumes "swaps_children s" "tests_empty e"
  shows "\<exists>h. insert_all (insert1 s True) NULL xs = Some h \<and> drain (leftist_del s e) (length xs) h = Some (sort xs)"
proof -
  note pq = leftist_pq [OF assms]
  obtain h where "insert_all (insert1 s True) NULL xs = Some h" "leftist h" "tree_mset h = mset xs"
    using priority_queue.insert_all_mset [OF pq, of NULL xs] by (auto simp: returns_iff)
  then show ?thesis using priority_queue.drain_sorted [OF pq, of h "length xs"] by simp
qed

theorem leftist_sorts_witness:
  "\<exists>h. insert_all (insert1 exchange True) NULL [3, 1, 2] = Some h \<and> drain (leftist_del exchange (\<lambda>h. h = NULL)) 3 h = Some [1, 2, 3]"
  using leftist_sorts [OF exchange_swaps is_NULL_tests, of "[3, 1, 2]"] by (simp add: numeral_3_eq_3)

text \<open>C39: the binary heap, with \<open>x->elements[i]\<close> in line 42 of \<open>heap.c\<close> repaired to \<open>h->elements[i]\<close>, with \<open>isfull\<close> and \<open>isempty\<close> as their names say and a sentinel \<open>mindata\<close> that is not
  greater than any element: \<open>insert\<close> into a heap that is not full ends, keeps the heap order and adds the
  element; \<open>deletemin\<close> of a nonempty heap returns its minimum and removes it.\<close>

theorem binary_heap_correct:
  assumes "heap_inv mindata h" "\<And>h. isfull h \<longleftrightarrow> hsize h = capacity h" "\<And>h. isempty h \<longleftrightarrow> hsize h = 0"
  shows "(hsize h < capacity h \<and> mindata \<le> x \<longrightarrow>
      (\<exists>h'. insert isfull h x = Some h' \<and> heap_inv mindata h' \<and> heap_mset h' = add_mset x (heap_mset h))) \<and>
    (hsize h \<noteq> 0 \<longrightarrow> (\<exists>h'. deletemin isempty h = Some (Min_mset (heap_mset h), h') \<and> heap_inv mindata h' \<and>
      heap_mset h' = heap_mset h - {#Min_mset (heap_mset h)#}))"
  using insert_spec [OF assms(1), of x isfull] deletemin_spec [OF assms(1), of isempty] assms(2,3)
  by (auto simp: returns_iff)

theorem binary_heap_correct_witness:
  "\<exists>h'. insert (\<lambda>h. hsize h = capacity h) \<lparr>capacity = 3, hsize = 0, elements = [0, 9, 9, 9]\<rparr> 5 = Some h' \<and> heap_mset h' = {#5#}"
proof -
  have "heap_inv 0 \<lparr>capacity = 3, hsize = 0, elements = [0, 9, 9, 9]\<rparr>" by (simp add: heap_inv_def)
  from binary_heap_correct [OF this, of "\<lambda>h. hsize h = capacity h" "\<lambda>h. hsize h = 0" 5]
  show ?thesis by (auto simp: heap_mset_def)
qed

text \<open>\<open>initialize\<close> of the binary heap does return an empty heap of the requested capacity; the sentinel
  is what ends the loop of \<open>insert\<close>: for an element below it the loop never ends.\<close>

theorem binary_heap_sentinel:
  "(\<forall>junk. length junk = maxelements + 1 \<longrightarrow> (\<exists>h. initialize mindata True (Some junk) maxelements = Some h \<and> heap_inv mindata h \<and>
      heap_mset h = {#} \<and> capacity h = maxelements)) \<and>
   (x < mindata \<longrightarrow> percolate_up x (mindata # a) 0 = None)"
proof (intro conjI allI impI)
  fix junk :: "int list" assume "length junk = maxelements + 1"
  then show "\<exists>h. initialize mindata True (Some junk) maxelements = Some h \<and> heap_inv mindata h \<and> heap_mset h = {#} \<and> capacity h = maxelements"
    by (simp add: initialize_def heap_inv_def heap_mset_def)
next
  assume x: "x < mindata"
  then show "percolate_up x (mindata # a) 0 = None" using percolate_up_zero [of x "mindata # a" 0] by (cases "percolate_up x (mindata # a) 0") auto
qed

theorem binary_heap_sentinel_witness: "percolate_up (-1) [0, 7] 0 = None"
  using binary_heap_sentinel [of 1 0 "-1" "[7]"] by simp


end
