(* ===== verification/C_Library.thy ===== *)
theory C_Library
  imports Prelude "HOL-Library.Word"
begin

text \<open>
  The parts of the C library and of the file interface which several components use: descriptors of
  regular files with \<open>lseek\<close>, \<open>read\<close> and \<open>write\<close>, decimal output of \<open>sprintf\<close>, \<open>atol\<close> and \<open>atoi\<close>, C strings
  in buffers; and the lemmas on bytes at an offset (\<open>has\<close>) and on decimal numbers.
  System calls do what they do to regular files of a single process: \<open>lseek\<close> fails for a negative
  target only, \<open>read\<close> is short at the end of the file only.
\<close>

section \<open>Constants\<close>

definition SPACE :: char where "SPACE = CHR '' ''"
definition NEWLINE :: char where "NEWLINE = CHR 0x0A"
definition EINVAL :: int where "EINVAL = 22"
definition ENOENT :: int where "ENOENT = 2"
definition NUL :: char where "NUL = CHR 0x00"

lemmas c_consts = SPACE_def NEWLINE_def EINVAL_def ENOENT_def NUL_def

section \<open>Files\<close>

datatype whence = SEEK_SET | SEEK_CUR | SEEK_END

record ofile =
  fbytes :: string
  fpos :: nat

text \<open>\<open>lseek\<close> returns the new offset, and the descriptor; \<^const>\<open>None\<close> is its error return,
  after which every caller calls \<open>err_dump\<close>.\<close>

definition lseek :: "ofile \<Rightarrow> int \<Rightarrow> whence \<Rightarrow> (int \<times> ofile) option" where
  "lseek f offset whence =
     (let new = offset + (case whence of SEEK_SET \<Rightarrow> 0 | SEEK_CUR \<Rightarrow> int (fpos f)
                                       | SEEK_END \<Rightarrow> int (length (fbytes f)))
      in if new < 0 then None else Some (new, f\<lparr>fpos := nat new\<rparr>))"

definition fd_read :: "ofile \<Rightarrow> nat \<Rightarrow> string \<times> ofile" where
  "fd_read f n = (let s = take n (drop (fpos f) (fbytes f)) in (s, f\<lparr>fpos := fpos f + length s\<rparr>))"

text \<open>A write behind the end of the file leaves a hole of null bytes.\<close>

definition overwrite :: "string \<Rightarrow> nat \<Rightarrow> string \<Rightarrow> string" where
  "overwrite b p s = (if s = [] then b
     else take p b @ replicate (p - length b) NUL @ s @ drop (p + length s) b)"

definition fd_write :: "ofile \<Rightarrow> string \<Rightarrow> ofile" where
  "fd_write f s = f\<lparr>fbytes := overwrite (fbytes f) (fpos f) s, fpos := fpos f + length s\<rparr>"

section \<open>Numbers and strings\<close>

text \<open>Conversion to a 32-bit signed integer wraps around.\<close>

definition int32 :: "int \<Rightarrow> int" where
  "int32 x = (x + 2 ^ 31) mod 2 ^ 32 - 2 ^ 31"

lemma int32_bounds: "- (2 ^ 31) \<le> int32 x \<and> int32 x < 2 ^ 31"
  using pos_mod_bound [of "2 ^ 32" "x + 2 ^ 31"] pos_mod_sign [of "2 ^ 32" "x + 2 ^ 31"] by (auto simp: int32_def)

lemma int32_id: "- (2 ^ 31) \<le> x \<Longrightarrow> x < 2 ^ 31 \<Longrightarrow> int32 x = x"
  by (simp add: int32_def)

text \<open>Storing bytes into an array.\<close>

definition put_at :: "string \<Rightarrow> nat \<Rightarrow> string \<Rightarrow> string option" where
  "put_at b i s = (if i + length s \<le> length b then Some (put b i s) else None)"

text \<open>\<open>%d\<close> and \<open>%*d\<close> of \<open>sprintf\<close> for numbers that are not negative.\<close>

definition digit :: "nat \<Rightarrow> char" where
  "digit n = char_of (48 + n)"

fun dec :: "nat \<Rightarrow> string" where
  "dec n = (if n < 10 then [digit n] else dec (n div 10) @ [digit (n mod 10)])"

declare dec.simps [simp del]

definition pad :: "nat \<Rightarrow> string \<Rightarrow> string" where
  "pad w s = replicate (w - length s) SPACE @ s"

text \<open>\<open>atol\<close> skips white space, takes an optional sign and the digits that follow, and clamps
  the value to the range of \<open>long\<close>; \<open>atoi\<close> truncates that to \<open>int\<close>.\<close>

definition isspace :: "char \<Rightarrow> bool" where
  "isspace c \<longleftrightarrow> c = SPACE \<or> 9 \<le> (of_char c :: nat) \<and> (of_char c :: nat) \<le> 13"

definition isdigit :: "char \<Rightarrow> bool" where
  "isdigit c \<longleftrightarrow> 48 \<le> (of_char c :: nat) \<and> (of_char c :: nat) \<le> 57"

definition digits_val :: "string \<Rightarrow> int" where
  "digits_val s = foldl (\<lambda>v c. 10 * v + (of_char c - 48)) 0 (takeWhile isdigit s)"

definition atol :: "string \<Rightarrow> int" where
  "atol s = (let s = dropWhile isspace s;
      v = (case s of [] \<Rightarrow> 0
           | c # r \<Rightarrow> if c = CHR ''-'' then - digits_val r else if c = CHR ''+'' then digits_val r
                      else digits_val s)
    in max (- (2 ^ 63)) (min (2 ^ 63 - 1) v))"

definition atoi :: "string \<Rightarrow> int" where
  "atoi s = (atol s + 2 ^ 31) mod 2 ^ 32 - 2 ^ 31"

text \<open>The C string at the start of a buffer.\<close>

definition cstr :: "string \<Rightarrow> string" where
  "cstr b = takeWhile (\<lambda>c. c \<noteq> NUL) b"

section \<open>Bytes at an offset\<close>

definition has :: "string \<Rightarrow> nat \<Rightarrow> string \<Rightarrow> bool" where
  "has b p s \<longleftrightarrow> p + length s \<le> length b \<and> take (length s) (drop p b) = s"

lemma hasD: "has b p s \<Longrightarrow> p + length s \<le> length b" "has b p s \<Longrightarrow> take (length s) (drop p b) = s"
  by (simp_all add: has_def)

lemma has_append: "has b p (s @ t) \<longleftrightarrow> has b p s \<and> has b (p + length s) t"
  by (auto simp: has_def take_add add.commute)

lemma has_nth: "has b p s \<longleftrightarrow> p + length s \<le> length b \<and> (\<forall>i < length s. b ! (p + i) = s ! i)"
  by (auto simp: has_def list_eq_iff_nth_eq)

lemma length_overwrite:
  "p \<le> length b \<Longrightarrow> length (overwrite b p s) = max (length b) (p + length s)"
  by (auto simp: overwrite_def)

lemma nth_overwrite:
  assumes "p \<le> length b" "i < length (overwrite b p s)"
  shows "overwrite b p s ! i = (if p \<le> i \<and> i < p + length s then s ! (i - p) else b ! i)"
  using assms by (auto simp: overwrite_def nth_append length_overwrite max_def split: if_splits)

lemma has_overwrite_same: "p \<le> length b \<Longrightarrow> has (overwrite b p s) p s"
  by (simp add: has_nth length_overwrite nth_overwrite)

lemma has_overwrite_other:
  assumes "has b q t" "p \<le> length b" "q + length t \<le> p \<or> p + length s \<le> q"
  shows "has (overwrite b p s) q t"
  using assms by (auto simp: has_nth length_overwrite nth_overwrite)

section \<open>Decimal fields\<close>

lemma digit_code: "n < 10 \<Longrightarrow> of_char (digit n) = 48 + n"
  by (simp add: digit_def)

lemma digit_code_int: "n < 10 \<Longrightarrow> (of_char (digit n) :: int) = 48 + int n"
  using digit_code [of n] by (metis of_nat_add of_nat_numeral of_nat_of_char)

lemma dec_not_Nil [simp]: "dec n \<noteq> []"
  by (subst dec.simps) simp

lemma dec_isdigit: "c \<in> set (dec n) \<Longrightarrow> isdigit c"
proof (induction n rule: dec.induct)
  case (1 n)
  have "isdigit (digit k)" if "k < 10" for k using that by (simp add: isdigit_def digit_code)
  with 1 show ?case by (subst (asm) (2) dec.simps) (auto split: if_splits)
qed

lemma dec_value: "foldl (\<lambda>v c. 10 * v + (of_char c - 48)) 0 (dec n) = int n"
proof (induction n rule: dec.induct)
  case (1 n)
  show ?case
  proof (cases "n < 10")
    case True
    then show ?thesis by (subst dec.simps) (simp add: digit_code_int)
  next
    case False
    have "int n = 10 * int (n div 10) + int (n mod 10)" by (metis mult_div_mod_eq of_nat_add of_nat_mult of_nat_numeral)
    with False 1 show ?thesis by (subst dec.simps) (simp add: digit_code_int)
  qed
qed

lemma length_dec: "n < 10 ^ k \<Longrightarrow> 0 < k \<Longrightarrow> length (dec n) \<le> k"
proof (induction n arbitrary: k rule: dec.induct)
  case (1 n)
  show ?case
  proof (cases "n < 10")
    case True
    with 1(3) show ?thesis by (subst dec.simps) simp
  next
    case False
    with 1(2) obtain j where j: "k = Suc j" "0 < j" by (cases k; cases "k - 1") auto
    have "n div 10 < 10 ^ j" using 1(2) j by (simp add: div_less_iff_less_mult mult.commute)
    with 1(1) [OF False] j False show ?thesis by (subst dec.simps) simp
  qed
qed

lemma isdigit_facts: "isdigit c \<Longrightarrow> \<not> isspace c \<and> c \<noteq> CHR ''-'' \<and> c \<noteq> CHR ''+'' \<and> c \<noteq> NUL"
  by (auto simp: isdigit_def isspace_def c_consts)

lemma atol_dec:
  assumes "n < 2 ^ 63"
  shows "atol (replicate k SPACE @ dec n) = int n"
proof -
  obtain c r where cr: "dec n = c # r" by (cases "dec n") auto
  then have c: "isdigit c" using dec_isdigit [of c n] by simp
  have "isspace SPACE" by (simp add: isspace_def)
  then have "dropWhile isspace (replicate k SPACE @ dec n) = dec n"
    using cr isdigit_facts [OF c] by (subst dropWhile_append) auto
  moreover have "digits_val (dec n) = int n"
    using dec_isdigit [of _ n] dec_value [of n] by (simp add: digits_val_def takeWhile_eq_all_conv [THEN iffD2])
  moreover have "max (- (2 ^ 63)) (min (2 ^ 63 - 1) (int n)) = int n" using assms by simp
  ultimately show ?thesis using cr isdigit_facts [OF c] by (simp add: atol_def)
qed

lemma cstr_id: "NUL \<notin> set s \<Longrightarrow> cstr s = s"
  by (auto simp: cstr_def takeWhile_eq_all_conv)

lemma cstr_pad [simp]: "cstr (pad w (dec v)) = pad w (dec v)"
proof (rule cstr_id)
  have "NUL \<notin> set (dec v)" using dec_isdigit isdigit_facts by blast
  moreover have "NUL \<noteq> SPACE" by (simp add: c_consts)
  ultimately show "NUL \<notin> set (pad w (dec v))" by (auto simp: pad_def)
qed

lemma atol_pad: "v < 2 ^ 63 \<Longrightarrow> atol (pad w (dec v)) = int v"
  unfolding pad_def by (rule atol_dec)

lemma atoi_pad: "v < 2 ^ 31 \<Longrightarrow> atoi (pad w (dec v)) = int v"
  using atol_pad [of v w] by (simp add: atoi_def)

lemma atol_plain: "v < 2 ^ 63 \<Longrightarrow> atol (dec v) = int v"
  using atol_dec [of v 0] by simp

lemma dec_no_NUL [simp]: "NUL \<notin> set (dec n)"
  using dec_isdigit isdigit_facts by blast

section \<open>Seeking and reading\<close>

lemma seek_set: "lseek f (int o1) SEEK_SET = Some (int o1, f\<lparr>fpos := o1\<rparr>)"
  by (simp add: lseek_def)

lemma read_has: "has (fbytes f) (fpos f) s \<Longrightarrow> fd_read f (length s) = (s, f\<lparr>fpos := fpos f + length s\<rparr>)"
  by (simp add: fd_read_def hasD Let_def)

lemma seek_end: "lseek f 0 SEEK_END = Some (int (length (fbytes f)), f\<lparr>fpos := length (fbytes f)\<rparr>)"
  by (simp add: lseek_def)

end
