(* ===== verification/Db_Model.thy ===== *)
theory Db_Model
  imports C_Library
begin

text \<open>
  The database library of \<open>src/apue/apue.3e/db/db.c\<close> and its re-implementation
  \<open>src/apue/20db/db.c\<close> (last section): an index file of hash chains and a free list, linked by
  ASCII offsets, and a data file. The operations are written on the struct \<open>DB\<close>, a record
  with the fields of the source. An open descriptor is a record of the file's bytes and the
  current position, so that reads and writes are list operations; the record locks which the
  process holds are kept in the field \<open>locks\<close> and \<open>errno\<close> in a field of that name. \<^const>\<open>None\<close> is
  the end of the process: \<open>err_dump\<close>, \<open>err_sys\<close> and \<open>err_quit\<close>, a buffer overflow, or a search of a
  cyclic chain that never returns. The functions whose names begin with an underscore in
  the source are named without it.

  System calls are modelled by what they do to regular files of a single process: \<open>lseek\<close>
  fails for a negative target only, \<open>read\<close> is short at the end of the file only, writes
  succeed, and locks are granted. \<open>char\<close> is signed and \<open>unsigned long\<close> has 64 bits.
\<close>

section \<open>Constants\<close>

definition IDXLEN_SZ :: nat where "IDXLEN_SZ = 4"
definition SEP :: char where "SEP = CHR '':''"
definition PTR_SZ :: nat where "PTR_SZ = 7"
definition PTR_MAX :: int where "PTR_MAX = 9999999"
definition NHASH_DEF :: nat where "NHASH_DEF = 137"
definition FREE_OFF :: int where "FREE_OFF = 0"
definition HASH_OFF :: int where "HASH_OFF = int PTR_SZ"
definition DB_INSERT :: int where "DB_INSERT = 1"
definition DB_REPLACE :: int where "DB_REPLACE = 2"
definition DB_STORE :: int where "DB_STORE = 3"
definition IDXLEN_MIN :: int where "IDXLEN_MIN = 6"
definition IDXLEN_MAX :: int where "IDXLEN_MAX = 1024"
definition DATLEN_MIN :: int where "DATLEN_MIN = 2"
definition DATLEN_MAX :: int where "DATLEN_MAX = 1024"

lemmas db_consts = IDXLEN_SZ_def SEP_def SPACE_def NEWLINE_def PTR_SZ_def PTR_MAX_def NHASH_DEF_def
  FREE_OFF_def HASH_OFF_def DB_INSERT_def DB_REPLACE_def DB_STORE_def IDXLEN_MIN_def IDXLEN_MAX_def
  DATLEN_MIN_def DATLEN_MAX_def EINVAL_def ENOENT_def NUL_def

section \<open>Record locks\<close>

text \<open>A record lock covers \<open>llen\<close> bytes from \<open>lstart\<close> on, or all bytes from there on when \<open>llen\<close>
  is 0. Locks of one process never conflict with each other; releasing a region removes the
  locks set on it.\<close>

datatype fdname = IDX | DAT

record rlock =
  lfd :: fdname
  lexclusive :: bool
  lstart :: int
  llen :: int

section \<open>The struct DB\<close>

record DB =
  idxfd :: ofile
  datfd :: ofile
  idxbuf :: string
  datbuf :: string
  name :: string
  idxoff :: int
  idxlen :: int
  datoff :: int
  datlen :: int
  ptrval :: int
  ptroff :: int
  chainoff :: int
  hashoff :: int
  nhash :: nat
  cnt_delok :: "64 word"
  cnt_delerr :: "64 word"
  cnt_fetchok :: "64 word"
  cnt_fetcherr :: "64 word"
  cnt_nextrec :: "64 word"
  cnt_stor1 :: "64 word"
  cnt_stor2 :: "64 word"
  cnt_stor3 :: "64 word"
  cnt_stor4 :: "64 word"
  cnt_storerr :: "64 word"
  locks :: "rlock list"
  errno :: int

text \<open>\<open>lock_reg\<close> of \<open>lib/lockreg.c\<close> with the types \<open>F_RDLCK\<close>, \<open>F_WRLCK\<close> (the wrappers \<open>readw_lock\<close>
  and \<open>writew_lock\<close>) and \<open>F_UNLCK\<close> (\<open>un_lock\<close>).\<close>

definition lock_reg :: "DB \<Rightarrow> fdname \<Rightarrow> bool \<Rightarrow> int \<Rightarrow> int \<Rightarrow> DB" where
  "lock_reg db fd excl offset len =
     db\<lparr>locks := \<lparr>lfd = fd, lexclusive = excl, lstart = offset, llen = len\<rparr> # locks db\<rparr>"

definition readw_lock :: "DB \<Rightarrow> fdname \<Rightarrow> int \<Rightarrow> int \<Rightarrow> DB" where
  "readw_lock db fd offset len = lock_reg db fd False offset len"

definition writew_lock :: "DB \<Rightarrow> fdname \<Rightarrow> int \<Rightarrow> int \<Rightarrow> DB" where
  "writew_lock db fd offset len = lock_reg db fd True offset len"

definition un_lock :: "DB \<Rightarrow> fdname \<Rightarrow> int \<Rightarrow> int \<Rightarrow> DB" where
  "un_lock db fd offset len =
     db\<lparr>locks := filter (\<lambda>l. \<not> (lfd l = fd \<and> lstart l = offset \<and> llen l = len)) (locks db)\<rparr>"

section \<open>Separators\<close>

text \<open>\<open>strchr(s, SEP)\<close>: the string before and behind the first separator.\<close>

definition strchr_sep :: "string \<Rightarrow> (string \<times> string) option" where
  "strchr_sep s = (if SEP \<in> set s
     then Some (takeWhile (\<lambda>c. c \<noteq> SEP) s, tl (dropWhile (\<lambda>c. c \<noteq> SEP) s)) else None)"

section \<open>Hashing, reading and writing of the index file\<close>

definition schar :: "char \<Rightarrow> int" where
  "schar c = (let n = of_char c in if n \<ge> 128 then n - 256 else n)"

fun hval :: "int \<Rightarrow> 64 word \<Rightarrow> string \<Rightarrow> 64 word" where
  "hval i h [] = h"
| "hval i h (c # key) = hval (i + 1) (h + word_of_int (schar c * i)) key"

definition db_hash :: "DB \<Rightarrow> string \<Rightarrow> nat" where
  "db_hash db key = unat (hval 1 0 key) mod nhash db"

definition db_readptr :: "DB \<Rightarrow> int \<Rightarrow> (int \<times> DB) option" where
  "db_readptr db offset = do {
     (_, f) \<leftarrow> lseek (idxfd db) offset SEEK_SET;
     let (asciiptr, f) = fd_read f PTR_SZ;
     if length asciiptr \<noteq> PTR_SZ then None
     else Some (atol (cstr asciiptr), db\<lparr>idxfd := f\<rparr>)
   }"

text \<open>\<open>_db_readidx\<close>: the result -1 is the end of the file for \<open>db_nextrec\<close>. The buffer \<open>idxbuf\<close>
  ends up holding the key, as its first separator is replaced by a null byte.\<close>

definition db_readidx :: "DB \<Rightarrow> int \<Rightarrow> (int \<times> DB) option" where
  "db_readidx db offset = do {
     (off, f) \<leftarrow> lseek (idxfd db) offset (if offset = 0 then SEEK_CUR else SEEK_SET);
     let db = db\<lparr>idxoff := off\<rparr>;
     let (s, f) = fd_read f (PTR_SZ + IDXLEN_SZ);
     if length s \<noteq> PTR_SZ + IDXLEN_SZ then
       (if length s = 0 \<and> offset = 0 then Some (-1, db\<lparr>idxfd := f\<rparr>) else None)
     else do {
       let asciiptr = take PTR_SZ s;
       let asciilen = drop PTR_SZ s;
       let db = db\<lparr>ptrval := atol (cstr asciiptr), idxlen := atoi (cstr asciilen)\<rparr>;
       if idxlen db < IDXLEN_MIN \<or> idxlen db > IDXLEN_MAX then None
       else do {
         let (b, f) = fd_read f (nat (idxlen db));
         let db = db\<lparr>idxfd := f\<rparr>;
         if int (length b) \<noteq> idxlen db then None
         else if last b \<noteq> NEWLINE then None
         else do {
           (key, rest) \<leftarrow> strchr_sep (cstr (butlast b));
           (ptr1, ptr2) \<leftarrow> strchr_sep rest;
           if SEP \<in> set ptr2 then None
           else do {
             let db = db\<lparr>idxbuf := key, datoff := atol ptr1, datlen := atol ptr2\<rparr>;
             if datoff db < 0 then None
             else if datlen db \<le> 0 \<or> datlen db > DATLEN_MAX then None
             else Some (ptrval db, db)
           }
         }
       }
     }
   }"

definition db_readdat :: "DB \<Rightarrow> (string \<times> DB) option" where
  "db_readdat db = do {
     (_, f) \<leftarrow> lseek (datfd db) (datoff db) SEEK_SET;
     let (b, f) = fd_read f (nat (datlen db));
     if int (length b) \<noteq> datlen db then None
     else if last b \<noteq> NEWLINE then None
     else Some (cstr (butlast b), db\<lparr>datfd := f, datbuf := cstr (butlast b)\<rparr>)
   }"

definition db_writedat :: "DB \<Rightarrow> string \<Rightarrow> int \<Rightarrow> whence \<Rightarrow> DB option" where
  "db_writedat db data offset whence = do {
     let db = (if whence = SEEK_END then writew_lock db DAT 0 0 else db);
     (off, f) \<leftarrow> lseek (datfd db) offset whence;
     let db = db\<lparr>datoff := off, datlen := int (length data) + 1, datfd := fd_write f (data @ [NEWLINE])\<rparr>;
     Some (if whence = SEEK_END then un_lock db DAT 0 0 else db)
   }"

text \<open>\<open>_db_writeidx\<close>, with the largest pointer as an argument since the two versions of the
  library differ in it. The buffer \<open>idxbuf\<close> has \<open>IDXLEN_MAX + 2\<close> bytes and is filled before
  the length is checked. \<open>_db_dodelete\<close> passes \<open>idxbuf\<close> itself as the key: there the source and the destination of
  \<open>sprintf\<close> overlap, which C leaves undefined; the model follows implementations that copy the key onto itself
  and append the rest.\<close>

definition db_writeidx :: "int \<Rightarrow> DB \<Rightarrow> string \<Rightarrow> int \<Rightarrow> whence \<Rightarrow> int \<Rightarrow> DB option" where
  "db_writeidx ptr_max db key offset whence ptr = do {
     let db = db\<lparr>ptrval := ptr\<rparr>;
     if ptr < 0 \<or> ptr > ptr_max then None
     else do {
       let buf = key @ [SEP] @ dec (nat (datoff db)) @ [SEP] @ dec (nat (datlen db)) @ [NEWLINE];
       let len = int (length buf);
       if len + 1 > IDXLEN_MAX + 2 then None
       else if len < IDXLEN_MIN \<or> len > IDXLEN_MAX then None
       else do {
         let db = db\<lparr>idxbuf := buf\<rparr>;
         let asciiptrlen = pad PTR_SZ (dec (nat ptr)) @ pad IDXLEN_SZ (dec (nat len));
         let db = (if whence = SEEK_END
                   then writew_lock db IDX (int ((nhash db + 1) * PTR_SZ) + 1) 0 else db);
         (off, f) \<leftarrow> lseek (idxfd db) offset whence;
         let db = db\<lparr>idxoff := off, idxfd := fd_write f (asciiptrlen @ buf)\<rparr>;
         Some (if whence = SEEK_END
               then un_lock db IDX (int ((nhash db + 1) * PTR_SZ) + 1) 0 else db)
       }
     }
   }"

definition db_writeptr :: "int \<Rightarrow> DB \<Rightarrow> int \<Rightarrow> int \<Rightarrow> DB option" where
  "db_writeptr ptr_max db offset ptr =
     (if ptr < 0 \<or> ptr > ptr_max then None
      else do {
        (_, f) \<leftarrow> lseek (idxfd db) offset SEEK_SET;
        Some (db\<lparr>idxfd := fd_write f (pad PTR_SZ (dec (nat ptr)))\<rparr>)
      })"

section \<open>Searching a hash chain\<close>

partial_function (option) find_loop :: "string \<Rightarrow> DB \<Rightarrow> int \<Rightarrow> (int \<times> DB) option" where
  "find_loop key db offset =
     (if offset \<noteq> 0 then do {
        (nextoffset, db) \<leftarrow> db_readidx db offset;
        if idxbuf db = key then Some (offset, db)
        else find_loop key (db\<lparr>ptroff := offset\<rparr>) nextoffset
      } else Some (offset, db))"

definition db_find_and_lock :: "DB \<Rightarrow> string \<Rightarrow> bool \<Rightarrow> (int \<times> DB) option" where
  "db_find_and_lock db key writelock = do {
     let db = db\<lparr>chainoff := int (db_hash db key * PTR_SZ) + hashoff db\<rparr>;
     let db = db\<lparr>ptroff := chainoff db\<rparr>;
     let db = (if writelock then writew_lock db IDX (chainoff db) 1 else readw_lock db IDX (chainoff db) 1);
     (offset, db) \<leftarrow> db_readptr db (ptroff db);
     (offset, db) \<leftarrow> find_loop key db offset;
     Some (if offset = 0 then -1 else 0, db)
   }"

section \<open>The operations of the library\<close>

definition db_fetch :: "DB \<Rightarrow> string \<Rightarrow> (string option \<times> DB) option" where
  "db_fetch db key = do {
     (rc, db) \<leftarrow> db_find_and_lock db key False;
     (ptr, db) \<leftarrow> (if rc < 0 then Some (None, db\<lparr>cnt_fetcherr := cnt_fetcherr db + 1\<rparr>)
        else do { (data, db) \<leftarrow> db_readdat db; Some (Some data, db\<lparr>cnt_fetchok := cnt_fetchok db + 1\<rparr>) });
     Some (ptr, un_lock db IDX (chainoff db) 1)
   }"

definition db_dodelete :: "int \<Rightarrow> DB \<Rightarrow> DB option" where
  "db_dodelete ptr_max db = do {
     let db = db\<lparr>datbuf := replicate (nat (datlen db - 1)) SPACE\<rparr>;
     let db = db\<lparr>idxbuf := replicate (length (idxbuf db)) SPACE\<rparr>;
     let db = writew_lock db IDX FREE_OFF 1;
     db \<leftarrow> db_writedat db (datbuf db) (datoff db) SEEK_SET;
     (freeptr, db) \<leftarrow> db_readptr db FREE_OFF;
     let saveptr = ptrval db;
     db \<leftarrow> db_writeidx ptr_max db (idxbuf db) (idxoff db) SEEK_SET freeptr;
     db \<leftarrow> db_writeptr ptr_max db FREE_OFF (idxoff db);
     db \<leftarrow> db_writeptr ptr_max db (ptroff db) saveptr;
     Some (un_lock db IDX FREE_OFF 1)
   }"

definition db_delete :: "int \<Rightarrow> DB \<Rightarrow> string \<Rightarrow> (int \<times> DB) option" where
  "db_delete ptr_max db key = do {
     (rc, db) \<leftarrow> db_find_and_lock db key True;
     (rc, db) \<leftarrow> (if rc = 0
        then do { db \<leftarrow> db_dodelete ptr_max db; Some (0, db\<lparr>cnt_delok := cnt_delok db + 1\<rparr>) }
        else Some (-1, db\<lparr>cnt_delerr := cnt_delerr db + 1\<rparr>));
     Some (rc, un_lock db IDX (chainoff db) 1)
   }"

text \<open>The loop of \<open>_db_findfree\<close> returns the final \<open>offset\<close> and \<open>saveoffset\<close>.\<close>

partial_function (option) findfree_loop :: "int \<Rightarrow> int \<Rightarrow> DB \<Rightarrow> int \<Rightarrow> int \<Rightarrow> (int \<times> int \<times> DB) option" where
  "findfree_loop keylen dlen db saveoffset offset =
     (if offset \<noteq> 0 then do {
        (nextoffset, db) \<leftarrow> db_readidx db offset;
        if int (length (idxbuf db)) = keylen \<and> datlen db = dlen then Some (offset, saveoffset, db)
        else findfree_loop keylen dlen db offset nextoffset
      } else Some (offset, saveoffset, db))"

definition db_findfree :: "int \<Rightarrow> DB \<Rightarrow> int \<Rightarrow> int \<Rightarrow> (int \<times> DB) option" where
  "db_findfree ptr_max db keylen dlen = do {
     let db = writew_lock db IDX FREE_OFF 1;
     (offset, db) \<leftarrow> db_readptr db FREE_OFF;
     (offset, saveoffset, db) \<leftarrow> findfree_loop keylen dlen db FREE_OFF offset;
     (rc, db) \<leftarrow> (if offset = 0 then Some (-1, db)
        else do { db \<leftarrow> db_writeptr ptr_max db saveoffset (ptrval db); Some (0, db) });
     Some (rc, un_lock db IDX FREE_OFF 1)
   }"

text \<open>The two ways in which \<open>db_store\<close> puts a new record at the front of its hash chain:
  appended to the two files, or into a free record.\<close>

definition store_append :: "int \<Rightarrow> DB \<Rightarrow> string \<Rightarrow> string \<Rightarrow> int \<Rightarrow> DB option" where
  "store_append ptr_max db key data ptr = do {
     db \<leftarrow> db_writedat db data 0 SEEK_END;
     db \<leftarrow> db_writeidx ptr_max db key 0 SEEK_END ptr;
     db_writeptr ptr_max db (chainoff db) (idxoff db)
   }"

definition store_reuse :: "int \<Rightarrow> DB \<Rightarrow> string \<Rightarrow> string \<Rightarrow> int \<Rightarrow> DB option" where
  "store_reuse ptr_max db key data ptr = do {
     db \<leftarrow> db_writedat db data (datoff db) SEEK_SET;
     db \<leftarrow> db_writeidx ptr_max db key (idxoff db) SEEK_SET ptr;
     db_writeptr ptr_max db (chainoff db) (idxoff db)
   }"

definition db_store :: "int \<Rightarrow> DB \<Rightarrow> string \<Rightarrow> string \<Rightarrow> int \<Rightarrow> (int \<times> DB) option" where
  "db_store ptr_max db key data flag =
     (if flag \<noteq> DB_INSERT \<and> flag \<noteq> DB_REPLACE \<and> flag \<noteq> DB_STORE then Some (-1, db\<lparr>errno := EINVAL\<rparr>)
      else do {
        let keylen = int (length key);
        let dlen = int (length data) + 1;
        if dlen < DATLEN_MIN \<or> dlen > DATLEN_MAX then None
        else do {
          (rc, db) \<leftarrow> db_find_and_lock db key True;
          (rc, db) \<leftarrow>
            (if rc < 0 then
               (if flag = DB_REPLACE then
                  Some (-1, db\<lparr>cnt_storerr := cnt_storerr db + 1, errno := ENOENT\<rparr>)
                else do {
                  (ptr, db) \<leftarrow> db_readptr db (chainoff db);
                  (rc, db) \<leftarrow> db_findfree ptr_max db keylen dlen;
                  db \<leftarrow> (if rc < 0
                     then do { db \<leftarrow> store_append ptr_max db key data ptr;
                               Some (db\<lparr>cnt_stor1 := cnt_stor1 db + 1\<rparr>) }
                     else do { db \<leftarrow> store_reuse ptr_max db key data ptr;
                               Some (db\<lparr>cnt_stor2 := cnt_stor2 db + 1\<rparr>) });
                  Some (0, db)
                })
             else
               (if flag = DB_INSERT then Some (1, db\<lparr>cnt_storerr := cnt_storerr db + 1\<rparr>)
                else if dlen \<noteq> datlen db then do {
                  db \<leftarrow> db_dodelete ptr_max db;
                  (ptr, db) \<leftarrow> db_readptr db (chainoff db);
                  db \<leftarrow> store_append ptr_max db key data ptr;
                  Some (0, db\<lparr>cnt_stor3 := cnt_stor3 db + 1\<rparr>)
                } else do {
                  db \<leftarrow> db_writedat db data (datoff db) SEEK_SET;
                  Some (0, db\<lparr>cnt_stor4 := cnt_stor4 db + 1\<rparr>)
                }));
          Some (rc, un_lock db IDX (chainoff db) 1)
        }
      })"

definition db_rewind :: "DB \<Rightarrow> DB option" where
  "db_rewind db = do {
     let offset = int ((nhash db + 1) * PTR_SZ);
     (off, f) \<leftarrow> lseek (idxfd db) (offset + 1) SEEK_SET;
     Some (db\<lparr>idxoff := off, idxfd := f\<rparr>)
   }"

text \<open>\<open>db_nextrec\<close>: the loop skips blank (deleted) index records; it yields \<^const>\<open>False\<close> at the end
  of the index file. The result is the key, which is copied to the caller's buffer, with the
  data.\<close>

partial_function (option) nextrec_loop :: "DB \<Rightarrow> (bool \<times> DB) option" where
  "nextrec_loop db = do {
     (r, db) \<leftarrow> db_readidx db 0;
     if r < 0 then Some (False, db)
     else if list_all (\<lambda>c. c = SPACE) (idxbuf db) then nextrec_loop db
     else Some (True, db)
   }"

definition db_nextrec :: "DB \<Rightarrow> ((string \<times> string) option \<times> DB) option" where
  "db_nextrec db = do {
     let db = readw_lock db IDX FREE_OFF 1;
     (found, db) \<leftarrow> nextrec_loop db;
     (ptr, db) \<leftarrow> (if \<not> found then Some (None, db)
        else do {
          let key = idxbuf db;
          (data, db) \<leftarrow> db_readdat db;
          Some (Some (key, data), db\<lparr>cnt_nextrec := cnt_nextrec db + 1\<rparr>)
        });
     Some (ptr, un_lock db IDX FREE_OFF 1)
   }"

declare find_loop.simps [code] findfree_loop.simps [code] nextrec_loop.simps [code]

section \<open>Opening and closing\<close>

text \<open>The file system maps path names to the contents of closed files. \<open>open\<close> fails for a file that does
  not exist unless \<open>O_CREAT\<close> is given, and empties the file if \<open>O_TRUNC\<close> is. Allocation is assumed to
  succeed; the fresh handle has every field zero (\<open>calloc\<close>).\<close>

record oflags =
  O_CREAT :: bool
  O_TRUNC :: bool

definition open_file :: "(string \<rightharpoonup> string) \<Rightarrow> string \<Rightarrow> oflags \<Rightarrow> (ofile \<times> (string \<rightharpoonup> string)) option" where
  "open_file fs path oflag =
     (case fs path of
        Some b \<Rightarrow> let b = (if O_TRUNC oflag then [] else b) in
                  Some (\<lparr>fbytes = b, fpos = 0\<rparr>, fs(path \<mapsto> b))
      | None \<Rightarrow> if O_CREAT oflag then Some (\<lparr>fbytes = [], fpos = 0\<rparr>, fs(path \<mapsto> [])) else None)"

definition db_alloc :: DB where
  "db_alloc = \<lparr>idxfd = \<lparr>fbytes = [], fpos = 0\<rparr>, datfd = \<lparr>fbytes = [], fpos = 0\<rparr>, idxbuf = [], datbuf = [],
     name = [], idxoff = 0, idxlen = 0, datoff = 0, datlen = 0, ptrval = 0, ptroff = 0, chainoff = 0,
     hashoff = 0, nhash = 0, cnt_delok = 0, cnt_delerr = 0, cnt_fetchok = 0, cnt_fetcherr = 0,
     cnt_nextrec = 0, cnt_stor1 = 0, cnt_stor2 = 0, cnt_stor3 = 0, cnt_stor4 = 0, cnt_storerr = 0,
     locks = [], errno = 0\<rparr>"

definition init_hash :: string where
  "init_hash = concat (replicate (NHASH_DEF + 1) (pad PTR_SZ (dec 0))) @ [NEWLINE]"

text \<open>\<open>db_open\<close> returns the handle, or \<^const>\<open>None\<close> for \<open>NULL\<close>, and the file system.\<close>

definition db_open :: "(string \<rightharpoonup> string) \<Rightarrow> string \<Rightarrow> oflags \<Rightarrow> (DB option \<times> (string \<rightharpoonup> string)) option" where
  "db_open fs pathname oflag = do {
     let db = db_alloc\<lparr>nhash := NHASH_DEF, hashoff := HASH_OFF, name := pathname @ ''.idx''\<rparr>;
     let (ifd, fs) = (case open_file fs (name db) oflag of Some (f, fs) \<Rightarrow> (Some f, fs) | None \<Rightarrow> (None, fs));
     let db = db\<lparr>name := pathname @ ''.dat''\<rparr>;
     let (dfd, fs) = (case open_file fs (name db) oflag of Some (f, fs) \<Rightarrow> (Some f, fs) | None \<Rightarrow> (None, fs));
     (case (ifd, dfd) of
        (Some i, Some d) \<Rightarrow> do {
          let db = db\<lparr>idxfd := i, datfd := d\<rparr>;
          let db = (if O_CREAT oflag \<and> O_TRUNC oflag then
             (let db = writew_lock db IDX 0 0;
                  db = (if fbytes (idxfd db) = [] then db\<lparr>idxfd := fd_write (idxfd db) init_hash\<rparr> else db)
              in un_lock db IDX 0 0) else db);
          db \<leftarrow> db_rewind db;
          Some (Some db, fs)
        }
      | _ \<Rightarrow> Some (None, fs))
   }"

text \<open>\<open>db_close\<close> closes both files, whose contents are then found in the file system, and drops
  the handle; closing releases the locks.\<close>

definition db_free :: "(string \<rightharpoonup> string) \<Rightarrow> DB \<Rightarrow> (string \<rightharpoonup> string)" where
  "db_free fs db = (let path = take (length (name db) - 4) (name db) in
     fs(path @ ''.idx'' \<mapsto> fbytes (idxfd db), path @ ''.dat'' \<mapsto> fbytes (datfd db)))"

definition db_close :: "(string \<rightharpoonup> string) \<Rightarrow> DB \<Rightarrow> (string \<rightharpoonup> string)" where
  "db_close fs h = db_free fs h"

end
