(* ===== verification/Db_Bytes.thy ===== *)
theory Db_Bytes
  imports Db_Model
begin

text \<open>
  The byte level of the database library: the decimal fields and index records, and
  the effect of the reading and writing functions of \<open>db.c\<close> on well-formed fields and
  records.
\<close>

section \<open>Decimal fields\<close>

text \<open>The chain pointer and the length field in front of an index record.\<close>

definition pfield :: "nat \<Rightarrow> string" where
  "pfield v = pad PTR_SZ (dec v)"

definition lfield :: "nat \<Rightarrow> string" where
  "lfield v = pad IDXLEN_SZ (dec v)"

lemma length_pfield [simp]: "v \<le> 9999999 \<Longrightarrow> length (pfield v) = 7"
  using length_dec [of v 7] by (simp add: pfield_def pad_def db_consts)

lemma length_lfield [simp]: "v \<le> 9999 \<Longrightarrow> length (lfield v) = 4"
  using length_dec [of v 4] by (simp add: lfield_def pad_def db_consts)

section \<open>Index records\<close>

definition body :: "string \<Rightarrow> nat \<Rightarrow> nat \<Rightarrow> string" where
  "body key d l = key @ [SEP] @ dec d @ [SEP] @ dec l @ [NEWLINE]"

definition rtail :: "string \<Rightarrow> nat \<Rightarrow> nat \<Rightarrow> string" where
  "rtail key d l = lfield (length (body key d l)) @ body key d l"

text \<open>The keys, offsets and lengths that make a record which the library can read back.\<close>

definition good_rec :: "string \<Rightarrow> nat \<Rightarrow> nat \<Rightarrow> bool" where
  "good_rec key d l \<longleftrightarrow> NUL \<notin> set key \<and> SEP \<notin> set key \<and> 6 \<le> length (body key d l) \<and>
     length (body key d l) \<le> 1024 \<and> d < 2 ^ 63 \<and> 0 < l \<and> l \<le> 1024"

lemma strchr_sep_append: "SEP \<notin> set s \<Longrightarrow> strchr_sep (s @ SEP # t) = Some (s, t)"
  by (auto simp: strchr_sep_def takeWhile_append dropWhile_append)

lemma dec_no_sep [simp]: "SEP \<notin> set (dec n)"
  using dec_isdigit [of SEP n] by (auto simp: isdigit_def SEP_def)

section \<open>Reading and writing\<close>

lemma db_readptr_eq:
  assumes "has (fbytes (idxfd db)) p (pfield v)" "v \<le> 9999999"
  shows "db_readptr db (int p) = Some (int v, db\<lparr>idxfd := (idxfd db)\<lparr>fpos := p + 7\<rparr>\<rparr>)"
proof -
  have "fd_read ((idxfd db)\<lparr>fpos := p\<rparr>) 7 = (pfield v, (idxfd db)\<lparr>fpos := p + 7\<rparr>)"
    using read_has [of "(idxfd db)\<lparr>fpos := p\<rparr>" "pfield v"] assms by simp
  moreover have "atol (pfield v) = int v" "cstr (pfield v) = pfield v"
    using assms(2) atol_pad [of v] by (simp_all add: pfield_def)
  moreover have "PTR_SZ = 7" by (simp add: PTR_SZ_def)
  ultimately show ?thesis using assms(2) by (simp add: db_readptr_def seek_set)
qed

text \<open>The record read at offset \<open>p\<close>, and the handle after reading it.\<close>

definition after_readidx :: "DB \<Rightarrow> nat \<Rightarrow> nat \<Rightarrow> string \<Rightarrow> nat \<Rightarrow> nat \<Rightarrow> DB" where
  "after_readidx db p v key d l =
     db\<lparr>idxoff := int p, ptrval := int v, idxlen := int (length (body key d l)),
        idxfd := (idxfd db)\<lparr>fpos := p + 11 + length (body key d l)\<rparr>,
        idxbuf := key, datoff := int d, datlen := int l\<rparr>"

text \<open>Reading the fixed fields and the body of a record leaves the parsing of the body.\<close>

definition parse_body :: "DB \<Rightarrow> string \<Rightarrow> (int \<times> DB) option" where
  "parse_body db b = do {
     (key, rest) \<leftarrow> strchr_sep (cstr (butlast b));
     (ptr1, ptr2) \<leftarrow> strchr_sep rest;
     if SEP \<in> set ptr2 then None
     else if atol ptr1 < 0 then None
     else if atol ptr2 \<le> 0 \<or> atol ptr2 > DATLEN_MAX then None
     else Some (ptrval db, db\<lparr>idxbuf := key, datoff := atol ptr1, datlen := atol ptr2\<rparr>)
   }"

lemma db_readidx_parse:
  assumes h: "has (fbytes (idxfd db)) p (pfield v)" "has (fbytes (idxfd db)) (p + 7) (rtail key d l)"
    and v: "v \<le> 9999999" and g: "6 \<le> length (body key d l)" "length (body key d l) \<le> 1024"
    and seek: "if q = 0 then fpos (idxfd db) = p else q = p"
  shows "db_readidx db (int q) = parse_body (db\<lparr>idxoff := int p, ptrval := int v, idxlen := int (length (body key d l)),
    idxfd := (idxfd db)\<lparr>fpos := p + 11 + length (body key d l)\<rparr>\<rparr>) (body key d l)"
proof -
  define b where "b = body key d l"
  have b: "6 \<le> length b" "length b \<le> 1024" using g by (auto simp: b_def)
  have hb: "has (fbytes (idxfd db)) p (pfield v @ lfield (length b))" "has (fbytes (idxfd db)) (p + 11) b"
    using h v b by (simp_all add: has_append rtail_def b_def add.commute)
  have s: "lseek (idxfd db) (int q) (if int q = 0 then SEEK_CUR else SEEK_SET) = Some (int p, (idxfd db)\<lparr>fpos := p\<rparr>)"
    using seek by (auto simp: lseek_def split: if_splits)
  have r1: "fd_read ((idxfd db)\<lparr>fpos := p\<rparr>) 11 = (pfield v @ lfield (length b), (idxfd db)\<lparr>fpos := p + 11\<rparr>)"
    using read_has [of "(idxfd db)\<lparr>fpos := p\<rparr>" "pfield v @ lfield (length b)"] hb(1) v b by simp
  have r2: "fd_read ((idxfd db)\<lparr>fpos := p + 11\<rparr>) (length b) = (b, (idxfd db)\<lparr>fpos := p + 11 + length b\<rparr>)"
    using read_has [of "(idxfd db)\<lparr>fpos := p + 11\<rparr>" b] hb(2) by simp
  have a: "atol (cstr (pfield v)) = int v" "atoi (cstr (lfield (length b))) = int (length b)"
    using v b by (simp_all add: pfield_def lfield_def atol_pad atoi_pad)
  have c: "IDXLEN_SZ = 4" "PTR_SZ = 7" "IDXLEN_MIN = 6" "IDXLEN_MAX = 1024" by (simp_all add: db_consts)
  have "last b = NEWLINE" by (simp add: b_def body_def)
  then show ?thesis
    using v b s r1 r2
    by (simp add: db_readidx_def c a Let_def parse_body_def del: of_nat_eq_0_iff flip: b_def cong: if_cong)
qed

lemma cstr_body: "NUL \<notin> set key \<Longrightarrow> cstr (butlast (body key d l)) = key @ SEP # dec d @ SEP # dec l"
proof -
  assume "NUL \<notin> set key"
  moreover have "butlast (body key d l) = key @ SEP # dec d @ SEP # dec l" by (simp add: body_def butlast_append)
  moreover have "NUL \<noteq> SEP" by (simp add: db_consts)
  ultimately show ?thesis by (simp add: cstr_id)
qed

lemma db_readidx_eq:
  assumes h: "has (fbytes (idxfd db)) p (pfield v)" "has (fbytes (idxfd db)) (p + 7) (rtail key d l)"
    and v: "v \<le> 9999999" and g: "good_rec key d l"
    and seek: "if q = 0 then fpos (idxfd db) = p else q = p"
  shows "db_readidx db (int q) = Some (int v, after_readidx db p v key d l)"
proof -
  have al: "atol (dec d) = int d" "atol (dec l) = int l"
    using g by (auto simp: good_rec_def intro!: atol_plain)
  show ?thesis
    using db_readidx_parse [OF h v _ _ seek] g al
    by (simp add: parse_body_def cstr_body strchr_sep_append good_rec_def after_readidx_def DATLEN_MAX_def)
qed

text \<open>A separator in the key makes the record unreadable.\<close>

lemma db_readidx_sep:
  assumes h: "has (fbytes (idxfd db)) p (pfield v)" "has (fbytes (idxfd db)) (p + 7) (rtail key d l)"
    and v: "v \<le> 9999999" and k: "SEP \<in> set key" "NUL \<notin> set key"
    and g: "6 \<le> length (body key d l)" "length (body key d l) \<le> 1024" and p: "0 < p"
  shows "db_readidx db (int p) = None"
proof -
  obtain k1 k2 where k12: "key = k1 @ SEP # k2" "SEP \<notin> set k1" using split_list_first [OF k(1)] by blast
  have "\<exists>s t. strchr_sep (k2 @ SEP # dec d @ SEP # dec l) = Some (s, t) \<and> SEP \<in> set t"
  proof (cases "SEP \<in> set k2")
    case True
    then obtain k3 k4 where "k2 = k3 @ SEP # k4" "SEP \<notin> set k3" using split_list_first by metis
    then show ?thesis by (simp add: strchr_sep_append)
  qed (simp add: strchr_sep_append)
  then show ?thesis
    using db_readidx_parse [OF h v g, of p] p k12 k(2) by (auto simp: parse_body_def cstr_body strchr_sep_append)
qed

lemma db_readdat_eq:
  assumes h: "has (fbytes (datfd db)) d (s @ [NEWLINE])" and s: "NUL \<notin> set s"
    and db: "datoff db = int d" "datlen db = int (length s) + 1"
  shows "db_readdat db = Some (s, db\<lparr>datfd := (datfd db)\<lparr>fpos := d + length s + 1\<rparr>, datbuf := s\<rparr>)"
proof -
  have "fd_read ((datfd db)\<lparr>fpos := d\<rparr>) (nat (datlen db)) = (s @ [NEWLINE], (datfd db)\<lparr>fpos := d + length s + 1\<rparr>)"
    using read_has [of "(datfd db)\<lparr>fpos := d\<rparr>" "s @ [NEWLINE]"] h db(2) by (simp add: nat_add_distrib)
  then show ?thesis using db s by (simp add: db_readdat_def seek_set cstr_id)
qed

lemma db_writeptr_eq:
  assumes "int v \<le> ptr_max"
  shows "db_writeptr ptr_max db (int p) (int v) = Some (db\<lparr>idxfd :=
    \<lparr>fbytes = overwrite (fbytes (idxfd db)) p (pfield v), fpos = p + length (pfield v)\<rparr>\<rparr>)"
  using assms by (simp add: db_writeptr_def seek_set fd_write_def flip: pfield_def)

lemma db_writedat_set:
  "db_writedat db data (int d) SEEK_SET = Some (db\<lparr>datoff := int d, datlen := int (length data) + 1,
     datfd := \<lparr>fbytes = overwrite (fbytes (datfd db)) d (data @ [NEWLINE]), fpos = d + length data + 1\<rparr>\<rparr>)"
  by (simp add: db_writedat_def seek_set fd_write_def Let_def)

lemma db_writedat_end:
  assumes "locks db = ls" "\<forall>l\<in>set ls. lfd l = IDX" "length (fbytes (datfd db)) = d"
  shows "db_writedat db data 0 SEEK_END = Some (db\<lparr>datoff := int d, datlen := int (length data) + 1,
     datfd := \<lparr>fbytes = overwrite (fbytes (datfd db)) d (data @ [NEWLINE]), fpos = d + length data + 1\<rparr>\<rparr>)"
proof -
  have "filter (\<lambda>l. lfd l = DAT \<longrightarrow> lstart l = 0 \<longrightarrow> llen l \<noteq> 0) ls = ls"
    using assms(2) by (simp add: filter_id_conv)
  then show ?thesis
    using assms by (simp add: db_writedat_def fd_write_def Let_def writew_lock_def lock_reg_def un_lock_def seek_end)
qed

lemma db_writeidx_set:
  assumes "int v \<le> ptr_max" "datoff db = int d" "datlen db = int l"
    "6 \<le> length (body key d l)" "length (body key d l) \<le> 1024"
  shows "db_writeidx ptr_max db key (int p) SEEK_SET (int v) = Some (db\<lparr>ptrval := int v,
    idxbuf := body key d l, idxoff := int p,
    idxfd := \<lparr>fbytes = overwrite (fbytes (idxfd db)) p (pfield v @ rtail key d l),
      fpos = p + length (pfield v @ rtail key d l)\<rparr>\<rparr>)"
  using assms
  by (simp add: db_writeidx_def seek_set fd_write_def Let_def IDXLEN_MIN_def IDXLEN_MAX_def rtail_def
      pfield_def lfield_def flip: body_def [simplified])

lemma db_writeidx_end:
  assumes "int v \<le> ptr_max" "datoff db = int d" "datlen db = int l"
    "6 \<le> length (body key d l)" "length (body key d l) \<le> 1024"
    "locks db = ls" "\<forall>l\<in>set ls. llen l \<noteq> 0" "length (fbytes (idxfd db)) = p"
  shows "db_writeidx ptr_max db key 0 SEEK_END (int v) = Some (db\<lparr>ptrval := int v,
    idxbuf := body key d l, idxoff := int p,
    idxfd := \<lparr>fbytes = overwrite (fbytes (idxfd db)) p (pfield v @ rtail key d l),
      fpos = p + length (pfield v @ rtail key d l)\<rparr>\<rparr>)"
proof -
  have "filter (\<lambda>l. lfd l = IDX \<longrightarrow> lstart l = x \<longrightarrow> llen l \<noteq> 0) ls = ls" for x
    using assms(7) by (simp add: filter_id_conv)
  then show ?thesis
    using assms
    by (simp add: db_writeidx_def fd_write_def Let_def IDXLEN_MIN_def IDXLEN_MAX_def rtail_def
        pfield_def lfield_def writew_lock_def lock_reg_def un_lock_def seek_end flip: body_def [simplified])
qed

end
