(* ===== verification/Db_Chains.thy ===== *)
theory Db_Chains
  imports Db_Bytes
begin

text \<open>
  The two files of the database library as a linked structure. The index file starts with the
  free-list pointer and 137 hash-chain pointers and continues with index records, one behind
  the other; the data file holds the data records in the same order. \<open>idx_view\<close> and \<open>dat_view\<close>
  relate the bytes to a pointer map, the record contents and the data; each way of writing
  the files is an update of these maps. Chains are paths in the pointer map.
\<close>

section \<open>Records one behind the other\<close>

fun contig :: "(nat \<Rightarrow> nat) \<Rightarrow> (nat \<Rightarrow> nat) \<Rightarrow> nat \<Rightarrow> nat list \<Rightarrow> nat \<Rightarrow> bool" where
  "contig off sz s [] e = (s = e)"
| "contig off sz s (r # rs) e = (off r = s \<and> contig off sz (s + sz r) rs e)"

lemma contig_le: "contig off sz s rs e \<Longrightarrow> s \<le> e"
  by (induction rs arbitrary: s) (auto dest: add_leD1)

lemma contig_bounds:
  "contig off sz s rs e \<Longrightarrow> r \<in> set rs \<Longrightarrow> s \<le> off r \<and> off r + sz r \<le> e"
proof (induction rs arbitrary: s)
  case (Cons a rs)
  then show ?case using contig_le [of off sz "s + sz a" rs e] by (cases "r = a") force+
qed simp

lemma contig_disjoint:
  "contig off sz s rs e \<Longrightarrow> r \<in> set rs \<Longrightarrow> q \<in> set rs \<Longrightarrow> r \<noteq> q \<Longrightarrow>
   off r + sz r \<le> off q \<or> off q + sz q \<le> off r"
proof (induction rs arbitrary: s)
  case (Cons a rs)
  then consider "r = a" "q \<in> set rs" | "q = a" "r \<in> set rs" | "r \<in> set rs" "q \<in> set rs" by auto
  then show ?case using Cons contig_bounds [of off sz "s + sz a" rs e] by cases auto
qed simp

lemma contig_append:
  "contig off sz s rs e \<Longrightarrow> off r = e \<Longrightarrow> contig off sz s (rs @ [r]) (e + sz r)"
  by (induction rs arbitrary: s) auto

lemma contig_cong:
  "contig off sz s rs e \<Longrightarrow> (\<And>r. r \<in> set rs \<Longrightarrow> off' r = off r \<and> sz' r = sz r) \<Longrightarrow> contig off' sz' s rs e"
  by (induction rs arbitrary: s) auto

section \<open>The index file\<close>

text \<open>The places of chain pointers: the free-list pointer, the 137 hash pointers, the records.\<close>

definition nodes :: "nat list \<Rightarrow> nat set" where
  "nodes rs = (\<lambda>i. 7 * i) ` {..137} \<union> set rs"

definition idx_view :: "string \<Rightarrow> nat list \<Rightarrow> (nat \<Rightarrow> nat) \<Rightarrow> (nat \<Rightarrow> string) \<Rightarrow> bool" where
  "idx_view b rs F T \<longleftrightarrow>
     contig (\<lambda>r. r) (\<lambda>r. 7 + length (T r)) 967 rs (length b) \<and>
     (\<forall>n \<in> nodes rs. has b n (pfield (F n)) \<and> F n \<le> 9999999) \<and>
     (\<forall>r \<in> set rs. has b (r + 7) (T r))"

lemma idx_viewD:
  assumes "idx_view b rs F T"
  shows "contig (\<lambda>r. r) (\<lambda>r. 7 + length (T r)) 967 rs (length b)"
    and "n \<in> nodes rs \<Longrightarrow> has b n (pfield (F n))" and "n \<in> nodes rs \<Longrightarrow> F n \<le> 9999999"
    and "r \<in> set rs \<Longrightarrow> has b (r + 7) (T r)"
  using assms by (auto simp: idx_view_def)

lemma head_node [simp]: "0 \<in> nodes rs" "h < 137 \<Longrightarrow> 7 + 7 * h \<in> nodes rs" "r \<in> set rs \<Longrightarrow> r \<in> nodes rs"
proof -
  show "0 \<in> nodes rs" by (auto simp: nodes_def)
  show "r \<in> set rs \<Longrightarrow> r \<in> nodes rs" by (simp add: nodes_def)
  show "h < 137 \<Longrightarrow> 7 + 7 * h \<in> nodes rs"
    by (auto simp: nodes_def image_iff intro!: disjI1 bexI [of _ "Suc h"])
qed

lemma node_apart:
  assumes c: "contig (\<lambda>r. r) (\<lambda>r. 7 + length (T r)) 967 rs e" and n: "n \<in> nodes rs" "m \<in> nodes rs" "n \<noteq> m"
  shows "n + 7 \<le> m \<or> m + 7 \<le> n"
proof -
  have low: "967 \<le> r" if "r \<in> set rs" for r using contig_bounds [OF c that] by simp
  from n consider i j where "n = 7 * i" "m = 7 * j" "i \<le> 137" "j \<le> 137"
    | i where "n = 7 * i" "i \<le> 137" "m \<in> set rs" | j where "m = 7 * j" "j \<le> 137" "n \<in> set rs"
    | "n \<in> set rs" "m \<in> set rs"
    by (auto simp: nodes_def)
  then show ?thesis
  proof cases
    case 4
    then show ?thesis using contig_disjoint [OF c, of n m] n(3) by auto
  qed (use n(3) low in \<open>force+\<close>)
qed

lemma node_tail_apart:
  assumes c: "contig (\<lambda>r. r) (\<lambda>r. 7 + length (T r)) 967 rs e" and n: "n \<in> nodes rs" "r \<in> set rs"
  shows "n + 7 \<le> r + 7 \<or> r + 7 + length (T r) \<le> n"
proof -
  have low: "967 \<le> r" using contig_bounds [OF c n(2)] by simp
  from n(1) consider i where "n = 7 * i" "i \<le> 137" | "n \<in> set rs" by (auto simp: nodes_def)
  then show ?thesis
  proof cases
    case 2
    then show ?thesis using contig_disjoint [OF c, of n r] n(2) by (cases "n = r") auto
  qed (use low in auto)
qed

lemma node_end:
  assumes c: "contig (\<lambda>r. r) (\<lambda>r. 7 + length (T r)) 967 rs e" and n: "n \<in> nodes rs"
  shows "n + 7 \<le> e"
  using n contig_le [OF c] contig_bounds [OF c, of n] by (auto simp: nodes_def)

text \<open>Writing a pointer field.\<close>

lemma idx_view_ptr:
  assumes v: "idx_view b rs F T" and p: "p \<in> nodes rs" "w \<le> 9999999"
  shows "idx_view (overwrite b p (pfield w)) rs (F(p := w)) T"
proof -
  note c = idx_viewD(1) [OF v]
  have e: "p + 7 \<le> length b" using node_end [OF c p(1)] .
  have len: "length (overwrite b p (pfield w)) = length b" using e p(2) by (simp add: length_overwrite)
  have "has (overwrite b p (pfield w)) n (pfield ((F(p := w)) n))" if n: "n \<in> nodes rs" for n
  proof (cases "n = p")
    case True
    then show ?thesis using e by (simp add: has_overwrite_same)
  next
    case False
    then show ?thesis
      using has_overwrite_other [OF idx_viewD(2) [OF v n], of p "pfield w"] node_apart [OF c n p(1)]
        idx_viewD(3) [OF v n] p(2) e by auto
  qed
  moreover have "has (overwrite b p (pfield w)) (r + 7) (T r)" if r: "r \<in> set rs" for r
    using has_overwrite_other [OF idx_viewD(4) [OF v r], of p "pfield w"] node_tail_apart [OF c p(1) r] p(2) e
    by auto
  ultimately show ?thesis using v c len p(2) by (auto simp: idx_view_def)
qed

text \<open>Rewriting an index record in place, with contents of the same length.\<close>

lemma idx_view_slot:
  assumes v: "idx_view b rs F T" and p: "p \<in> set rs" "w \<le> 9999999" "length t = length (T p)"
  shows "idx_view (overwrite b p (pfield w @ t)) rs (F(p := w)) (T(p := t))"
proof -
  note c = idx_viewD(1) [OF v]
  have e: "p + 7 + length t \<le> length b" using contig_bounds [OF c p(1)] p(3) by simp
  have len: "length (overwrite b p (pfield w @ t)) = length b" using e p(2) by (simp add: length_overwrite)
  have same: "has (overwrite b p (pfield w @ t)) p (pfield w)" "has (overwrite b p (pfield w @ t)) (p + 7) t"
    using has_overwrite_same [of p b "pfield w @ t"] e p(2) by (simp_all add: has_append)
  have "has (overwrite b p (pfield w @ t)) n (pfield ((F(p := w)) n))" if n: "n \<in> nodes rs" for n
  proof (cases "n = p")
    case False
    then show ?thesis
      using has_overwrite_other [OF idx_viewD(2) [OF v n], of p "pfield w @ t"] node_apart [OF c n _ False]
        node_tail_apart [OF c n p(1)] idx_viewD(3) [OF v n] p e by auto
  qed (use same in simp)
  moreover have "has (overwrite b p (pfield w @ t)) (r + 7) ((T(p := t)) r)" if r: "r \<in> set rs" for r
  proof (cases "r = p")
    case False
    then show ?thesis
      using has_overwrite_other [OF idx_viewD(4) [OF v r], of p "pfield w @ t"]
        contig_disjoint [OF c r p(1) False] p e by auto
  qed (use same in simp)
  moreover have "contig (\<lambda>r. r) (\<lambda>r. 7 + length ((T(p := t)) r)) 967 rs (length b)"
    using p(3) by (intro contig_cong [OF c]) auto
  ultimately show ?thesis using v len p(2) by (auto simp: idx_view_def)
qed

text \<open>Appending an index record.\<close>

lemma idx_view_append:
  assumes v: "idx_view b rs F T" and p: "p = length b" "w \<le> 9999999"
  shows "idx_view (overwrite b p (pfield w @ t)) (rs @ [p]) (F(p := w)) (T(p := t))" and "p \<notin> set rs"
proof -
  note c = idx_viewD(1) [OF v]
  show new: "p \<notin> set rs" using contig_bounds [OF c] p(1) by force
  have len: "length (overwrite b p (pfield w @ t)) = length b + (7 + length t)"
    using p by (simp add: length_overwrite)
  have same: "has (overwrite b p (pfield w @ t)) p (pfield w)" "has (overwrite b p (pfield w @ t)) (p + 7) t"
    using has_overwrite_same [of p b "pfield w @ t"] p by (simp_all add: has_append)
  have "has (overwrite b p (pfield w @ t)) n (pfield ((F(p := w)) n))" if n: "n \<in> nodes (rs @ [p])" for n
  proof (cases "n = p")
    case False
    then have n': "n \<in> nodes rs" using n by (auto simp: nodes_def)
    show ?thesis
      using has_overwrite_other [OF idx_viewD(2) [OF v n'], of p "pfield w @ t"] node_end [OF c n']
        idx_viewD(3) [OF v n'] p False by auto
  qed (use same in simp)
  moreover have "has (overwrite b p (pfield w @ t)) (r + 7) ((T(p := t)) r)" if r: "r \<in> set (rs @ [p])" for r
  proof (cases "r = p")
    case False
    then have r': "r \<in> set rs" using r by simp
    show ?thesis
      using has_overwrite_other [OF idx_viewD(4) [OF v r'], of p "pfield w @ t"] contig_bounds [OF c r'] p False
      by auto
  qed (use same in simp)
  moreover have "contig (\<lambda>r. r) (\<lambda>r. 7 + length ((T(p := t)) r)) 967 rs (length b)"
    using new by (intro contig_cong [OF c]) auto
  from contig_append [OF this, of p]
  have "contig (\<lambda>r. r) (\<lambda>r. 7 + length ((T(p := t)) r)) 967 (rs @ [p]) (length b + (7 + length t))"
    using p(1) by simp
  moreover have "(F(p := w)) n \<le> 9999999" if "n \<in> nodes (rs @ [p])" for n
    using that idx_viewD(3) [OF v, of n] p(2) by (auto simp: nodes_def)
  ultimately show "idx_view (overwrite b p (pfield w @ t)) (rs @ [p]) (F(p := w)) (T(p := t))"
    unfolding idx_view_def len by blast
qed

section \<open>The data file\<close>

definition dat_view :: "string \<Rightarrow> nat list \<Rightarrow> (nat \<Rightarrow> nat) \<Rightarrow> (nat \<Rightarrow> string) \<Rightarrow> bool" where
  "dat_view b rs D V \<longleftrightarrow> contig D (\<lambda>r. Suc (length (V r))) 0 rs (length b) \<and>
     (\<forall>r \<in> set rs. has b (D r) (V r @ [NEWLINE]))"

lemma dat_view_slot:
  assumes v: "dat_view b rs D V" and p: "p \<in> set rs" "length s = length (V p)"
  shows "dat_view (overwrite b (D p) (s @ [NEWLINE])) rs D (V(p := s))"
proof -
  have c: "contig D (\<lambda>r. Suc (length (V r))) 0 rs (length b)" using v by (simp add: dat_view_def)
  have e: "D p + Suc (length s) \<le> length b" using contig_bounds [OF c p(1)] p(2) by simp
  have "has (overwrite b (D p) (s @ [NEWLINE])) (D r) ((V(p := s)) r @ [NEWLINE])" if r: "r \<in> set rs" for r
  proof (cases "r = p")
    case True
    then show ?thesis using e has_overwrite_same [of "D p" b "s @ [NEWLINE]"] by simp
  next
    case False
    have "has b (D r) (V r @ [NEWLINE])" using v r by (simp add: dat_view_def)
    from has_overwrite_other [OF this, of "D p" "s @ [NEWLINE]"] contig_disjoint [OF c r p(1) False] False p(2) e
    show ?thesis by auto
  qed
  moreover have "contig D (\<lambda>r. Suc (length ((V(p := s)) r))) 0 rs (length b)"
    using p(2) by (intro contig_cong [OF c]) auto
  ultimately show ?thesis using e by (simp add: dat_view_def length_overwrite max_def)
qed

lemma dat_view_append:
  assumes v: "dat_view b rs D V" and p: "p \<notin> set rs" "d = length b"
  shows "dat_view (overwrite b d (s @ [NEWLINE])) (rs @ [p]) (D(p := d)) (V(p := s))"
proof -
  have c: "contig D (\<lambda>r. Suc (length (V r))) 0 rs (length b)" using v by (simp add: dat_view_def)
  have "has (overwrite b d (s @ [NEWLINE])) ((D(p := d)) r) ((V(p := s)) r @ [NEWLINE])"
    if r: "r \<in> set (rs @ [p])" for r
  proof (cases "r = p")
    case True
    then show ?thesis using p has_overwrite_same [of d b "s @ [NEWLINE]"] by simp
  next
    case False
    then have r': "r \<in> set rs" using r by simp
    have "has b (D r) (V r @ [NEWLINE])" using v r' by (simp add: dat_view_def)
    from has_overwrite_other [OF this, of d "s @ [NEWLINE]"] hasD(1) [OF this] False p
    show ?thesis by auto
  qed
  moreover have "contig (D(p := d)) (\<lambda>r. Suc (length ((V(p := s)) r))) 0 rs (length b)"
    using p(1) by (intro contig_cong [OF c]) auto
  from contig_append [OF this, of p]
  have "contig (D(p := d)) (\<lambda>r. Suc (length ((V(p := s)) r))) 0 (rs @ [p]) (length b + Suc (length s))"
    using p by simp
  ultimately show ?thesis using p(2) by (auto simp: dat_view_def length_overwrite max_def)
qed

section \<open>Chains\<close>

text \<open>\<open>path F n rs\<close>: the pointer at \<open>n\<close> starts the chain of the records \<open>rs\<close>, which ends with 0.\<close>

fun path :: "(nat \<Rightarrow> nat) \<Rightarrow> nat \<Rightarrow> nat list \<Rightarrow> bool" where
  "path F n [] = (F n = 0)"
| "path F n (r # rs) = (F n = r \<and> path F r rs)"

lemma path_upd [simp]: "p \<noteq> n \<Longrightarrow> p \<notin> set rs \<Longrightarrow> path (F(p := v)) n rs = path F n rs"
  by (induction rs arbitrary: n) auto

lemma path_split: "path F n (xs @ r # ys) \<Longrightarrow> F (last (n # xs)) = r \<and> path F r ys"
  by (induction xs arbitrary: n) auto

lemma path_remove:
  "path F n (xs @ r # ys) \<Longrightarrow> distinct (n # xs @ r # ys) \<Longrightarrow> path (F(last (n # xs) := F r)) n (xs @ ys)"
proof (induction xs arbitrary: n)
  case Nil
  then show ?case by (cases ys) (simp_all del: fun_upd_apply, simp_all)
next
  case (Cons x xs)
  have "last (x # xs) \<noteq> n" using Cons.prems(2) by (metis append_Cons distinct.simps(2) last_in_set list.discI
      set_append Un_iff)
  with Cons show ?case by simp
qed

lemma path_push:
  "path F n rs \<Longrightarrow> r \<notin> set rs \<Longrightarrow> r \<noteq> n \<Longrightarrow> n \<notin> set rs \<Longrightarrow> path (F(r := F n, n := r)) n (r # rs)"
  by (cases rs) auto

end
