(* ===== verification/Db_Refine.thy ===== *)
theory Db_Refine
  imports Db_Chains
begin

text \<open>
  The database library refines a finite map from keys to data. An \<open>image\<close> describes the
  contents of the two files: the index records with their keys, data and pointers, the free
  list and the hash chains. \<open>represents\<close> relates it to a handle; \<open>lookup\<close> is the abstract map.
  The theory shows what searching, fetching, deleting and storing do to the image.
\<close>

section \<open>Images\<close>

record image =
  slots :: "nat list"
  ptr :: "nat \<Rightarrow> nat"
  keyof :: "nat \<Rightarrow> string"
  datof :: "nat \<Rightarrow> nat"
  valof :: "nat \<Rightarrow> string"
  free :: "nat list"
  chains :: "nat \<Rightarrow> nat list"

definition hashk :: "string \<Rightarrow> nat" where
  "hashk key = unat (hval 1 0 key) mod 137"

lemma hashk_less [simp]: "hashk key < 137"
  by (simp add: hashk_def)

definition tail_of :: "image \<Rightarrow> nat \<Rightarrow> string" where
  "tail_of im r = rtail (keyof im r) (datof im r) (Suc (length (valof im r)))"

definition slot_ok :: "int \<Rightarrow> image \<Rightarrow> nat \<Rightarrow> bool" where
  "slot_ok ptr_max im r \<longleftrightarrow> 967 \<le> r \<and> int r \<le> ptr_max \<and> NUL \<notin> set (valof im r) \<and>
     good_rec (keyof im r) (datof im r) (Suc (length (valof im r)))"

definition links_ok :: "image \<Rightarrow> bool" where
  "links_ok im \<longleftrightarrow> path (ptr im) 0 (free im) \<and> (\<forall>h < 137. path (ptr im) (7 + 7 * h) (chains im h))"

definition sets_ok :: "image \<Rightarrow> bool" where
  "sets_ok im \<longleftrightarrow> set (slots im) = set (free im) \<union> (\<Union>h < 137. set (chains im h)) \<and> distinct (free im) \<and>
     (\<forall>h < 137. set (free im) \<inter> set (chains im h) = {})"

definition keys_ok :: "image \<Rightarrow> bool" where
  "keys_ok im \<longleftrightarrow> (\<forall>h < 137. distinct (map (keyof im) (chains im h)) \<and> (\<forall>r \<in> set (chains im h). hashk (keyof im r) = h)) \<and>
     (\<forall>r \<in> set (free im). \<forall>c \<in> set (keyof im r). c = SPACE)"

definition image_ok :: "int \<Rightarrow> image \<Rightarrow> bool" where
  "image_ok ptr_max im \<longleftrightarrow> 0 \<le> ptr_max \<and> ptr_max \<le> 9999999 \<and> (\<forall>r \<in> set (slots im). slot_ok ptr_max im r) \<and>
     links_ok im \<and> sets_ok im \<and> keys_ok im"

definition stored :: "int \<Rightarrow> image \<Rightarrow> DB \<Rightarrow> bool" where
  "stored ptr_max im db \<longleftrightarrow> image_ok ptr_max im \<and> nhash db = 137 \<and> hashoff db = 7 \<and>
     idx_view (fbytes (idxfd db)) (slots im) (ptr im) (tail_of im) \<and>
     dat_view (fbytes (datfd db)) (slots im) (datof im) (valof im)"

text \<open>Between the operations of the library no lock is held.\<close>

definition represents :: "int \<Rightarrow> image \<Rightarrow> DB \<Rightarrow> bool" where
  "represents ptr_max im db \<longleftrightarrow> stored ptr_max im db \<and> locks db = []"

definition lookup :: "image \<Rightarrow> string \<Rightarrow> string option" where
  "lookup im key = map_option (valof im) (find (\<lambda>r. keyof im r = key) (chains im (hashk key)))"

lemmas image_defs = image_ok_def links_ok_def sets_ok_def keys_ok_def

lemma storedD:
  assumes "stored ptr_max im db"
  shows "r \<in> set (slots im) \<Longrightarrow> slot_ok ptr_max im r"
    and "h < 137 \<Longrightarrow> path (ptr im) (7 + 7 * h) (chains im h)" and "path (ptr im) 0 (free im)"
    and "h < 137 \<Longrightarrow> r \<in> set (chains im h) \<Longrightarrow> r \<in> set (slots im)"
    and "r \<in> set (free im) \<Longrightarrow> r \<in> set (slots im)"
    and "h < 137 \<Longrightarrow> distinct (chains im h)" and "distinct (free im)"
    and "0 \<le> ptr_max" "ptr_max \<le> 9999999"
  using assms by (auto simp: stored_def image_defs distinct_map)

lemma stored_views:
  assumes "stored ptr_max im db"
  shows "idx_view (fbytes (idxfd db)) (slots im) (ptr im) (tail_of im)"
    and "dat_view (fbytes (datfd db)) (slots im) (datof im) (valof im)"
  using assms by (auto simp: stored_def)

section \<open>What reading does\<close>

text \<open>\<open>keeps db db'\<close>: the files, the locks, the current chain and the parameters of the hash
  table are the same.\<close>

definition keeps :: "DB \<Rightarrow> DB \<Rightarrow> bool" where
  "keeps db db' \<longleftrightarrow> fbytes (idxfd db') = fbytes (idxfd db) \<and> fbytes (datfd db') = fbytes (datfd db) \<and>
     locks db' = locks db \<and> chainoff db' = chainoff db \<and> nhash db' = nhash db \<and> hashoff db' = hashoff db"

lemma keeps_refl [simp]: "keeps db db"
  by (simp add: keeps_def)

lemma keeps_trans [trans]: "keeps a b \<Longrightarrow> keeps b c \<Longrightarrow> keeps a c"
  by (simp add: keeps_def)

lemma stored_keeps: "keeps db db' \<Longrightarrow> stored ptr_max im db \<Longrightarrow> stored ptr_max im db'"
  by (simp add: keeps_def stored_def)

lemma readptr_node:
  assumes "stored ptr_max im db" "n \<in> nodes (slots im)"
  shows "\<exists>db'. db_readptr db (int n) = Some (int (ptr im n), db') \<and> keeps db db' \<and>
    idxoff db' = idxoff db \<and> ptrval db' = ptrval db \<and> ptroff db' = ptroff db \<and> idxbuf db' = idxbuf db \<and>
    datoff db' = datoff db \<and> datlen db' = datlen db"
proof -
  note v = idx_viewD(2,3) [OF stored_views(1) [OF assms(1)] assms(2)]
  show ?thesis unfolding db_readptr_eq [OF v] by (simp add: keeps_def)
qed

text \<open>The handle describes the record \<open>r\<close>, as \<open>_db_readidx\<close> leaves it.\<close>

definition at_rec :: "image \<Rightarrow> nat \<Rightarrow> DB \<Rightarrow> bool" where
  "at_rec im r db \<longleftrightarrow> idxoff db = int r \<and> ptrval db = int (ptr im r) \<and> idxbuf db = keyof im r \<and>
     datoff db = int (datof im r) \<and> datlen db = int (Suc (length (valof im r)))"

lemma readidx_slot:
  assumes "stored ptr_max im db" "r \<in> set (slots im)"
  shows "\<exists>db'. db_readidx db (int r) = Some (int (ptr im r), db') \<and> keeps db db' \<and>
    ptroff db' = ptroff db \<and> at_rec im r db'"
proof -
  note v = stored_views(1) [OF assms(1)]
  have ok: "slot_ok ptr_max im r" using storedD(1) [OF assms] .
  show ?thesis
    using db_readidx_eq [of db r "ptr im r" "keyof im r" "datof im r" "Suc (length (valof im r))" r]
      idx_viewD(2,3) [OF v, of r] idx_viewD(4) [OF v assms(2)] assms(2) ok
    by (simp add: slot_ok_def tail_of_def after_readidx_def keeps_def at_rec_def)
qed

lemma path_succ: "path F n rs \<Longrightarrow> q = n \<or> q \<in> set rs \<Longrightarrow> F q = 0 \<or> F q \<in> set rs"
proof (induction rs arbitrary: n)
  case (Cons r rs)
  then show ?case using Cons.IH [of r] by (cases "q = n") auto
qed simp

lemma ptr_bound:
  assumes st: "stored ptr_max im db" and q: "q \<in> nodes (slots im)"
  shows "int (ptr im q) \<le> ptr_max"
proof -
  have slot: "int (ptr im q) \<le> ptr_max" if "path (ptr im) n rs" "q = n \<or> q \<in> set rs" "set rs \<subseteq> set (slots im)" for n rs
    using path_succ [OF that(1,2)] that(3) storedD(1) [OF st] storedD(8) [OF st] by (auto simp: slot_ok_def)
  have "set (slots im) = set (free im) \<union> (\<Union>h < 137. set (chains im h))" using st by (simp add: stored_def image_defs)
  then have sl: "set (free im) \<subseteq> set (slots im)" "\<And>h. h < 137 \<Longrightarrow> set (chains im h) \<subseteq> set (slots im)" by auto
  from q consider "q = 0" | h where "h < 137" "q = 7 + 7 * h" | "q \<in> set (free im)" | h where "h < 137" "q \<in> set (chains im h)"
  proof -
    assume *: "q = 0 \<Longrightarrow> thesis" "\<And>h. h < 137 \<Longrightarrow> q = 7 + 7 * h \<Longrightarrow> thesis" "q \<in> set (free im) \<Longrightarrow> thesis"
      "\<And>h. h < 137 \<Longrightarrow> q \<in> set (chains im h) \<Longrightarrow> thesis"
    from q consider i where "q = 7 * i" "i \<le> 137" | "q \<in> set (slots im)" by (auto simp: nodes_def)
    then show thesis
    proof cases
      case 1
      then show ?thesis using *(1) *(2) [of "i - 1"] by (cases i) auto
    next
      case 2
      then show ?thesis using *(3,4) \<open>set (slots im) = _\<close> by blast
    qed
  qed
  then show ?thesis using slot storedD(2,3) [OF st] sl by cases blast+
qed

text \<open>Searching a chain: the first record with the key, with \<open>ptroff\<close> the place of the pointer
  to it.\<close>

lemma find_loop_spec:
  assumes "stored ptr_max im db" "path (ptr im) n rs" "set rs \<subseteq> set (slots im)" "ptroff db = int n"
  shows "\<exists>off db'. find_loop key db (int (ptr im n)) = Some (off, db') \<and> keeps db db' \<and>
    (if key \<in> keyof im ` set rs
     then \<exists>xs r ys. rs = xs @ r # ys \<and> keyof im r = key \<and> off = int r \<and> r \<noteq> 0 \<and> at_rec im r db' \<and>
       ptroff db' = int (last (n # xs))
     else off = 0)"
  using assms
proof (induction rs arbitrary: n db)
  case Nil
  then show ?case by (subst find_loop.simps) simp
next
  case (Cons r rs)
  have r: "r \<in> set (slots im)" "ptr im n = r" "0 < r" using Cons.prems storedD(1) by (fastforce simp: slot_ok_def)+
  obtain db1 where db1: "db_readidx db (int r) = Some (int (ptr im r), db1)" "keeps db db1"
      "ptroff db1 = ptroff db" "at_rec im r db1"
    using readidx_slot [OF Cons.prems(1) r(1)] by blast
  show ?case
  proof (cases "keyof im r = key")
    case True
    then have "idxbuf db1 = key" using db1(4) by (simp add: at_rec_def)
    then have "find_loop key db (int (ptr im n)) = Some (int r, db1)"
      using r db1(1) by (subst find_loop.simps) simp
    moreover have "r # rs = [] @ r # rs \<and> ptroff db1 = int (last (n # []))" using db1(3) Cons.prems(4) by simp
    ultimately show ?thesis using True db1(2,4) r(3) by (intro exI conjI) (auto intro!: exI [of _ "[]"])
  next
    case False
    then have "idxbuf db1 \<noteq> key" using db1(4) by (simp add: at_rec_def)
    then have step: "find_loop key db (int (ptr im n)) = find_loop key (db1\<lparr>ptroff := int r\<rparr>) (int (ptr im r))"
      using r db1(1) by (subst find_loop.simps) simp
    have k: "keeps db (db1\<lparr>ptroff := int r\<rparr>)" using db1(2) by (simp add: keeps_def)
    obtain off db' where rec: "find_loop key (db1\<lparr>ptroff := int r\<rparr>) (int (ptr im r)) = Some (off, db')"
        "keeps (db1\<lparr>ptroff := int r\<rparr>) db'"
        "if key \<in> keyof im ` set rs then \<exists>xs q ys. rs = xs @ q # ys \<and> keyof im q = key \<and> off = int q \<and> q \<noteq> 0 \<and>
          at_rec im q db' \<and> ptroff db' = int (last (r # xs)) else off = 0"
      using Cons.IH [OF stored_keeps [OF k Cons.prems(1)], of r] Cons.prems by auto
    have "\<exists>xs q ys. r # rs = xs @ q # ys \<and> keyof im q = key \<and> off = int q \<and> q \<noteq> 0 \<and>
        at_rec im q db' \<and> ptroff db' = int (last (n # xs))" if "key \<in> keyof im ` set rs"
    proof -
      obtain xs q ys where "rs = xs @ q # ys" "keyof im q = key" "off = int q" "q \<noteq> 0" "at_rec im q db'"
          "ptroff db' = int (last (r # xs))" using rec(3) \<open>key \<in> keyof im ` set rs\<close> by auto
      then show ?thesis by (intro exI [of _ "r # xs"] exI [of _ q] exI [of _ ys]) simp
    qed
    then show ?thesis using False step rec keeps_trans [OF k rec(2)] by auto
  qed
qed

text \<open>The lock on the first byte of a hash chain.\<close>

definition chain_lock :: "bool \<Rightarrow> nat \<Rightarrow> rlock" where
  "chain_lock w h = \<lparr>lfd = IDX, lexclusive = w, lstart = 7 + 7 * int h, llen = 1\<rparr>"

lemma find_and_lock_spec:
  assumes st: "stored ptr_max im db"
  shows "\<exists>rc db'. db_find_and_lock db key w = Some (rc, db') \<and>
    keeps (db\<lparr>chainoff := 7 + 7 * int (hashk key), locks := chain_lock w (hashk key) # locks db\<rparr>) db' \<and>
    (if key \<in> keyof im ` set (chains im (hashk key))
     then rc = 0 \<and> (\<exists>xs r ys. chains im (hashk key) = xs @ r # ys \<and> keyof im r = key \<and> at_rec im r db' \<and>
       ptroff db' = int (last ((7 + 7 * hashk key) # xs)))
     else rc = -1)"
proof -
  define h where "h = hashk key"
  define db1 where "db1 = db\<lparr>chainoff := int (7 + 7 * h), ptroff := int (7 + 7 * h), locks := chain_lock w h # locks db\<rparr>"
  have h: "h < 137" by (simp add: h_def)
  have st1: "stored ptr_max im db1" using st by (simp add: db1_def stored_def)
  obtain db2 where db2: "db_readptr db1 (int (7 + 7 * h)) = Some (int (ptr im (7 + 7 * h)), db2)" "keeps db1 db2"
      "ptroff db2 = ptroff db1"
    using readptr_node [OF st1, of "7 + 7 * h"] h by auto
  have "set (chains im h) \<subseteq> set (slots im)" using storedD(4) [OF st h] by blast
  from find_loop_spec [OF stored_keeps [OF db2(2) st1] storedD(2) [OF st h] this, of key]
  obtain off db3 where db3: "find_loop key db2 (int (ptr im (7 + 7 * h))) = Some (off, db3)" "keeps db2 db3"
    "if key \<in> keyof im ` set (chains im h)
     then \<exists>xs r ys. chains im h = xs @ r # ys \<and> keyof im r = key \<and> off = int r \<and> r \<noteq> 0 \<and> at_rec im r db3 \<and>
       ptroff db3 = int (last ((7 + 7 * h) # xs))
     else off = 0"
    using db2(3) by (auto simp: db1_def)
  have hash: "db_hash db key = h" using st by (simp add: db_hash_def h_def hashk_def stored_def)
  have off: "int (h * PTR_SZ) + hashoff db = int (7 + 7 * h)" using st by (simp add: stored_def PTR_SZ_def)
  have fl: "db_find_and_lock db key w = Some (if off = 0 then -1 else 0, db3)"
    using db2(1) db3(1) off hash
    by (cases w) (simp_all add: db_find_and_lock_def Let_def writew_lock_def readw_lock_def lock_reg_def
        db1_def chain_lock_def)
  have k: "keeps (db\<lparr>chainoff := 7 + 7 * int h, locks := chain_lock w h # locks db\<rparr>) db3"
    using keeps_trans [OF db2(2) db3(2)] by (simp add: db1_def keeps_def)
  show ?thesis
  proof (cases "key \<in> keyof im ` set (chains im h)")
    case True
    then have "\<exists>xs r ys. chains im h = xs @ r # ys \<and> keyof im r = key \<and> off = int r \<and> r \<noteq> 0 \<and> at_rec im r db3 \<and>
        ptroff db3 = int (last ((7 + 7 * h) # xs))" using db3(3) by (simp only: if_True)
    moreover from this have "off \<noteq> 0" by auto
    ultimately show ?thesis using True fl k unfolding h_def [symmetric] by (simp only: if_True if_False) blast
  next
    case False
    then have "off = 0" using db3(3) by (simp only: if_False)
    then show ?thesis using False fl k unfolding h_def [symmetric] by (simp only: if_True if_False simp_thms) blast
  qed
qed

section \<open>The abstract map\<close>

lemma find_first: "\<forall>x \<in> set xs. \<not> P x \<Longrightarrow> P r \<Longrightarrow> find P (xs @ r # ys) = Some r"
  by (induction xs) auto

lemma chain_keys:
  assumes "stored ptr_max im db" "h < 137" "chains im h = xs @ r # ys"
  shows "keyof im r \<notin> keyof im ` set xs" "keyof im r \<notin> keyof im ` set ys"
proof -
  have "distinct (map (keyof im) (xs @ r # ys))"
    using assms unfolding stored_def image_ok_def keys_ok_def by metis
  then show "keyof im r \<notin> keyof im ` set xs" "keyof im r \<notin> keyof im ` set ys" by auto
qed

lemma lookup_split:
  assumes "stored ptr_max im db" "chains im (hashk key) = xs @ r # ys" "keyof im r = key"
  shows "lookup im key = Some (valof im r)"
proof -
  have "\<forall>x \<in> set xs. keyof im x \<noteq> key" using chain_keys(1) [OF assms(1) hashk_less assms(2)] assms(3)
    by (metis image_eqI)
  from find_first [OF this assms(3), of ys] show ?thesis by (simp add: lookup_def assms(2))
qed

lemma lookup_None: "lookup im key = None \<longleftrightarrow> key \<notin> keyof im ` set (chains im (hashk key))"
  by (auto simp: lookup_def find_None_iff)

text \<open>Removing the record from its chain, and putting a new one in front.\<close>

lemma lookup_chains:
  assumes "h < 137" "\<And>g. g < 137 \<Longrightarrow> g \<noteq> h \<Longrightarrow> chains im' g = chains im g"
    and "\<And>g r. g < 137 \<Longrightarrow> r \<in> set (chains im' g) \<Longrightarrow> g \<noteq> h \<Longrightarrow> keyof im' r = keyof im r \<and> valof im' r = valof im r"
    and "hashk key \<noteq> h"
  shows "lookup im' key = lookup im key"
proof -
  have c: "chains im' (hashk key) = chains im (hashk key)" using assms by simp
  have "find (\<lambda>r. keyof im' r = key) rs = find (\<lambda>r. keyof im r = key) rs"
    if "set rs \<subseteq> set (chains im (hashk key))" for rs
    using that assms(3) [of "hashk key"] assms(4) c by (induction rs) auto
  then have f: "find (\<lambda>r. keyof im' r = key) (chains im (hashk key)) = find (\<lambda>r. keyof im r = key) (chains im (hashk key))"
    by blast
  show ?thesis
  proof (cases "find (\<lambda>r. keyof im r = key) (chains im (hashk key))")
    case (Some r)
    then have "r \<in> set (chains im (hashk key))" by (auto simp: find_Some_iff)
    then show ?thesis using Some f c assms(3) [of "hashk key" r] assms(4) by (simp add: lookup_def)
  qed (use f c in \<open>simp add: lookup_def\<close>)
qed

section \<open>Fetching\<close>

lemma un_chain [simp]:
  "locks db = [chain_lock w h] \<Longrightarrow> un_lock db IDX (7 + 7 * int h) 1 = db\<lparr>locks := []\<rparr>"
  by (simp add: un_lock_def chain_lock_def)

text \<open>What the search returns, case by case.\<close>

lemma find_cases:
  assumes rp: "represents ptr_max im db"
  obtains (found) db1 xs r ys where "db_find_and_lock db key w = Some (0, db1)" "stored ptr_max im db1"
      "locks db1 = [chain_lock w (hashk key)]" "chainoff db1 = 7 + 7 * int (hashk key)"
      "chains im (hashk key) = xs @ r # ys" "keyof im r = key" "at_rec im r db1"
      "ptroff db1 = int (last ((7 + 7 * hashk key) # xs))" "lookup im key = Some (valof im r)"
  | (missing) db1 where "db_find_and_lock db key w = Some (-1, db1)" "stored ptr_max im db1"
      "locks db1 = [chain_lock w (hashk key)]" "chainoff db1 = 7 + 7 * int (hashk key)" "lookup im key = None"
proof -
  have st: "stored ptr_max im db" and lk: "locks db = []" using rp by (auto simp: represents_def)
  obtain rc db1 where f: "db_find_and_lock db key w = Some (rc, db1)"
    and k: "keeps (db\<lparr>chainoff := 7 + 7 * int (hashk key), locks := chain_lock w (hashk key) # locks db\<rparr>) db1"
    and c: "if key \<in> keyof im ` set (chains im (hashk key))
     then rc = 0 \<and> (\<exists>xs r ys. chains im (hashk key) = xs @ r # ys \<and> keyof im r = key \<and> at_rec im r db1 \<and>
       ptroff db1 = int (last ((7 + 7 * hashk key) # xs))) else rc = -1"
    using find_and_lock_spec [OF st, of key w] by blast
  have st1: "stored ptr_max im db1" "locks db1 = [chain_lock w (hashk key)]" "chainoff db1 = 7 + 7 * int (hashk key)"
    using st k lk by (simp_all add: stored_def keeps_def)
  show thesis
  proof (cases "key \<in> keyof im ` set (chains im (hashk key))")
    case True
    then obtain xs r ys where "chains im (hashk key) = xs @ r # ys" "keyof im r = key" "at_rec im r db1"
        "ptroff db1 = int (last ((7 + 7 * hashk key) # xs))" "rc = 0" using c by (simp only: if_True) blast
    then show ?thesis using found f st1 lookup_split [OF st] by blast
  next
    case False
    then show ?thesis using missing f st1 c by (simp add: lookup_None)
  qed
qed

lemma db_fetch_spec:
  assumes rp: "represents ptr_max im db"
  shows "\<exists>db'. db_fetch db key = Some (lookup im key, db') \<and> represents ptr_max im db'"
  using rp
proof (cases rule: find_cases [where key = key and w = False])
  case (missing db1)
  then show ?thesis by (simp add: db_fetch_def represents_def stored_def)
next
  case (found db1 xs r ys)
  have rs: "r \<in> set (slots im)" using storedD(4) [OF found(2) hashk_less, of r key] found(5) by simp
  have "has (fbytes (datfd db1)) (datof im r) (valof im r @ [NEWLINE])" "NUL \<notin> set (valof im r)"
    using stored_views(2) [OF found(2)] rs storedD(1) [OF found(2) rs] by (auto simp: dat_view_def slot_ok_def)
  from db_readdat_eq [OF this]
  have "db_readdat db1 = Some (valof im r, db1\<lparr>datfd := (datfd db1)\<lparr>fpos := Suc (datof im r + length (valof im r))\<rparr>,
      datbuf := valof im r\<rparr>)" using found(7) by (simp add: at_rec_def)
  then show ?thesis using found by (auto simp: db_fetch_def represents_def stored_def)
qed

section \<open>Deleting\<close>

text \<open>The record \<open>r\<close> of the chain \<open>h\<close> is blanked out and moved to the front of the free list.\<close>

definition del_image :: "image \<Rightarrow> nat \<Rightarrow> nat list \<Rightarrow> nat \<Rightarrow> nat list \<Rightarrow> image" where
  "del_image im h xs r ys = im\<lparr>
     ptr := (ptr im)(r := ptr im 0, 0 := r, last ((7 + 7 * h) # xs) := ptr im r),
     keyof := (keyof im)(r := replicate (length (keyof im r)) SPACE),
     valof := (valof im)(r := replicate (length (valof im r)) SPACE),
     free := r # free im, chains := (chains im)(h := xs @ ys)\<rparr>"

lemma del_sel [simp]:
  "slots (del_image im h xs r ys) = slots im" "datof (del_image im h xs r ys) = datof im"
  "keyof (del_image im h xs r ys) = (keyof im)(r := replicate (length (keyof im r)) SPACE)"
  "valof (del_image im h xs r ys) = (valof im)(r := replicate (length (valof im r)) SPACE)"
  "free (del_image im h xs r ys) = r # free im" "chains (del_image im h xs r ys) = (chains im)(h := xs @ ys)"
  by (simp_all add: del_image_def)

lemma length_body: "length (body key d l) = length key + length (dec d) + length (dec l) + 3"
  by (simp add: body_def)

lemma length_rtail [simp]: "good_rec key d l \<Longrightarrow> length (rtail key d l) = 4 + length (body key d l)"
  by (simp add: rtail_def good_rec_def)

lemma good_rec_blank: "good_rec key d l \<Longrightarrow> good_rec (replicate (length key) SPACE) d l"
  by (auto simp: good_rec_def length_body) (simp_all add: db_consts)

lemma chain_hash: "image_ok ptr_max im \<Longrightarrow> g < 137 \<Longrightarrow> q \<in> set (chains im g) \<Longrightarrow> hashk (keyof im q) = g"
  by (auto simp: image_ok_def keys_ok_def)

lemma chain_facts:
  assumes "image_ok ptr_max im" "h < 137" "chains im h = xs @ r # ys"
  shows "r \<in> set (slots im)" "967 \<le> r" "r \<notin> set xs" "r \<notin> set ys" "r \<notin> set (free im)"
    "g < 137 \<Longrightarrow> g \<noteq> h \<Longrightarrow> r \<notin> set (chains im g)" "distinct ((7 + 7 * h) # xs @ r # ys)"
    "g < 137 \<Longrightarrow> q \<in> set (chains im g) \<Longrightarrow> 967 \<le> q" "q \<in> set (free im) \<Longrightarrow> 967 \<le> q"
proof -
  have sl: "967 \<le> q" if "q \<in> set (slots im)" for q using assms(1) that by (auto simp: image_ok_def slot_ok_def)
  show "g < 137 \<Longrightarrow> q \<in> set (chains im g) \<Longrightarrow> 967 \<le> q" "q \<in> set (free im) \<Longrightarrow> 967 \<le> q" for g q
    using assms(1) sl by (auto simp: image_ok_def sets_ok_def)
  show "r \<in> set (slots im)" using assms by (force simp: image_ok_def sets_ok_def)
  then show "967 \<le> r" using sl by blast
  have "distinct (xs @ r # ys)" using assms by (metis distinct_map image_ok_def keys_ok_def)
  moreover have "7 + 7 * h < q" if "q \<in> set (xs @ r # ys)" for q
  proof -
    have "q \<in> set (slots im)" using assms that by (fastforce simp: image_ok_def sets_ok_def)
    then show ?thesis using sl [of q] assms(2) by simp
  qed
  ultimately show "distinct ((7 + 7 * h) # xs @ r # ys)" "r \<notin> set xs" "r \<notin> set ys" by auto
  show "r \<notin> set (free im)" using assms by (auto simp: image_ok_def sets_ok_def)
  have "hashk (keyof im r) = h" using assms by (auto simp: image_ok_def keys_ok_def)
  then show "g < 137 \<Longrightarrow> g \<noteq> h \<Longrightarrow> r \<notin> set (chains im g)" for g
    using assms(1) by (auto simp: image_ok_def keys_ok_def)
qed

lemma del_links_ok:
  assumes ok: "image_ok ptr_max im" and h: "h < 137" "chains im h = xs @ r # ys"
  shows "links_ok (del_image im h xs r ys)"
proof -
  note f = chain_facts [OF ok h]
  define q where "q = last ((7 + 7 * h) # xs)"
  let ?F = "(ptr im)(r := ptr im 0, 0 := r, q := ptr im r)"
  have q': "q \<in> set ((7 + 7 * h) # xs)" unfolding q_def by (rule last_in_set) simp
  then consider "q = 7 + 7 * h" | "q \<in> set xs" by (metis set_ConsD)
  then have q: "q = 7 + 7 * h \<or> 967 \<le> q \<and> q \<in> set (chains im h)" using f(8) [OF h(1), of q] h(2) by cases auto
  have q0: "q \<noteq> 0" "q \<noteq> r" using q' f(2,7) q by (force, auto)
  have "set (free im) \<inter> set (chains im h) = {}" using ok h(1) by (auto simp: image_ok_def sets_ok_def)
  then have qfree: "q \<notin> set (free im)" using q f(9) [of q] h(1) by auto
  have p: "path (ptr im) 0 (free im)" "\<And>g. g < 137 \<Longrightarrow> path (ptr im) (7 + 7 * g) (chains im g)"
    using ok by (auto simp: image_ok_def links_ok_def)
  have n0: "0 \<notin> set (free im)" "\<And>g. g < 137 \<Longrightarrow> 0 \<notin> set (chains im g)" using f(8,9) by force+
  have "path ?F 0 (r # free im)"
    using path_push [OF p(1) f(5) _ n0(1)] q0 qfree f(2) by simp
  moreover have "path ?F (7 + 7 * g) (chains im g)" if g: "g < 137" "g \<noteq> h" for g
  proof -
    have "q \<notin> set (chains im g)"
    proof
      assume a: "q \<in> set (chains im g)"
      then have "q \<in> set (chains im h)" using q f(8) [OF g(1) a] h by auto
      then show False using chain_hash [OF ok g(1) a] chain_hash [OF ok h(1)] g(2) by simp
    qed
    moreover have "q \<noteq> 7 + 7 * g" using q g h by auto
    ultimately show ?thesis using p(2) [OF g(1)] f(2) f(6) [OF g] n0(2) [OF g(1)] g by simp
  qed
  moreover have "path ?F (7 + 7 * h) (xs @ ys)"
  proof -
    have eq: "?F = (ptr im)(q := ptr im r, r := ptr im 0, 0 := r)" using q0 by (auto simp: fun_eq_iff)
    have "path ((ptr im)(q := ptr im r)) (7 + 7 * h) (xs @ ys)"
      using path_remove [OF p(2) [OF h(1), unfolded h(2)] f(7)] unfolding q_def .
    then show ?thesis unfolding eq using f n0(2) [OF h(1)] h by simp
  qed
  ultimately show ?thesis unfolding links_ok_def del_image_def q_def [symmetric] by simp
qed

lemma del_image_ok:
  assumes ok: "image_ok ptr_max im" and h: "h < 137" "chains im h = xs @ r # ys"
  shows "image_ok ptr_max (del_image im h xs r ys)"
proof -
  note f = chain_facts [OF ok h]
  let ?im = "del_image im h xs r ys"
  have "slot_ok ptr_max ?im q" if "q \<in> set (slots im)" for q
  proof (cases "q = r")
    case True
    have "NUL \<noteq> SPACE" by (simp add: db_consts)
    with True show ?thesis using ok that good_rec_blank [of "keyof im r"]
      by (auto simp: image_ok_def slot_ok_def del_image_def)
  qed (use ok that in \<open>auto simp: image_ok_def slot_ok_def del_image_def\<close>)
  moreover have "set (slots im) = set (free ?im) \<union> (\<Union>g < 137. set (chains ?im g))"
  proof -
    have "(\<Union>g < 137. set (chains im g)) = insert r (\<Union>g < 137. set (chains ?im g))"
      using h by (fastforce simp: del_image_def split: if_splits)
    then show ?thesis using ok by (auto simp: image_ok_def sets_ok_def del_image_def)
  qed
  moreover have "set (free ?im) \<inter> set (chains ?im g) = {}" if "g < 137" for g
  proof -
    have "set (chains ?im g) \<subseteq> set (chains im g)" using h by (auto simp: del_image_def)
    moreover have "r \<notin> set (chains ?im g)" using f that by (auto simp: del_image_def)
    moreover have "set (free im) \<inter> set (chains im g) = {}" using ok that by (auto simp: image_ok_def sets_ok_def)
    ultimately show ?thesis by (auto simp: del_image_def)
  qed
  moreover have "keys_ok ?im"
  proof -
    have "distinct (map (keyof ?im) (chains ?im g))" if "g < 137" for g
    proof -
      have eq: "map (keyof ?im) (chains ?im g) = map (keyof im) (chains ?im g)"
        using f that by (auto simp: del_image_def)
      have "distinct (map (keyof im) (chains im g))" using ok that by (auto simp: image_ok_def keys_ok_def)
      then have "distinct (map (keyof im) (chains ?im g))" using h by (cases "g = h") (simp_all add: del_image_def)
      then show ?thesis unfolding eq .
    qed
    moreover have "hashk (keyof ?im q) = g" if "g < 137" "q \<in> set (chains ?im g)" for g q
      using that ok f h by (auto simp: del_image_def image_ok_def keys_ok_def split: if_splits)
    moreover have "c = SPACE" if "q \<in> set (free ?im)" "c \<in> set (keyof ?im q)" for q c
      using that ok by (auto simp: del_image_def image_ok_def keys_ok_def split: if_splits)
    ultimately show ?thesis by (simp add: keys_ok_def)
  qed
  ultimately show ?thesis
    using del_links_ok [OF ok h] ok f(5) unfolding image_ok_def sets_ok_def by simp
qed

lemma find_skip: "r \<notin> set xs \<Longrightarrow> \<not> P r \<Longrightarrow> find P (xs @ ys) = find P (xs @ r # ys)"
  by (induction xs) auto

lemma find_eqI: "(\<And>x. x \<in> set xs \<Longrightarrow> P x = Q x) \<Longrightarrow> find P xs = find Q xs"
  by (induction xs) auto

lemma lookup_del:
  assumes ok: "image_ok ptr_max im" and h: "h < 137" "chains im h = xs @ r # ys" and k: "keyof im r = key"
  shows "lookup (del_image im h xs r ys) = (lookup im)(key := None)"
proof
  fix k'
  let ?im = "del_image im h xs r ys"
  note f = chain_facts [OF ok h]
  have hk: "hashk key = h" using chain_hash [OF ok h(1), of r] h(2) k by simp
  have same: "keyof ?im q = keyof im q" "valof ?im q = valof im q" if "q \<in> set (xs @ ys)" for q
    using that f by (auto simp: del_image_def)
  have d: "distinct (map (keyof im) (xs @ r # ys))" using ok h by (metis image_ok_def keys_ok_def)
  show "lookup ?im k' = ((lookup im)(key := None)) k'"
  proof (cases "hashk k' = h")
    case False
    have "lookup ?im k' = lookup im k'" by (rule lookup_chains [OF h(1)]) (use f(6) False in auto)
    then show ?thesis using False hk by auto
  next
    case True
    have c: "chains ?im (hashk k') = xs @ ys" "chains im (hashk k') = xs @ r # ys" using True h by (simp_all add: del_image_def)
    have fd: "find (\<lambda>q. keyof ?im q = k') (xs @ ys) = find (\<lambda>q. keyof im q = k') (xs @ ys)"
      by (rule find_eqI) (use f(3,4) in auto)
    show ?thesis
    proof (cases "k' = key")
      case True
      have "find (\<lambda>q. keyof im q = k') (xs @ ys) = None" using d k True by (simp add: find_None_iff) (metis image_eqI)
      then show ?thesis using c fd True by (simp add: lookup_def)
    next
      case False
      then have e: "find (\<lambda>q. keyof im q = k') (xs @ ys) = find (\<lambda>q. keyof im q = k') (xs @ r # ys)"
        using k f(3) by (intro find_skip) auto
      moreover have "valof ?im q = valof im q" if "find (\<lambda>q. keyof im q = k') (xs @ ys) = Some q" for q
        using that by (intro same(2)) (auto simp: find_Some_iff simp del: set_append)
      ultimately show ?thesis using c fd False
        by (cases "find (\<lambda>q. keyof im q = k') (xs @ r # ys)") (simp_all add: lookup_def)
    qed
  qed
qed

text \<open>The writes of \<open>_db_dodelete\<close>, and the locks it takes and releases.\<close>

lemma dodelete_spec:
  assumes st: "stored ptr_max im db" and h: "h < 137" "chains im h = xs @ r # ys"
    and at: "at_rec im r db" "ptroff db = int (last ((7 + 7 * h) # xs))" and lk: "locks db = [chain_lock w h]"
  shows "\<exists>db'. db_dodelete ptr_max db = Some db' \<and> stored ptr_max (del_image im h xs r ys) db' \<and>
    locks db' = [chain_lock w h] \<and> chainoff db' = chainoff db"
proof -
  have ok: "image_ok ptr_max im" using st by (simp add: stored_def)
  note f = chain_facts [OF ok h] and v = stored_views [OF st]
  define q where "q = last ((7 + 7 * h) # xs)"
  define K where "K = replicate (length (keyof im r)) SPACE"
  define V where "V = replicate (length (valof im r)) SPACE"
  define ib where "ib = fbytes (idxfd db)"
  have sr: "slot_ok ptr_max im r" using storedD(1) [OF st f(1)] .
  have g: "good_rec K (datof im r) (Suc (length V))" using sr good_rec_blank by (simp add: slot_ok_def K_def V_def)
  have "q \<in> set ((7 + 7 * h) # xs)" unfolding q_def by (rule last_in_set) simp
  then have qn: "q \<in> nodes (slots im)" using h storedD(4) [OF st h(1), of q] by auto
  have p0: "ptr im 0 \<le> 9999999" "has ib 0 (pfield (ptr im 0))" using idx_viewD(2,3) [OF v(1), of 0] by (auto simp: ib_def)
  have pm: "int (ptr im 0) \<le> ptr_max" "int (ptr im r) \<le> ptr_max" "int r \<le> ptr_max"
    using ptr_bound [OF st] f(1) sr by (auto simp: slot_ok_def)
  define ib1 where "ib1 = overwrite ib r (pfield (ptr im 0) @ rtail K (datof im r) (Suc (length V)))"
  define ib2 where "ib2 = overwrite ib1 0 (pfield r)"
  define ib3 where "ib3 = overwrite ib2 q (pfield (ptr im r))"
  have v1: "idx_view ib1 (slots im) ((ptr im)(r := ptr im 0)) ((tail_of im)(r := rtail K (datof im r) (Suc (length V))))"
    unfolding ib1_def using v(1) f(1) p0(1) g sr
    by (intro idx_view_slot) (auto simp: ib_def tail_of_def slot_ok_def length_body K_def V_def)
  have v3: "idx_view ib3 (slots im) ((ptr im)(r := ptr im 0, 0 := r, q := ptr im r))
      ((tail_of im)(r := rtail K (datof im r) (Suc (length V))))"
    unfolding ib3_def ib2_def using v1 qn pm storedD(9) [OF st] by (intro idx_view_ptr) auto
  have vd: "dat_view (overwrite (fbytes (datfd db)) (datof im r) (V @ [NEWLINE])) (slots im) (datof im) ((valof im)(r := V))"
    using v(2) f(1) by (intro dat_view_slot) (simp_all add: V_def)
  have tl: "tail_of (del_image im h xs r ys) = (tail_of im)(r := rtail K (datof im r) (Suc (length V)))"
    by (auto simp: tail_of_def fun_eq_iff K_def V_def)
  define db1 where "db1 = db\<lparr>datbuf := V, idxbuf := K,
      locks := [\<lparr>lfd = IDX, lexclusive = True, lstart = 0, llen = 1\<rparr>, chain_lock w h],
      datoff := int (datof im r), datlen := int (length V) + 1,
      datfd := \<lparr>fbytes = overwrite (fbytes (datfd db)) (datof im r) (V @ [NEWLINE]), fpos = datof im r + length V + 1\<rparr>\<rparr>"
  define db2 where "db2 = db1\<lparr>idxfd := (idxfd db1)\<lparr>fpos := 7\<rparr>\<rparr>"
  define db3 where "db3 = db2\<lparr>ptrval := int (ptr im 0), idxbuf := body K (datof im r) (Suc (length V)), idxoff := int r,
      idxfd := \<lparr>fbytes = ib1, fpos = r + length (pfield (ptr im 0) @ rtail K (datof im r) (Suc (length V)))\<rparr>\<rparr>"
  have rp: "db_readptr db1 0 = Some (int (ptr im 0), db2)"
    using db_readptr_eq [of db1 0 "ptr im 0"] p0 by (simp add: db1_def db2_def ib_def)
  have wi: "db_writeidx ptr_max db2 K (int r) SEEK_SET (int (ptr im 0)) = Some db3"
    using db_writeidx_set [of "ptr im 0" ptr_max db2 "datof im r" "Suc (length V)" K r] pm g
    by (simp add: db2_def db1_def db3_def good_rec_def ib1_def ib_def)
  define db4 where "db4 = db3\<lparr>idxfd := \<lparr>fbytes = ib2, fpos = 0 + length (pfield r)\<rparr>\<rparr>"
  define db5 where "db5 = db4\<lparr>idxfd := \<lparr>fbytes = ib3, fpos = q + length (pfield (ptr im r))\<rparr>\<rparr>"
  define db0 where "db0 = db\<lparr>datbuf := V, idxbuf := K, locks := [\<lparr>lfd = IDX, lexclusive = True, lstart = 0, llen = 1\<rparr>, chain_lock w h]\<rparr>"
  have w0: "writew_lock (db\<lparr>datbuf := replicate (nat (datlen db - 1)) SPACE, idxbuf := replicate (length (idxbuf db)) SPACE\<rparr>) IDX 0 1 = db0"
    using at(1) lk by (simp add: db0_def writew_lock_def lock_reg_def V_def K_def at_rec_def)
  have w1: "db_writedat db0 V (int (datof im r)) SEEK_SET = Some db1"
    by (simp add: db_writedat_set db0_def db1_def)
  have w4: "db_writeptr ptr_max db3 0 (int r) = Some db4"
    using db_writeptr_eq [of r ptr_max db3 0] pm by (simp add: db4_def ib2_def db3_def)
  have w5: "db_writeptr ptr_max db4 (int q) (int (ptr im r)) = Some db5"
    using db_writeptr_eq [of "ptr im r" ptr_max db4 q] pm by (simp add: db5_def ib3_def db4_def)
  have sel: "datbuf db0 = V" "datoff db0 = int (datof im r)" "idxoff db2 = int r" "idxbuf db2 = K"
      "ptrval db2 = int (ptr im r)" "idxoff db3 = int r" "ptroff db4 = int q"
    using at by (simp_all add: at_rec_def db4_def db3_def db2_def db1_def db0_def q_def)
  have "db_dodelete ptr_max db = Some (un_lock db5 IDX 0 1)"
    using w0 by (simp add: db_dodelete_def Let_def FREE_OFF_def w1 rp wi w4 w5 sel)
  moreover have "un_lock db5 IDX 0 1 = db5\<lparr>locks := [chain_lock w h]\<rparr>"
    by (simp add: un_lock_def db5_def db4_def db3_def db2_def db1_def chain_lock_def)
  moreover have "stored ptr_max (del_image im h xs r ys) (db5\<lparr>locks := [chain_lock w h]\<rparr>)"
    using v3 vd tl del_image_ok [OF ok h] st
    by (simp add: stored_def db5_def db4_def db3_def db2_def db1_def V_def del_image_def q_def)
  ultimately show ?thesis by (simp add: db5_def db4_def db3_def db2_def db1_def)
qed

lemma db_delete_spec:
  assumes rp: "represents ptr_max im db"
  shows "\<exists>im' db'. db_delete ptr_max db key = Some (if lookup im key = None then -1 else 0, db') \<and>
    represents ptr_max im' db' \<and> lookup im' = (lookup im)(key := None) \<and> slots im' = slots im"
  using rp
proof (cases rule: find_cases [where key = key and w = True])
  case (found db1 xs r ys)
  have ok: "image_ok ptr_max im" using rp by (simp add: represents_def stored_def)
  obtain db2 where d: "db_dodelete ptr_max db1 = Some db2" "stored ptr_max (del_image im (hashk key) xs r ys) db2"
      "locks db2 = [chain_lock True (hashk key)]" "chainoff db2 = chainoff db1"
    using dodelete_spec [OF found(2) hashk_less found(5,7,8,3)] by blast
  have "db_delete ptr_max db key = Some (0, db2\<lparr>cnt_delok := cnt_delok db2 + 1, locks := []\<rparr>)"
    using found(1,4) d by (simp add: db_delete_def)
  moreover have "represents ptr_max (del_image im (hashk key) xs r ys) (db2\<lparr>cnt_delok := cnt_delok db2 + 1, locks := []\<rparr>)"
    using d(2) by (simp add: represents_def stored_def)
  ultimately show ?thesis using found(9) lookup_del [OF ok hashk_less found(5,6)] by fastforce
next
  case (missing db1)
  then have "db_delete ptr_max db key = Some (-1, db1\<lparr>cnt_delerr := cnt_delerr db1 + 1, locks := []\<rparr>)"
    by (simp add: db_delete_def)
  moreover have "represents ptr_max im (db1\<lparr>cnt_delerr := cnt_delerr db1 + 1, locks := []\<rparr>)"
    using missing(2) by (simp add: represents_def stored_def)
  ultimately show ?thesis using missing(5) by (fastforce simp: fun_upd_idem)
qed

end
