(* ===== verification/Db_Store.thy ===== *)
theory Db_Store
  imports Db_Refine
begin

text \<open>
  Storing, opening and closing: \<open>db_store\<close> with its four ways of writing a record, and
  \<open>db_open\<close>, which creates an empty database. Together with the theory on fetching and deleting
  this gives the refinement of a finite map.
\<close>

section \<open>A new record at the front of a chain\<close>

definition ins_image :: "image \<Rightarrow> nat \<Rightarrow> nat \<Rightarrow> string \<Rightarrow> nat \<Rightarrow> string \<Rightarrow> image" where
  "ins_image im h r key d data = im\<lparr>ptr := (ptr im)(r := ptr im (7 + 7 * h), 7 + 7 * h := r),
     keyof := (keyof im)(r := key), datof := (datof im)(r := d), valof := (valof im)(r := data),
     chains := (chains im)(h := r # chains im h)\<rparr>"

lemma ins_sel [simp]:
  "slots (ins_image im h r key d data) = slots im" "free (ins_image im h r key d data) = free im"
  "keyof (ins_image im h r key d data) = (keyof im)(r := key)"
  "datof (ins_image im h r key d data) = (datof im)(r := d)"
  "valof (ins_image im h r key d data) = (valof im)(r := data)"
  "chains (ins_image im h r key d data) = (chains im)(h := r # chains im h)"
  by (simp_all add: ins_image_def)

lemma tail_ins: "tail_of (ins_image im h r key d data) = (tail_of im)(r := rtail key d (Suc (length data)))"
  by (auto simp: tail_of_def fun_eq_iff)

lemma ptr_ins: "ptr (ins_image im h r key d data) = (ptr im)(r := ptr im (7 + 7 * h), 7 + 7 * h := r)"
  by (simp add: ins_image_def)

text \<open>An image in which the slot \<open>r\<close> is on no list.\<close>

definition spare :: "int \<Rightarrow> image \<Rightarrow> nat \<Rightarrow> bool" where
  "spare ptr_max im r \<longleftrightarrow> 0 \<le> ptr_max \<and> ptr_max \<le> 9999999 \<and> r \<in> set (slots im) \<and>
     (\<forall>q \<in> set (slots im) - {r}. slot_ok ptr_max im q) \<and> 967 \<le> r \<and> links_ok im \<and> keys_ok im \<and>
     set (slots im) - {r} = set (free im) \<union> (\<Union>h < 137. set (chains im h)) \<and> distinct (free im) \<and>
     (\<forall>h < 137. set (free im) \<inter> set (chains im h) = {})"

lemma spareD:
  assumes "spare ptr_max im r"
  shows "r \<notin> set (free im)" "g < 137 \<Longrightarrow> r \<notin> set (chains im g)"
    "q \<in> set (free im) \<Longrightarrow> 967 \<le> q" "g < 137 \<Longrightarrow> q \<in> set (chains im g) \<Longrightarrow> 967 \<le> q"
proof -
  have sl: "967 \<le> q \<and> q \<noteq> r" if "q \<in> set (slots im) - {r}" for q
    using assms that by (auto simp: spare_def slot_ok_def)
  have eq: "set (slots im) - {r} = set (free im) \<union> (\<Union>h < 137. set (chains im h))" using assms by (simp add: spare_def)
  show "r \<notin> set (free im)" "q \<in> set (free im) \<Longrightarrow> 967 \<le> q" for q using sl unfolding eq by auto
  show "g < 137 \<Longrightarrow> r \<notin> set (chains im g)" "g < 137 \<Longrightarrow> q \<in> set (chains im g) \<Longrightarrow> 967 \<le> q" for g q
    using sl unfolding eq by auto
qed

lemma ins_links_ok:
  assumes sp: "spare ptr_max im r" and h: "h < 137"
  shows "links_ok (ins_image im h r key d data)"
proof -
  note f = spareD [OF sp]
  have r: "967 \<le> r" using sp by (simp add: spare_def)
  have p: "path (ptr im) 0 (free im)" "\<And>g. g < 137 \<Longrightarrow> path (ptr im) (7 + 7 * g) (chains im g)"
    using sp by (auto simp: spare_def links_ok_def)
  let ?F = "(ptr im)(r := ptr im (7 + 7 * h), 7 + 7 * h := r)"
  have big: "7 + 7 * h \<notin> set (free im)" "\<And>g. g < 137 \<Longrightarrow> 7 + 7 * h \<notin> set (chains im g)" "r \<noteq> 7 + 7 * g" if "g < 137" for g
    using f(3) f(4) h r that by force+
  have "path ?F 0 (free im)" using p(1) big(1) [OF h] f(1) r by simp
  moreover have "path ?F (7 + 7 * h) (r # chains im h)"
    using path_push [OF p(2) [OF h] f(2) [OF h]] big(2,3) [OF h] h by blast
  moreover have "path ?F (7 + 7 * g) (chains im g)" if "g < 137" "g \<noteq> h" for g
    using p(2) [OF that(1)] f(2) [OF that(1)] big(2) [OF h that(1)] big(3) [OF that(1)] that by simp
  ultimately show ?thesis by (simp add: links_ok_def ins_image_def)
qed

lemma ins_image_ok:
  assumes sp: "spare ptr_max im r" and h: "hashk key = h" "key \<notin> keyof im ` set (chains im h)"
    and s: "slot_ok ptr_max (ins_image im h r key d data) r"
  shows "image_ok ptr_max (ins_image im h r key d data)"
proof -
  let ?im = "ins_image im h r key d data"
  note f = spareD [OF sp]
  have hl: "h < 137" using h(1) hashk_less by blast
  have "slot_ok ptr_max ?im q" if "q \<in> set (slots im)" for q
    using that sp s by (cases "q = r") (auto simp: spare_def slot_ok_def)
  moreover have "sets_ok ?im"
  proof -
    have eq: "set (slots im) - {r} = set (free im) \<union> (\<Union>g < 137. set (chains im g))" using sp by (simp add: spare_def)
    have "(\<Union>g < 137. set (chains ?im g)) = insert r (\<Union>g < 137. set (chains im g))"
      using hl by (fastforce split: if_splits)
    then have "set (slots im) = set (free im) \<union> (\<Union>g < 137. set (chains ?im g))"
      using eq sp by (auto simp: spare_def)
    moreover have "set (free im) \<inter> set (chains ?im g) = {}" if "g < 137" for g
      using that sp f(1) by (auto simp: spare_def)
    ultimately show ?thesis using sp by (simp add: sets_ok_def spare_def)
  qed
  moreover have "keys_ok ?im"
  proof -
    have "distinct (map (keyof ?im) (chains ?im g))" if g: "g < 137" for g
    proof -
      have "map (keyof ?im) (chains ?im g) = (if g = h then key # map (keyof im) (chains im h) else map (keyof im) (chains im g))"
        using f(2) [OF g] by auto
      moreover have "distinct (map (keyof im) (chains im g))" using sp g by (auto simp: spare_def keys_ok_def)
      ultimately show ?thesis using h(2) by (metis distinct.simps(2) list.set_map)
    qed
    moreover have "hashk (keyof ?im q) = g" if "g < 137" "q \<in> set (chains ?im g)" for g q
      using that sp h f(2) hl by (auto simp: spare_def keys_ok_def split: if_splits)
    moreover have "c = SPACE" if "q \<in> set (free ?im)" "c \<in> set (keyof ?im q)" for q c
      using that sp f(1) by (auto simp: spare_def keys_ok_def split: if_splits)
    ultimately show ?thesis unfolding keys_ok_def by blast
  qed
  ultimately show ?thesis using ins_links_ok [OF sp hl] sp by (simp add: image_ok_def spare_def)
qed

lemma lookup_ins:
  assumes sp: "spare ptr_max im r" and h: "hashk key = h"
  shows "lookup (ins_image im h r key d data) = (lookup im)(key \<mapsto> data)"
proof
  fix k
  let ?im = "ins_image im h r key d data"
  note f = spareD [OF sp]
  have hl: "h < 137" using h hashk_less by blast
  show "lookup ?im k = ((lookup im)(key \<mapsto> data)) k"
  proof (cases "hashk k = h")
    case False
    have "lookup ?im k = lookup im k" by (rule lookup_chains [OF hl]) (use f(2) False in auto)
    then show ?thesis using False h by auto
  next
    case True
    have "find (\<lambda>q. keyof ?im q = k) (chains im h) = find (\<lambda>q. keyof im q = k) (chains im h)"
      by (rule find_eqI) (use f(2) [OF hl] in auto)
    moreover have "valof ?im q = valof im q" if "find (\<lambda>q. keyof im q = k) (chains im h) = Some q" for q
      using that f(2) [OF hl] by (auto simp: find_Some_iff)
    ultimately show ?thesis using True h
      by (cases "find (\<lambda>q. keyof im q = k) (chains im h)") (auto simp: lookup_def)
  qed
qed

section \<open>Searching the free list\<close>

lemma findfree_loop_spec:
  assumes "stored ptr_max im db" "path (ptr im) n rs" "set rs \<subseteq> set (slots im)"
  shows "\<exists>off save db'. findfree_loop kl dl db (int n) (int (ptr im n)) = Some (off, save, db') \<and> keeps db db' \<and>
    (off = 0 \<or> (\<exists>xs r ys. rs = xs @ r # ys \<and> off = int r \<and> r \<noteq> 0 \<and> save = int (last (n # xs)) \<and> at_rec im r db' \<and>
       int (length (keyof im r)) = kl \<and> int (Suc (length (valof im r))) = dl))"
  using assms
proof (induction rs arbitrary: n db)
  case Nil
  then show ?case by (subst findfree_loop.simps) simp
next
  case (Cons r rs)
  have r: "r \<in> set (slots im)" "ptr im n = r" "0 < r" using Cons.prems storedD(1) by (fastforce simp: slot_ok_def)+
  obtain db1 where db1: "db_readidx db (int r) = Some (int (ptr im r), db1)" "keeps db db1" "at_rec im r db1"
    using readidx_slot [OF Cons.prems(1) r(1)] by blast
  show ?case
  proof (cases "int (length (idxbuf db1)) = kl \<and> datlen db1 = dl")
    case True
    then have "findfree_loop kl dl db (int n) (int (ptr im n)) = Some (int r, int n, db1)"
      using r db1(1) by (subst findfree_loop.simps) simp
    moreover have "r # rs = [] @ r # rs" "int n = int (last (n # []))" by simp_all
    ultimately show ?thesis using True db1(2,3) r(3) unfolding at_rec_def by (metis (no_types, lifting) less_not_refl)
  next
    case False
    then have step: "findfree_loop kl dl db (int n) (int (ptr im n)) = findfree_loop kl dl db1 (int r) (int (ptr im r))"
      using r db1(1) by (subst findfree_loop.simps) auto
    have pr: "path (ptr im) r rs" "set rs \<subseteq> set (slots im)" using Cons.prems(2,3) by auto
    obtain off save db' where rec: "findfree_loop kl dl db1 (int r) (int (ptr im r)) = Some (off, save, db')" "keeps db1 db'"
        "off = 0 \<or> (\<exists>xs q ys. rs = xs @ q # ys \<and> off = int q \<and> q \<noteq> 0 \<and> save = int (last (r # xs)) \<and> at_rec im q db' \<and>
           int (length (keyof im q)) = kl \<and> int (Suc (length (valof im q))) = dl)"
      using Cons.IH [OF stored_keeps [OF db1(2) Cons.prems(1)], of r] pr by blast
    have "\<exists>xs q ys. r # rs = xs @ q # ys \<and> off = int q \<and> q \<noteq> 0 \<and> save = int (last (n # xs)) \<and> at_rec im q db' \<and>
           int (length (keyof im q)) = kl \<and> int (Suc (length (valof im q))) = dl" if nz: "off \<noteq> 0"
    proof -
      obtain xs q ys where "rs = xs @ q # ys \<and> off = int q \<and> q \<noteq> 0 \<and> save = int (last (r # xs)) \<and> at_rec im q db' \<and>
           int (length (keyof im q)) = kl \<and> int (Suc (length (valof im q))) = dl" using rec(3) nz by blast
      then show ?thesis by (intro exI [of _ "r # xs"] exI [of _ q] exI [of _ ys]) simp
    qed
    then have "off = 0 \<or> (\<exists>xs q ys. r # rs = xs @ q # ys \<and> off = int q \<and> q \<noteq> 0 \<and> save = int (last (n # xs)) \<and> at_rec im q db' \<and>
           int (length (keyof im q)) = kl \<and> int (Suc (length (valof im q))) = dl)" by (cases "off = 0") simp_all
    then show ?thesis using step rec(1) keeps_trans [OF db1(2) rec(2)] by (intro exI conjI) simp_all
  qed
qed

text \<open>\<open>_db_findfree\<close> either changes nothing, or takes a record of the right sizes off the free
  list.\<close>

definition take_image :: "image \<Rightarrow> nat list \<Rightarrow> nat \<Rightarrow> nat list \<Rightarrow> image" where
  "take_image im xs r ys = im\<lparr>ptr := (ptr im)(last (0 # xs) := ptr im r), free := xs @ ys\<rparr>"

lemma take_sel [simp]:
  "slots (take_image im xs r ys) = slots im" "keyof (take_image im xs r ys) = keyof im"
  "datof (take_image im xs r ys) = datof im" "valof (take_image im xs r ys) = valof im"
  "free (take_image im xs r ys) = xs @ ys" "chains (take_image im xs r ys) = chains im"
  by (simp_all add: take_image_def)

lemma lookup_take [simp]: "lookup (take_image im xs r ys) = lookup im"
  by (simp add: lookup_def fun_eq_iff)

lemma take_spare:
  assumes ok: "image_ok ptr_max im" and fr: "free im = xs @ r # ys"
  shows "spare ptr_max (take_image im xs r ys) r"
proof -
  have sl: "slot_ok ptr_max im q" if "q \<in> set (slots im)" for q using ok that by (simp add: image_ok_def)
  have sets: "set (slots im) = set (xs @ r # ys) \<union> (\<Union>h < 137. set (chains im h))" "distinct (xs @ r # ys)"
      "\<And>h. h < 137 \<Longrightarrow> set (xs @ r # ys) \<inter> set (chains im h) = {}"
    using ok fr by (auto simp: image_ok_def sets_ok_def)
  have rs: "r \<in> set (slots im)" and r: "967 \<le> r" using sets(1) sl by (auto simp: slot_ok_def)
  have big: "967 \<le> q" if "q \<in> set (xs @ r # ys)" for q using sl that sets(1) unfolding slot_ok_def by blast
  have "set (slots im) - {r} = set (xs @ ys) \<union> (\<Union>h < 137. set (chains im h))"
    using sets by (auto simp: disjoint_iff)
  moreover have "links_ok (take_image im xs r ys)"
  proof -
    define q where "q = last (0 # xs)"
    have "q \<in> set (0 # xs)" unfolding q_def by (rule last_in_set) simp
    then have q: "q = 0 \<or> q \<in> set (xs @ r # ys)" by auto
    have "distinct (0 # xs @ r # ys)" using sets(2) big by fastforce
    then have "path ((ptr im)(q := ptr im r)) 0 (xs @ ys)"
      using path_remove [of "ptr im" 0 xs r ys] ok fr unfolding q_def by (simp add: image_ok_def links_ok_def)
    moreover have "path ((ptr im)(q := ptr im r)) (7 + 7 * h) (chains im h)" if h: "h < 137" for h
    proof -
      have "q \<notin> set (chains im h)"
      proof
        assume a: "q \<in> set (chains im h)"
        then have "q \<in> set (slots im)" using sets(1) h by auto
        then show False using a q sets(3) [OF h] sl [of q] by (auto simp: slot_ok_def)
      qed
      moreover have "q \<noteq> 7 + 7 * h" using q big [of q] h by auto
      ultimately show ?thesis using ok h by (simp add: image_ok_def links_ok_def)
    qed
    ultimately show ?thesis unfolding links_ok_def take_image_def q_def [symmetric] by simp
  qed
  moreover have "keys_ok (take_image im xs r ys)" using ok fr by (auto simp: image_ok_def keys_ok_def)
  moreover have "slot_ok ptr_max (take_image im xs r ys) q" if "q \<in> set (slots im)" for q
    using sl [OF that] by (simp add: slot_ok_def)
  ultimately show ?thesis using ok rs r sets by (auto simp: spare_def image_ok_def)
qed

text \<open>A state of the files that shows an image, without the conditions on the image.\<close>

definition shows_image :: "image \<Rightarrow> DB \<Rightarrow> bool" where
  "shows_image im db \<longleftrightarrow> nhash db = 137 \<and> hashoff db = 7 \<and>
     idx_view (fbytes (idxfd db)) (slots im) (ptr im) (tail_of im) \<and>
     dat_view (fbytes (datfd db)) (slots im) (datof im) (valof im)"

lemma stored_iff: "stored ptr_max im db \<longleftrightarrow> image_ok ptr_max im \<and> shows_image im db"
  by (auto simp: stored_def shows_image_def)

lemma findfree_spec:
  assumes st: "stored ptr_max im db" and lk: "locks db = [chain_lock w h]" and h: "h < 137"
  shows "\<exists>rc db'. db_findfree ptr_max db kl dl = Some (rc, db') \<and> locks db' = [chain_lock w h] \<and>
    chainoff db' = chainoff db \<and>
    (rc = -1 \<and> stored ptr_max im db' \<or>
     rc = 0 \<and> (\<exists>xs r ys. free im = xs @ r # ys \<and> shows_image (take_image im xs r ys) db' \<and> at_rec im r db' \<and>
       int (length (keyof im r)) = kl \<and> int (Suc (length (valof im r))) = dl))"
proof -
  let ?fl = "\<lparr>lfd = IDX, lexclusive = True, lstart = 0, llen = 1\<rparr>"
  define db0 where "db0 = db\<lparr>locks := [?fl, chain_lock w h]\<rparr>"
  have st0: "stored ptr_max im db0" using st by (simp add: stored_def db0_def)
  obtain db1 where db1: "db_readptr db0 0 = Some (int (ptr im 0), db1)" "keeps db0 db1"
    using readptr_node [OF st0, of 0] by auto
  have fr: "set (free im) \<subseteq> set (slots im)" using storedD(5) [OF st] by blast
  obtain off save db2 where db2': "findfree_loop kl dl db1 (int 0) (int (ptr im 0)) = Some (off, save, db2)" "keeps db1 db2"
      and c: "off = 0 \<or> (\<exists>xs r ys. free im = xs @ r # ys \<and> off = int r \<and> r \<noteq> 0 \<and> save = int (last (0 # xs)) \<and> at_rec im r db2 \<and>
       int (length (keyof im r)) = kl \<and> int (Suc (length (valof im r))) = dl)"
    using findfree_loop_spec [OF stored_keeps [OF db1(2) st0] storedD(3) [OF st] fr, of kl dl] by blast
  note db2 = db2' [unfolded of_nat_0]
  have k: "keeps db0 db2" using keeps_trans [OF db1(2) db2(2)] .
  have st2: "stored ptr_max im db2" using stored_keeps [OF k st0] .
  have l2: "locks db2 = [?fl, chain_lock w h]" "chainoff db2 = chainoff db" using k by (simp_all add: keeps_def db0_def)
  have w: "writew_lock db IDX FREE_OFF 1 = db0" using lk by (simp add: db0_def writew_lock_def lock_reg_def FREE_OFF_def)
  have un: "un_lock d IDX 0 1 = d\<lparr>locks := [chain_lock w h]\<rparr>" if "locks d = [?fl, chain_lock w h]" for d
    using that by (simp add: un_lock_def chain_lock_def)
  from c show ?thesis
  proof
    assume "off = 0"
    then show ?thesis using w db1(1) db2(1) un [OF l2(1)] st2 l2(2)
      by (simp add: db_findfree_def Let_def FREE_OFF_def stored_def)
  next
    assume "\<exists>xs r ys. free im = xs @ r # ys \<and> off = int r \<and> r \<noteq> 0 \<and> save = int (last (0 # xs)) \<and> at_rec im r db2 \<and>
       int (length (keyof im r)) = kl \<and> int (Suc (length (valof im r))) = dl"
    then obtain xs r ys where r: "free im = xs @ r # ys" "off = int r" "r \<noteq> 0" "save = int (last (0 # xs))" "at_rec im r db2"
       "int (length (keyof im r)) = kl" "int (Suc (length (valof im r))) = dl" by blast
    define q where "q = last (0 # xs)"
    have "q \<in> set (0 # xs)" unfolding q_def by (rule last_in_set) simp
    then have q: "q \<in> nodes (slots im)" using fr r(1) by auto
    have rn: "r \<in> nodes (slots im)" using fr r(1) by auto
    define db3 where "db3 = db2\<lparr>idxfd := \<lparr>fbytes = overwrite (fbytes (idxfd db2)) q (pfield (ptr im r)), fpos = q + length (pfield (ptr im r))\<rparr>\<rparr>"
    have wp: "db_writeptr ptr_max db2 save (ptrval db2) = Some db3"
      using db_writeptr_eq [OF ptr_bound [OF st2 rn], of db2 q] r(4,5) by (simp add: db3_def q_def at_rec_def)
    have "idx_view (fbytes (idxfd db3)) (slots im) ((ptr im)(q := ptr im r)) (tail_of im)"
      unfolding db3_def using idx_view_ptr [OF stored_views(1) [OF st2] q idx_viewD(3) [OF stored_views(1) [OF st2] rn]] by simp
    moreover have "tail_of (take_image im xs r ys) = tail_of im" by (simp add: tail_of_def fun_eq_iff)
    ultimately have "shows_image (take_image im xs r ys) (db3\<lparr>locks := [chain_lock w h]\<rparr>)"
      using st2 unfolding shows_image_def take_image_def q_def by (simp add: db3_def stored_def)
    moreover have "at_rec im r (db3\<lparr>locks := [chain_lock w h]\<rparr>)" using r(5) by (simp add: at_rec_def db3_def)
    moreover have "db_findfree ptr_max db kl dl = Some (0, db3\<lparr>locks := [chain_lock w h]\<rparr>)"
      using w db1(1) db2(1) wp r(2,3) un [of db3] l2(1)
      by (simp add: db_findfree_def Let_def FREE_OFF_def) (simp add: db3_def)
    ultimately show ?thesis using r(1,6,7) l2(2) by (fastforce simp: db3_def)
  qed
qed

section \<open>Writing the new record\<close>

text \<open>Keys and data which the library can store and read back, and room for another record.\<close>

definition valid_rec :: "string \<Rightarrow> string \<Rightarrow> bool" where
  "valid_rec key data \<longleftrightarrow> key \<noteq> [] \<and> NUL \<notin> set key \<and> SEP \<notin> set key \<and>
     data \<noteq> [] \<and> NUL \<notin> set data \<and> length data \<le> 1023"

definition room :: "int \<Rightarrow> DB \<Rightarrow> string \<Rightarrow> string \<Rightarrow> bool" where
  "room ptr_max db key data \<longleftrightarrow> int (length (fbytes (idxfd db))) \<le> ptr_max \<and> length (fbytes (datfd db)) < 2 ^ 63 \<and>
     length (body key (length (fbytes (datfd db))) (Suc (length data))) \<le> 1024"

lemma dec_ge1: "1 \<le> length (dec n)"
  by (metis Suc_leI dec_not_Nil length_greater_0_conv One_nat_def)

lemma valid_body: "valid_rec key data \<Longrightarrow> 6 \<le> length (body key d l)"
proof -
  assume "valid_rec key data"
  then have "1 \<le> length key" by (cases key) (auto simp: valid_rec_def)
  then show ?thesis using dec_ge1 [of d] dec_ge1 [of l] by (simp add: length_body)
qed

lemma head_ne: "stored ptr_max im db \<Longrightarrow> h < 137 \<Longrightarrow> 7 + 7 * h \<notin> set (slots im)"
  using storedD(1) by (force simp: slot_ok_def)

lemma append_spare:
  assumes st: "stored ptr_max im db" and r: "r = length (fbytes (idxfd db))"
  shows "spare ptr_max (im\<lparr>slots := slots im @ [r]\<rparr>) r" and "r \<notin> set (slots im)"
proof -
  have c: "contig (\<lambda>r. r) (\<lambda>r. 7 + length (tail_of im r)) 967 (slots im) r"
    using idx_viewD(1) [OF stored_views(1) [OF st]] r by simp
  show new: "r \<notin> set (slots im)" using contig_bounds [OF c] by force
  have ok: "image_ok ptr_max im" using st by (simp add: stored_def)
  have "links_ok (im\<lparr>slots := slots im @ [r]\<rparr>)" "keys_ok (im\<lparr>slots := slots im @ [r]\<rparr>)"
    using ok by (simp_all add: image_defs)
  moreover have "set (slots im @ [r]) - {r} = set (slots im)" using new by auto
  ultimately show "spare ptr_max (im\<lparr>slots := slots im @ [r]\<rparr>) r"
    using ok contig_le [OF c] by (simp add: spare_def image_ok_def sets_ok_def slot_ok_def)
qed

lemma store_append_spec:
  assumes st: "stored ptr_max im db" and lk: "locks db = [chain_lock w h]" "chainoff db = 7 + 7 * int h"
    and key: "hashk key = h" "lookup im key = None" and v: "valid_rec key data" and rm: "room ptr_max db key data"
  shows "\<exists>im' db'. store_append ptr_max db key data (int (ptr im (7 + 7 * h))) = Some db' \<and> stored ptr_max im' db' \<and>
    locks db' = [chain_lock w h] \<and> chainoff db' = chainoff db \<and> lookup im' = (lookup im)(key \<mapsto> data) \<and> length (slots im') \<le> Suc (length (slots im))"
proof -
  define r where "r = length (fbytes (idxfd db))"
  define d where "d = length (fbytes (datfd db))"
  define l where "l = Suc (length data)"
  define im1 where "im1 = im\<lparr>slots := slots im @ [r]\<rparr>"
  note sp = append_spare [OF st r_def, folded im1_def]
  have h: "h < 137" using key(1) hashk_less by blast
  have rp: "int r \<le> ptr_max" "r \<le> 9999999" "length (body key d l) \<le> 1024" "d < 2 ^ 63"
    using rm storedD(9) [OF st] by (auto simp: room_def r_def d_def l_def)
  have g: "good_rec key d l"
    using v rp valid_body [OF v, of d l] by (auto simp: good_rec_def valid_rec_def l_def)
  define db1 where "db1 = db\<lparr>datoff := int d, datlen := int l,
      datfd := \<lparr>fbytes = overwrite (fbytes (datfd db)) d (data @ [NEWLINE]), fpos = d + length data + 1\<rparr>\<rparr>"
  define db2 where "db2 = db1\<lparr>ptrval := int (ptr im (7 + 7 * h)), idxbuf := body key d l, idxoff := int r,
      idxfd := \<lparr>fbytes = overwrite (fbytes (idxfd db)) r (pfield (ptr im (7 + 7 * h)) @ rtail key d l),
        fpos = r + length (pfield (ptr im (7 + 7 * h)) @ rtail key d l)\<rparr>\<rparr>"
  define db3 where "db3 = db2\<lparr>idxfd := \<lparr>fbytes = overwrite (fbytes (idxfd db2)) (7 + 7 * h) (pfield r), fpos = 7 + 7 * h + length (pfield r)\<rparr>\<rparr>"
  have hb: "int (ptr im (7 + 7 * h)) \<le> ptr_max" "ptr im (7 + 7 * h) \<le> 9999999"
    using ptr_bound [OF st, of "7 + 7 * h"] storedD(9) [OF st] h by auto
  have w1: "db_writedat db data 0 SEEK_END = Some db1"
    using db_writedat_end [of db "[chain_lock w h]" d data] lk by (simp add: db1_def d_def l_def chain_lock_def)
  have w2: "db_writeidx ptr_max db1 key 0 SEEK_END (int (ptr im (7 + 7 * h))) = Some db2"
    using db_writeidx_end [of "ptr im (7 + 7 * h)" ptr_max db1 d l key "[chain_lock w h]" r] hb g lk
    by (simp add: db1_def db2_def r_def good_rec_def chain_lock_def)
  have w3: "db_writeptr ptr_max db2 (int (7 + 7 * h)) (int r) = Some db3"
    using db_writeptr_eq [OF rp(1), of db2 "7 + 7 * h"] by (simp add: db3_def)
  have app: "store_append ptr_max db key data (int (ptr im (7 + 7 * h))) = Some db3"
    using w1 w2 w3 lk(2) by (simp add: store_append_def db2_def db1_def)
  let ?im = "ins_image im1 h r key d data"
  have tail1: "tail_of (im\<lparr>slots := slots im @ [r]\<rparr>) = tail_of im" by (simp add: tail_of_def fun_eq_iff)
  have "idx_view (fbytes (idxfd db2)) (slots im1) ((ptr im)(r := ptr im (7 + 7 * h))) ((tail_of im)(r := rtail key d l))"
    using idx_view_append(1) [OF stored_views(1) [OF st] r_def hb(2), of "rtail key d l"] by (simp add: db2_def im1_def)
  from idx_view_ptr [OF this _ rp(2), of "7 + 7 * h"]
  have "idx_view (fbytes (idxfd db3)) (slots im1) (ptr ?im) (tail_of ?im)"
    using h tail1 by (simp add: db3_def ptr_ins tail_ins im1_def l_def)
  moreover have "dat_view (fbytes (datfd db3)) (slots im1) (datof ?im) (valof ?im)"
    using dat_view_append [OF stored_views(2) [OF st] sp(2) d_def, of data] by (simp add: db3_def db2_def db1_def im1_def)
  moreover have "slot_ok ptr_max ?im r"
    using sp(1) g rp(1) v by (simp add: slot_ok_def spare_def valid_rec_def l_def)
  then have "image_ok ptr_max ?im"
    using key by (intro ins_image_ok [OF sp(1)]) (simp_all add: im1_def lookup_None)
  ultimately have "stored ptr_max ?im db3" using st by (simp add: stored_def db3_def db2_def db1_def)
  moreover have "lookup im1 = lookup im" by (simp add: im1_def lookup_def fun_eq_iff)
  then have "lookup ?im = (lookup im)(key \<mapsto> data)" using lookup_ins [OF sp(1) key(1)] by simp
  moreover have "length (slots ?im) \<le> Suc (length (slots im))" by (simp add: im1_def)
  moreover have "locks db3 = [chain_lock w h]" "chainoff db3 = chainoff db" using lk by (simp_all add: db3_def db2_def db1_def)
  ultimately show ?thesis using app by blast
qed

lemma store_reuse_spec:
  assumes ok: "image_ok ptr_max im" and fr: "free im = xs @ r # ys" and sh: "shows_image (take_image im xs r ys) db"
    and at: "at_rec im r db" and len: "length key = length (keyof im r)" "length data = length (valof im r)"
    and lk: "locks db = [chain_lock w h]" "chainoff db = 7 + 7 * int h"
    and key: "hashk key = h" "lookup im key = None" and v: "valid_rec key data"
    and hb: "int (ptr im (7 + 7 * h)) \<le> ptr_max"
  shows "\<exists>im' db'. store_reuse ptr_max db key data (int (ptr im (7 + 7 * h))) = Some db' \<and> stored ptr_max im' db' \<and>
    locks db' = [chain_lock w h] \<and> chainoff db' = chainoff db \<and> lookup im' = (lookup im)(key \<mapsto> data) \<and> length (slots im') \<le> Suc (length (slots im))"
proof -
  define im1 where "im1 = take_image im xs r ys"
  define d where "d = datof im r"
  define l where "l = Suc (length data)"
  define n where "n = 7 + 7 * h"
  have sp: "spare ptr_max im1 r" unfolding im1_def by (rule take_spare [OF ok fr])
  have h: "h < 137" using key(1) hashk_less by blast
  have rs: "r \<in> set (slots im)" "slot_ok ptr_max im r" using ok fr by (auto simp: image_ok_def sets_ok_def)
  have pm: "ptr_max \<le> 9999999" "int r \<le> ptr_max" using ok rs(2) by (auto simp: image_ok_def slot_ok_def)
  have "last (0 # xs) \<in> set (0 # xs)" by (rule last_in_set) simp
  moreover have "967 \<le> q" if "q \<in> set xs" for q using ok fr that by (auto simp: image_ok_def sets_ok_def slot_ok_def)
  ultimately have "last (0 # xs) = 0 \<or> 967 \<le> last (0 # xs)" by (metis set_ConsD)
  then have "last (0 # xs) \<noteq> n" using h unfolding n_def by linarith
  then have ptr_n: "ptr im1 n = ptr im n" by (simp add: im1_def take_image_def)
  have g: "good_rec key d l"
    using v rs(2) len valid_body [OF v, of d l] by (auto simp: good_rec_def valid_rec_def l_def d_def slot_ok_def length_body)
  define db1 where "db1 = db\<lparr>datoff := int d, datlen := int l,
      datfd := \<lparr>fbytes = overwrite (fbytes (datfd db)) d (data @ [NEWLINE]), fpos = d + length data + 1\<rparr>\<rparr>"
  define db2 where "db2 = db1\<lparr>ptrval := int (ptr im n), idxbuf := body key d l, idxoff := int r,
      idxfd := \<lparr>fbytes = overwrite (fbytes (idxfd db)) r (pfield (ptr im n) @ rtail key d l),
        fpos = r + length (pfield (ptr im n) @ rtail key d l)\<rparr>\<rparr>"
  define db3 where "db3 = db2\<lparr>idxfd := \<lparr>fbytes = overwrite (fbytes (idxfd db2)) n (pfield r), fpos = n + length (pfield r)\<rparr>\<rparr>"
  have w1: "db_writedat db data (int d) SEEK_SET = Some db1" by (simp add: db_writedat_set db1_def l_def)
  have w2: "db_writeidx ptr_max db1 key (int r) SEEK_SET (int (ptr im n)) = Some db2"
    using db_writeidx_set [of "ptr im n" ptr_max db1 d l key r] hb g
    by (simp add: db1_def db2_def good_rec_def n_def)
  have w3: "db_writeptr ptr_max db2 (int n) (int r) = Some db3"
    using db_writeptr_eq [OF pm(2), of db2 n] by (simp add: db3_def)
  have app: "store_reuse ptr_max db key data (int (ptr im n)) = Some db3"
    using w1 w2 w3 lk(2) at by (simp add: store_reuse_def db2_def db1_def at_rec_def d_def n_def)
  let ?im = "ins_image im1 h r key d data"
  have vw: "idx_view (fbytes (idxfd db)) (slots im1) (ptr im1) (tail_of im1)"
    "dat_view (fbytes (datfd db)) (slots im1) (datof im1) (valof im1)" using sh by (simp_all add: shows_image_def im1_def)
  have lt: "length (rtail key d l) = length (tail_of im1 r)"
    using g rs(2) len by (simp add: tail_of_def im1_def slot_ok_def length_body d_def l_def)
  have "idx_view (fbytes (idxfd db2)) (slots im1) ((ptr im1)(r := ptr im n)) ((tail_of im1)(r := rtail key d l))"
    using idx_view_slot [OF vw(1) _ _ lt, of "ptr im n"] hb pm rs(1) by (simp add: db2_def im1_def n_def)
  from idx_view_ptr [OF this, of n r]
  have "idx_view (fbytes (idxfd db3)) (slots im1) (ptr ?im) (tail_of ?im)"
    using h pm ptr_n by (simp add: db3_def ptr_ins tail_ins l_def n_def)
  moreover have "dat_view (fbytes (datfd db3)) (slots im1) (datof ?im) (valof ?im)"
    using dat_view_slot [OF vw(2), of r data] rs(1) len by (simp add: db3_def db2_def db1_def im1_def d_def)
  moreover have "slot_ok ptr_max ?im r"
    using rs(2) g v by (simp add: slot_ok_def valid_rec_def l_def)
  then have "image_ok ptr_max ?im"
    using key by (intro ins_image_ok [OF sp]) (simp_all add: im1_def lookup_None)
  ultimately have "stored ptr_max ?im db3" using sh by (simp add: stored_def shows_image_def db3_def db2_def db1_def)
  moreover have "lookup ?im = (lookup im)(key \<mapsto> data)" using lookup_ins [OF sp key(1)] by (simp add: im1_def)
  moreover have "length (slots ?im) \<le> Suc (length (slots im))" by (simp add: im1_def)
  moreover have "locks db3 = [chain_lock w h]" "chainoff db3 = chainoff db" using lk by (simp_all add: db3_def db2_def db1_def)
  ultimately show ?thesis using app unfolding n_def by blast
qed

section \<open>Storing\<close>

text \<open>The sizes of the files are determined by the slots.\<close>

lemma contig_end: "contig off sz s rs e \<Longrightarrow> contig off sz' s rs e' \<Longrightarrow> (\<And>r. r \<in> set rs \<Longrightarrow> sz r = sz' r) \<Longrightarrow> e = e'"
  by (induction rs arbitrary: s) auto

lemma room_same:
  assumes "stored ptr_max im db" "stored ptr_max im' db'" "slots im' = slots im" "datof im' = datof im"
    and "\<And>r. r \<in> set (slots im) \<Longrightarrow> length (tail_of im r) = length (tail_of im' r) \<and> length (valof im r) = length (valof im' r)"
  shows "room ptr_max db' key data = room ptr_max db key data"
proof -
  have "length (fbytes (idxfd db)) = length (fbytes (idxfd db'))"
    by (rule contig_end [OF idx_viewD(1) [OF stored_views(1) [OF assms(1)]]
          idx_viewD(1) [OF stored_views(1) [OF assms(2)], unfolded assms(3)]]) (use assms(5) in simp)
  moreover have "contig (datof im) (\<lambda>r. Suc (length (valof im r))) 0 (slots im) (length (fbytes (datfd db)))"
    "contig (datof im) (\<lambda>r. Suc (length (valof im' r))) 0 (slots im) (length (fbytes (datfd db')))"
    using stored_views(2) [OF assms(1)] stored_views(2) [OF assms(2)] assms(3,4) by (simp_all add: dat_view_def)
  then have "length (fbytes (datfd db)) = length (fbytes (datfd db'))" by (rule contig_end) (simp add: assms(5))
  ultimately show ?thesis by (simp add: room_def)
qed

lemma room_keep: "stored ptr_max im db \<Longrightarrow> stored ptr_max im db' \<Longrightarrow> room ptr_max db' key data = room ptr_max db key data"
  by (rule room_same) auto

lemma room_del:
  assumes "stored ptr_max im db" "stored ptr_max (del_image im h xs r ys) db'" "r \<in> set (slots im)"
  shows "room ptr_max db' key data = room ptr_max db key data"
proof (rule room_same [OF assms(1,2)])
  fix q assume "q \<in> set (slots im)"
  have "slot_ok ptr_max im r" "slot_ok ptr_max (del_image im h xs r ys) r"
    using storedD(1) [OF assms(1) assms(3)] storedD(1) [OF assms(2), of r] assms(3) by simp_all
  then show "length (tail_of im q) = length (tail_of (del_image im h xs r ys) q) \<and>
      length (valof im q) = length (valof (del_image im h xs r ys) q)"
    by (cases "q = r") (auto simp: tail_of_def slot_ok_def length_body)
qed simp_all

text \<open>Overwriting the data of a record by data of the same length.\<close>

lemma overwrite_spec:
  assumes st: "stored ptr_max im db" and h: "chains im (hashk key) = xs @ r # ys" "keyof im r = key"
    and at: "at_rec im r db" and len: "length data = length (valof im r)" and v: "valid_rec key data"
  shows "\<exists>im' db'. db_writedat db data (datoff db) SEEK_SET = Some db' \<and> stored ptr_max im' db' \<and>
    locks db' = locks db \<and> chainoff db' = chainoff db \<and> lookup im' = (lookup im)(key \<mapsto> data) \<and> length (slots im') \<le> Suc (length (slots im))"
proof -
  let ?im = "im\<lparr>valof := (valof im)(r := data)\<rparr>"
  have ok: "image_ok ptr_max im" using st by (simp add: stored_def)
  note f = chain_facts [OF ok hashk_less h(1)]
  define db1 where "db1 = db\<lparr>datoff := int (datof im r), datlen := int (length data) + 1,
      datfd := \<lparr>fbytes = overwrite (fbytes (datfd db)) (datof im r) (data @ [NEWLINE]), fpos = datof im r + length data + 1\<rparr>\<rparr>"
  have w: "db_writedat db data (datoff db) SEEK_SET = Some db1"
    using at by (simp add: db_writedat_set db1_def at_rec_def)
  have "slot_ok ptr_max ?im q" if "q \<in> set (slots im)" for q
    using storedD(1) [OF st that] len v by (auto simp: slot_ok_def valid_rec_def)
  then have "image_ok ptr_max ?im" using ok by (simp add: image_ok_def links_ok_def sets_ok_def keys_ok_def)
  moreover have "tail_of ?im = tail_of im" using len by (auto simp: tail_of_def fun_eq_iff)
  moreover have "dat_view (fbytes (datfd db1)) (slots im) (datof im) ((valof im)(r := data))"
    using dat_view_slot [OF stored_views(2) [OF st] f(1) len] by (simp add: db1_def)
  ultimately have "stored ptr_max ?im db1" using st by (simp add: stored_def db1_def)
  moreover have "lookup ?im k = ((lookup im)(key \<mapsto> data)) k" for k
  proof (cases "k = key")
    case True
    have "\<forall>x \<in> set xs. keyof im x \<noteq> key" using chain_keys(1) [OF st hashk_less h(1)] h(2) by (metis image_eqI)
    from find_first [OF this h(2), of ys] show ?thesis using True h by (simp add: lookup_def)
  next
    case False
    then have "q \<noteq> r" if "find (\<lambda>q. keyof im q = k) (chains im (hashk k)) = Some q" for q
      using that h(2) by (auto simp: find_Some_iff)
    then show ?thesis using False
      by (cases "find (\<lambda>q. keyof im q = k) (chains im (hashk k))") (auto simp: lookup_def)
  qed
  ultimately show ?thesis using w by (fastforce simp: db1_def)
qed

lemma db_store_missing:
  assumes rp: "represents ptr_max im db" and v: "valid_rec key data" and rm: "room ptr_max db key data"
    and miss: "lookup im key = None" and flag: "flag = DB_INSERT \<or> flag = DB_STORE"
  shows "\<exists>im' db'. db_store ptr_max db key data flag = Some (0, db') \<and> represents ptr_max im' db' \<and>
    lookup im' = (lookup im)(key \<mapsto> data) \<and> length (slots im') \<le> Suc (length (slots im))"
proof -
  define h where "h = hashk key"
  have st: "stored ptr_max im db" and h: "h < 137" using rp by (auto simp: represents_def h_def)
  obtain db1 where f: "db_find_and_lock db key True = Some (-1, db1)" "stored ptr_max im db1"
      "locks db1 = [chain_lock True h]" "chainoff db1 = 7 + 7 * int h"
    using miss by (cases rule: find_cases [OF rp, of key True]) (auto simp: h_def)
  obtain db2 where r: "db_readptr db1 (chainoff db1) = Some (int (ptr im (7 + 7 * h)), db2)" "keeps db1 db2"
    using readptr_node [OF f(2), of "7 + 7 * h"] f(4) h by auto
  have st2: "stored ptr_max im db2" using stored_keeps [OF r(2) f(2)] .
  have lk2: "locks db2 = [chain_lock True h]" "chainoff db2 = 7 + 7 * int h" using r(2) f by (simp_all add: keeps_def)
  define kl where "kl = int (length key)"
  define dl where "dl = int (length data) + 1"
  obtain rc db3 where ff: "db_findfree ptr_max db2 kl dl = Some (rc, db3)" and lk3: "locks db3 = [chain_lock True h]"
      "chainoff db3 = chainoff db2" and c: "rc = -1 \<and> stored ptr_max im db3 \<or>
     rc = 0 \<and> (\<exists>xs r ys. free im = xs @ r # ys \<and> shows_image (take_image im xs r ys) db3 \<and> at_rec im r db3 \<and>
       int (length (keyof im r)) = kl \<and> int (Suc (length (valof im r))) = dl)"
    using findfree_spec [OF st2 lk2(1) h, of kl dl] by blast
  have c3: "chainoff db3 = 7 + 7 * int h" using lk3(2) lk2(2) by simp
  have "\<exists>im' db4. (if rc < 0 then store_append ptr_max db3 key data (int (ptr im (7 + 7 * h)))
      else store_reuse ptr_max db3 key data (int (ptr im (7 + 7 * h)))) = Some db4 \<and> stored ptr_max im' db4 \<and>
      locks db4 = [chain_lock True h] \<and> chainoff db4 = chainoff db3 \<and> lookup im' = (lookup im)(key \<mapsto> data) \<and>
      length (slots im') \<le> Suc (length (slots im))"
    using c
  proof
    assume a: "rc = -1 \<and> stored ptr_max im db3"
    then have st3: "stored ptr_max im db3" and "room ptr_max db3 key data" using room_keep [OF st] rm by blast+
    from store_append_spec [OF st3 lk3(1) c3 h_def [symmetric] miss v this(2)] a show ?thesis by simp
  next
    assume "rc = 0 \<and> (\<exists>xs r ys. free im = xs @ r # ys \<and> shows_image (take_image im xs r ys) db3 \<and> at_rec im r db3 \<and>
       int (length (keyof im r)) = kl \<and> int (Suc (length (valof im r))) = dl)"
    then obtain xs r ys where a: "rc = 0" "free im = xs @ r # ys" "shows_image (take_image im xs r ys) db3" "at_rec im r db3"
       "length key = length (keyof im r)" "length data = length (valof im r)" by (auto simp: kl_def dl_def)
    have hb: "int (ptr im (7 + 7 * h)) \<le> ptr_max" using ptr_bound [OF st, of "7 + 7 * h"] h by simp
    have "image_ok ptr_max im" using st by (simp add: stored_def)
    from store_reuse_spec [OF this a(2-6) lk3(1) c3 h_def [symmetric] miss v hb] a(1) show ?thesis by simp
  qed
  then obtain im' db4 where w: "(if rc < 0 then store_append ptr_max db3 key data (int (ptr im (7 + 7 * h)))
      else store_reuse ptr_max db3 key data (int (ptr im (7 + 7 * h)))) = Some db4" and st4: "stored ptr_max im' db4"
      "locks db4 = [chain_lock True h]" "chainoff db4 = 7 + 7 * int h" "lookup im' = (lookup im)(key \<mapsto> data)" "length (slots im') \<le> Suc (length (slots im))"
    using lk3(2) lk2(2) by auto
  have dl: "\<not> dl < DATLEN_MIN" "\<not> dl > DATLEN_MAX" using v by (cases data; auto simp: dl_def valid_rec_def db_consts)+
  have fl: "(flag \<noteq> DB_INSERT \<and> flag \<noteq> DB_REPLACE \<and> flag \<noteq> DB_STORE) = False" "(flag = DB_REPLACE) = False"
    using flag by (auto simp: db_consts)
  define db5 where "db5 = (if rc < 0 then db4\<lparr>cnt_stor1 := cnt_stor1 db4 + 1\<rparr> else db4\<lparr>cnt_stor2 := cnt_stor2 db4 + 1\<rparr>)"
  have st5: "(if rc < 0
       then do { db \<leftarrow> store_append ptr_max db3 key data (int (ptr im (7 + 7 * h))); Some (db\<lparr>cnt_stor1 := cnt_stor1 db + 1\<rparr>) }
       else do { db \<leftarrow> store_reuse ptr_max db3 key data (int (ptr im (7 + 7 * h))); Some (db\<lparr>cnt_stor2 := cnt_stor2 db + 1\<rparr>) }) = Some db5"
    using w by (cases "rc < 0") (simp_all add: db5_def)
  have l5: "un_lock db5 IDX (chainoff db5) 1 = db5\<lparr>locks := []\<rparr>" using st4 by (simp add: db5_def)
  have "db_store ptr_max db key data flag = Some (0, db5\<lparr>locks := []\<rparr>)"
    using dl flag unfolding dl_def
    by (simp add: db_store_def Let_def fl f(1) r(1) ff [unfolded kl_def dl_def] st5 l5 del: un_chain)
  moreover have "represents ptr_max im' (db5\<lparr>locks := []\<rparr>)" using st4(1) by (simp add: represents_def stored_def db5_def)
  ultimately show ?thesis using st4(4,5) by blast
qed

lemma db_store_found:
  assumes rp: "represents ptr_max im db" and v: "valid_rec key data" and rm: "room ptr_max db key data"
    and hit: "lookup im key \<noteq> None" and flag: "flag = DB_REPLACE \<or> flag = DB_STORE"
  shows "\<exists>im' db'. db_store ptr_max db key data flag = Some (0, db') \<and> represents ptr_max im' db' \<and>
    lookup im' = (lookup im)(key \<mapsto> data) \<and> length (slots im') \<le> Suc (length (slots im))"
proof -
  define h where "h = hashk key"
  define dl where "dl = int (length data) + 1"
  have st: "stored ptr_max im db" and h: "h < 137" using rp by (auto simp: represents_def h_def)
  have ok: "image_ok ptr_max im" using st by (simp add: stored_def)
  have dl: "\<not> dl < DATLEN_MIN" "\<not> dl > DATLEN_MAX" using v by (cases data; auto simp: dl_def valid_rec_def db_consts)+
  have fl: "(flag \<noteq> DB_INSERT \<and> flag \<noteq> DB_REPLACE \<and> flag \<noteq> DB_STORE) = False" "(flag = DB_INSERT) = False"
    using flag by (auto simp: db_consts)
  obtain db1 xs r ys where f: "db_find_and_lock db key True = Some (0, db1)" "stored ptr_max im db1"
      "locks db1 = [chain_lock True h]" "chainoff db1 = 7 + 7 * int h" and c: "chains im h = xs @ r # ys" "keyof im r = key"
      and at: "at_rec im r db1" "ptroff db1 = int (last ((7 + 7 * h) # xs))"
    using hit by (cases rule: find_cases [OF rp, of key True]) (auto simp: h_def)
  have dd: "datlen db1 = int (Suc (length (valof im r)))" using at by (simp add: at_rec_def)
  show ?thesis
  proof (cases "dl = datlen db1")
    case True
    then have "length data = length (valof im r)" using dd by (simp add: dl_def)
    from overwrite_spec [OF f(2) c(1) [unfolded h_def] c(2) at(1) this v]
    obtain im' db2 where w: "db_writedat db1 data (datoff db1) SEEK_SET = Some db2" "stored ptr_max im' db2"
        "locks db2 = locks db1" "chainoff db2 = chainoff db1" "lookup im' = (lookup im)(key \<mapsto> data)"
        "length (slots im') \<le> Suc (length (slots im))" by blast
    have "db_store ptr_max db key data flag = Some (0, db2\<lparr>cnt_stor4 := cnt_stor4 db2 + 1, locks := []\<rparr>)"
      using dl flag f w(1,3,4) True unfolding dl_def by (simp add: db_store_def Let_def fl)
    moreover have "represents ptr_max im' (db2\<lparr>cnt_stor4 := cnt_stor4 db2 + 1, locks := []\<rparr>)"
      using w(2) by (simp add: represents_def stored_def)
    ultimately show ?thesis using w(5,6) by blast
  next
    case False
    obtain db2 where d: "db_dodelete ptr_max db1 = Some db2" "stored ptr_max (del_image im h xs r ys) db2"
        "locks db2 = [chain_lock True h]" "chainoff db2 = chainoff db1"
      using dodelete_spec [OF f(2) h c(1) at f(3)] by blast
    let ?im = "del_image im h xs r ys"
    obtain db3 where rd: "db_readptr db2 (chainoff db2) = Some (int (ptr ?im (7 + 7 * h)), db3)" "keeps db2 db3"
      using readptr_node [OF d(2), of "7 + 7 * h"] d(4) f(4) h by auto
    have st3: "stored ptr_max ?im db3" using stored_keeps [OF rd(2) d(2)] .
    have lk3: "locks db3 = [chain_lock True h]" "chainoff db3 = 7 + 7 * int h" using rd(2) d f(4) by (simp_all add: keeps_def)
    have del: "lookup ?im = (lookup im)(key := None)" using lookup_del [OF ok h c] .
    have "room ptr_max db3 key data" using room_del [OF st st3] chain_facts(1) [OF ok h c(1)] rm by blast
    from store_append_spec [OF st3 lk3 h_def [symmetric] _ v this]
    obtain im' db4 where w: "store_append ptr_max db3 key data (int (ptr ?im (7 + 7 * h))) = Some db4" "stored ptr_max im' db4"
        "locks db4 = [chain_lock True h]" "chainoff db4 = 7 + 7 * int h" "lookup im' = (lookup ?im)(key \<mapsto> data)"
        "length (slots im') \<le> Suc (length (slots im))"
      using del lk3(2) by auto
    have "db_store ptr_max db key data flag = Some (0, db4\<lparr>cnt_stor3 := cnt_stor3 db4 + 1, locks := []\<rparr>)"
      using dl flag False unfolding dl_def by (simp add: db_store_def Let_def fl f(1) d(1) rd(1) w(1,3,4))
    moreover have "represents ptr_max im' (db4\<lparr>cnt_stor3 := cnt_stor3 db4 + 1, locks := []\<rparr>)"
      using w(2) by (simp add: represents_def stored_def)
    ultimately show ?thesis using w(5,6) del by simp blast
  qed
qed

lemma db_store_refused:
  assumes rp: "represents ptr_max im db" and v: "valid_rec key data"
  shows "lookup im key = None \<Longrightarrow> \<exists>db'. db_store ptr_max db key data DB_REPLACE = Some (-1, db') \<and>
      represents ptr_max im db' \<and> errno db' = ENOENT"
    and "lookup im key \<noteq> None \<Longrightarrow> \<exists>db'. db_store ptr_max db key data DB_INSERT = Some (1, db') \<and> represents ptr_max im db'"
proof -
  have dl: "\<not> int (length data) + 1 < DATLEN_MIN" "\<not> int (length data) + 1 > DATLEN_MAX"
    using v by (cases data; auto simp: valid_rec_def db_consts)+
  show "\<exists>db'. db_store ptr_max db key data DB_REPLACE = Some (-1, db') \<and> represents ptr_max im db' \<and> errno db' = ENOENT"
    if "lookup im key = None"
    using that dl by (cases rule: find_cases [OF rp, of key True]) (auto simp: db_store_def Let_def represents_def stored_def)
  show "\<exists>db'. db_store ptr_max db key data DB_INSERT = Some (1, db') \<and> represents ptr_max im db'"
    if "lookup im key \<noteq> None"
    using that dl by (cases rule: find_cases [OF rp, of key True]) (auto simp: db_store_def Let_def represents_def stored_def DB_INSERT_def DB_REPLACE_def)
qed

end
