(* ===== verification/Db20_Model.thy ===== *)
theory Db20_Model
  imports Db_Model
begin

text \<open>
  \<open>src/apue/20db/db.c\<close>: the same library typed in again without the comments. Line by line
  the functions are those of \<open>apue.3e/db/db.c\<close>; what differs is the constant \<open>PTR_MAX\<close>, which is
  999999 here although pointer fields have seven digits. Each function is the one of
  \<^theory_text>\<open>Db_Model\<close>, those that check pointers at this constant. The theory also holds the test
  program \<open>db_test.c\<close> and the program \<open>apue.3e/db/t4.c\<close>, as the sequence of their calls.
\<close>

definition PTR_MAX_20 :: int where "PTR_MAX_20 = 999999"

definition db20_open :: "(string \<rightharpoonup> string) \<Rightarrow> string \<Rightarrow> oflags \<Rightarrow> (DB option \<times> (string \<rightharpoonup> string)) option" where
  "db20_open fs pathname oflag = db_open fs pathname oflag"

definition db20_alloc :: DB where
  "db20_alloc = db_alloc"

definition db20_free :: "(string \<rightharpoonup> string) \<Rightarrow> DB \<Rightarrow> (string \<rightharpoonup> string)" where
  "db20_free fs db = db_free fs db"

definition db20_close :: "(string \<rightharpoonup> string) \<Rightarrow> DB \<Rightarrow> (string \<rightharpoonup> string)" where
  "db20_close fs h = db20_free fs h"

definition db20_hash :: "DB \<Rightarrow> string \<Rightarrow> nat" where
  "db20_hash db key = db_hash db key"

definition db20_readptr :: "DB \<Rightarrow> int \<Rightarrow> (int \<times> DB) option" where
  "db20_readptr db offset = db_readptr db offset"

definition db20_readidx :: "DB \<Rightarrow> int \<Rightarrow> (int \<times> DB) option" where
  "db20_readidx db offset = db_readidx db offset"

definition db20_readdat :: "DB \<Rightarrow> (string \<times> DB) option" where
  "db20_readdat db = db_readdat db"

definition db20_writedat :: "DB \<Rightarrow> string \<Rightarrow> int \<Rightarrow> whence \<Rightarrow> DB option" where
  "db20_writedat db data offset whence = db_writedat db data offset whence"

definition db20_writeidx :: "DB \<Rightarrow> string \<Rightarrow> int \<Rightarrow> whence \<Rightarrow> int \<Rightarrow> DB option" where
  "db20_writeidx db key offset whence ptr = db_writeidx PTR_MAX_20 db key offset whence ptr"

definition db20_writeptr :: "DB \<Rightarrow> int \<Rightarrow> int \<Rightarrow> DB option" where
  "db20_writeptr db offset ptr = db_writeptr PTR_MAX_20 db offset ptr"

definition db20_find_and_lock :: "DB \<Rightarrow> string \<Rightarrow> bool \<Rightarrow> (int \<times> DB) option" where
  "db20_find_and_lock db key writelock = db_find_and_lock db key writelock"

definition db20_findfree :: "DB \<Rightarrow> int \<Rightarrow> int \<Rightarrow> (int \<times> DB) option" where
  "db20_findfree db keylen dlen = db_findfree PTR_MAX_20 db keylen dlen"

definition db20_fetch :: "DB \<Rightarrow> string \<Rightarrow> (string option \<times> DB) option" where
  "db20_fetch db key = db_fetch db key"

definition db20_dodelete :: "DB \<Rightarrow> DB option" where
  "db20_dodelete db = db_dodelete PTR_MAX_20 db"

definition db20_delete :: "DB \<Rightarrow> string \<Rightarrow> (int \<times> DB) option" where
  "db20_delete db key = db_delete PTR_MAX_20 db key"

definition db20_store :: "DB \<Rightarrow> string \<Rightarrow> string \<Rightarrow> int \<Rightarrow> (int \<times> DB) option" where
  "db20_store db key data flag = db_store PTR_MAX_20 db key data flag"

definition db20_rewind :: "DB \<Rightarrow> DB option" where
  "db20_rewind db = db_rewind db"

definition db20_nextrec :: "DB \<Rightarrow> ((string \<times> string) option \<times> DB) option" where
  "db20_nextrec db = db_nextrec db"

section \<open>The test programs\<close>

text \<open>\<open>err_sys\<close> and \<open>err_quit\<close> end the process (\<^const>\<open>None\<close>); the result is what the program prints and
  the file system it leaves.\<close>

definition must_be_zero :: "(int \<times> DB) option \<Rightarrow> DB option" where
  "must_be_zero r = do { (rc, db) \<leftarrow> r; if rc \<noteq> 0 then None else Some db }"

definition db_test_main :: "(string \<rightharpoonup> string) \<Rightarrow> (string list \<times> (string \<rightharpoonup> string)) option" where
  "db_test_main fs = do {
     (h, fs) \<leftarrow> db20_open fs ''db4'' \<lparr>O_CREAT = True, O_TRUNC = True\<rparr>;
     db \<leftarrow> h;
     let out = [''db open ok''];
     db \<leftarrow> must_be_zero (db20_store db ''Alpha'' ''data1'' DB_INSERT);
     db \<leftarrow> must_be_zero (db20_store db ''Beta'' ''Data for beta'' DB_INSERT);
     db \<leftarrow> must_be_zero (db20_store db ''gamma'' ''record3'' DB_INSERT);
     (ptr, db) \<leftarrow> db20_fetch db ''Alpha'';
     let out = out @ [case ptr of Some s \<Rightarrow> ''key Alpha: '' @ s | None \<Rightarrow> ''key Alpha not found''];
     (rc, db) \<leftarrow> db20_delete db ''Alpha'';
     let out = out @ [if rc = -1 then ''key Alpha not found, can't be deleted'' else ''delete key Alpha ok''];
     (rc, db) \<leftarrow> db20_delete db ''xxx'';
     let out = out @ [if rc = -1 then ''key xxx not found, can't be deleted'' else ''delete key xxx ok''];
     (ptr, db) \<leftarrow> db20_fetch db ''Alpha'';
     let out = out @ [case ptr of Some s \<Rightarrow> ''key Alpha: '' @ s | None \<Rightarrow> ''key Alpha not found''];
     db \<leftarrow> must_be_zero (db20_store db ''delta'' ''I am delta'' DB_INSERT);
     db \<leftarrow> must_be_zero (db20_store db ''zeta1'' ''hello'' DB_INSERT);
     db \<leftarrow> must_be_zero (db20_store db ''delta'' ''I am delta1'' DB_REPLACE);
     db \<leftarrow> must_be_zero (db20_store db ''gamma'' ''record4'' DB_REPLACE);
     Some (out, db20_close fs db)
   }"

definition t4_main :: "(string \<rightharpoonup> string) \<Rightarrow> (string \<rightharpoonup> string) option" where
  "t4_main fs = do {
     (h, fs) \<leftarrow> db_open fs ''db4'' \<lparr>O_CREAT = True, O_TRUNC = True\<rparr>;
     db \<leftarrow> h;
     db \<leftarrow> must_be_zero (db_store PTR_MAX db ''Alpha'' ''data1'' DB_INSERT);
     db \<leftarrow> must_be_zero (db_store PTR_MAX db ''beta'' ''Data for beta'' DB_INSERT);
     db \<leftarrow> must_be_zero (db_store PTR_MAX db ''gamma'' ''record3'' DB_INSERT);
     Some (db_close fs db)
   }"

end
