(* ===== verification/Db_Props.thy ===== *)
theory Db_Props
  imports Db_Store Db20_Model
begin

text \<open>
  Creating a database, the sequential scan, and the properties of the library: it refines a
  finite map from keys to data, whatever sequence of operations is executed.
\<close>

section \<open>Creating a database\<close>

definition empty_image :: image where
  "empty_image = \<lparr>slots = [], ptr = (\<lambda>_. 0), keyof = (\<lambda>_. []), datof = (\<lambda>_. 0), valof = (\<lambda>_. []),
     free = [], chains = (\<lambda>_. [])\<rparr>"

lemma has_concat_replicate: "i < n \<Longrightarrow> has (concat (replicate n s) @ t) (length s * i) s"
proof (induction n arbitrary: i)
  case (Suc n)
  show ?case
  proof (cases i)
    case 0
    then show ?thesis by (simp add: has_def)
  next
    case (Suc j)
    then have "has (concat (replicate n s) @ t) (length s * j) s" using Suc.IH [of j] Suc.prems by simp
    then show ?thesis using Suc by (auto simp: has_def)
  qed
qed simp

lemma length_concat_replicate: "length (concat (replicate n s)) = n * length s"
  by (induction n) auto

lemma init_hash_view: "idx_view init_hash [] (\<lambda>_. 0) T"
proof -
  have p: "pad PTR_SZ (dec 0) = pfield 0" by (simp add: pfield_def)
  have "length init_hash = 967"
    by (simp add: init_hash_def p length_concat_replicate NHASH_DEF_def)
  moreover have "has init_hash (7 * i) (pfield 0)" if "i \<le> 137" for i
    using has_concat_replicate [of i "NHASH_DEF + 1" "pfield 0" "[NEWLINE]"] that
    by (simp add: init_hash_def p NHASH_DEF_def)
  ultimately show ?thesis by (auto simp: idx_view_def nodes_def)
qed

lemma empty_image_ok: "0 \<le> ptr_max \<Longrightarrow> ptr_max \<le> 9999999 \<Longrightarrow> image_ok ptr_max empty_image"
  by (simp add: image_defs empty_image_def)

lemma db_open_spec:
  assumes "0 \<le> ptr_max" "ptr_max \<le> 9999999"
  shows "\<exists>db fs'. db_open fs pn \<lparr>O_CREAT = True, O_TRUNC = True\<rparr> = Some (Some db, fs') \<and>
    represents ptr_max empty_image db \<and> fpos (idxfd db) = 967"
proof -
  have o: "\<exists>fs'. open_file fs p \<lparr>O_CREAT = True, O_TRUNC = True\<rparr> = Some (\<lparr>fbytes = [], fpos = 0\<rparr>, fs')" for fs p
    by (cases "fs p") (auto simp: open_file_def)
  obtain fs1 where o1: "open_file fs (pn @ ''.idx'') \<lparr>O_CREAT = True, O_TRUNC = True\<rparr> = Some (\<lparr>fbytes = [], fpos = 0\<rparr>, fs1)"
    using o by blast
  obtain fs2 where o2: "open_file fs1 (pn @ ''.dat'') \<lparr>O_CREAT = True, O_TRUNC = True\<rparr> = Some (\<lparr>fbytes = [], fpos = 0\<rparr>, fs2)"
    using o by blast
  have ne: "init_hash \<noteq> []" by (simp add: init_hash_def)
  define db where "db = db_alloc\<lparr>nhash := NHASH_DEF, hashoff := HASH_OFF, name := pn @ ''.dat'',
      idxfd := \<lparr>fbytes = init_hash, fpos = 967\<rparr>, datfd := \<lparr>fbytes = [], fpos = 0\<rparr>, idxoff := 967\<rparr>"
  have "db_open fs pn \<lparr>O_CREAT = True, O_TRUNC = True\<rparr> = Some (Some db, fs2)"
    using o1 o2 ne
    by (simp add: db_open_def Let_def writew_lock_def lock_reg_def un_lock_def db_alloc_def fd_write_def
        overwrite_def db_rewind_def lseek_def NHASH_DEF_def PTR_SZ_def db_def)
  moreover have "represents ptr_max empty_image db"
    using empty_image_ok [OF assms] init_hash_view [of "tail_of empty_image"]
    by (simp add: represents_def stored_def db_def NHASH_DEF_def HASH_OFF_def PTR_SZ_def empty_image_def
        dat_view_def db_alloc_def)
  ultimately show ?thesis by (simp add: db_def)
qed

lemma lookup_empty: "lookup empty_image = Map.empty"
  by (simp add: lookup_def empty_image_def fun_eq_iff)

section \<open>The sequential scan\<close>

definition blank :: "string \<Rightarrow> bool" where
  "blank key \<longleftrightarrow> (\<forall>c \<in> set key. c = SPACE)"

text \<open>The index file is positioned at the start of the records \<open>rs\<close>, the rest of the slots.\<close>

definition at_slots :: "image \<Rightarrow> DB \<Rightarrow> nat list \<Rightarrow> bool" where
  "at_slots im db rs \<longleftrightarrow> set rs \<subseteq> set (slots im) \<and>
     contig (\<lambda>r. r) (\<lambda>r. 7 + length (tail_of im r)) (fpos (idxfd db)) rs (length (fbytes (idxfd db)))"

lemma rewind_at_slots:
  assumes "represents ptr_max im db"
  shows "\<exists>db'. db_rewind db = Some db' \<and> represents ptr_max im db' \<and> at_slots im db' (slots im)"
proof -
  have "db_rewind db = Some (db\<lparr>idxoff := 967, idxfd := (idxfd db)\<lparr>fpos := 967\<rparr>\<rparr>)"
    using assms by (simp add: db_rewind_def lseek_def represents_def stored_def PTR_SZ_def)
  then show ?thesis
    using assms idx_viewD(1) [OF stored_views(1), of ptr_max im db] by (auto simp: represents_def stored_def at_slots_def)
qed

lemma readidx_next:
  assumes st: "stored ptr_max im db" and at: "at_slots im db (r # rs)"
  shows "\<exists>db'. db_readidx db 0 = Some (int (ptr im r), db') \<and> keeps db db' \<and> at_rec im r db' \<and> at_slots im db' rs"
proof -
  note v = stored_views(1) [OF st]
  have r: "r \<in> set (slots im)" "fpos (idxfd db) = r" using at by (auto simp: at_slots_def)
  have ok: "slot_ok ptr_max im r" using storedD(1) [OF st r(1)] .
  have "db_readidx db (int 0) = Some (int (ptr im r), after_readidx db r (ptr im r) (keyof im r) (datof im r) (Suc (length (valof im r))))"
    using idx_viewD(2,3) [OF v, of r] idx_viewD(4) [OF v r(1)] r ok
    by (intro db_readidx_eq) (auto simp: slot_ok_def tail_of_def)
  moreover have "7 + length (tail_of im r) = 11 + length (body (keyof im r) (datof im r) (Suc (length (valof im r))))"
    using ok by (simp add: tail_of_def slot_ok_def)
  ultimately show ?thesis
    using at r(2) by (simp add: after_readidx_def keeps_def at_rec_def at_slots_def add.assoc)
qed

lemma readidx_eof:
  assumes "at_slots im db []"
  shows "db_readidx db 0 = Some (-1, db\<lparr>idxoff := int (fpos (idxfd db))\<rparr>)"
  using assms by (simp add: at_slots_def db_readidx_def lseek_def fd_read_def Let_def db_consts)

lemma nextrec_loop_spec:
  assumes "stored ptr_max im db" "at_slots im db rs"
  shows "\<exists>found db' rs'. nextrec_loop db = Some (found, db') \<and> keeps db db' \<and> at_slots im db' rs' \<and>
    (case dropWhile (\<lambda>r. blank (keyof im r)) rs of [] \<Rightarrow> \<not> found \<and> rs' = []
     | r # qs \<Rightarrow> found \<and> rs' = qs \<and> at_rec im r db')"
  using assms
proof (induction rs arbitrary: db)
  case Nil
  have "nextrec_loop db = Some (False, db\<lparr>idxoff := int (fpos (idxfd db))\<rparr>)"
    by (subst nextrec_loop.simps) (simp add: readidx_eof [OF Nil(2)])
  then show ?case using Nil(2) by (auto simp: keeps_def at_slots_def)
next
  case (Cons r rs)
  obtain db1 where db1: "db_readidx db 0 = Some (int (ptr im r), db1)" "keeps db db1" "at_rec im r db1" "at_slots im db1 rs"
    using readidx_next [OF Cons.prems] by blast
  have ib: "idxbuf db1 = keyof im r" using db1(3) by (simp add: at_rec_def)
  show ?case
  proof (cases "blank (keyof im r)")
    case False
    then have "nextrec_loop db = Some (True, db1)"
      by (subst nextrec_loop.simps) (auto simp: db1(1) ib list_all_iff blank_def)
    then show ?thesis using False db1 by auto
  next
    case True
    then have "nextrec_loop db = nextrec_loop db1"
      by (subst nextrec_loop.simps) (simp add: db1(1) ib list_all_iff blank_def)
    then show ?thesis
      using Cons.IH [OF stored_keeps [OF db1(2) Cons.prems(1)] db1(4)] True keeps_trans [OF db1(2)] by auto
  qed
qed

lemma db_nextrec_spec:
  assumes rp: "represents ptr_max im db" and at: "at_slots im db rs"
  shows "\<exists>db'. represents ptr_max im db' \<and>
    (case dropWhile (\<lambda>r. blank (keyof im r)) rs of
       [] \<Rightarrow> db_nextrec db = Some (None, db') \<and> at_slots im db' []
     | r # qs \<Rightarrow> db_nextrec db = Some (Some (keyof im r, valof im r), db') \<and> at_slots im db' qs)"
proof -
  let ?fl = "\<lparr>lfd = IDX, lexclusive = False, lstart = 0, llen = 1\<rparr>"
  define db0 where "db0 = db\<lparr>locks := [?fl]\<rparr>"
  have l0: "readw_lock db IDX FREE_OFF 1 = db0"
    using rp by (simp add: db0_def readw_lock_def lock_reg_def represents_def FREE_OFF_def)
  have st0: "stored ptr_max im db0" "at_slots im db0 rs" using rp at by (auto simp: db0_def represents_def stored_def at_slots_def)
  obtain found db1 rs' where n: "nextrec_loop db0 = Some (found, db1)" "keeps db0 db1" "at_slots im db1 rs'"
      and c: "case dropWhile (\<lambda>r. blank (keyof im r)) rs of [] \<Rightarrow> \<not> found \<and> rs' = []
     | r # qs \<Rightarrow> found \<and> rs' = qs \<and> at_rec im r db1"
    using nextrec_loop_spec [OF st0] by blast
  have st1: "stored ptr_max im db1" "locks db1 = [?fl]" using stored_keeps [OF n(2) st0(1)] n(2) by (simp_all add: keeps_def db0_def)
  have un: "un_lock d IDX 0 1 = d\<lparr>locks := []\<rparr>" if "locks d = [?fl]" for d using that by (simp add: un_lock_def)
  show ?thesis
  proof (cases "dropWhile (\<lambda>r. blank (keyof im r)) rs")
    case Nil
    then have nf: "\<not> found" "rs' = []" using c unfolding Nil by simp_all
    then have "db_nextrec db = Some (None, db1\<lparr>locks := []\<rparr>)" using l0 n(1) un [OF st1(2)]
      by (simp add: db_nextrec_def Let_def FREE_OFF_def)
    then show ?thesis unfolding Nil using nf n(3) st1(1) by (auto simp: represents_def stored_def at_slots_def)
  next
    case (Cons r qs)
    then have f: "found" "rs' = qs" "at_rec im r db1" using c by auto
    have "r \<in> set rs" using Cons set_dropWhileD [of r "\<lambda>r. blank (keyof im r)" rs] by simp
    then have r: "r \<in> set (slots im)" using at by (auto simp: at_slots_def)
    have "has (fbytes (datfd db1)) (datof im r) (valof im r @ [NEWLINE])" "NUL \<notin> set (valof im r)"
      using stored_views(2) [OF st1(1)] r storedD(1) [OF st1(1) r] by (auto simp: dat_view_def slot_ok_def)
    from db_readdat_eq [OF this]
    have "db_readdat db1 = Some (valof im r, db1\<lparr>datfd := (datfd db1)\<lparr>fpos := Suc (datof im r + length (valof im r))\<rparr>,
        datbuf := valof im r\<rparr>)" using f(3) by (simp add: at_rec_def)
    then have "\<exists>db'. db_nextrec db = Some (Some (keyof im r, valof im r), db') \<and> represents ptr_max im db' \<and> at_slots im db' qs"
      using f l0 n st1 un by (auto simp: db_nextrec_def Let_def at_rec_def represents_def stored_def at_slots_def FREE_OFF_def)
    then show ?thesis using Cons by auto
  qed
qed

text \<open>A client that calls \<open>db_nextrec\<close> until it returns \<open>NULL\<close>, at most \<open>n\<close> times.\<close>

fun nextrecs :: "nat \<Rightarrow> DB \<Rightarrow> ((string \<times> string) list \<times> DB) option" where
  "nextrecs 0 db = None"
| "nextrecs (Suc n) db = do {
     (r, db) \<leftarrow> db_nextrec db;
     (case r of None \<Rightarrow> Some ([], db)
      | Some kd \<Rightarrow> do { (kds, db) \<leftarrow> nextrecs n db; Some (kd # kds, db) })
   }"

lemma nextrecs_spec:
  assumes "represents ptr_max im db" "at_slots im db rs" "length rs < n"
  shows "\<exists>db'. nextrecs n db = Some (map (\<lambda>r. (keyof im r, valof im r)) (filter (\<lambda>r. \<not> blank (keyof im r)) rs), db') \<and>
    represents ptr_max im db'"
  using assms
proof (induction n arbitrary: db rs)
  case (Suc n)
  let ?live = "\<lambda>r. \<not> blank (keyof im r)"
  show ?case
  proof (cases "dropWhile (\<lambda>r. blank (keyof im r)) rs")
    case Nil
    then have "filter ?live rs = []" by (auto simp: filter_empty_conv)
    moreover obtain db' where "db_nextrec db = Some (None, db')" "represents ptr_max im db'"
      using db_nextrec_spec [OF Suc.prems(1,2)] unfolding Nil by auto
    ultimately show ?thesis by simp
  next
    case (Cons r qs)
    have "length (dropWhile (\<lambda>r. blank (keyof im r)) rs) \<le> length rs" by (rule length_dropWhile_le)
    then have qs: "length qs < n" using Suc.prems(3) unfolding Cons by simp
    have "?live r" using hd_dropWhile [of "\<lambda>r. blank (keyof im r)" rs] unfolding Cons by simp
    moreover have "filter ?live rs = filter ?live (dropWhile (\<lambda>r. blank (keyof im r)) rs)"
      by (induction rs) auto
    ultimately have f: "filter ?live rs = r # filter ?live qs" unfolding Cons by simp
    obtain db1 where db1: "db_nextrec db = Some (Some (keyof im r, valof im r), db1)" "represents ptr_max im db1" "at_slots im db1 qs"
      using db_nextrec_spec [OF Suc.prems(1,2)] unfolding Cons by auto
    then show ?thesis using Suc.IH [OF db1(2,3) qs] f by auto
  qed
qed simp

text \<open>The records with a key that is not blank are the entries of the abstract map.\<close>

lemma live_slots:
  assumes st: "stored ptr_max im db"
  defines "rs \<equiv> filter (\<lambda>r. \<not> blank (keyof im r)) (slots im)"
  shows "(\<lambda>r. (keyof im r, valof im r)) ` set rs = {(k, d). lookup im k = Some d \<and> \<not> blank k}"
    and "distinct (map (keyof im) rs)"
proof -
  have ok: "image_ok ptr_max im" using st by (simp add: stored_def)
  have c: "r \<in> set (chains im (hashk (keyof im r)))" if r: "r \<in> set rs" for r
  proof -
    have "r \<notin> set (free im)" using r ok by (auto simp: rs_def blank_def image_ok_def keys_ok_def)
    moreover have "r \<in> set (slots im)" using r by (simp add: rs_def)
    ultimately obtain h where "h < 137" "r \<in> set (chains im h)" using ok by (auto simp: image_ok_def sets_ok_def)
    then show ?thesis using chain_hash [OF ok, of h r] by simp
  qed
  have l: "lookup im (keyof im r) = Some (valof im r)" if "r \<in> set (chains im (hashk (keyof im r)))" for r
    using split_list [OF that] lookup_split [OF st] by blast
  show "(\<lambda>r. (keyof im r, valof im r)) ` set rs = {(k, d). lookup im k = Some d \<and> \<not> blank k}"
  proof (intro equalityI subsetI)
    fix kd assume "kd \<in> (\<lambda>r. (keyof im r, valof im r)) ` set rs"
    then show "kd \<in> {(k, d). lookup im k = Some d \<and> \<not> blank k}" using l c by (auto simp: rs_def)
  next
    fix kd assume "kd \<in> {(k, d). lookup im k = Some d \<and> \<not> blank k}"
    then obtain k d r where kd: "kd = (k, d)" "\<not> blank k" "find (\<lambda>r. keyof im r = k) (chains im (hashk k)) = Some r" "d = valof im r"
      by (auto simp: lookup_def)
    then have "r \<in> set (chains im (hashk k))" "keyof im r = k" by (auto simp: find_Some_iff)
    moreover from this have "r \<in> set (slots im)" using storedD(4) [OF st hashk_less] by blast
    ultimately show "kd \<in> (\<lambda>r. (keyof im r, valof im r)) ` set rs" using kd by (force simp: rs_def)
  qed
  have "distinct (slots im)"
  proof -
    have "distinct rs \<and> (\<forall>r \<in> set rs. s \<le> r)" if "contig (\<lambda>r. r) (\<lambda>r. 7 + length (tail_of im r)) s rs e" for s rs e
      using that
    proof (induction rs arbitrary: s)
      case (Cons r rs)
      then show ?case using Cons.IH [of "s + (7 + length (tail_of im r))"] by fastforce
    qed simp
    then show ?thesis using idx_viewD(1) [OF stored_views(1) [OF st]] by blast
  qed
  moreover have "inj_on (keyof im) (set rs)"
  proof (rule inj_onI)
    fix r q assume rq: "r \<in> set rs" "q \<in> set rs" "keyof im r = keyof im q"
    then have "r \<in> set (chains im (hashk (keyof im r)))" "q \<in> set (chains im (hashk (keyof im r)))" using c [of r] c [of q] by auto
    moreover have "inj_on (keyof im) (set (chains im (hashk (keyof im r))))"
      using ok hashk_less by (auto simp: image_ok_def keys_ok_def distinct_map)
    ultimately show "r = q" using rq(3) by (auto dest: inj_onD)
  qed
  ultimately show "distinct (map (keyof im) rs)" by (simp add: distinct_map rs_def)
qed

section \<open>The contract of a key-value store\<close>

text \<open>What \<open>db_store\<close> promises: the return code and the new map.\<close>

definition store_spec :: "(string \<rightharpoonup> string) \<Rightarrow> string \<Rightarrow> string \<Rightarrow> int \<Rightarrow> int \<times> (string \<rightharpoonup> string)" where
  "store_spec m key data flag =
     (if flag \<noteq> 1 \<and> flag \<noteq> 2 \<and> flag \<noteq> 3 then (-1, m)
      else if m key = None then (if flag = 2 then (-1, m) else (0, m(key \<mapsto> data)))
      else (if flag = 1 then (1, m) else (0, m(key \<mapsto> data))))"

datatype op = Fetch string | Store string string int | Delete string
datatype answer = Data "string option" | Code int

fun spec_ops :: "op list \<Rightarrow> (string \<rightharpoonup> string) \<Rightarrow> answer list \<times> (string \<rightharpoonup> string)" where
  "spec_ops [] m = ([], m)"
| "spec_ops (Fetch k # ops) m = (let (as, m') = spec_ops ops m in (Data (m k) # as, m'))"
| "spec_ops (Store k d flag # ops) m =
     (let (rc, m1) = store_spec m k d flag; (as, m') = spec_ops ops m1 in (Code rc # as, m'))"
| "spec_ops (Delete k # ops) m =
     (let (as, m') = spec_ops ops (m(k := None)) in (Code (if m k = None then -1 else 0) # as, m'))"

fun run_ops :: "('s \<Rightarrow> string \<Rightarrow> (string option \<times> 's) option) \<Rightarrow>
    ('s \<Rightarrow> string \<Rightarrow> string \<Rightarrow> int \<Rightarrow> (int \<times> 's) option) \<Rightarrow> ('s \<Rightarrow> string \<Rightarrow> (int \<times> 's) option) \<Rightarrow>
    op list \<Rightarrow> 's \<Rightarrow> (answer list \<times> 's) option" where
  "run_ops fetch store delete [] s = Some ([], s)"
| "run_ops fetch store delete (Fetch k # ops) s = do {
     (r, s) \<leftarrow> fetch s k; (as, s) \<leftarrow> run_ops fetch store delete ops s; Some (Data r # as, s) }"
| "run_ops fetch store delete (Store k d flag # ops) s = do {
     (r, s) \<leftarrow> store s k d flag; (as, s) \<leftarrow> run_ops fetch store delete ops s; Some (Code r # as, s) }"
| "run_ops fetch store delete (Delete k # ops) s = do {
     (r, s) \<leftarrow> delete s k; (as, s) \<leftarrow> run_ops fetch store delete ops s; Some (Code r # as, s) }"

fun op_ok :: "(string \<Rightarrow> string \<Rightarrow> bool) \<Rightarrow> op \<Rightarrow> bool" where
  "op_ok ok (Store k d flag) = ok k d"
| "op_ok ok _ = True"

locale kv_store =
  fixes rep :: "(string \<rightharpoonup> string) \<Rightarrow> nat \<Rightarrow> 's \<Rightarrow> bool"
    and fetch :: "'s \<Rightarrow> string \<Rightarrow> (string option \<times> 's) option"
    and store :: "'s \<Rightarrow> string \<Rightarrow> string \<Rightarrow> int \<Rightarrow> (int \<times> 's) option"
    and delete :: "'s \<Rightarrow> string \<Rightarrow> (int \<times> 's) option"
    and ok :: "string \<Rightarrow> string \<Rightarrow> bool" and cap :: nat
  assumes fetch_law: "rep m n s \<Longrightarrow> \<exists>s'. fetch s k = Some (m k, s') \<and> rep m n s'"
    and store_law: "rep m n s \<Longrightarrow> n < cap \<Longrightarrow> ok k d \<Longrightarrow>
      \<exists>s'. store s k d flag = Some (fst (store_spec m k d flag), s') \<and> rep (snd (store_spec m k d flag)) (Suc n) s'"
    and delete_law: "rep m n s \<Longrightarrow> \<exists>s'. delete s k = Some (if m k = None then -1 else 0, s') \<and> rep (m(k := None)) n s'"
    and rep_mono: "rep m n s \<Longrightarrow> n \<le> n' \<Longrightarrow> rep m n' s"
begin

lemma run_refines:
  "rep m n s \<Longrightarrow> n + length ops \<le> cap \<Longrightarrow> list_all (op_ok ok) ops \<Longrightarrow>
   \<exists>s'. run_ops fetch store delete ops s = Some (fst (spec_ops ops m), s') \<and> rep (snd (spec_ops ops m)) (n + length ops) s'"
proof (induction ops arbitrary: m n s)
  case (Cons x ops)
  have ih: "\<exists>s'. run_ops fetch store delete ops t = Some (fst (spec_ops ops m'), s') \<and>
      rep (snd (spec_ops ops m')) (n + length (x # ops)) s'" if "rep m' k t" "k \<le> Suc n" for m' k t
    using Cons.IH [OF rep_mono [OF that]] Cons.prems(2,3) by simp
  show ?case
  proof (cases x)
    case (Fetch k)
    obtain t where "fetch s k = Some (m k, t)" "rep m n t" using fetch_law [OF Cons.prems(1)] by blast
    then show ?thesis using ih [of m n t] Fetch by (auto simp: split_beta)
  next
    case (Store k d flag)
    then have "ok k d" "n < cap" using Cons.prems(2,3) by auto
    then obtain t where "store s k d flag = Some (fst (store_spec m k d flag), t)" "rep (snd (store_spec m k d flag)) (Suc n) t"
      using store_law [OF Cons.prems(1)] by blast
    then show ?thesis using ih [of "snd (store_spec m k d flag)" "Suc n" t] Store by (auto simp: split_beta)
  next
    case (Delete k)
    obtain t where "delete s k = Some (if m k = None then -1 else 0, t)" "rep (m(k := None)) n t"
      using delete_law [OF Cons.prems(1)] by blast
    then show ?thesis using ih [of "m(k := None)" n t] Delete by (auto simp: split_beta)
  qed
qed simp

end

section \<open>The database library meets the contract\<close>

definition db_rep :: "int \<Rightarrow> (string \<rightharpoonup> string) \<Rightarrow> nat \<Rightarrow> DB \<Rightarrow> bool" where
  "db_rep ptr_max m n db \<longleftrightarrow> (\<exists>im. represents ptr_max im db \<and> lookup im = m \<and> length (slots im) \<le> n)"

text \<open>An index record has at most 1035 bytes, so this many records fit below the largest pointer.\<close>

definition db_cap :: "int \<Rightarrow> nat" where
  "db_cap ptr_max = nat ((ptr_max - 967) div 1035)"

definition db_ok :: "string \<Rightarrow> string \<Rightarrow> bool" where
  "db_ok key data \<longleftrightarrow> valid_rec key data \<and> length key \<le> 1000"

lemma contig_bound: "contig off sz s rs e \<Longrightarrow> (\<And>r. r \<in> set rs \<Longrightarrow> sz r \<le> b) \<Longrightarrow> e \<le> s + b * length rs"
proof (induction rs arbitrary: s)
  case (Cons r rs)
  then have "e \<le> s + sz r + b * length rs" "sz r \<le> b" by auto
  then show ?case by simp
qed simp

lemma room_cap:
  assumes rp: "represents ptr_max im db" and n: "length (slots im) < db_cap ptr_max" and ok: "db_ok key data"
  shows "room ptr_max db key data"
proof -
  have st: "stored ptr_max im db" using rp by (simp add: represents_def)
  have sl: "length (tail_of im r) \<le> 1028 \<and> length (valof im r) \<le> 1023" if "r \<in> set (slots im)" for r
    using storedD(1) [OF st that] by (simp add: slot_ok_def tail_of_def) (simp add: good_rec_def)
  have i: "length (fbytes (idxfd db)) \<le> 967 + 1035 * length (slots im)"
    using sl by (intro contig_bound [OF idx_viewD(1) [OF stored_views(1) [OF st]]]) fastforce
  have d: "length (fbytes (datfd db)) \<le> 0 + 1024 * length (slots im)"
    using stored_views(2) [OF st] sl by (intro contig_bound [of "datof im" "\<lambda>r. Suc (length (valof im r))"]) (auto simp: dat_view_def le_Suc_eq)
  have "int (length (slots im)) < (ptr_max - 967) div 1035" using n by (simp add: db_cap_def)
  then have m: "1035 * int (length (slots im)) + 1035 \<le> ptr_max - 967" by linarith
  have "length (fbytes (datfd db)) < 10 ^ 7" using m d storedD(9) [OF st] by simp
  from length_dec [OF this] have ld: "length (dec (length (fbytes (datfd db)))) \<le> 7" by simp
  have "length (dec (Suc (length data))) \<le> 4" using ok by (intro length_dec) (auto simp: db_ok_def valid_rec_def)
  then have "length (body key (length (fbytes (datfd db))) (Suc (length data))) \<le> 1024"
    using ld ok by (simp add: length_body db_ok_def)
  moreover have "length (fbytes (datfd db)) < 2 ^ 63" using m d storedD(9) [OF st] by simp
  moreover have "int (length (fbytes (idxfd db))) \<le> ptr_max" using i m by linarith
  ultimately show ?thesis by (simp add: room_def)
qed

lemma db_store_law:
  assumes "db_rep ptr_max m n db" "n < db_cap ptr_max" "db_ok k d"
  shows "\<exists>db'. db_store ptr_max db k d flag = Some (fst (store_spec m k d flag), db') \<and>
    db_rep ptr_max (snd (store_spec m k d flag)) (Suc n) db'"
proof -
  obtain im where im: "represents ptr_max im db" "lookup im = m" "length (slots im) \<le> n"
    using assms(1) by (auto simp: db_rep_def)
  have v: "valid_rec k d" and rm: "room ptr_max db k d"
    using room_cap [OF im(1) _ assms(3)] im(3) assms(2,3) by (auto simp: db_ok_def)
  consider "flag \<noteq> 1 \<and> flag \<noteq> 2 \<and> flag \<noteq> 3" | "m k = None" "flag = 2" | "m k = None" "flag = 1 \<or> flag = 3"
    | "m k \<noteq> None" "flag = 1" | "m k \<noteq> None" "flag = 2 \<or> flag = 3" by auto
  then show ?thesis
  proof cases
    case 1
    then have "db_store ptr_max db k d flag = Some (-1, db\<lparr>errno := EINVAL\<rparr>)"
      by (simp add: db_store_def DB_INSERT_def DB_REPLACE_def DB_STORE_def)
    moreover have "represents ptr_max im (db\<lparr>errno := EINVAL\<rparr>)" using im(1) by (simp add: represents_def stored_def)
    ultimately show ?thesis using 1 im(2,3) by (auto simp: store_spec_def db_rep_def)
  next
    case 2
    then show ?thesis using db_store_refused(1) [OF im(1) v] im
      by (auto simp: store_spec_def db_rep_def DB_REPLACE_def intro!: exI [of _ im])
  next
    case 3
    then obtain im' db' where "db_store ptr_max db k d flag = Some (0, db')" "represents ptr_max im' db'"
        "lookup im' = m(k \<mapsto> d)" "length (slots im') \<le> Suc (length (slots im))"
      using db_store_missing [OF im(1) v rm, of flag] im(2) by (auto simp: DB_INSERT_def DB_STORE_def)
    then show ?thesis using 3 im(3) by (auto simp: store_spec_def db_rep_def intro!: exI [of _ im'])
  next
    case 4
    then show ?thesis using db_store_refused(2) [OF im(1) v] im
      by (auto simp: store_spec_def db_rep_def DB_INSERT_def intro!: exI [of _ im])
  next
    case 5
    then obtain im' db' where "db_store ptr_max db k d flag = Some (0, db')" "represents ptr_max im' db'"
        "lookup im' = m(k \<mapsto> d)" "length (slots im') \<le> Suc (length (slots im))"
      using db_store_found [OF im(1) v rm, of flag] im(2) by (auto simp: DB_REPLACE_def DB_STORE_def)
    then show ?thesis using 5 im(3) by (auto simp: store_spec_def db_rep_def intro!: exI [of _ im'])
  qed
qed

lemma db_kv: "kv_store (db_rep ptr_max) db_fetch (db_store ptr_max) (db_delete ptr_max) db_ok (db_cap ptr_max)"
proof
  fix m n db k
  assume "db_rep ptr_max m n db"
  then obtain im where im: "represents ptr_max im db" "lookup im = m" "length (slots im) \<le> n" by (auto simp: db_rep_def)
  show "\<exists>s'. db_fetch db k = Some (m k, s') \<and> db_rep ptr_max m n s'"
    using db_fetch_spec [OF im(1), of k] im by (auto simp: db_rep_def)
  show "\<exists>s'. db_delete ptr_max db k = Some (if m k = None then -1 else 0, s') \<and> db_rep ptr_max (m(k := None)) n s'"
    using db_delete_spec [OF im(1), of k] im unfolding db_rep_def by metis
  show "n \<le> n' \<Longrightarrow> db_rep ptr_max m n' db" for n' using im by (auto simp: db_rep_def)
qed (use db_store_law in blast)

interpretation db3e: kv_store "db_rep PTR_MAX" db_fetch "db_store PTR_MAX" "db_delete PTR_MAX" db_ok "db_cap PTR_MAX"
  by (rule db_kv)

interpretation db20: kv_store "db_rep PTR_MAX_20" db20_fetch db20_store db20_delete db_ok "db_cap PTR_MAX_20"
  using db_kv [of PTR_MAX_20] by (simp add: db20_fetch_def [abs_def] db20_store_def [abs_def] db20_delete_def [abs_def])

lemma db_caps: "db_cap PTR_MAX = 9660" "db_cap PTR_MAX_20 = 965"
  by (simp_all add: db_cap_def PTR_MAX_def PTR_MAX_20_def)

lemma db_open_rep:
  assumes "0 \<le> ptr_max" "ptr_max \<le> 9999999"
  obtains db fs' where "db_open fs pn \<lparr>O_CREAT = True, O_TRUNC = True\<rparr> = Some (Some db, fs')" "db_rep ptr_max Map.empty 0 db"
  using db_open_spec [OF assms, of fs pn] lookup_empty by (fastforce simp: db_rep_def empty_image_def)

section \<open>Properties\<close>

text \<open>C1: the database library refines a finite map. After \<open>db_open\<close> with \<open>O_CREAT | O_TRUNC\<close>, every
  sequence of at most 9660 calls of \<open>db_fetch\<close>, \<open>db_store\<close> (with any flag) and \<open>db_delete\<close>, with storable
  keys and data, runs without an abort and answers exactly as the map does, starting from
  the empty map; the files then represent the final map.\<close>

theorem db_refines_map:
  assumes "list_all (op_ok db_ok) ops" "length ops \<le> 9660"
  shows "\<exists>db fs' db'. db_open fs pn \<lparr>O_CREAT = True, O_TRUNC = True\<rparr> = Some (Some db, fs') \<and>
    run_ops db_fetch (db_store PTR_MAX) (db_delete PTR_MAX) ops db = Some (fst (spec_ops ops Map.empty), db') \<and>
    db_rep PTR_MAX (snd (spec_ops ops Map.empty)) (length ops) db'"
proof -
  obtain db fs' where "db_open fs pn \<lparr>O_CREAT = True, O_TRUNC = True\<rparr> = Some (Some db, fs')" "db_rep PTR_MAX Map.empty 0 db"
    by (rule db_open_rep [of PTR_MAX fs pn]) (auto simp: PTR_MAX_def)
  then show ?thesis using db3e.run_refines [of Map.empty 0 db ops] assms by (auto simp: db_caps)
qed

theorem db_refines_map_witness:
  "\<exists>db fs' db'. db_open Map.empty ''db4'' \<lparr>O_CREAT = True, O_TRUNC = True\<rparr> = Some (Some db, fs') \<and>
    run_ops db_fetch (db_store PTR_MAX) (db_delete PTR_MAX)
      [Store ''Alpha'' ''data1'' 1, Store ''Alpha'' ''x'' 1, Fetch ''Alpha'', Delete ''Alpha'', Fetch ''Alpha''] db =
      Some ([Code 0, Code 1, Data (Some ''data1''), Code 0, Data None], db')"
  using db_refines_map [of "[Store ''Alpha'' ''data1'' 1, Store ''Alpha'' ''x'' 1, Fetch ''Alpha'', Delete ''Alpha'', Fetch ''Alpha'']"
      Map.empty "''db4''"]
  by (auto simp: db_ok_def valid_rec_def db_consts store_spec_def)

text \<open>C7: the re-implementation in \<open>apue/20db\<close> refines the map as well; because its \<open>PTR_MAX\<close> has six
  digits only, this holds for sequences of up to 965 calls.\<close>

theorem db20_refines_map:
  assumes "list_all (op_ok db_ok) ops" "length ops \<le> 965"
  shows "\<exists>db fs' db'. db20_open fs pn \<lparr>O_CREAT = True, O_TRUNC = True\<rparr> = Some (Some db, fs') \<and>
    run_ops db20_fetch db20_store db20_delete ops db = Some (fst (spec_ops ops Map.empty), db') \<and>
    db_rep PTR_MAX_20 (snd (spec_ops ops Map.empty)) (length ops) db'"
proof -
  obtain db fs' where "db_open fs pn \<lparr>O_CREAT = True, O_TRUNC = True\<rparr> = Some (Some db, fs')" "db_rep PTR_MAX_20 Map.empty 0 db"
    by (rule db_open_rep [of PTR_MAX_20 fs pn]) (auto simp: PTR_MAX_20_def)
  then show ?thesis using db20.run_refines [of Map.empty 0 db ops] assms by (auto simp: db_caps db20_open_def)
qed

theorem db20_refines_map_witness:
  "\<exists>db fs' db'. db20_open Map.empty ''db4'' \<lparr>O_CREAT = True, O_TRUNC = True\<rparr> = Some (Some db, fs') \<and>
    run_ops db20_fetch db20_store db20_delete [Store ''Beta'' ''b'' 3, Store ''Beta'' ''c'' 2, Fetch ''Beta'', Delete ''x''] db =
      Some ([Code 0, Code 0, Data (Some ''c''), Code (-1)], db')"
  using db20_refines_map [of "[Store ''Beta'' ''b'' 3, Store ''Beta'' ''c'' 2, Fetch ''Beta'', Delete ''x'']" Map.empty "''db4''"]
  by (auto simp: db_ok_def valid_rec_def db_consts store_spec_def)

text \<open>C8: \<open>db_rewind\<close> followed by calls of \<open>db_nextrec\<close> until it returns \<open>NULL\<close> delivers every entry of the
  database exactly once, except entries whose key consists of blanks only, which the scan
  takes for deleted records; the database is unchanged and no lock is left.\<close>

theorem db_scan_complete:
  assumes "db_rep ptr_max m n db"
  shows "\<exists>kds db'. do { db \<leftarrow> db_rewind db; nextrecs (Suc n) db } = Some (kds, db') \<and>
    set kds = {(k, d). m k = Some d \<and> \<not> blank k} \<and> distinct (map fst kds) \<and> db_rep ptr_max m n db' \<and> locks db' = []"
proof -
  obtain im where im: "represents ptr_max im db" "lookup im = m" "length (slots im) \<le> n"
    using assms by (auto simp: db_rep_def)
  obtain db1 where db1: "db_rewind db = Some db1" "represents ptr_max im db1" "at_slots im db1 (slots im)"
    using rewind_at_slots [OF im(1)] by blast
  obtain db2 where "nextrecs (Suc n) db1 = Some (map (\<lambda>r. (keyof im r, valof im r)) (filter (\<lambda>r. \<not> blank (keyof im r)) (slots im)), db2)"
      "represents ptr_max im db2" using nextrecs_spec [OF db1(2,3), of "Suc n"] im(3) by auto
  moreover have "stored ptr_max im db" using im(1) by (simp add: represents_def)
  ultimately show ?thesis using db1(1) live_slots [of ptr_max im db] im(2,3)
    by (auto simp: db_rep_def represents_def comp_def)
qed

theorem db_scan_complete_witness:
  "\<exists>db fs'. db_open Map.empty ''db4'' \<lparr>O_CREAT = True, O_TRUNC = True\<rparr> = Some (Some db, fs') \<and>
     (\<exists>db'. do { db \<leftarrow> db_rewind db; nextrecs 1 db } = Some ([], db'))"
proof -
  obtain db fs' where o: "db_open Map.empty ''db4'' \<lparr>O_CREAT = True, O_TRUNC = True\<rparr> = Some (Some db, fs')" "db_rep 9999999 Map.empty 0 db"
    by (rule db_open_rep [of 9999999 Map.empty "''db4''"]) auto
  then show ?thesis using db_scan_complete [OF o(2)] by auto
qed

text \<open>An index record written by \<open>_db_writeidx\<close> at a position inside the file or at its end is read
  back by \<open>_db_readidx\<close>: the key, the offset and length of the data, and the chain pointer.\<close>

theorem db_writeidx_readidx:
  assumes "good_rec key d l" "0 < p" "p \<le> length (fbytes (idxfd db))" "int v \<le> PTR_MAX"
    "datoff db = int d" "datlen db = int l"
  shows "\<exists>db1 db2. db_writeidx PTR_MAX db key (int p) SEEK_SET (int v) = Some db1 \<and>
    db_readidx db1 (int p) = Some (int v, db2) \<and> idxbuf db2 = key \<and> datoff db2 = int d \<and> datlen db2 = int l \<and>
    ptrval db2 = int v \<and> idxoff db2 = int p \<and> fbytes (idxfd db2) = fbytes (idxfd db1)"
proof -
  have g: "6 \<le> length (body key d l)" "length (body key d l) \<le> 1024" "v \<le> 9999999"
    using assms by (auto simp: good_rec_def PTR_MAX_def)
  obtain db1 where w: "db_writeidx PTR_MAX db key (int p) SEEK_SET (int v) = Some db1"
      "fbytes (idxfd db1) = overwrite (fbytes (idxfd db)) p (pfield v @ rtail key d l)"
    using db_writeidx_set [OF assms(4-6) g(1,2), of p] by simp
  have "has (fbytes (idxfd db1)) p (pfield v)" "has (fbytes (idxfd db1)) (p + 7) (rtail key d l)"
    using has_overwrite_same [OF assms(3), of "pfield v @ rtail key d l"] g(3) w(2) by (simp_all add: has_append)
  from db_readidx_eq [OF this g(3) assms(1), of p] w assms(2) show ?thesis by (simp add: after_readidx_def)
qed

theorem db_writeidx_readidx_witness:
  "\<exists>db1 db2. db_writeidx PTR_MAX (db_alloc\<lparr>idxfd := \<lparr>fbytes = ''xxx'', fpos = 0\<rparr>, datlen := 6\<rparr>) ''Alpha'' (int 3) SEEK_SET (int 0) = Some db1 \<and>
    db_readidx db1 (int 3) = Some (int 0, db2) \<and> idxbuf db2 = ''Alpha''"
proof -
  have "good_rec ''Alpha'' 0 6" by (simp add: good_rec_def body_def db_consts dec.simps)
  then show ?thesis
    using db_writeidx_readidx [of "''Alpha''" 0 6 3 "db_alloc\<lparr>idxfd := \<lparr>fbytes = ''xxx'', fpos = 0\<rparr>, datlen := 6\<rparr>" 0]
    by (auto simp: PTR_MAX_def db_alloc_def)
qed

text \<open>C9: the library takes and releases its record locks in pairs: no operation on a database
  returns with a lock held by the process.\<close>

theorem db_no_lock_left:
  assumes "db_rep ptr_max m n db"
  shows "locks db = [] \<and> (\<exists>r db'. db_fetch db key = Some (r, db') \<and> locks db' = []) \<and>
    (\<exists>r db'. db_delete ptr_max db key = Some (r, db') \<and> locks db' = []) \<and>
    (n < db_cap ptr_max \<and> db_ok key data \<longrightarrow> (\<exists>r db'. db_store ptr_max db key data flag = Some (r, db') \<and> locks db' = []))"
proof -
  have l: "locks d = []" if "db_rep ptr_max m' n' d" for m' n' d using that by (auto simp: db_rep_def represents_def)
  note kv = db_kv [of ptr_max]
  show ?thesis
    using l [OF assms] kv_store.fetch_law [OF kv assms, of key] kv_store.delete_law [OF kv assms, of key]
      kv_store.store_law [OF kv assms, of key data flag] l by blast
qed

theorem db_no_lock_left_witness:
  "\<exists>db fs' r db'. db_open Map.empty ''db4'' \<lparr>O_CREAT = True, O_TRUNC = True\<rparr> = Some (Some db, fs') \<and>
     db_delete 9999999 db ''k'' = Some (r, db') \<and> locks db' = []"
proof -
  obtain db fs' where o: "db_open Map.empty ''db4'' \<lparr>O_CREAT = True, O_TRUNC = True\<rparr> = Some (Some db, fs')" "db_rep 9999999 Map.empty 0 db"
    by (rule db_open_rep [of 9999999 Map.empty "''db4''"]) auto
  then show ?thesis using db_no_lock_left [OF o(2), of "''k''"] by blast
qed

text \<open>The test program \<open>db_test.c\<close> runs to its end on every file system, and prints that \<open>Alpha\<close> was
  found with its data, that its deletion succeeded, that \<open>xxx\<close> could not be deleted, and that \<open>Alpha\<close>
  is gone.\<close>

theorem db_test_output:
  "\<exists>fs'. db_test_main fs = Some ([''db open ok'', ''key Alpha: data1'', ''delete key Alpha ok'',
     ''key xxx not found, can't be deleted'', ''key Alpha not found''], fs')"
proof -
  have ok: "db_ok k d" if "k \<in> {''Alpha'', ''Beta'', ''gamma'', ''delta'', ''zeta1''}"
      "d \<in> {''data1'', ''Data for beta'', ''record3'', ''I am delta'', ''hello'', ''I am delta1'', ''record4''}" for k d
    using that by (auto simp: db_ok_def valid_rec_def db_consts)
  have store: "\<exists>db'. must_be_zero (db20_store db k d flag) = Some db' \<and> db_rep PTR_MAX_20 (m(k \<mapsto> d)) (Suc n) db'"
    if "db_rep PTR_MAX_20 m n db" "n < 965" "flag = 1 \<and> m k = None \<or> flag = 2 \<and> m k \<noteq> None" "db_ok k d" for db m n k d flag
    using db20.store_law [OF that(1), of k d flag] that(2-4) by (auto simp: db_caps store_spec_def must_be_zero_def)
  obtain db0 fs0 where 0: "db20_open fs ''db4'' \<lparr>O_CREAT = True, O_TRUNC = True\<rparr> = Some (Some db0, fs0)" "db_rep PTR_MAX_20 Map.empty 0 db0"
    unfolding db20_open_def by (rule db_open_rep [of PTR_MAX_20 fs "''db4''"]) (auto simp: PTR_MAX_20_def)
  obtain db1 where 1: "must_be_zero (db20_store db0 ''Alpha'' ''data1'' 1) = Some db1" "db_rep PTR_MAX_20 [''Alpha'' \<mapsto> ''data1''] 1 db1"
    using store [OF 0(2), of 1 "''Alpha''" "''data1''"] ok by auto
  obtain db2 where 2: "must_be_zero (db20_store db1 ''Beta'' ''Data for beta'' 1) = Some db2"
      "db_rep PTR_MAX_20 [''Alpha'' \<mapsto> ''data1'', ''Beta'' \<mapsto> ''Data for beta''] 2 db2"
    using store [OF 1(2), of 1 "''Beta''" "''Data for beta''"] ok by (auto simp: numeral_2_eq_2)
  define m3 where "m3 = [''Alpha'' \<mapsto> ''data1'', ''Beta'' \<mapsto> ''Data for beta'', ''gamma'' \<mapsto> ''record3'']"
  obtain db3 where 3: "must_be_zero (db20_store db2 ''gamma'' ''record3'' 1) = Some db3" "db_rep PTR_MAX_20 m3 3 db3"
    using store [OF 2(2), of 1 "''gamma''" "''record3''"] ok by (auto simp: m3_def numeral_3_eq_3 numeral_2_eq_2)
  obtain db4 where 4: "db20_fetch db3 ''Alpha'' = Some (Some ''data1'', db4)" "db_rep PTR_MAX_20 m3 3 db4"
    using db20.fetch_law [OF 3(2), of "''Alpha''"] by (auto simp: m3_def)
  obtain db5 where 5: "db20_delete db4 ''Alpha'' = Some (0, db5)" "db_rep PTR_MAX_20 (m3(''Alpha'' := None)) 3 db5"
    using db20.delete_law [OF 4(2), of "''Alpha''"] by (auto simp: m3_def)
  define m5 where "m5 = m3(''Alpha'' := None)"
  have m5: "m5 ''xxx'' = None" "m5 ''Alpha'' = None" "m5 ''delta'' = None" "m5 ''zeta1'' = None" "m5 ''gamma'' \<noteq> None"
    by (simp_all add: m5_def m3_def)
  obtain db6 where 6: "db20_delete db5 ''xxx'' = Some (-1, db6)" "db_rep PTR_MAX_20 m5 3 db6"
    using db20.delete_law [OF 5(2), of "''xxx''"] m5(1) by (auto simp: m5_def [symmetric] fun_upd_idem)
  obtain db7 where 7: "db20_fetch db6 ''Alpha'' = Some (None, db7)" "db_rep PTR_MAX_20 m5 3 db7"
    using db20.fetch_law [OF 6(2), of "''Alpha''"] m5(2) by auto
  obtain db8 where 8: "must_be_zero (db20_store db7 ''delta'' ''I am delta'' 1) = Some db8" "db_rep PTR_MAX_20 (m5(''delta'' \<mapsto> ''I am delta'')) 4 db8"
    using store [OF 7(2), of 1 "''delta''" "''I am delta''"] ok m5 by auto
  obtain db9 where 9: "must_be_zero (db20_store db8 ''zeta1'' ''hello'' 1) = Some db9"
      "db_rep PTR_MAX_20 (m5(''delta'' \<mapsto> ''I am delta'', ''zeta1'' \<mapsto> ''hello'')) 5 db9"
    using store [OF 8(2), of 1 "''zeta1''" "''hello''"] ok m5 by auto
  obtain db10 where 10: "must_be_zero (db20_store db9 ''delta'' ''I am delta1'' 2) = Some db10"
      "db_rep PTR_MAX_20 (m5(''delta'' \<mapsto> ''I am delta'', ''zeta1'' \<mapsto> ''hello'', ''delta'' \<mapsto> ''I am delta1'')) 6 db10"
    using store [OF 9(2), of 2 "''delta''" "''I am delta1''"] ok by auto
  obtain db11 where 11: "must_be_zero (db20_store db10 ''gamma'' ''record4'' 2) = Some db11"
    using store [OF 10(2), of 2 "''gamma''" "''record4''"] ok m5 by auto
  show ?thesis
    using 0(1) 1(1) 2(1) 3(1) 4(1) 5(1) 6(1) 7(1) 8(1) 9(1) 10(1) 11
    by (simp add: db_test_main_def DB_INSERT_def DB_REPLACE_def Let_def)
qed

text \<open>\<open>db_store\<close> does not check the key for the separator. An index record whose key contains a
  colon is written without an error, and then every attempt to read it aborts with \<open>too
  many separators\<close>.\<close>

theorem db_separator_in_key:
  assumes "SEP \<in> set key" "NUL \<notin> set key" "6 \<le> length (body key d l)" "length (body key d l) \<le> 1024"
    "0 < p" "p \<le> length (fbytes (idxfd db))" "int v \<le> PTR_MAX" "datoff db = int d" "datlen db = int l"
  shows "\<exists>db1. db_writeidx PTR_MAX db key (int p) SEEK_SET (int v) = Some db1 \<and> db_readidx db1 (int p) = None"
proof -
  have v: "v \<le> 9999999" using assms(7) by (simp add: PTR_MAX_def)
  obtain db1 where w: "db_writeidx PTR_MAX db key (int p) SEEK_SET (int v) = Some db1"
      "fbytes (idxfd db1) = overwrite (fbytes (idxfd db)) p (pfield v @ rtail key d l)"
    using db_writeidx_set [OF assms(7-9,3,4), of p] by simp
  have "has (fbytes (idxfd db1)) p (pfield v)" "has (fbytes (idxfd db1)) (p + 7) (rtail key d l)"
    using has_overwrite_same [OF assms(6), of "pfield v @ rtail key d l"] v w(2) by (simp_all add: has_append)
  from db_readidx_sep [OF this v assms(1-5)] w(1) show ?thesis by blast
qed

theorem db_separator_in_key_witness:
  "\<exists>db1. db_writeidx PTR_MAX (db_alloc\<lparr>idxfd := \<lparr>fbytes = ''xxx'', fpos = 0\<rparr>, datlen := 6\<rparr>) ''a:b'' (int 3) SEEK_SET (int 0) = Some db1 \<and>
     db_readidx db1 (int 3) = None"
proof -
  have "6 \<le> length (body ''a:b'' 0 6)" "length (body ''a:b'' 0 6) \<le> 1024" by (simp_all add: body_def dec.simps)
  moreover have "SEP \<in> set ''a:b''" "NUL \<notin> set ''a:b''" by (simp_all add: db_consts)
  ultimately show ?thesis
    using db_separator_in_key [of "''a:b''" 0 6 3 "db_alloc\<lparr>idxfd := \<lparr>fbytes = ''xxx'', fpos = 0\<rparr>, datlen := 6\<rparr>" 0]
    by (auto simp: PTR_MAX_def db_alloc_def)
qed

end
