(* ===== verification/Linked_Lists.thy ===== *)
theory Linked_Lists
  imports Prelude
begin

text \<open>
  Doubly linked lists in an explicit store. The store is a partial map from addresses to nodes,
  where an address outside its domain is not allocated; address 0 is the null pointer. The
  theory gives checked loads and stores, and a locale with the lemmas on linking and unlinking that the
  lists of the print server share.
\<close>

section \<open>Loads and stores\<close>

type_synonym 'n store = "nat \<Rightarrow> 'n option"

text \<open>Access through a pointer: the null pointer and freed nodes are undefined behaviour.\<close>

definition load :: "'n store \<Rightarrow> nat \<Rightarrow> 'n option" where
  "load h p = (if p = 0 then None else h p)"

definition modify :: "'n store \<Rightarrow> nat \<Rightarrow> ('n \<Rightarrow> 'n) \<Rightarrow> 'n store option" where
  "modify h p f = do { n \<leftarrow> load h p; Some (h(p \<mapsto> f n)) }"

lemma load_eq [simp]: "p \<noteq> 0 \<Longrightarrow> load h p = h p"
  by (simp add: load_def)

lemma load_0 [simp]: "load h 0 = None"
  by (simp add: load_def)

lemma modify_eq [simp]: "p \<noteq> 0 \<Longrightarrow> h p = Some n \<Longrightarrow> modify h p f = Some (h(p \<mapsto> f n))"
  by (simp add: modify_def)

lemma modify_None [simp]: "p = 0 \<or> h p = None \<Longrightarrow> modify h p f = None"
  by (auto simp: modify_def load_def)

section \<open>Linked segments\<close>

text \<open>The first and the last address of a list of addresses, with a default.\<close>

definition headp :: "nat list \<Rightarrow> nat \<Rightarrow> nat" where
  "headp xs q = (case xs of [] \<Rightarrow> q | x # _ \<Rightarrow> x)"

definition lastp :: "nat list \<Rightarrow> nat \<Rightarrow> nat" where
  "lastp xs p = (if xs = [] then p else last xs)"

lemma headp_simps [simp]: "headp [] q = q" "headp (x # xs) q = x"
  by (simp_all add: headp_def)

lemma lastp_simps [simp]: "lastp [] p = p" "lastp (xs @ [x]) p = x" "lastp (x # xs) p = lastp xs x"
  by (simp_all add: lastp_def)

lemma headp_append [simp]: "headp (xs @ ys) q = headp xs (headp ys q)"
  by (cases xs) auto

lemma lastp_append [simp]: "lastp (xs @ ys) p = lastp ys (lastp xs p)"
  by (simp add: lastp_def)

lemma headp_mem: "xs \<noteq> [] \<Longrightarrow> headp xs q \<in> set xs"
  by (cases xs) auto

lemma lastp_mem: "xs \<noteq> [] \<Longrightarrow> lastp xs q \<in> set xs"
  by (simp add: lastp_def)

text \<open>\<open>linked nx pv h p xs q\<close>: the nodes at the addresses \<open>xs\<close> are chained by the fields \<open>nx\<close> and \<open>pv\<close>,
  with \<open>p\<close> before the first and \<open>q\<close> behind the last.\<close>

fun linked :: "('n \<Rightarrow> nat) \<Rightarrow> ('n \<Rightarrow> nat) \<Rightarrow> 'n store \<Rightarrow> nat \<Rightarrow> nat list \<Rightarrow> nat \<Rightarrow> bool" where
  "linked nx pv h p [] q = True"
| "linked nx pv h p (x # xs) q \<longleftrightarrow> x \<noteq> 0 \<and>
     (case h x of None \<Rightarrow> False | Some n \<Rightarrow> pv n = p \<and> nx n = headp xs q) \<and> linked nx pv h x xs q"

text \<open>A complete list with head and tail pointers.\<close>

definition dlist :: "('n \<Rightarrow> nat) \<Rightarrow> ('n \<Rightarrow> nat) \<Rightarrow> 'n store \<Rightarrow> nat \<Rightarrow> nat \<Rightarrow> nat list \<Rightarrow> bool" where
  "dlist nx pv h hp tp xs \<longleftrightarrow> distinct xs \<and> linked nx pv h 0 xs 0 \<and> hp = headp xs 0 \<and> tp = lastp xs 0"

lemma linked_append:
  "linked nx pv h p (xs @ ys) q \<longleftrightarrow> linked nx pv h p xs (headp ys q) \<and> linked nx pv h (lastp xs p) ys q"
  by (induction xs arbitrary: p) (auto split: option.splits)

lemma linked_cong: "(\<And>x. x \<in> set xs \<Longrightarrow> h x = h' x) \<Longrightarrow> linked nx pv h p xs q = linked nx pv h' p xs q"
  by (induction xs arbitrary: p) auto

lemma linked_frame [simp]: "a \<notin> set xs \<Longrightarrow> linked nx pv (h(a := v)) p xs q = linked nx pv h p xs q"
  by (rule linked_cong) auto

lemma linked_dom: "linked nx pv h p xs q \<Longrightarrow> x \<in> set xs \<Longrightarrow> x \<noteq> 0 \<and> h x \<noteq> None"
  by (induction xs arbitrary: p) (auto split: option.splits)

lemma linked_fresh: "linked nx pv h p xs q \<Longrightarrow> h a = None \<or> a = 0 \<Longrightarrow> a \<notin> set xs"
  using linked_dom by fastforce

lemma headp_0: "linked nx pv h p xs q \<Longrightarrow> headp xs 0 = 0 \<longleftrightarrow> xs = []"
  by (cases xs) auto

lemma lastp_0: "linked nx pv h p xs q \<Longrightarrow> lastp xs 0 = 0 \<longleftrightarrow> xs = []"
  using linked_dom [of nx pv h p xs q "lastp xs 0"] lastp_mem [of xs 0] by (cases "xs = []") auto

section \<open>Linking and unlinking\<close>

text \<open>The two link fields of a node type with their update functions, and the rest of the node.\<close>

locale links =
  fixes nx pv :: "'n \<Rightarrow> nat" and snx spv :: "nat \<Rightarrow> 'n \<Rightarrow> 'n" and pay :: "'n \<Rightarrow> 'a"
  assumes nx_snx [simp]: "nx (snx q n) = q" and pv_snx [simp]: "pv (snx q n) = pv n"
    and pv_spv [simp]: "pv (spv p n) = p" and nx_spv [simp]: "nx (spv p n) = nx n"
    and pay_snx [simp]: "pay (snx q n) = pay n" and pay_spv [simp]: "pay (spv p n) = pay n"
begin

lemma set_next_last:
  assumes "linked nx pv h p xs q" "distinct xs" "xs \<noteq> []" "h (last xs) = Some n"
  shows "linked nx pv (h(last xs \<mapsto> snx q' n)) p xs q'"
proof -
  obtain ys y where xs: "xs = ys @ [y]" using assms(3) by (metis append_butlast_last_id)
  then show ?thesis using assms by (auto simp: linked_append)
qed

lemma set_prev_first:
  assumes "linked nx pv h p xs q" "distinct xs" "xs \<noteq> []" "h (hd xs) = Some n"
  shows "linked nx pv (h(hd xs \<mapsto> spv p' n)) p' xs q"
  using assms by (cases xs) auto

text \<open>Appending a node behind the tail.\<close>

lemma dlist_append:
  assumes d: "dlist nx pv h hdp tlp xs" and a: "a \<notin> set xs" "a \<noteq> 0" "nx n = 0" "pv n = tlp"
  shows "\<exists>h'. (if tlp = 0 then Some (h(a \<mapsto> n)) else modify (h(a \<mapsto> n)) tlp (snx a)) = Some h' \<and>
    dlist nx pv h' (if tlp = 0 then a else hdp) a (xs @ [a]) \<and> h' a = Some n \<and>
    (\<forall>x. x \<notin> set (a # xs) \<longrightarrow> h' x = h x) \<and> (\<forall>x. x \<noteq> a \<longrightarrow> map_option pay (h' x) = map_option pay (h x))"
proof (cases "xs = []")
  case True
  then show ?thesis using assms by (auto simp: dlist_def)
next
  case False
  have l: "linked nx pv h 0 xs 0" "distinct xs" "tlp = last xs" "hdp = headp xs 0" "tlp \<noteq> 0"
    using d False lastp_0 [of nx pv h 0 xs 0] by (auto simp: dlist_def lastp_def)
  obtain m where m: "h tlp = Some m" using linked_dom [OF l(1), of tlp] False l(3) by auto
  have ne: "a \<noteq> tlp" using a(1) False l(3) by auto
  have "linked nx pv (h(last xs \<mapsto> snx a m)) 0 xs a" using set_next_last [OF l(1,2) False] m l(3) by simp
  then have "linked nx pv (h(tlp \<mapsto> snx a m)) 0 xs a" using l(3) by simp
  then have "linked nx pv (h(tlp \<mapsto> snx a m, a \<mapsto> n)) 0 (xs @ [a]) 0" using a l(3) False by (simp add: linked_append lastp_def)
  then have lk: "linked nx pv (h(a \<mapsto> n, tlp \<mapsto> snx a m)) 0 (xs @ [a]) 0" using ne by (simp add: fun_upd_twist)
  have "dlist nx pv (h(a \<mapsto> n, tlp \<mapsto> snx a m)) hdp a (xs @ [a])"
    unfolding dlist_def using lk l(2,4) a(1) False by (cases xs) auto
  then show ?thesis using l(3,5) m ne False by auto
qed

text \<open>Pushing a node in front of the head.\<close>

lemma dlist_push:
  assumes d: "dlist nx pv h hdp tlp xs" and a: "a \<notin> set xs" "a \<noteq> 0" "nx n = hdp" "pv n = 0"
  shows "\<exists>h'. (if hdp = 0 then Some (h(a \<mapsto> n)) else modify (h(a \<mapsto> n)) hdp (spv a)) = Some h' \<and>
    dlist nx pv h' a (if hdp = 0 then a else tlp) (a # xs) \<and> h' a = Some n \<and>
    (\<forall>x. x \<notin> set (a # xs) \<longrightarrow> h' x = h x) \<and> (\<forall>x. x \<noteq> a \<longrightarrow> map_option pay (h' x) = map_option pay (h x))"
proof (cases xs)
  case Nil
  then show ?thesis using assms by (auto simp: dlist_def)
next
  case (Cons y ys)
  then obtain m where "h y = Some m" "hdp = y" "y \<noteq> 0" using d by (auto simp: dlist_def split: option.splits)
  then show ?thesis using assms Cons by (auto simp: dlist_def)
qed

text \<open>Unlinking a node: the successor (or the tail) and the predecessor (or the head) are redirected.\<close>

lemma dlist_unlink:
  assumes d: "dlist nx pv h hdp tlp (as @ t # bs)" and n: "h t = Some n"
  shows "\<exists>h1 h'. (if nx n \<noteq> 0 then modify h (nx n) (spv (pv n)) else Some h) = Some h1 \<and>
    (if pv n \<noteq> 0 then modify h1 (pv n) (snx (nx n)) else Some h1) = Some h' \<and>
    dlist nx pv h' (if pv n \<noteq> 0 then hdp else nx n) (if nx n \<noteq> 0 then tlp else pv n) (as @ bs) \<and> h' t = Some n \<and> h1 t = Some n \<and>
    (\<forall>x. x \<notin> set (as @ bs) \<longrightarrow> h' x = h x) \<and>
    (\<forall>x. map_option pay (h' x) = map_option pay (h x))"
proof -
  have l: "linked nx pv h 0 as t" "linked nx pv h t bs 0" "pv n = lastp as 0" "nx n = headp bs 0" "t \<noteq> 0"
    and ds: "distinct (as @ t # bs)" and ht: "hdp = headp as t" "tlp = lastp bs t"
    using d n by (auto simp: dlist_def linked_append lastp_def)
  have b0: "headp bs 0 = 0 \<longleftrightarrow> bs = []" by (rule headp_0 [OF l(2)])
  have a0: "lastp as 0 = 0 \<longleftrightarrow> as = []" by (rule lastp_0 [OF l(1)])
  obtain h1 where h1: "(if nx n \<noteq> 0 then modify h (nx n) (spv (pv n)) else Some h) = Some h1"
      "linked nx pv h1 (lastp as 0) bs 0" "\<And>x. x \<notin> set bs \<Longrightarrow> h1 x = h x"
      "\<And>x. map_option pay (h1 x) = map_option pay (h x)"
  proof (cases bs)
    case Nil
    then show thesis using that l b0 by auto
  next
    case (Cons b bs')
    then obtain m where m: "h b = Some m" "b \<noteq> 0" using l(2) by (auto split: option.splits)
    have "linked nx pv (h(b \<mapsto> spv (pv n) m)) (lastp as 0) bs 0"
      using set_prev_first [OF l(2) _ _, of m "lastp as 0"] ds Cons m l(3) by simp
    then show thesis using that [of "h(b \<mapsto> spv (pv n) m)"] Cons l m by auto
  qed
  have l1: "linked nx pv h1 0 as t" using l(1) h1(3) ds by (subst linked_cong [of _ _ h]) auto
  obtain h' where h': "(if pv n \<noteq> 0 then modify h1 (pv n) (snx (nx n)) else Some h1) = Some h'"
      "linked nx pv h' 0 as (headp bs 0)" "\<And>x. x \<notin> set as \<Longrightarrow> h' x = h1 x"
      "\<And>x. map_option pay (h' x) = map_option pay (h1 x)"
  proof (cases "as = []")
    case True
    then show thesis using that l by auto
  next
    case False
    then obtain m where m: "h1 (last as) = Some m" "last as \<noteq> 0" using linked_dom [OF l1, of "last as"] by auto
    have "linked nx pv (h1(last as \<mapsto> snx (nx n) m)) 0 as (headp bs 0)"
      using set_next_last [OF l1 _ False m(1), of "headp bs 0"] ds l(4) by simp
    then show thesis using False l(3) m by (intro that [of "h1(last as \<mapsto> snx (nx n) m)"]) (auto simp: lastp_def)
  qed
  have "linked nx pv h' (lastp as 0) bs 0" using h1(2) h'(3) ds by (subst linked_cong [of _ _ h1]) auto
  with h'(2) have lk: "linked nx pv h' 0 (as @ bs) 0" by (simp add: linked_append)
  have hd': "(if pv n \<noteq> 0 then hdp else nx n) = headp (as @ bs) 0"
    using a0 l(3,4) ht by (cases as) auto
  have tl': "(if nx n \<noteq> 0 then tlp else pv n) = lastp (as @ bs) 0"
    using b0 l(3,4) ht by (auto simp: lastp_def)
  have "dlist nx pv h' (if pv n \<noteq> 0 then hdp else nx n) (if nx n \<noteq> 0 then tlp else pv n) (as @ bs)"
    unfolding dlist_def hd' tl' using lk ds by auto
  moreover have "h1 t = Some n" "h' t = Some n" using h1(3) h'(3) ds n by auto
  moreover have "\<forall>x. x \<notin> set (as @ bs) \<longrightarrow> h' x = h x" using h1(3) h'(3) by auto
  moreover have "\<forall>x. map_option pay (h' x) = map_option pay (h x)" using h1(4) h'(4) by simp
  ultimately show ?thesis using h1(1) h'(1) by blast
qed

end

end
