(* ===== verification/Printer_Jobs.thy ===== *)
theory Printer_Jobs
  imports C_Library Linked_Lists
begin

text \<open>
  The print server of \<open>src/apue/apue.3e/printer/printd.c\<close>, first part: its global state, the job numbers and
  the file that keeps them, the list of pending jobs and the list of worker threads. Both lists are
  nodes in an explicit store; a null or freed pointer that is followed is undefined behaviour, \<^const>\<open>None\<close>,
  as are the calls of \<open>log_sys\<close> and \<open>log_quit\<close>, which end the process. A mutex is a flag; locking one
  that is held is \<^const>\<open>None\<close>, so that a function that returns has not blocked on itself. \<open>int32_t\<close> wraps
  around as on the usual machines. The calls that only write to the log are left out.
\<close>

section \<open>State\<close>

text \<open>\<open>struct printreq\<close> of \<open>print.h\<close>; the character arrays are kept with all their bytes.\<close>

record printreq =
  rsize :: "32 word"
  flags :: "32 word"
  usernm :: string
  jobnm :: string

record job =
  jnext :: nat
  jprev :: nat
  jobid :: int
  req :: printreq

record worker_thread =
  wnext :: nat
  wprev :: nat
  tid :: nat
  sockfd :: int

text \<open>Outcomes of system calls on the spool directory, consumed one by one; with none left, calls
  succeed.\<close>

datatype iores = Fine | Fail int | Short nat

text \<open>The globals. \<open>jobwait\<close> tells whether the printer thread is blocked on the condition variable;
  \<open>cancelled\<close> and \<open>closed\<close> record the arguments of \<open>pthread_cancel\<close> and \<open>close\<close>; \<open>files\<close> is the content of the
  spool directory; \<open>printer\<close> is the canonical name that the resolver gave for the printer, if any.\<close>

record printd =
  jobs :: "job store"
  jobhead :: nat
  jobtail :: nat
  nextjob :: int
  joblock :: bool
  jobwait :: bool
  jobfile :: ofile
  wthreads :: "worker_thread store"
  workers :: nat
  workerlock :: bool
  cancelled :: "nat list"
  closed :: "int list"
  configlock :: bool
  reread :: bool
  printer :: "string option"
  files :: "string \<Rightarrow> string option"
  io :: "iores list"

definition lock_job :: "printd \<Rightarrow> printd option" where
  "lock_job st = (if joblock st then None else Some (st\<lparr>joblock := True\<rparr>))"

definition unlock_job :: "printd \<Rightarrow> printd" where
  "unlock_job st = st\<lparr>joblock := False\<rparr>"

definition lock_worker :: "printd \<Rightarrow> printd option" where
  "lock_worker st = (if workerlock st then None else Some (st\<lparr>workerlock := True\<rparr>))"

definition unlock_worker :: "printd \<Rightarrow> printd" where
  "unlock_worker st = st\<lparr>workerlock := False\<rparr>"

section \<open>Job numbers\<close>

definition SPOOLDIR :: string where "SPOOLDIR = ''/var/spool/printer''"
definition JOBFILE :: string where "JOBFILE = ''jobno''"
definition DATADIR :: string where "DATADIR = ''data''"
definition REQDIR :: string where "REQDIR = ''reqs''"
definition FILENMSZ :: nat where "FILENMSZ = 64"

text \<open>\<open>%d\<close> of \<open>sprintf\<close>.\<close>

definition decs :: "int \<Rightarrow> string" where
  "decs i = (if i < 0 then CHR ''-'' # dec (nat (- i)) else dec (nat i))"

text \<open>\<open>atol\<close> of a buffer that need not hold a terminating null byte: scanning must stop inside it.\<close>

definition atol_buf :: "string \<Rightarrow> int option" where
  "atol_buf b = (let s = dropWhile isspace b;
      s = (case s of [] \<Rightarrow> [] | c # r \<Rightarrow> if c = CHR ''-'' \<or> c = CHR ''+'' then r else s)
    in if dropWhile isdigit s = [] then None else Some (atol b))"

text \<open>\<open>init_request\<close>: \<open>opened\<close> is the job file as \<open>open\<close> delivers it, \<open>lock_ok\<close> tells whether the record lock
  was granted, and \<open>junk\<close> is what the buffer \<open>name\<close> held before. The buffer is used again for the
  number, over the path name.\<close>

definition init_request :: "ofile \<Rightarrow> bool \<Rightarrow> string \<Rightarrow> printd \<Rightarrow> printd option" where
  "init_request opened lock_ok junk st = do {
     let name = overwrite junk 0 (SPOOLDIR @ ''/'' @ JOBFILE @ [NUL]);
     if \<not> lock_ok then None
     else do {
       let (s, f) = fd_read opened FILENMSZ;
       let name = overwrite name 0 s;
       n \<leftarrow> (if length s = 0 then Some 1 else map_option int32 (atol_buf name));
       Some (st\<lparr>jobfile := f, nextjob := n\<rparr>)
     }
   }"

definition update_jobno :: "printd \<Rightarrow> printd option" where
  "update_jobno st = do {
     (_, f) \<leftarrow> lseek (jobfile st) 0 SEEK_SET;
     Some (st\<lparr>jobfile := fd_write f (decs (nextjob st))\<rparr>)
   }"

text \<open>\<open>nextjob\<close> is an \<open>int32_t\<close>: at its maximum \<open>nextjob++\<close> is a signed overflow, before the test below it.\<close>

definition get_newjobno :: "printd \<Rightarrow> (int \<times> printd) option" where
  "get_newjobno st = do {
     st \<leftarrow> lock_job st;
     let jobid = nextjob st;
     st \<leftarrow> (if nextjob st < 2 ^ 31 - 1 then Some (st\<lparr>nextjob := nextjob st + 1\<rparr>) else None);
     let st = (if nextjob st \<le> 0 then st\<lparr>nextjob := 1\<rparr> else st);
     Some (jobid, unlock_job st)
   }"

section \<open>The list of pending jobs\<close>

text \<open>\<open>add_job\<close> up to the release of the lock, and with the signal. \<open>jp\<close> is what \<open>malloc\<close> returned.\<close>

definition add_job_link :: "nat \<Rightarrow> printreq \<Rightarrow> int \<Rightarrow> printd \<Rightarrow> printd option" where
  "add_job_link jp reqp jid st =
     (if jp = 0 then None
      else do {
        let st = st\<lparr>jobs := (jobs st)(jp \<mapsto> \<lparr>jnext = 0, jprev = 0, jobid = jid, req = reqp\<rparr>)\<rparr>;
        st \<leftarrow> lock_job st;
        h \<leftarrow> modify (jobs st) jp (jprev_update (\<lambda>_. jobtail st));
        let st = st\<lparr>jobs := h\<rparr>;
        st \<leftarrow> (if jobtail st = 0 then Some (st\<lparr>jobhead := jp\<rparr>)
              else do {
                h \<leftarrow> modify (jobs st) (jobtail st) (jnext_update (\<lambda>_. jp));
                Some (st\<lparr>jobs := h\<rparr>)
              });
        let st = st\<lparr>jobtail := jp\<rparr>;
        Some (unlock_job st)
      })"

definition cond_signal :: "printd \<Rightarrow> printd" where
  "cond_signal st = st\<lparr>jobwait := False\<rparr>"

definition add_job :: "nat \<Rightarrow> printreq \<Rightarrow> int \<Rightarrow> printd \<Rightarrow> printd option" where
  "add_job jp reqp jid st = do {
     st \<leftarrow> add_job_link jp reqp jid st;
     Some (cond_signal st)
   }"

definition replace_job :: "nat \<Rightarrow> printd \<Rightarrow> printd option" where
  "replace_job jp st = do {
     st \<leftarrow> lock_job st;
     h \<leftarrow> modify (jobs st) jp (jprev_update (\<lambda>_. 0));
     h \<leftarrow> modify h jp (jnext_update (\<lambda>_. jobhead st));
     let st = st\<lparr>jobs := h\<rparr>;
     st \<leftarrow> (if jobhead st = 0 then Some (st\<lparr>jobtail := jp\<rparr>)
           else do {
             h \<leftarrow> modify (jobs st) (jobhead st) (jprev_update (\<lambda>_. jp));
             Some (st\<lparr>jobs := h\<rparr>)
           });
     let st = st\<lparr>jobhead := jp\<rparr>;
     Some (unlock_job st)
   }"

definition remove_job :: "nat \<Rightarrow> printd \<Rightarrow> printd option" where
  "remove_job target st = do {
     t \<leftarrow> load (jobs st) target;
     st \<leftarrow> (if jnext t \<noteq> 0 then do {
             h \<leftarrow> modify (jobs st) (jnext t) (jprev_update (\<lambda>_. jprev t));
             Some (st\<lparr>jobs := h\<rparr>)
           } else Some (st\<lparr>jobtail := jprev t\<rparr>));
     t \<leftarrow> load (jobs st) target;
     if jprev t \<noteq> 0 then do {
       h \<leftarrow> modify (jobs st) (jprev t) (jnext_update (\<lambda>_. jnext t));
       Some (st\<lparr>jobs := h\<rparr>)
     } else Some (st\<lparr>jobhead := jnext t\<rparr>)
   }"

text \<open>The head of the loop of \<open>printer_thread\<close>: one test of the queue under the lock. The result is 0
  when the thread has gone to wait on the condition variable, which releases the lock.\<close>

definition pick_job :: "printd \<Rightarrow> (nat \<times> printd) option" where
  "pick_job st = do {
     st \<leftarrow> lock_job st;
     if jobhead st = 0 then Some (0, (unlock_job st)\<lparr>jobwait := True\<rparr>)
     else do {
       let jp = jobhead st;
       st \<leftarrow> remove_job jp st;
       Some (jp, unlock_job st)
     }
   }"

definition free_job :: "nat \<Rightarrow> printd \<Rightarrow> printd option" where
  "free_job jp st = do { _ \<leftarrow> load (jobs st) jp; Some (st\<lparr>jobs := (jobs st)(jp := None)\<rparr>) }"

section \<open>The list of worker threads\<close>

text \<open>\<open>add_worker\<close>; the result is whether the thread goes on (it exits when \<open>malloc\<close> failed, \<open>wtp\<close> = 0).\<close>

definition add_worker :: "nat \<Rightarrow> nat \<Rightarrow> int \<Rightarrow> printd \<Rightarrow> (bool \<times> printd) option" where
  "add_worker wtp t fd st =
     (if wtp = 0 then Some (False, st)
      else do {
        st \<leftarrow> lock_worker st;
        let st = st\<lparr>wthreads := (wthreads st)(wtp \<mapsto> \<lparr>wnext = workers st, wprev = 0, tid = t, sockfd = fd\<rparr>)\<rparr>;
        st \<leftarrow> (if workers st = 0 then Some (st\<lparr>workers := wtp\<rparr>)
              else do {
                h \<leftarrow> modify (wthreads st) (workers st) (wprev_update (\<lambda>_. wtp));
                Some (st\<lparr>wthreads := h\<rparr>)
              });
        Some (True, unlock_worker st)
      })"

partial_function (option) kill_loop :: "worker_thread store \<Rightarrow> nat \<Rightarrow> nat list option" where
  "kill_loop h wtp =
     (if wtp = 0 then Some []
      else do { w \<leftarrow> load h wtp; ts \<leftarrow> kill_loop h (wnext w); Some (tid w # ts) })"

definition kill_workers :: "printd \<Rightarrow> printd option" where
  "kill_workers st = do {
     st \<leftarrow> lock_worker st;
     ts \<leftarrow> kill_loop (wthreads st) (workers st);
     Some (unlock_worker (st\<lparr>cancelled := cancelled st @ ts\<rparr>))
   }"

text \<open>The search of \<open>client_cleanup\<close>: the address of the worker's node, 0 if there is none.\<close>

partial_function (option) find_worker :: "worker_thread store \<Rightarrow> nat \<Rightarrow> nat \<Rightarrow> nat option" where
  "find_worker h t wtp =
     (if wtp = 0 then Some 0
      else do { w \<leftarrow> load h wtp; if tid w = t then Some wtp else find_worker h t (wnext w) })"

definition client_cleanup :: "nat \<Rightarrow> printd \<Rightarrow> printd option" where
  "client_cleanup t st = do {
     st \<leftarrow> lock_worker st;
     wtp \<leftarrow> find_worker (wthreads st) t (workers st);
     st \<leftarrow> (if wtp \<noteq> 0 then do {
             w \<leftarrow> load (wthreads st) wtp;
             h \<leftarrow> (if wnext w \<noteq> 0 then modify (wthreads st) (wnext w) (wprev_update (\<lambda>_. wprev w)) else Some (wthreads st));
             w \<leftarrow> load h wtp;
             if wprev w \<noteq> 0 then do {
               h \<leftarrow> modify h (wprev w) (wnext_update (\<lambda>_. wnext w));
               Some (st\<lparr>wthreads := h\<rparr>)
             } else Some (st\<lparr>wthreads := h, workers := wnext w\<rparr>)
           } else Some st);
     let st = unlock_worker st;
     if wtp \<noteq> 0 then do {
       w \<leftarrow> load (wthreads st) wtp;
       Some (st\<lparr>closed := closed st @ [sockfd w], wthreads := (wthreads st)(wtp := None)\<rparr>)
     } else Some st
   }"

section \<open>The queue contract\<close>

text \<open>What the threads rely on: the pending jobs are a sequence of addresses \<open>ps\<close>, jobs are appended at
  the end, picked from the front and put back in front; the job behind an address does not change.\<close>

locale job_queue =
  fixes rep :: "'s \<Rightarrow> nat list \<Rightarrow> bool" and get :: "'s \<Rightarrow> nat \<Rightarrow> 'x option"
    and enq :: "nat \<Rightarrow> 'x \<Rightarrow> 's \<Rightarrow> 's option" and push :: "nat \<Rightarrow> 's \<Rightarrow> 's option"
    and pick :: "'s \<Rightarrow> (nat \<times> 's) option"
  assumes enq_law: "rep s ps \<Longrightarrow> get s p = None \<Longrightarrow> p \<noteq> 0 \<Longrightarrow>
      \<exists>s'. enq p x s = Some s' \<and> rep s' (ps @ [p]) \<and> get s' = (get s)(p \<mapsto> x)"
    and push_law: "rep s ps \<Longrightarrow> get s p \<noteq> None \<Longrightarrow> p \<notin> set ps \<Longrightarrow> p \<noteq> 0 \<Longrightarrow>
      \<exists>s'. push p s = Some s' \<and> rep s' (p # ps) \<and> get s' = get s"
    and pick_law: "rep s (p # ps) \<Longrightarrow> \<exists>s'. pick s = Some (p, s') \<and> rep s' ps \<and> get s' = get s"
    and pick_empty: "rep s [] \<Longrightarrow> \<exists>s'. pick s = Some (0, s') \<and> rep s' [] \<and> get s' = get s"
    and rep_get: "rep s ps \<Longrightarrow> p \<in> set ps \<Longrightarrow> p \<noteq> 0 \<and> get s p \<noteq> None"
    and rep_distinct: "rep s ps \<Longrightarrow> distinct ps"
begin

text \<open>A job that is picked and put back is picked again next.\<close>

lemma pick_push_pick:
  assumes "rep s (p # ps)"
  shows "\<exists>s1 s2 s3. pick s = Some (p, s1) \<and> push p s1 = Some s2 \<and> pick s2 = Some (p, s3) \<and> rep s3 ps \<and> get s3 = get s"
proof -
  obtain s1 where s1: "pick s = Some (p, s1)" "rep s1 ps" "get s1 = get s" using pick_law [OF assms] by blast
  have "get s p \<noteq> None" "p \<notin> set ps" "p \<noteq> 0" using rep_get [OF assms] rep_distinct [OF assms] by auto
  then obtain s2 where s2: "push p s1 = Some s2" "rep s2 (p # ps)" "get s2 = get s" using push_law [of s1 ps p] s1 by auto
  obtain s3 where "pick s2 = Some (p, s3)" "rep s3 ps" "get s3 = get s2" using pick_law [OF s2(2)] by blast
  then show ?thesis using s1 s2 by auto
qed

end

text \<open>The representation of the queue by the list of the server.\<close>

definition job_rep :: "printd \<Rightarrow> nat list \<Rightarrow> bool" where
  "job_rep st ps \<longleftrightarrow> dlist jnext jprev (jobs st) (jobhead st) (jobtail st) ps \<and> \<not> joblock st"

definition job_at :: "printd \<Rightarrow> nat \<Rightarrow> (int \<times> printreq) option" where
  "job_at st p = map_option (\<lambda>j. (jobid j, req j)) (jobs st p)"

interpretation job_links: links jnext jprev "\<lambda>q. jnext_update (\<lambda>_. q)" "\<lambda>p. jprev_update (\<lambda>_. p)" "\<lambda>j. (jobid j, req j)"
  by unfold_locales auto

interpretation worker_links: links wnext wprev "\<lambda>q. wnext_update (\<lambda>_. q)" "\<lambda>p. wprev_update (\<lambda>_. p)" "\<lambda>w. (tid w, sockfd w)"
  by unfold_locales auto

lemma add_job_link_spec:
  assumes r: "job_rep st ps" and p: "job_at st p = None" "p \<noteq> 0"
  shows "\<exists>st'. add_job_link p r jid st = Some st' \<and> job_rep st' (ps @ [p]) \<and> job_at st' = (job_at st)(p \<mapsto> (jid, r)) \<and>
    jobwait st' = jobwait st \<and> nextjob st' = nextjob st"
proof -
  let ?n = "\<lparr>jnext = 0, jprev = jobtail st, jobid = jid, req = r\<rparr>"
  have d: "dlist jnext jprev (jobs st) (jobhead st) (jobtail st) ps" "\<not> joblock st" using r by (auto simp: job_rep_def)
  have "jobs st p = None" using p by (simp add: job_at_def)
  then have "p \<notin> set ps" using linked_fresh [of jnext jprev "jobs st" 0 ps 0 p] d by (auto simp: dlist_def)
  from job_links.dlist_append [OF d(1) this p(2), of ?n]
  obtain h' where h': "(if jobtail st = 0 then Some ((jobs st)(p \<mapsto> ?n)) else modify ((jobs st)(p \<mapsto> ?n)) (jobtail st) (jnext_update (\<lambda>_. p))) = Some h'"
      "dlist jnext jprev h' (if jobtail st = 0 then p else jobhead st) p (ps @ [p])" "h' p = Some ?n"
      "\<forall>x. x \<noteq> p \<longrightarrow> map_option (\<lambda>j. (jobid j, req j)) (h' x) = map_option (\<lambda>j. (jobid j, req j)) (jobs st x)"
    by auto
  have "add_job_link p r jid st = Some (st\<lparr>jobs := h', jobhead := (if jobtail st = 0 then p else jobhead st), jobtail := p\<rparr>)"
    using h'(1) p(2) d(2) by (auto simp: add_job_link_def lock_job_def unlock_job_def)
  then show ?thesis using h'(2-4) d(2) by (auto simp: job_rep_def job_at_def)
qed

lemma replace_job_spec:
  assumes r: "job_rep st ps" and p: "job_at st p \<noteq> None" "p \<notin> set ps" "p \<noteq> 0"
  shows "\<exists>st'. replace_job p st = Some st' \<and> job_rep st' (p # ps) \<and> job_at st' = job_at st \<and> jobwait st' = jobwait st \<and> nextjob st' = nextjob st"
proof -
  have d: "dlist jnext jprev (jobs st) (jobhead st) (jobtail st) ps" "\<not> joblock st" using r by (auto simp: job_rep_def)
  obtain j where j: "jobs st p = Some j" using p by (auto simp: job_at_def)
  let ?n = "j\<lparr>jprev := 0, jnext := jobhead st\<rparr>"
  from job_links.dlist_push [OF d(1) p(2,3), of ?n]
  obtain h' where h': "(if jobhead st = 0 then Some ((jobs st)(p \<mapsto> ?n)) else modify ((jobs st)(p \<mapsto> ?n)) (jobhead st) (jprev_update (\<lambda>_. p))) = Some h'"
      "dlist jnext jprev h' p (if jobhead st = 0 then p else jobtail st) (p # ps)" "h' p = Some ?n"
      "\<forall>x. x \<noteq> p \<longrightarrow> map_option (\<lambda>j. (jobid j, req j)) (h' x) = map_option (\<lambda>j. (jobid j, req j)) (jobs st x)"
    by auto
  have "replace_job p st = Some (st\<lparr>jobs := h', jobhead := p, jobtail := (if jobhead st = 0 then p else jobtail st)\<rparr>)"
    using h'(1) p(3) d(2) j by (auto simp: replace_job_def lock_job_def unlock_job_def)
  moreover have "map_option (\<lambda>j. (jobid j, req j)) (h' x) = map_option (\<lambda>j. (jobid j, req j)) (jobs st x)" for x
    using h'(3,4) j by (cases "x = p") auto
  ultimately show ?thesis using h'(2) d(2) by (auto simp: job_rep_def job_at_def fun_eq_iff)
qed

text \<open>\<open>remove_job\<close> unlinks any job of the list, under the lock.\<close>

lemma remove_job_spec:
  assumes d: "dlist jnext jprev (jobs st) (jobhead st) (jobtail st) (as @ t # bs)"
  shows "\<exists>st'. remove_job t st = Some st' \<and> dlist jnext jprev (jobs st') (jobhead st') (jobtail st') (as @ bs) \<and>
    job_at st' = job_at st \<and> joblock st' = joblock st \<and> jobwait st' = jobwait st \<and> nextjob st' = nextjob st"
proof -
  have "linked jnext jprev (jobs st) 0 (as @ t # bs) 0" using d by (simp add: dlist_def)
  then obtain n where n: "jobs st t = Some n" "t \<noteq> 0" using linked_dom [of jnext jprev "jobs st" 0 "as @ t # bs" 0 t] by auto
  from job_links.dlist_unlink [OF d n(1)]
  obtain h1 h' where h: "(if jnext n \<noteq> 0 then modify (jobs st) (jnext n) (jprev_update (\<lambda>_. jprev n)) else Some (jobs st)) = Some h1"
      "(if jprev n \<noteq> 0 then modify h1 (jprev n) (jnext_update (\<lambda>_. jnext n)) else Some h1) = Some h'"
      "dlist jnext jprev h' (if jprev n \<noteq> 0 then jobhead st else jnext n) (if jnext n \<noteq> 0 then jobtail st else jprev n) (as @ bs)"
      "h1 t = Some n" "\<forall>x. map_option (\<lambda>j. (jobid j, req j)) (h' x) = map_option (\<lambda>j. (jobid j, req j)) (jobs st x)" by blast
  have "remove_job t st = Some (st\<lparr>jobs := h', jobtail := (if jnext n \<noteq> 0 then jobtail st else jprev n),
      jobhead := (if jprev n \<noteq> 0 then jobhead st else jnext n)\<rparr>)"
    using h(1,2,4) n by (cases "jnext n = 0"; cases "jprev n = 0") (auto simp: remove_job_def)
  then show ?thesis using h(3,5) by (auto simp: job_at_def fun_eq_iff)
qed

lemma pick_job_spec:
  "job_rep st (p # ps) \<Longrightarrow> \<exists>st'. pick_job st = Some (p, st') \<and> job_rep st' ps \<and> job_at st' = job_at st \<and> jobwait st' = jobwait st \<and> nextjob st' = nextjob st"
proof -
  assume r: "job_rep st (p # ps)"
  then have hd: "jobhead st = p" "p \<noteq> 0" "\<not> joblock st" by (auto simp: job_rep_def dlist_def)
  from r have "dlist jnext jprev (jobs (st\<lparr>joblock := True\<rparr>)) (jobhead (st\<lparr>joblock := True\<rparr>)) (jobtail (st\<lparr>joblock := True\<rparr>)) ([] @ p # ps)"
    by (simp add: job_rep_def)
  from remove_job_spec [OF this] obtain st' where "remove_job p (st\<lparr>joblock := True\<rparr>) = Some st'"
      "dlist jnext jprev (jobs st') (jobhead st') (jobtail st') ps" "job_at st' = job_at (st\<lparr>joblock := True\<rparr>)"
      "jobwait st' = jobwait st" "nextjob st' = nextjob st" by auto
  then show ?thesis using hd by (auto simp: pick_job_def lock_job_def unlock_job_def job_rep_def job_at_def fun_eq_iff)
qed

lemma pick_job_empty:
  "job_rep st [] \<Longrightarrow> pick_job st = Some (0, st\<lparr>jobwait := True\<rparr>)"
  by (auto simp: pick_job_def lock_job_def unlock_job_def job_rep_def dlist_def)

interpretation pending: job_queue job_rep job_at "\<lambda>p (jid, r). add_job_link p r jid" replace_job pick_job
proof
  fix st ps p and x :: "int \<times> printreq"
  assume "job_rep st ps" "job_at st p = None" "p \<noteq> 0"
  then show "\<exists>s'. (case x of (jid, r) \<Rightarrow> add_job_link p r jid) st = Some s' \<and> job_rep s' (ps @ [p]) \<and> job_at s' = (job_at st)(p \<mapsto> x)"
    using add_job_link_spec [of st ps p "snd x" "fst x"] by (auto simp: case_prod_beta)
next
  fix st ps p assume "job_rep st ps" "job_at st p \<noteq> None" "p \<notin> set ps" "p \<noteq> 0"
  then show "\<exists>s'. replace_job p st = Some s' \<and> job_rep s' (p # ps) \<and> job_at s' = job_at st" using replace_job_spec by blast
next
  fix st p ps assume "job_rep st (p # ps)"
  then show "\<exists>s'. pick_job st = Some (p, s') \<and> job_rep s' ps \<and> job_at s' = job_at st" using pick_job_spec by blast
next
  fix st assume "job_rep st []"
  then show "\<exists>s'. pick_job st = Some (0, s') \<and> job_rep s' [] \<and> job_at s' = job_at st"
    by (auto simp: pick_job_empty job_rep_def job_at_def fun_eq_iff)
next
  fix st ps p assume "job_rep st ps" "p \<in> set ps"
  then show "p \<noteq> 0 \<and> job_at st p \<noteq> None" using linked_dom [of jnext jprev "jobs st" 0 ps 0 p] by (auto simp: job_rep_def dlist_def job_at_def)
next
  fix st ps assume "job_rep st ps"
  then show "distinct ps" by (simp add: job_rep_def dlist_def)
qed

end
