(* ===== verification/Printer_Sched.thy ===== *)
theory Printer_Sched
  imports Printer_Jobs
begin

text \<open>
  The threads of the print server around the list of jobs: client threads take a job number, append
  a job and signal; the printer thread tests the queue, waits, works on the first job, and finishes it
  or puts it back. The threads run interleaved; a step is one critical section of \<open>joblock\<close> or one
  call outside of it. The invariants are proved by induction over the steps from the contract of the queue.
\<close>

section \<open>The step relation\<close>

datatype cpc = CNone | CReq printreq | CHave int printreq | CSignal

datatype ppc = PTest | PWait | PBusy nat

text \<open>\<open>accepted\<close> and \<open>finished\<close> are the jobs that were added, and those the printer thread is done with,
  in that order.\<close>

record sched =
  srv :: printd
  clients :: "nat \<Rightarrow> cpc"
  prt :: ppc
  accepted :: "(int \<times> printreq) list"
  finished :: "(int \<times> printreq) list"

inductive step :: "sched \<Rightarrow> sched \<Rightarrow> bool" where
  client_start: "clients s t = CNone \<Longrightarrow> step s (s\<lparr>clients := (clients s)(t := CReq r)\<rparr>)"
| client_number: "clients s t = CReq r \<Longrightarrow> get_newjobno (srv s) = Some (jid, st) \<Longrightarrow>
    step s (s\<lparr>srv := st, clients := (clients s)(t := CHave jid r)\<rparr>)"
| client_add: "clients s t = CHave jid r \<Longrightarrow> p \<noteq> 0 \<Longrightarrow> jobs (srv s) p = None \<Longrightarrow> add_job_link p r jid (srv s) = Some st \<Longrightarrow>
    step s (s\<lparr>srv := st, clients := (clients s)(t := CSignal), accepted := accepted s @ [(jid, r)]\<rparr>)"
| client_signal: "clients s t = CSignal \<Longrightarrow>
    step s (s\<lparr>srv := cond_signal (srv s), clients := (clients s)(t := CNone)\<rparr>)"
| printer_pick: "prt s = PTest \<Longrightarrow> pick_job (srv s) = Some (p, st) \<Longrightarrow>
    step s (s\<lparr>srv := st, prt := (if p = 0 then PWait else PBusy p)\<rparr>)"
| printer_wake: "prt s = PWait \<Longrightarrow> \<not> jobwait (srv s) \<Longrightarrow> step s (s\<lparr>prt := PTest\<rparr>)"
| printer_spurious: "prt s = PWait \<Longrightarrow> step s (s\<lparr>srv := (srv s)\<lparr>jobwait := False\<rparr>, prt := PTest\<rparr>)"
| printer_finish: "prt s = PBusy p \<Longrightarrow> job_at (srv s) p = Some x \<Longrightarrow> free_job p (srv s) = Some st \<Longrightarrow>
    step s (s\<lparr>srv := st, prt := PTest, finished := finished s @ [x]\<rparr>)"
| printer_defer: "prt s = PBusy p \<Longrightarrow> replace_job p (srv s) = Some st \<Longrightarrow> step s (s\<lparr>srv := st, prt := PTest\<rparr>)"

inductive_cases step_elim: "step s s'"

definition started :: "sched \<Rightarrow> bool" where
  "started s \<longleftrightarrow> job_rep (srv s) [] \<and> \<not> jobwait (srv s) \<and> 0 < nextjob (srv s) \<and> nextjob (srv s) < 2 ^ 31 \<and>
     clients s = (\<lambda>t. CNone) \<and> prt s = PTest \<and> accepted s = [] \<and> finished s = []"

inductive reachable :: "sched \<Rightarrow> bool" where
  reachable_init: "started s \<Longrightarrow> reachable s"
| reachable_step: "reachable s \<Longrightarrow> step s s' \<Longrightarrow> reachable s'"

section \<open>The invariant\<close>

text \<open>The job in the hands of the printer thread.\<close>

definition in_hand :: "sched \<Rightarrow> (int \<times> printreq) list" where
  "in_hand s = (case prt s of PBusy p \<Rightarrow> (case job_at (srv s) p of Some x \<Rightarrow> [x] | None \<Rightarrow> []) | _ \<Rightarrow> [])"

definition queued :: "sched \<Rightarrow> nat list \<Rightarrow> (int \<times> printreq) list \<Rightarrow> bool" where
  "queued s ps xs \<longleftrightarrow> job_rep (srv s) ps \<and> map (job_at (srv s)) ps = map Some xs"

definition sched_inv :: "sched \<Rightarrow> nat list \<Rightarrow> (int \<times> printreq) list \<Rightarrow> bool" where
  "sched_inv s ps xs \<longleftrightarrow> queued s ps xs \<and> accepted s = finished s @ in_hand s @ xs \<and>
     (\<forall>p. prt s = PBusy p \<longrightarrow> p \<noteq> 0 \<and> p \<notin> set ps \<and> job_at (srv s) p \<noteq> None) \<and>
     (jobwait (srv s) \<longrightarrow> prt s = PWait) \<and>
     (jobwait (srv s) \<and> ps \<noteq> [] \<longrightarrow> (\<exists>t. clients s t = CSignal)) \<and>
     0 < nextjob (srv s) \<and> nextjob (srv s) < 2 ^ 31"

lemma queued_set: "queued s ps xs \<Longrightarrow> p \<in> set ps \<Longrightarrow> p \<noteq> 0 \<and> job_at (srv s) p \<noteq> None"
  using pending.rep_get by (auto simp: queued_def)

lemma queued_cong:
  "job_rep (srv s') ps' \<Longrightarrow> map (job_at (srv s)) ps' = map Some xs \<Longrightarrow> (\<And>p. p \<in> set ps' \<Longrightarrow> job_at (srv s') p = job_at (srv s) p) \<Longrightarrow> queued s' ps' xs"
  unfolding queued_def by (metis map_cong)

lemma get_newjobno_eq:
  assumes "\<not> joblock st" "0 < nextjob st"
  shows "get_newjobno st = (if nextjob st < 2 ^ 31 - 1 then Some (nextjob st, st\<lparr>nextjob := nextjob st + 1\<rparr>) else None)"
  using assms by (simp add: get_newjobno_def lock_job_def unlock_job_def)

lemma free_job_eq: "p \<noteq> 0 \<Longrightarrow> job_at st p \<noteq> None \<Longrightarrow> free_job p st = Some (st\<lparr>jobs := (jobs st)(p := None)\<rparr>)"
  by (auto simp: free_job_def job_at_def)

lemma job_rep_free: "job_rep st ps \<Longrightarrow> p \<notin> set ps \<Longrightarrow> job_rep (st\<lparr>jobs := (jobs st)(p := None)\<rparr>) ps"
  by (simp add: job_rep_def dlist_def)

lemma job_at_free: "job_at (st\<lparr>jobs := (jobs st)(p := None)\<rparr>) = (job_at st)(p := None)"
  by (auto simp: job_at_def)

lemma job_rep_upd [simp]:
  "job_rep (st\<lparr>jobwait := w\<rparr>) ps = job_rep st ps" "job_rep (st\<lparr>nextjob := n\<rparr>) ps = job_rep st ps"
  "job_at (st\<lparr>jobwait := w\<rparr>) = job_at st" "job_at (st\<lparr>nextjob := n\<rparr>) = job_at st"
  by (auto simp: job_rep_def job_at_def)

text \<open>Each kind of step keeps the invariant. First a step of a client that has no signal to send and does not
  touch the queue.\<close>

lemma inv_client:
  assumes i: "sched_inv s ps xs" and c: "clients s t \<noteq> CSignal"
    and st: "job_rep st ps" "job_at st = job_at (srv s)" "jobwait st = jobwait (srv s)" "0 < nextjob st" "nextjob st < 2 ^ 31"
  shows "sched_inv (s\<lparr>srv := st, clients := (clients s)(t := c')\<rparr>) ps xs"
proof -
  let ?s = "s\<lparr>srv := st, clients := (clients s)(t := c')\<rparr>"
  have "\<exists>t. clients ?s t = CSignal" if sig: "\<exists>t. clients s t = CSignal"
  proof -
    obtain u where u: "clients s u = CSignal" using sig by blast
    then have "u \<noteq> t" using c by auto
    then show ?thesis using u by (intro exI [of _ u]) simp
  qed
  moreover have "in_hand ?s = in_hand s" using st(2) by (cases "prt s") (simp_all add: in_hand_def)
  moreover have "queued ?s ps xs" using i st(1,2) by (simp add: sched_inv_def queued_def)
  ultimately show ?thesis using i st unfolding sched_inv_def by simp
qed

lemma inv_client_number:
  assumes i: "sched_inv s ps xs" and c: "clients s t = CReq r" and g: "get_newjobno (srv s) = Some (jid, st)"
  shows "sched_inv (s\<lparr>srv := st, clients := (clients s)(t := CHave jid r)\<rparr>) ps xs"
proof -
  have "\<not> joblock (srv s)" using i by (simp add: sched_inv_def queued_def job_rep_def)
  then have "nextjob (srv s) < 2 ^ 31 - 1 \<and> st = (srv s)\<lparr>nextjob := nextjob (srv s) + 1\<rparr>"
    using get_newjobno_eq [of "srv s"] g i by (auto simp: sched_inv_def split: if_splits)
  then show ?thesis using i c by (intro inv_client) (auto simp: sched_inv_def queued_def)
qed

lemma inv_client_add:
  assumes i: "sched_inv s ps xs" and c: "clients s t = CHave jid r" and p: "p \<noteq> 0" "jobs (srv s) p = None"
    and a: "add_job_link p r jid (srv s) = Some st"
  shows "sched_inv (s\<lparr>srv := st, clients := (clients s)(t := CSignal), accepted := accepted s @ [(jid, r)]\<rparr>) (ps @ [p]) (xs @ [(jid, r)])"
proof -
  have n: "job_at (srv s) p = None" using p by (simp add: job_at_def)
  have r: "job_rep (srv s) ps" using i by (simp add: sched_inv_def queued_def)
  have st: "job_rep st (ps @ [p])" "job_at st = (job_at (srv s))(p \<mapsto> (jid, r))" "jobwait st = jobwait (srv s)" "nextjob st = nextjob (srv s)"
    using add_job_link_spec [OF r n p(1), of r jid] a by auto
  have np: "p \<notin> set ps" using pending.rep_get [OF r, of p] n by auto
  have q: "queued (s\<lparr>srv := st, clients := (clients s)(t := CSignal), accepted := accepted s @ [(jid, r)]\<rparr>) (ps @ [p]) (xs @ [(jid, r)])"
    using st(1,2) i np by (auto simp: queued_def sched_inv_def)
  have h: "in_hand (s\<lparr>srv := st, clients := (clients s)(t := CSignal), accepted := accepted s @ [(jid, r)]\<rparr>) = in_hand s"
    using st(2) i n by (auto simp: in_hand_def sched_inv_def split: ppc.splits)
  show ?thesis unfolding sched_inv_def using i q h st n by (auto simp: sched_inv_def)
qed

lemma inv_printer_pick:
  assumes i: "sched_inv s ps xs" and c: "prt s = PTest" and k: "pick_job (srv s) = Some (p, st)"
  shows "\<exists>ps' xs'. sched_inv (s\<lparr>srv := st, prt := (if p = 0 then PWait else PBusy p)\<rparr>) ps' xs'"
proof (cases ps)
  case Nil
  then have "p = 0 \<and> st = (srv s)\<lparr>jobwait := True\<rparr>" using i k pick_job_empty [of "srv s"] by (auto simp: sched_inv_def queued_def)
  then have "sched_inv (s\<lparr>srv := st, prt := (if p = 0 then PWait else PBusy p)\<rparr>) [] []"
    using i c Nil by (auto simp: sched_inv_def queued_def in_hand_def)
  then show ?thesis by blast
next
  case (Cons q qs)
  then obtain y ys where xs: "xs = y # ys" "job_at (srv s) q = Some y" "map (job_at (srv s)) qs = map Some ys"
    using i by (cases xs) (auto simp: sched_inv_def queued_def)
  have r: "job_rep (srv s) (q # qs)" using i Cons by (simp add: sched_inv_def queued_def)
  then have q: "q \<noteq> 0" "q \<notin> set qs" using pending.rep_get [OF r] pending.rep_distinct [OF r] by auto
  have "p = q" and st: "job_rep st qs" "job_at st = job_at (srv s)" "jobwait st = jobwait (srv s)" "nextjob st = nextjob (srv s)"
    using pick_job_spec [OF r] k by auto
  then have "sched_inv (s\<lparr>srv := st, prt := (if p = 0 then PWait else PBusy p)\<rparr>) qs ys"
    using i c q xs by (auto simp: sched_inv_def queued_def in_hand_def)
  then show ?thesis by blast
qed

lemma inv_printer_finish:
  assumes i: "sched_inv s ps xs" and c: "prt s = PBusy p" and x: "job_at (srv s) p = Some x" and f: "free_job p (srv s) = Some st"
  shows "sched_inv (s\<lparr>srv := st, prt := PTest, finished := finished s @ [x]\<rparr>) ps xs"
proof -
  have p: "p \<noteq> 0" "p \<notin> set ps" using i c by (auto simp: sched_inv_def)
  then have st: "st = (srv s)\<lparr>jobs := (jobs (srv s))(p := None)\<rparr>" using free_job_eq [OF p(1)] x f by auto
  have "map ((job_at (srv s))(p := None)) ps = map (job_at (srv s)) ps" using p(2) by simp
  then show ?thesis using i c x p unfolding st by (auto simp: sched_inv_def queued_def in_hand_def job_rep_free job_at_free)
qed

lemma inv_printer_defer:
  assumes i: "sched_inv s ps xs" and c: "prt s = PBusy p" and f: "replace_job p (srv s) = Some st"
  shows "\<exists>y. sched_inv (s\<lparr>srv := st, prt := PTest\<rparr>) (p # ps) (y # xs)"
proof -
  have p: "p \<noteq> 0" "p \<notin> set ps" "job_at (srv s) p \<noteq> None" and r: "job_rep (srv s) ps" using i c by (auto simp: sched_inv_def queued_def)
  then obtain y where y: "job_at (srv s) p = Some y" by auto
  have st: "job_rep st (p # ps)" "job_at st = job_at (srv s)" "jobwait st = jobwait (srv s)" "nextjob st = nextjob (srv s)"
    using replace_job_spec [OF r p(3,2,1)] f by auto
  show ?thesis by (rule exI [of _ y]) (use i c st y in \<open>auto simp: sched_inv_def queued_def in_hand_def\<close>)
qed

lemma step_inv: "step s s' \<Longrightarrow> sched_inv s ps xs \<Longrightarrow> \<exists>ps xs. sched_inv s' ps xs"
proof (induction rule: step.induct)
  case (client_start s t r)
  then have "sched_inv (s\<lparr>srv := srv s, clients := (clients s)(t := CReq r)\<rparr>) ps xs"
    by (intro inv_client) (auto simp: sched_inv_def queued_def)
  then have "sched_inv (s\<lparr>clients := (clients s)(t := CReq r)\<rparr>) ps xs" by simp
  then show ?case by blast
next
  case (client_signal s t)
  then have "sched_inv (s\<lparr>srv := cond_signal (srv s), clients := (clients s)(t := CNone)\<rparr>) ps xs"
    by (auto simp: sched_inv_def queued_def in_hand_def cond_signal_def split: ppc.splits)
  then show ?case by blast
next
  case (printer_wake s)
  then have "sched_inv (s\<lparr>prt := PTest\<rparr>) ps xs" by (auto simp: sched_inv_def queued_def in_hand_def)
  then show ?case by blast
next
  case (printer_spurious s)
  then have "sched_inv (s\<lparr>srv := (srv s)\<lparr>jobwait := False\<rparr>, prt := PTest\<rparr>) ps xs" by (auto simp: sched_inv_def queued_def in_hand_def)
  then show ?case by blast
next
  case (client_number s t r jid st)
  then show ?case using inv_client_number by blast
next
  case (client_add s t jid r p st)
  then show ?case using inv_client_add by blast
next
  case (printer_pick s p st)
  then show ?case using inv_printer_pick by blast
next
  case (printer_finish s p x st)
  then show ?case using inv_printer_finish by blast
next
  case (printer_defer s p st)
  then show ?case using inv_printer_defer by blast
qed

lemma reachable_inv: "reachable s \<Longrightarrow> \<exists>ps xs. sched_inv s ps xs"
proof (induction rule: reachable.induct)
  case (reachable_init s)
  then have "sched_inv s [] []" by (auto simp: started_def sched_inv_def queued_def in_hand_def)
  then show ?case by blast
next
  case (reachable_step s s')
  then show ?case using step_inv by blast
qed

section \<open>Progress\<close>

lemma queue_head: "sched_inv s ps xs \<Longrightarrow> jobhead (srv s) = headp ps 0"
  by (simp add: sched_inv_def queued_def job_rep_def dlist_def)

lemma pick_progress:
  assumes i: "sched_inv s (p # ps) xs" and c: "prt s = PTest"
  shows "\<exists>s'. step\<^sup>*\<^sup>* s s' \<and> prt s' = PBusy p"
proof -
  have r: "job_rep (srv s) (p # ps)" using i by (simp add: sched_inv_def queued_def)
  then obtain st where st: "pick_job (srv s) = Some (p, st)" "p \<noteq> 0" using pick_job_spec [OF r] pending.rep_get [OF r] by auto
  then show ?thesis using step.printer_pick [OF c st(1)]
    by (intro exI [of _ "s\<lparr>srv := st, prt := PBusy p\<rparr>"]) auto
qed

lemma wake_progress:
  assumes i: "sched_inv s (p # ps) xs" and c: "prt s = PWait"
  shows "\<exists>s'. step\<^sup>*\<^sup>* s s' \<and> prt s' = PTest \<and> sched_inv s' (p # ps) xs"
proof (cases "jobwait (srv s)")
  case False
  have "sched_inv (s\<lparr>prt := PTest\<rparr>) (p # ps) xs" using i c False by (auto simp: sched_inv_def queued_def in_hand_def)
  then show ?thesis using step.printer_wake [OF c False] by (intro exI [of _ "s\<lparr>prt := PTest\<rparr>"]) auto
next
  case True
  then obtain t where t: "clients s t = CSignal" using i by (auto simp: sched_inv_def)
  let ?s1 = "s\<lparr>srv := cond_signal (srv s), clients := (clients s)(t := CNone)\<rparr>"
  have s1: "step s ?s1" by (rule step.client_signal [OF t])
  have s2: "step ?s1 (?s1\<lparr>prt := PTest\<rparr>)" by (rule step.printer_wake) (simp_all add: c cond_signal_def)
  have "sched_inv (?s1\<lparr>prt := PTest\<rparr>) (p # ps) xs" using i c by (auto simp: sched_inv_def queued_def in_hand_def cond_signal_def)
  then show ?thesis using s1 s2 by (intro exI [of _ "?s1\<lparr>prt := PTest\<rparr>"]) auto
qed

lemma finish_progress:
  assumes i: "sched_inv s (p # ps) xs" and c: "prt s = PBusy q"
  shows "\<exists>s'. step s s' \<and> prt s' = PTest \<and> sched_inv s' (p # ps) xs"
proof -
  have q: "q \<noteq> 0" "job_at (srv s) q \<noteq> None" using i c by (auto simp: sched_inv_def)
  then obtain x where x: "job_at (srv s) q = Some x" by auto
  note f = free_job_eq [OF q]
  show ?thesis using step.printer_finish [OF c x f] inv_printer_finish [OF i c x f] by auto
qed

section \<open>Properties\<close>

text \<open>C2: in every reachable state of the server, whatever the interleaving of its threads, the list of
  pending jobs is well formed and its lock free, and the jobs that were added are, in this order, those
  the printer is done with, the one it works on, and those pending: jobs are printed first in,
  first out, and a job that is deferred keeps its place. No operation on the list runs into undefined
  behaviour.\<close>

theorem printd_fifo:
  assumes "reachable s"
  shows "\<exists>ps pending_jobs. job_rep (srv s) ps \<and> map (job_at (srv s)) ps = map Some pending_jobs \<and>
      accepted s = finished s @ in_hand s @ pending_jobs \<and>
      (\<exists>r. pick_job (srv s) = Some r) \<and> (\<forall>jid r p. p \<noteq> 0 \<and> jobs (srv s) p = None \<longrightarrow> (\<exists>st. add_job p r jid (srv s) = Some st)) \<and>
      (\<forall>p. prt s = PBusy p \<longrightarrow> (\<exists>st. replace_job p (srv s) = Some st) \<and> (\<exists>st. free_job p (srv s) = Some st))"
proof -
  obtain ps xs where i: "sched_inv s ps xs" using reachable_inv [OF assms] by blast
  then have r: "job_rep (srv s) ps" by (simp add: sched_inv_def queued_def)
  have "\<exists>r. pick_job (srv s) = Some r" using pick_job_spec [of "srv s" "hd ps" "tl ps"] pick_job_empty [of "srv s"] r by (cases ps) auto
  moreover have "\<exists>st. add_job p rq jid (srv s) = Some st" if "p \<noteq> 0 \<and> jobs (srv s) p = None" for p rq jid
    using add_job_link_spec [OF r, of p rq jid] that by (auto simp: job_at_def add_job_def)
  moreover have "(\<exists>st. replace_job p (srv s) = Some st) \<and> (\<exists>st. free_job p (srv s) = Some st)" if "prt s = PBusy p" for p
    using replace_job_spec [OF r, of p] free_job_eq [of p "srv s"] i that by (auto simp: sched_inv_def)
  ultimately show ?thesis using i r by (auto simp: sched_inv_def queued_def)
qed

text \<open>An empty server, for the witnesses.\<close>

definition empty_server :: "nat \<Rightarrow> printd" where
  "empty_server n = \<lparr>jobs = Map.empty, jobhead = 0, jobtail = 0, nextjob = int n, joblock = False, jobwait = False,
     jobfile = \<lparr>fbytes = [], fpos = 0\<rparr>, wthreads = Map.empty, workers = 0, workerlock = False, cancelled = [], closed = [],
     configlock = False, reread = False, printer = None, files = Map.empty, io = []\<rparr>"

definition start_sched :: sched where
  "start_sched = \<lparr>srv = empty_server 1, clients = (\<lambda>t. CNone), prt = PTest, accepted = [], finished = []\<rparr>"

lemma started_start: "started start_sched"
  by (simp add: started_def start_sched_def empty_server_def job_rep_def dlist_def)

theorem printd_fifo_witness: "\<exists>ps pending_jobs. job_rep (srv start_sched) ps \<and> accepted start_sched = finished start_sched @ in_hand start_sched @ pending_jobs"
  using printd_fifo [OF reachable_init [OF started_start]] by blast

text \<open>C3: no wake-up is lost: in every reachable state with a pending job the printer thread can get to work on the
  first pending job by steps of the existing threads; in particular, if it waits on the condition
  variable, a client thread is about to signal it.\<close>

theorem printd_no_lost_wakeup:
  assumes "reachable s" "jobhead (srv s) \<noteq> 0"
  shows "(jobwait (srv s) \<longrightarrow> (\<exists>t. clients s t = CSignal)) \<and> (\<exists>s'. step\<^sup>*\<^sup>* s s' \<and> prt s' = PBusy (jobhead (srv s)))"
proof -
  obtain ps xs where i: "sched_inv s ps xs" using reachable_inv [OF assms(1)] by blast
  then obtain p qs where ps: "ps = p # qs" "jobhead (srv s) = p" using queue_head [OF i] assms(2) by (cases ps) auto
  have "\<exists>s'. step\<^sup>*\<^sup>* s s' \<and> prt s' = PTest \<and> sched_inv s' ps xs"
  proof (cases "prt s")
    case PTest
    then show ?thesis using i by blast
  next
    case PWait
    then show ?thesis using wake_progress [of s p qs xs] i ps by simp
  next
    case (PBusy q)
    then obtain s' where "step s s'" "prt s' = PTest" "sched_inv s' ps xs" using finish_progress [of s p qs xs q] i ps by auto
    then show ?thesis by (intro exI [of _ s']) simp
  qed
  then obtain s1 where s1: "step\<^sup>*\<^sup>* s s1" "prt s1 = PTest" "sched_inv s1 ps xs" by blast
  obtain s2 where "step\<^sup>*\<^sup>* s1 s2" "prt s2 = PBusy p" using pick_progress [of s1 p qs xs] s1 ps by auto
  then have "\<exists>s'. step\<^sup>*\<^sup>* s s' \<and> prt s' = PBusy p" using rtranclp_trans [OF s1(1)] by blast
  moreover have "jobwait (srv s) \<longrightarrow> (\<exists>t. clients s t = CSignal)" using i ps(1) unfolding sched_inv_def by simp
  ultimately show ?thesis using ps by simp
qed

definition one_job :: sched where
  "one_job = start_sched\<lparr>srv := (empty_server 2)\<lparr>jobs := [7 \<mapsto> \<lparr>jnext = 0, jprev = 0, jobid = 1, req = \<lparr>rsize = 0, flags = 0, usernm = [], jobnm = []\<rparr>\<rparr>], jobhead := 7, jobtail := 7\<rparr>,
     clients := (\<lambda>t. CNone)(0 := CSignal), accepted := [(1, \<lparr>rsize = 0, flags = 0, usernm = [], jobnm = []\<rparr>)]\<rparr>"

lemma one_job_reachable: "reachable one_job"
proof -
  let ?r = "\<lparr>rsize = 0, flags = 0, usernm = [], jobnm = []\<rparr>"
  let ?s1 = "start_sched\<lparr>clients := (\<lambda>t. CNone)(0 := CReq ?r)\<rparr>"
  let ?s2 = "?s1\<lparr>srv := empty_server 2, clients := (\<lambda>t. CNone)(0 := CHave 1 ?r)\<rparr>"
  have 1: "step start_sched ?s1" using step.client_start [of start_sched 0 ?r] by (simp add: start_sched_def)
  have 2: "step ?s1 ?s2" using step.client_number [of ?s1 0 ?r 1 "empty_server 2"]
    by (simp add: start_sched_def empty_server_def get_newjobno_def lock_job_def unlock_job_def)
  have 3: "step ?s2 one_job" using step.client_add [of ?s2 0 1 ?r 7 "srv one_job"]
    by (simp add: start_sched_def one_job_def empty_server_def add_job_link_def lock_job_def unlock_job_def)
  show ?thesis using reachable_step [OF reachable_step [OF reachable_step [OF reachable_init [OF started_start] 1] 2] 3] .
qed

theorem printd_no_lost_wakeup_witness: "\<exists>s'. step\<^sup>*\<^sup>* one_job s' \<and> prt s' = PBusy 7"
  using printd_no_lost_wakeup [OF one_job_reachable] by (simp add: one_job_def)

end
