(* ===== verification/Printer_Admin.thy ===== *)
theory Printer_Admin
  imports Printer_Sched
begin

text \<open>
  The print server, second part: properties of the job numbers, of the file that keeps the next number
  across restarts, and of the list of worker threads.
\<close>

section \<open>Job numbers\<close>

text \<open>\<open>k\<close> calls of \<open>get_newjobno\<close>.\<close>

fun take_numbers :: "nat \<Rightarrow> printd \<Rightarrow> (int list \<times> printd) option" where
  "take_numbers 0 st = Some ([], st)"
| "take_numbers (Suc k) st = do { (j, st) \<leftarrow> get_newjobno st; (js, st) \<leftarrow> take_numbers k st; Some (j # js, st) }"

lemma take_numbers_eq:
  "\<not> joblock st \<Longrightarrow> 0 < nextjob st \<Longrightarrow> nextjob st < 2 ^ 31 \<Longrightarrow>
   take_numbers k st = (if nextjob st + int k < 2 ^ 31 then Some (map (\<lambda>i. nextjob st + int i) [0..<k], st\<lparr>nextjob := nextjob st + int k\<rparr>) else None)"
proof (induction k arbitrary: st)
  case (Suc k)
  show ?case
  proof (cases "nextjob st < 2 ^ 31 - 1")
    case True
    let ?st = "st\<lparr>nextjob := nextjob st + 1\<rparr>"
    have "take_numbers k ?st = (if nextjob st + int (Suc k) < 2 ^ 31 then Some (map (\<lambda>i. nextjob st + int (Suc i)) [0..<k], st\<lparr>nextjob := nextjob st + int (Suc k)\<rparr>) else None)"
      using Suc.IH [of ?st] Suc.prems True by (simp add: add.assoc)
    moreover have "map (\<lambda>i. nextjob st + int i) [0..<Suc k] = nextjob st # map (\<lambda>i. nextjob st + int (Suc i)) [0..<k]"
      by (simp add: upt_conv_Cons map_Suc_upt [symmetric] del: upt_Suc)
    ultimately show ?thesis using get_newjobno_eq [of st] Suc.prems True by (simp del: upt_Suc)
  qed (use get_newjobno_eq [of st] Suc.prems in simp)
qed simp

section \<open>The job file\<close>

lemma decs_dec: "0 \<le> n \<Longrightarrow> decs n = dec (nat n)"
  by (simp add: decs_def)

lemma atol_digits:
  assumes "n < 2 ^ 63" "rest = [] \<or> \<not> isdigit (hd rest)"
  shows "atol (dec n @ rest) = int n"
proof -
  obtain c r where cr: "dec n = c # r" by (cases "dec n") auto
  then have c: "isdigit c" using dec_isdigit [of c n] by simp
  have "takeWhile isdigit (dec n @ rest) = dec n"
    using assms(2) dec_isdigit [of _ n] by (cases rest) (auto simp: takeWhile_append takeWhile_eq_all_conv [THEN iffD2])
  then have "digits_val (dec n @ rest) = int n" using dec_value [of n] by (simp add: digits_val_def)
  moreover have "dropWhile isspace (dec n @ rest) = dec n @ rest" using cr isdigit_facts [OF c] by simp
  ultimately show ?thesis using cr isdigit_facts [OF c] assms(1) by (simp add: atol_def)
qed

text \<open>The path name below the number holds no digit, so that the number ends where it should.\<close>

lemma atol_over_path:
  assumes "0 \<le> n" "n < 2 ^ 31"
  shows "atol_buf (overwrite (overwrite junk 0 (SPOOLDIR @ ''/'' @ JOBFILE @ [NUL])) 0 (dec (nat n))) = Some n"
proof -
  define path where "path = SPOOLDIR @ ''/'' @ JOBFILE @ [NUL]"
  define d where "d = dec (nat n)"
  have dl: "length d \<le> 10" using length_dec [of "nat n" 10] assms by (simp add: d_def)
  have pl: "length path = 25" by (simp add: path_def SPOOLDIR_def JOBFILE_def)
  have nd: "\<forall>c \<in> set path. \<not> isdigit c" by (auto simp: path_def SPOOLDIR_def JOBFILE_def isdigit_def NUL_def)
  have eq: "overwrite (overwrite junk 0 path) 0 d = d @ drop (length d) path @ drop 25 junk"
    using dl pl by (simp add: overwrite_def d_def path_def [symmetric]) (auto simp: overwrite_def)
  let ?rest = "drop (length d) path @ drop 25 junk"
  have ne: "drop (length d) path \<noteq> []" using dl pl by simp
  then have hd: "\<not> isdigit (hd ?rest)" using nd by (metis hd_append2 hd_in_set in_set_dropD)
  obtain c r where cr: "d = c # r" by (cases d) (auto simp: d_def)
  then have c: "isdigit c" using dec_isdigit [of c "nat n"] by (simp add: d_def)
  have ds: "dropWhile isspace (d @ ?rest) = d @ ?rest" using cr isdigit_facts [OF c] by simp
  have dd: "dropWhile isdigit (d @ ?rest) \<noteq> []"
    using hd ne by (metis append_Nil2 append_is_Nil_conv dropWhile_eq_Nil_conv hd_in_set Un_iff set_append)
  have "(case d @ ?rest of [] \<Rightarrow> [] | a # l \<Rightarrow> if a = CHR ''-'' \<or> a = CHR ''+'' then l else d @ ?rest) = d @ ?rest"
    using cr isdigit_facts [OF c] by simp
  moreover have "atol (d @ ?rest) = n" using atol_digits [of "nat n" ?rest] hd assms by (simp add: d_def)
  ultimately have "atol_buf (d @ ?rest) = Some n" unfolding atol_buf_def ds Let_def using dd by simp
  then show ?thesis using eq by (simp add: d_def path_def)
qed

section \<open>Properties of the job numbers\<close>

text \<open>C40: the numbers that \<open>get_newjobno\<close> hands out are positive, follow each other without a gap and are
  therefore pairwise different, as long as the counter stays below \<open>2\<^sup>31\<close>. The call that would hand out
  2147483647 is a signed overflow: the reset to 1 in the code comes after it.\<close>

theorem jobno_sequence:
  assumes "\<not> joblock st" "0 < nextjob st" "nextjob st < 2 ^ 31"
  shows "if nextjob st + int k < 2 ^ 31
    then \<exists>js. take_numbers k st = Some (js, st\<lparr>nextjob := nextjob st + int k\<rparr>) \<and> length js = k \<and>
      (\<forall>i < k. js ! i = nextjob st + int i \<and> 0 < js ! i \<and> js ! i < 2 ^ 31 - 1) \<and> distinct js
    else take_numbers k st = None"
  using take_numbers_eq [OF assms, of k] assms(2) by (auto simp: distinct_map inj_on_def)

theorem jobno_sequence_witness:
  "take_numbers 2 (empty_server 2147483646) = None \<and> (\<exists>js st'. take_numbers 2 (empty_server 7) = Some (js, st') \<and> js ! 1 = 8)"
  using jobno_sequence [of "empty_server 2147483646" 2] jobno_sequence [of "empty_server 7" 2] by (auto simp: empty_server_def)

text \<open>The next job number survives a restart: after \<open>update_jobno\<close>, \<open>init_request\<close> of the next server reads it
  back from the file, although it parses a buffer that is not terminated (the file must not hold a longer number
  from before). But a number handed out after the last update is handed out again after the restart.\<close>

theorem jobno_file:
  assumes "0 < nextjob st" "nextjob st < 2 ^ 31 - 1" "length (fbytes (jobfile st)) \<le> length (decs (nextjob st))" "\<not> joblock st" "\<not> joblock new"
  shows "\<exists>st1 st2 new1 new2. update_jobno st = Some st1 \<and> get_newjobno st1 = Some (nextjob st, st2) \<and>
      init_request ((jobfile st2)\<lparr>fpos := 0\<rparr>) True junk new = Some new1 \<and> nextjob new1 = nextjob st \<and>
      get_newjobno new1 = Some (nextjob st, new2)"
proof -
  define d where "d = dec (nat (nextjob st))"
  define st1 where "st1 = st\<lparr>jobfile := \<lparr>fbytes = d, fpos = length d\<rparr>\<rparr>"
  have dl: "length d \<le> 10" "d \<noteq> []" using length_dec [of "nat (nextjob st)" 10] assms by (auto simp: d_def)
  have up: "update_jobno st = Some st1"
    using assms(1,3) dl by (simp add: update_jobno_def lseek_def fd_write_def overwrite_def st1_def d_def decs_dec)
  obtain st2 where st2: "get_newjobno st1 = Some (nextjob st, st2)" "jobfile st2 = jobfile st1"
    using get_newjobno_eq [of st1] assms by (auto simp: st1_def)
  define new1 where "new1 = new\<lparr>jobfile := \<lparr>fbytes = d, fpos = length d\<rparr>, nextjob := nextjob st\<rparr>"
  have "fd_read ((jobfile st2)\<lparr>fpos := 0\<rparr>) FILENMSZ = (d, \<lparr>fbytes = d, fpos = length d\<rparr>)"
    using dl st2(2) by (simp add: fd_read_def FILENMSZ_def st1_def Let_def)
  then have ini: "init_request ((jobfile st2)\<lparr>fpos := 0\<rparr>) True junk new = Some new1"
    using atol_over_path [of "nextjob st" junk] assms(1,2) dl(2) int32_id [of "nextjob st"]
    by (simp add: init_request_def new1_def d_def)
  have "\<exists>new2. get_newjobno new1 = Some (nextjob st, new2)" using get_newjobno_eq [of new1] assms by (auto simp: new1_def)
  then show ?thesis using up st2(1) ini by (auto simp: new1_def)
qed

theorem jobno_file_witness:
  "\<exists>st1 st2 new1 new2. update_jobno (empty_server 17) = Some st1 \<and> get_newjobno st1 = Some (17, st2) \<and>
     init_request ((jobfile st2)\<lparr>fpos := 0\<rparr>) True [] (empty_server 1) = Some new1 \<and> get_newjobno new1 = Some (17, new2)"
  using jobno_file [of "empty_server 17" "empty_server 1" "[]"] by (auto simp: empty_server_def)

section \<open>The worker threads\<close>

lemma kill_loop_linked:
  "linked wnext wprev h p ws 0 \<Longrightarrow> kill_loop h (headp ws 0) = Some (map (\<lambda>w. tid (the (h w))) ws)"
proof (induction ws arbitrary: p)
  case (Cons w ws)
  then show ?case by (subst kill_loop.simps) (auto split: option.splits)
qed (simp add: kill_loop.simps)

lemma kill_loop_next_only:
  assumes "kill_loop h w = Some ts" "\<And>x. map_option (\<lambda>n. (wnext n, tid n)) (h' x) = map_option (\<lambda>n. (wnext n, tid n)) (h x) \<or> h x = None"
  shows "kill_loop h' w = Some ts"
  using assms(1)
proof (induction ts arbitrary: w)
  case Nil
  then show ?case by (subst kill_loop.simps, subst (asm) kill_loop.simps) (auto simp: Option.bind_eq_Some_conv split: if_splits)
next
  case (Cons t ts)
  then obtain n where n: "w \<noteq> 0" "h w = Some n" "tid n = t" "kill_loop h (wnext n) = Some ts"
    by (subst (asm) kill_loop.simps) (auto simp: Option.bind_eq_Some_conv split: if_splits)
  then obtain m where "h' w = Some m" "wnext m = wnext n" "tid m = t" using assms(2) [of w] by auto
  then show ?case using n Cons.IH [OF n(4)] by (subst kill_loop.simps) auto
qed

text \<open>The list of worker threads is not maintained correctly. A worker that is added to a nonempty list
  is not reachable from its head: \<open>kill_workers\<close> cancels exactly the threads it would have cancelled
  before. And when the worker at the head ends, its node is freed although the head still points to
  it: the clean-up of the second worker follows the dangling pointer.\<close>

theorem worker_list_broken:
  "(\<forall>st wtp t fd ts. workers st \<noteq> 0 \<and> wthreads st (workers st) \<noteq> None \<and> \<not> workerlock st \<and> wtp \<noteq> 0 \<and> wthreads st wtp = None \<and>
      kill_loop (wthreads st) (workers st) = Some ts \<longrightarrow>
      (\<exists>st'. add_worker wtp t fd st = Some (True, st') \<and> map_option cancelled (kill_workers st') = Some (cancelled st @ ts))) \<and>
   (\<exists>st1 st2 st3. add_worker 10 1 5 (empty_server 1) = Some (True, st1) \<and> add_worker 20 2 6 st1 = Some (True, st2) \<and>
      client_cleanup 1 st2 = Some st3 \<and> client_cleanup 2 st3 = None)"
proof (intro conjI allI impI)
  fix st :: printd and wtp t fd ts
  assume a: "workers st \<noteq> 0 \<and> wthreads st (workers st) \<noteq> None \<and> \<not> workerlock st \<and> wtp \<noteq> 0 \<and> wthreads st wtp = None \<and>
      kill_loop (wthreads st) (workers st) = Some ts"
  then obtain n where n: "wthreads st (workers st) = Some n" by auto
  let ?h = "(wthreads st)(wtp \<mapsto> \<lparr>wnext = workers st, wprev = 0, tid = t, sockfd = fd\<rparr>, workers st \<mapsto> n\<lparr>wprev := wtp\<rparr>)"
  have ne: "wtp \<noteq> workers st" using a n by auto
  have "add_worker wtp t fd st = Some (True, st\<lparr>wthreads := ?h\<rparr>)"
    using a n ne by (simp add: add_worker_def lock_worker_def unlock_worker_def)
  moreover have "kill_loop ?h (workers st) = Some ts"
    by (rule kill_loop_next_only [of "wthreads st"]) (use a n in auto)
  ultimately show "\<exists>st'. add_worker wtp t fd st = Some (True, st') \<and> map_option cancelled (kill_workers st') = Some (cancelled st @ ts)"
    using a by (simp add: kill_workers_def lock_worker_def unlock_worker_def)
next
  show "\<exists>st1 st2 st3. add_worker 10 1 5 (empty_server 1) = Some (True, st1) \<and> add_worker 20 2 6 st1 = Some (True, st2) \<and>
      client_cleanup 1 st2 = Some st3 \<and> client_cleanup 2 st3 = None"
    by (simp add: add_worker_def client_cleanup_def lock_worker_def unlock_worker_def empty_server_def find_worker.simps)
qed

theorem worker_list_broken_witness:
  "\<exists>st'. add_worker 20 2 6 ((empty_server 1)\<lparr>wthreads := [10 \<mapsto> \<lparr>wnext = 0, wprev = 0, tid = 1, sockfd = 5\<rparr>], workers := 10\<rparr>) = Some (True, st') \<and>
     map_option cancelled (kill_workers st') = Some [1]"
proof -
  let ?st = "(empty_server 1)\<lparr>wthreads := [10 \<mapsto> \<lparr>wnext = 0, wprev = 0, tid = 1, sockfd = 5\<rparr>], workers := 10\<rparr>"
  have "kill_loop (wthreads ?st) (workers ?st) = Some [1]" by (simp add: kill_loop.simps)
  then show ?thesis using worker_list_broken [THEN conjunct1, rule_format, of ?st 20 "[1]" 2 6] by (simp add: empty_server_def)
qed

end
