(* ===== verification/Byte_Streams.thy ===== *)
theory Byte_Streams
  imports C_Library
begin

unbundle bit_operations_syntax

text \<open>
  Sockets and the functions that read and write a given number of bytes: \<open>readn\<close> and \<open>writen\<close> of
  \<open>src/apue/apue.3e/lib\<close>, \<open>tread\<close> and \<open>treadn\<close> of \<open>src/apue/apue.3e/printer/util.c\<close>; and 32-bit numbers in
  host (little-endian) and network byte order.
\<close>

section \<open>Sockets\<close>

text \<open>What a socket delivers, in order: data, a time without data that is longer than the caller is ready to
  wait, an error with its \<open>errno\<close>. The end of the sequence is the end of the stream.\<close>

datatype sev = Data string | Timeout | Error int

datatype rres = Got string | Err int

definition ETIME :: int where "ETIME = 62"
definition EIO :: int where "EIO = 5"

fun sock_read :: "nat \<Rightarrow> sev list \<Rightarrow> rres \<times> sev list" where
  "sock_read n [] = (Got [], [])"
| "sock_read n (Data d # s) = (Got (take n d), if length d \<le> n then s else Data (drop n d) # s)"
| "sock_read n (Timeout # s) = sock_read n s"
| "sock_read n (Error e # s) = (Err e, s)"

text \<open>\<open>tread\<close>: \<open>select\<close> with a time limit, then \<open>read\<close>.\<close>

definition tread :: "nat \<Rightarrow> sev list \<Rightarrow> rres \<times> sev list" where
  "tread n s = (case s of Timeout # s' \<Rightarrow> (Err ETIME, s') | _ \<Rightarrow> sock_read n s)"

text \<open>The common loop of \<open>readn\<close> and \<open>treadn\<close> around a reading function \<open>rdf\<close>.\<close>

function readn_loop :: "(nat \<Rightarrow> 's \<Rightarrow> rres \<times> 's) \<Rightarrow> nat \<Rightarrow> nat \<Rightarrow> string \<Rightarrow> 's \<Rightarrow> rres \<times> 's" where
  "readn_loop rdf n nleft buf s =
     (if nleft = 0 then (Got buf, s)
      else case rdf nleft s of
        (Err e, s) \<Rightarrow> (if nleft = n then (Err e, s) else (Got buf, s))
      | (Got d, s) \<Rightarrow> (if d = [] then (Got buf, s) else readn_loop rdf n (nleft - length d) (buf @ d) s))"
  by pat_completeness auto
termination
  by (relation "measure (\<lambda>(rdf, n, nleft, buf, s). nleft)") auto

declare readn_loop.simps [simp del]

definition readn :: "nat \<Rightarrow> sev list \<Rightarrow> rres \<times> sev list" where
  "readn n s = readn_loop sock_read n n [] s"

definition treadn :: "nat \<Rightarrow> sev list \<Rightarrow> rres \<times> sev list" where
  "treadn n s = readn_loop tread n n [] s"

text \<open>A sink that accepts only part of the data at a time, or fails; with nothing said it accepts all.
  \<open>writen\<close> returns the number of bytes, or -1; the bytes accepted are collected.\<close>

datatype wev = Accept nat | WErr int

fun sink_write :: "string \<Rightarrow> wev list \<Rightarrow> (nat + int) \<times> wev list" where
  "sink_write d [] = (Inl (length d), [])"
| "sink_write d (Accept k # w) = (Inl (min k (length d)), w)"
| "sink_write d (WErr e # w) = (Inr e, w)"

function writen_loop :: "nat \<Rightarrow> string \<Rightarrow> string \<Rightarrow> wev list \<Rightarrow> int \<times> string \<times> wev list" where
  "writen_loop n ptr out w =
     (if ptr = [] then (int n, out, w)
      else case sink_write ptr w of
        (Inr e, w) \<Rightarrow> (if length ptr = n then (-1, out, w) else (int n - int (length ptr), out, w))
      | (Inl k, w) \<Rightarrow> (if k = 0 then (int n - int (length ptr), out, w) else writen_loop n (drop k ptr) (out @ take k ptr) w))"
  by pat_completeness auto
termination
  by (relation "measure (\<lambda>(n, ptr, out, w). length ptr)") auto

declare writen_loop.simps [simp del]

definition writen :: "string \<Rightarrow> wev list \<Rightarrow> int \<times> string \<times> wev list" where
  "writen ptr w = writen_loop (length ptr) ptr [] w"

section \<open>Reading exactly n bytes\<close>

text \<open>The data of a stream up to the first gap or error, when no event carries an empty piece.\<close>

fun data_of :: "sev list \<Rightarrow> string" where
  "data_of (Data d # s) = d @ data_of s"
| "data_of s = []"

fun proper :: "sev list \<Rightarrow> bool" where
  "proper (Data d # s) \<longleftrightarrow> d \<noteq> [] \<and> proper s"
| "proper s \<longleftrightarrow> True"

fun after_data :: "sev list \<Rightarrow> sev list" where
  "after_data (Data d # s) = after_data s"
| "after_data s = s"

text \<open>The contract of a reading function on a stream.\<close>

locale reader =
  fixes rdf :: "nat \<Rightarrow> sev list \<Rightarrow> rres \<times> sev list"
  assumes rdf_data: "rdf n (Data d # s) = (Got (take n d), if length d \<le> n then s else Data (drop n d) # s)"
begin

lemma loop_data:
  "proper s \<Longrightarrow> nleft \<le> length (data_of s) \<Longrightarrow>
   \<exists>s'. readn_loop rdf n nleft buf s = (Got (buf @ take nleft (data_of s)), s') \<and> proper s' \<and>
     data_of s' = drop nleft (data_of s) \<and> after_data s' = after_data s"
proof (induction nleft arbitrary: buf s rule: less_induct)
  case (less nleft)
  show ?case
  proof (cases "nleft = 0")
    case True
    then show ?thesis using less.prems by (auto simp: readn_loop.simps)
  next
    case False
    then obtain d t where s: "s = Data d # t" using less.prems by (cases s rule: data_of.cases) auto
    have d: "d \<noteq> []" "proper t" using less.prems s by auto
    let ?t = "if length d \<le> nleft then t else Data (drop nleft d) # t"
    have tk: "take nleft d \<noteq> []" using d False by (cases d; cases nleft) auto
    have step: "readn_loop rdf n nleft buf s = readn_loop rdf n (nleft - length (take nleft d)) (buf @ take nleft d) ?t"
      using False tk by (subst readn_loop.simps) (simp add: s rdf_data)
    have "\<exists>s'. readn_loop rdf n (nleft - length (take nleft d)) (buf @ take nleft d) ?t =
        (Got ((buf @ take nleft d) @ take (nleft - length (take nleft d)) (data_of ?t)), s') \<and> proper s' \<and>
        data_of s' = drop (nleft - length (take nleft d)) (data_of ?t) \<and> after_data s' = after_data ?t"
      using less.prems s d False by (intro less.IH) (auto simp: not_le)
    then show ?thesis unfolding step using s by (auto split: if_splits)
  qed
qed

end

interpretation sock: reader sock_read
  by unfold_locales simp

interpretation timed: reader tread
  by unfold_locales (simp add: tread_def)

lemma writen_loop_prefix:
  "length ptr \<le> n \<Longrightarrow> writen_loop n ptr out w = (r, out', w') \<Longrightarrow>
   \<exists>k \<le> length ptr. out' = out @ take k ptr \<and> (r = int n - int (length ptr) + int k \<or> r = -1 \<and> k = 0 \<and> length ptr = n)"
proof (induction n ptr out w rule: writen_loop.induct)
  case (1 n ptr out w)
  note eq = 1(3) [unfolded writen_loop.simps [of n ptr out w]]
  consider "ptr = []" | e w1 where "ptr \<noteq> []" "sink_write ptr w = (Inr e, w1)" | w1 where "ptr \<noteq> []" "sink_write ptr w = (Inl 0, w1)"
    | k w1 where "ptr \<noteq> []" "sink_write ptr w = (Inl k, w1)" "k \<noteq> 0"
    by (cases "sink_write ptr w"; cases "fst (sink_write ptr w)") auto
  then show ?case
  proof cases
    case (4 k w1)
    then have k: "k \<le> length ptr" by (cases w; cases "hd w") auto
    have "writen_loop n (drop k ptr) (out @ take k ptr) w1 = (r, out', w')" using eq 4 by simp
    moreover have "length (drop k ptr) \<le> n" using 1(2) by simp
    ultimately obtain j where j: "j \<le> length (drop k ptr)" "out' = (out @ take k ptr) @ take j (drop k ptr)"
        "r = int n - int (length (drop k ptr)) + int j \<or> r = -1 \<and> j = 0 \<and> length (drop k ptr) = n"
      using 1(1) [OF 4(1) 4(2) [symmetric] refl 4(3)] by blast
    then show ?thesis using k 1(2) 4(1,3) by (intro exI [of _ "k + j"]) (auto simp: take_add)
  qed (use eq in \<open>auto split: if_splits intro: exI [of _ 0]\<close>)
qed

section \<open>Byte order\<close>

text \<open>The bytes of a 32-bit number in memory, lowest first, and the number in four bytes.\<close>

definition to_le :: "32 word \<Rightarrow> string" where
  "to_le w = (let n = unat w in
     [char_of n, char_of (n div 256), char_of (n div 256 div 256), char_of (n div 256 div 256 div 256)])"

fun of_le :: "string \<Rightarrow> 32 word" where
  "of_le [] = 0"
| "of_le (c # s) = of_nat (of_char c) + 256 * of_le s"

definition htonl :: "32 word \<Rightarrow> 32 word" where
  "htonl w = of_le (rev (to_le w))"

definition ntohl :: "32 word \<Rightarrow> 32 word" where
  "ntohl w = htonl w"

lemma length_to_le [simp]: "length (to_le w) = 4"
  by (simp add: to_le_def Let_def)

lemma of_le_to_le [simp]: "of_le (to_le w) = w"
proof -
  define n where "n = unat w"
  have "n div 256 div 256 div 256 < 256" using unsigned_less [of w, where ?'a = nat] by (simp add: n_def div_mult2_eq [symmetric] div_less_iff_less_mult)
  then have "n mod 256 + 256 * (n div 256 mod 256 + 256 * (n div 256 div 256 mod 256 + 256 * (n div 256 div 256 div 256 mod 256))) = n"
    by (simp add: mod_mult_div_eq)
  then have "of_nat (n mod 256 + 256 * (n div 256 mod 256 + 256 * (n div 256 div 256 mod 256 + 256 * (n div 256 div 256 div 256 mod 256)))) = w"
    by (simp only: n_def) simp
  then show ?thesis by (simp add: to_le_def Let_def of_char_of n_def)
qed

lemma to_le_of_le: "length s = 4 \<Longrightarrow> to_le (of_le s) = s"
proof -
  assume "length s = 4"
  then obtain a b c d where s: "s = [a, b, c, d]" by (auto simp: numeral_eq_Suc length_Suc_conv)
  define n3 n2 n1 n0 :: nat where "n3 = of_char d" and "n2 = of_char c + 256 * n3" and "n1 = of_char b + 256 * n2" and "n0 = of_char a + 256 * n1"
  have lt: "(of_char x :: nat) < 256" for x :: char by simp
  have le: "(of_char x :: nat) \<le> 255" for x :: char using nat_of_char_less_256 [of x] by linarith
  have "n3 \<le> 255" "n2 \<le> 255 + 256 * n3" "n1 \<le> 255 + 256 * n2" "n0 \<le> 255 + 256 * n1"
    using le [of a] le [of b] le [of c] le [of d] unfolding n0_def n1_def n2_def n3_def by simp_all
  then have "n0 < 2 ^ 32" by simp
  moreover have w: "of_le s = of_nat n0" by (simp add: s n0_def n1_def n2_def n3_def)
  ultimately have u: "unat (of_le s) = n0" by (simp add: unat_of_nat)
  have dm: "(of_char x + 256 * m) div 256 = m" "(of_char x + 256 * m) mod 256 = of_char x" for x :: char and m :: nat
    by simp_all
  have "n0 div 256 = n1" "n1 div 256 = n2" "n2 div 256 = n3" unfolding n0_def n1_def n2_def by (rule dm)+
  moreover have "n0 mod 256 = of_char a" "n1 mod 256 = of_char b" "n2 mod 256 = of_char c" unfolding n0_def n1_def n2_def by (rule dm)+
  then have "char_of n0 = a" "char_of n1 = b" "char_of n2 = c" by (metis of_char_of char_of_char)+
  ultimately have "to_le (of_le s) = [a, b, c, d]" unfolding to_le_def u Let_def by (simp add: n3_def)
  then show ?thesis by (simp add: s)
qed

lemma ntohl_htonl [simp]: "ntohl (htonl w) = w" "htonl 0 = 0"
  by (simp_all add: ntohl_def htonl_def to_le_of_le) (simp add: to_le_def Let_def)

end
