(* ===== verification/Printer_Client.thy ===== *)
theory Printer_Client
  imports Printer_Admin Byte_Streams
begin

unbundle bit_operations_syntax

text \<open>
  Submission of a job: the client program \<open>print.c\<close> (\<open>submit_file\<close>) and the thread of the server that serves it
  (\<open>client_thread\<close> of \<open>printd.c\<close>), with the search of the spool directory at the start of the server
  (\<open>build_qonstart\<close>) and the configuration file (\<open>util.c\<close>), all in \<open>src/apue/apue.3e/printer\<close>. The structs travel as their
  bytes in memory. \<open>strerror\<close> of the C library is a parameter. The main theorem composes both programs over any
  fragmentation of the byte stream.
\<close>

section \<open>Constants, strings and structs\<close>

definition USERNM_MAX :: nat where "USERNM_MAX = 64"
definition JOBNM_MAX :: nat where "JOBNM_MAX = 256"
definition MSGLEN_MAX :: nat where "MSGLEN_MAX = 512"
definition IOBUFSZ :: nat where "IOBUFSZ = 8192"
definition PR_TEXT :: "32 word" where "PR_TEXT = 1"

lemmas print_consts = USERNM_MAX_def JOBNM_MAX_def MSGLEN_MAX_def IOBUFSZ_def PR_TEXT_def

text \<open>\<open>strcpy\<close> and \<open>strncpy\<close> of a C string (without its null byte) into an array.\<close>

definition strcpy :: "string \<Rightarrow> string \<Rightarrow> string option" where
  "strcpy a s = (if length s < length a then Some (s @ NUL # drop (length s + 1) a) else None)"

definition strncpy :: "string \<Rightarrow> string \<Rightarrow> nat \<Rightarrow> string option" where
  "strncpy a s n = (if n \<le> length a then Some (take n s @ replicate (n - length s) NUL @ drop n a) else None)"

definition enc_req :: "printreq \<Rightarrow> string" where
  "enc_req r = to_le (rsize r) @ to_le (flags r) @ usernm r @ jobnm r"

definition dec_req :: "string \<Rightarrow> printreq" where
  "dec_req b = \<lparr>rsize = of_le (take 4 b), flags = of_le (take 4 (drop 4 b)),
     usernm = take USERNM_MAX (drop 8 b), jobnm = take JOBNM_MAX (drop (8 + USERNM_MAX) b)\<rparr>"

definition sizeof_printreq :: nat where
  "sizeof_printreq = 8 + USERNM_MAX + JOBNM_MAX"

record printresp =
  retcode :: "32 word"
  rjobid :: "32 word"
  msg :: string

definition enc_resp :: "printresp \<Rightarrow> string" where
  "enc_resp r = to_le (retcode r) @ to_le (rjobid r) @ msg r"

definition dec_resp :: "string \<Rightarrow> printresp" where
  "dec_resp b = \<lparr>retcode = of_le (take 4 b), rjobid = of_le (take 4 (drop 4 b)), msg = drop 8 b\<rparr>"

definition sizeof_printresp :: nat where
  "sizeof_printresp = 8 + MSGLEN_MAX"

section \<open>The client program\<close>

text \<open>The header that \<open>submit_file\<close> builds; \<open>pw\<close> is the user's name if there is a password entry, \<open>junk\<close> what
  the struct held before.\<close>

definition submit_header :: "string option \<Rightarrow> string \<Rightarrow> nat \<Rightarrow> bool \<Rightarrow> printreq \<Rightarrow> printreq option" where
  "submit_header pw fname nbytes text junk = do {
     u \<leftarrow> (case pw of None \<Rightarrow> strcpy (usernm junk) ''unknown''
          | Some nm \<Rightarrow> do { u \<leftarrow> strncpy (usernm junk) nm (USERNM_MAX - 1); wr u (USERNM_MAX - 1) NUL });
     j \<leftarrow> (if length fname \<ge> JOBNM_MAX
          then strcpy (jobnm junk) (''... '' @ take (JOBNM_MAX - 5) (drop (length fname - JOBNM_MAX + 5) fname))
          else strcpy (jobnm junk) fname);
     Some \<lparr>rsize = htonl (of_nat nbytes), flags = (if text then htonl PR_TEXT else 0), usernm = u, jobnm = j\<rparr>
   }"

text \<open>The loop that sends the file. \<open>rs\<close> are the results of \<open>read\<close>, ending with the empty one at the end of the
  file. A failed \<open>read\<close> is not noticed: the loop then writes \<open>(size_t)-1\<close> bytes, undefined behaviour. The
  results of the program: it stops with an error, or goes on with the bytes that were sent.\<close>

datatype 'a outcome = Quit | Go 'a

fun send_file :: "rres list \<Rightarrow> string \<Rightarrow> wev list \<Rightarrow> (string \<times> wev list) outcome option" where
  "send_file [] out w = Some (Go (out, w))"
| "send_file (Err e # rs) out w = None"
| "send_file (Got d # rs) out w =
     (if d = [] then Some (Go (out, w))
      else case writen d w of (nw, o1, w) \<Rightarrow>
        if nw \<noteq> int (length d) then Some Quit else send_file rs (out @ o1) w)"

text \<open>\<open>submit_file\<close> up to the answer, and its treatment of the answer: the job number, or the message of a
  rejection.\<close>

definition submit_send :: "string option \<Rightarrow> string \<Rightarrow> nat \<Rightarrow> bool \<Rightarrow> printreq \<Rightarrow> rres list \<Rightarrow> wev list \<Rightarrow> string outcome option" where
  "submit_send pw fname nbytes text junk rs w = do {
     req \<leftarrow> submit_header pw fname nbytes text junk;
     case writen (enc_req req) w of (nw, out, w) \<Rightarrow>
       if nw \<noteq> int sizeof_printreq then Some Quit
       else do {
         r \<leftarrow> send_file rs out w;
         Some (case r of Quit \<Rightarrow> Quit | Go (out, w) \<Rightarrow> Go out)
       }
   }"

datatype answer = ErrSys | Rejected string | JobID int

definition submit_recv :: "sev list \<Rightarrow> answer" where
  "submit_recv sock = (case readn sizeof_printresp sock of
       (Err e, _) \<Rightarrow> ErrSys
     | (Got b, _) \<Rightarrow>
        if length b \<noteq> sizeof_printresp then ErrSys
        else let res = dec_resp b in
          if retcode res \<noteq> 0 then Rejected (cstr (msg res)) else JobID (uint (ntohl (rjobid res))))"

definition submit_file :: "string option \<Rightarrow> string \<Rightarrow> nat \<Rightarrow> bool \<Rightarrow> printreq \<Rightarrow> rres list \<Rightarrow> wev list \<Rightarrow> sev list \<Rightarrow> (string \<times> answer) outcome option" where
  "submit_file pw fname nbytes text junk rs w sock = do {
     r \<leftarrow> submit_send pw fname nbytes text junk rs w;
     Some (case r of Quit \<Rightarrow> Quit | Go out \<Rightarrow> Go (out, submit_recv sock))
   }"

section \<open>The client thread of the server\<close>

text \<open>A path name \<open>sprintf(name, "%s/%s/%d", SPOOLDIR, dir, jobid)\<close> in a buffer of 64 bytes.\<close>

definition spool_path :: "string \<Rightarrow> int \<Rightarrow> string" where
  "spool_path dir jid = SPOOLDIR @ ''/'' @ dir @ ''/'' @ decs jid"

text \<open>System calls on the spool directory: \<open>creat\<close>, \<open>write\<close> at the end of a file, \<open>unlink\<close>.\<close>

definition next_io :: "printd \<Rightarrow> iores \<times> printd" where
  "next_io st = (case io st of [] \<Rightarrow> (Fine, st) | x # xs \<Rightarrow> (x, st\<lparr>io := xs\<rparr>))"

definition creat :: "string \<Rightarrow> printd \<Rightarrow> int option \<times> printd" where
  "creat nm st = (case next_io st of
       (Fail e, st) \<Rightarrow> (Some e, st)
     | (_, st) \<Rightarrow> (None, st\<lparr>files := (files st)(nm \<mapsto> [])\<rparr>))"

definition append_file :: "string \<Rightarrow> string \<Rightarrow> printd \<Rightarrow> printd" where
  "append_file nm d st = st\<lparr>files := (files st)(nm := map_option (\<lambda>b. b @ d) (files st nm))\<rparr>"

definition fwrite :: "string \<Rightarrow> string \<Rightarrow> printd \<Rightarrow> (nat + int) \<times> printd" where
  "fwrite nm d st = (case next_io st of
       (Fine, st) \<Rightarrow> (Inl (length d), append_file nm d st)
     | (Short k, st) \<Rightarrow> (Inl (min k (length d)), append_file nm (take k d) st)
     | (Fail e, st) \<Rightarrow> (Inr e, st))"

definition unlink :: "string \<Rightarrow> printd \<Rightarrow> printd" where
  "unlink nm st = st\<lparr>files := (files st)(nm := None)\<rparr>"

text \<open>The response after an error. The error number is converted to network order before it is given to
  \<open>strerror\<close>.\<close>

definition error_resp :: "(int \<Rightarrow> string) \<Rightarrow> int \<Rightarrow> string \<Rightarrow> string option" where
  "error_resp strerror e junk = do {
     let rc = htonl (word_of_int e);
     m \<leftarrow> strncpy junk (strerror (sint rc)) MSGLEN_MAX;
     Some (enc_resp \<lparr>retcode = rc, rjobid = 0, msg = m\<rparr>)
   }"

text \<open>The loop that stores the data. \<open>buf\<close> is the buffer with its old content, which the test for
  PostScript may read. A time-out ends the loop like the end of the stream. The result: the error of a failed
  write if any, the flags, the rest of the stream.\<close>

fun sock_size :: "sev list \<Rightarrow> nat" where
  "sock_size [] = 0"
| "sock_size (Data d # s) = Suc (length d) + sock_size s"
| "sock_size (_ # s) = Suc (sock_size s)"

lemma tread_smaller:
  assumes "tread n s = (Got d, s')" "d \<noteq> []"
  shows "sock_size s' < sock_size s"
proof -
  have "sock_size s' < sock_size s" if "sock_read n s = (Got d, s')" for s
    using that by (induction n s rule: sock_read.induct) (use assms(2) in \<open>auto split: if_splits\<close>)
  then show ?thesis using assms by (auto simp: tread_def split: list.splits sev.splits)
qed

function store_data :: "string \<Rightarrow> bool \<Rightarrow> string \<Rightarrow> 32 word \<Rightarrow> sev list \<Rightarrow> printd \<Rightarrow> int option \<times> 32 word \<times> sev list \<times> printd" where
  "store_data nm first buf fl sock st =
     (case tread IOBUFSZ sock of
        (Err e, sock) \<Rightarrow> (None, fl, sock, st)
      | (Got d, sock') \<Rightarrow>
         if d = [] then (None, fl, sock', st)
         else let buf = overwrite buf 0 d;
                  fl = (if first \<and> take 4 buf \<noteq> ''%!PS'' then fl OR PR_TEXT else fl)
              in case fwrite nm d st of
                   (Inr e, st) \<Rightarrow> (Some e, fl, sock', st)
                 | (Inl nw, st) \<Rightarrow> if nw \<noteq> length d then (Some EIO, fl, sock', st) else store_data nm False buf fl sock' st)"
  by pat_completeness auto
termination
  by (relation "measure (\<lambda>(nm, first, buf, fl, sock, st). sock_size sock)") (auto intro: tread_smaller [OF sym])

declare store_data.simps [simp del]

text \<open>\<open>client_thread\<close> between \<open>add_worker\<close> and the clean-up handler: the exit status, the bytes sent to the client, the
  state. \<open>jp\<close> is the address that \<open>malloc\<close> returns for the job, \<open>buf\<close> and \<open>mjunk\<close> are the old contents of the two
  buffers.\<close>

definition client_body :: "(int \<Rightarrow> string) \<Rightarrow> nat \<Rightarrow> string \<Rightarrow> string \<Rightarrow> sev list \<Rightarrow> printd \<Rightarrow> (int \<times> string \<times> printd) option" where
  "client_body strerror jp buf mjunk sock st =
     (case treadn sizeof_printreq sock of
        (Err e, _) \<Rightarrow> do { r \<leftarrow> error_resp strerror e mjunk; Some (1, r, st) }
      | (Got b, sock) \<Rightarrow>
        if length b \<noteq> sizeof_printreq then do { r \<leftarrow> error_resp strerror EIO mjunk; Some (1, r, st) }
        else do {
          let req = dec_req b;
          let req = req\<lparr>rsize := ntohl (rsize req), flags := ntohl (flags req)\<rparr>;
          (jid, st) \<leftarrow> get_newjobno st;
          let data = spool_path DATADIR jid;
          let reqs = spool_path REQDIR jid;
          case creat data st of
            (Some e, st) \<Rightarrow> do { r \<leftarrow> error_resp strerror e mjunk; Some (1, r, st) }
          | (None, st) \<Rightarrow>
            case store_data data True buf (flags req) sock st of
              (Some e, fl, sock, st) \<Rightarrow> do { r \<leftarrow> error_resp strerror e mjunk; Some (1, r, unlink data st) }
            | (None, fl, sock, st) \<Rightarrow> do {
                let req = req\<lparr>flags := fl\<rparr>;
                case creat reqs st of
                  (Some e, st) \<Rightarrow> do { r \<leftarrow> error_resp strerror e mjunk; Some (1, r, unlink data st) }
                | (None, st) \<Rightarrow>
                  case fwrite reqs (enc_req req) st of
                    (Inr e, st) \<Rightarrow> do { r \<leftarrow> error_resp strerror e mjunk; Some (1, r, unlink data (unlink reqs st)) }
                  | (Inl nw, st) \<Rightarrow>
                    if nw \<noteq> sizeof_printreq then do { r \<leftarrow> error_resp strerror EIO mjunk; Some (1, r, unlink data (unlink reqs st)) }
                    else do {
                      m \<leftarrow> strcpy mjunk (''request ID '' @ decs jid);
                      let r = enc_resp \<lparr>retcode = 0, rjobid = htonl (word_of_int jid), msg = m\<rparr>;
                      st \<leftarrow> add_job jp req jid st;
                      Some (0, r, st)
                    }
              }
        })"

definition client_thread :: "(int \<Rightarrow> string) \<Rightarrow> nat \<Rightarrow> nat \<Rightarrow> int \<Rightarrow> nat \<Rightarrow> string \<Rightarrow> string \<Rightarrow> sev list \<Rightarrow> printd \<Rightarrow> (int \<times> string \<times> printd) option" where
  "client_thread strerror wtp t fd jp buf mjunk sock st = do {
     (ok, st) \<leftarrow> add_worker wtp t fd st;
     (code, sent, st) \<leftarrow> (if ok then client_body strerror jp buf mjunk sock st else Some (1, [], st));
     st \<leftarrow> client_cleanup t st;
     Some (code, sent, st)
   }"

section \<open>The start of the server\<close>

text \<open>\<open>build_qonstart\<close> on the names that \<open>readdir\<close> delivers; \<open>jps\<close> are the addresses that \<open>malloc\<close> returns. The path
  must fit into its buffer of 64 bytes.\<close>

fun build_qonstart :: "string list \<Rightarrow> nat list \<Rightarrow> printd \<Rightarrow> printd option" where
  "build_qonstart [] jps st = Some st"
| "build_qonstart (nm # nms) jps st =
     (if nm = ''.'' \<or> nm = ''..'' then build_qonstart nms jps st
      else let fname = SPOOLDIR @ ''/'' @ REQDIR @ ''/'' @ nm in
        if length fname \<ge> FILENMSZ then None
        else case files st fname of
          None \<Rightarrow> build_qonstart nms jps st
        | Some b \<Rightarrow>
            if length b < sizeof_printreq
            then build_qonstart nms jps (unlink (SPOOLDIR @ ''/'' @ DATADIR @ ''/'' @ nm) (unlink fname st))
            else (case jps of [] \<Rightarrow> None
                  | jp # jps \<Rightarrow> do {
                      st \<leftarrow> add_job jp (dec_req (take sizeof_printreq b)) (int32 (atol nm)) st;
                      build_qonstart nms jps st
                    }))"

section \<open>The configuration file\<close>

definition MAXCFGLINE :: nat where "MAXCFGLINE = 512"
definition MAXKWLEN :: nat where "MAXKWLEN = 16"

text \<open>\<open>fgets\<close> with a buffer of \<open>n\<close> bytes: a line with its newline, at most \<open>n - 1\<close> characters; the rest of the file.\<close>

definition fgets :: "nat \<Rightarrow> string \<Rightarrow> string \<times> string" where
  "fgets n s = (let l = take (n - 1) (takeWhile (\<lambda>c. c \<noteq> NEWLINE) s);
      l = (if length l < n - 1 \<and> length l < length s then l @ [NEWLINE] else l)
    in (l, drop (length l) s))"

text \<open>A conversion \<open>%<n>s\<close> of \<open>sscanf\<close>: the word and the rest of the input.\<close>

definition scan_word :: "nat \<Rightarrow> string \<Rightarrow> string \<times> string" where
  "scan_word n s = (let s = dropWhile isspace s; w = take n (takeWhile (\<lambda>c. \<not> isspace c) s) in (w, drop (length w) s))"

lemma fgets_shorter: "fgets (Suc (Suc n)) s = (l, r) \<Longrightarrow> s \<noteq> [] \<Longrightarrow> length r < length s"
  by (cases s) (auto simp: fgets_def Let_def split: if_splits)

function scan_lines :: "string \<Rightarrow> string \<Rightarrow> string option" where
  "scan_lines keyword file =
     (if file = [] then None
      else case fgets MAXCFGLINE file of (line, rest) \<Rightarrow>
        case scan_word (MAXKWLEN - 1) (cstr line) of (keybuf, r) \<Rightarrow>
        case scan_word (MAXCFGLINE - 1) r of (valbuf, _) \<Rightarrow>
          if keybuf \<noteq> [] \<and> valbuf \<noteq> [] \<and> keyword = keybuf then Some valbuf else scan_lines keyword rest)"
  by pat_completeness auto
termination
  by (relation "measure (\<lambda>(k, f). length f)")
    (auto simp: MAXCFGLINE_def intro: fgets_shorter [of 510, simplified, OF sym])

declare scan_lines.simps [simp del]

text \<open>\<open>scan_configfile\<close>: \<open>conf\<close> is the content of the configuration file, if it can be opened; the result is a value or
  \<open>NULL\<close>.\<close>

definition scan_configfile :: "string option \<Rightarrow> string \<Rightarrow> string option option" where
  "scan_configfile conf keyword = map_option (scan_lines keyword) conf"

definition get_printserver :: "string option \<Rightarrow> string option option" where
  "get_printserver conf = scan_configfile conf ''printserver''"

text \<open>\<open>get_printaddr\<close> with the resolver \<open>getaddrinfo\<close> as a parameter: the canonical name (or none) in the first entry of the
  address list, or an error. \<open>init_printer\<close> ends the process when there is no address.\<close>

definition get_printaddr :: "(string \<Rightarrow> string \<Rightarrow> string option option) \<Rightarrow> string option \<Rightarrow> string option option option" where
  "get_printaddr getaddrlist conf = do {
     p \<leftarrow> scan_configfile conf ''printer'';
     Some (case p of None \<Rightarrow> None | Some p \<Rightarrow> getaddrlist p ''ipp'')
   }"

definition init_printer :: "(string \<Rightarrow> string \<Rightarrow> string option option) \<Rightarrow> string option \<Rightarrow> printd \<Rightarrow> printd option" where
  "init_printer getaddrlist conf st = do {
     a \<leftarrow> get_printaddr getaddrlist conf;
     canon \<leftarrow> a;
     Some (st\<lparr>printer := Some (case canon of None \<Rightarrow> ''printer'' | Some n \<Rightarrow> n)\<rparr>)
   }"

section \<open>Round trips of the structs\<close>

definition req_ok :: "printreq \<Rightarrow> bool" where
  "req_ok r \<longleftrightarrow> length (usernm r) = USERNM_MAX \<and> length (jobnm r) = JOBNM_MAX"

lemma length_enc_req [simp]: "req_ok r \<Longrightarrow> length (enc_req r) = sizeof_printreq"
  by (simp add: enc_req_def req_ok_def sizeof_printreq_def)

lemma dec_enc_req [simp]: "req_ok r \<Longrightarrow> dec_req (enc_req r) = r"
  by (cases r) (simp add: enc_req_def dec_req_def req_ok_def print_consts)

lemma dec_enc_resp [simp]: "dec_resp (enc_resp r) = r"
  by (cases r) (simp add: enc_resp_def dec_resp_def)

lemma submit_header_ok:
  assumes "req_ok junk"
  shows "\<exists>r. submit_header pw fname nbytes text junk = Some r \<and> req_ok r \<and> rsize r = htonl (of_nat nbytes) \<and> flags r = (if text then htonl PR_TEXT else 0)"
proof -
  have u: "\<exists>u. (case pw of None \<Rightarrow> strcpy (usernm junk) ''unknown''
      | Some nm \<Rightarrow> do { u \<leftarrow> strncpy (usernm junk) nm (USERNM_MAX - 1); wr u (USERNM_MAX - 1) NUL }) = Some u \<and> length u = USERNM_MAX"
    using assms by (cases pw) (auto simp: strcpy_def strncpy_def req_ok_def print_consts)
  have j: "\<exists>j. (if length fname \<ge> JOBNM_MAX then strcpy (jobnm junk) (''... '' @ take (JOBNM_MAX - 5) (drop (length fname - JOBNM_MAX + 5) fname))
      else strcpy (jobnm junk) fname) = Some j \<and> length j = JOBNM_MAX"
    using assms by (auto simp: strcpy_def req_ok_def print_consts)
  from u j show ?thesis by (auto simp: submit_header_def req_ok_def)
qed

section \<open>Sending and storing\<close>

lemma writen_all: "writen d w = (int (length d), out, w') \<Longrightarrow> out = d"
proof -
  assume "writen d w = (int (length d), out, w')"
  then obtain k where "out = [] @ take k d" "int (length d) = int (length d) - int (length d) + int k \<or> int (length d) = -1 \<and> k = 0"
    using writen_loop_prefix [of d "length d" "[]" w] by (auto simp: writen_def)
  then show ?thesis by auto
qed

fun file_bytes :: "rres list \<Rightarrow> string" where
  "file_bytes (Got d # rs) = (if d = [] then [] else d @ file_bytes rs)"
| "file_bytes rs = []"

lemma send_file_bytes: "send_file rs out w = Some (Go (out', w')) \<Longrightarrow> out' = out @ file_bytes rs"
proof (induction rs out w rule: send_file.induct)
  case (3 d rs out w)
  show ?case
  proof (cases "d = []")
    case False
    obtain nw o1 w1 where wn: "writen d w = (nw, o1, w1)" by (metis prod_cases3)
    then have "nw = int (length d)" "send_file rs (out @ o1) w1 = Some (Go (out', w'))" using 3(2) False by (auto split: if_splits)
    then show ?thesis using 3(1) [OF False wn [symmetric] refl] writen_all [of d w o1 w1] wn False by auto
  qed (use 3 in simp)
qed auto

lemma submit_send_bytes:
  assumes "submit_send pw fname nbytes text junk rs w = Some (Go out)" "req_ok junk"
  shows "\<exists>r. submit_header pw fname nbytes text junk = Some r \<and> req_ok r \<and> out = enc_req r @ file_bytes rs"
proof -
  obtain r where r: "submit_header pw fname nbytes text junk = Some r" "req_ok r" using submit_header_ok [OF assms(2)] by blast
  obtain nw o1 w1 where wn: "writen (enc_req r) w = (nw, o1, w1)" by (metis prod_cases3)
  have nw: "nw = int (length (enc_req r))" using assms(1) r wn by (auto simp: submit_send_def split: if_splits)
  then obtain x where x: "send_file rs o1 w1 = Some x" "(case x of Quit \<Rightarrow> Quit | Go (out, w) \<Rightarrow> Go out) = Go out"
    using assms(1) r wn by (auto simp: submit_send_def Option.bind_eq_Some_conv)
  then obtain w2 where "x = Go (out, w2)" by (cases x) auto
  then have "out = o1 @ file_bytes rs" using send_file_bytes [of rs o1 w1 out w2] x(1) by simp
  then show ?thesis using r writen_all [of "enc_req r" w o1 w1] wn nw by auto
qed

lemma fwrite_fine: "io st = [] \<Longrightarrow> fwrite nm d st = (Inl (length d), append_file nm d st)"
  by (simp add: fwrite_def next_io_def)

lemma creat_fine: "io st = [] \<Longrightarrow> creat nm st = (None, st\<lparr>files := (files st)(nm \<mapsto> [])\<rparr>)"
  by (simp add: creat_def next_io_def)

lemma append_file_eq: "files st nm = Some b \<Longrightarrow> append_file nm d st = st\<lparr>files := (files st)(nm \<mapsto> b @ d)\<rparr>"
  by (simp add: append_file_def)

text \<open>The flag that the first piece of data decides.\<close>

definition text_flag :: "string \<Rightarrow> 32 word \<Rightarrow> sev list \<Rightarrow> 32 word" where
  "text_flag buf fl s = (case s of Data d # _ \<Rightarrow>
     if take 4 (overwrite buf 0 (take IOBUFSZ d)) \<noteq> ''%!PS'' then fl OR PR_TEXT else fl | _ \<Rightarrow> fl)"

lemma store_data_spec:
  "proper s \<Longrightarrow> io st = [] \<Longrightarrow> files st nm = Some b \<Longrightarrow>
   \<exists>s'. store_data nm first buf fl s st =
     (None, if first then text_flag buf fl s else fl, s', st\<lparr>files := (files st)(nm \<mapsto> b @ data_of s)\<rparr>)"
proof (induction "sock_size s" arbitrary: s st b first buf fl rule: less_induct)
  case less
  show ?case
  proof (cases s rule: data_of.cases)
    case (1 d t)
    let ?d = "take IOBUFSZ d"
    let ?t = "if length d \<le> IOBUFSZ then t else Data (drop IOBUFSZ d) # t"
    let ?fl = "if first \<and> take 4 (overwrite buf 0 ?d) \<noteq> ''%!PS'' then fl OR PR_TEXT else fl"
    let ?st = "st\<lparr>files := (files st)(nm \<mapsto> b @ ?d)\<rparr>"
    have d: "d \<noteq> []" "proper t" using less.prems(1) 1 by auto
    then have ne: "?d \<noteq> []" by (cases d) (auto simp: IOBUFSZ_def)
    have rd: "tread IOBUFSZ s = (Got ?d, ?t)" using 1 by (simp add: timed.rdf_data)
    have "store_data nm first buf fl s st = store_data nm False (overwrite buf 0 ?d) ?fl ?t ?st"
      using less.prems ne by (subst store_data.simps) (simp add: rd fwrite_fine append_file_eq Let_def)
    moreover have "\<exists>s'. store_data nm False (overwrite buf 0 ?d) ?fl ?t ?st =
        (None, ?fl, s', ?st\<lparr>files := (files ?st)(nm \<mapsto> (b @ ?d) @ data_of ?t)\<rparr>)"
      using less.hyps [OF tread_smaller [OF rd ne], of ?st "b @ ?d" False "overwrite buf 0 ?d" ?fl] d less.prems
      by (auto simp: not_le)
    moreover have "?d @ data_of ?t = data_of s" using 1 by simp
    ultimately show ?thesis using 1 by (auto simp: text_flag_def)
  qed (use less.prems in \<open>subst store_data.simps, auto simp: tread_def text_flag_def map_upd_triv\<close>)+
qed

end
