(* ===== verification/Printer_Submit.thy ===== *)
theory Printer_Submit
  imports Printer_Client
begin

unbundle bit_operations_syntax

text \<open>
  The path of a print job from the client program through the server's client thread into the queue, and back
  into the queue after a restart of the server.
\<close>

section \<open>The client thread without faults\<close>

lemma add_job_spec:
  assumes "job_rep st ps" "jobs st p = None" "p \<noteq> 0"
  shows "\<exists>st'. add_job p r jid st = Some st' \<and> job_rep st' (ps @ [p]) \<and> job_at st' = (job_at st)(p \<mapsto> (jid, r)) \<and>
    files st' = files st \<and> nextjob st' = nextjob st \<and> io st' = io st \<and> wthreads st' = wthreads st \<and> workers st' = workers st \<and> workerlock st' = workerlock st \<and> closed st' = closed st"
proof -
  have n: "job_at st p = None" using assms(2) by (simp add: job_at_def)
  obtain st1 where st1: "add_job_link p r jid st = Some st1" "job_rep st1 (ps @ [p])" "job_at st1 = (job_at st)(p \<mapsto> (jid, r))"
    using add_job_link_spec [OF assms(1) n assms(3), of r jid] by blast
  have "files st1 = files st \<and> nextjob st1 = nextjob st \<and> io st1 = io st \<and> wthreads st1 = wthreads st \<and> workers st1 = workers st \<and> workerlock st1 = workerlock st \<and> closed st1 = closed st"
    using st1(1) by (auto simp: add_job_link_def lock_job_def unlock_job_def Option.bind_eq_Some_conv Let_def split: if_splits)
  then show ?thesis using st1 by (simp add: add_job_def cond_signal_def)
qed

lemma spool_path_ne: "spool_path DATADIR i \<noteq> spool_path REQDIR j"
  by (simp add: spool_path_def DATADIR_def REQDIR_def)

text \<open>A header and data that arrive without a fault are stored, queued and confirmed.\<close>

lemma client_body_spec:
  assumes net: "proper sock" "data_of sock = enc_req r @ contents" "req_ok r"
    and srv: "job_rep st ps" "io st = []" "0 < nextjob st" "nextjob st < 2 ^ 31 - 1"
    and mem: "jp \<noteq> 0" "jobs st jp = None" "length mjunk = MSGLEN_MAX"
  shows "\<exists>st' m. client_body strerror jp buf mjunk sock st =
      Some (0, enc_resp \<lparr>retcode = 0, rjobid = htonl (word_of_int (nextjob st)), msg = m\<rparr>, st') \<and> length m = MSGLEN_MAX \<and>
    job_rep st' (ps @ [jp]) \<and>
    job_at st' jp = Some (nextjob st, r\<lparr>rsize := ntohl (rsize r), flags := text_flag buf (ntohl (flags r)) (snd (treadn sizeof_printreq sock))\<rparr>) \<and>
    files st' (spool_path DATADIR (nextjob st)) = Some contents \<and>
    files st' (spool_path REQDIR (nextjob st)) = Some (enc_req (r\<lparr>rsize := ntohl (rsize r), flags := text_flag buf (ntohl (flags r)) (snd (treadn sizeof_printreq sock))\<rparr>)) \<and>
    nextjob st' = nextjob st + 1 \<and>
    wthreads st' = wthreads st \<and> workers st' = workers st \<and> workerlock st' = workerlock st \<and> closed st' = closed st"
proof -
  define jid where "jid = nextjob st"
  define data reqs where "data = spool_path DATADIR jid" and "reqs = spool_path REQDIR jid"
  have ne: "data \<noteq> reqs" using spool_path_ne by (simp add: data_def reqs_def)
  have len: "length (enc_req r) = sizeof_printreq" using net(3) by simp
  have "\<exists>s'. readn_loop tread sizeof_printreq sizeof_printreq [] sock = (Got ([] @ take sizeof_printreq (data_of sock)), s') \<and> proper s' \<and>
      data_of s' = drop sizeof_printreq (data_of sock) \<and> after_data s' = after_data sock"
    by (rule timed.loop_data [OF net(1)]) (simp add: net(2) len)
  then obtain s' where s': "treadn sizeof_printreq sock = (Got (enc_req r), s')" "proper s'" "data_of s' = contents"
    by (auto simp: treadn_def net(2) len)
  define fl where "fl = text_flag buf (ntohl (flags r)) s'"
  define q where "q = r\<lparr>rsize := ntohl (rsize r), flags := fl\<rparr>"
  have q: "req_ok q" using net(3) by (simp add: q_def req_ok_def)
  define st1 where "st1 = st\<lparr>nextjob := nextjob st + 1\<rparr>"
  have g: "get_newjobno st = Some (jid, st1)"
    using get_newjobno_eq [of st] srv by (simp add: st1_def jid_def job_rep_def)
  define st2 where "st2 = st1\<lparr>files := (files st)(data \<mapsto> contents)\<rparr>"
  obtain s2 where sd: "store_data data True buf (ntohl (flags r)) s' (st1\<lparr>files := (files st1)(data \<mapsto> [])\<rparr>) = (None, fl, s2, st2)"
    using store_data_spec [of s' "st1\<lparr>files := (files st1)(data \<mapsto> [])\<rparr>" data "[]" True buf "ntohl (flags r)"] s' srv
    by (auto simp: st1_def st2_def fl_def)
  define st3 where "st3 = st2\<lparr>files := (files st2)(reqs \<mapsto> enc_req q)\<rparr>"
  have w: "fwrite reqs (enc_req q) (st2\<lparr>files := (files st2)(reqs \<mapsto> [])\<rparr>) = (Inl sizeof_printreq, st3)"
    using fwrite_fine [of "st2\<lparr>files := (files st2)(reqs \<mapsto> [])\<rparr>" reqs "enc_req q"] q srv
    by (simp add: append_file_def st3_def st2_def st1_def)
  have r3: "job_rep st3 ps" "jobs st3 jp = None" "job_at st3 = job_at st" using srv mem by (auto simp: st3_def st2_def st1_def job_rep_def job_at_def)
  obtain st4 where st4: "add_job jp q jid st3 = Some st4" "job_rep st4 (ps @ [jp])" "job_at st4 = (job_at st3)(jp \<mapsto> (jid, q))"
      "files st4 = files st3" "nextjob st4 = nextjob st3" "wthreads st4 = wthreads st3" "workers st4 = workers st3" "workerlock st4 = workerlock st3" "closed st4 = closed st3"
    using add_job_spec [OF r3(1,2) mem(1), of q jid] by blast
  have "length (decs jid) \<le> 10" using length_dec [of "nat jid" 10] srv by (simp add: jid_def decs_def)
  then obtain m where m: "strcpy mjunk (''request ID '' @ decs jid) = Some m" "length m = MSGLEN_MAX"
    using mem(3) by (auto simp: strcpy_def print_consts)
  have c1: "creat data st1 = (None, st1\<lparr>files := (files st1)(data \<mapsto> [])\<rparr>)" using creat_fine [of st1 data] srv by (simp add: st1_def)
  have c2: "creat reqs st2 = (None, st2\<lparr>files := (files st2)(reqs \<mapsto> [])\<rparr>)" using creat_fine [of st2 reqs] srv by (simp add: st2_def st1_def)
  have dq: "(dec_req (enc_req r))\<lparr>rsize := ntohl (rsize (dec_req (enc_req r))), flags := ntohl (flags (dec_req (enc_req r)))\<rparr>\<lparr>flags := fl\<rparr> = q"
    using net(3) by (simp add: q_def)
  have "client_body strerror jp buf mjunk sock st = Some (0, enc_resp \<lparr>retcode = 0, rjobid = htonl (word_of_int jid), msg = m\<rparr>, st4)"
    using s'(1) g c1 sd c2 w st4(1) m(1) len net(3) dq by (simp add: client_body_def flip: data_def reqs_def)
  then show ?thesis using st4 m(2) r3(3) ne s'(1)
    by (auto simp: jid_def st3_def st2_def st1_def q_def fl_def data_def reqs_def)
qed

section \<open>Properties\<close>

text \<open>C10: when the client program has sent its request and the file, in whatever pieces the bytes arrive at
  the server, and no other client is being served, the server's thread stores exactly the file's content and the request (in host byte order, with
  the final flags) under the next number in the spool directories, takes the number, appends one job with the next number, the
  user and job name and the size of the request to the queue, closes the connection, and the answer
  makes the client print that job number. The job is plain text if the client asked for it or the data do not begin
  as PostScript does, provided that the first piece of data has at least four bytes.\<close>

theorem print_submission:
  assumes client: "submit_send pw fname nbytes text junk rs w = Some (Go out)" "req_ok junk"
    and net: "proper sock" "data_of sock = out"
    and srv: "job_rep st ps" "workers st = 0" "\<not> workerlock st" "io st = []" "0 < nextjob st" "nextjob st < 2 ^ 31 - 1"
    and mem: "wtp \<noteq> 0" "jp \<noteq> 0" "jobs st jp = None" "length mjunk = MSGLEN_MAX"
  shows "\<exists>req fl resp st'. submit_header pw fname nbytes text junk = Some req \<and>
    client_thread strerror wtp t fd jp buf mjunk sock st = Some (0, resp, st') \<and>
    job_rep st' (ps @ [jp]) \<and> job_at st' jp = Some (nextjob st, req\<lparr>rsize := of_nat nbytes, flags := fl\<rparr>) \<and>
    files st' (spool_path DATADIR (nextjob st)) = Some (file_bytes rs) \<and>
    files st' (spool_path REQDIR (nextjob st)) = Some (enc_req (req\<lparr>rsize := of_nat nbytes, flags := fl\<rparr>)) \<and> nextjob st' = nextjob st + 1 \<and> workers st' = 0 \<and> closed st' = closed st @ [fd] \<and>
    (text \<longrightarrow> fl = PR_TEXT) \<and> (fl = PR_TEXT \<or> fl = 0) \<and>
    (\<forall>d s. snd (treadn sizeof_printreq sock) = Data d # s \<and> 4 \<le> length d \<longrightarrow>
       fl = PR_TEXT \<longleftrightarrow> text \<or> take 4 d \<noteq> ''%!PS'') \<and>
    (\<forall>rsock. proper rsock \<and> data_of rsock = resp \<longrightarrow> submit_recv rsock = JobID (nextjob st))"
proof -
  obtain r where r: "submit_header pw fname nbytes text junk = Some r" "req_ok r" "out = enc_req r @ file_bytes rs"
      "rsize r = htonl (of_nat nbytes)" "flags r = (if text then htonl PR_TEXT else 0)"
    using submit_send_bytes [OF client] submit_header_ok [OF client(2), of pw fname nbytes "text"] by auto
  define st1 where "st1 = st\<lparr>wthreads := (wthreads st)(wtp \<mapsto> \<lparr>wnext = 0, wprev = 0, tid = t, sockfd = fd\<rparr>), workers := wtp\<rparr>"
  have aw: "add_worker wtp t fd st = Some (True, st1)"
    using srv mem by (simp add: add_worker_def lock_worker_def unlock_worker_def st1_def)
  have s1: "job_rep st1 ps" "io st1 = []" "nextjob st1 = nextjob st" "jobs st1 jp = None" "\<not> workerlock st1"
    using srv mem by (auto simp: st1_def job_rep_def)
  define fl where "fl = text_flag buf (ntohl (flags r)) (snd (treadn sizeof_printreq sock))"
  obtain st2 m where b: "client_body strerror jp buf mjunk sock st1 =
        Some (0, enc_resp \<lparr>retcode = 0, rjobid = htonl (word_of_int (nextjob st)), msg = m\<rparr>, st2)" "length m = MSGLEN_MAX"
      "job_rep st2 (ps @ [jp])" "job_at st2 jp = Some (nextjob st, r\<lparr>rsize := of_nat nbytes, flags := fl\<rparr>)"
      "files st2 (spool_path DATADIR (nextjob st)) = Some (file_bytes rs)"
      "files st2 (spool_path REQDIR (nextjob st)) = Some (enc_req (r\<lparr>rsize := of_nat nbytes, flags := fl\<rparr>))" "nextjob st2 = nextjob st + 1"
      "wthreads st2 = wthreads st1" "workers st2 = workers st1" "workerlock st2 = workerlock st1" "closed st2 = closed st1"
    using client_body_spec [OF net(1) _ r(2) s1(1,2) _ _ mem(2) s1(4) mem(4), of "file_bytes rs" strerror buf]
      net(2) r(3,4) s1(3) srv(5,6) unfolding fl_def by auto
  define st3 where "st3 = st2\<lparr>closed := closed st @ [fd], wthreads := (wthreads st2)(wtp := None), workers := 0\<rparr>"
  have cl: "client_cleanup t st2 = Some st3"
    using b(8-11) mem srv by (simp add: client_cleanup_def lock_worker_def unlock_worker_def find_worker.simps st1_def st3_def)
  let ?resp = "enc_resp \<lparr>retcode = 0, rjobid = htonl (word_of_int (nextjob st)), msg = m\<rparr>"
  have th: "client_thread strerror wtp t fd jp buf mjunk sock st = Some (0, ?resp, st3)"
    using aw b(1) cl by (simp add: client_thread_def)
  have nf: "ntohl (flags r) = (if text then PR_TEXT else 0)" using r(5) ntohl_htonl(1) [of 0] by simp
  have fl: "fl = (case snd (treadn sizeof_printreq sock) of Data d # _ \<Rightarrow>
      if text \<or> take 4 (overwrite buf 0 (take IOBUFSZ d)) \<noteq> ''%!PS'' then PR_TEXT else 0 | _ \<Rightarrow> if text then PR_TEXT else 0)"
    unfolding fl_def text_flag_def nf by (auto simp: PR_TEXT_def split: list.splits sev.splits)
  have big: "take 4 (overwrite buf 0 (take IOBUFSZ d)) = take 4 d" if "4 \<le> length d" for d
    using that by (auto simp: overwrite_def IOBUFSZ_def min_def)
  have "submit_recv rsock = JobID (nextjob st)" if ans: "proper rsock \<and> data_of rsock = ?resp" for rsock
  proof -
    have len: "length ?resp = sizeof_printresp" using b(2) by (simp add: enc_resp_def sizeof_printresp_def)
    obtain s' where "readn sizeof_printresp rsock = (Got ?resp, s')"
      using sock.loop_data [of rsock sizeof_printresp sizeof_printresp "[]"] ans len by (auto simp: readn_def)
    moreover have "uint (word_of_int (nextjob st) :: 32 word) = nextjob st" using srv(5,6) by (simp add: uint_word_of_int)
    ultimately show ?thesis using len by (simp add: submit_recv_def)
  qed
  moreover have "job_rep st3 (ps @ [jp])" "job_at st3 jp = job_at st2 jp" "files st3 = files st2" "nextjob st3 = nextjob st2" "workers st3 = 0" "closed st3 = closed st @ [fd]"
    using b(3) by (auto simp: st3_def job_rep_def job_at_def)
  ultimately show ?thesis using r(1) th b(4-7) fl big
    by (intro exI [of _ r] exI [of _ fl] exI [of _ ?resp] exI [of _ st3]) (auto split: list.splits sev.splits simp: PR_TEXT_def)
qed

lemma writen_plain: "writen d [] = (int (length d), d, [])"
  by (cases "d = []") (simp_all add: writen_def writen_loop.simps)

definition blank_req :: printreq where
  "blank_req = \<lparr>rsize = 0, flags = 0, usernm = replicate 64 NUL, jobnm = replicate 256 NUL\<rparr>"

lemma blank_req_ok: "req_ok blank_req"
  by (simp add: blank_req_def req_ok_def print_consts)

lemma submit_send_plain: "d \<noteq> [] \<Longrightarrow> \<exists>out. submit_send pw fname n t blank_req [Got d] [] = Some (Go out)"
  using submit_header_ok [OF blank_req_ok, of pw fname n t] by (auto simp: submit_send_def writen_plain)

theorem print_submission_witness:
  "\<exists>out resp st'. submit_send None ''a.ps'' 5 False blank_req [Got ''%!PS5''] [] = Some (Go out) \<and>
     client_thread (\<lambda>e. []) 10 1 4 20 [] (replicate 512 NUL) [Data out, Timeout] (empty_server 1) = Some (0, resp, st') \<and>
     files st' ''/var/spool/printer/data/1'' = Some ''%!PS5''"
proof -
  obtain out where o: "submit_send None ''a.ps'' 5 False blank_req [Got ''%!PS5''] [] = Some (Go out)" using submit_send_plain [of "''%!PS5''" None "''a.ps''" 5 False] by auto
  then have "out \<noteq> []" using submit_send_bytes [OF _ blank_req_ok] by fastforce
  then have pr: "proper [Data out, Timeout]" "data_of [Data out, Timeout] = out" by auto
  have sv: "job_rep (empty_server 1) []" "workers (empty_server 1) = 0" "\<not> workerlock (empty_server 1)" "io (empty_server 1) = []"
    "0 < nextjob (empty_server 1)" "nextjob (empty_server 1) < 2 ^ 31 - 1" "jobs (empty_server 1) 20 = None"
    by (simp_all add: empty_server_def job_rep_def dlist_def)
  have "spool_path DATADIR 1 = ''/var/spool/printer/data/1''"
    by code_simp
  moreover have "nextjob (empty_server 1) = 1" by (simp add: empty_server_def)
  ultimately show ?thesis
    using print_submission [OF o blank_req_ok pr sv(1-6) _ _ sv(7), of 10 "replicate 512 NUL" "\<lambda>e. []" 1 4 "[]"] o by (fastforce simp: MSGLEN_MAX_def)
qed

text \<open>The client program puts terminated strings into the request, which the server relies on: the user's
  name cut to 63 characters, and the file name, or its last 251 characters behind dots if it has 256
  characters or more. The header fits its arrays in every case.\<close>

theorem submit_header_names:
  assumes "req_ok junk" "NUL \<notin> set fname" "\<forall>nm. pw = Some nm \<longrightarrow> NUL \<notin> set nm"
  shows "\<exists>r. submit_header pw fname nbytes text junk = Some r \<and> req_ok r \<and> NUL \<in> set (usernm r) \<and> NUL \<in> set (jobnm r) \<and>
    cstr (usernm r) = (case pw of None \<Rightarrow> ''unknown'' | Some nm \<Rightarrow> take 63 nm) \<and>
    cstr (jobnm r) = (if length fname < 256 then fname else ''... '' @ drop (length fname - 251) fname)"
proof -
  have cs: "cstr (s @ NUL # r) = s" if "NUL \<notin> set s" for s r using that by (simp add: cstr_def takeWhile_append)
  have u: "\<exists>u. (case pw of None \<Rightarrow> strcpy (usernm junk) ''unknown''
      | Some nm \<Rightarrow> do { u \<leftarrow> strncpy (usernm junk) nm (USERNM_MAX - 1); wr u (USERNM_MAX - 1) NUL }) = Some u \<and> length u = USERNM_MAX \<and>
      NUL \<in> set u \<and> cstr u = (case pw of None \<Rightarrow> ''unknown'' | Some nm \<Rightarrow> take 63 nm)"
  proof (cases pw)
    case None
    have "NUL \<notin> set ''unknown''" by (simp add: NUL_def)
    then show ?thesis using None assms(1) cs [of "''unknown''"] by (simp add: strcpy_def req_ok_def print_consts)
  next
    case (Some nm)
    let ?u = "(take 63 nm @ replicate (63 - length nm) NUL @ drop 63 (usernm junk))[63 := NUL]"
    have l: "length (usernm junk) = 64" using assms(1) by (simp add: req_ok_def print_consts)
    have ux: "?u = take 63 nm @ replicate (Suc (63 - length nm)) NUL"
      using l by (intro nth_equalityI) (auto simp: nth_append nth_list_update nth_Cons' simp del: replicate_Suc)
    then have "?u = take 63 nm @ NUL # replicate (63 - length nm) NUL" by simp
    moreover have "NUL \<notin> set (take 63 nm)" using assms(3) Some by (auto dest: in_set_takeD)
    ultimately have "cstr ?u = take 63 nm" "NUL \<in> set ?u" using cs [of "take 63 nm"] by auto
    then show ?thesis using Some l by (simp add: strncpy_def print_consts)
  qed
  let ?j = "if length fname < 256 then fname else ''... '' @ drop (length fname - 251) fname"
  have jl: "length ?j < 256" "NUL \<notin> set ?j" using assms(2) by (auto simp: NUL_def dest: in_set_dropD)
  have "drop (length fname - JOBNM_MAX + 5) fname = drop (length fname - 251) fname" if "256 \<le> length fname"
    using that by (simp add: JOBNM_MAX_def)
  then have j: "(if length fname \<ge> JOBNM_MAX then strcpy (jobnm junk) (''... '' @ take (JOBNM_MAX - 5) (drop (length fname - JOBNM_MAX + 5) fname))
      else strcpy (jobnm junk) fname) = Some (?j @ NUL # drop (length ?j + 1) (jobnm junk))"
    using assms(1) by (auto simp: strcpy_def req_ok_def print_consts)
  from u j show ?thesis using cs [OF jl(2)] assms(1) jl(1) by (auto simp: submit_header_def req_ok_def print_consts split: if_splits)
qed

theorem submit_header_names_witness:
  "\<exists>r. submit_header (Some ''ann'') ''notes.txt'' 3 True blank_req = Some r \<and> cstr (usernm r) = ''ann'' \<and> cstr (jobnm r) = ''notes.txt''"
proof -
  have "NUL \<notin> set ''notes.txt''" "\<forall>nm. Some ''ann'' = Some nm \<longrightarrow> NUL \<notin> set nm" by (simp_all add: NUL_def)
  from submit_header_names [OF blank_req_ok this, of 3 True] show ?thesis by auto
qed

section \<open>Recovery\<close>

lemma atol_decs: "0 \<le> j \<Longrightarrow> j < 2 ^ 31 \<Longrightarrow> int32 (atol (decs j)) = j"
  using atol_plain [of "nat j"] int32_id [of j] by (simp add: decs_def)

lemma decs_not_dot: "0 \<le> j \<Longrightarrow> decs j \<noteq> ''.'' \<and> decs j \<noteq> ''..''"
  using dec_isdigit [of "CHR ''.''" "nat j"] by (auto simp: decs_def isdigit_def)

lemma qonstart_step:
  assumes "0 \<le> j" "j < 2 ^ 31" "files st (spool_path REQDIR j) = Some (enc_req r)" "req_ok r"
  shows "build_qonstart (decs j # nms) (jp # jps) st = do { st \<leftarrow> add_job jp r j st; build_qonstart nms jps st }"
proof -
  have "length (decs j) \<le> 10" using length_dec [of "nat j" 10] assms by (simp add: decs_def)
  then have "length (SPOOLDIR @ ''/'' @ REQDIR @ ''/'' @ decs j) < FILENMSZ" by (simp add: SPOOLDIR_def REQDIR_def FILENMSZ_def)
  then show ?thesis using assms decs_not_dot [OF assms(1)] atol_decs [OF assms(1,2)] by (simp add: spool_path_def)
qed

text \<open>A server that starts again puts the jobs of the spool directory, as its client threads wrote them,
  back into the queue, with their numbers and requests, in the order of the directory.\<close>

theorem spool_recovery:
  assumes "job_rep st ps" "\<forall>(j, r) \<in> set js. 0 \<le> j \<and> j < 2 ^ 31 \<and> req_ok r \<and> files st (spool_path REQDIR j) = Some (enc_req r)"
    "distinct jps" "length jps = length js" "\<forall>p \<in> set jps. p \<noteq> 0 \<and> jobs st p = None"
  shows "\<exists>st'. build_qonstart (map (\<lambda>(j, r). decs j) js) jps st = Some st' \<and> job_rep st' (ps @ jps) \<and>
    map (job_at st') jps = map Some js \<and> (\<forall>p. p \<notin> set jps \<longrightarrow> job_at st' p = job_at st p)"
  using assms
proof (induction js arbitrary: st ps jps)
  case (Cons x js)
  obtain j r where x: "x = (j, r)" by (cases x)
  obtain p qs where jps: "jps = p # qs" using Cons.prems(4) by (cases jps) auto
  have p: "p \<noteq> 0" "jobs st p = None" "p \<notin> set qs" using Cons.prems(3,5) jps by auto
  obtain st1 where st1: "add_job p r j st = Some st1" "job_rep st1 (ps @ [p])" "job_at st1 = (job_at st)(p \<mapsto> (j, r))" "files st1 = files st"
    using add_job_spec [OF Cons.prems(1) p(2,1), of r j] by blast
  have fresh: "\<forall>q \<in> set qs. q \<noteq> 0 \<and> jobs st1 q = None"
  proof
    fix q assume q: "q \<in> set qs"
    then have "job_at st1 q = None" using st1(3) Cons.prems(5) jps p(3) by (auto simp: job_at_def)
    then show "q \<noteq> 0 \<and> jobs st1 q = None" using q Cons.prems(5) jps by (auto simp: job_at_def)
  qed
  have js: "\<forall>(j, r) \<in> set js. 0 \<le> j \<and> j < 2 ^ 31 \<and> req_ok r \<and> files st1 (spool_path REQDIR j) = Some (enc_req r)"
    using Cons.prems(2) st1(4) by auto
  have dl: "distinct qs" "length qs = length js" using Cons.prems(3,4) jps by auto
  obtain st2 where st2: "build_qonstart (map (\<lambda>(j, r). decs j) js) qs st1 = Some st2" "job_rep st2 ((ps @ [p]) @ qs)"
      "map (job_at st2) qs = map Some js" "\<forall>a. a \<notin> set qs \<longrightarrow> job_at st2 a = job_at st1 a"
    using Cons.IH [OF st1(2) js dl fresh] by blast
  have "build_qonstart (map (\<lambda>(j, r). decs j) (x # js)) jps st = Some st2"
    using qonstart_step [of j st r "map (\<lambda>(j, r). decs j) js" p qs] Cons.prems(2) x jps st1(1) st2(1) by simp
  moreover have "job_at st2 p = Some (j, r)" using st2(4) p(3) st1(3) by simp
  moreover have "\<forall>a. a \<notin> set jps \<longrightarrow> job_at st2 a = job_at st a" using st2(4) st1(3) jps by auto
  ultimately show ?case using st2(2,3) jps x by auto
qed auto

theorem spool_recovery_witness:
  "\<exists>st'. build_qonstart [decs 7] [40] ((empty_server 1)\<lparr>files := [spool_path REQDIR 7 \<mapsto> enc_req blank_req]\<rparr>) = Some st' \<and> job_at st' 40 = Some (7, blank_req)"
proof -
  let ?st = "(empty_server 1)\<lparr>files := [spool_path REQDIR 7 \<mapsto> enc_req blank_req]\<rparr>"
  have "job_rep ?st []" "\<forall>p \<in> set [40]. p \<noteq> 0 \<and> jobs ?st p = None" by (simp_all add: empty_server_def job_rep_def dlist_def)
  from spool_recovery [OF this(1) _ _ _ this(2), of "[(7, blank_req)]"] show ?thesis using blank_req_ok by auto
qed

end
