(* ===== verification/Printer_Ipp.thy ===== *)
theory Printer_Ipp
  imports Printer_Submit
begin

unbundle bit_operations_syntax

text \<open>
  The printer thread of \<open>src/apue/apue.3e/printer/printd.c\<close>: the IPP and HTTP headers it builds (\<open>add_option\<close>), one
  turn of its loop, and the analysis of the printer's answer (\<open>readmore\<close>, \<open>printer_status\<close>). The buffers are
  arrays with checked accesses: writing or reading outside is undefined behaviour.
\<close>

section \<open>Building the headers\<close>

definition IBUFSZ :: nat where "IBUFSZ = 512"
definition HBUFSZ :: nat where "HBUFSZ = 512"
definition IPP_PORT :: nat where "IPP_PORT = 631"
definition OP_PRINT_JOB :: nat where "OP_PRINT_JOB = 0x02"
definition TAG_OPERATION_ATTR :: nat where "TAG_OPERATION_ATTR = 0x01"
definition TAG_END_OF_ATTR :: nat where "TAG_END_OF_ATTR = 0x03"
definition TAG_NAMEWOLANG :: nat where "TAG_NAMEWOLANG = 0x42"
definition TAG_URI :: nat where "TAG_URI = 0x45"
definition TAG_CHARSET :: nat where "TAG_CHARSET = 0x47"
definition TAG_NATULANG :: nat where "TAG_NATULANG = 0x48"
definition TAG_MIMETYPE :: nat where "TAG_MIMETYPE = 0x49"

lemmas ipp_consts = IBUFSZ_def HBUFSZ_def IPP_PORT_def OP_PRINT_JOB_def TAG_OPERATION_ATTR_def TAG_END_OF_ATTR_def
  TAG_NAMEWOLANG_def TAG_URI_def TAG_CHARSET_def TAG_NATULANG_def TAG_MIMETYPE_def

text \<open>A 16-bit number in network order: the two bytes of \<open>u.s = htons(n)\<close>.\<close>

definition be16 :: "nat \<Rightarrow> string" where
  "be16 n = [char_of (n div 256), char_of n]"

definition add_option :: "string \<times> nat \<Rightarrow> nat \<Rightarrow> string \<Rightarrow> string \<Rightarrow> (string \<times> nat) option" where
  "add_option bi tag optname optval = do {
     let (b, i) = bi;
     b \<leftarrow> put_at b i [char_of tag];
     b \<leftarrow> put_at b (i + 1) (be16 (length optname));
     b \<leftarrow> put_at b (i + 3) (optname @ [NUL]);
     let i = i + 3 + length optname;
     b \<leftarrow> put_at b i (be16 (length optval));
     b \<leftarrow> put_at b (i + 2) (optval @ [NUL]);
     Some (b, i + 2 + length optval)
   }"

text \<open>The C strings in the arrays of the request; a missing null byte makes the user name run on into the
  job name.\<close>

definition user_str :: "printreq \<Rightarrow> string option" where
  "user_str r = (if NUL \<in> set (usernm r @ jobnm r) then Some (cstr (usernm r @ jobnm r)) else None)"

definition job_str :: "printreq \<Rightarrow> string option" where
  "job_str r = (if NUL \<in> set (jobnm r) then Some (cstr (jobnm r)) else None)"

definition is_text :: "printreq \<Rightarrow> bool" where
  "is_text r \<longleftrightarrow> flags r AND PR_TEXT \<noteq> 0"

definition mime :: "printreq \<Rightarrow> string" where
  "mime r = (if is_text r then ''text/plain'' else ''application/postscript'')"

text \<open>The IPP header: the filled buffer and its length \<open>ilen\<close>. The URI is built in an array of 64 bytes.\<close>

definition ipp_header :: "string \<Rightarrow> int \<Rightarrow> printreq \<Rightarrow> string \<Rightarrow> (string \<times> nat) option" where
  "ipp_header printer_name jid r ibuf = do {
     b \<leftarrow> put_at ibuf 0 ([char_of (1 :: nat), char_of (1 :: nat)] @ be16 OP_PRINT_JOB @ to_le (htonl (word_of_int jid)));
     b \<leftarrow> put_at b 8 [char_of TAG_OPERATION_ATTR];
     bi \<leftarrow> add_option (b, 9) TAG_CHARSET ''attributes-charset'' ''utf-8'';
     bi \<leftarrow> add_option bi TAG_NATULANG ''attributes-natural-language'' ''en-us'';
     let uri = ''http://'' @ printer_name @ ''/ipp'';
     if length uri \<ge> 64 then None
     else do {
       bi \<leftarrow> add_option bi TAG_URI ''printer-uri'' uri;
       user \<leftarrow> user_str r;
       bi \<leftarrow> add_option bi TAG_NAMEWOLANG ''requesting-user-name'' user;
       jb \<leftarrow> job_str r;
       bi \<leftarrow> add_option bi TAG_NAMEWOLANG ''job-name'' jb;
       (b, i) \<leftarrow> add_option bi TAG_MIMETYPE ''document-format'' (mime r);
       b \<leftarrow> put_at b i [char_of TAG_END_OF_ATTR];
       Some (b, i + 1)
     }
   }"

definition CRLF :: string where
  "CRLF = [CHR 0x0D, CHR 0x0A]"

text \<open>The HTTP header in a buffer of 512 bytes; each \<open>sprintf\<close> also writes a null byte.\<close>

definition http_header :: "string \<Rightarrow> nat \<Rightarrow> string option" where
  "http_header printer_name len =
     (let h = ''POST /ipp HTTP/1.1'' @ CRLF @ ''Content-Length: '' @ dec len @ CRLF @ ''Content-Type: application/ipp'' @ CRLF @
              ''Host: '' @ printer_name @ '':'' @ dec IPP_PORT @ CRLF
      in if length h + 2 > HBUFSZ then None else Some (h @ CRLF))"

section \<open>Sending a job\<close>

text \<open>The answers of the environment to one turn of the loop: whether \<open>open\<close> of an existing file, \<open>fstat\<close> and
  \<open>connect_retry\<close> succeed, how the socket takes the data, the results of \<open>read\<close> on the data file, what the printer
  sends.\<close>

record penv =
  open_ok :: bool
  fstat_ok :: bool
  connect_ok :: bool
  sink :: "wev list"
  reads :: "rres list"
  answers :: "sev list"
  ibuf0 :: string

text \<open>\<open>writev\<close> must take everything at once; a \<open>write\<close> of one byte.\<close>

definition write_once :: "string \<Rightarrow> wev list \<Rightarrow> bool \<times> string \<times> wev list" where
  "write_once d w = (case sink_write d w of (Inl k, w) \<Rightarrow> (k = length d, take k d, w) | (Inr e, w) \<Rightarrow> (False, [], w))"

text \<open>The loop that copies the file to the printer: whether it reached the end of the file.\<close>

fun copy_file :: "rres list \<Rightarrow> string \<Rightarrow> wev list \<Rightarrow> bool \<times> string \<times> wev list" where
  "copy_file [] out w = (True, out, w)"
| "copy_file (Err e # rs) out w = (False, out, w)"
| "copy_file (Got d # rs) out w =
     (if d = [] then (True, out, w)
      else case writen d w of (nw, o1, w) \<Rightarrow>
        if nw \<noteq> int (length d) then (False, out @ o1, w) else copy_file rs (out @ o1) w)"

text \<open>From the opened data file to the printer's answer; \<open>status\<close> stands for \<open>printer_status\<close>. The result: whether the
  job is done, and the bytes that the printer got.\<close>

definition send_job :: "(sev list \<Rightarrow> int \<Rightarrow> bool option) \<Rightarrow> penv \<Rightarrow> string \<Rightarrow> nat \<Rightarrow> int \<Rightarrow> printreq \<Rightarrow> (bool \<times> string) option" where
  "send_job status env printer_name fsize jid r =
     (if \<not> connect_ok env then Some (False, [])
      else do {
        (ibuf, ilen) \<leftarrow> ipp_header printer_name jid r (ibuf0 env);
        hbuf \<leftarrow> http_header printer_name (fsize + ilen + (if is_text r then 1 else 0));
        case write_once (hbuf @ take ilen ibuf) (sink env) of (ok, out, w) \<Rightarrow>
          if \<not> ok then Some (False, out)
          else case (if is_text r then write_once [CHR 0x08] w else (True, [], w)) of (ok, o1, w) \<Rightarrow>
            if \<not> ok then Some (False, out @ o1)
            else case copy_file (reads env) (out @ o1) w of (ok, out, w) \<Rightarrow>
              if \<not> ok then Some (False, out)
              else do { s \<leftarrow> status (answers env) jid; Some (s, out) }
      })"

definition reload_printer :: "(string \<Rightarrow> string \<Rightarrow> string option option) \<Rightarrow> string option \<Rightarrow> printd \<Rightarrow> printd option" where
  "reload_printer getaddrlist conf st =
     (if configlock st then None
      else if reread st then init_printer getaddrlist conf (st\<lparr>printer := None, reread := False\<rparr>)
      else Some st)"

text \<open>One turn of the loop of \<open>printer_thread\<close> for the job at \<open>jp\<close>, which \<open>pick_job\<close> has taken off the queue. The result
  is what the printer got and the new state.\<close>

definition print_turn :: "(sev list \<Rightarrow> int \<Rightarrow> bool option) \<Rightarrow> (string \<Rightarrow> string \<Rightarrow> string option option) \<Rightarrow> string option \<Rightarrow> penv \<Rightarrow>
    nat \<Rightarrow> printd \<Rightarrow> (string \<times> printd) option" where
  "print_turn status getaddrlist conf env jp st = do {
     j \<leftarrow> load (jobs st) jp;
     st \<leftarrow> update_jobno st;
     st \<leftarrow> reload_printer getaddrlist conf st;
     printer_name \<leftarrow> printer st;
     let name = spool_path DATADIR (jobid j);
     case (if open_ok env then files st name else None) of
       None \<Rightarrow> do { st \<leftarrow> free_job jp st; Some ([], st) }
     | Some b \<Rightarrow>
        if \<not> fstat_ok env then do { st \<leftarrow> free_job jp st; Some ([], st) }
        else do {
          (done, out) \<leftarrow> send_job status env printer_name (length b) (jobid j) (req j);
          if done then do {
            st \<leftarrow> free_job jp (unlink (spool_path REQDIR (jobid j)) (unlink name st));
            Some (out, st)
          } else do {
            st \<leftarrow> replace_job jp st;
            Some (out, st)
          }
        }
   }"

section \<open>Signals\<close>

datatype signal = SIGHUP | SIGTERM | OtherSig int

text \<open>One signal of \<open>signal_thread\<close>; the result tells whether the process goes on.\<close>

definition handle_signal :: "signal \<Rightarrow> printd \<Rightarrow> (bool \<times> printd) option" where
  "handle_signal sig st = (case sig of
       SIGHUP \<Rightarrow> (if configlock st then None else Some (True, st\<lparr>reread := True\<rparr>))
     | _ \<Rightarrow> do { st \<leftarrow> kill_workers st; Some (False, st) })"

end
