(* ===== verification/Printer_Request.thy ===== *)
theory Printer_Request
  imports Printer_Ipp
begin

unbundle bit_operations_syntax

text \<open>
  Properties of what the printer thread sends: the IPP header against a parser for it, the room it needs in its
  buffer, the length field of the HTTP header, and what becomes of the job.
\<close>

section \<open>Options\<close>

definition opt_bytes :: "nat \<Rightarrow> string \<Rightarrow> string \<Rightarrow> string" where
  "opt_bytes tag n v = char_of tag # be16 (length n) @ n @ be16 (length v) @ v"

lemma length_be16 [simp]: "length (be16 n) = 2"
  by (simp add: be16_def)

lemma length_opt_bytes [simp]: "length (opt_bytes tag n v) = 5 + length n + length v"
  by (simp add: opt_bytes_def)

lemma put_at_spec:
  assumes "i + length s \<le> length b"
  shows "\<exists>b'. put_at b i s = Some b' \<and> length b' = length b \<and> take (i + length s) b' = take i b @ s \<and> (\<forall>k \<le> i. take k b' = take k b)"
  using assms by (auto simp: put_at_def put_def)

lemma add_option_fits:
  assumes "i + 6 + length n + length v \<le> length b"
  shows "\<exists>b'. add_option (b, i) tag n v = Some (b', i + 5 + length n + length v) \<and> length b' = length b \<and>
    take (i + 5 + length n + length v) b' = take i b @ opt_bytes tag n v"
proof -
  obtain b1 where b1: "put_at b i [char_of tag] = Some b1" "length b1 = length b" "take (i + 1) b1 = take i b @ [char_of tag]"
    using put_at_spec [of i "[char_of tag]" b] assms by auto
  have "i + 1 + length (be16 (length n)) \<le> length b1" using assms b1(2) by simp
  from put_at_spec [OF this] obtain b2 where b2: "put_at b1 (i + 1) (be16 (length n)) = Some b2" "length b2 = length b"
      "take (i + 1 + 2) b2 = take (i + 1) b1 @ be16 (length n)" using b1(2) by (auto simp del: take_Suc_Cons add_Suc_right)
  have i3: "i + 1 + 2 = i + 3" by simp
  obtain b3 where b3: "put_at b2 (i + 3) (n @ [NUL]) = Some b3" "length b3 = length b" "take (i + 3 + length n + 1) b3 = take (i + 3) b2 @ n @ [NUL]"
    using put_at_spec [of "i + 3" "n @ [NUL]" b2] assms b2 by (auto simp: ac_simps)
  have t3: "take (i + 3 + length n) b3 = take (i + 3) b2 @ n"
    using arg_cong [OF b3(3), of "take (i + 3 + length n)"] b2(2) assms by (simp add: min_def)
  have "i + 3 + length n + length (be16 (length v)) \<le> length b3" using assms b3(2) by simp
  from put_at_spec [OF this] obtain b4 where b4: "put_at b3 (i + 3 + length n) (be16 (length v)) = Some b4" "length b4 = length b"
      "take (i + 3 + length n + 2) b4 = take (i + 3 + length n) b3 @ be16 (length v)" using b3(2) by auto
  obtain b5 where b5: "put_at b4 (i + 3 + length n + 2) (v @ [NUL]) = Some b5" "length b5 = length b"
      "take (i + 3 + length n + 2 + length v + 1) b5 = take (i + 3 + length n + 2) b4 @ v @ [NUL]"
    using put_at_spec [of "i + 3 + length n + 2" "v @ [NUL]" b4] assms b4 by (auto simp: ac_simps)
  have t5: "take (i + 3 + length n + 2 + length v) b5 = take (i + 3 + length n + 2) b4 @ v"
    using arg_cong [OF b5(3), of "take (i + 3 + length n + 2 + length v)"] b4(2) assms by (simp add: min_def)
  have "add_option (b, i) tag n v = Some (b5, i + 3 + length n + 2 + length v)"
    using b1(1) b2(1) b3(1) b4(1) b5(1) by (simp add: add_option_def)
  moreover have "take (i + 3 + length n + 2 + length v) b5 = take i b @ opt_bytes tag n v"
    using t5 b4(3) t3 b2(3) [unfolded i3] b1(3) by (simp add: opt_bytes_def)
  moreover have "i + 3 + length n + 2 + length v = i + 5 + length n + length v" by simp
  ultimately show ?thesis using b5(2) by metis
qed

lemma put_at_length: "put_at b i s = Some b' \<Longrightarrow> length b' = length b"
  by (auto simp: put_at_def split: if_splits)

lemma add_option_overflow:
  assumes "length b < i + 6 + length n + length v"
  shows "add_option (b, i) tag n v = None"
proof (rule ccontr)
  assume "add_option (b, i) tag n v \<noteq> None"
  then obtain b1 b2 b3 b4 b5 where "put_at b i [char_of tag] = Some b1" "put_at b1 (i + 1) (be16 (length n)) = Some b2"
      "put_at b2 (i + 3) (n @ [NUL]) = Some b3" "put_at b3 (i + 3 + length n) (be16 (length v)) = Some b4"
      "put_at b4 (i + 3 + length n + 2) (v @ [NUL]) = Some b5"
    by (auto simp: add_option_def Option.bind_eq_Some_conv)
  note ps = this
  have "length b4 = length b" using ps(1-4) [THEN put_at_length] by simp
  moreover have "i + 3 + length n + 2 + length (v @ [NUL]) \<le> length b4" using ps(5) by (simp add: put_at_def split: if_splits)
  ultimately show False using assms by simp
qed

text \<open>A sequence of options: it fits exactly if there is one more byte behind it, for the null byte of the last
  string.\<close>

fun add_options :: "string \<times> nat \<Rightarrow> (nat \<times> string \<times> string) list \<Rightarrow> (string \<times> nat) option" where
  "add_options bi [] = Some bi"
| "add_options bi ((t, n, v) # os) = do { bi \<leftarrow> add_option bi t n v; add_options bi os }"

definition opts_bytes :: "(nat \<times> string \<times> string) list \<Rightarrow> string" where
  "opts_bytes os = concat (map (\<lambda>(t, n, v). opt_bytes t n v) os)"

lemma opts_bytes_Cons [simp]: "opts_bytes [] = []" "opts_bytes ((t, n, v) # os) = opt_bytes t n v @ opts_bytes os"
  by (simp_all add: opts_bytes_def)

lemma add_options_fits:
  "i + length (opts_bytes os) < length b \<Longrightarrow>
   \<exists>b'. add_options (b, i) os = Some (b', i + length (opts_bytes os)) \<and> length b' = length b \<and>
     take (i + length (opts_bytes os)) b' = take i b @ opts_bytes os"
proof (induction os arbitrary: b i)
  case (Cons x os)
  obtain t n v where x: "x = (t, n, v)" by (cases x)
  obtain b1 where b1: "add_option (b, i) t n v = Some (b1, i + 5 + length n + length v)" "length b1 = length b"
      "take (i + 5 + length n + length v) b1 = take i b @ opt_bytes t n v"
    using add_option_fits [of i n v b t] Cons.prems x by auto
  then show ?case using Cons.IH [of "i + 5 + length n + length v" b1] Cons.prems x by (auto simp: ac_simps)
qed simp

lemma add_options_overflow: "os \<noteq> [] \<Longrightarrow> length b \<le> i + length (opts_bytes os) \<Longrightarrow> add_options (b, i) os = None"
proof (induction os arbitrary: b i)
  case (Cons x os)
  obtain t n v where x: "x = (t, n, v)" by (cases x)
  show ?case
  proof (cases "i + 6 + length n + length v \<le> length b")
    case False
    then show ?thesis using add_option_overflow [of b i n v t] x by simp
  next
    case True
    then obtain b1 where b1: "add_option (b, i) t n v = Some (b1, i + 5 + length n + length v)" "length b1 = length b"
      using add_option_fits [of i n v b t] by auto
    have "os \<noteq> []" using Cons.prems(2) True x by (cases os) auto
    then show ?thesis using Cons.IH [of b1 "i + 5 + length n + length v"] Cons.prems(2) b1 x by simp
  qed
qed simp

section \<open>A parser for the header\<close>

fun get_str :: "string \<Rightarrow> (string \<times> string) option" where
  "get_str (h # l # r) = (let k = 256 * of_char h + of_char l in if k \<le> length r then Some (take k r, drop k r) else None)"
| "get_str _ = None"

fun parse_opts :: "nat \<Rightarrow> string \<Rightarrow> (nat \<times> string \<times> string) list option" where
  "parse_opts (Suc k) (t # r) =
     (if of_char t = TAG_END_OF_ATTR then if r = [] then Some [] else None
      else do { (n, r) \<leftarrow> get_str r; (v, r) \<leftarrow> get_str r; os \<leftarrow> parse_opts k r; Some ((of_char t, n, v) # os) })"
| "parse_opts _ _ = None"

text \<open>Version, operation, request number and the attributes of the operation group.\<close>

definition parse_ipp :: "string \<Rightarrow> (nat \<times> nat \<times> nat \<times> int \<times> (nat \<times> string \<times> string) list) option" where
  "parse_ipp b = (if length b < 9 \<or> of_char (b ! 8) \<noteq> TAG_OPERATION_ATTR then None
     else do {
       os \<leftarrow> parse_opts (length b) (drop 9 b);
       Some (of_char (b ! 0), of_char (b ! 1), 256 * of_char (b ! 2) + of_char (b ! 3), sint (ntohl (of_le (take 4 (drop 4 b)))), os)
     })"

lemma get_str_be16: "length s < 65536 \<Longrightarrow> get_str (be16 (length s) @ s @ r) = Some (s, r)"
proof -
  assume "length s < 65536"
  then have "length s div 256 < 256" by simp
  then have "256 * (length s div 256 mod 256) + length s mod 256 = length s" by simp
  then show ?thesis by (simp add: be16_def)
qed

lemma parse_opt:
  assumes "tag < 256" "tag \<noteq> TAG_END_OF_ATTR" "length n < 65536" "length v < 65536"
  shows "parse_opts (Suc k) (opt_bytes tag n v @ r) = do { os \<leftarrow> parse_opts k r; Some ((tag, n, v) # os) }"
  using assms by (simp add: opt_bytes_def get_str_be16)

section \<open>The IPP header\<close>

text \<open>The attributes and the bytes of the header.\<close>

definition ipp_opts :: "string \<Rightarrow> string \<Rightarrow> string \<Rightarrow> string \<Rightarrow> (nat \<times> string \<times> string) list" where
  "ipp_opts p u j m = [(TAG_CHARSET, ''attributes-charset'', ''utf-8''), (TAG_NATULANG, ''attributes-natural-language'', ''en-us''),
     (TAG_URI, ''printer-uri'', ''http://'' @ p @ ''/ipp''), (TAG_NAMEWOLANG, ''requesting-user-name'', u),
     (TAG_NAMEWOLANG, ''job-name'', j), (TAG_MIMETYPE, ''document-format'', m)]"

definition ipp_start :: "int \<Rightarrow> string" where
  "ipp_start jid = [char_of (1 :: nat), char_of (1 :: nat)] @ be16 OP_PRINT_JOB @ to_le (htonl (word_of_int jid))"

definition ipp_bytes :: "string \<Rightarrow> int \<Rightarrow> string \<Rightarrow> string \<Rightarrow> string \<Rightarrow> string" where
  "ipp_bytes p jid u j m = ipp_start jid @ [char_of TAG_OPERATION_ATTR] @ opts_bytes (ipp_opts p u j m) @ [char_of TAG_END_OF_ATTR]"

lemma length_opts: "length (opts_bytes (ipp_opts p u j m)) = 150 + length p + length u + length j + length m"
  by (simp add: ipp_opts_def)

lemma length_ipp_bytes: "length (ipp_bytes p jid u j m) = 160 + length p + length u + length j + length m"
  by (simp add: ipp_bytes_def ipp_start_def length_opts)

lemma ipp_header_options:
  assumes "user_str r = Some u" "job_str r = Some j"
  shows "ipp_header p jid r ibuf = do {
     b \<leftarrow> put_at ibuf 0 (ipp_start jid);
     b \<leftarrow> put_at b 8 [char_of TAG_OPERATION_ATTR];
     (b, i) \<leftarrow> (if 53 \<le> length p then None else add_options (b, 9) (ipp_opts p u j (mime r)));
     b \<leftarrow> put_at b i [char_of TAG_END_OF_ATTR];
     Some (b, i + 1) }"
  using assms by (cases "53 \<le> length p") (simp_all add: ipp_header_def ipp_opts_def ipp_start_def Let_def)

lemma ipp_header_eq:
  assumes s: "user_str r = Some u" "job_str r = Some j" and n: "length ibuf = IBUFSZ"
  shows "if 53 \<le> length p \<or> 512 < 160 + length p + length u + length j + length (mime r) then ipp_header p jid r ibuf = None
    else \<exists>b. ipp_header p jid r ibuf = Some (b, 160 + length p + length u + length j + length (mime r)) \<and>
      take (160 + length p + length u + length j + length (mime r)) b = ipp_bytes p jid u j (mime r)"
proof -
  let ?os = "ipp_opts p u j (mime r)" and ?i = "159 + length p + length u + length j + length (mime r)"
  have len: "length (ipp_start jid) = 8" by (simp add: ipp_start_def)
  obtain b0 where b0: "put_at ibuf 0 (ipp_start jid) = Some b0" "length b0 = 512" "take 8 b0 = ipp_start jid"
    using put_at_spec [of 0 "ipp_start jid" ibuf] n len by (auto simp: ipp_consts)
  obtain b1 where b1: "put_at b0 8 [char_of TAG_OPERATION_ATTR] = Some b1" "length b1 = 512" "take 9 b1 = ipp_start jid @ [char_of TAG_OPERATION_ATTR]"
    using put_at_spec [of 8 "[char_of TAG_OPERATION_ATTR]" b0] b0 by auto
  note eq = ipp_header_options [OF s, of p jid ibuf, unfolded b0(1) b1(1)]
  have i9: "9 + length (opts_bytes ?os) = ?i" by (simp add: length_opts)
  show ?thesis
  proof (cases "53 \<le> length p \<or> 512 < Suc ?i")
    case True
    have "?os \<noteq> []" by (simp add: ipp_opts_def)
    then have "53 \<le> length p \<or> add_options (b1, 9) ?os = None" using add_options_overflow [of ?os b1 9] True b1(2) i9 by auto
    then show ?thesis using eq b0(1) b1(1) True by (auto simp: numeral_eq_Suc)
  next
    case False
    then obtain b2 where b2: "add_options (b1, 9) ?os = Some (b2, ?i)" "length b2 = 512" "take ?i b2 = take 9 b1 @ opts_bytes ?os"
      using add_options_fits [of 9 ?os b1] b1(2) i9 by auto
    obtain b3 where b3: "put_at b2 ?i [char_of TAG_END_OF_ATTR] = Some b3" "take (Suc ?i) b3 = take ?i b2 @ [char_of TAG_END_OF_ATTR]"
      using put_at_spec [of ?i "[char_of TAG_END_OF_ATTR]" b2] b2(2) False by auto
    have "ipp_header p jid r ibuf = Some (b3, Suc ?i)" using eq b0(1) b1(1) b2(1) b3(1) False by simp
    moreover have "take (Suc ?i) b3 = ipp_bytes p jid u j (mime r)" using b3(2) b2(3) b1(3) by (simp add: ipp_bytes_def)
    ultimately show ?thesis using False by (simp add: numeral_eq_Suc)
  qed
qed

lemma opts_parse:
  "\<forall>(t, n, v) \<in> set os. t < 256 \<and> t \<noteq> TAG_END_OF_ATTR \<and> length n < 65536 \<and> length v < 65536 \<Longrightarrow> length os < k \<Longrightarrow>
   parse_opts k (opts_bytes os @ [char_of TAG_END_OF_ATTR]) = Some os"
proof (induction os arbitrary: k)
  case Nil
  then show ?case by (cases k) (simp_all add: TAG_END_OF_ATTR_def)
next
  case (Cons x os)
  obtain t n v where x: "x = (t, n, v)" by (cases x)
  obtain k' where k: "k = Suc k'" using Cons.prems(2) by (cases k) auto
  then show ?case using Cons parse_opt [of t n v k' "opts_bytes os @ [char_of TAG_END_OF_ATTR]"] x by simp
qed

lemma parse_ipp_bytes:
  assumes "length p < 53" "length u < 512" "length j < 512" "length m < 512" "- (2 ^ 31) \<le> jid" "jid < 2 ^ 31"
  shows "parse_ipp (ipp_bytes p jid u j m) = Some (1, 1, OP_PRINT_JOB, jid, ipp_opts p u j m)"
proof -
  let ?b = "ipp_bytes p jid u j m" and ?o = "opts_bytes (ipp_opts p u j m) @ [char_of TAG_END_OF_ATTR]"
  obtain w0 w1 w2 w3 where w: "to_le (htonl (word_of_int jid)) = [w0, w1, w2, w3]"
    using length_to_le [of "htonl (word_of_int jid)"] by (auto simp del: length_to_le simp: numeral_eq_Suc length_Suc_conv)
  have b: "?b = [char_of (1 :: nat), char_of (1 :: nat), char_of (0 :: nat), char_of (2 :: nat), w0, w1, w2, w3, char_of TAG_OPERATION_ATTR] @ ?o"
    by (simp add: ipp_bytes_def ipp_start_def w be16_def OP_PRINT_JOB_def)
  have "of_le [w0, w1, w2, w3] = htonl (word_of_int jid)" using w of_le_to_le [of "htonl (word_of_int jid)"] by simp
  then have id: "sint (ntohl (of_le [w0, w1, w2, w3])) = jid" using assms(5,6) by (simp add: sint_sbintrunc' signed_take_bit_int_eq_self)
  have "parse_opts (length ?b) ?o = Some (ipp_opts p u j m)"
    by (rule opts_parse) (use assms in \<open>auto simp: ipp_opts_def ipp_consts b\<close>)
  then obtain os where os: "?b = [char_of (1 :: nat), char_of (1 :: nat), char_of (0 :: nat), char_of (2 :: nat), w0, w1, w2, w3, char_of TAG_OPERATION_ATTR] @ os"
      "parse_opts (length ?b) os = Some (ipp_opts p u j m)" using b by blast
  then have "drop 9 ?b = os" "take 4 (drop 4 ?b) = [w0, w1, w2, w3]" "9 \<le> length ?b" "?b ! 0 = char_of (1 :: nat)" "?b ! 1 = char_of (1 :: nat)"
      "?b ! 2 = char_of (0 :: nat)" "?b ! 3 = char_of (2 :: nat)" "?b ! 8 = char_of TAG_OPERATION_ATTR" by simp_all
  then show ?thesis using id os(2) by (simp add: parse_ipp_def OP_PRINT_JOB_def TAG_OPERATION_ATTR_def)
qed

section \<open>Properties\<close>

text \<open>C25: the IPP header of a job whose names are terminated: it carries the version, the operation, the job number and
  exactly the six attributes; and it fits its buffer of 512 bytes exactly if the printer's name has at most 52
  characters and the names together are short enough. Otherwise the code writes behind the end of an array,
  which a long job name and an ordinary host name suffice for.\<close>

theorem ipp_header_correct:
  assumes "user_str r = Some u" "job_str r = Some j" "length ibuf = IBUFSZ" "- (2 ^ 31) \<le> jid" "jid < 2 ^ 31"
  shows "(ipp_header p jid r ibuf = None \<longleftrightarrow> 52 < length p \<or> 352 < length p + length u + length j + length (mime r)) \<and>
    (\<forall>b n. ipp_header p jid r ibuf = Some (b, n) \<longrightarrow> n \<le> IBUFSZ \<and>
       parse_ipp (take n b) = Some (1, 1, OP_PRINT_JOB, jid,
         [(TAG_CHARSET, ''attributes-charset'', ''utf-8''), (TAG_NATULANG, ''attributes-natural-language'', ''en-us''),
          (TAG_URI, ''printer-uri'', ''http://'' @ p @ ''/ipp''), (TAG_NAMEWOLANG, ''requesting-user-name'', u),
          (TAG_NAMEWOLANG, ''job-name'', j), (TAG_MIMETYPE, ''document-format'', if is_text r then ''text/plain'' else ''application/postscript'')]))"
proof -
  note eq = ipp_header_eq [OF assms(1-3), of p jid]
  have ex: "parse_ipp (take n b) = Some (1, 1, OP_PRINT_JOB, jid, ipp_opts p u j (mime r))" "n \<le> 512" if "ipp_header p jid r ibuf = Some (b, n)" for b n
  proof -
    have c: "\<not> (53 \<le> length p \<or> 512 < 160 + length p + length u + length j + length (mime r))" using eq that by auto
    then have "take n b = ipp_bytes p jid u j (mime r)" "n \<le> 512" using eq that by auto
    then show "parse_ipp (take n b) = Some (1, 1, OP_PRINT_JOB, jid, ipp_opts p u j (mime r))" "n \<le> 512"
      using parse_ipp_bytes [of p u j "mime r" jid] c assms(4,5) by auto
  qed
  have "ipp_header p jid r ibuf = None \<longleftrightarrow> 52 < length p \<or> 352 < length p + length u + length j + length (mime r)"
    using eq by (auto split: if_splits)
  then show ?thesis using ex by (auto simp: ipp_opts_def mime_def IBUFSZ_def)
qed

definition long_req :: printreq where
  "long_req = \<lparr>rsize = 0, flags = 0, usernm = replicate 63 CHR ''u'' @ [NUL], jobnm = replicate 255 CHR ''j'' @ [NUL]\<rparr>"

lemma long_req_strs: "user_str long_req = Some (replicate 63 CHR ''u'')" "job_str long_req = Some (replicate 255 CHR ''j'')" "length (mime long_req) = 22"
  by (auto simp: user_str_def job_str_def long_req_def cstr_def takeWhile_append mime_def is_text_def NUL_def)

theorem ipp_header_correct_witness:
  "ipp_header ''printer.example.com'' 1 long_req (replicate 512 NUL) = None"
  using ipp_header_correct [OF long_req_strs(1,2), of "replicate 512 NUL" 1 "''printer.example.com''"] long_req_strs(3) by (simp add: IBUFSZ_def)

lemma copy_file_bytes: "copy_file rs out w = (True, out', w') \<Longrightarrow> out' = out @ file_bytes rs"
proof (induction rs out w rule: copy_file.induct)
  case (3 d rs out w)
  show ?case
  proof (cases "d = []")
    case False
    obtain nw o1 w1 where wn: "writen d w = (nw, o1, w1)" by (metis prod_cases3)
    then have "nw = int (length d)" "copy_file rs (out @ o1) w1 = (True, out', w')" using 3(2) False by (auto split: if_splits)
    then show ?thesis using 3(1) [OF False wn [symmetric] refl] writen_all [of d w o1 w1] wn False by auto
  qed (use 3 in simp)
qed auto

lemma write_once_all: "write_once d w = (True, out, w') \<Longrightarrow> out = d"
  by (cases w; cases "hd w") (auto simp: write_once_def)

text \<open>A job that counts as done was sent completely, and the printer's answer was positive.\<close>

lemma send_job_done:
  assumes "send_job status env p fsize jid r = Some (True, out)"
  shows "\<exists>b n h. ipp_header p jid r (ibuf0 env) = Some (b, n) \<and> http_header p (fsize + n + (if is_text r then 1 else 0)) = Some h \<and>
    out = h @ take n b @ (if is_text r then [CHR 0x08] else []) @ file_bytes (reads env) \<and> status (answers env) jid = Some True"
proof -
  obtain b n h where bh: "connect_ok env" "ipp_header p jid r (ibuf0 env) = Some (b, n)" "http_header p (fsize + n + (if is_text r then 1 else 0)) = Some h"
    using assms by (auto simp: send_job_def Option.bind_eq_Some_conv split: if_splits)
  obtain ok1 o1 w1 where w1: "write_once (h @ take n b) (sink env) = (ok1, o1, w1)" by (metis prod_cases3)
  obtain ok2 o2 w2 where w2: "(if is_text r then write_once [CHR 0x08] w1 else (True, [], w1)) = (ok2, o2, w2)" by (metis prod_cases3)
  obtain ok3 o3 w3 where w3: "copy_file (reads env) (o1 @ o2) w2 = (ok3, o3, w3)" by (metis prod_cases3)
  have ok: "ok1" "ok2" "ok3" "status (answers env) jid = Some True" "out = o3"
    using assms bh w1 w2 w3 by (auto simp: send_job_def Option.bind_eq_Some_conv split: if_splits)
  have "o1 = h @ take n b" using write_once_all w1 ok(1) by simp
  moreover have "o2 = (if is_text r then [CHR 0x08] else [])" using write_once_all [of "[CHR 0x08]" w1 o2 w2] w2 ok(2) by (auto split: if_splits)
  moreover have "o3 = (o1 @ o2) @ file_bytes (reads env)" using copy_file_bytes [of "reads env" "o1 @ o2" w2 o3 w3] w3 ok(3) by simp
  ultimately show ?thesis using bh ok by auto
qed

lemma ipp_header_length: "ipp_header p jid r ibuf = Some (b, n) \<Longrightarrow> n \<le> length b"
  by (auto simp: ipp_header_def Option.bind_eq_Some_conv put_at_def Let_def length_overwrite split: if_splits)

text \<open>C27: a job that the printer accepted was sent correctly framed: the HTTP header announces exactly the number of bytes
  that follow it, and these are the IPP header, a backspace for plain text, and the content of the data file (whose size
  \<open>fstat\<close> has given).\<close>

theorem sent_job_framed:
  assumes "send_job status env p fsize jid r = Some (True, out)" "length (file_bytes (reads env)) = fsize"
  shows "\<exists>b n body. ipp_header p jid r (ibuf0 env) = Some (b, n) \<and> body = take n b @ (if is_text r then [CHR 0x08] else []) @ file_bytes (reads env) \<and>
    out = ''POST /ipp HTTP/1.1'' @ CRLF @ ''Content-Length: '' @ dec (length body) @ CRLF @ ''Content-Type: application/ipp'' @ CRLF @
      ''Host: '' @ p @ '':'' @ dec 631 @ CRLF @ CRLF @ body \<and>
    length body = n + (if is_text r then 1 else 0) + fsize \<and> status (answers env) jid = Some True"
proof -
  obtain b n h where bh: "ipp_header p jid r (ibuf0 env) = Some (b, n)" "http_header p (fsize + n + (if is_text r then 1 else 0)) = Some h"
      "out = h @ take n b @ (if is_text r then [CHR 0x08] else []) @ file_bytes (reads env)" "status (answers env) jid = Some True"
    using send_job_done [OF assms(1)] by blast
  define body where "body = take n b @ (if is_text r then [CHR 0x08] else []) @ file_bytes (reads env)"
  have len: "length body = n + (if is_text r then 1 else 0) + fsize" using ipp_header_length [OF bh(1)] assms(2) by (simp add: body_def)
  have "fsize + n + (if is_text r then 1 else 0) = length body" using len by simp
  then have "h = ''POST /ipp HTTP/1.1'' @ CRLF @ ''Content-Length: '' @ dec (length body) @ CRLF @ ''Content-Type: application/ipp'' @ CRLF @
      ''Host: '' @ p @ '':'' @ dec 631 @ CRLF @ CRLF"
    using bh(2) by (simp add: http_header_def IPP_PORT_def Let_def split: if_splits)
  then show ?thesis using bh len body_def by auto
qed

definition small_env :: penv where
  "small_env = \<lparr>open_ok = True, fstat_ok = True, connect_ok = True, sink = [], reads = [Got ''hi'', Got []], answers = [], ibuf0 = replicate 512 NUL\<rparr>"

definition small_req :: printreq where
  "small_req = \<lparr>rsize = 2, flags = 1, usernm = [CHR ''u'', NUL], jobnm = [CHR ''j'', NUL]\<rparr>"

lemma small_header: "\<exists>b. ipp_header ''lp'' 1 small_req (replicate 512 NUL) = Some (b, 174)" "is_text small_req"
proof -
  have s: "user_str small_req = Some ''u''" "job_str small_req = Some ''j''" "is_text small_req" "mime small_req = ''text/plain''"
    by (simp_all add: user_str_def job_str_def small_req_def cstr_def NUL_def is_text_def mime_def PR_TEXT_def)
  show "\<exists>b. ipp_header ''lp'' 1 small_req (replicate 512 NUL) = Some (b, 174)" "is_text small_req"
    using ipp_header_eq [OF s(1,2), of "replicate 512 NUL" "''lp''" 1] s(3,4) by (auto simp: IBUFSZ_def)
qed

lemma small_sent: "\<exists>out. send_job (\<lambda>s j. Some True) small_env ''lp'' 2 1 small_req = Some (True, out)"
proof -
  have "length (dec n) \<le> 3" if "n < 1000" for n using length_dec [of n 3] that by simp
  then have "length (dec 177) \<le> 3" "length (dec 631) \<le> 3" by simp_all
  then obtain h where h: "http_header ''lp'' 177 = Some h" by (auto simp: http_header_def HBUFSZ_def IPP_PORT_def CRLF_def)
  show ?thesis using h small_header by (auto simp: send_job_def small_env_def write_once_def writen_plain)
qed

theorem sent_job_framed_witness:
  "\<exists>out body. send_job (\<lambda>s j. Some True) small_env ''lp'' 2 1 small_req = Some (True, out) \<and> length body = 177 \<and>
     out = ''POST /ipp HTTP/1.1'' @ CRLF @ ''Content-Length: '' @ dec 177 @ CRLF @ ''Content-Type: application/ipp'' @ CRLF @ ''Host: lp:'' @ dec 631 @ CRLF @ CRLF @ body"
proof -
  obtain out where o: "send_job (\<lambda>s j. Some True) small_env ''lp'' 2 1 small_req = Some (True, out)" using small_sent by blast
  have "length (file_bytes (reads small_env)) = 2" by (simp add: small_env_def)
  from sent_job_framed [OF o this] obtain n b body where "ipp_header ''lp'' 1 small_req (ibuf0 small_env) = Some (b, n)" "length body = n + (if is_text small_req then 1 else 0) + 2"
    "out = ''POST /ipp HTTP/1.1'' @ CRLF @ ''Content-Length: '' @ dec (length body) @ CRLF @ ''Content-Type: application/ipp'' @ CRLF @ ''Host: '' @ ''lp'' @ '':'' @ dec 631 @ CRLF @ CRLF @ body"
    by metis
  moreover from this have "length body = 177" using small_header by (auto simp: small_env_def)
  ultimately show ?thesis using o by auto
qed

text \<open>When nothing goes wrong on the way and the printer's answer is positive, the job is done.\<close>

lemma copy_file_plain: "(\<forall>e. Err e \<notin> set rs) \<Longrightarrow> \<exists>out'. copy_file rs out [] = (True, out', [])"
  by (induction rs out "[] :: wev list" rule: copy_file.induct) (auto simp: writen_plain)

lemma write_once_plain: "write_once d [] = (True, d, [])"
  by (simp add: write_once_def)

lemma send_job_plain:
  assumes "send_job status env p fsize jid r = Some (ok, out)" "connect_ok env" "sink env = []" "\<forall>e. Err e \<notin> set (reads env)" "status (answers env) jid = Some True"
  shows "ok"
proof -
  obtain b n h where bh: "ipp_header p jid r (ibuf0 env) = Some (b, n)" "http_header p (fsize + n + (if is_text r then 1 else 0)) = Some h"
    using assms(1,2) by (auto simp: send_job_def Option.bind_eq_Some_conv split: if_splits)
  have e: "(if is_text r then write_once [CHR 0x08] [] else (True, [], [])) = (True, if is_text r then [CHR 0x08] else [], [])" by (simp add: write_once_plain)
  obtain o' where "copy_file (reads env) ((h @ take n b) @ (if is_text r then [CHR 0x08] else [])) [] = (True, o', [])" using copy_file_plain [OF assms(4)] by blast
  then show ?thesis using assms bh e by (auto simp: send_job_def write_once_plain split: if_splits)
qed

text \<open>C28: what a turn of the printer thread does with the job it has taken. If the data file is missing or cannot be examined, the
  job is freed, nothing is sent and no file is touched. Otherwise it is sent to the printer. If that succeeds (which requires that the whole file went out and that the
  printer's answer was positive, and is the case if besides that neither the connection nor reading or writing fails), the job is freed and exactly its two files are removed;
  if not, it is back in front of the queue with its files in place. In every case the pending jobs keep their order and the lock is released.\<close>

theorem print_turn_fate:
  assumes "print_turn status getaddrlist conf env jp st = Some (out, st')" "job_rep st ps" "jp \<notin> set ps" "jp \<noteq> 0" "job_at st jp = Some (jid, r)"
  shows "case files st (spool_path DATADIR jid) of
      Some b \<Rightarrow>
        if open_ok env \<and> fstat_ok env then
          \<exists>p sent. printer st' = Some p \<and> send_job status env p (length b) jid r = Some (sent, out) \<and>
            (sent \<longrightarrow> status (answers env) jid = Some True \<and> (\<exists>hd. out = hd @ file_bytes (reads env))) \<and>
            (connect_ok env \<and> sink env = [] \<and> (\<forall>e. Err e \<notin> set (reads env)) \<and> status (answers env) jid = Some True \<longrightarrow> sent) \<and>
            (if sent then job_rep st' ps \<and> jobs st' jp = None \<and> files st' = (files st)(spool_path DATADIR jid := None, spool_path REQDIR jid := None)
             else job_rep st' (jp # ps) \<and> job_at st' jp = Some (jid, r) \<and> files st' = files st)
        else out = [] \<and> job_rep st' ps \<and> jobs st' jp = None \<and> files st' = files st
    | None \<Rightarrow> out = [] \<and> job_rep st' ps \<and> jobs st' jp = None \<and> files st' = files st"
proof -
  obtain j where j: "jobs st jp = Some j" "jobid j = jid" "req j = r" using assms(5) by (auto simp: job_at_def)
  obtain st1 st2 nm where st: "update_jobno st = Some st1" "reload_printer getaddrlist conf st1 = Some st2" "printer st2 = Some nm"
    using assms(1,4) j(1) by (auto simp: print_turn_def Option.bind_eq_Some_conv)
  have k1: "jobs st1 = jobs st" "jobhead st1 = jobhead st" "jobtail st1 = jobtail st" "joblock st1 = joblock st" "files st1 = files st"
    using st(1) by (auto simp: update_jobno_def Option.bind_eq_Some_conv)
  have k2: "jobs st2 = jobs st" "jobhead st2 = jobhead st" "jobtail st2 = jobtail st" "joblock st2 = joblock st" "files st2 = files st"
    using st(2) k1 by (auto simp: reload_printer_def init_printer_def Option.bind_eq_Some_conv split: if_splits)
  have rep: "job_rep st2 ps" "job_at st2 jp = Some (jid, r)" using assms(2,5) k2 by (auto simp: job_rep_def job_at_def)
  let ?clean = "unlink (spool_path REQDIR jid) (unlink (spool_path DATADIR jid) st2)"
  have fr: "free_job jp st2 = Some (st2\<lparr>jobs := (jobs st2)(jp := None)\<rparr>)" using free_job_eq [of jp st2] rep(2) assms(4) by simp
  have fr': "free_job jp ?clean = Some (?clean\<lparr>jobs := (jobs st2)(jp := None)\<rparr>)" using rep(2) assms(4) by (auto simp: free_job_def unlink_def job_at_def)
  have rf: "job_rep (st2\<lparr>jobs := (jobs st2)(jp := None)\<rparr>) ps" "job_rep (?clean\<lparr>jobs := (jobs st2)(jp := None)\<rparr>) ps"
    using job_rep_free [OF rep(1) assms(3)] by (auto simp: job_rep_def unlink_def)
  have at: "job_at st2 jp \<noteq> None" using rep(2) by simp
  obtain sr where sr: "replace_job jp st2 = Some sr" "job_rep sr (jp # ps)" "job_at sr = job_at st2" using replace_job_spec [OF rep(1) at assms(3,4)] by blast
  have fs: "files sr = files st2" "printer sr = printer st2"
    using sr(1) by (auto simp: replace_job_def lock_job_def unlock_job_def Option.bind_eq_Some_conv Let_def split: if_splits)
  have turn: "print_turn status getaddrlist conf env jp st = (case (if open_ok env \<and> fstat_ok env then files st (spool_path DATADIR jid) else None) of
      None \<Rightarrow> Some ([], st2\<lparr>jobs := (jobs st2)(jp := None)\<rparr>)
    | Some b \<Rightarrow> do { (sent, out) \<leftarrow> send_job status env nm (length b) jid r; Some (out, if sent then ?clean\<lparr>jobs := (jobs st2)(jp := None)\<rparr> else sr) })"
    using assms(4) st j fr fr' sr(1) k2(5) by (auto simp: print_turn_def Let_def split: option.splits intro!: Option.bind_cong)
  show ?thesis
  proof (cases "if open_ok env \<and> fstat_ok env then files st (spool_path DATADIR jid) else None")
    case None
    then have "out = [] \<and> st' = st2\<lparr>jobs := (jobs st2)(jp := None)\<rparr>" using assms(1) turn by auto
    then show ?thesis using None rf(1) k2(5) by (auto split: option.splits if_splits)
  next
    case (Some b)
    then have b: "open_ok env \<and> fstat_ok env" "files st (spool_path DATADIR jid) = Some b" by (auto split: if_splits)
    obtain sent where sent: "send_job status env nm (length b) jid r = Some (sent, out)" "st' = (if sent then ?clean\<lparr>jobs := (jobs st2)(jp := None)\<rparr> else sr)"
      using assms(1) turn b by (auto simp: Option.bind_eq_Some_conv split: if_splits)
    have "printer st' = Some nm" using sent(2) st(3) fs(2) by (auto simp: unlink_def)
    moreover have "sent \<longrightarrow> status (answers env) jid = Some True \<and> (\<exists>hd. out = hd @ file_bytes (reads env))"
      using send_job_done [of status env nm "length b" jid r out] sent(1) by (auto simp flip: append_assoc)
    moreover have "connect_ok env \<and> sink env = [] \<and> (\<forall>e. Err e \<notin> set (reads env)) \<and> status (answers env) jid = Some True \<longrightarrow> sent"
      using send_job_plain [OF sent(1)] by blast
    moreover have "if sent then job_rep st' ps \<and> jobs st' jp = None \<and> files st' = (files st)(spool_path DATADIR jid := None, spool_path REQDIR jid := None)
             else job_rep st' (jp # ps) \<and> job_at st' jp = Some (jid, r) \<and> files st' = files st"
      using sent(2) rf(2) sr fs(1) rep(2) k2(5) by (auto simp: unlink_def)
    ultimately show ?thesis using b sent(1) by auto
  qed
qed

theorem print_turn_fate_witness:
  "\<exists>out st'. print_turn (\<lambda>s j. Some True) (\<lambda>h s. None) None small_env 7
      ((srv one_job)\<lparr>jobs := [7 \<mapsto> \<lparr>jnext = 0, jprev = 0, jobid = 1, req = small_req\<rparr>], jobhead := 0, jobtail := 0, printer := Some ''lp'', files := [spool_path DATADIR 1 \<mapsto> ''hi'']\<rparr>) = Some (out, st') \<and>
     job_rep st' [] \<and> jobs st' 7 = None \<and> files st' = Map.empty"
proof -
  let ?st = "(srv one_job)\<lparr>jobs := [7 \<mapsto> \<lparr>jnext = 0, jprev = 0, jobid = 1, req = small_req\<rparr>], jobhead := 0, jobtail := 0, printer := Some ''lp'', files := [spool_path DATADIR 1 \<mapsto> ''hi'']\<rparr>"
  have r: "job_rep ?st []" "job_at ?st 7 = Some (1, small_req)" "files ?st (spool_path DATADIR 1) = Some ''hi''"
    by (simp_all add: one_job_def start_sched_def empty_server_def job_rep_def dlist_def job_at_def)
  obtain out where o: "send_job (\<lambda>s j. Some True) small_env ''lp'' 2 1 small_req = Some (True, out)" using small_sent by blast
  have e: "open_ok small_env" "fstat_ok small_env" "connect_ok small_env" "sink small_env = []" "\<forall>e. Err e \<notin> set (reads small_env)" by (simp_all add: small_env_def)
  obtain st' where t: "print_turn (\<lambda>s j. Some True) (\<lambda>h s. None) None small_env 7 ?st = Some (out, st')"
    using o [unfolded numeral_2_eq_2] e by (simp add: print_turn_def one_job_def start_sched_def empty_server_def update_jobno_def lseek_def reload_printer_def free_job_def unlink_def Let_def)
  from print_turn_fate [OF t r(1) _ _ r(2)] show ?thesis using t r(3) e by (auto simp: fun_eq_iff split: if_splits)
qed

end
