(* ===== verification/Printer_Status.thy ===== *)
theory Printer_Status
  imports Printer_Request
begin

text \<open>
  The printer's answer: \<open>readmore\<close> and \<open>printer_status\<close> of \<open>src/apue/apue.3e/printer/printd.c\<close>. The read buffer is
  an array with checked accesses, whose uninitialised part has arbitrary content; the pointer \<open>cp\<close> and the index \<open>i\<close> of the
  source always denote the same position and are one index here. A loop that never ends is \<^const>\<open>None\<close>.
\<close>

section \<open>Scanning\<close>







definition lower :: "char \<Rightarrow> char" where
  "lower c = (if 65 \<le> (of_char c :: nat) \<and> (of_char c :: nat) \<le> 90 then char_of (of_char c + 32 :: nat) else c)"


section \<open>Reading more\<close>



section \<open>The header\<close>












section \<open>The status\<close>




section \<open>Scanning lemmas\<close>

lemma rd_append [simp]: "rd (a @ c # r) (length a) = Some c"
  by (simp add: rd_def)

lemma wr_append [simp]: "wr (a @ c # r) (length a) x = Some (a @ x # r)"
  by (simp add: wr_def)






text \<open>No occurrence of the keyword begins in \<open>s\<close>, in front of the one that follows it.\<close>

definition no_keyword :: "string \<Rightarrow> bool" where
  "no_keyword s \<longleftrightarrow> (\<forall>k < length s. map lower (take 15 (drop k (s @ ''Content-Length:''))) \<noteq> ''content-length:'')"












section \<open>The parts of an answer\<close>




section \<open>Answers of a printer\<close>










section \<open>Properties\<close>


lemma no_keyword_code [code]: "no_keyword s \<longleftrightarrow> list_all (\<lambda>k. map lower (take 15 (drop k (s @ ''Content-Length:''))) \<noteq> ''content-length:'') [0..<length s]"
  by (auto simp: no_keyword_def list_all_iff)


end
