(* ===== verification/Max_Subarray.thy ===== *)
theory Max_Subarray
  imports Prelude
begin

text \<open>
  The three algorithms of \<open>src/clrs/exercises/04.1.3maxsubarray.c\<close> for the maximum sum of a nonempty
  segment of an array: by brute force, by divide and conquer and in linear time. An overflow of a
  signed addition is undefined behaviour (\<^const>\<open>None\<close>), as is an access outside of the array. The fields of the
  struct \<open>subarr\<close> that may be returned unassigned are of type \<^typ>\<open>nat option\<close>. The program's \<open>main\<close> compares the three
  results on random arrays; the theory proves that they always agree.
\<close>

section \<open>The code\<close>

record subarr =
  sleft :: "nat option"
  sright :: "nat option"
  smax :: int

definition add32 :: "int \<Rightarrow> int \<Rightarrow> int option" where
  "add32 x y = (if - (2 ^ 31) \<le> x + y \<and> x + y < 2 ^ 31 then Some (x + y) else None)"

function b_inner :: "int list \<Rightarrow> nat \<Rightarrow> nat \<Rightarrow> nat \<Rightarrow> int \<Rightarrow> subarr \<Rightarrow> subarr option" where
  "b_inner arr n i j tmp sub =
     (if j < n then do {
        x \<leftarrow> rd arr j;
        tmp \<leftarrow> add32 tmp x;
        b_inner arr n i (j + 1) tmp
          (if tmp > smax sub then \<lparr>sleft = Some i, sright = Some j, smax = tmp\<rparr> else sub)
      } else Some sub)"
  by pat_completeness auto
termination
  by (relation "measure (\<lambda>(arr, n, i, j, tmp, sub). n - j)") auto

function b_outer :: "int list \<Rightarrow> nat \<Rightarrow> nat \<Rightarrow> subarr \<Rightarrow> subarr option" where
  "b_outer arr n i sub =
     (if i < n then do { sub \<leftarrow> b_inner arr n i i 0 sub; b_outer arr n (i + 1) sub } else Some sub)"
  by pat_completeness auto
termination
  by (relation "measure (\<lambda>(arr, n, i, sub). n - i)") auto

text \<open>\<open>bmaxsubarray\<close> leaves \<open>left\<close> and \<open>right\<close> unassigned when \<open>arr[0]\<close> is never exceeded.\<close>

definition bmaxsubarray :: "int list \<Rightarrow> nat \<Rightarrow> subarr option" where
  "bmaxsubarray arr n = do {
     x \<leftarrow> rd arr 0;
     b_outer arr n 0 \<lparr>sleft = None, sright = None, smax = x\<rparr>
   }"

text \<open>The two loops of \<open>maxcross\<close>. The first goes down to index 0, not to \<open>beg\<close>; its argument is \<open>i + 1\<close>.\<close>

fun cross_left :: "int list \<Rightarrow> nat \<Rightarrow> int \<Rightarrow> int \<Rightarrow> nat \<Rightarrow> (int \<times> nat) option" where
  "cross_left arr 0 tmp maxleft l = Some (maxleft, l)"
| "cross_left arr (Suc i) tmp maxleft l = do {
     x \<leftarrow> rd arr i;
     tmp \<leftarrow> add32 tmp x;
     if tmp > maxleft then cross_left arr i tmp tmp i else cross_left arr i tmp maxleft l
   }"

function cross_right :: "int list \<Rightarrow> nat \<Rightarrow> nat \<Rightarrow> int \<Rightarrow> int \<Rightarrow> nat \<Rightarrow> (int \<times> nat) option" where
  "cross_right arr e j tmp maxright r =
     (if j < e then do {
        x \<leftarrow> rd arr j;
        tmp \<leftarrow> add32 tmp x;
        if tmp > maxright then cross_right arr e (j + 1) tmp tmp j else cross_right arr e (j + 1) tmp maxright r
      } else Some (maxright, r))"
  by pat_completeness auto
termination
  by (relation "measure (\<lambda>(arr, e, j, tmp, m, r). e - j)") auto

definition maxcross :: "int list \<Rightarrow> nat \<Rightarrow> nat \<Rightarrow> nat \<Rightarrow> subarr option" where
  "maxcross arr beg mid e =
     (if mid = 0 then None
      else do {
        x \<leftarrow> rd arr (mid - 1);
        (maxleft, l) \<leftarrow> cross_left arr mid 0 x (mid - 1);
        y \<leftarrow> rd arr mid;
        (maxright, r) \<leftarrow> cross_right arr e mid 0 y mid;
        s \<leftarrow> add32 maxright maxleft;
        Some \<lparr>sleft = Some l, sright = Some r, smax = s\<rparr>
      })"

text \<open>The function \<open>max\<close> on the three candidates.\<close>

definition max_of :: "subarr \<Rightarrow> subarr \<Rightarrow> subarr \<Rightarrow> subarr" where
  "max_of l r m =
     (let best = l;
          best = (if smax best < smax r then r else best)
      in if smax best < smax m then m else best)"

function maxsubarr :: "int list \<Rightarrow> nat \<Rightarrow> nat \<Rightarrow> subarr option" where
  "maxsubarr arr beg e =
     (if beg + 1 < e then
        if beg + e \<ge> 2 ^ 31 then None
        else do {
          let mid = (beg + e) div 2;
          l \<leftarrow> maxsubarr arr beg mid;
          r \<leftarrow> maxsubarr arr mid e;
          m \<leftarrow> maxcross arr beg mid e;
          Some (max_of l r m)
        }
      else do {
        x \<leftarrow> rd arr beg;
        Some \<lparr>sleft = Some beg, sright = (if e = 0 then None else Some (e - 1)), smax = x\<rparr>
      })"
  by pat_completeness auto
termination
  by (relation "measure (\<lambda>(arr, beg, e). e - beg)") auto

definition dmaxsubarray :: "int list \<Rightarrow> nat \<Rightarrow> subarr option" where
  "dmaxsubarray arr len = maxsubarr arr 0 len"

text \<open>The first loop of \<open>lmaxsubarray\<close>: whether there is a positive element, and the largest element if not.\<close>

function l_scan :: "int list \<Rightarrow> nat \<Rightarrow> nat \<Rightarrow> subarr \<Rightarrow> (int \<times> subarr) option" where
  "l_scan arr n i sub =
     (if i < n then do {
        x \<leftarrow> rd arr i;
        if x > 0 then Some (1, sub)
        else l_scan arr n (i + 1) (if x \<ge> smax sub then \<lparr>sleft = Some i, sright = Some i, smax = x\<rparr> else sub)
      } else Some (- 1, sub))"
  by pat_completeness auto
termination
  by (relation "measure (\<lambda>(arr, n, i, sub). n - i)") auto

text \<open>The second loop; \<open>tleft\<close>, \<open>tright\<close> and \<open>tmax\<close> are the fields of \<open>tmp\<close>.\<close>

function l_loop :: "int list \<Rightarrow> nat \<Rightarrow> nat \<Rightarrow> nat \<Rightarrow> int \<Rightarrow> subarr \<Rightarrow> subarr option" where
  "l_loop arr n tleft tright tmax sub =
     (if tright < n then do {
        x \<leftarrow> rd arr tright;
        tmax \<leftarrow> add32 tmax x;
        if tmax > 0
        then l_loop arr n tleft (tright + 1) tmax (if tmax \<ge> smax sub then \<lparr>sleft = Some tleft, sright = Some tright, smax = tmax\<rparr> else sub)
        else l_loop arr n (tright + 1) (tright + 1) 0 sub
      } else Some sub)"
  by pat_completeness auto
termination
  by (relation "measure (\<lambda>(arr, n, tleft, tright, tmax, sub). n - tright)") auto

definition lmaxsubarray :: "int list \<Rightarrow> nat \<Rightarrow> subarr option" where
  "lmaxsubarray arr n = do {
     x \<leftarrow> rd arr 0;
     (sign, sub) \<leftarrow> l_scan arr n 0 \<lparr>sleft = None, sright = None, smax = x\<rparr>;
     if sign = - 1 then Some sub
     else do {
       x \<leftarrow> rd arr 0;
       l_loop arr n 0 0 0 \<lparr>sleft = Some 0, sright = Some 0, smax = x\<rparr>
     }
   }"

text \<open>One turn of the test loop of \<open>main\<close>: whether the three maxima agree.\<close>

definition compare_round :: "int list \<Rightarrow> bool option" where
  "compare_round arr = do {
     dsub \<leftarrow> dmaxsubarray arr (length arr);
     lsub \<leftarrow> lmaxsubarray arr (length arr);
     bsub \<leftarrow> bmaxsubarray arr (length arr);
     Some (smax dsub = smax lsub \<and> smax lsub = smax bsub)
   }"

declare b_inner.simps [simp del] b_outer.simps [simp del] cross_right.simps [simp del] maxsubarr.simps [simp del]
  l_scan.simps [simp del] l_loop.simps [simp del]

section \<open>Segment sums\<close>

lemma add32_eq: "\<bar>x + y\<bar> < 2 ^ 31 \<Longrightarrow> add32 x y = Some (x + y)"
  by (auto simp: add32_def abs_less_iff)

lemma sum_abs_nonneg [simp]: "0 \<le> (\<Sum>x\<leftarrow>xs. \<bar>x :: int\<bar>)"
  by (induction xs) auto

text \<open>\<open>seg_sum a i j\<close> is the sum of \<open>a[i], ..., a[j]\<close>, a difference of prefix sums.\<close>

definition seg_sum :: "int list \<Rightarrow> nat \<Rightarrow> nat \<Rightarrow> int" where
  "seg_sum a i j = sum_list (slice a i (Suc j))"

definition presum :: "int list \<Rightarrow> nat \<Rightarrow> int" where
  "presum a k = sum_list (take k a)"

definition small :: "int list \<Rightarrow> bool" where
  "small a \<longleftrightarrow> (\<Sum>x\<leftarrow>a. \<bar>x\<bar>) < 2 ^ 31 \<and> length a < 2 ^ 30"

lemma presum_0 [simp]: "presum a 0 = 0"
  by (simp add: presum_def)

lemma presum_Suc: "k < length a \<Longrightarrow> presum a (Suc k) = presum a k + a ! k"
  by (simp add: presum_def take_Suc_conv_app_nth)

lemma seg_sum_eq: "i \<le> j \<Longrightarrow> j < length a \<Longrightarrow> seg_sum a i j = presum a (Suc j) - presum a i"
proof -
  assume "i \<le> j" "j < length a"
  then have "take (Suc j) a = take i a @ slice a i (Suc j)"
    by (metis append_take_drop_id le_SucI le_add_diff_inverse slice_def take_add)
  then show ?thesis by (simp add: seg_sum_def presum_def)
qed

lemma presum_bound:
  assumes "small a" "i \<le> j" "j \<le> length a"
  shows "\<bar>presum a j - presum a i\<bar> < 2 ^ 31"
proof -
  have *: "\<bar>presum a j - presum a i\<bar> \<le> (\<Sum>x\<leftarrow>take j a. \<bar>x\<bar>) - (\<Sum>x\<leftarrow>take i a. \<bar>x\<bar>)"
    using assms(2,3)
  proof (induction j)
    case (Suc j)
    then show ?case by (cases "i = Suc j") (auto simp: presum_Suc take_Suc_conv_app_nth)
  qed simp
  have **: "(\<Sum>x\<leftarrow>take j a. \<bar>x\<bar>) \<le> (\<Sum>x\<leftarrow>a. \<bar>x\<bar>)"
    by (subst (2) append_take_drop_id [of j a, symmetric], simp only: map_append sum_list_append) simp
  have "0 \<le> (\<Sum>x\<leftarrow>take i a. \<bar>x\<bar>)" by (rule sum_abs_nonneg)
  then show ?thesis using * ** assms(1) unfolding small_def by linarith
qed

lemma add32_presum:
  assumes "small a" "i \<le> j" "j < length a"
  shows "add32 (presum a j - presum a i) (a ! j) = Some (presum a (Suc j) - presum a i)"
proof -
  have "presum a (Suc j) = presum a j + a ! j" using assms(3) by (rule presum_Suc)
  moreover have "\<bar>presum a (Suc j) - presum a i\<bar> < 2 ^ 31" using presum_bound [OF assms(1), of i "Suc j"] assms(2,3) by simp
  ultimately show ?thesis using add32_eq [of "presum a j - presum a i" "a ! j"] by (simp add: algebra_simps)
qed

text \<open>What a result claims: its bounds, if assigned, enclose a segment with the sum \<open>smax\<close>.\<close>

definition segment_ok :: "int list \<Rightarrow> subarr \<Rightarrow> bool" where
  "segment_ok a s \<longleftrightarrow> (\<exists>l r. sleft s = Some l \<and> sright s = Some r \<and> l \<le> r \<and> r < length a \<and> smax s = presum a (Suc r) - presum a l)"

lemma segment_okI: "l \<le> r \<Longrightarrow> r < length a \<Longrightarrow> m = presum a (Suc r) - presum a l \<Longrightarrow> segment_ok a \<lparr>sleft = Some l, sright = Some r, smax = m\<rparr>"
  by (simp add: segment_ok_def)

section \<open>Brute force\<close>

lemma b_inner_spec:
  assumes "small a" "i \<le> j" "j \<le> length a"
  shows "returns (b_inner a (length a) i j (presum a j - presum a i) sub)
    (\<lambda>s. smax sub \<le> smax s \<and> (\<forall>k. j < k \<and> k \<le> length a \<longrightarrow> presum a k - presum a i \<le> smax s) \<and> (s = sub \<or> segment_ok a s))"
  using assms(2,3)
proof (induction "length a - j" arbitrary: j sub)
  case 0
  then show ?case by (simp add: b_inner.simps)
next
  case (Suc d)
  have j: "j < length a" using Suc by simp
  let ?t = "presum a (Suc j) - presum a i"
  let ?s = "if ?t > smax sub then \<lparr>sleft = Some i, sright = Some j, smax = ?t\<rparr> else sub"
  have ok: "?s = sub \<or> segment_ok a ?s" using Suc.prems j by (simp add: segment_okI)
  have "returns (b_inner a (length a) i (Suc j) ?t ?s)
    (\<lambda>s. smax ?s \<le> smax s \<and> (\<forall>k. Suc j < k \<and> k \<le> length a \<longrightarrow> presum a k - presum a i \<le> smax s) \<and> (s = ?s \<or> segment_ok a s))"
    using Suc j by (intro Suc.hyps) auto
  then have "returns (b_inner a (length a) i (Suc j) ?t ?s)
    (\<lambda>s. smax sub \<le> smax s \<and> (\<forall>k. j < k \<and> k \<le> length a \<longrightarrow> presum a k - presum a i \<le> smax s) \<and> (s = sub \<or> segment_ok a s))"
  proof (rule returns_mono)
    fix s assume *: "smax ?s \<le> smax s \<and> (\<forall>k. Suc j < k \<and> k \<le> length a \<longrightarrow> presum a k - presum a i \<le> smax s) \<and> (s = ?s \<or> segment_ok a s)"
    have "smax sub \<le> smax s" "?t \<le> smax s" using * by (auto split: if_splits)
    moreover have "presum a k - presum a i \<le> smax s" if "j < k" "k \<le> length a" for k
      using that * \<open>?t \<le> smax s\<close> by (cases "k = Suc j") auto
    moreover have "s = sub \<or> segment_ok a s" using * ok by auto
    ultimately show "smax sub \<le> smax s \<and> (\<forall>k. j < k \<and> k \<le> length a \<longrightarrow> presum a k - presum a i \<le> smax s) \<and> (s = sub \<or> segment_ok a s)" by blast
  qed
  then show ?case using j Suc.prems by (subst b_inner.simps) (simp add: add32_presum [OF assms(1)])
qed

lemma b_outer_spec:
  assumes "small a" "i \<le> length a"
  shows "returns (b_outer a (length a) i sub)
    (\<lambda>s. smax sub \<le> smax s \<and> (\<forall>l k. i \<le> l \<and> l < k \<and> k \<le> length a \<longrightarrow> presum a k - presum a l \<le> smax s) \<and> (s = sub \<or> segment_ok a s))"
  using assms(2)
proof (induction "length a - i" arbitrary: i sub)
  case 0
  then show ?case by (simp add: b_outer.simps)
next
  case (Suc d)
  have i: "i < length a" using Suc by simp
  obtain s1 where s1: "b_inner a (length a) i i 0 sub = Some s1" "smax sub \<le> smax s1"
    "\<forall>k. i < k \<and> k \<le> length a \<longrightarrow> presum a k - presum a i \<le> smax s1" "s1 = sub \<or> segment_ok a s1"
    using b_inner_spec [OF assms(1), of i i sub] i by (auto simp: returns_iff)
  have "returns (b_outer a (length a) (Suc i) s1)
    (\<lambda>s. smax s1 \<le> smax s \<and> (\<forall>l k. Suc i \<le> l \<and> l < k \<and> k \<le> length a \<longrightarrow> presum a k - presum a l \<le> smax s) \<and> (s = s1 \<or> segment_ok a s))"
    using Suc i by (intro Suc.hyps) auto
  then have "returns (b_outer a (length a) (Suc i) s1)
    (\<lambda>s. smax sub \<le> smax s \<and> (\<forall>l k. i \<le> l \<and> l < k \<and> k \<le> length a \<longrightarrow> presum a k - presum a l \<le> smax s) \<and> (s = sub \<or> segment_ok a s))"
    by (rule returns_mono) (use s1 in \<open>fastforce simp: le_eq_less_or_eq [of i] Suc_le_eq\<close>)
  then show ?case using i by (subst b_outer.simps) (simp add: s1(1))
qed

section \<open>Divide and conquer\<close>

lemma cross_left_spec:
  assumes "small a" "mid \<le> length a" "i \<le> mid" "l < mid" "m = presum a mid - presum a l"
    "\<forall>k. i \<le> k \<and> k < mid \<longrightarrow> presum a mid - presum a k \<le> m"
  shows "returns (cross_left a i (presum a mid - presum a i) m l)
    (\<lambda>(m', l'). l' < mid \<and> m' = presum a mid - presum a l' \<and> (\<forall>k < mid. presum a mid - presum a k \<le> m'))"
  using assms(3-)
proof (induction i arbitrary: m l)
  case 0
  then show ?case by simp
next
  case (Suc i)
  have i: "i < mid" "i < length a" using Suc.prems assms(2) by auto
  let ?t = "presum a mid - presum a i"
  have "\<bar>?t\<bar> < 2 ^ 31" using presum_bound [OF assms(1), of i mid] i assms(2) by simp
  then have add: "add32 (presum a mid - presum a (Suc i)) (a ! i) = Some ?t"
    using add32_eq [of "presum a mid - presum a (Suc i)" "a ! i"] presum_Suc [OF i(2)] by (simp add: algebra_simps)
  have le: "\<forall>k. i \<le> k \<and> k < mid \<longrightarrow> presum a mid - presum a k \<le> max m ?t"
    using Suc.prems(4) by (auto simp: le_eq_less_or_eq [of i] Suc_le_eq)
  show ?case
  proof (cases "?t > m")
    case True
    then have "returns (cross_left a i ?t ?t i)
      (\<lambda>(m', l'). l' < mid \<and> m' = presum a mid - presum a l' \<and> (\<forall>k < mid. presum a mid - presum a k \<le> m'))"
      using Suc.IH [of i ?t] i le by simp
    then show ?thesis using True i add by simp
  next
    case False
    then have "returns (cross_left a i ?t m l)
      (\<lambda>(m', l'). l' < mid \<and> m' = presum a mid - presum a l' \<and> (\<forall>k < mid. presum a mid - presum a k \<le> m'))"
      using Suc.IH [of l m] Suc.prems i le by simp
    then show ?thesis using False i add by simp
  qed
qed

lemma cross_right_spec:
  assumes "small a" "e \<le> length a" "mid \<le> j" "j \<le> e" "mid \<le> r" "r < e" "m = presum a (Suc r) - presum a mid"
    "\<forall>k. mid < k \<and> k \<le> j \<longrightarrow> presum a k - presum a mid \<le> m"
  shows "returns (cross_right a e j (presum a j - presum a mid) m r)
    (\<lambda>(m', r'). mid \<le> r' \<and> r' < e \<and> m' = presum a (Suc r') - presum a mid \<and> (\<forall>k. mid < k \<and> k \<le> e \<longrightarrow> presum a k - presum a mid \<le> m'))"
  using assms(3-)
proof (induction "e - j" arbitrary: j m r)
  case 0
  then show ?case by (simp add: cross_right.simps)
next
  case (Suc d)
  have j: "j < e" "j < length a" using Suc assms(2) by auto
  let ?t = "presum a (Suc j) - presum a mid"
  have add: "add32 (presum a j - presum a mid) (a ! j) = Some ?t" using add32_presum [OF assms(1)] Suc.prems j by simp
  have le: "\<forall>k. mid < k \<and> k \<le> Suc j \<longrightarrow> presum a k - presum a mid \<le> max m ?t"
    using Suc.prems(6) by (auto simp: le_Suc_eq)
  have "returns (cross_right a e (Suc j) ?t (if ?t > m then ?t else m) (if ?t > m then j else r))
    (\<lambda>(m', r'). mid \<le> r' \<and> r' < e \<and> m' = presum a (Suc r') - presum a mid \<and> (\<forall>k. mid < k \<and> k \<le> e \<longrightarrow> presum a k - presum a mid \<le> m'))"
    using Suc j le by (intro Suc.hyps) (auto simp: max_def split: if_splits)
  then show ?case using j add by (subst cross_right.simps) (simp split: if_splits)
qed

lemma maxcross_spec:
  assumes "small a" "beg < mid" "mid < e" "e \<le> length a"
  shows "returns (maxcross a beg mid e)
    (\<lambda>s. segment_ok a s \<and> (\<forall>l k. l < mid \<and> mid < k \<and> k \<le> e \<longrightarrow> presum a k - presum a l \<le> smax s))"
proof -
  have m: "a ! (mid - 1) = presum a mid - presum a (mid - 1)" "a ! mid = presum a (Suc mid) - presum a mid"
    using presum_Suc [of "mid - 1" a] presum_Suc [of mid a] assms by auto
  obtain ml l where l: "cross_left a mid 0 (a ! (mid - 1)) (mid - 1) = Some (ml, l)" "l < mid" "ml = presum a mid - presum a l"
    "\<forall>k < mid. presum a mid - presum a k \<le> ml"
    using cross_left_spec [OF assms(1), of mid mid "mid - 1"] assms(2-4) m(1) by (auto simp: returns_iff)
  obtain mr r where r: "cross_right a e mid 0 (a ! mid) mid = Some (mr, r)" "mid \<le> r" "r < e" "mr = presum a (Suc r) - presum a mid"
    "\<forall>k. mid < k \<and> k \<le> e \<longrightarrow> presum a k - presum a mid \<le> mr"
    using cross_right_spec [OF assms(1,4), of mid mid mid] assms(2-4) m(2) by (auto simp: returns_iff)
  have "\<bar>presum a (Suc r) - presum a l\<bar> < 2 ^ 31" using presum_bound [OF assms(1), of l "Suc r"] l r assms(4) by simp
  then have add: "add32 mr ml = Some (presum a (Suc r) - presum a l)" using add32_eq [of mr ml] unfolding l(3) r(4) by simp
  have "segment_ok a \<lparr>sleft = Some l, sright = Some r, smax = presum a (Suc r) - presum a l\<rparr>" using l r assms by (simp add: segment_okI)
  moreover have "presum a k - presum a l' \<le> presum a (Suc r) - presum a l" if "l' < mid" "mid < k" "k \<le> e" for l' k
    using that l(3,4) r(4,5) by (smt (verit, best))
  ultimately show ?thesis using assms by (simp add: maxcross_def l(1) [unfolded One_nat_def] r(1) add)
qed

lemma maxsubarr_spec:
  assumes "small a" "beg < e" "e \<le> length a"
  shows "returns (maxsubarr a beg e)
    (\<lambda>s. segment_ok a s \<and> (\<forall>l k. beg \<le> l \<and> l < k \<and> k \<le> e \<longrightarrow> presum a k - presum a l \<le> smax s))"
  using assms(2,3)
proof (induction "e - beg" arbitrary: beg e rule: less_induct)
  case less
  show ?case
  proof (cases "beg + 1 < e")
    case False
    then have e: "e = Suc beg" using less.prems by simp
    then show ?thesis using less.prems presum_Suc [of beg a]
      by (subst maxsubarr.simps) (auto simp: segment_okI le_Suc_eq dest: le_antisym)
  next
    case True
    let ?m = "(beg + e) div 2"
    have m: "beg < ?m" "?m < e" using True by auto
    have ov: "\<not> 2 ^ 31 \<le> beg + e" using less.prems assms(1) by (simp add: small_def)
    obtain l where l: "maxsubarr a beg ?m = Some l" "segment_ok a l" "\<forall>i k. beg \<le> i \<and> i < k \<and> k \<le> ?m \<longrightarrow> presum a k - presum a i \<le> smax l"
      using less.hyps [of ?m beg] less.prems m by (fastforce simp: returns_iff)
    obtain r where r: "maxsubarr a ?m e = Some r" "segment_ok a r" "\<forall>i k. ?m \<le> i \<and> i < k \<and> k \<le> e \<longrightarrow> presum a k - presum a i \<le> smax r"
      using less.hyps [of e ?m] less.prems m by (fastforce simp: returns_iff)
    obtain c where c: "maxcross a beg ?m e = Some c" "segment_ok a c" "\<forall>i k. i < ?m \<and> ?m < k \<and> k \<le> e \<longrightarrow> presum a k - presum a i \<le> smax c"
      using maxcross_spec [OF assms(1) m less.prems(2)] by (auto simp: returns_iff)
    have ub: "smax l \<le> smax (max_of l r c)" "smax r \<le> smax (max_of l r c)" "smax c \<le> smax (max_of l r c)" "segment_ok a (max_of l r c)"
      using l(2) r(2) c(2) by (auto simp: max_of_def Let_def)
    have "presum a k - presum a i \<le> smax (max_of l r c)" if "beg \<le> i" "i < k" "k \<le> e" for i k
    proof -
      consider "k \<le> ?m" | "?m \<le> i" | "i < ?m" "?m < k" by linarith
      then show ?thesis using that l(3) r(3) c(3) ub by cases (meson order_trans)+
    qed
    then show ?thesis using True ov ub(4) by (subst maxsubarr.simps) (simp add: l(1) r(1) c(1) Let_def)
  qed
qed

section \<open>Linear time\<close>

lemma l_scan_spec:
  assumes "i \<le> length a" "\<forall>k < i. a ! k \<le> 0 \<and> a ! k \<le> smax sub"
    "(i = 0 \<and> smax sub = a ! 0) \<or> (\<exists>l < length a. sub = \<lparr>sleft = Some l, sright = Some l, smax = a ! l\<rparr>)"
  shows "returns (l_scan a (length a) i sub) (\<lambda>(sign, s).
    if sign = - 1 then a = [] \<or> (\<exists>l < length a. s = \<lparr>sleft = Some l, sright = Some l, smax = a ! l\<rparr>) \<and> (\<forall>k < length a. a ! k \<le> 0 \<and> a ! k \<le> smax s)
    else \<exists>k < length a. a ! k > 0)"
  using assms
proof (induction "length a - i" arbitrary: i sub)
  case 0
  then show ?case by (auto simp: l_scan.simps)
next
  case (Suc d)
  have i: "i < length a" using Suc by simp
  show ?case
  proof (cases "a ! i > 0")
    case True
    then show ?thesis using i by (subst l_scan.simps) auto
  next
    case False
    let ?s = "if a ! i \<ge> smax sub then \<lparr>sleft = Some i, sright = Some i, smax = a ! i\<rparr> else sub"
    have "\<forall>k < Suc i. a ! k \<le> 0 \<and> a ! k \<le> smax ?s" using Suc.prems(2) False by (auto simp: less_Suc_eq intro: order_trans)
    moreover have "\<exists>l < length a. ?s = \<lparr>sleft = Some l, sright = Some l, smax = a ! l\<rparr>" using Suc.prems(3) i by auto
    ultimately show ?thesis using Suc.hyps(1) [of "Suc i" ?s] Suc.hyps(2) i False by (subst l_scan.simps) simp
  qed
qed

lemma l_loop_spec:
  assumes "small a" "l \<le> j" "j \<le> length a" "\<forall>k \<le> j. presum a l \<le> presum a k" "segment_ok a sub"
    "\<forall>i k. i < k \<and> k \<le> j \<longrightarrow> presum a k - presum a i \<le> max 0 (smax sub)"
  shows "returns (l_loop a (length a) l j (presum a j - presum a l) sub)
    (\<lambda>s. segment_ok a s \<and> (\<forall>i k. i < k \<and> k \<le> length a \<longrightarrow> presum a k - presum a i \<le> max 0 (smax s)))"
  using assms(2-)
proof (induction "length a - j" arbitrary: l j sub)
  case 0
  then show ?case by (simp add: l_loop.simps)
next
  case (Suc d)
  have j: "j < length a" using Suc by simp
  let ?t = "presum a (Suc j) - presum a l"
  have add: "add32 (presum a j - presum a l) (a ! j) = Some ?t" using add32_presum [OF assms(1)] Suc.prems j by simp
  have new: "presum a (Suc j) - presum a i \<le> ?t" if "i \<le> j" for i using Suc.prems(3) that by simp
  show ?case
  proof (cases "?t > 0")
    case True
    let ?s = "if ?t \<ge> smax sub then \<lparr>sleft = Some l, sright = Some j, smax = ?t\<rparr> else sub"
    have "presum a k - presum a i \<le> max 0 (smax ?s)" if "i < k" "k \<le> Suc j" for i k
    proof (cases "k = Suc j")
      case True
      then show ?thesis using new [of i] that by (auto simp: max_def split: if_splits)
    next
      case False
      then show ?thesis using Suc.prems(5) that by (fastforce simp: max_def split: if_splits)
    qed
    moreover have "segment_ok a ?s" using Suc.prems(1,4) j by (simp add: segment_okI)
    moreover have "\<forall>k \<le> Suc j. presum a l \<le> presum a k" using Suc.prems(3) True by (auto simp: le_Suc_eq)
    ultimately show ?thesis using Suc.hyps(1) [of "Suc j" l ?s] Suc.hyps(2) Suc.prems(1) j True add by (subst l_loop.simps) simp
  next
    case False
    have "\<forall>k \<le> Suc j. presum a (Suc j) \<le> presum a k" using Suc.prems(3) False by (fastforce simp: le_Suc_eq)
    moreover have "\<forall>i k. i < k \<and> k \<le> Suc j \<longrightarrow> presum a k - presum a i \<le> max 0 (smax sub)"
      using Suc.prems(5) new False by (fastforce simp: le_Suc_eq less_Suc_eq_le)
    ultimately show ?thesis using Suc.hyps(1) [of "Suc j" "Suc j" sub] Suc.hyps(2) Suc.prems(4) j False add by (subst l_loop.simps) simp
  qed
qed

section \<open>The three algorithms agree\<close>

lemma presum_nonpos: "\<forall>k < length a. a ! k \<le> 0 \<Longrightarrow> i \<le> k \<Longrightarrow> k \<le> length a \<Longrightarrow> presum a k \<le> presum a i"
proof (induction k)
  case (Suc k)
  have "a ! k \<le> 0" "presum a (Suc k) = presum a k + a ! k" using Suc.prems by (auto simp: presum_Suc)
  moreover have "presum a k \<le> presum a i" if "i \<noteq> Suc k" using that Suc by simp
  ultimately show ?case by (cases "i = Suc k") auto
qed simp

lemma bmaxsubarray_spec:
  assumes "small a" "a \<noteq> []"
  shows "returns (bmaxsubarray a (length a)) (\<lambda>s. (segment_ok a s \<or> sleft s = None \<and> sright s = None \<and> smax s = a ! 0) \<and>
    (\<forall>i k. i < k \<and> k \<le> length a \<longrightarrow> presum a k - presum a i \<le> smax s))"
proof -
  have "returns (b_outer a (length a) 0 \<lparr>sleft = None, sright = None, smax = a ! 0\<rparr>) (\<lambda>s. (segment_ok a s \<or> sleft s = None \<and> sright s = None \<and> smax s = a ! 0) \<and>
    (\<forall>i k. i < k \<and> k \<le> length a \<longrightarrow> presum a k - presum a i \<le> smax s))"
    by (rule returns_mono [OF b_outer_spec [OF assms(1)]]) auto
  then show ?thesis using assms(2) by (simp add: bmaxsubarray_def)
qed

lemma lmaxsubarray_spec:
  assumes "small a" "a \<noteq> []"
  shows "returns (lmaxsubarray a (length a)) (\<lambda>s. segment_ok a s \<and> (\<forall>i k. i < k \<and> k \<le> length a \<longrightarrow> presum a k - presum a i \<le> smax s))"
proof -
  have ne: "0 < length a" using assms(2) by simp
  obtain sign s where s: "l_scan a (length a) 0 \<lparr>sleft = None, sright = None, smax = a ! 0\<rparr> = Some (sign, s)"
    "if sign = - 1 then a = [] \<or> (\<exists>l < length a. s = \<lparr>sleft = Some l, sright = Some l, smax = a ! l\<rparr>) \<and> (\<forall>k < length a. a ! k \<le> 0 \<and> a ! k \<le> smax s)
     else \<exists>k < length a. a ! k > 0"
    using l_scan_spec [of 0 a "\<lparr>sleft = None, sright = None, smax = a ! 0\<rparr>"] by (auto simp: returns_iff)
  show ?thesis
  proof (cases "sign = - 1")
    case True
    then obtain l where l: "l < length a" "s = \<lparr>sleft = Some l, sright = Some l, smax = a ! l\<rparr>" "\<forall>k < length a. a ! k \<le> 0 \<and> a ! k \<le> a ! l"
      using s(2) assms(2) by auto
    have "presum a k - presum a i \<le> a ! l" if "i < k" "k \<le> length a" for i k
    proof -
      have "presum a k \<le> presum a (Suc i)" using that l(3) by (intro presum_nonpos) auto
      moreover have "a ! i \<le> a ! l" using that l(3) by simp
      ultimately show ?thesis using presum_Suc [of i a] that by simp
    qed
    moreover have "segment_ok a s" using l presum_Suc [of l a] by (simp add: segment_okI)
    ultimately show ?thesis using True s(1) ne l(2) by (simp add: lmaxsubarray_def)
  next
    case False
    then obtain p where p: "p < length a" "a ! p > 0" using s(2) by auto
    have "segment_ok a \<lparr>sleft = Some 0, sright = Some 0, smax = a ! 0\<rparr>" using ne presum_Suc [of 0 a] by (simp add: segment_okI)
    then obtain t where t: "l_loop a (length a) 0 0 0 \<lparr>sleft = Some 0, sright = Some 0, smax = a ! 0\<rparr> = Some t" "segment_ok a t"
      "\<forall>i k. i < k \<and> k \<le> length a \<longrightarrow> presum a k - presum a i \<le> max 0 (smax t)"
      using l_loop_spec [OF assms(1), of 0 0 "\<lparr>sleft = Some 0, sright = Some 0, smax = a ! 0\<rparr>"] by (auto simp: returns_iff)
    have "presum a (Suc p) - presum a p \<le> max 0 (smax t)" using t(3) p(1) Suc_le_eq by blast
    then have "max 0 (smax t) = smax t" using p presum_Suc [of p a] by simp
    then show ?thesis using False s(1) ne t by (simp add: lmaxsubarray_def)
  qed
qed

text \<open>The bounds of a result enclose a segment whose sum is its maximum.\<close>

definition delimits :: "subarr \<Rightarrow> int list \<Rightarrow> bool" where
  "delimits s a \<longleftrightarrow> (case (sleft s, sright s) of
     (Some l, Some r) \<Rightarrow> l \<le> r \<and> r < length a \<and> seg_sum a l r = smax s | _ \<Rightarrow> False)"

lemma segment_ok_delimits: "segment_ok a s \<Longrightarrow> delimits s a"
  by (auto simp: segment_ok_def delimits_def seg_sum_eq)

lemma delimits_le:
  assumes "delimits s a" "\<forall>i k. i < k \<and> k \<le> length a \<longrightarrow> presum a k - presum a i \<le> m"
  shows "smax s \<le> m"
proof -
  obtain l r where "l \<le> r" "r < length a" "smax s = presum a (Suc r) - presum a l"
    using assms(1) by (auto simp: delimits_def seg_sum_eq split: option.splits)
  then show ?thesis using assms(2) by simp
qed

text \<open>C29: for every nonempty array of fewer than \<open>2\<^sup>3\<^sup>0\<close> elements whose absolute values sum up to less than \<open>2\<^sup>3\<^sup>1\<close>, the
  divide-and-conquer, the linear and the brute-force algorithm all return, without overflow or access outside of the
  array, the maximum of the sums of nonempty segments; the first two also return the bounds of such a segment, the third does
  unless it returns \<open>arr[0]\<close> with unassigned bounds. So the comparison in \<open>main\<close> never fails.\<close>

theorem maxsubarray_agree:
  assumes "(\<Sum>x\<leftarrow>a. \<bar>x\<bar>) < 2 ^ 31" "length a < 2 ^ 30" "a \<noteq> []"
  shows "\<exists>d l b. dmaxsubarray a (length a) = Some d \<and> lmaxsubarray a (length a) = Some l \<and> bmaxsubarray a (length a) = Some b \<and>
    compare_round a = Some True \<and> delimits d a \<and> delimits l a \<and>
    (delimits b a \<or> sleft b = None \<and> sright b = None \<and> smax b = a ! 0) \<and>
    (\<forall>i j. i \<le> j \<and> j < length a \<longrightarrow> seg_sum a i j \<le> smax d)"
proof -
  have sm: "small a" and ne: "0 < length a" using assms by (auto simp: small_def)
  obtain d where d: "dmaxsubarray a (length a) = Some d" "delimits d a" "\<forall>i k. i < k \<and> k \<le> length a \<longrightarrow> presum a k - presum a i \<le> smax d"
    using maxsubarr_spec [OF sm ne order_refl] segment_ok_delimits by (auto simp: dmaxsubarray_def returns_iff)
  obtain l where l: "lmaxsubarray a (length a) = Some l" "delimits l a" "\<forall>i k. i < k \<and> k \<le> length a \<longrightarrow> presum a k - presum a i \<le> smax l"
    using lmaxsubarray_spec [OF sm assms(3)] segment_ok_delimits by (auto simp: returns_iff)
  obtain b where b: "bmaxsubarray a (length a) = Some b" "delimits b a \<or> sleft b = None \<and> sright b = None \<and> smax b = a ! 0"
    "\<forall>i k. i < k \<and> k \<le> length a \<longrightarrow> presum a k - presum a i \<le> smax b"
    using bmaxsubarray_spec [OF sm assms(3)] segment_ok_delimits by (auto simp: returns_iff)
  have a0: "a ! 0 \<le> smax d" using d(3) [rule_format, of 0 1] ne presum_Suc [of 0 a] by simp
  have "smax b \<le> smax d" using b(2) delimits_le [OF _ d(3)] a0 by auto
  moreover have "smax d \<le> smax b" "smax d \<le> smax l" "smax l \<le> smax d" using d l b delimits_le by blast+
  ultimately have "compare_round a = Some True" using d(1) l(1) b(1) by (simp add: compare_round_def)
  moreover have "seg_sum a i j \<le> smax d" if "i \<le> j" "j < length a" for i j
    using d(3) [rule_format, of i "Suc j"] that by (simp add: seg_sum_eq)
  ultimately show ?thesis using d(1,2) l(1,2) b(1,2) by blast
qed

theorem maxsubarray_agree_witness:
  "\<exists>d. dmaxsubarray [3, -4, 5, -1, 2, -7] 6 = Some d \<and> compare_round [3, -4, 5, -1, 2, -7] = Some True \<and> 6 \<le> smax d"
proof -
  let ?a = "[3, -4, 5, -1, 2, -7] :: int list"
  have len: "length ?a = 6" by simp
  obtain d where "dmaxsubarray ?a 6 = Some d" "compare_round ?a = Some True" "\<forall>i j. i \<le> j \<and> j < 6 \<longrightarrow> seg_sum ?a i j \<le> smax d"
    using maxsubarray_agree [of ?a, unfolded len] by fastforce
  moreover from this(3) have "seg_sum ?a 2 4 \<le> smax d" by simp
  ultimately show ?thesis by (simp add: seg_sum_def slice_def)
qed

end
