(* ===== verification/Mem_Stream.thy ===== *)
theory Mem_Stream
  imports C_Library
begin

text \<open>
  Memory streams, \<open>src/apue/apue.3e/exercises/fmemopen.c\<close>: an implementation of \<open>fmemopen\<close> by the four
  callbacks of \<open>funopen\<close>. A stream keeps the size \<open>rsize\<close> of its buffer, the size \<open>vsize\<close> of the contents and the
  position \<open>curpos\<close>. The memory behind \<open>buf\<close> is a list of bytes; an access outside of it is \<^const>\<open>None\<close>. Sizes of
  type \<open>size_t\<close> are natural numbers, and their conversions to \<open>int\<close> wrap around. The callbacks return the
  error number or the result. The theory proves that a stream behaves as a bounded file, and shows in which respect write-only streams do
  not.
\<close>

unbundle bit_operations_syntax

section \<open>The code\<close>

record memstream =
  buf :: string
  rsize :: nat
  vsize :: nat
  curpos :: nat
  flags :: "32 word"

definition MS_READ :: "32 word" where "MS_READ = 0x01"
definition MS_WRITE :: "32 word" where "MS_WRITE = 0x02"
definition MS_APPEND :: "32 word" where "MS_APPEND = 0x04"
definition MS_TRUNCATE :: "32 word" where "MS_TRUNCATE = 0x08"
definition MS_MYBUF :: "32 word" where "MS_MYBUF = 0x10"
definition EBADF :: int where "EBADF = 9"
definition ENOMEM :: int where "ENOMEM = 12"

text \<open>The loop of \<open>type_to_flags\<close>.\<close>

fun type_loop :: "string \<Rightarrow> 32 word \<Rightarrow> 32 word" where
  "type_loop [] fl = fl"
| "type_loop (c # cs) fl =
     (if c = CHR ''r'' then if fl \<noteq> 0 then 0 else type_loop cs (fl OR MS_READ)
      else if c = CHR ''w'' then if fl \<noteq> 0 then 0 else type_loop cs (fl OR (MS_WRITE OR MS_TRUNCATE))
      else if c = CHR ''a'' then if fl \<noteq> 0 then 0 else type_loop cs (fl OR MS_APPEND)
      else if c = CHR ''+'' then if fl = 0 then 0 else type_loop cs (fl OR (MS_READ OR MS_WRITE))
      else if c = CHR ''b'' then if fl = 0 then 0 else type_loop cs fl
      else 0)"

definition type_to_flags :: "string \<Rightarrow> 32 word" where
  "type_to_flags type = type_loop type 0"

function find_end :: "string \<Rightarrow> nat \<Rightarrow> nat \<Rightarrow> nat option" where
  "find_end b len off =
     (if off < len then do { c \<leftarrow> rd b off; if c = NUL then Some off else find_end b len (off + 1) } else Some off)"
  by pat_completeness auto
termination
  by (relation "measure (\<lambda>(b, len, off). len - off)") auto

declare find_end.simps [simp del]

text \<open>\<open>fmemopen\<close>. The arguments \<open>ms_ok\<close>, \<open>mem\<close> and \<open>fun_err\<close> are the results of the two calls of \<open>malloc\<close> (\<open>mem\<close> is the new
  memory, if any) and of \<open>funopen\<close> (its error number if it fails). The argument \<open>b\<close> is the caller's buffer, \<^const>\<open>None\<close>
  for a null pointer. The result is an error number or the stream.\<close>

definition fmemopen :: "bool \<Rightarrow> string option \<Rightarrow> int option \<Rightarrow> string option \<Rightarrow> nat \<Rightarrow> string \<Rightarrow> (int + memstream) option" where
  "fmemopen ms_ok mem fun_err b sz type =
     (if sz = 0 then Some (Inl EINVAL)
      else if \<not> ms_ok then Some (Inl ENOMEM)
      else let fl = type_to_flags type in
      if fl = 0 then Some (Inl EINVAL)
      else do {
        r \<leftarrow> (case b of
            None \<Rightarrow>
              if fl AND (MS_READ OR MS_WRITE) \<noteq> MS_READ OR MS_WRITE then Some (Inl EINVAL)
              else (case mem of None \<Rightarrow> Some (Inl ENOMEM)
                | Some m \<Rightarrow> Some (Inr (m, fl OR MS_MYBUF, 0)))
          | Some b \<Rightarrow>
              if fl AND MS_APPEND \<noteq> 0 then do { p \<leftarrow> find_end b sz 0; Some (Inr (b, fl, p)) }
              else Some (Inr (b, fl, 0)));
        case r of Inl e \<Rightarrow> Some (Inl e)
        | Inr (m, fl, pos) \<Rightarrow>
            let v = (if fl AND MS_APPEND \<noteq> 0 then pos else if fl AND MS_TRUNCATE \<noteq> 0 then 0 else sz) in
            (case fun_err of Some e \<Rightarrow> Some (Inl e)
             | None \<Rightarrow> Some (Inr \<lparr>buf = m, rsize = sz, vsize = v, curpos = pos, flags = fl\<rparr>))
      })"

definition mstream_read :: "memstream \<Rightarrow> nat \<Rightarrow> ((int + string) \<times> memstream) option" where
  "mstream_read ms len =
     (if flags ms AND MS_READ = 0 then Some (Inl EBADF, ms)
      else if curpos ms \<ge> vsize ms then Some (Inr [], ms)
      else let nr = min len (vsize ms - curpos ms) in
        if curpos ms + nr > length (buf ms) then None
        else Some (Inr (take nr (drop (curpos ms) (buf ms))), ms\<lparr>curpos := curpos ms + nr\<rparr>))"

text \<open>\<open>mstream_write\<close>: \<open>off\<close> is an \<open>int\<close>; \<open>rsize - off\<close> is computed in 64 bits without sign.\<close>

definition mstream_write :: "memstream \<Rightarrow> string \<Rightarrow> ((int + nat) \<times> memstream) option" where
  "mstream_write ms b =
     (if flags ms AND (MS_APPEND OR MS_WRITE) = 0 then Some (Inl EBADF, ms)
      else do {
        let off = int32 (int (if flags ms AND MS_APPEND \<noteq> 0 then vsize ms else curpos ms));
        let nw = min (length b) (nat ((int (rsize ms) - off) mod 2 ^ 64));
        if off < 0 then None
        else do {
          m \<leftarrow> put_at (buf ms) (nat off) (take nw b);
          let ms = ms\<lparr>buf := m, curpos := nat off + nw\<rparr>;
          ms \<leftarrow> (if curpos ms > vsize ms then do {
                  let ms = ms\<lparr>vsize := curpos ms\<rparr>;
                  if flags ms AND (MS_READ OR MS_WRITE) = MS_READ OR MS_WRITE \<and> vsize ms < rsize ms
                  then do { m \<leftarrow> wr (buf ms) (vsize ms) NUL; Some (ms\<lparr>buf := m\<rparr>) }
                  else Some ms
                } else Some ms);
          ms \<leftarrow> (if flags ms AND (MS_WRITE OR MS_APPEND) \<noteq> 0 \<and> flags ms AND MS_READ = 0 then do {
                  m \<leftarrow> wr (buf ms) (if curpos ms < rsize ms then curpos ms else rsize ms - 1) NUL;
                  Some (ms\<lparr>buf := m\<rparr>)
                } else Some ms);
          Some (Inr nw, ms)
        }
      })"

definition mstream_seek :: "memstream \<Rightarrow> int \<Rightarrow> whence \<Rightarrow> (int + int) \<times> memstream" where
  "mstream_seek ms pos whence =
     (let off = int32 (case whence of SEEK_SET \<Rightarrow> pos | SEEK_END \<Rightarrow> int (vsize ms) + pos | SEEK_CUR \<Rightarrow> int (curpos ms) + pos)
      in if off < 0 \<or> off > int (vsize ms) then (Inl EINVAL, ms) else (Inr off, ms\<lparr>curpos := nat off\<rparr>))"

text \<open>\<open>mstream_close\<close> frees the stream, and the buffer if it is its own (the second component); it returns 0.\<close>

definition mstream_close :: "memstream \<Rightarrow> int \<times> bool" where
  "mstream_close ms = (0, flags ms AND MS_MYBUF \<noteq> 0)"

lemmas ms_defs = MS_READ_def MS_WRITE_def MS_APPEND_def MS_TRUNCATE_def MS_MYBUF_def

section \<open>The modes\<close>

text \<open>The strings that \<open>type_to_flags\<close> accepts, and the flags they stand for.\<close>

definition mode_ok :: "string \<Rightarrow> bool" where
  "mode_ok t \<longleftrightarrow> t \<noteq> [] \<and> hd t \<in> {CHR ''r'', CHR ''w'', CHR ''a''} \<and> set (tl t) \<subseteq> {CHR ''+'', CHR ''b''}"

definition mode_flags :: "string \<Rightarrow> 32 word" where
  "mode_flags t =
     (if hd t = CHR ''r'' then MS_READ else if hd t = CHR ''w'' then MS_WRITE OR MS_TRUNCATE else MS_APPEND) OR
     (if CHR ''+'' \<in> set t then MS_READ OR MS_WRITE else 0)"

lemma type_loop_tail:
  assumes "fl \<noteq> 0"
  shows "type_loop t fl = (if set t \<subseteq> {CHR ''+'', CHR ''b''} then fl OR (if CHR ''+'' \<in> set t then MS_READ OR MS_WRITE else 0) else 0)"
  using assms
proof (induction t arbitrary: fl)
  case (Cons c t)
  have nz: "fl OR (MS_READ OR MS_WRITE) \<noteq> 0" using Cons.prems by (simp add: or_eq_0_iff)
  show ?case using Cons.prems nz by (auto simp: Cons.IH or.assoc or.left_commute or.commute)
qed simp

lemma type_to_flags_eq: "type_to_flags t = (if mode_ok t then mode_flags t else 0)"
proof (cases t)
  case Nil
  then show ?thesis by (simp add: type_to_flags_def mode_ok_def)
next
  case (Cons c cs)
  have "MS_READ \<noteq> 0" "MS_WRITE OR MS_TRUNCATE \<noteq> 0" "MS_APPEND \<noteq> 0" by (simp_all add: ms_defs)
  then show ?thesis using Cons by (auto simp: type_to_flags_def mode_ok_def mode_flags_def type_loop_tail)
qed

lemma mode_bits:
  assumes "mode_ok t"
  shows "mode_flags t \<noteq> 0"
    "mode_flags t AND MS_READ = 0 \<longleftrightarrow> hd t \<noteq> CHR ''r'' \<and> CHR ''+'' \<notin> set t"
    "mode_flags t AND (MS_APPEND OR MS_WRITE) = 0 \<longleftrightarrow> hd t = CHR ''r'' \<and> CHR ''+'' \<notin> set t"
    "mode_flags t AND MS_APPEND = 0 \<longleftrightarrow> hd t \<noteq> CHR ''a''"
    "mode_flags t AND MS_TRUNCATE = 0 \<longleftrightarrow> hd t \<noteq> CHR ''w''"
    "mode_flags t AND (MS_READ OR MS_WRITE) = MS_READ OR MS_WRITE \<longleftrightarrow> CHR ''+'' \<in> set t"
  using assms by (auto simp: mode_ok_def mode_flags_def ms_defs)

lemma mybuf_bits:
  "(fl OR MS_MYBUF) AND MS_READ = fl AND MS_READ" "(fl OR MS_MYBUF) AND (MS_APPEND OR MS_WRITE) = fl AND (MS_APPEND OR MS_WRITE)"
  "(fl OR MS_MYBUF) AND MS_APPEND = fl AND MS_APPEND" "(fl OR MS_MYBUF) AND MS_TRUNCATE = fl AND MS_TRUNCATE"
  "(fl OR MS_MYBUF) AND (MS_READ OR MS_WRITE) = fl AND (MS_READ OR MS_WRITE)" "(fl OR MS_MYBUF) AND MS_MYBUF \<noteq> 0"
  by (simp_all add: ms_defs bit.conj_disj_distrib2 word_ao_absorbs)

lemma find_end_eq: "n \<le> length b \<Longrightarrow> i \<le> n \<Longrightarrow> find_end b n i = Some (i + length (takeWhile (\<lambda>c. c \<noteq> NUL) (Prelude.slice b i n)))"
proof (induction "n - i" arbitrary: i)
  case 0
  then show ?case by (simp add: find_end.simps)
next
  case (Suc d)
  then show ?case by (subst find_end.simps) (auto simp: slice_Cons)
qed

section \<open>The bounded file\<close>

text \<open>What a stream promises: contents of at most \<open>acap\<close> bytes, a position in them, and the permissions.\<close>

record afile =
  adata :: string
  apos :: nat
  acap :: nat
  can_read :: bool
  can_write :: bool
  appends :: bool

datatype mop = Read nat | Write string | Seek int whence

datatype mres = Failed int | Bytes string | Count nat | Offset int

fun file_do :: "mop \<Rightarrow> afile \<Rightarrow> mres \<times> afile" where
  "file_do (Read n) f =
     (if \<not> can_read f then (Failed EBADF, f)
      else let s = take n (drop (apos f) (adata f)) in (Bytes s, f\<lparr>apos := apos f + length s\<rparr>))"
| "file_do (Write s) f =
     (if \<not> can_write f then (Failed EBADF, f)
      else let off = (if appends f then length (adata f) else apos f);
               s = take (acap f - off) s
           in (Count (length s), f\<lparr>adata := overwrite (adata f) off s, apos := off + length s\<rparr>))"
| "file_do (Seek pos whence) f =
     (let off = (case whence of SEEK_SET \<Rightarrow> pos | SEEK_END \<Rightarrow> int (length (adata f)) + pos | SEEK_CUR \<Rightarrow> int (apos f) + pos)
      in if off < 0 \<or> off > int (length (adata f)) then (Failed EINVAL, f) else (Offset off, f\<lparr>apos := nat off\<rparr>))"

fun file_run :: "mop list \<Rightarrow> afile \<Rightarrow> mres list \<times> afile" where
  "file_run [] f = ([], f)"
| "file_run (p # ps) f = (case file_do p f of (r, f) \<Rightarrow> case file_run ps f of (rs, f) \<Rightarrow> (r # rs, f))"

text \<open>The same operations by the callbacks.\<close>

fun ms_do :: "mop \<Rightarrow> memstream \<Rightarrow> (mres \<times> memstream) option" where
  "ms_do (Read n) ms = do { (r, ms) \<leftarrow> mstream_read ms n; Some (case r of Inl e \<Rightarrow> Failed e | Inr s \<Rightarrow> Bytes s, ms) }"
| "ms_do (Write s) ms = do { (r, ms) \<leftarrow> mstream_write ms s; Some (case r of Inl e \<Rightarrow> Failed e | Inr n \<Rightarrow> Count n, ms) }"
| "ms_do (Seek pos whence) ms = (case mstream_seek ms pos whence of (r, ms) \<Rightarrow> Some (case r of Inl e \<Rightarrow> Failed e | Inr n \<Rightarrow> Offset n, ms))"

text \<open>A sequence of operations, for any implementation of the single ones.\<close>

fun run_ops :: "(mop \<Rightarrow> 's \<Rightarrow> (mres \<times> 's) option) \<Rightarrow> mop list \<Rightarrow> 's \<Rightarrow> (mres list \<times> 's) option" where
  "run_ops ex [] s = Some ([], s)"
| "run_ops ex (p # ps) s = do { (r, s) \<leftarrow> ex p s; (rs, s) \<leftarrow> run_ops ex ps s; Some (r # rs, s) }"

locale bounded_file =
  fixes rep :: "'s \<Rightarrow> afile \<Rightarrow> bool" and ex :: "mop \<Rightarrow> 's \<Rightarrow> (mres \<times> 's) option" and valid :: "mop \<Rightarrow> bool"
  assumes simulates: "rep s f \<Longrightarrow> valid p \<Longrightarrow> \<exists>s'. ex p s = Some (fst (file_do p f), s') \<and> rep s' (snd (file_do p f))"
begin

lemma run_refines:
  "rep s f \<Longrightarrow> list_all valid ps \<Longrightarrow> \<exists>s'. run_ops ex ps s = Some (fst (file_run ps f), s') \<and> rep s' (snd (file_run ps f))"
proof (induction ps arbitrary: s f)
  case (Cons p ps)
  obtain s1 where s1: "ex p s = Some (fst (file_do p f), s1)" "rep s1 (snd (file_do p f))" using simulates Cons.prems by fastforce
  then obtain s2 where "run_ops ex ps s1 = Some (fst (file_run ps (snd (file_do p f))), s2)" "rep s2 (snd (file_run ps (snd (file_do p f))))"
    using Cons by fastforce
  then show ?case using s1 by (simp add: case_prod_beta)
qed simp

end

text \<open>The sizes fit into an \<open>int\<close>, the contents are the first \<open>vsize\<close> bytes of the buffer (except for write-only streams), and
  the flags are the permissions.\<close>

definition ms_rep :: "memstream \<Rightarrow> afile \<Rightarrow> bool" where
  "ms_rep ms f \<longleftrightarrow>
     curpos ms \<le> vsize ms \<and> vsize ms \<le> rsize ms \<and> 0 < rsize ms \<and> rsize ms \<le> length (buf ms) \<and> rsize ms < 2 ^ 31 \<and>
     length (adata f) = vsize ms \<and> apos f = curpos ms \<and> acap f = rsize ms \<and>
     can_read f = (flags ms AND MS_READ \<noteq> 0) \<and> can_write f = (flags ms AND (MS_APPEND OR MS_WRITE) \<noteq> 0) \<and>
     appends f = (flags ms AND MS_APPEND \<noteq> 0) \<and>
     (can_read f \<or> \<not> can_write f \<longrightarrow> adata f = take (vsize ms) (buf ms))"

fun valid_op :: "mop \<Rightarrow> bool" where
  "valid_op (Read n) = (n < 2 ^ 31)"
| "valid_op (Write s) = (length s < 2 ^ 31)"
| "valid_op (Seek pos whence) = (- (2 ^ 31) \<le> pos \<and> pos < 2 ^ 31)"

section \<open>The callbacks refine the bounded file\<close>

lemma int_size: "n < 2 ^ 31 \<Longrightarrow> int32 (int n) = int n"
  by (intro int32_id) auto

text \<open>A sum of two numbers below \<open>2\<^sup>3\<^sup>1\<close> that overflows becomes negative, so that \<open>mstream_seek\<close> rejects it all the same.\<close>

lemma int32_sum:
  assumes "0 \<le> v" "v < 2 ^ 31" "- (2 ^ 31) \<le> pos" "pos < 2 ^ 31" "v \<le> m" "m < 2 ^ 31"
  shows "int32 (v + pos) < 0 \<or> int32 (v + pos) > m \<longleftrightarrow> v + pos < 0 \<or> v + pos > m"
    "0 \<le> v + pos \<Longrightarrow> v + pos \<le> m \<Longrightarrow> int32 (v + pos) = v + pos"
proof -
  show "0 \<le> v + pos \<Longrightarrow> v + pos \<le> m \<Longrightarrow> int32 (v + pos) = v + pos" using assms by (intro int32_id) auto
  show "int32 (v + pos) < 0 \<or> int32 (v + pos) > m \<longleftrightarrow> v + pos < 0 \<or> v + pos > m"
  proof (cases "v + pos < 2 ^ 31")
    case True
    then show ?thesis using int32_id [of "v + pos"] assms by simp
  next
    case False
    have "(v + pos + 2 ^ 31) mod 2 ^ 32 = (v + pos - 2 ^ 31) mod 2 ^ 32"
      using mod_add_self2 [of "v + pos - 2 ^ 31" "2 ^ 32"] by (simp add: ac_simps)
    also have "\<dots> = v + pos - 2 ^ 31" using False assms by (intro mod_pos_pos_trivial) auto
    finally have "int32 (v + pos) = v + pos - 2 ^ 32" by (simp add: int32_def)
    then show ?thesis using False assms by auto
  qed
qed

lemma seek_simulates:
  assumes "ms_rep ms f" "valid_op (Seek pos w)"
  shows "\<exists>ms'. ms_do (Seek pos w) ms = Some (fst (file_do (Seek pos w) f), ms') \<and> ms_rep ms' (snd (file_do (Seek pos w) f))"
proof -
  define v where "v = (case w of SEEK_SET \<Rightarrow> 0 | SEEK_END \<Rightarrow> int (vsize ms) | SEEK_CUR \<Rightarrow> int (curpos ms))"
  have v: "0 \<le> v" "v \<le> int (vsize ms)" "int (vsize ms) < 2 ^ 31" using assms(1) by (auto simp: v_def ms_rep_def split: whence.splits)
  have o: "(case w of SEEK_SET \<Rightarrow> pos | SEEK_END \<Rightarrow> int (vsize ms) + pos | SEEK_CUR \<Rightarrow> int (curpos ms) + pos) = v + pos"
    "(case w of SEEK_SET \<Rightarrow> pos | SEEK_END \<Rightarrow> int (length (adata f)) + pos | SEEK_CUR \<Rightarrow> int (apos f) + pos) = v + pos"
    using assms(1) by (auto simp: v_def ms_rep_def split: whence.splits)
  have len: "length (adata f) = vsize ms" using assms(1) by (simp add: ms_rep_def)
  note s = int32_sum [OF v(1) _ _ _ v(2,3), of pos]
  show ?thesis
  proof (cases "v + pos < 0 \<or> v + pos > int (vsize ms)")
    case True
    then show ?thesis using s assms v by (auto simp: mstream_seek_def o len Let_def)
  next
    case False
    then have "int32 (v + pos) = v + pos" using s(2) assms(2) v by simp
    then show ?thesis using False assms by (auto simp: mstream_seek_def o len Let_def ms_rep_def)
  qed
qed

lemma read_simulates:
  assumes "ms_rep ms f"
  shows "\<exists>ms'. ms_do (Read n) ms = Some (fst (file_do (Read n) f), ms') \<and> ms_rep ms' (snd (file_do (Read n) f))"
proof (cases "can_read f")
  case False
  then show ?thesis using assms by (simp add: mstream_read_def ms_rep_def)
next
  case True
  then have d: "adata f = take (vsize ms) (buf ms)" using assms by (simp add: ms_rep_def)
  have "drop (curpos ms) (take (vsize ms) (buf ms)) = take (vsize ms - curpos ms) (drop (curpos ms) (buf ms))" by (simp add: drop_take)
  then show ?thesis using assms True unfolding ms_rep_def by (auto simp: mstream_read_def Let_def d min_def)
qed

lemma take_put: "off \<le> v \<Longrightarrow> off + length s \<le> length b \<Longrightarrow> v \<le> length b \<Longrightarrow>
    take (max v (off + length s)) (put b off s) = overwrite (take v b) off s"
  by (cases "s = []") (auto simp: put_def overwrite_def drop_take max_def)

lemma nth_put: "off + length s \<le> length b \<Longrightarrow> j < length s \<Longrightarrow> put b off s ! (off + j) = s ! j"
  by (simp add: put_def nth_append)

text \<open>What \<open>mstream_write\<close> does, in all cases: the bytes that fit are stored; then a null byte is stored behind new contents
  of an update stream, and behind the bytes written, or in the last byte of the buffer, for a write-only stream.\<close>

lemma plus_readable: "fl AND MS_READ = 0 \<Longrightarrow> fl AND (MS_READ OR MS_WRITE) \<noteq> MS_READ OR MS_WRITE"
proof
  assume "fl AND MS_READ = 0" "fl AND (MS_READ OR MS_WRITE) = MS_READ OR MS_WRITE"
  then have "(fl AND (MS_READ OR MS_WRITE)) AND MS_READ = 1" by (simp add: ms_defs)
  moreover have "(fl AND (MS_READ OR MS_WRITE)) AND MS_READ = fl AND MS_READ" by (simp add: ms_defs and.assoc)
  ultimately show False using \<open>fl AND MS_READ = 0\<close> by simp
qed

lemma mstream_write_eq:
  fixes s :: string
  assumes "ms_rep ms f" "can_write f"
  defines "off \<equiv> (if appends f then vsize ms else curpos ms)"
  defines "t \<equiv> off + min (length s) (rsize ms - off)"
  defines "m \<equiv> put (buf ms) off (take (rsize ms - off) s)"
  shows "mstream_write ms s = Some (Inr (t - off), ms\<lparr>curpos := t, vsize := max (vsize ms) t,
    buf := (if \<not> can_read f then m[(if t < rsize ms then t else rsize ms - 1) := NUL]
            else if vsize ms < t \<and> flags ms AND (MS_READ OR MS_WRITE) = MS_READ OR MS_WRITE \<and> t < rsize ms then m[t := NUL] else m)\<rparr>)"
proof -
  have i: "curpos ms \<le> vsize ms" "vsize ms \<le> rsize ms" "0 < rsize ms" "rsize ms \<le> length (buf ms)" "rsize ms < 2 ^ 31"
    "can_read f = (flags ms AND MS_READ \<noteq> 0)" "flags ms AND (MS_APPEND OR MS_WRITE) \<noteq> 0" "appends f = (flags ms AND MS_APPEND \<noteq> 0)"
    using assms(1,2) by (auto simp: ms_rep_def)
  have off: "off \<le> vsize ms" "off < 2 ^ 31" using i by (auto simp: off_def)
  have o32: "int32 (int (if flags ms AND MS_APPEND \<noteq> 0 then vsize ms else curpos ms)) = int off"
    using int_size [OF off(2)] i(8) by (simp add: off_def)
  have room: "nat ((int (rsize ms) - int off) mod 18446744073709551616) = rsize ms - off"
    using off i by (subst mod_pos_pos_trivial) auto
  have nwt: "min (length s) (rsize ms - off) = t - off" by (simp add: t_def)
  have nw: "take (t - off) s = take (rsize ms - off) s" by (simp add: nwt [symmetric] min_def)
  have fit: "off + length (take (rsize ms - off) s) \<le> length (buf ms)" using off i by simp
  have put: "put_at (buf ms) off (take (rsize ms - off) s) = Some m" using fit by (simp add: put_at_def m_def)
  have lm: "length m = length (buf ms)" using fit by (simp add: m_def)
  have t: "t \<le> rsize ms" "off \<le> t" using off i by (auto simp: t_def)
  have wo: "flags ms AND (MS_WRITE OR MS_APPEND) \<noteq> 0" using i(7) by (simp add: or.commute)
  show ?thesis
    using i(6,7) t lm i(3,4) wo plus_readable [of "flags ms"]
    by (simp add: mstream_write_def o32 room nwt nw put Let_def max_def)
qed

lemma write_simulates:
  assumes "ms_rep ms f"
  shows "\<exists>ms'. ms_do (Write s) ms = Some (fst (file_do (Write s) f), ms') \<and> ms_rep ms' (snd (file_do (Write s) f))"
proof (cases "can_write f")
  case False
  then show ?thesis using assms by (simp add: mstream_write_def ms_rep_def)
next
  case True
  define off where "off = (if appends f then vsize ms else curpos ms)"
  define t where "t = off + min (length s) (rsize ms - off)"
  define s' where "s' = take (rsize ms - off) s"
  define m where "m = put (buf ms) off s'"
  define b where "b = (if \<not> can_read f then m[(if t < rsize ms then t else rsize ms - 1) := NUL]
    else if vsize ms < t \<and> flags ms AND (MS_READ OR MS_WRITE) = MS_READ OR MS_WRITE \<and> t < rsize ms then m[t := NUL] else m)"
  have i: "curpos ms \<le> vsize ms" "vsize ms \<le> rsize ms" "rsize ms \<le> length (buf ms)" "length (adata f) = vsize ms" "acap f = rsize ms"
    "apos f = curpos ms" using assms by (auto simp: ms_rep_def)
  have off: "off \<le> vsize ms" "off + length s' = t" "t \<le> rsize ms" "length s' = t - off" using i by (auto simp: off_def t_def s'_def)
  have lb: "length b = length (buf ms)" using off i by (simp add: b_def m_def)
  have len: "length (overwrite (adata f) off s') = max (vsize ms) t" using off i(4) by (simp add: length_overwrite)
  have dat: "overwrite (adata f) off s' = take (max (vsize ms) t) b" if "can_read f" "adata f = take (vsize ms) (buf ms)"
  proof -
    have "overwrite (adata f) off s' = take (max (vsize ms) t) m"
      using take_put [of off "vsize ms" s' "buf ms"] off i that(2) unfolding m_def by simp
    then show ?thesis using that(1) by (simp add: b_def max_def)
  qed
  have c: "mstream_write ms s = Some (Inr (t - off), ms\<lparr>curpos := t, vsize := max (vsize ms) t, buf := b\<rparr>)"
    using mstream_write_eq [OF assms True, of s] unfolding off_def [symmetric] t_def [symmetric] s'_def [symmetric] m_def [symmetric] b_def [symmetric] .
  have o: "(if appends f then length (adata f) else apos f) = off" using i by (simp add: off_def)
  have f: "file_do (Write s) f = (Count (t - off), f\<lparr>adata := overwrite (adata f) off s', apos := t\<rparr>)"
    using True off(2,4) by (simp add: Let_def o i(5) s'_def [symmetric] t_def)
  show ?thesis unfolding f using assms True len dat lb off i by (simp add: c ms_rep_def)
qed

interpretation memstream_file: bounded_file ms_rep ms_do valid_op
proof
  fix ms f p assume "ms_rep ms f" "valid_op p"
  then show "\<exists>ms'. ms_do p ms = Some (fst (file_do p f), ms') \<and> ms_rep ms' (snd (file_do p f))"
    by (cases p) (simp_all only: read_simulates write_simulates seek_simulates)
qed

section \<open>Opening\<close>

text \<open>The file that \<open>fmemopen\<close> opens: in the modes of \<open>r\<close> the whole buffer, in those of \<open>w\<close> no bytes, in those of \<open>a\<close> the
  bytes before the first null byte, with the position behind them.\<close>

definition open_file :: "string option \<Rightarrow> string option \<Rightarrow> nat \<Rightarrow> string \<Rightarrow> afile" where
  "open_file b mem sz t =
     (let d = (if hd t = CHR ''r'' then take sz (case b of Some x \<Rightarrow> x | None \<Rightarrow> case mem of Some m \<Rightarrow> m | None \<Rightarrow> [])
               else if hd t = CHR ''w'' then []
               else case b of Some x \<Rightarrow> takeWhile (\<lambda>c. c \<noteq> NUL) (take sz x) | None \<Rightarrow> [])
      in \<lparr>adata = d, apos = (if hd t = CHR ''a'' then length d else 0), acap = sz,
          can_read = (hd t = CHR ''r'' \<or> CHR ''+'' \<in> set t), can_write = (hd t \<noteq> CHR ''r'' \<or> CHR ''+'' \<in> set t),
          appends = (hd t = CHR ''a'')\<rparr>)"

text \<open>The errors of \<open>fmemopen\<close>.\<close>

definition open_error :: "bool \<Rightarrow> string option \<Rightarrow> int option \<Rightarrow> string option \<Rightarrow> nat \<Rightarrow> string \<Rightarrow> int option" where
  "open_error ms_ok mem fun_err b sz t =
     (if sz = 0 then Some EINVAL else if \<not> ms_ok then Some ENOMEM
      else if \<not> mode_ok t \<or> b = None \<and> CHR ''+'' \<notin> set t then Some EINVAL
      else if b = None \<and> mem = None then Some ENOMEM else fun_err)"

lemma fmemopen_errors:
  assumes "\<forall>x. b = Some x \<longrightarrow> sz \<le> length x" "open_error ms_ok mem fun_err b sz t = Some e"
  shows "fmemopen ms_ok mem fun_err b sz t = Some (Inl e)"
  using assms mode_bits [of t] find_end_eq [of sz _ 0]
  by (auto simp: open_error_def fmemopen_def type_to_flags_eq Let_def split: if_splits option.splits)

lemma fmemopen_opens:
  assumes "\<forall>x. b = Some x \<longrightarrow> sz \<le> length x" "\<forall>m. mem = Some m \<longrightarrow> length m = sz" "sz < 2 ^ 31" "open_error ms_ok mem fun_err b sz t = None"
  shows "\<exists>ms. fmemopen ms_ok mem fun_err b sz t = Some (Inr ms) \<and> ms_rep ms (open_file b mem sz t)"
proof -
  have ok: "sz \<noteq> 0" "ms_ok" "mode_ok t" "fun_err = None" using assms(4) by (auto simp: open_error_def split: if_splits)
  note bits = mode_bits [OF ok(3)]
  have hd: "hd t = CHR ''r'' \<or> hd t = CHR ''w'' \<or> hd t = CHR ''a''" using ok(3) by (simp add: mode_ok_def)
  show ?thesis
  proof (cases b)
    case None
    then obtain m where m: "mem = Some m" "length m = sz" "CHR ''+'' \<in> set t" using assms(2,4) ok by (auto simp: open_error_def split: if_splits)
    show ?thesis using ok assms(3) None m bits hd
      by (auto simp: fmemopen_def type_to_flags_eq Let_def mybuf_bits ms_rep_def open_file_def)
  next
    case (Some x)
    have x: "sz \<le> length x" using assms(1) Some by simp
    have e: "find_end x sz 0 = Some (length (takeWhile (\<lambda>c. c \<noteq> NUL) (take sz x)))"
      using find_end_eq [of sz x 0] x by (simp add: Prelude.slice_def)
    have l: "length (takeWhile (\<lambda>c. c \<noteq> NUL) (take sz x)) \<le> sz" using length_takeWhile_le [of _ "take sz x"] x by (metis length_take min.absorb2)
    have w: "take (length (takeWhile (\<lambda>c. c \<noteq> NUL) (take sz x))) x = takeWhile (\<lambda>c. c \<noteq> NUL) (take sz x)"
      using l takeWhile_eq_take [of "\<lambda>c. c \<noteq> NUL" "take sz x"] by (simp add: min_def)
    show ?thesis using ok assms(3) Some x e l w bits hd
      by (auto simp: fmemopen_def type_to_flags_eq Let_def ms_rep_def open_file_def)
  qed
qed

section \<open>Properties\<close>

text \<open>C30: a memory stream is a bounded file. If \<open>fmemopen\<close> meets none of its error conditions, it returns a stream on which every
  sequence of reads, writes and seeks (with arguments that fit into an \<open>int\<close>) runs without an access outside of the buffer and
  with the results of a file of the given capacity opened in the given mode: the same bytes, counts, offsets and error
  numbers. Unless the stream is write-only, the buffer holds the contents of that file at the end. If there is an error condition, its
  number is returned.\<close>

theorem memstream_refines_file:
  assumes "\<forall>x. b = Some x \<longrightarrow> sz \<le> length x" "\<forall>m. mem = Some m \<longrightarrow> length m = sz" "sz < 2 ^ 31" "list_all valid_op ops"
  shows "case open_error ms_ok mem fun_err b sz t of
     Some e \<Rightarrow> fmemopen ms_ok mem fun_err b sz t = Some (Inl e)
   | None \<Rightarrow> \<exists>ms rs ms' f. fmemopen ms_ok mem fun_err b sz t = Some (Inr ms) \<and> run_ops ms_do ops ms = Some (rs, ms') \<and>
       file_run ops (open_file b mem sz t) = (rs, f) \<and> vsize ms' = length (adata f) \<and> vsize ms' \<le> sz \<and>
       (can_read f \<or> \<not> can_write f \<longrightarrow> take (vsize ms') (buf ms') = adata f)"
proof (cases "open_error ms_ok mem fun_err b sz t")
  case (Some e)
  then show ?thesis using fmemopen_errors [OF assms(1)] by simp
next
  case None
  then obtain ms where ms: "fmemopen ms_ok mem fun_err b sz t = Some (Inr ms)" "ms_rep ms (open_file b mem sz t)"
    using fmemopen_opens assms by blast
  obtain ms' where r: "run_ops ms_do ops ms = Some (fst (file_run ops (open_file b mem sz t)), ms')" "ms_rep ms' (snd (file_run ops (open_file b mem sz t)))"
    using memstream_file.run_refines [OF ms(2) assms(4)] by blast
  have cap: "acap (snd (file_run ops f)) = acap f" for f
  proof (induction ops arbitrary: f)
    case (Cons p ps)
    have "acap (snd (file_do p f)) = acap f" by (cases p) (auto simp: Let_def)
    then show ?case using Cons by (simp add: case_prod_beta)
  qed simp
  have "acap (open_file b mem sz t) = sz" by (simp add: open_file_def Let_def)
  then show ?thesis using None ms(1) r cap [of "open_file b mem sz t"]
    by (cases "file_run ops (open_file b mem sz t)") (auto simp: ms_rep_def)
qed

theorem memstream_refines_file_witness:
  "\<exists>ms ms'. fmemopen True None None (Some ''hello...'') 8 ''r+'' = Some (Inr ms) \<and>
     run_ops ms_do [Read 2, Write ''LLO'', Seek 1 SEEK_SET, Read 4] ms = Some ([Bytes ''he'', Count 3, Offset 1, Bytes ''eLLO''], ms') \<and>
     take 8 (buf ms') = ''heLLO...''"
proof -
  let ?ops = "[Read 2, Write ''LLO'', Seek 1 SEEK_SET, Read 4]"
  have e: "open_error True None None (Some ''hello...'') 8 ''r+'' = None" by (simp add: open_error_def mode_ok_def)
  have f: "file_run ?ops (open_file (Some ''hello...'') None 8 ''r+'') =
    ([Bytes ''he'', Count 3, Offset 1, Bytes ''eLLO''],
     \<lparr>adata = ''heLLO...'', apos = 5, acap = 8, can_read = True, can_write = True, appends = False\<rparr>)"
    by (simp add: open_file_def Let_def overwrite_def)
  have e8: "length ''heLLO...'' = 8" by simp
  have "list_all valid_op ?ops" by simp
  then obtain ms rs ms' g where *: "fmemopen True None None (Some ''hello...'') 8 ''r+'' = Some (Inr ms)"
    "run_ops ms_do ?ops ms = Some (rs, ms')" "file_run ?ops (open_file (Some ''hello...'') None 8 ''r+'') = (rs, g)"
    "vsize ms' = length (adata g)" "can_read g \<or> \<not> can_write g \<longrightarrow> take (vsize ms') (buf ms') = adata g"
    using memstream_refines_file [of "Some ''hello...''" 8 None ?ops True None "''r+''"] unfolding e by fastforce
  have g: "rs = [Bytes ''he'', Count 3, Offset 1, Bytes ''eLLO'']" "adata g = ''heLLO...''" "can_read g" using *(3) unfolding f by auto
  then have "take 8 (buf ms') = ''heLLO...''" using *(4,5) by (metis e8)
  then show ?thesis using *(1,2) g(1) by blast
qed

text \<open>A write to a write-only stream reports the number of bytes that fit, but also stores a null byte: behind the bytes
  if there is room, else over the last byte of the buffer. So of a write that fills the buffer the last byte is
  lost although it was counted, and a write in the middle of the contents overwrites the byte behind it.\<close>

theorem memstream_write_only:
  assumes "ms_rep ms f" "can_write f" "\<not> can_read f"
  shows "\<exists>ms' off n. mstream_write ms s = Some (Inr n, ms') \<and>
    off = (if appends f then vsize ms else curpos ms) \<and> n = min (length s) (rsize ms - off) \<and> curpos ms' = off + n \<and>
    (\<forall>j < n. off + j + 1 < rsize ms \<longrightarrow> buf ms' ! (off + j) = s ! j) \<and>
    (off + n < rsize ms \<longrightarrow> buf ms' ! (off + n) = NUL) \<and> (off + n = rsize ms \<longrightarrow> buf ms' ! (rsize ms - 1) = NUL)"
proof -
  let ?off = "if appends f then vsize ms else curpos ms"
  let ?n = "min (length s) (rsize ms - ?off)"
  let ?m = "put (buf ms) ?off (take (rsize ms - ?off) s)"
  have i: "curpos ms \<le> vsize ms" "vsize ms \<le> rsize ms" "0 < rsize ms" "rsize ms \<le> length (buf ms)" using assms(1) by (auto simp: ms_rep_def)
  have off: "?off \<le> rsize ms" using i by auto
  have m: "length ?m = length (buf ms)" using off i by (intro length_put) simp
  have nth: "?m ! (?off + j) = s ! j" if "j < ?n" for j
    using that nth_put [of ?off "take (rsize ms - ?off) s" "buf ms" j] off i(4) by simp
  have w: "mstream_write ms s = Some (Inr ?n, ms\<lparr>curpos := ?off + ?n, vsize := max (vsize ms) (?off + ?n),
    buf := ?m[(if ?off + ?n < rsize ms then ?off + ?n else rsize ms - 1) := NUL]\<rparr>)"
    using mstream_write_eq [OF assms(1,2), of s] assms(3) by simp
  show ?thesis
    by (rule exI, rule exI [of _ ?off], rule exI [of _ ?n], intro conjI, rule w) (use i off m nth in \<open>auto simp: nth_list_update\<close>)
qed

theorem memstream_write_only_witness:
  "\<exists>ms ms'. fmemopen True None None (Some ''......'') 4 ''w'' = Some (Inr ms) \<and> mstream_write ms ''abcd'' = Some (Inr 4, ms') \<and> buf ms' ! 3 = NUL"
proof -
  obtain ms where ms: "fmemopen True None None (Some ''......'') 4 ''w'' = Some (Inr ms)" "ms_rep ms (open_file (Some ''......'') None 4 ''w'')"
    using fmemopen_opens [of "Some ''......''" 4 None True None "''w''"] by (auto simp: open_error_def mode_ok_def)
  then show ?thesis using memstream_write_only [OF ms(2), of "''abcd''"] by (auto simp: open_file_def Let_def ms_rep_def)
qed

end
