(* ===== verification/Hash_Quad.thy ===== *)
theory Hash_Quad
  imports Prelude
begin

text \<open>
  The hash table with quadratic probing of \<open>src/data_structure_and_algorithm/hashtable/hashquad/hashquad.c\<close>. The functions
  \<open>hash\<close> and \<open>nextprime\<close> and the constant \<open>mintablesize\<close> are not defined in the repository and are parameters;
  \<open>elementtype\<close> is \<open>int\<close>. A cell that \<open>malloc\<close> delivers holds no element. An access outside of the table, a null dereference and an overflow of
  \<open>int\<close> arithmetic are \<^const>\<open>None\<close>; positions are unsigned and wrap around. The theory proves
  that a table of prime size that is at most half full behaves as a set, by the classical argument that the first probes
  hit different cells, and that \<open>rehash\<close> keeps the set.
\<close>

section \<open>The code\<close>

datatype kindofentry = legitimate | empty | deleted

record cell =
  element :: "int option"
  info :: kindofentry

record hashtbl =
  tablesize :: nat
  thecells :: "cell list"

text \<open>The result \<open>Some None\<close> is the null pointer. The flags say whether the two calls of \<open>malloc\<close> succeed: if not, the message is followed
  by an access through the null pointer.\<close>

definition initialize_table :: "int \<Rightarrow> (int \<Rightarrow> nat) \<Rightarrow> bool \<Rightarrow> bool \<Rightarrow> int \<Rightarrow> hashtbl option option" where
  "initialize_table mintablesize nextprime ok1 ok2 sz =
     (if sz < mintablesize then Some None
      else if \<not> ok1 then None
      else let n = nextprime sz in
        if \<not> ok2 \<and> n > 0 then None
        else Some (Some \<lparr>tablesize = n, thecells = replicate n \<lparr>element = None, info = empty\<rparr>\<rparr>))"

text \<open>The loop of \<open>find\<close>; \<open>c\<close> is \<open>collisionnum\<close>.\<close>

function find_loop :: "cell list \<Rightarrow> nat \<Rightarrow> int \<Rightarrow> nat \<Rightarrow> int \<Rightarrow> nat option" where
  "find_loop cells n key pos c = do {
     e \<leftarrow> rd cells pos;
     if info e = empty then Some pos
     else do {
       x \<leftarrow> element e;
       if x = key then Some pos
       else if c + 1 \<ge> 2 ^ 30 then None
       else do {
         let pos = (pos + nat (2 * (c + 1) - 1)) mod 2 ^ 32;
         find_loop cells n key (if pos \<ge> n then pos - n else pos) (c + 1)
       }
     }
   }"
  by pat_completeness auto
termination
  by (relation "measure (\<lambda>(cells, n, key, pos, c). nat (2 ^ 30 - c))") auto

declare find_loop.simps [simp del]

definition find :: "(int \<Rightarrow> nat \<Rightarrow> nat) \<Rightarrow> hashtbl \<Rightarrow> int \<Rightarrow> nat option" where
  "find hash h key = find_loop (thecells h) (tablesize h) key (hash key (tablesize h)) 0"

definition insert_key :: "(int \<Rightarrow> nat \<Rightarrow> nat) \<Rightarrow> hashtbl \<Rightarrow> int \<Rightarrow> hashtbl option" where
  "insert_key hash h key = do {
     pos \<leftarrow> find hash h key;
     e \<leftarrow> rd (thecells h) pos;
     if info e \<noteq> legitimate then do {
       cs \<leftarrow> wr (thecells h) pos \<lparr>element = Some key, info = legitimate\<rparr>;
       Some (h\<lparr>thecells := cs\<rparr>)
     } else Some h
   }"

text \<open>The loop of \<open>rehash\<close> over the old cells. The new table may be the null pointer.\<close>

fun rehash_loop :: "(int \<Rightarrow> nat \<Rightarrow> nat) \<Rightarrow> cell list \<Rightarrow> hashtbl option \<Rightarrow> hashtbl option option" where
  "rehash_loop hash [] h = Some h"
| "rehash_loop hash (e # es) h =
     (if info e = legitimate then do {
        x \<leftarrow> element e;
        t \<leftarrow> h;
        t \<leftarrow> insert_key hash t x;
        rehash_loop hash es (Some t)
      } else rehash_loop hash es h)"

definition rehash :: "int \<Rightarrow> (int \<Rightarrow> nat) \<Rightarrow> (int \<Rightarrow> nat \<Rightarrow> nat) \<Rightarrow> bool \<Rightarrow> bool \<Rightarrow> hashtbl \<Rightarrow> hashtbl option option" where
  "rehash mintablesize nextprime hash ok1 ok2 h =
     (if tablesize h \<ge> 2 ^ 30 then None
      else do {
        h' \<leftarrow> initialize_table mintablesize nextprime ok1 ok2 (2 * int (tablesize h));
        if tablesize h > length (thecells h) then None
        else rehash_loop hash (take (tablesize h) (thecells h)) h'
      })"

section \<open>Quadratic probing\<close>

definition is_prime :: "nat \<Rightarrow> bool" where
  "is_prime p \<longleftrightarrow> 2 \<le> p \<and> list_all (\<lambda>d. \<not> d dvd p) [2..<p]"

lemma is_prime_dvd: "is_prime p \<Longrightarrow> d dvd p \<Longrightarrow> d = 1 \<or> d = p"
proof -
  assume p: "is_prime p" "d dvd p"
  then have "d \<noteq> 0" by (cases "d = 0") (auto simp: is_prime_def)
  moreover have "d \<le> p" using p by (auto simp: is_prime_def dest: dvd_imp_le)
  moreover have "\<not> (2 \<le> d \<and> d < p)" using p by (auto simp: is_prime_def list_all_iff)
  ultimately show ?thesis by linarith
qed

lemma is_prime_mult: "is_prime p \<Longrightarrow> p dvd a * b \<Longrightarrow> p dvd a \<or> p dvd b"
proof -
  assume p: "is_prime p" "p dvd a * b"
  have "gcd p a = 1 \<or> gcd p a = p" using is_prime_dvd [OF p(1), of "gcd p a"] by simp
  then show ?thesis using p(2) coprime_dvd_mult_right_iff [of p a b] by (metis coprime_iff_gcd_eq_1 gcd_dvd2)
qed

definition probe :: "(int \<Rightarrow> nat \<Rightarrow> nat) \<Rightarrow> nat \<Rightarrow> int \<Rightarrow> nat \<Rightarrow> nat" where
  "probe hash n x i = (hash x n + i * i) mod n"

lemma probe_less [simp]: "0 < n \<Longrightarrow> probe hash n x i < n"
  by (simp add: probe_def)

text \<open>The first \<open>n div 2 + 1\<close> probes are different cells.\<close>

lemma probe_distinct:
  assumes "is_prime n" "i < j" "j \<le> n div 2"
  shows "probe hash n x i \<noteq> probe hash n x j"
proof
  assume "probe hash n x i = probe hash n x j"
  then have eq: "(hash x n + j * j) mod n = (hash x n + i * i) mod n" by (simp add: probe_def)
  obtain d where d: "j = i + d" using assms(2) less_imp_add_positive by blast
  have le: "hash x n + i * i \<le> hash x n + j * j" by (simp add: d mult_le_mono)
  have "(hash x n + j * j) - (hash x n + i * i) = (j - i) * (j + i)" by (simp add: d algebra_simps)
  then have "n dvd (j - i) * (j + i)" using mod_eq_dvd_iff_nat [OF le, of n] eq by simp
  then have "n dvd j - i \<or> n dvd j + i" using is_prime_mult [OF assms(1)] by blast
  moreover have "0 < j - i" "j - i < n" "0 < j + i" "j + i < n" using assms(2,3) by auto
  ultimately show False using nat_dvd_not_less [of "j - i" n] nat_dvd_not_less [of "j + i" n] by simp
qed

lemma probe_Suc:
  fixes hash x
  assumes "2 * i + 1 \<le> n" "n < 2 ^ 30"
  defines "p \<equiv> (probe hash n x i + nat (2 * (int i + 1) - 1)) mod 2 ^ 32"
  shows "(if p \<ge> n then p - n else p) = probe hash n x (Suc i)"
proof -
  have n: "0 < n" using assms(1) by simp
  have l: "probe hash n x i < n" using n by simp
  have "2 * (int i + 1) - 1 = int (2 * i + 1)" by simp
  then have "nat (2 * (int i + 1) - 1) = 2 * i + 1" by (simp only: nat_int)
  moreover have "probe hash n x i + (2 * i + 1) < 2 ^ 32" using l assms(1,2) by (simp del: probe_less)
  ultimately have p: "p = probe hash n x i + (2 * i + 1)" by (simp only: p_def mod_less)
  have "p < n + n" using l assms(1) unfolding p by linarith
  then have "(if p \<ge> n then p - n else p) = p mod n" using le_mod_geq [of n p] by (cases "p < n") auto
  also have "\<dots> = (hash x n + i * i + (2 * i + 1)) mod n" unfolding p probe_def by (rule mod_add_left_eq)
  also have "hash x n + i * i + (2 * i + 1) = hash x n + Suc i * Suc i" by simp
  finally show ?thesis by (simp only: probe_def)
qed

text \<open>The loop stops at the first probe that is empty or holds the key.\<close>

definition stops :: "cell list \<Rightarrow> int \<Rightarrow> nat \<Rightarrow> bool" where
  "stops cells key q \<longleftrightarrow> info (cells ! q) = empty \<or> element (cells ! q) = Some key"

lemma find_loop_probes:
  assumes "length cells = n" "n < 2 ^ 30" "\<forall>q < n. info (cells ! q) \<noteq> empty \<longrightarrow> element (cells ! q) \<noteq> None"
    "i \<le> n div 2" "stops cells key (probe hash n key i)" "\<forall>j < i. \<not> stops cells key (probe hash n key j)" "k \<le> i" "0 < n"
  shows "find_loop cells n key (probe hash n key k) (int k) = Some (probe hash n key i)"
  using assms(7)
proof (induction "i - k" arbitrary: k)
  case 0
  then have "stops cells key (probe hash n key k)" using assms(5) by simp
  then show ?case using 0 assms(1,3,8) by (subst find_loop.simps) (auto simp: stops_def)
next
  case (Suc d)
  have k: "\<not> stops cells key (probe hash n key k)" "2 * k + 1 \<le> n" "int k + 1 < 2 ^ 30" using Suc assms(2,4,6) by auto
  then obtain x where x: "element (cells ! probe hash n key k) = Some x" "x \<noteq> key" "info (cells ! probe hash n key k) \<noteq> empty"
    using assms(3) [rule_format, OF probe_less [OF assms(8), of hash key k]] by (auto simp: stops_def)
  have "find_loop cells n key (probe hash n key (Suc k)) (int (Suc k)) = Some (probe hash n key i)" using Suc by (intro Suc.hyps) auto
  moreover have "find_loop cells n key (probe hash n key k) (int k) = find_loop cells n key (probe hash n key (Suc k)) (int (Suc k))"
  proof -
    let ?p = "(probe hash n key k + nat (2 * (int k + 1) - 1)) mod 2 ^ 32"
    have "find_loop cells n key (probe hash n key k) (int k) = find_loop cells n key (if ?p \<ge> n then ?p - n else ?p) (int k + 1)"
      using x k(3) assms(1,8) by (subst find_loop.simps) (simp add: Let_def)
    then show ?thesis unfolding probe_Suc [OF k(2) assms(2)] by (simp add: add.commute)
  qed
  ultimately show ?case by simp
qed

section \<open>The table as a set\<close>

text \<open>The invariant: a table of prime size below \<open>2\<^sup>3\<^sup>0\<close>; every cell that is not empty holds a key, no two the same; and
  its key is found by probing, before any empty cell.\<close>

definition quad_inv :: "(int \<Rightarrow> nat \<Rightarrow> nat) \<Rightarrow> hashtbl \<Rightarrow> bool" where
  "quad_inv hash h \<longleftrightarrow> (let n = tablesize h; cs = thecells h in
     length cs = n \<and> is_prime n \<and> n < 2 ^ 30 \<and>
     (\<forall>q < n. info (cs ! q) \<noteq> empty \<longrightarrow>
        (\<exists>x i. element (cs ! q) = Some x \<and> i \<le> n div 2 \<and> q = probe hash n x i \<and> (\<forall>j < i. info (cs ! probe hash n x j) \<noteq> empty))) \<and>
     (\<forall>q < n. \<forall>q' < n. info (cs ! q) \<noteq> empty \<and> info (cs ! q') \<noteq> empty \<and> element (cs ! q) = element (cs ! q') \<longrightarrow> q = q'))"

definition keys :: "hashtbl \<Rightarrow> int set" where
  "keys h = {x. \<exists>e \<in> set (thecells h). info e = legitimate \<and> element e = Some x}"

definition load :: "hashtbl \<Rightarrow> nat" where
  "load h = length (filter (\<lambda>e. info e \<noteq> empty) (thecells h))"

lemma load_card: "load h = card {q. q < length (thecells h) \<and> info (thecells h ! q) \<noteq> empty}"
  by (simp add: load_def length_filter_conv_card)

lemma keys_iff: "x \<in> keys h \<longleftrightarrow> (\<exists>q < length (thecells h). info (thecells h ! q) = legitimate \<and> element (thecells h ! q) = Some x)"
  unfolding keys_def Bex_def in_set_conv_nth by blast

lemma filter_update_le: "length (filter P (xs[q := e])) \<le> Suc (length (filter P xs))"
proof (induction xs arbitrary: q)
  case (Cons x xs)
  then show ?case by (cases q) auto
qed simp

text \<open>In a table that is at most half full, one of the first probes is empty.\<close>

lemma empty_probe:
  assumes "quad_inv hash h" "2 * load h \<le> tablesize h"
  shows "\<exists>i \<le> tablesize h div 2. info (thecells h ! probe hash (tablesize h) x i) = empty"
proof (rule ccontr)
  let ?n = "tablesize h" and ?f = "probe hash (tablesize h) x"
  assume "\<not> ?thesis"
  then have "?f ` {..?n div 2} \<subseteq> {q. q < length (thecells h) \<and> info (thecells h ! q) \<noteq> empty}"
    using assms(1) by (auto simp: quad_inv_def Let_def is_prime_def)
  then have "card (?f ` {..?n div 2}) \<le> load h" unfolding load_card by (intro card_mono) auto
  moreover have "inj_on ?f {..?n div 2}"
    by (rule linorder_inj_onI) (use assms(1) probe_distinct in \<open>auto simp: quad_inv_def Let_def\<close>)
  ultimately have "?n div 2 + 1 \<le> load h" by (simp add: card_image)
  then show False using assms(2) by linarith
qed

lemma find_spec:
  assumes "quad_inv hash h" "2 * load h \<le> tablesize h" "hash key (tablesize h) < tablesize h"
  shows "\<exists>i \<le> tablesize h div 2. let q = probe hash (tablesize h) key i in find hash h key = Some q \<and>
    (\<forall>j < i. info (thecells h ! probe hash (tablesize h) key j) \<noteq> empty) \<and>
    (info (thecells h ! q) = empty \<and> (\<forall>q' < tablesize h. info (thecells h ! q') \<noteq> empty \<longrightarrow> element (thecells h ! q') \<noteq> Some key) \<or>
     info (thecells h ! q) \<noteq> empty \<and> element (thecells h ! q) = Some key)"
proof -
  let ?n = "tablesize h" and ?cs = "thecells h"
  let ?p = "probe hash ?n key"
  let ?S = "\<lambda>i. stops ?cs key (?p i)"
  have inv: "length ?cs = ?n" "?n < 2 ^ 30" "0 < ?n"
    "\<forall>q < ?n. info (?cs ! q) \<noteq> empty \<longrightarrow> (\<exists>x i. element (?cs ! q) = Some x \<and> i \<le> ?n div 2 \<and> q = probe hash ?n x i \<and> (\<forall>j < i. info (?cs ! probe hash ?n x j) \<noteq> empty))"
    using assms(1) by (auto simp: quad_inv_def Let_def is_prime_def)
  obtain e where e: "e \<le> ?n div 2" "?S e" using empty_probe [OF assms(1,2), of key] by (auto simp: stops_def)
  define i where "i = (LEAST i. ?S i)"
  have i: "?S i" "i \<le> ?n div 2" "\<forall>j < i. \<not> ?S j"
    unfolding i_def using LeastI [of ?S e, OF e(2)] order_trans [OF Least_le [of ?S e, OF e(2)] e(1)] not_less_Least [of _ ?S] by blast+
  have "element (?cs ! q) \<noteq> None" if "q < ?n" "info (?cs ! q) \<noteq> empty" for q
  proof -
    show ?thesis using inv(4) [rule_format, OF that] by auto
  qed
  then have "find_loop ?cs ?n key (?p 0) (int 0) = Some (?p i)"
    by (intro find_loop_probes [OF inv(1,2) _ i(2,1,3) _ inv(3)]) simp_all
  then have f: "find hash h key = Some (?p i)" using assms(3) by (simp add: find_def probe_def)
  have before: "\<forall>j < i. info (?cs ! ?p j) \<noteq> empty" using i(3) by (auto simp: stops_def)
  have "element (?cs ! q') \<noteq> Some key" if prem: "info (?cs ! ?p i) = empty" "q' < ?n" "info (?cs ! q') \<noteq> empty" for q'
  proof
    assume k: "element (?cs ! q') = Some key"
    then obtain j where j: "q' = ?p j" "\<forall>j' < j. info (?cs ! ?p j') \<noteq> empty" using inv(4) [rule_format, OF prem(2,3)] by auto
    have "\<not> j < i" using i(3) j(1) k by (auto simp: stops_def)
    moreover have "\<not> i < j" using j(2) prem(1) by auto
    ultimately show False using prem j(1) by (metis nat_neq_iff)
  qed
  then show ?thesis using i(1,2) f before by (auto simp: Let_def stops_def intro!: exI [of _ i])
qed

text \<open>Inserting a key.\<close>

lemma insert_key_spec:
  assumes "quad_inv hash h" "2 * load h \<le> tablesize h" "hash key (tablesize h) < tablesize h"
  shows "\<exists>h'. insert_key hash h key = Some h' \<and> quad_inv hash h' \<and> tablesize h' = tablesize h \<and> keys h' = insert key (keys h) \<and> load h' \<le> Suc (load h)"
proof -
  let ?n = "tablesize h" and ?cs = "thecells h"
  obtain i where i: "i \<le> ?n div 2" "find hash h key = Some (probe hash ?n key i)" "\<forall>j < i. info (?cs ! probe hash ?n key j) \<noteq> empty"
    "info (?cs ! probe hash ?n key i) = empty \<and> (\<forall>q' < ?n. info (?cs ! q') \<noteq> empty \<longrightarrow> element (?cs ! q') \<noteq> Some key) \<or>
     info (?cs ! probe hash ?n key i) \<noteq> empty \<and> element (?cs ! probe hash ?n key i) = Some key"
    using find_spec [OF assms] by (auto simp: Let_def)
  define q where "q = probe hash ?n key i"
  define e where "e = \<lparr>element = Some key, info = legitimate\<rparr>"
  have len: "length ?cs = ?n" "q < ?n" "0 < ?n" using assms(1) by (auto simp: quad_inv_def Let_def is_prime_def q_def)
  show ?thesis
  proof (cases "info (?cs ! q) = legitimate")
    case True
    then have "element (?cs ! q) = Some key" using i(4) by (simp add: q_def)
    then have "key \<in> keys h" unfolding keys_iff using True len by (intro exI [of _ q]) simp
    then show ?thesis using True assms(1) i(2) len by (auto simp: insert_key_def q_def)
  next
    case False
    let ?h = "h\<lparr>thecells := ?cs[q := e]\<rparr>"
    have r: "insert_key hash h key = Some ?h" using False i(2) len by (simp add: insert_key_def q_def e_def)
    have other: "\<forall>q' < ?n. q' \<noteq> q \<and> info (?cs ! q') \<noteq> empty \<longrightarrow> element (?cs ! q') \<noteq> Some key"
      using i(4) assms(1) len(2) unfolding q_def [symmetric] by (auto simp: quad_inv_def Let_def)
    have occ: "info (?cs ! p) \<noteq> empty \<Longrightarrow> info (?cs[q := e] ! p) \<noteq> empty" for p
      using len by (cases "p = q") (auto simp: e_def)
    have reach: "\<exists>x i. element (?cs[q := e] ! p) = Some x \<and> i \<le> ?n div 2 \<and> p = probe hash ?n x i \<and> (\<forall>j < i. info (?cs[q := e] ! probe hash ?n x j) \<noteq> empty)"
      if p: "p < ?n" "info (?cs[q := e] ! p) \<noteq> empty" for p
    proof (cases "p = q")
      case True
      then show ?thesis using i(1,3) len occ by (auto simp: e_def q_def)
    next
      case False
      then have "info (?cs ! p) \<noteq> empty" using p(2) by simp
      then obtain x k where "element (?cs ! p) = Some x" "k \<le> ?n div 2" "p = probe hash ?n x k" "\<forall>j < k. info (?cs ! probe hash ?n x j) \<noteq> empty"
        using assms(1) p(1) unfolding quad_inv_def Let_def by blast
      then show ?thesis using occ False by (metis nth_list_update_neq)
    qed
    have uniq: "p = p'" if p: "p < ?n" "p' < ?n" "info (?cs[q := e] ! p) \<noteq> empty" "info (?cs[q := e] ! p') \<noteq> empty"
      "element (?cs[q := e] ! p) = element (?cs[q := e] ! p')" for p p'
      using p other len assms(1) unfolding quad_inv_def Let_def
      by (cases "p = q"; cases "p' = q") (auto simp: e_def)
    have inv: "quad_inv hash ?h" using assms(1) reach uniq unfolding quad_inv_def Let_def by simp
    have "keys ?h = insert key (keys h)"
      using len False other by (auto simp: keys_iff nth_list_update e_def split: if_splits)
    moreover have "load ?h \<le> Suc (load h)"
      using filter_update_le by (simp add: load_def)
    ultimately show ?thesis using r inv by auto
  qed
qed

section \<open>Properties\<close>

text \<open>Whether a key is in the table: the cell that \<open>find\<close> returns is legitimate. That \<open>find\<close> returns is stated beside it.\<close>

definition contains :: "(int \<Rightarrow> nat \<Rightarrow> nat) \<Rightarrow> hashtbl \<Rightarrow> int \<Rightarrow> bool" where
  "contains hash h x = (case find hash h x of None \<Rightarrow> False | Some q \<Rightarrow> info (thecells h ! q) = legitimate)"

lemma contains_spec:
  assumes "quad_inv hash h" "2 * load h \<le> tablesize h" "hash x (tablesize h) < tablesize h"
  shows "find hash h x \<noteq> None" "contains hash h x \<longleftrightarrow> x \<in> keys h"
proof -
  let ?n = "tablesize h" and ?cs = "thecells h"
  obtain q where q: "find hash h x = Some q" "q < ?n"
    "info (?cs ! q) = empty \<and> (\<forall>q' < ?n. info (?cs ! q') \<noteq> empty \<longrightarrow> element (?cs ! q') \<noteq> Some x) \<or> info (?cs ! q) \<noteq> empty \<and> element (?cs ! q) = Some x"
    using find_spec [OF assms] assms(3) by (auto simp: Let_def)
  have inv: "length ?cs = ?n" "\<forall>q < ?n. \<forall>q' < ?n. info (?cs ! q) \<noteq> empty \<and> info (?cs ! q') \<noteq> empty \<and> element (?cs ! q) = element (?cs ! q') \<longrightarrow> q = q'"
    using assms(1) by (auto simp: quad_inv_def Let_def)
  have "info (?cs ! q) = legitimate" if k: "x \<in> keys h"
  proof -
    obtain q' where q': "q' < ?n" "info (?cs ! q') = legitimate" "element (?cs ! q') = Some x" using k inv(1) by (auto simp: keys_iff)
    then have "info (?cs ! q) \<noteq> empty \<and> element (?cs ! q) = Some x" using q(3) by force
    then have "q = q'" using inv(2) [rule_format, of q q'] q(2) q' by simp
    then show ?thesis using q'(2) by simp
  qed
  moreover have "x \<in> keys h" if "info (?cs ! q) = legitimate" using that q inv(1) by (auto simp: keys_iff)
  ultimately show "contains hash h x \<longleftrightarrow> x \<in> keys h" using q(1) by (auto simp: contains_def)
  show "find hash h x \<noteq> None" using q(1) by simp
qed

lemma empty_table_spec:
  assumes "is_prime n" "n < 2 ^ 30"
  defines "h \<equiv> \<lparr>tablesize = n, thecells = replicate n \<lparr>element = None, info = empty\<rparr>\<rparr>"
  shows "quad_inv hash h" "keys h = {}" "load h = 0"
  using assms by (auto simp: quad_inv_def keys_def load_def)

text \<open>Inserting the legitimate keys of some cells, as \<open>rehash\<close> does.\<close>

lemma rehash_loop_spec:
  assumes "\<forall>x n. 0 < n \<longrightarrow> hash x n < n" "quad_inv hash t" "2 * (load t + length es) \<le> tablesize t"
    "\<forall>e \<in> set es. info e = legitimate \<longrightarrow> element e \<noteq> None"
  shows "\<exists>t'. rehash_loop hash es (Some t) = Some (Some t') \<and> quad_inv hash t' \<and> tablesize t' = tablesize t \<and>
    keys t' = keys t \<union> {x. \<exists>e \<in> set es. info e = legitimate \<and> element e = Some x} \<and> load t' \<le> load t + length es"
  using assms(2-)
proof (induction es arbitrary: t)
  case (Cons e es)
  show ?case
  proof (cases "info e = legitimate")
    case False
    then show ?thesis using Cons.IH [of t] Cons.prems by fastforce
  next
    case True
    then obtain x where x: "element e = Some x" using Cons.prems(3) by auto
    have "0 < tablesize t" using Cons.prems(1) by (auto simp: quad_inv_def Let_def is_prime_def)
    then obtain t1 where t1: "insert_key hash t x = Some t1" "quad_inv hash t1" "tablesize t1 = tablesize t" "keys t1 = insert x (keys t)" "load t1 \<le> Suc (load t)"
      using insert_key_spec [of hash t x] Cons.prems assms(1) by auto
    obtain t2 where "rehash_loop hash es (Some t1) = Some (Some t2)" "quad_inv hash t2" "tablesize t2 = tablesize t1"
      "keys t2 = keys t1 \<union> {x. \<exists>e \<in> set es. info e = legitimate \<and> element e = Some x}" "load t2 \<le> load t1 + length es"
      using Cons.IH [OF t1(2)] t1(3,5) Cons.prems by auto
    then show ?thesis using True x t1 by auto
  qed
qed auto

text \<open>C34: let \<open>hash\<close> map keys into the table, and let \<open>nextprime\<close> return a prime below \<open>2\<^sup>3\<^sup>0\<close> for the requested size. A new table into
  which at most half as many keys are inserted as it has cells behaves as a set: every call of \<open>insert\<close> and \<open>find\<close>
  returns, all accesses are inside the table, and \<open>find\<close> leads to a legitimate cell exactly for the inserted keys.\<close>

theorem hashquad_set:
  assumes "\<forall>x n. 0 < n \<longrightarrow> hash x n < n" "is_prime (nextprime sz)" "nextprime sz < 2 ^ 30" "mintablesize \<le> sz" "2 * length xs \<le> nextprime sz"
  shows "\<exists>h0 h. initialize_table mintablesize nextprime True True sz = Some (Some h0) \<and> insert_all (insert_key hash) h0 xs = Some h \<and>
    (\<forall>x. find hash h x \<noteq> None \<and> (contains hash h x \<longleftrightarrow> x \<in> set xs)) \<and> quad_inv hash h"
proof -
  let ?h0 = "\<lparr>tablesize = nextprime sz, thecells = replicate (nextprime sz) \<lparr>element = None, info = empty\<rparr>\<rparr>"
  have eq: "rehash_loop hash (map (\<lambda>x. \<lparr>element = Some x, info = legitimate\<rparr>) xs) (Some t) = map_option Some (insert_all (insert_key hash) t xs)" for t
    by (induction xs arbitrary: t) (auto split: bind_splits)
  have h0: "initialize_table mintablesize nextprime True True sz = Some (Some ?h0)" using assms(4) by (simp add: initialize_table_def Let_def)
  have z: "quad_inv hash ?h0" "keys ?h0 = {}" "load ?h0 = 0" by (rule empty_table_spec [OF assms(2,3)])+
  obtain h where h: "insert_all (insert_key hash) ?h0 xs = Some h" "quad_inv hash h" "tablesize h = nextprime sz" "keys h = set xs" "load h \<le> length xs"
    using rehash_loop_spec [OF assms(1) z(1), of "map (\<lambda>x. \<lparr>element = Some x, info = legitimate\<rparr>) xs"] z(2,3) assms(5) unfolding eq by auto
  have "find hash h x \<noteq> None \<and> (contains hash h x \<longleftrightarrow> x \<in> set xs)" for x
    using contains_spec [OF h(2), of x] h assms(1,2,5) by (simp add: is_prime_def)
  then show ?thesis using h0 h by blast
qed

theorem hashquad_set_witness:
  "\<exists>h0 h. initialize_table 5 (\<lambda>_. 11) True True 10 = Some (Some h0) \<and> insert_all (insert_key (\<lambda>x n. nat (x mod int n))) h0 [3, 14, 25, 7] = Some h \<and>
     contains (\<lambda>x n. nat (x mod int n)) h 25 \<and> \<not> contains (\<lambda>x n. nat (x mod int n)) h 36"
proof -
  let ?hash = "\<lambda>x n. nat (x mod int n)"
  have "\<forall>x n. 0 < n \<longrightarrow> ?hash x n < n" by (simp add: nat_less_iff)
  moreover have "is_prime 11" by code_simp
  ultimately show ?thesis using hashquad_set [of ?hash "\<lambda>_. 11" 10 5 "[3, 14, 25, 7]"] by fastforce
qed

text \<open>\<open>rehash\<close> moves a table of any load (whose size admits a table of twice the size) to a new one that is at most half full and holds exactly the same
  keys; the insertions into the new table all return.\<close>

theorem hashquad_rehash:
  assumes "\<forall>x n. 0 < n \<longrightarrow> hash x n < n" "quad_inv hash h" "mintablesize \<le> 2 * int (tablesize h)"
    "is_prime (nextprime (2 * int (tablesize h)))" "2 * int (tablesize h) \<le> int (nextprime (2 * int (tablesize h)))" "nextprime (2 * int (tablesize h)) < 2 ^ 30"
  shows "\<exists>h'. rehash mintablesize nextprime hash True True h = Some (Some h') \<and> tablesize h' = nextprime (2 * int (tablesize h)) \<and>
    quad_inv hash h' \<and> 2 * load h' \<le> tablesize h' \<and> keys h' = keys h \<and> (\<forall>x. find hash h' x \<noteq> None \<and> (contains hash h' x \<longleftrightarrow> x \<in> keys h))"
proof -
  let ?n = "nextprime (2 * int (tablesize h))"
  let ?h0 = "\<lparr>tablesize = ?n, thecells = replicate ?n \<lparr>element = None, info = empty\<rparr>\<rparr>"
  have inv: "length (thecells h) = tablesize h" "tablesize h < 2 ^ 30" "\<forall>e \<in> set (thecells h). info e = legitimate \<longrightarrow> element e \<noteq> None"
    using assms(2) by (fastforce simp: quad_inv_def Let_def in_set_conv_nth)+
  have z: "quad_inv hash ?h0" "keys ?h0 = {}" "load ?h0 = 0" by (rule empty_table_spec [OF assms(4,6)])+
  have sz: "2 * tablesize h \<le> ?n" using assms(5) by linarith
  obtain h' where h': "rehash_loop hash (thecells h) (Some ?h0) = Some (Some h')" "quad_inv hash h'" "tablesize h' = ?n" "keys h' = keys h" "load h' \<le> tablesize h"
    using rehash_loop_spec [OF assms(1) z(1), of "thecells h"] z(2,3) sz inv by (auto simp: keys_def)
  have "rehash mintablesize nextprime hash True True h = Some (Some h')"
    using inv assms(3) h'(1) by (simp add: rehash_def initialize_table_def Let_def)
  moreover have "find hash h' x \<noteq> None \<and> (contains hash h' x \<longleftrightarrow> x \<in> keys h)" for x
    using contains_spec [OF h'(2), of x] h' sz assms(1,4) by (simp add: is_prime_def)
  ultimately show ?thesis using h' sz by auto
qed

theorem hashquad_rehash_witness:
  "\<exists>h'. rehash 1 (\<lambda>_. 7) (\<lambda>x n. nat (x mod int n)) True True \<lparr>tablesize = 3, thecells = [\<lparr>element = Some 3, info = legitimate\<rparr>, \<lparr>element = Some 0, info = legitimate\<rparr>, \<lparr>element = None, info = empty\<rparr>]\<rparr> = Some (Some h') \<and> keys h' = {0, 3}"
proof -
  let ?hash = "\<lambda>x n. nat (x mod int n)"
  let ?h = "\<lparr>tablesize = 3, thecells = [\<lparr>element = Some 3, info = legitimate\<rparr>, \<lparr>element = Some 0, info = legitimate\<rparr>, \<lparr>element = None, info = empty\<rparr>]\<rparr>"
  have h: "\<forall>x n. 0 < n \<longrightarrow> ?hash x n < n" by (simp add: nat_less_iff)
  have p: "is_prime 7" "is_prime 3" by code_simp+
  have "\<exists>x i. element (thecells ?h ! q) = Some x \<and> i \<le> 1 \<and> q = probe ?hash 3 x i \<and> (\<forall>j < i. info (thecells ?h ! probe ?hash 3 x j) \<noteq> empty)"
    if q: "q < 3" "info (thecells ?h ! q) \<noteq> empty" for q
  proof -
    consider "q = 0" | "q = 1" using q by (auto simp: numeral_3_eq_3 less_Suc_eq)
    then show ?thesis
      by cases (force intro: exI [of _ 0] simp: probe_def, auto intro!: exI [of _ "Suc 0"] simp: probe_def)
  qed
  moreover have "q = q'" if "q < 3" "q' < 3" "info (thecells ?h ! q) \<noteq> empty" "info (thecells ?h ! q') \<noteq> empty" "element (thecells ?h ! q) = element (thecells ?h ! q')" for q q'
    using that by (auto simp: numeral_3_eq_3 less_Suc_eq)
  ultimately have "quad_inv ?hash ?h" unfolding quad_inv_def Let_def using p(2) by simp
  then show ?thesis using hashquad_rehash [OF h, of ?h 1 "\<lambda>_. 7"] p(1) by (auto simp: keys_def)
qed

text \<open>Nothing checks the load before an insertion: in a table with three cells of which two are taken, probing for a third key leaves
  the array.\<close>

lemma hashquad_overrun:
  "find (\<lambda>_ _. 0) \<lparr>tablesize = 3, thecells = [\<lparr>element = Some 3, info = legitimate\<rparr>, \<lparr>element = Some 0, info = legitimate\<rparr>, \<lparr>element = None, info = empty\<rparr>]\<rparr> 6 = None"
  by (simp add: find_def find_loop.simps Let_def)

end
