(* ===== verification/Semaphores.thy ===== *)
theory Semaphores
  imports C_Library
begin

text \<open>
  The semaphore library \<open>src/apue/apue.3e/lib/semaph.c\<close> over System V semaphore sets. Member 0 of a set is the
  semaphore, member 1 counts the processes that use it (down from \<open>BIGCOUNT\<close>), and member 2 is a lock for creating
  and closing. The kernel keeps the sets and, per process, the adjustments of \<open>SEM_UNDO\<close>. A process is in one of the
  control states \<open>pc\<close>, one for each system call that its current library function is about to make; \<open>err_sys\<close> and
  \<open>err_dump\<close> end it. The step relation interleaves the system calls of several processes and lets any process exit at any time. The theory
  proves that create, close and exit keep the protocol, and exhibits two races that the library does not handle.
\<close>

section \<open>The kernel\<close>

text \<open>A set: the values, and the adjustments by process and member.\<close>

record semset =
  vals :: "nat \<Rightarrow> int"
  adj :: "nat \<Rightarrow> nat \<Rightarrow> int"

record kernel =
  sets :: "nat \<Rightarrow> semset option"
  keymap :: "int \<Rightarrow> nat option"
  nextid :: nat

definition EIDRM :: int where "EIDRM = 43"
definition ERANGE :: int where "ERANGE = 34"
definition SEMVMX :: int where "SEMVMX = 32767"
definition IPC_PRIVATE :: int where "IPC_PRIVATE = 0"

text \<open>An element of the array given to \<open>semop\<close>: the member, the amount, and whether \<open>SEM_UNDO\<close> is set.\<close>

type_synonym sembuf = "nat \<times> int \<times> bool"

datatype 'a sysres = Ret 'a | Sleeps | Fails int

text \<open>The operations of an array are done one after the other, all or none.\<close>

fun do_ops :: "nat \<Rightarrow> sembuf list \<Rightarrow> semset \<Rightarrow> semset sysres" where
  "do_ops p [] s = Ret s"
| "do_ops p ((i, v, u) # ops) s =
     (if v = 0 then if vals s i = 0 then do_ops p ops s else Sleeps
      else if vals s i + v < 0 then Sleeps
      else if vals s i + v > SEMVMX then Fails ERANGE
      else do_ops p ops
        (s\<lparr>vals := (vals s)(i := vals s i + v),
           adj := (if u then (adj s)(p := (adj s p)(i := adj s p i - v)) else adj s)\<rparr>))"

text \<open>\<open>semop\<close> on a set that does not exist fails; the error number of a process that slept on it when it was removed is
  another one.\<close>

definition semop :: "nat \<Rightarrow> bool \<Rightarrow> nat \<Rightarrow> sembuf list \<Rightarrow> kernel \<Rightarrow> kernel sysres" where
  "semop p slept semid ops k = (case sets k semid of
       None \<Rightarrow> Fails (if slept then EIDRM else EINVAL)
     | Some s \<Rightarrow> (case do_ops p ops s of
         Ret s \<Rightarrow> Ret (k\<lparr>sets := (sets k)(semid \<mapsto> s)\<rparr>) | Sleeps \<Rightarrow> Sleeps | Fails e \<Rightarrow> Fails e))"

definition getval :: "nat \<Rightarrow> nat \<Rightarrow> kernel \<Rightarrow> int option" where
  "getval semid i k = map_option (\<lambda>s. vals s i) (sets k semid)"

text \<open>\<open>SETVAL\<close> clears the adjustments of the member in all processes.\<close>

definition setval :: "nat \<Rightarrow> nat \<Rightarrow> int \<Rightarrow> kernel \<Rightarrow> kernel sysres" where
  "setval semid i v k = (case sets k semid of
       None \<Rightarrow> Fails EINVAL
     | Some s \<Rightarrow> if v < 0 \<or> v > SEMVMX then Fails ERANGE
         else Ret (k\<lparr>sets := (sets k)(semid \<mapsto> s\<lparr>vals := (vals s)(i := v), adj := (\<lambda>q. (adj s q)(i := 0))\<rparr>)\<rparr>))"

text \<open>\<open>semget\<close> with \<open>IPC_CREAT\<close> returns the set of the key or a new one with all values 0; without, it fails when there is none.\<close>

definition semget_creat :: "int \<Rightarrow> kernel \<Rightarrow> nat \<times> kernel" where
  "semget_creat key k = (case keymap k key of
       Some semid \<Rightarrow> (semid, k)
     | None \<Rightarrow> (nextid k, k\<lparr>sets := (sets k)(nextid k \<mapsto> \<lparr>vals = (\<lambda>_. 0), adj = (\<lambda>_ _. 0)\<rparr>),
                            keymap := (keymap k)(key \<mapsto> nextid k), nextid := nextid k + 1\<rparr>))"

text \<open>The end of a process: its adjustments are added, values do not fall below 0.\<close>

definition exit_set :: "nat \<Rightarrow> semset \<Rightarrow> semset" where
  "exit_set p s = s\<lparr>vals := (\<lambda>i. max 0 (vals s i + adj s p i)), adj := (adj s)(p := (\<lambda>_. 0))\<rparr>"

definition sem_exit :: "nat \<Rightarrow> kernel \<Rightarrow> kernel" where
  "sem_exit p k = k\<lparr>sets := (\<lambda>semid. map_option (exit_set p) (sets k semid))\<rparr>"

section \<open>The library\<close>

definition BIGCOUNT :: int where "BIGCOUNT = 10000"

definition op_lock :: "sembuf list" where "op_lock = [(2, 0, False), (2, 1, True)]"
definition op_endcreate :: "sembuf list" where "op_endcreate = [(1, - 1, True), (2, - 1, True)]"
definition op_open :: "sembuf list" where "op_open = [(1, - 1, True)]"
definition op_close :: "sembuf list" where "op_close = [(2, 0, False), (2, 1, True), (1, 1, True)]"
definition op_unlock :: "sembuf list" where "op_unlock = [(2, - 1, True)]"
definition op_op :: "int \<Rightarrow> sembuf list" where "op_op value = [(0, value, True)]"

text \<open>The control states, named by function and by the next system call: in \<open>sem_create\<close> with its key and initial value, in \<open>sem_open\<close>,
  in \<open>sem_close\<close>, in \<open>sem_op\<close>; a process that uses the semaphore \<open>semid\<close> outside of the library; one that does not; and ended ones. The
  flag says whether the process sleeps in the call.\<close>

datatype pc = Idle | Use nat | Exited | ErrSys int | ErrDump
  | Create_semget int int | Create_lock int int nat bool | Create_getval nat int | Create_set0 nat int | Create_set1 nat | Create_end nat bool
  | Open_semget int | Open_op nat bool
  | Close_op nat bool | Close_getval nat | Close_rm nat | Close_unlock nat bool
  | Op_op nat int bool

definition err_sys :: "nat \<Rightarrow> int \<Rightarrow> kernel \<Rightarrow> pc \<times> kernel" where
  "err_sys p e k = (ErrSys e, sem_exit p k)"

text \<open>A call of \<open>semop\<close> that ends the process if it fails: \<open>next\<close> is the control state after it, \<open>wait\<close> that of the sleeping
  process. \<^const>\<open>None\<close>: the process goes on sleeping.\<close>

definition semop_or_die :: "nat \<Rightarrow> bool \<Rightarrow> nat \<Rightarrow> sembuf list \<Rightarrow> pc \<Rightarrow> pc \<Rightarrow> kernel \<Rightarrow> (pc \<times> kernel) option" where
  "semop_or_die p slept semid ops nxt wait k = (case semop p slept semid ops k of
       Ret k' \<Rightarrow> Some (nxt, k')
     | Sleeps \<Rightarrow> if slept then None else Some (wait, k)
     | Fails e \<Rightarrow> Some (err_sys p e k))"

fun sem_create :: "nat \<Rightarrow> pc \<Rightarrow> kernel \<Rightarrow> (pc \<times> kernel) option" where
  "sem_create p (Create_semget key initval) k =
     (if key = IPC_PRIVATE \<or> key = - 1 then Some (Idle, k)
      else case semget_creat key k of (semid, k) \<Rightarrow> Some (Create_lock key initval semid False, k))"
| "sem_create p (Create_lock key initval semid slept) k =
     (case semop p slept semid op_lock k of
        Ret k' \<Rightarrow> Some (Create_getval semid initval, k')
      | Sleeps \<Rightarrow> if slept then None else Some (Create_lock key initval semid True, k)
      | Fails e \<Rightarrow> if e = EINVAL then Some (Create_semget key initval, k) else Some (err_sys p e k))"
| "sem_create p (Create_getval semid initval) k =
     (case getval semid 1 k of None \<Rightarrow> Some (err_sys p EINVAL k)
      | Some v \<Rightarrow> Some (if v = 0 then Create_set0 semid initval else Create_end semid False, k))"
| "sem_create p (Create_set0 semid initval) k =
     (case setval semid 0 initval k of Ret k' \<Rightarrow> Some (Create_set1 semid, k') | Sleeps \<Rightarrow> None | Fails e \<Rightarrow> Some (err_sys p e k))"
| "sem_create p (Create_set1 semid) k =
     (case setval semid 1 BIGCOUNT k of Ret k' \<Rightarrow> Some (Create_end semid False, k') | Sleeps \<Rightarrow> None | Fails e \<Rightarrow> Some (err_sys p e k))"
| "sem_create p (Create_end semid slept) k = semop_or_die p slept semid op_endcreate (Use semid) (Create_end semid True) k"
| "sem_create p _ k = None"

fun sem_open :: "nat \<Rightarrow> pc \<Rightarrow> kernel \<Rightarrow> (pc \<times> kernel) option" where
  "sem_open p (Open_semget key) k =
     (if key = IPC_PRIVATE \<or> key = - 1 then Some (Idle, k)
      else case keymap k key of None \<Rightarrow> Some (Idle, k) | Some semid \<Rightarrow> Some (Open_op semid False, k))"
| "sem_open p (Open_op semid slept) k = semop_or_die p slept semid op_open (Use semid) (Open_op semid True) k"
| "sem_open p _ k = None"

text \<open>\<open>sem_rm\<close>: the set is removed, and its key is free again.\<close>

definition sem_rm :: "nat \<Rightarrow> nat \<Rightarrow> kernel \<Rightarrow> (pc \<times> kernel) option" where
  "sem_rm p semid k = (case sets k semid of
       None \<Rightarrow> Some (err_sys p EINVAL k)
     | Some s \<Rightarrow> Some (Idle, k\<lparr>sets := (sets k)(semid := None), keymap := (\<lambda>key. if keymap k key = Some semid then None else keymap k key)\<rparr>))"

fun sem_close :: "nat \<Rightarrow> pc \<Rightarrow> kernel \<Rightarrow> (pc \<times> kernel) option" where
  "sem_close p (Close_op semid slept) k = semop_or_die p slept semid op_close (Close_getval semid) (Close_op semid True) k"
| "sem_close p (Close_getval semid) k =
     (case getval semid 1 k of None \<Rightarrow> Some (err_sys p EINVAL k)
      | Some v \<Rightarrow> if v > BIGCOUNT then Some (ErrDump, sem_exit p k)
          else Some (if v = BIGCOUNT then Close_rm semid else Close_unlock semid False, k))"
| "sem_close p (Close_rm semid) k = sem_rm p semid k"
| "sem_close p (Close_unlock semid slept) k = semop_or_die p slept semid op_unlock Idle (Close_unlock semid True) k"
| "sem_close p _ k = None"

text \<open>\<open>sem_op\<close>; \<open>sem_wait\<close> and \<open>sem_signal\<close> are calls of it. Without an error of a system call \<open>err_sys\<close> shows the last error number, here 0. The member
  \<open>sem_op\<close> of the operation is a \<open>short\<close>, and the test for 0 is made on the value stored there.\<close>

definition to_short :: "int \<Rightarrow> int" where
  "to_short x = (x + 2 ^ 15) mod 2 ^ 16 - 2 ^ 15"

fun sem_op :: "nat \<Rightarrow> pc \<Rightarrow> kernel \<Rightarrow> (pc \<times> kernel) option" where
  "sem_op p (Op_op semid value slept) k =
     (if to_short value = 0 then Some (err_sys p 0 k)
      else semop_or_die p slept semid (op_op (to_short value)) (Use semid) (Op_op semid value True) k)"
| "sem_op p _ k = None"

definition sem_wait :: "nat \<Rightarrow> pc" where "sem_wait semid = Op_op semid (- 1) False"
definition sem_signal :: "nat \<Rightarrow> pc" where "sem_signal semid = Op_op semid 1 False"

definition proc_step :: "nat \<Rightarrow> pc \<Rightarrow> kernel \<Rightarrow> (pc \<times> kernel) option" where
  "proc_step p c k = (case sem_create p c k of Some r \<Rightarrow> Some r | None \<Rightarrow>
     (case sem_open p c k of Some r \<Rightarrow> Some r | None \<Rightarrow>
     (case sem_close p c k of Some r \<Rightarrow> Some r | None \<Rightarrow> sem_op p c k)))"

section \<open>Interleaving\<close>

record system =
  kern :: kernel
  pcs :: "nat \<Rightarrow> pc"

fun ended :: "pc \<Rightarrow> bool" where
  "ended Exited = True" | "ended (ErrSys e) = True" | "ended ErrDump = True" | "ended _ = False"

text \<open>The processes below \<open>n\<close>; \<open>opens\<close> says whether they may call \<open>sem_open\<close>.\<close>

inductive step :: "nat \<Rightarrow> bool \<Rightarrow> system \<Rightarrow> system \<Rightarrow> bool" for n opens where
  create: "p < n \<Longrightarrow> pcs s p = Idle \<Longrightarrow> step n opens s (s\<lparr>pcs := (pcs s)(p := Create_semget key initval)\<rparr>)"
| "open": "p < n \<Longrightarrow> opens \<Longrightarrow> pcs s p = Idle \<Longrightarrow> step n opens s (s\<lparr>pcs := (pcs s)(p := Open_semget key)\<rparr>)"
| close: "p < n \<Longrightarrow> pcs s p = Use semid \<Longrightarrow> step n opens s (s\<lparr>pcs := (pcs s)(p := Close_op semid False)\<rparr>)"
| oper: "p < n \<Longrightarrow> pcs s p = Use semid \<Longrightarrow> step n opens s (s\<lparr>pcs := (pcs s)(p := Op_op semid value False)\<rparr>)"
| call: "p < n \<Longrightarrow> proc_step p (pcs s p) (kern s) = Some (c, k) \<Longrightarrow> step n opens s \<lparr>kern = k, pcs = (pcs s)(p := c)\<rparr>"
| leave: "p < n \<Longrightarrow> \<not> ended (pcs s p) \<Longrightarrow> step n opens s \<lparr>kern = sem_exit p (kern s), pcs = (pcs s)(p := Exited)\<rparr>"

definition start :: system where
  "start = \<lparr>kern = \<lparr>sets = (\<lambda>_. None), keymap = (\<lambda>_. None), nextid = 0\<rparr>, pcs = (\<lambda>_. Idle)\<rparr>"

inductive reach :: "nat \<Rightarrow> bool \<Rightarrow> system \<Rightarrow> bool" for n opens where
  init: "reach n opens start"
| more: "reach n opens s \<Longrightarrow> step n opens s s' \<Longrightarrow> reach n opens s'"

section \<open>The invariant\<close>

text \<open>The set whose lock a process holds, and the set which counts it.\<close>

fun locks :: "pc \<Rightarrow> nat option" where
  "locks (Create_getval i v) = Some i" | "locks (Create_set0 i v) = Some i" | "locks (Create_set1 i) = Some i" | "locks (Create_end i b) = Some i"
| "locks (Close_getval i) = Some i" | "locks (Close_rm i) = Some i" | "locks (Close_unlock i b) = Some i"
| "locks _ = None"

fun uses :: "pc \<Rightarrow> nat option" where
  "uses (Use i) = Some i" | "uses (Close_op i b) = Some i" | "uses (Op_op i v b) = Some i" | "uses _ = None"

fun in_open :: "pc \<Rightarrow> bool" where
  "in_open (Open_semget key) = True" | "in_open (Open_op i b) = True" | "in_open _ = False"

definition users :: "nat \<Rightarrow> (nat \<Rightarrow> pc) \<Rightarrow> nat \<Rightarrow> nat set" where
  "users n c i = {p. p < n \<and> uses (c p) = Some i}"

text \<open>What a process that holds the lock knows about the counter \<open>v\<close> of the set \<open>i\<close> with \<open>m\<close> users.\<close>

fun knows :: "int \<Rightarrow> nat \<Rightarrow> nat \<Rightarrow> pc \<Rightarrow> bool" where
  "knows v m i (Create_set0 j x) = (j = i \<longrightarrow> v = 0)"
| "knows v m i (Create_set1 j) = (j = i \<longrightarrow> v = 0)"
| "knows v m i (Create_end j b) = (j = i \<longrightarrow> v = BIGCOUNT - int m)"
| "knows v m i (Close_getval j) = (j = i \<longrightarrow> v = BIGCOUNT - int m)"
| "knows v m i (Close_unlock j b) = (j = i \<longrightarrow> v = BIGCOUNT - int m)"
| "knows v m i (Close_rm j) = (j = i \<longrightarrow> v = BIGCOUNT \<and> m = 0)"
| "knows v m i _ = True"

text \<open>A set that is in order: the counter is set up or there are no users, the lock is 1 while a process holds it, and the adjustments make up for
  what each process has done.\<close>

definition set_ok :: "nat \<Rightarrow> (nat \<Rightarrow> pc) \<Rightarrow> nat \<Rightarrow> semset \<Rightarrow> bool" where
  "set_ok n c i s \<longleftrightarrow>
     (let m = card (users n c i) in vals s 1 = BIGCOUNT - int m \<or> vals s 1 = 0 \<and> m = 0) \<and>
     vals s 2 = (if \<exists>p < n. locks (c p) = Some i then 1 else 0) \<and>
     (\<forall>p < n. adj s p 1 = (if uses (c p) = Some i then 1 else 0) \<and> adj s p 2 = (if locks (c p) = Some i then - 1 else 0) \<and>
        knows (vals s 1) (card (users n c i)) i (c p))"

definition sys_ok :: "nat \<Rightarrow> system \<Rightarrow> bool" where
  "sys_ok n s \<longleftrightarrow>
     (\<forall>p < n. \<not> in_open (pcs s p) \<and> pcs s p \<noteq> ErrDump) \<and>
     (\<forall>p < n. \<forall>i. locks (pcs s p) = Some i \<or> uses (pcs s p) = Some i \<longrightarrow> sets (kern s) i \<noteq> None) \<and>
     (\<forall>p < n. \<forall>q < n. \<forall>i. locks (pcs s p) = Some i \<and> locks (pcs s q) = Some i \<longrightarrow> p = q) \<and>
     (\<forall>i x. sets (kern s) i = Some x \<longrightarrow> i < nextid (kern s) \<and> set_ok n (pcs s) i x)"

lemma knows_other: "locks c \<noteq> Some i \<Longrightarrow> knows v m i c"
  by (cases c) auto

lemma users_upd: "users n (c(p := b)) i = (if p < n \<and> uses b = Some i then insert p (users n c i) else users n c i - {p})"
  by (auto simp: users_def)

lemma users_finite [simp]: "finite (users n c i)"
  by (simp add: users_def)

lemma users_card_le: "card (users n c i) \<le> n"
  using card_mono [of "{..<n}" "users n c i"] by (auto simp: users_def)

lemma users_mem [simp]: "p \<in> users n c i \<longleftrightarrow> p < n \<and> uses (c p) = Some i"
  by (simp add: users_def)

text \<open>A process that has nothing to do with a set does not matter to it.\<close>

lemma set_ok_other:
  assumes "locks (c p) \<noteq> Some i" "uses (c p) \<noteq> Some i" "locks b \<noteq> Some i" "uses b \<noteq> Some i"
  shows "set_ok n (c(p := b)) i s = set_ok n c i s"
proof -
  have "users n (c(p := b)) i = users n c i" using assms by (auto simp: users_def)
  moreover have "locks ((c(p := b)) q) = Some i \<longleftrightarrow> locks (c q) = Some i" "uses ((c(p := b)) q) = Some i \<longleftrightarrow> uses (c q) = Some i" for q
    using assms by auto
  moreover have "knows v m i ((c(p := b)) q) = knows v m i (c q)" for v m q using assms knows_other by auto
  ultimately show ?thesis unfolding set_ok_def by simp
qed

lemma sys_ok_pc:
  assumes "sys_ok n s" "p < n" "locks (pcs s p) = None" "uses (pcs s p) = None" "locks b = None" "uses b = None" "\<not> in_open b" "b \<noteq> ErrDump"
  shows "sys_ok n \<lparr>kern = kern s, pcs = (pcs s)(p := b)\<rparr>"
  using assms set_ok_other [of "pcs s" p _ b n] unfolding sys_ok_def by auto

text \<open>A step of a process on the set \<open>i\<close>.\<close>

lemma sys_ok_set:
  assumes "sys_ok n s" "p < n" "sets k = (sets (kern s))(i \<mapsto> x)" "nextid k = nextid (kern s)" "sets (kern s) i \<noteq> None"
    "locks (pcs s p) \<in> {None, Some i}" "uses (pcs s p) \<in> {None, Some i}" "locks b \<in> {None, Some i}" "uses b \<in> {None, Some i}"
    "\<not> in_open b" "b \<noteq> ErrDump" "locks b = Some i \<Longrightarrow> \<forall>q < n. q \<noteq> p \<longrightarrow> locks (pcs s q) \<noteq> Some i"
    "set_ok n ((pcs s)(p := b)) i x"
  shows "sys_ok n \<lparr>kern = k, pcs = (pcs s)(p := b)\<rparr>"
  unfolding sys_ok_def
proof (intro conjI allI impI)
  have o: "\<forall>p < n. \<not> in_open (pcs s p) \<and> pcs s p \<noteq> ErrDump"
    "\<forall>p < n. \<forall>i. locks (pcs s p) = Some i \<or> uses (pcs s p) = Some i \<longrightarrow> sets (kern s) i \<noteq> None"
    "\<forall>p < n. \<forall>q < n. \<forall>i. locks (pcs s p) = Some i \<and> locks (pcs s q) = Some i \<longrightarrow> p = q"
    "\<forall>i x. sets (kern s) i = Some x \<longrightarrow> i < nextid (kern s) \<and> set_ok n (pcs s) i x"
    using assms(1) by (auto simp: sys_ok_def)
  show "\<not> in_open (pcs \<lparr>kern = k, pcs = (pcs s)(p := b)\<rparr> q)" "pcs \<lparr>kern = k, pcs = (pcs s)(p := b)\<rparr> q \<noteq> ErrDump" if "q < n" for q
    using that o(1) assms(10,11) by auto
  show "sets (kern \<lparr>kern = k, pcs = (pcs s)(p := b)\<rparr>) j \<noteq> None"
    if "q < n" "locks (pcs \<lparr>kern = k, pcs = (pcs s)(p := b)\<rparr> q) = Some j \<or> uses (pcs \<lparr>kern = k, pcs = (pcs s)(p := b)\<rparr> q) = Some j" for q j
    using that o(2) assms(3,8,9) by (auto split: if_splits)
  show "q = r" if "q < n" "r < n" "locks (pcs \<lparr>kern = k, pcs = (pcs s)(p := b)\<rparr> q) = Some j \<and> locks (pcs \<lparr>kern = k, pcs = (pcs s)(p := b)\<rparr> r) = Some j" for q r j
  proof (cases "q = p \<or> r = p")
    case True
    then show ?thesis using that assms(8,12) by (auto split: if_splits)
  next
    case False
    then show ?thesis using that o(3) by auto
  qed
  fix j y assume j: "sets (kern \<lparr>kern = k, pcs = (pcs s)(p := b)\<rparr>) j = Some y"
  show "j < nextid (kern \<lparr>kern = k, pcs = (pcs s)(p := b)\<rparr>)" using j o(4) assms(3-5) by (auto split: if_splits)
  show "set_ok n (pcs \<lparr>kern = k, pcs = (pcs s)(p := b)\<rparr>) j y"
  proof (cases "j = i")
    case True
    then show ?thesis using j assms(3,13) by simp
  next
    case False
    then have "set_ok n ((pcs s)(p := b)) j y = set_ok n (pcs s) j y" using assms(6-9) by (intro set_ok_other) auto
    then show ?thesis using False j o(4) assms(3) by simp
  qed
qed

text \<open>How the number of users changes.\<close>

lemma card_users_upd:
  assumes "p < n"
  shows "card (users n (c(p := b)) i) + (if uses (c p) = Some i then 1 else 0) = card (users n c i) + (if uses b = Some i then 1 else 0)"
proof -
  have "card (insert p (users n c i)) = (if p \<in> users n c i then card (users n c i) else Suc (card (users n c i)))" by (simp add: card_insert_if)
  moreover have "p \<in> users n c i \<Longrightarrow> card (users n c i) > 0" by (metis card_gt_0_iff empty_iff users_finite)
  ultimately show ?thesis using assms by (auto simp: users_upd card_Diff_singleton_if)
qed

text \<open>The general step on a set: the process \<open>p\<close> goes from \<open>c p\<close> to \<open>b\<close>, and the counter, the lock and its adjustments change accordingly.\<close>

lemma set_ok_step:
  assumes "set_ok n c i x" "p < n" "int n < BIGCOUNT"
    and excl: "\<forall>q < n. \<forall>r < n. locks (c q) = Some i \<and> locks (c r) = Some i \<longrightarrow> q = r"
      "locks b = Some i \<Longrightarrow> locks (c p) \<noteq> Some i \<Longrightarrow> vals x 2 = 0"
    and count: "vals y 1 = vals x 1 + (if uses (c p) = Some i then 1 else 0) - (if uses b = Some i then 1 else 0)"
    and enter: "uses b = Some i \<Longrightarrow> uses (c p) = Some i \<or> vals x 1 \<noteq> 0 \<and> locks (c p) = Some i"
    and lock: "vals y 2 = vals x 2 + (if locks b = Some i then 1 else 0) - (if locks (c p) = Some i then 1 else 0)"
    and adjs: "\<And>q. q \<noteq> p \<Longrightarrow> adj y q 1 = adj x q 1 \<and> adj y q 2 = adj x q 2" "adj y p 1 = (if uses b = Some i then 1 else 0)" "adj y p 2 = (if locks b = Some i then - 1 else 0)"
    and kn: "knows (vals y 1) (card (users n (c(p := b)) i)) i b"
  shows "set_ok n (c(p := b)) i y"
proof -
  let ?m = "card (users n c i)" and ?m' = "card (users n (c(p := b)) i)"
  have m: "?m' + (if uses (c p) = Some i then 1 else 0) = ?m + (if uses b = Some i then 1 else 0)" by (rule card_users_upd [OF assms(2)])
  have o: "vals x 1 = BIGCOUNT - int ?m \<or> vals x 1 = 0 \<and> ?m = 0" "vals x 2 = (if \<exists>q < n. locks (c q) = Some i then 1 else 0)"
    "\<forall>q < n. adj x q 1 = (if uses (c q) = Some i then 1 else 0) \<and> adj x q 2 = (if locks (c q) = Some i then - 1 else 0) \<and> knows (vals x 1) ?m i (c q)"
    using assms(1) by (auto simp: set_ok_def Let_def)
  have big: "int ?m < BIGCOUNT" using users_card_le [of n c i] assms(3) by simp
  have pos: "uses (c p) = Some i \<Longrightarrow> ?m > 0" using assms(2) by (metis card_gt_0_iff empty_iff users_finite users_mem)
  have c1: "vals y 1 = BIGCOUNT - int ?m' \<or> vals y 1 = 0 \<and> ?m' = 0"
    using o(1) count m enter pos by (auto split: if_splits)
  have c2: "vals y 2 = (if \<exists>q < n. locks ((c(p := b)) q) = Some i then 1 else 0)"
  proof (cases "locks (c p) = Some i")
    case True
    then have "\<not> (\<exists>q < n. q \<noteq> p \<and> locks (c q) = Some i)" using excl(1) assms(2) by blast
    moreover have "vals x 2 = 1" using o(2) True assms(2) by auto
    ultimately show ?thesis using lock True assms(2) by auto
  next
    case False
    then show ?thesis using lock o(2) excl(2) assms(2) by (auto split: if_splits)
  qed
  have c3: "knows (vals y 1) ?m' i (c q)" if "q < n" "q \<noteq> p" for q
  proof (cases "uses (c p) = Some i \<longleftrightarrow> uses b = Some i")
    case True
    then have "vals y 1 = vals x 1" "?m' = ?m" using count m by auto
    then show ?thesis using o(3) that by simp
  next
    case False
    show ?thesis
    proof (cases "uses b = Some i")
      case True
      then have "locks (c q) \<noteq> Some i" using False enter excl(1) that assms(2) by blast
      then show ?thesis by (rule knows_other)
    next
      case not_b: False
      then have "vals y 1 = vals x 1 + 1" "?m = Suc ?m'" using False count m by (auto split: if_splits)
      moreover have "vals x 1 \<noteq> 0" using o(1) big \<open>?m = Suc ?m'\<close> by auto
      moreover have "knows (vals x 1) ?m i (c q)" using o(3) that by blast
      ultimately show ?thesis by (cases "c q") auto
    qed
  qed
  show ?thesis unfolding set_ok_def Let_def using c1 c2 c3 kn o(3) adjs by auto
qed

text \<open>The end of a process.\<close>

lemma sys_okD:
  assumes "sys_ok n s" "p < n"
  shows "\<not> in_open (pcs s p)" "pcs s p \<noteq> ErrDump" "locks (pcs s p) = Some i \<Longrightarrow> sets (kern s) i \<noteq> None" "uses (pcs s p) = Some i \<Longrightarrow> sets (kern s) i \<noteq> None"
    "sets (kern s) i = Some x \<Longrightarrow> set_ok n (pcs s) i x" "\<forall>q < n. \<forall>r < n. locks (pcs s q) = Some i \<and> locks (pcs s r) = Some i \<longrightarrow> q = r"
  using assms unfolding sys_ok_def by blast+

lemma set_okD:
  assumes "set_ok n c i x" "p < n"
  shows "vals x 1 = BIGCOUNT - int (card (users n c i)) \<or> vals x 1 = 0 \<and> card (users n c i) = 0"
    "vals x 2 = (if \<exists>q < n. locks (c q) = Some i then 1 else 0)"
    "adj x p 1 = (if uses (c p) = Some i then 1 else 0)" "adj x p 2 = (if locks (c p) = Some i then - 1 else 0)"
    "knows (vals x 1) (card (users n c i)) i (c p)"
  using assms by (auto simp: set_ok_def Let_def)

lemma set_ok_exit:
  assumes "set_ok n c i x" "p < n" "int n < BIGCOUNT" "\<forall>q < n. \<forall>r < n. locks (c q) = Some i \<and> locks (c r) = Some i \<longrightarrow> q = r"
    "locks b = None" "uses b = None"
  shows "set_ok n (c(p := b)) i (exit_set p x)"
proof (rule set_ok_step [OF assms(1-4)])
  note x = set_okD [OF assms(1,2)]
  have "vals x 1 \<ge> 0" using x(1) users_card_le [of n c i] assms(3) by auto
  then show "vals (exit_set p x) 1 = vals x 1 + (if uses (c p) = Some i then 1 else 0) - (if uses b = Some i then 1 else 0)"
    using x(3) assms(6) by (auto simp: exit_set_def)
  show "vals (exit_set p x) 2 = vals x 2 + (if locks b = Some i then 1 else 0) - (if locks (c p) = Some i then 1 else 0)"
    using x(2,4) assms(2,5) by (auto simp: exit_set_def)
qed (use assms in \<open>auto simp: exit_set_def knows_other\<close>)

lemma sys_ok_exit:
  assumes "sys_ok n s" "p < n" "int n < BIGCOUNT" "locks b = None" "uses b = None" "\<not> in_open b" "b \<noteq> ErrDump"
  shows "sys_ok n \<lparr>kern = sem_exit p (kern s), pcs = (pcs s)(p := b)\<rparr>"
proof -
  have "set_ok n ((pcs s)(p := b)) i (exit_set p x)" if "sets (kern s) i = Some x" for i x
    using set_ok_exit [OF sys_okD(5) [OF assms(1,2) that] assms(2,3) sys_okD(6) [OF assms(1,2)] assms(4,5)] .
  then show ?thesis using assms unfolding sys_ok_def by (auto simp: sem_exit_def)
qed

text \<open>A new set.\<close>

lemma sys_ok_semget:
  assumes "sys_ok n s" "p < n" "locks (pcs s p) = None" "uses (pcs s p) = None" "semget_creat key (kern s) = (i, k)"
  shows "sys_ok n \<lparr>kern = k, pcs = (pcs s)(p := Create_lock key v i False)\<rparr>"
proof (cases "keymap (kern s) key")
  case (Some j)
  then show ?thesis using assms sys_ok_pc [OF assms(1-4), of "Create_lock key v i False"] by (simp add: semget_creat_def)
next
  case None
  let ?s = "\<lparr>kern = kern s, pcs = (pcs s)(p := Create_lock key v i False)\<rparr>"
  have s': "sys_ok n ?s" using sys_ok_pc [OF assms(1-4), of "Create_lock key v i False"] by simp
  have k: "i = nextid (kern s)" "sets k = (sets (kern s))(i \<mapsto> \<lparr>vals = (\<lambda>_. 0), adj = (\<lambda>_ _. 0)\<rparr>)" "nextid k = nextid (kern s) + 1"
    using assms(5) None by (auto simp: semget_creat_def)
  have "sets (kern s) i = None" using assms(1) k(1) unfolding sys_ok_def by (metis less_irrefl not_None_eq)
  then have fresh: "locks (pcs ?s q) \<noteq> Some i" "uses (pcs ?s q) \<noteq> Some i" if "q < n" for q
    using sys_okD(3,4) [OF s' that, of i] by auto
  then have "users n (pcs ?s) i = {}" by (auto simp: users_def)
  then have "set_ok n (pcs ?s) i \<lparr>vals = (\<lambda>_. 0), adj = (\<lambda>_ _. 0)\<rparr>" using fresh knows_other by (auto simp: set_ok_def)
  then show ?thesis using s' k unfolding sys_ok_def by (auto simp: less_Suc_eq)
qed

section \<open>The system calls keep the invariant\<close>

lemmas op_defs = op_lock_def op_endcreate_def op_open_def op_close_def op_unlock_def op_op_def

text \<open>How a process that goes to \<open>b\<close> may change the set \<open>i\<close> from \<open>x\<close> to \<open>y\<close>.\<close>

definition moves :: "nat \<Rightarrow> (nat \<Rightarrow> pc) \<Rightarrow> nat \<Rightarrow> pc \<Rightarrow> nat \<Rightarrow> semset \<Rightarrow> semset \<Rightarrow> bool" where
  "moves n c p b i x y \<longleftrightarrow>
     locks (c p) \<in> {None, Some i} \<and> uses (c p) \<in> {None, Some i} \<and> locks b \<in> {None, Some i} \<and> uses b \<in> {None, Some i} \<and> \<not> in_open b \<and> b \<noteq> ErrDump \<and>
     (locks b = Some i \<longrightarrow> locks (c p) \<noteq> Some i \<longrightarrow> vals x 2 = 0) \<and>
     vals y 1 = vals x 1 + (if uses (c p) = Some i then 1 else 0) - (if uses b = Some i then 1 else 0) \<and>
     (uses b = Some i \<longrightarrow> uses (c p) = Some i \<or> vals x 1 \<noteq> 0 \<and> locks (c p) = Some i) \<and>
     vals y 2 = vals x 2 + (if locks b = Some i then 1 else 0) - (if locks (c p) = Some i then 1 else 0) \<and>
     (\<forall>q. q \<noteq> p \<longrightarrow> adj y q 1 = adj x q 1 \<and> adj y q 2 = adj x q 2) \<and> adj y p 1 = (if uses b = Some i then 1 else 0) \<and> adj y p 2 = (if locks b = Some i then - 1 else 0) \<and>
     knows (vals y 1) (card (users n (c(p := b)) i)) i b"

lemma sys_ok_step:
  assumes "sys_ok n s" "p < n" "int n < BIGCOUNT" "sets (kern s) i = Some x" "k = (kern s)\<lparr>sets := (sets (kern s))(i \<mapsto> y)\<rparr>" "moves n (pcs s) p b i x y"
  shows "sys_ok n \<lparr>kern = k, pcs = (pcs s)(p := b)\<rparr>"
proof (rule sys_ok_set [OF assms(1,2)])
  note x = sys_okD(5) [OF assms(1,2,4)]
  show "set_ok n ((pcs s)(p := b)) i y"
    by (rule set_ok_step [OF x assms(2,3) sys_okD(6) [OF assms(1,2)]]) (use assms(6) [unfolded moves_def] in blast)+
  show "\<forall>q < n. q \<noteq> p \<longrightarrow> locks (pcs s q) \<noteq> Some i" if "locks b = Some i"
    using that sys_okD(6) [OF assms(1,2), of i] assms(2,6) set_okD(2) [OF x assms(2)] unfolding moves_def by (metis zero_neq_one)
qed (use assms in \<open>auto simp: moves_def\<close>)

lemma semop_Ret: "semop p slept i ops k = Ret k' \<Longrightarrow> \<exists>x y. sets k i = Some x \<and> do_ops p ops x = Ret y \<and> k' = k\<lparr>sets := (sets k)(i \<mapsto> y)\<rparr>"
  by (auto simp: semop_def split: option.splits sysres.splits)

lemma setval_Ret: "setval i j v k = Ret k' \<Longrightarrow> \<exists>x. sets k i = Some x \<and> k' = k\<lparr>sets := (sets k)(i \<mapsto> x\<lparr>vals := (vals x)(j := v), adj := (\<lambda>q. (adj x q)(j := 0))\<rparr>)\<rparr>"
  by (auto simp: setval_def split: option.splits if_splits)

text \<open>The end by \<open>err_sys\<close>.\<close>

lemma sys_ok_err_sys:
  assumes "sys_ok n s" "p < n" "int n < BIGCOUNT" "err_sys p e (kern s) = (c, k)"
  shows "sys_ok n \<lparr>kern = k, pcs = (pcs s)(p := c)\<rparr>"
  using sys_ok_exit [OF assms(1-3), of "ErrSys e"] assms(4) by (auto simp: err_sys_def)

text \<open>A process that goes to sleep.\<close>

lemma sys_ok_sleep:
  assumes "sys_ok n s" "p < n" "locks b = locks (pcs s p)" "uses b = uses (pcs s p)" "\<not> in_open b" "b \<noteq> ErrDump" "\<And>v m i. knows v m i b = knows v m i (pcs s p)"
  shows "sys_ok n \<lparr>kern = kern s, pcs = (pcs s)(p := b)\<rparr>"
proof -
  have "users n ((pcs s)(p := b)) = users n (pcs s)" using assms(4) by (intro ext) (auto simp: users_def)
  moreover have "locks (((pcs s)(p := b)) q) = locks (pcs s q)" "uses (((pcs s)(p := b)) q) = uses (pcs s q)" for q using assms(3,4) by auto
  moreover have "knows v m i (((pcs s)(p := b)) q) = knows v m i (pcs s q)" for v m i q using assms(7) by simp
  ultimately have "set_ok n ((pcs s)(p := b)) = set_ok n (pcs s)" by (intro ext) (simp add: set_ok_def)
  then show ?thesis using assms unfolding sys_ok_def by auto
qed

lemma sys_ok_semop:
  assumes "sys_ok n s" "p < n" "int n < BIGCOUNT" "semop p slept i ops (kern s) = Ret k"
    "\<And>x y. set_ok n (pcs s) i x \<Longrightarrow> do_ops p ops x = Ret y \<Longrightarrow> moves n (pcs s) p b i x y"
  shows "sys_ok n \<lparr>kern = k, pcs = (pcs s)(p := b)\<rparr>"
proof -
  obtain x y where x: "sets (kern s) i = Some x" "do_ops p ops x = Ret y" "k = (kern s)\<lparr>sets := (sets (kern s))(i \<mapsto> y)\<rparr>"
    using semop_Ret [OF assms(4)] by blast
  show ?thesis by (rule sys_ok_step [OF assms(1-3) x(1,3) assms(5) [OF sys_okD(5) [OF assms(1,2) x(1)] x(2)]])
qed

text \<open>The arrays of operations, each in its place.\<close>

lemma op_moves:
  assumes "set_ok n c i x" "p < n" "int n < BIGCOUNT"
  shows "c p = Create_lock key v i b \<Longrightarrow> do_ops p op_lock x = Ret y \<Longrightarrow> moves n c p (Create_getval i v) i x y"
    "c p = Create_end i b \<Longrightarrow> do_ops p op_endcreate x = Ret y \<Longrightarrow> moves n c p (Use i) i x y"
    "c p = Close_op i b \<Longrightarrow> do_ops p op_close x = Ret y \<Longrightarrow> moves n c p (Close_getval i) i x y"
    "c p = Close_unlock i b \<Longrightarrow> do_ops p op_unlock x = Ret y \<Longrightarrow> moves n c p Idle i x y"
    "c p = Op_op i w b \<Longrightarrow> z \<noteq> 0 \<Longrightarrow> do_ops p (op_op z) x = Ret y \<Longrightarrow> moves n c p (Use i) i x y"
proof -
  note a = set_okD [OF assms(1,2)]
  have m: "c p = Close_op i b \<Longrightarrow> card (users n c i) = Suc (card (users n (c(p := Close_getval i)) i))"
    using card_users_upd [OF assms(2), of c "Close_getval i" i] by simp
  have nz: "c p = Create_end i b \<Longrightarrow> vals x 1 \<noteq> 0" using a(5) assms(3) users_card_le [of n c i] by auto
  show "c p = Create_lock key v i b \<Longrightarrow> do_ops p op_lock x = Ret y \<Longrightarrow> moves n c p (Create_getval i v) i x y"
    "c p = Create_end i b \<Longrightarrow> do_ops p op_endcreate x = Ret y \<Longrightarrow> moves n c p (Use i) i x y"
    "c p = Close_op i b \<Longrightarrow> do_ops p op_close x = Ret y \<Longrightarrow> moves n c p (Close_getval i) i x y"
    "c p = Close_unlock i b \<Longrightarrow> do_ops p op_unlock x = Ret y \<Longrightarrow> moves n c p Idle i x y"
    "c p = Op_op i w b \<Longrightarrow> z \<noteq> 0 \<Longrightarrow> do_ops p (op_op z) x = Ret y \<Longrightarrow> moves n c p (Use i) i x y"
    using a m nz by (auto simp: moves_def op_defs split: if_splits)
qed

lemma semop_or_die_ok:
  assumes "sys_ok n s" "p < n" "int n < BIGCOUNT" "semop_or_die p slept i ops nxt wait (kern s) = Some (c, k)"
    "\<And>x y. set_ok n (pcs s) i x \<Longrightarrow> do_ops p ops x = Ret y \<Longrightarrow> moves n (pcs s) p nxt i x y"
    "locks wait = locks (pcs s p)" "uses wait = uses (pcs s p)" "\<not> in_open wait" "wait \<noteq> ErrDump" "\<And>v m j. knows v m j wait = knows v m j (pcs s p)"
  shows "sys_ok n \<lparr>kern = k, pcs = (pcs s)(p := c)\<rparr>"
proof (cases "semop p slept i ops (kern s)")
  case (Ret k')
  then show ?thesis using sys_ok_semop [OF assms(1-3) Ret assms(5)] assms(4) by (simp add: semop_or_die_def)
next
  case Sleeps
  then show ?thesis using sys_ok_sleep [OF assms(1,2,6-10)] assms(4) by (auto simp: semop_or_die_def split: if_splits)
next
  case (Fails e)
  then show ?thesis using sys_ok_err_sys [OF assms(1-3)] assms(4) by (auto simp: semop_or_die_def)
qed

text \<open>Steps that change the control state only, or the member 0.\<close>

lemma same_moves:
  assumes "set_ok n c i x" "p < n" "int n < BIGCOUNT" "\<And>q. adj y q 1 = adj x q 1 \<and> adj y q 2 = adj x q 2" "vals y 1 = vals x 1" "vals y 2 = vals x 2"
  shows "c p = Create_getval i v \<Longrightarrow> vals x 1 = 0 \<Longrightarrow> moves n c p (Create_set0 i v) i x y"
    "c p = Create_getval i v \<Longrightarrow> vals x 1 \<noteq> 0 \<Longrightarrow> moves n c p (Create_end i False) i x y"
    "c p = Create_set0 i v \<Longrightarrow> moves n c p (Create_set1 i) i x y"
    "c p = Close_getval i \<Longrightarrow> vals x 1 = BIGCOUNT \<Longrightarrow> moves n c p (Close_rm i) i x y"
    "c p = Close_getval i \<Longrightarrow> vals x 1 \<noteq> BIGCOUNT \<Longrightarrow> moves n c p (Close_unlock i False) i x y"
proof -
  note a = set_okD [OF assms(1,2)]
  have m: "card (users n (c(p := b)) i) = card (users n c i)" if "uses (c p) = None" "uses b = None" for b
    using card_users_upd [OF assms(2), of c b i] that by simp
  show "c p = Create_getval i v \<Longrightarrow> vals x 1 = 0 \<Longrightarrow> moves n c p (Create_set0 i v) i x y"
    "c p = Create_getval i v \<Longrightarrow> vals x 1 \<noteq> 0 \<Longrightarrow> moves n c p (Create_end i False) i x y"
    "c p = Create_set0 i v \<Longrightarrow> moves n c p (Create_set1 i) i x y"
    "c p = Close_getval i \<Longrightarrow> vals x 1 = BIGCOUNT \<Longrightarrow> moves n c p (Close_rm i) i x y"
    "c p = Close_getval i \<Longrightarrow> vals x 1 \<noteq> BIGCOUNT \<Longrightarrow> moves n c p (Close_unlock i False) i x y"
    using a assms(4-6) m by (auto simp: moves_def)
qed

lemma sys_ok_same:
  assumes "sys_ok n s" "p < n" "int n < BIGCOUNT" "sets (kern s) i = Some x" "moves n (pcs s) p b i x x"
  shows "sys_ok n \<lparr>kern = kern s, pcs = (pcs s)(p := b)\<rparr>"
  by (rule sys_ok_step [OF assms(1-4) _ assms(5)]) (simp add: assms(4) fun_upd_idem)

lemma create_set1_ok:
  assumes "sys_ok n s" "p < n" "int n < BIGCOUNT" "pcs s p = Create_set1 i" "setval i 1 BIGCOUNT (kern s) = Ret k"
  shows "sys_ok n \<lparr>kern = k, pcs = (pcs s)(p := Create_end i False)\<rparr>"
proof -
  obtain x where x: "sets (kern s) i = Some x" "k = (kern s)\<lparr>sets := (sets (kern s))(i \<mapsto> x\<lparr>vals := (vals x)(1 := BIGCOUNT), adj := (\<lambda>q. (adj x q)(1 := 0))\<rparr>)\<rparr>"
    using setval_Ret [OF assms(5)] by blast
  note ok = sys_okD(5) [OF assms(1,2) x(1)]
  note a = set_okD [OF ok assms(2)]
  have m0: "card (users n (pcs s) i) = 0" using a(1,5) assms(3,4) users_card_le [of n "pcs s" i] by auto
  then have m: "card (users n ((pcs s)(p := Create_end i False)) i) = 0" using card_users_upd [OF assms(2), of "pcs s" "Create_end i False" i] by (simp split: if_splits)
  have nu: "uses (pcs s q) \<noteq> Some i" if "q < n" for q using m0 that by (metis card_0_eq empty_iff users_finite users_mem)
  have nl: "locks (pcs s q) \<noteq> Some i" if "q < n" "q \<noteq> p" for q using sys_okD(6) [OF assms(1,2), of i] that assms(2,4) by auto
  have "set_ok n ((pcs s)(p := Create_end i False)) i (x\<lparr>vals := (vals x)(1 := BIGCOUNT), adj := (\<lambda>q. (adj x q)(1 := 0))\<rparr>)"
    using m a(2,4) assms(2,4) nu nl knows_other set_okD(4) [OF ok] by (auto simp: set_ok_def Let_def)
  then show ?thesis
    by (intro sys_ok_set [OF assms(1,2), of k i]) (use x assms(4) nl in auto)
qed

lemma close_rm_ok:
  assumes "sys_ok n s" "p < n" "int n < BIGCOUNT" "pcs s p = Close_rm i" "sem_rm p i (kern s) = Some (c, k)"
  shows "sys_ok n \<lparr>kern = k, pcs = (pcs s)(p := c)\<rparr>"
proof -
  obtain x where x: "sets (kern s) i = Some x" using sys_okD(3) [OF assms(1,2), of i] assms(4) by auto
  then have k: "c = Idle" "sets k = (sets (kern s))(i := None)" "nextid k = nextid (kern s)" using assms(5) by (auto simp: sem_rm_def)
  have "card (users n (pcs s) i) = 0" using set_okD(5) [OF sys_okD(5) [OF assms(1,2) x] assms(2)] assms(4) by simp
  then have nu: "uses (pcs s q) \<noteq> Some i" if "q < n" for q using that by (metis card_0_eq empty_iff users_finite users_mem)
  have nl: "locks (pcs s q) \<noteq> Some i" if "q < n" "q \<noteq> p" for q using sys_okD(6) [OF assms(1,2), of i] that assms(2,4) by auto
  have "set_ok n ((pcs s)(p := Idle)) j y = set_ok n (pcs s) j y" if "j \<noteq> i" for j y
    using that assms(4) by (intro set_ok_other) auto
  then show ?thesis using assms(1) k nu nl unfolding sys_ok_def by auto
qed

lemma sem_create_ok:
  assumes "sys_ok n s" "p < n" "int n < BIGCOUNT" "sem_create p (pcs s p) (kern s) = Some (c, k)"
  shows "sys_ok n \<lparr>kern = k, pcs = (pcs s)(p := c)\<rparr>"
proof (cases "pcs s p")
  case (Create_semget key v)
  then show ?thesis using sys_ok_semget [OF assms(1,2), of key] sys_ok_pc [OF assms(1,2), of Idle] assms(4) by (auto split: if_splits prod.splits)
next
  case (Create_lock key v i b)
  have mv: "moves n (pcs s) p (Create_getval i v) i x y" if "set_ok n (pcs s) i x" "do_ops p op_lock x = Ret y" for x y
    by (rule op_moves(1) [OF that(1) assms(2,3) Create_lock that(2)])
  show ?thesis
  proof (cases "semop p b i op_lock (kern s)")
    case (Ret k')
    then show ?thesis using sys_ok_semop [OF assms(1-3) Ret mv] assms(4) Create_lock by simp
  next
    case Sleeps
    then show ?thesis using sys_ok_pc [OF assms(1,2), of "Create_lock key v i True"] assms(4) Create_lock by (auto split: if_splits)
  next
    case (Fails e)
    then show ?thesis using sys_ok_pc [OF assms(1,2), of "Create_semget key v"] sys_ok_err_sys [OF assms(1-3)] assms(4) Create_lock
      by (auto split: if_splits)
  qed
next
  case (Create_getval i v)
  obtain x where x: "sets (kern s) i = Some x" using sys_okD(3) [OF assms(1,2), of i] Create_getval by auto
  note mv = same_moves(1,2) [OF sys_okD(5) [OF assms(1,2) x] assms(2,3) _ refl refl Create_getval]
  show ?thesis using sys_ok_same [OF assms(1-3) x] mv assms(4) Create_getval x by (auto simp: getval_def split: if_splits)
next
  case (Create_set0 i v)
  show ?thesis
  proof (cases "setval i 0 v (kern s)")
    case (Ret k')
    then obtain x where x: "sets (kern s) i = Some x" "k' = (kern s)\<lparr>sets := (sets (kern s))(i \<mapsto> x\<lparr>vals := (vals x)(0 := v), adj := (\<lambda>q. (adj x q)(0 := 0))\<rparr>)\<rparr>"
      using setval_Ret by blast
    show ?thesis using sys_ok_step [OF assms(1-3) x same_moves(3) [OF sys_okD(5) [OF assms(1,2) x(1)] assms(2,3) _ _ _ Create_set0]] Ret assms(4) Create_set0 by simp
  qed (use sys_ok_err_sys [OF assms(1-3)] assms(4) Create_set0 in auto)
next
  case (Create_set1 i)
  then show ?thesis using create_set1_ok [OF assms(1-3)] sys_ok_err_sys [OF assms(1-3)] assms(4) by (auto split: sysres.splits)
next
  case (Create_end i b)
  show ?thesis
    by (rule semop_or_die_ok [OF assms(1-3)]) (use assms(2-4) Create_end op_moves(2) in auto)
qed (use assms(4) in auto)

lemma sem_close_ok:
  assumes "sys_ok n s" "p < n" "int n < BIGCOUNT" "sem_close p (pcs s p) (kern s) = Some (c, k)"
  shows "sys_ok n \<lparr>kern = k, pcs = (pcs s)(p := c)\<rparr>"
proof (cases "pcs s p")
  case (Close_op i b)
  show ?thesis by (rule semop_or_die_ok [OF assms(1-3)]) (use assms(2-4) Close_op op_moves(3) in auto)
next
  case (Close_getval i)
  obtain x where x: "sets (kern s) i = Some x" using sys_okD(3) [OF assms(1,2), of i] Close_getval by auto
  note ok = sys_okD(5) [OF assms(1,2) x]
  note mv = same_moves(4,5) [OF ok assms(2,3) _ refl refl Close_getval]
  have "\<not> vals x 1 > BIGCOUNT" using set_okD(5) [OF ok assms(2)] Close_getval by simp
  then show ?thesis using sys_ok_same [OF assms(1-3) x] mv assms(4) Close_getval x by (auto simp: getval_def split: if_splits)
next
  case (Close_rm i)
  then show ?thesis using close_rm_ok [OF assms(1-3)] assms(4) by simp
next
  case (Close_unlock i b)
  show ?thesis by (rule semop_or_die_ok [OF assms(1-3)]) (use assms(2-4) Close_unlock op_moves(4) in auto)
qed (use assms(4) in auto)

lemma sem_op_ok:
  assumes "sys_ok n s" "p < n" "int n < BIGCOUNT" "sem_op p (pcs s p) (kern s) = Some (c, k)"
  shows "sys_ok n \<lparr>kern = k, pcs = (pcs s)(p := c)\<rparr>"
proof (cases "pcs s p")
  case (Op_op i v b)
  show ?thesis
  proof (cases "to_short v = 0")
    case True
    then show ?thesis using sys_ok_err_sys [OF assms(1-3)] assms(4) Op_op by simp
  next
    case False
    show ?thesis by (rule semop_or_die_ok [OF assms(1-3)]) (use assms(2-4) False Op_op op_moves(5) in auto)
  qed
qed (use assms(4) in auto)

lemma pcs_upd: "s\<lparr>pcs := f\<rparr> = \<lparr>kern = kern s, pcs = f\<rparr>"
  by (cases s) simp

lemma step_ok:
  assumes "step n False s s'" "sys_ok n s" "int n < BIGCOUNT"
  shows "sys_ok n s'"
  using assms(1)
proof cases
  case (create p key v)
  then show ?thesis using sys_ok_pc [OF assms(2), of p "Create_semget key v"] by (simp add: pcs_upd)
next
  case (close p i)
  then show ?thesis using sys_ok_sleep [OF assms(2), of p "Close_op i False"] by (simp add: pcs_upd)
next
  case (oper p i v)
  then show ?thesis using sys_ok_sleep [OF assms(2), of p "Op_op i v False"] by (simp add: pcs_upd)
next
  case (call p c k)
  have "sem_open p (pcs s p) (kern s) = None" using sys_okD(1) [OF assms(2) call(2)] by (cases "pcs s p") auto
  then show ?thesis using call sem_create_ok [OF assms(2) _ assms(3)] sem_close_ok [OF assms(2) _ assms(3)] sem_op_ok [OF assms(2) _ assms(3)]
    by (auto simp: proc_step_def split: option.splits)
next
  case (leave p)
  then show ?thesis using sys_ok_exit [OF assms(2) _ assms(3), of p Exited] by simp
qed auto

lemma reach_ok: "reach n False s \<Longrightarrow> int n < BIGCOUNT \<Longrightarrow> sys_ok n s"
proof (induction rule: reach.induct)
  case init
  then show ?case by (simp add: sys_ok_def start_def)
next
  case (more s s')
  then show ?case using step_ok by blast
qed

section \<open>Properties\<close>

text \<open>A process that holds the lock never sleeps.\<close>

lemma lock_holder_runs:
  assumes "sys_ok n s" "p < n" "int n < BIGCOUNT" "locks (pcs s p) = Some i"
  shows "proc_step p (pcs s p) (kern s) \<noteq> None"
proof -
  obtain x where x: "sets (kern s) i = Some x" using sys_okD(3) [OF assms(1,2,4)] by auto
  note a = set_okD [OF sys_okD(5) [OF assms(1,2) x] assms(2)]
  have v2: "vals x 2 = 1" using a(2) assms(2,4) by auto
  have v1: "knows (vals x 1) (card (users n (pcs s) i)) i (pcs s p)" "int (card (users n (pcs s) i)) \<le> int n"
    using a(5) users_card_le by auto
  show ?thesis using assms(3,4) x v1 v2
    by (cases "pcs s p") (auto simp: proc_step_def semop_or_die_def semop_def op_defs getval_def setval_def sem_rm_def BIGCOUNT_def SEMVMX_def
        split: option.splits sysres.splits)
qed

text \<open>C6: as long as fewer than \<open>BIGCOUNT\<close> processes take part and none calls \<open>sem_open\<close>, in every reachable state, whatever the
  interleaving of system calls and whichever processes have exited without closing: a process that has got a semaphore from
  \<open>sem_create\<close> and has not closed it finds its set in the kernel, and the counter of the set is \<open>BIGCOUNT\<close> less the number of its users; at most one
  process holds the lock of a set, and it can always make its next system call; and the \<open>err_dump\<close> of \<open>sem_close\<close> is not reached.\<close>

theorem sem_protocol:
  assumes "reach n False s" "int n < BIGCOUNT" "p < n"
  shows "(\<forall>i. uses (pcs s p) = Some i \<longrightarrow> (\<exists>x. sets (kern s) i = Some x \<and> vals x 1 = BIGCOUNT - int (card {q. q < n \<and> uses (pcs s q) = Some i}))) \<and>
    (\<forall>i. locks (pcs s p) = Some i \<longrightarrow> proc_step p (pcs s p) (kern s) \<noteq> None \<and> (\<forall>q < n. locks (pcs s q) = Some i \<longrightarrow> q = p)) \<and>
    pcs s p \<noteq> ErrDump"
proof -
  have ok: "sys_ok n s" using reach_ok assms(1,2) by blast
  have "\<exists>x. sets (kern s) i = Some x \<and> vals x 1 = BIGCOUNT - int (card (users n (pcs s) i))" if u: "uses (pcs s p) = Some i" for i
  proof -
    obtain x where x: "sets (kern s) i = Some x" using sys_okD(4) [OF ok assms(3) u] by auto
    have "card (users n (pcs s) i) \<noteq> 0" using u assms(3) by (metis card_0_eq empty_iff users_finite users_mem)
    then show ?thesis using x set_okD(1) [OF sys_okD(5) [OF ok assms(3) x] assms(3)] by auto
  qed
  then show ?thesis using sys_okD(2,6) [OF ok assms(3)] lock_holder_runs [OF ok assms(3,2)] assms(3) unfolding users_def by blast
qed

text \<open>A schedule: which process does what next.\<close>

datatype act = Start_create nat int int | Start_open nat int | Start_close nat | Start_op nat int | Call nat

fun act_step :: "act \<Rightarrow> system \<Rightarrow> system option" where
  "act_step (Start_create p key v) s = (if pcs s p = Idle then Some (s\<lparr>pcs := (pcs s)(p := Create_semget key v)\<rparr>) else None)"
| "act_step (Start_open p key) s = (if pcs s p = Idle then Some (s\<lparr>pcs := (pcs s)(p := Open_semget key)\<rparr>) else None)"
| "act_step (Start_close p) s = (case pcs s p of Use i \<Rightarrow> Some (s\<lparr>pcs := (pcs s)(p := Close_op i False)\<rparr>) | _ \<Rightarrow> None)"
| "act_step (Start_op p v) s = (case pcs s p of Use i \<Rightarrow> Some (s\<lparr>pcs := (pcs s)(p := Op_op i v False)\<rparr>) | _ \<Rightarrow> None)"
| "act_step (Call p) s = do { (c, k) \<leftarrow> proc_step p (pcs s p) (kern s); Some \<lparr>kern = k, pcs = (pcs s)(p := c)\<rparr> }"

fun actor :: "act \<Rightarrow> nat" where
  "actor (Start_create p key v) = p" | "actor (Start_open p key) = p" | "actor (Start_close p) = p" | "actor (Start_op p v) = p" | "actor (Call p) = p"

fun is_open :: "act \<Rightarrow> bool" where
  "is_open (Start_open p key) = True" | "is_open _ = False"

fun schedule :: "act list \<Rightarrow> system \<Rightarrow> system option" where
  "schedule [] s = Some s"
| "schedule (a # as) s = do { s \<leftarrow> act_step a s; schedule as s }"

lemma act_step_step: "act_step a s = Some s' \<Longrightarrow> actor a < n \<Longrightarrow> is_open a \<longrightarrow> opens \<Longrightarrow> step n opens s s'"
  by (cases a) (auto simp: Option.bind_eq_Some_conv split: if_splits pc.splits intro: step.intros)

lemma schedule_reach:
  "schedule as s = Some s' \<Longrightarrow> reach n opens s \<Longrightarrow> list_all (\<lambda>a. actor a < n \<and> (is_open a \<longrightarrow> opens)) as \<Longrightarrow> reach n opens s'"
proof (induction as arbitrary: s)
  case (Cons a as)
  then show ?case by (fastforce simp: Option.bind_eq_Some_conv intro: reach.more act_step_step)
qed simp

definition create_it :: "nat \<Rightarrow> act list" where
  "create_it p = Start_create p 17 1 # replicate 6 (Call p)"

theorem sem_protocol_witness:
  "\<exists>s x. reach 2 False s \<and> pcs s 0 = Use 0 \<and> sets (kern s) 0 = Some x \<and> vals x 1 = 9999"
proof -
  have u: "map_option (\<lambda>s. (pcs s 0, pcs s 1)) (schedule (create_it 0) start) = Some (Use 0, Idle)" by code_simp
  then obtain s where s: "schedule (create_it 0) start = Some s" "pcs s 0 = Use 0" "pcs s 1 = Idle" by auto
  have r: "reach 2 False s" by (rule schedule_reach [OF s(1) reach.init]) (simp add: create_it_def list_all_iff)
  have "{q. q < 2 \<and> uses (pcs s q) = Some 0} = {0}" using s by (auto simp: numeral_2_eq_2 less_Suc_eq)
  then show ?thesis using sem_protocol [OF r, of 0] r s(2) by (auto simp: BIGCOUNT_def)
qed

text \<open>Two races with two processes. Process 1 opens the semaphore with \<open>sem_open\<close>, which takes no lock, between the moments when process
  0 reads in \<open>sem_close\<close> that it is the last user and when it removes the set: then process 1 uses a
  semaphore that does not exist, and its next operation ends it. And process 1 calls \<open>sem_create\<close> and waits for the lock when process 0 removes
  the set: its \<open>semop\<close> fails with \<open>EIDRM\<close>, for which the code does not try again as it does for \<open>EINVAL\<close>, and ends the process.\<close>

theorem sem_races:
  "(\<exists>s s'. reach 2 True s \<and> pcs s 1 = Use 0 \<and> sets (kern s) 0 = None \<and> schedule [Start_op 1 (- 1), Call 1] s = Some s' \<and> pcs s' 1 = ErrSys EINVAL) \<and>
   (\<exists>s. reach 2 False s \<and> pcs s 1 = ErrSys EIDRM)"
proof (rule conjI)
  let ?a = "create_it 0 @ [Start_close 0, Call 0, Call 0, Start_open 1 17, Call 1, Call 1, Call 0]"
  have "map_option (\<lambda>s. (pcs s 1, Option.is_none (sets (kern s) 0), map_option (\<lambda>s. pcs s 1) (schedule [Start_op 1 (- 1), Call 1] s))) (schedule ?a start) =
    Some (Use 0, True, Some (ErrSys EINVAL))" by code_simp
  then obtain s s' where s: "schedule ?a start = Some s" "pcs s 1 = Use 0" "sets (kern s) 0 = None" "schedule [Start_op 1 (- 1), Call 1] s = Some s'" "pcs s' 1 = ErrSys EINVAL"
    by (auto simp: Option.is_none_def simp del: schedule.simps)
  have "reach 2 True s" by (rule schedule_reach [OF s(1) reach.init]) (simp add: create_it_def list_all_iff)
  then show "\<exists>s s'. reach 2 True s \<and> pcs s 1 = Use 0 \<and> sets (kern s) 0 = None \<and> schedule [Start_op 1 (- 1), Call 1] s = Some s' \<and> pcs s' 1 = ErrSys EINVAL"
    using s(2-) by blast
next
  let ?a = "create_it 0 @ [Start_close 0, Call 0, Start_create 1 17 1, Call 1, Call 1, Call 0, Call 0, Call 1]"
  have "map_option (\<lambda>s. pcs s 1) (schedule ?a start) = Some (ErrSys EIDRM)" by code_simp
  then obtain s where s: "schedule ?a start = Some s" "pcs s 1 = ErrSys EIDRM" by auto
  have "reach 2 False s" by (rule schedule_reach [OF s(1) reach.init]) (simp add: create_it_def list_all_iff)
  then show "\<exists>s. reach 2 False s \<and> pcs s 1 = ErrSys EIDRM" using s(2) by blast
qed

end
