(* ===== verification/Job_Queue.thy ===== *)
theory Job_Queue
  imports Linked_Lists
begin

text \<open>
  The job queue under a reader-writer lock of \<open>apue.3e/threads/rwlock.c\<close> and the copy of it in
  \<open>apue/11.6.4job_queue.c\<close>. Every function that changes the queue holds the write lock from its first to its last
  statement and \<open>job_find\<close> holds the read lock during its scan, so the functions are translated as critical sections.
  The queue is shown to behave like a list of jobs. The copy differs in one character of \<open>job_remove\<close>, and
  its effect on the queue is described exactly.
\<close>

section \<open>The queue and its operations\<close>

record job =
  j_next :: nat
  j_prev :: nat
  j_id :: nat

record queue =
  q_head :: nat
  q_tail :: nat

text \<open>The result of \<open>pthread_rwlock_init\<close> is a parameter.\<close>

definition queue_init :: "int \<Rightarrow> queue \<Rightarrow> queue \<times> int" where
  "queue_init err qp = (let qp = qp\<lparr>q_head := 0\<rparr>; qp = qp\<lparr>q_tail := 0\<rparr> in
     if err \<noteq> 0 then (qp, err) else (qp, 0))"

definition job_insert :: "nat \<Rightarrow> queue \<times> job store \<Rightarrow> (queue \<times> job store) option" where
  "job_insert jp = (\<lambda>(qp, h). do {
     h \<leftarrow> modify h jp (j_next_update (\<lambda>_. q_head qp));
     h \<leftarrow> modify h jp (j_prev_update (\<lambda>_. 0));
     (qp, h) \<leftarrow> (if q_head qp \<noteq> 0
       then do { h \<leftarrow> modify h (q_head qp) (j_prev_update (\<lambda>_. jp)); Some (qp, h) }
       else Some (qp\<lparr>q_tail := jp\<rparr>, h));
     Some (qp\<lparr>q_head := jp\<rparr>, h) })"

definition job_append :: "nat \<Rightarrow> queue \<times> job store \<Rightarrow> (queue \<times> job store) option" where
  "job_append jp = (\<lambda>(qp, h). do {
     h \<leftarrow> modify h jp (j_next_update (\<lambda>_. 0));
     h \<leftarrow> modify h jp (j_prev_update (\<lambda>_. q_tail qp));
     (qp, h) \<leftarrow> (if q_tail qp \<noteq> 0
       then do { h \<leftarrow> modify h (q_tail qp) (j_next_update (\<lambda>_. jp)); Some (qp, h) }
       else Some (qp\<lparr>q_head := jp\<rparr>, h));
     Some (qp\<lparr>q_tail := jp\<rparr>, h) })"

text \<open>The statements \<open>jp->j_next->j_prev = jp->j_prev\<close> and \<open>jp->j_prev->j_next = jp->j_next\<close>.\<close>

definition bypass_next :: "nat \<Rightarrow> job store \<Rightarrow> job store option" where
  "bypass_next jp h = do { j \<leftarrow> load h jp; modify h (j_next j) (j_prev_update (\<lambda>_. j_prev j)) }"

definition bypass_prev :: "nat \<Rightarrow> job store \<Rightarrow> job store option" where
  "bypass_prev jp h = do { j \<leftarrow> load h jp; modify h (j_prev j) (j_next_update (\<lambda>_. j_next j)) }"

definition job_remove :: "nat \<Rightarrow> queue \<times> job store \<Rightarrow> (queue \<times> job store) option" where
  "job_remove jp = (\<lambda>(qp, h).
     if jp = q_head qp then do {
       j \<leftarrow> load h jp;
       qp \<leftarrow> Some (qp\<lparr>q_head := j_next j\<rparr>);
       if q_tail qp = jp then Some (qp\<lparr>q_tail := 0\<rparr>, h)
       else do { h \<leftarrow> bypass_next jp h; Some (qp, h) } }
     else if jp = q_tail qp then do {
       j \<leftarrow> load h jp;
       h \<leftarrow> bypass_prev jp h;
       Some (qp\<lparr>q_tail := j_prev j\<rparr>, h) }
     else do {
       h \<leftarrow> bypass_prev jp h;
       h \<leftarrow> bypass_next jp h;
       Some (qp, h) })"

text \<open>The scan of \<open>job_find\<close>; a chain of links that never ends is a call that does not return.\<close>

partial_function (option) find_loop :: "job store \<Rightarrow> nat \<Rightarrow> nat \<Rightarrow> nat option" where
  "find_loop h tid jp = (if jp = 0 then Some 0 else do {
     j \<leftarrow> load h jp;
     if j_id j = tid then Some jp else find_loop h tid (j_next j) })"

definition job_find :: "bool \<Rightarrow> nat \<Rightarrow> queue \<times> job store \<Rightarrow> nat option" where
  "job_find rdlock_ok tid = (\<lambda>(qp, h). if \<not> rdlock_ok then Some 0 else find_loop h tid (q_head qp))"

section \<open>The copy of 11.6.4\<close>

text \<open>The copies of the other functions are the same; \<open>job_remove\<close> has the assignment
  \<open>qp->q_tail = jp\<close> as its inner condition, which is true for every job.\<close>

definition job_insert_copy :: "nat \<Rightarrow> queue \<times> job store \<Rightarrow> (queue \<times> job store) option" where
  "job_insert_copy jp = (\<lambda>(qp, h). do {
     h \<leftarrow> modify h jp (j_next_update (\<lambda>_. q_head qp));
     h \<leftarrow> modify h jp (j_prev_update (\<lambda>_. 0));
     (qp, h) \<leftarrow> (if q_head qp \<noteq> 0
       then do { h \<leftarrow> modify h (q_head qp) (j_prev_update (\<lambda>_. jp)); Some (qp, h) }
       else Some (qp\<lparr>q_tail := jp\<rparr>, h));
     Some (qp\<lparr>q_head := jp\<rparr>, h) })"

definition job_append_copy :: "nat \<Rightarrow> queue \<times> job store \<Rightarrow> (queue \<times> job store) option" where
  "job_append_copy jp = (\<lambda>(qp, h). do {
     h \<leftarrow> modify h jp (j_next_update (\<lambda>_. 0));
     h \<leftarrow> modify h jp (j_prev_update (\<lambda>_. q_tail qp));
     (qp, h) \<leftarrow> (if q_tail qp \<noteq> 0
       then do { h \<leftarrow> modify h (q_tail qp) (j_next_update (\<lambda>_. jp)); Some (qp, h) }
       else Some (qp\<lparr>q_head := jp\<rparr>, h));
     Some (qp\<lparr>q_tail := jp\<rparr>, h) })"

definition job_remove_copy :: "nat \<Rightarrow> queue \<times> job store \<Rightarrow> (queue \<times> job store) option" where
  "job_remove_copy jp = (\<lambda>(qp, h).
     if jp = q_head qp then do {
       j \<leftarrow> load h jp;
       qp \<leftarrow> Some (qp\<lparr>q_head := j_next j\<rparr>);
       qp \<leftarrow> Some (qp\<lparr>q_tail := jp\<rparr>);
       if q_tail qp \<noteq> 0 then Some (qp\<lparr>q_tail := 0\<rparr>, h)
       else do { h \<leftarrow> bypass_next jp h; Some (qp, h) } }
     else if jp = q_tail qp then do {
       j \<leftarrow> load h jp;
       h \<leftarrow> bypass_prev jp h;
       Some (qp\<lparr>q_tail := j_prev j\<rparr>, h) }
     else do {
       h \<leftarrow> bypass_prev jp h;
       h \<leftarrow> bypass_next jp h;
       Some (qp, h) })"

definition job_find_copy :: "bool \<Rightarrow> nat \<Rightarrow> queue \<times> job store \<Rightarrow> nat option" where
  "job_find_copy rdlock_ok tid = (\<lambda>(qp, h). if \<not> rdlock_ok then Some 0 else find_loop h tid (q_head qp))"

section \<open>The queue represents a list\<close>

text \<open>The jobs of the queue in order, and the thread of every allocated job.\<close>

definition rep :: "queue \<times> job store \<Rightarrow> nat list \<Rightarrow> bool" where
  "rep = (\<lambda>(qp, h) xs. dlist j_next j_prev h (q_head qp) (q_tail qp) xs)"

definition ids :: "queue \<times> job store \<Rightarrow> nat \<Rightarrow> nat option" where
  "ids = (\<lambda>(qp, h) p. map_option j_id (h p))"

interpretation jq: links j_next j_prev "\<lambda>q. j_next_update (\<lambda>_. q)" "\<lambda>p. j_prev_update (\<lambda>_. p)" j_id
  by unfold_locales auto

lemma queue_init_rep: "rep (fst (queue_init err qp), h) []"
  by (auto simp: rep_def dlist_def queue_init_def Let_def)

lemma job_insert_rep:
  assumes r: "rep s xs" and jp: "jp \<notin> set xs" "jp \<noteq> 0" "ids s jp \<noteq> None"
  shows "\<exists>s'. job_insert jp s = Some s' \<and> rep s' (jp # xs) \<and> ids s' = ids s"
proof -
  obtain qp h where s: "s = (qp, h)" by (cases s)
  obtain j where j: "h jp = Some j" using jp(3) by (auto simp: s ids_def)
  let ?n = "\<lparr>j_next = q_head qp, j_prev = 0, j_id = j_id j\<rparr>"
  have d: "dlist j_next j_prev h (q_head qp) (q_tail qp) xs" using r by (simp add: s rep_def)
  from jq.dlist_push [OF d jp(1,2), of ?n]
  obtain h' where h': "(if q_head qp = 0 then Some (h(jp \<mapsto> ?n)) else modify (h(jp \<mapsto> ?n)) (q_head qp) (j_prev_update (\<lambda>_. jp))) = Some h'"
    "dlist j_next j_prev h' jp (if q_head qp = 0 then jp else q_tail qp) (jp # xs)" "h' jp = Some ?n"
    "\<forall>x. x \<noteq> jp \<longrightarrow> map_option j_id (h' x) = map_option j_id (h x)" by auto
  have "map_option j_id (h' x) = map_option j_id (h x)" for x using h'(3,4) j by (cases "x = jp") auto
  moreover have "job_insert jp s = Some ((if q_head qp \<noteq> 0 then qp else qp\<lparr>q_tail := jp\<rparr>)\<lparr>q_head := jp\<rparr>, h')"
    using h'(1) j jp(2) by (cases j) (simp add: s job_insert_def split: if_splits)
  ultimately show ?thesis using h'(2) by (auto simp: rep_def ids_def s)
qed

lemma job_append_rep:
  assumes r: "rep s xs" and jp: "jp \<notin> set xs" "jp \<noteq> 0" "ids s jp \<noteq> None"
  shows "\<exists>s'. job_append jp s = Some s' \<and> rep s' (xs @ [jp]) \<and> ids s' = ids s"
proof -
  obtain qp h where s: "s = (qp, h)" by (cases s)
  obtain j where j: "h jp = Some j" using jp(3) by (auto simp: s ids_def)
  let ?n = "\<lparr>j_next = 0, j_prev = q_tail qp, j_id = j_id j\<rparr>"
  have d: "dlist j_next j_prev h (q_head qp) (q_tail qp) xs" using r by (simp add: s rep_def)
  from jq.dlist_append [OF d jp(1,2), of ?n]
  obtain h' where h': "(if q_tail qp = 0 then Some (h(jp \<mapsto> ?n)) else modify (h(jp \<mapsto> ?n)) (q_tail qp) (j_next_update (\<lambda>_. jp))) = Some h'"
    "dlist j_next j_prev h' (if q_tail qp = 0 then jp else q_head qp) jp (xs @ [jp])" "h' jp = Some ?n"
    "\<forall>x. x \<noteq> jp \<longrightarrow> map_option j_id (h' x) = map_option j_id (h x)" by auto
  have "map_option j_id (h' x) = map_option j_id (h x)" for x using h'(3,4) j by (cases "x = jp") auto
  moreover have "job_append jp s = Some ((if q_tail qp \<noteq> 0 then qp else qp\<lparr>q_head := jp\<rparr>)\<lparr>q_tail := jp\<rparr>, h')"
    using h'(1) j jp(2) by (cases j) (simp add: s job_append_def split: if_splits)
  ultimately show ?thesis using h'(2) by (auto simp: rep_def ids_def s)
qed

text \<open>The three cases of \<open>job_remove\<close> do what unlinking does: which of them is taken says whether the job
  has a predecessor and a successor.\<close>

lemma dlist_ends:
  assumes "dlist nx pv h hp tp (as @ t # bs)" "h t = Some n"
  shows "t \<noteq> 0" "t = hp \<longleftrightarrow> pv n = 0" "t = tp \<longleftrightarrow> nx n = 0" "nx n \<noteq> t" "pv n \<noteq> t" "nx n \<noteq> 0 \<Longrightarrow> pv n \<noteq> nx n"
    "nx n = 0 \<or> h (nx n) \<noteq> None" "pv n = 0 \<or> h (pv n) \<noteq> None"
proof -
  have l: "linked nx pv h 0 as t" "linked nx pv h t bs 0" "pv n = lastp as 0" "nx n = headp bs 0" "t \<noteq> 0"
    and ds: "distinct (as @ t # bs)" and ht: "hp = headp as t" "tp = lastp bs t"
    using assms by (auto simp: dlist_def linked_append lastp_def)
  note lm = linked_dom [OF l(1)] linked_dom [OF l(2)]
  show "t \<noteq> 0" by fact
  show "t = hp \<longleftrightarrow> pv n = 0" using l(3) ht(1) ds lm(1) by (cases as) (auto simp: lastp_def)
  show "t = tp \<longleftrightarrow> nx n = 0" using l(4) ht(2) ds lm(2) [of "headp bs 0"] last_in_set [of "tl bs"] by (cases bs) (auto simp: lastp_def)
  show "nx n \<noteq> t" using l(4,5) ds by (cases bs) auto
  show "pv n \<noteq> t" using l(3,5) ds by (auto simp: lastp_def)
  show "nx n = 0 \<or> h (nx n) \<noteq> None" using l(4) lm(2) by (cases bs) auto
  show "pv n = 0 \<or> h (pv n) \<noteq> None" using l(3) lm(1) by (auto simp: lastp_def)
  show "pv n \<noteq> nx n" if ne: "nx n \<noteq> 0"
  proof
    assume "pv n = nx n"
    moreover from this have "as \<noteq> []" "bs \<noteq> []" using ne l(3,4) by auto
    ultimately have "nx n \<in> set as" "nx n \<in> set bs" using l(3,4) lastp_mem [of as 0] headp_mem [of bs 0] by auto
    then show False using ds by auto
  qed
qed

lemma job_remove_rep:
  assumes r: "rep s (as @ jp # bs)"
  shows "\<exists>s'. job_remove jp s = Some s' \<and> rep s' (as @ bs) \<and> ids s' = ids s"
proof -
  obtain qp h where s: "s = (qp, h)" by (cases s)
  have d: "dlist j_next j_prev h (q_head qp) (q_tail qp) (as @ jp # bs)" using r by (simp add: s rep_def)
  obtain j where j: "h jp = Some j" using d linked_dom [of j_next j_prev h 0 "as @ jp # bs" 0 jp] by (auto simp: dlist_def)
  note e = dlist_ends [OF d j]
  obtain h1 h' where h': "(if j_next j \<noteq> 0 then modify h (j_next j) (j_prev_update (\<lambda>_. j_prev j)) else Some h) = Some h1"
    "(if j_prev j \<noteq> 0 then modify h1 (j_prev j) (j_next_update (\<lambda>_. j_next j)) else Some h1) = Some h'"
    "dlist j_next j_prev h' (if j_prev j \<noteq> 0 then q_head qp else j_next j) (if j_next j \<noteq> 0 then q_tail qp else j_prev j) (as @ bs)"
    "\<forall>x. map_option j_id (h' x) = map_option j_id (h x)"
    using jq.dlist_unlink [OF d j] by auto
  have "job_remove jp s = Some (qp\<lparr>q_head := (if j_prev j \<noteq> 0 then q_head qp else j_next j),
      q_tail := (if j_next j \<noteq> 0 then q_tail qp else j_prev j)\<rparr>, h')"
  proof (cases "j_prev j = 0 \<or> j_next j = 0")
    case True
    then consider "j_prev j = 0" "j_next j = 0" | "j_prev j = 0" "j_next j \<noteq> 0" | "j_prev j \<noteq> 0" "j_next j = 0" by fastforce
    then show ?thesis
    proof cases
      case 1
      then have "jp = q_head qp" "q_tail qp = jp" using e by auto
      then show ?thesis using 1 h'(1,2) e(1) j by (simp add: s job_remove_def)
    next
      case 2
      then have "jp = q_head qp" "q_tail qp \<noteq> jp" using e by auto
      then show ?thesis using 2 h'(1,2) e(1) j by (simp add: s job_remove_def bypass_next_def)
    next
      case 3
      then have "jp \<noteq> q_head qp" "q_tail qp = jp" using e by auto
      then show ?thesis using 3 h'(1,2) e(1) j by (simp add: s job_remove_def bypass_prev_def)
    qed
  next
    case False
    then obtain a b where ab: "h (j_prev j) = Some a" "h (j_next j) = Some b" using e(7,8) by auto
    have "h1 = h(j_next j \<mapsto> j_prev_update (\<lambda>_. j_prev j) b)" using h'(1) False ab by simp
    with h'(2) have "h' = h(j_next j \<mapsto> j_prev_update (\<lambda>_. j_prev j) b, j_prev j \<mapsto> j_next_update (\<lambda>_. j_next j) a)"
      using False e(6) ab by simp
    then have "h' = h(j_prev j \<mapsto> j_next_update (\<lambda>_. j_next j) a, j_next j \<mapsto> j_prev_update (\<lambda>_. j_prev j) b)"
      using False e(6) by (simp add: fun_upd_twist)
    moreover have "jp \<noteq> q_head qp" "jp \<noteq> q_tail qp" "j_prev j \<noteq> jp" "j_next j \<noteq> jp" "j_prev j \<noteq> j_next j" "jp \<noteq> 0" using False e by auto
    ultimately show ?thesis using False ab j
      by (simp add: s job_remove_def bypass_next_def bypass_prev_def)
  qed
  then show ?thesis using h'(3,4) by (auto simp: s rep_def ids_def)
qed

text \<open>The scan returns the first job of the thread and ends, because the links of a represented queue form a list.\<close>

lemma find_loop_linked:
  "linked j_next j_prev h p xs 0 \<Longrightarrow> find_loop h tid (headp xs 0) =
     Some (case find (\<lambda>x. map_option j_id (h x) = Some tid) xs of None \<Rightarrow> 0 | Some x \<Rightarrow> x)"
proof (induction xs arbitrary: p)
  case Nil
  then show ?case by (simp add: find_loop.simps)
next
  case (Cons x xs)
  then obtain j where "h x = Some j" "x \<noteq> 0" "j_next j = headp xs 0" by (auto split: option.splits)
  moreover have "linked j_next j_prev h x xs 0" using Cons.prems by simp
  ultimately show ?case using Cons.IH [of x] by (simp add: find_loop.simps [of h tid x])
qed

lemma job_find_rep:
  "rep s xs \<Longrightarrow> job_find True tid s = Some (case find (\<lambda>x. ids s x = Some tid) xs of None \<Rightarrow> 0 | Some x \<Rightarrow> x)"
  by (cases s) (auto simp: rep_def ids_def job_find_def dlist_def find_loop_linked)

section \<open>Refinement\<close>

datatype qop = Insert nat | Append nat | Remove nat | Find nat bool

text \<open>A call of the queue's interface, with the pointer it returns (0 for the functions without a result).\<close>

fun exec_op :: "qop \<Rightarrow> queue \<times> job store \<Rightarrow> (nat \<times> queue \<times> job store) option" where
  "exec_op (Insert jp) s = do { s \<leftarrow> job_insert jp s; Some (0, s) }"
| "exec_op (Append jp) s = do { s \<leftarrow> job_append jp s; Some (0, s) }"
| "exec_op (Remove jp) s = do { s \<leftarrow> job_remove jp s; Some (0, s) }"
| "exec_op (Find tid ok) s = do { jp \<leftarrow> job_find ok tid s; Some (jp, s) }"

fun exec_ops :: "qop list \<Rightarrow> queue \<times> job store \<Rightarrow> (nat list \<times> queue \<times> job store) option" where
  "exec_ops [] s = Some ([], s)"
| "exec_ops (c # cs) s = do { (r, s) \<leftarrow> exec_op c s; (rs, s) \<leftarrow> exec_ops cs s; Some (r # rs, s) }"

text \<open>The specification on the list of jobs \<open>xs\<close> with the thread \<open>f p\<close> of every allocated job: a
  call outside of the contract is \<^const>\<open>None\<close>.\<close>

fun spec_op :: "(nat \<Rightarrow> nat option) \<Rightarrow> qop \<Rightarrow> nat list \<Rightarrow> (nat \<times> nat list) option" where
  "spec_op f (Insert jp) xs = (if jp = 0 \<or> jp \<in> set xs \<or> f jp = None then None else Some (0, jp # xs))"
| "spec_op f (Append jp) xs = (if jp = 0 \<or> jp \<in> set xs \<or> f jp = None then None else Some (0, xs @ [jp]))"
| "spec_op f (Remove jp) xs = (if jp \<in> set xs then Some (0, remove1 jp xs) else None)"
| "spec_op f (Find tid ok) xs =
     Some (if ok then (case find (\<lambda>x. f x = Some tid) xs of None \<Rightarrow> 0 | Some x \<Rightarrow> x) else 0, xs)"

fun spec_ops :: "(nat \<Rightarrow> nat option) \<Rightarrow> qop list \<Rightarrow> nat list \<Rightarrow> (nat list \<times> nat list) option" where
  "spec_ops f [] xs = Some ([], xs)"
| "spec_ops f (c # cs) xs = do { (r, xs) \<leftarrow> spec_op f c xs; (rs, xs) \<leftarrow> spec_ops f cs xs; Some (r # rs, xs) }"

lemma exec_op_refines:
  assumes "rep s xs" "spec_op (ids s) c xs = Some (r, ys)"
  shows "\<exists>s'. exec_op c s = Some (r, s') \<and> rep s' ys \<and> ids s' = ids s"
proof (cases c)
  case (Insert jp)
  then show ?thesis using job_insert_rep [OF assms(1), of jp] assms(2) by (auto split: if_splits)
next
  case (Append jp)
  then show ?thesis using job_append_rep [OF assms(1), of jp] assms(2) by (auto split: if_splits)
next
  case (Remove jp)
  then have jp: "jp \<in> set xs" "r = 0" "ys = remove1 jp xs" using assms(2) by (auto split: if_splits)
  then obtain as bs where xs: "xs = as @ jp # bs" "jp \<notin> set as" by (meson split_list_first)
  then have "ys = as @ bs" using jp by (simp add: remove1_append)
  then show ?thesis using job_remove_rep [of s as jp bs] assms(1) xs jp Remove by auto
next
  case (Find tid ok)
  then show ?thesis using assms job_find_rep [OF assms(1), of tid] by (cases s) (auto simp: job_find_def)
qed

lemma exec_ops_refines:
  "rep s xs \<Longrightarrow> spec_ops (ids s) cs xs = Some (rs, ys) \<Longrightarrow> \<exists>s'. exec_ops cs s = Some (rs, s') \<and> rep s' ys \<and> ids s' = ids s"
proof (induction cs arbitrary: s xs rs)
  case Nil
  then show ?case by simp
next
  case (Cons c cs)
  then obtain r xs1 rs1 where c: "spec_op (ids s) c xs = Some (r, xs1)" "spec_ops (ids s) cs xs1 = Some (rs1, ys)" "rs = r # rs1"
    by (auto simp: bind_eq_Some_conv)
  from exec_op_refines [OF Cons.prems(1) c(1)]
  obtain s1 where "exec_op c s = Some (r, s1)" "rep s1 xs1" "ids s1 = ids s" by blast
  then show ?case using Cons.IH [of s1 xs1 rs1] c by auto
qed

text \<open>C26: Every sequence of calls that keeps to the contract of the
  queue (a job that is put in is allocated and not in the queue, a job that is removed is in it) runs to its end on a queue that
  \<open>queue_init\<close> has set up, returns what the calls return on a plain list of jobs, and leaves the queue with the jobs of that list
  in their order, linked in both directions; \<open>job_find\<close> ends and returns the first job of the thread, or a null pointer if there is none or
  the lock cannot be taken. No call follows a null or dangling pointer.\<close>

theorem jobq_refines_list:
  assumes "spec_ops f cs [] = Some (rs, ys)" "\<And>x. map_option j_id (h x) = f x"
  shows "\<exists>qp' h'. exec_ops cs (fst (queue_init err qp), h) = Some (rs, qp', h') \<and>
    dlist j_next j_prev h' (q_head qp') (q_tail qp') ys \<and> (\<forall>x. map_option j_id (h' x) = f x)"
proof -
  have "ids (fst (queue_init err qp), h) = f" using assms(2) by (auto simp: ids_def)
  then obtain s' where s': "exec_ops cs (fst (queue_init err qp), h) = Some (rs, s')" "rep s' ys" "ids s' = f"
    using exec_ops_refines [OF queue_init_rep, of err qp h cs rs ys] assms(1) by auto
  obtain qp' h' where "s' = (qp', h')" by (cases s')
  then show ?thesis using s' by (intro exI [of _ qp'] exI [of _ h']) (auto simp: rep_def ids_def)
qed

theorem jobq_refines_list_witness:
  "\<exists>qp' h'. exec_ops [Append 4, Append 8, Insert 12, Find 7 True, Remove 8, Find 7 True, Remove 12]
       (fst (queue_init 0 \<lparr>q_head = 99, q_tail = 1\<rparr>), (\<lambda>p. if p \<in> {4, 8, 12} then Some \<lparr>j_next = 5, j_prev = 3, j_id = if p = 8 then 7 else 6\<rparr> else None))
     = Some ([0, 0, 0, 8, 0, 0, 0], qp', h') \<and> dlist j_next j_prev h' (q_head qp') (q_tail qp') [4] \<and>
       (\<forall>x. map_option j_id (h' x) = (if x \<in> {4, 8, 12} then Some (if x = 8 then 7 else 6) else None))"
  by (rule jobq_refines_list) (simp_all split: if_splits)

section \<open>What the copy does\<close>

text \<open>The functions of the copy \<open>11.6.4job_queue.c\<close> are those of \<open>rwlock.c\<close> except for the removal
  of the first job. Removing a job that is not the first, or is the only one, is right. Removing the first of two or more jobs empties the tail
  pointer although jobs remain, so the next job that is appended becomes the whole queue: every other job
  is lost.\<close>

theorem jobq_copy_loses_jobs:
  assumes "rep s (as @ a # bs)"
  shows "(as \<noteq> [] \<or> bs = [] \<longrightarrow> job_remove_copy a s = job_remove a s) \<and>
    (as = [] \<and> bs \<noteq> [] \<and> c \<noteq> 0 \<and> ids s c \<noteq> None \<longrightarrow>
      (\<exists>s1 s2. job_remove_copy a s = Some s1 \<and> q_head (fst s1) = hd bs \<and> q_tail (fst s1) = 0 \<and> job_append_copy c s1 = Some s2 \<and>
        rep s2 [c] \<and> job_find_copy True tid s2 = Some (if ids s c = Some tid then c else 0))) \<and>
    job_insert_copy = job_insert \<and> job_append_copy = job_append \<and> job_find_copy = job_find"
proof (intro conjI impI; (elim conjE)?)
  obtain qp h where s: "s = (qp, h)" by (cases s)
  have d: "dlist j_next j_prev h (q_head qp) (q_tail qp) (as @ a # bs)" using assms by (simp add: s rep_def)
  obtain j where j: "h a = Some j" using d linked_dom [of j_next j_prev h 0 "as @ a # bs" 0 a] by (auto simp: dlist_def)
  note e = dlist_ends [OF d j]
  show "job_remove_copy a s = job_remove a s" if "as \<noteq> [] \<or> bs = []"
  proof (cases "as = []")
    case True
    then have "q_tail qp = a" using that d by (simp add: dlist_def)
    then show ?thesis using e(1) by (simp add: s job_remove_copy_def job_remove_def)
  next
    case False
    then have "a \<noteq> q_head qp" using d by (cases as) (auto simp: dlist_def)
    then show ?thesis by (simp add: s job_remove_copy_def job_remove_def)
  qed
  show ins: "job_insert_copy = job_insert" "job_append_copy = job_append" "job_find_copy = job_find"
    by (auto simp: fun_eq_iff job_insert_copy_def job_insert_def job_append_copy_def job_append_def job_find_copy_def job_find_def split_beta)
  show "\<exists>s1 s2. job_remove_copy a s = Some s1 \<and> q_head (fst s1) = hd bs \<and> q_tail (fst s1) = 0 \<and>
      job_append_copy c s1 = Some s2 \<and> rep s2 [c] \<and> job_find_copy True tid s2 = Some (if ids s c = Some tid then c else 0)"
    if ab: "as = []" "bs \<noteq> []" and c: "c \<noteq> 0" "ids s c \<noteq> None"
  proof -
    have hd: "a = q_head qp" "j_next j = hd bs" using d j ab by (cases bs; auto simp: dlist_def)+
    let ?q = "qp\<lparr>q_head := hd bs, q_tail := 0\<rparr>"
    obtain n where n: "h c = Some n" using c(2) by (auto simp: s ids_def)
    let ?s2 = "(?q\<lparr>q_head := c, q_tail := c\<rparr>, h(c \<mapsto> n\<lparr>j_next := 0, j_prev := 0\<rparr>))"
    have "job_remove_copy a s = Some (?q, h)" using hd e(1) j by (simp add: s job_remove_copy_def)
    moreover have "job_append_copy c (?q, h) = Some ?s2" using n c(1) by (simp add: job_append_copy_def)
    moreover have rep2: "rep ?s2 [c]" using c(1) by (simp add: rep_def dlist_def)
    moreover have "job_find True tid ?s2 = Some (if ids s c = Some tid then c else 0)"
      using job_find_rep [OF rep2, of tid] n by (simp add: s ids_def)
    ultimately show ?thesis unfolding ins(3) by (intro exI [of _ "(?q, h)"] exI [of _ ?s2]) simp
  qed
qed

theorem jobq_copy_loses_jobs_witness:
  "\<exists>s1 s2. job_remove_copy 4 (\<lparr>q_head = 4, q_tail = 8\<rparr>, [4 \<mapsto> \<lparr>j_next = 8, j_prev = 0, j_id = 6\<rparr>, 8 \<mapsto> \<lparr>j_next = 0, j_prev = 4, j_id = 7\<rparr>]) = Some s1 \<and>
     q_head (fst s1) = 8 \<and> q_tail (fst s1) = 0 \<and> job_append_copy 4 s1 = Some s2 \<and> rep s2 [4] \<and> job_find_copy True 7 s2 = Some 0"
proof -
  have "rep (\<lparr>q_head = 4, q_tail = 8\<rparr>, [4 \<mapsto> \<lparr>j_next = 8, j_prev = 0, j_id = 6\<rparr>, 8 \<mapsto> \<lparr>j_next = 0, j_prev = 4, j_id = 7\<rparr>]) ([] @ 4 # [8])"
    by (simp add: rep_def dlist_def)
  from jobq_copy_loses_jobs [OF this, of 4 7, THEN conjunct2, THEN conjunct1] show ?thesis by (simp add: ids_def)
qed

end
