(* ===== verification/Ref_Counts.thy ===== *)
theory Ref_Counts
  imports Prelude
begin

text \<open>
  A discipline for threads that share reference-counted objects, independent of their code. A locale gives each
  control state the mutexes that a thread has in it and the references that it holds, and whether it is the \<open>sole\<close> user of an object.
  From this the invariants are defined, and shown to be kept by the elementary effects: taking and releasing a mutex,
  counting up and down, becoming the sole user, creating and freeing an object.
\<close>

section \<open>Sums over threads\<close>

lemma sum_list_upd:
  "t < length ps \<Longrightarrow> sum_list (map f (ps[t := p])) + f (ps ! t) = sum_list (map f ps) + (f p :: nat)"
  by (induction ps arbitrary: t) (auto split: nat.splits simp: nth_Cons)

lemma sum_list_two:
  assumes "t < length ps" "u < length ps" "t \<noteq> u"
  shows "f (ps ! t) + f (ps ! u) \<le> sum_list (map (f :: _ \<Rightarrow> nat) ps)"
  using assms
proof (induction ps arbitrary: t u)
  case (Cons p ps)
  have m: "f (ps ! i) \<le> sum_list (map f ps)" if "i < length ps" for i
    using elem_le_sum_list [of i "map f ps"] that by simp
  show ?case
  proof (cases t)
    case 0
    then show ?thesis using Cons.prems m [of "u - 1"] by (cases u) auto
  next
    case (Suc t')
    then show ?thesis using Cons.prems Cons.IH [of t' "u - 1"] m [of t'] by (cases u) auto
  qed
qed simp

section \<open>The discipline\<close>

text \<open>Per control state: whether the table's mutex is held, the object whose mutex is held, the references,
  the object that no other thread uses or will use, the object whose mutex is out of use, and the number of references the call
  may need.\<close>

locale discipline =
  fixes hh :: "'p \<Rightarrow> bool" and hf :: "'p \<Rightarrow> nat option" and refs :: "'p \<Rightarrow> nat multiset"
    and sole :: "'p \<Rightarrow> nat option" and quiet :: "'p \<Rightarrow> nat option" and need :: "'p \<Rightarrow> nat"
  assumes quiet_sole: "quiet p = Some a \<Longrightarrow> sole p = Some a"
    and need: "size (refs p) \<le> need p"
begin

definition rc :: "'p list \<Rightarrow> nat multiset \<Rightarrow> nat \<Rightarrow> nat" where
  "rc ps pool a = count pool a + sum_list (map (\<lambda>p. count (refs p) a) ps)"

text \<open>The mutexes are held by the threads that are in a control state that holds them.\<close>

definition locks :: "'p list \<Rightarrow> (nat \<Rightarrow> nat option option) \<Rightarrow> nat option \<Rightarrow> bool" where
  "locks ps L hl \<longleftrightarrow> (\<forall>t. hl = Some t \<longleftrightarrow> t < length ps \<and> hh (ps ! t)) \<and>
     (\<forall>a l t. L a = Some l \<longrightarrow> (l = Some t \<longleftrightarrow> t < length ps \<and> hf (ps ! t) = Some a)) \<and>
     (\<forall>t a. t < length ps \<longrightarrow> hf (ps ! t) = Some a \<longrightarrow> L a \<noteq> None)"

text \<open>The counts are the numbers of references, objects without references are about to be freed, and a sole user is one.\<close>

definition counts :: "'p list \<Rightarrow> (nat \<Rightarrow> int option) \<Rightarrow> nat multiset \<Rightarrow> bool" where
  "counts ps C pool \<longleftrightarrow> (\<forall>a c. C a = Some c \<longrightarrow> a \<noteq> 0 \<and> c = int (rc ps pool a)) \<and>
     (\<forall>a. C a \<noteq> None \<longrightarrow> rc ps pool a = 0 \<longrightarrow> (\<exists>t < length ps. sole (ps ! t) = Some a)) \<and>
     (\<forall>a. 0 < rc ps pool a \<longrightarrow> C a \<noteq> None) \<and>
     (\<forall>t a. t < length ps \<longrightarrow> sole (ps ! t) = Some a \<longrightarrow> C a \<noteq> None \<and> rc ps pool a = count (refs (ps ! t)) a \<and>
        (\<forall>u < length ps. sole (ps ! u) = Some a \<longrightarrow> u = t))"

definition quiets :: "'p list \<Rightarrow> (nat \<Rightarrow> nat option option) \<Rightarrow> bool" where
  "quiets ps L \<longleftrightarrow> (\<forall>t a. t < length ps \<longrightarrow> quiet (ps ! t) = Some a \<longrightarrow> L a = Some None)"

definition fits :: "int \<Rightarrow> 'p list \<Rightarrow> nat multiset \<Rightarrow> bool" where
  "fits m ps pool \<longleftrightarrow> int (size pool + sum_list (map need ps)) \<le> m"

text \<open>A thread may start to use an object if it has a reference to it or the object has no sole user.\<close>

definition may_use :: "'p list \<Rightarrow> nat \<Rightarrow> nat \<Rightarrow> bool" where
  "may_use ps t a \<longleftrightarrow> a \<in># refs (ps ! t) \<or> (\<forall>u < length ps. sole (ps ! u) \<noteq> Some a)"

subsection \<open>Mutexes\<close>

lemma locksD:
  assumes "locks ps L hl"
  shows "hl = Some t \<longleftrightarrow> t < length ps \<and> hh (ps ! t)" "L a = Some l \<Longrightarrow> l = Some t \<longleftrightarrow> t < length ps \<and> hf (ps ! t) = Some a"
    "t < length ps \<Longrightarrow> hf (ps ! t) = Some a \<Longrightarrow> L a \<noteq> None"
  using assms unfolding locks_def by auto

lemma hf_held: "locks ps L hl \<Longrightarrow> t < length ps \<Longrightarrow> hf (ps ! t) = Some a \<Longrightarrow> L a = Some (Some t)"
  using locksD(2) [of ps L hl a _ t] locksD(3) [of ps L hl t a] by (cases "L a") auto

lemma locks_skip: "locks ps L hl \<Longrightarrow> t < length ps \<Longrightarrow> hh p = hh (ps ! t) \<Longrightarrow> hf p = hf (ps ! t) \<Longrightarrow> locks (ps[t := p]) L hl"
  unfolding locks_def by (auto simp: nth_list_update)

lemma locks_hash_acq:
  "locks ps L None \<Longrightarrow> t < length ps \<Longrightarrow> hh p \<Longrightarrow> hf p = hf (ps ! t) \<Longrightarrow> locks (ps[t := p]) L (Some t)"
  unfolding locks_def by (auto simp: nth_list_update)

lemma locks_hash_rel:
  "locks ps L (Some t) \<Longrightarrow> t < length ps \<Longrightarrow> \<not> hh p \<Longrightarrow> hf p = hf (ps ! t) \<Longrightarrow> locks (ps[t := p]) L None"
  unfolding locks_def by (auto simp: nth_list_update)

lemma locks_foo_acq:
  assumes "locks ps L hl" "t < length ps" "L a = Some None" "hf (ps ! t) = None" "hf p = Some a" "hh p = hh (ps ! t)"
  shows "locks (ps[t := p]) (L(a \<mapsto> Some t)) hl"
  using assms unfolding locks_def by (auto simp: nth_list_update)

lemma locks_foo_rel:
  assumes "locks ps L hl" "t < length ps" "hf (ps ! t) = Some a" "hf p = None" "hh p = hh (ps ! t)"
  shows "locks (ps[t := p]) (L(a \<mapsto> None)) hl"
proof -
  have "L a = Some (Some t)" by (rule hf_held [OF assms(1-3)])
  then have uniq: "hf (ps ! u) \<noteq> Some a" if "u < length ps" "u \<noteq> t" for u using hf_held [OF assms(1) that(1)] that(2) by auto
  have u: "t' < length ps \<and> hf (ps[t := p] ! t') = Some b \<longleftrightarrow> t' < length ps \<and> hf (ps ! t') = Some b \<and> b \<noteq> a" for t' b
    using assms(2-4) uniq [of t'] by (cases "t' = t"; cases "b = a") auto
  have h: "t' < length ps \<and> hh (ps[t := p] ! t') \<longleftrightarrow> t' < length ps \<and> hh (ps ! t')" for t'
    using assms(2,5) by (auto simp: nth_list_update)
  show ?thesis unfolding locks_def length_list_update u h imp_conjL [symmetric]
    using locksD [OF assms(1)] by (simp add: u) blast
qed

lemma locks_new:
  "locks ps L hl \<Longrightarrow> t < length ps \<Longrightarrow> L a = None \<Longrightarrow> hh p = hh (ps ! t) \<Longrightarrow> hf p = hf (ps ! t) \<Longrightarrow> locks (ps[t := p]) (L(a \<mapsto> None)) hl"
  unfolding locks_def by (auto simp: nth_list_update)

lemma locks_free:
  "locks ps L hl \<Longrightarrow> t < length ps \<Longrightarrow> L a = Some None \<Longrightarrow> hh p = hh (ps ! t) \<Longrightarrow> hf p = hf (ps ! t) \<Longrightarrow> locks (ps[t := p]) (L(a := None)) hl"
  unfolding locks_def by (auto simp: nth_list_update)

subsection \<open>Counts\<close>

lemma rc_upd: "t < length ps \<Longrightarrow> rc (ps[t := p]) pool a + count (refs (ps ! t)) a = rc ps pool a + count (refs p) a"
  using sum_list_upd [of t ps "\<lambda>p. count (refs p) a" p] by (simp add: rc_def)

lemma rc_two:
  "t < length ps \<Longrightarrow> u < length ps \<Longrightarrow> t \<noteq> u \<Longrightarrow> count (refs (ps ! t)) a + count (refs (ps ! u)) a + count pool a \<le> rc ps pool a"
  using sum_list_two [of t ps u "\<lambda>p. count (refs p) a"] by (simp add: rc_def)

lemma rc_one: "t < length ps \<Longrightarrow> count (refs (ps ! t)) a \<le> rc ps pool a"
  using elem_le_sum_list [of t "map (\<lambda>p. count (refs p) a) ps"] by (simp add: rc_def)

lemma countsD:
  assumes "counts ps C pool"
  shows "C a = Some c \<Longrightarrow> a \<noteq> 0 \<and> c = int (rc ps pool a)" "C a \<noteq> None \<Longrightarrow> rc ps pool a = 0 \<Longrightarrow> \<exists>t < length ps. sole (ps ! t) = Some a"
    "0 < rc ps pool a \<Longrightarrow> C a \<noteq> None" "t < length ps \<Longrightarrow> sole (ps ! t) = Some a \<Longrightarrow> C a \<noteq> None \<and> rc ps pool a = count (refs (ps ! t)) a"
    "t < length ps \<Longrightarrow> sole (ps ! t) = Some a \<Longrightarrow> u < length ps \<Longrightarrow> sole (ps ! u) = Some a \<Longrightarrow> u = t"
  using assms unfolding counts_def by blast+

text \<open>Another thread with a reference excludes a sole user.\<close>

lemma sole_excl:
  assumes "counts ps C pool" "t < length ps" "a \<in># refs (ps ! t)" "u < length ps" "sole (ps ! u) = Some a"
  shows "u = t"
proof (rule ccontr)
  assume "u \<noteq> t"
  then have "count (refs (ps ! t)) a + count (refs (ps ! u)) a \<le> rc ps pool a" using rc_two [of t ps u a pool] assms by simp
  moreover have "0 < count (refs (ps ! t)) a" using assms(3) by simp
  ultimately show False using countsD(4) [OF assms(1,4,5)] by simp
qed

lemma may_use_sole:
  assumes "counts ps C pool" "t < length ps" "may_use ps t a" "u < length ps" "sole (ps ! u) = Some a"
  shows "u = t"
  using assms sole_excl [OF assms(1,2) _ assms(4,5)] by (auto simp: may_use_def)

text \<open>The general form of a change of the counts: outside of one object nothing changes; for that object the new
  count and the new sole user are given.\<close>

lemma counts_change:
  assumes inv: "counts ps C pool" and t: "t < length ps"
    and rc: "\<And>b. b \<noteq> a \<Longrightarrow> rc (ps[t := p]) pool' b = rc ps pool b"
    and refs: "\<And>b. b \<noteq> a \<Longrightarrow> sole p = Some b \<Longrightarrow> False" "\<And>b. b \<noteq> a \<Longrightarrow> sole (ps ! t) = Some b \<Longrightarrow> False"
    and C: "\<And>b. b \<noteq> a \<Longrightarrow> C' b = C b"
    and Ca: "C' a = (if dead then None else Some (int (rc (ps[t := p]) pool' a)))" "a \<noteq> 0"
    and nosole: "\<And>u. u < length ps \<Longrightarrow> u \<noteq> t \<Longrightarrow> sole (ps ! u) = Some a \<Longrightarrow> False"
    and sole: "sole p = Some a \<Longrightarrow> \<not> dead \<and> rc (ps[t := p]) pool' a = count (refs p) a"
    and zero: "if dead then rc (ps[t := p]) pool' a = 0 else rc (ps[t := p]) pool' a = 0 \<longrightarrow> sole p = Some a"
  shows "counts (ps[t := p]) C' pool'"
  unfolding counts_def
proof (intro conjI allI impI; (elim conjE)?)
  fix b c assume c: "C' b = Some c"
  then show "b \<noteq> 0" "c = int (rc (ps[t := p]) pool' b)"
    using countsD(1) [OF inv, of b c] C [of b] rc [of b] Ca by (cases "b = a"; force split: if_splits)+
next
  fix b assume c: "C' b \<noteq> None" "rc (ps[t := p]) pool' b = 0"
  show "\<exists>u < length (ps[t := p]). sole (ps[t := p] ! u) = Some b"
  proof (cases "b = a")
    case True
    then show ?thesis using c Ca zero t by (intro exI [of _ t]) (auto split: if_splits)
  next
    case False
    then obtain u where "u < length ps" "sole (ps ! u) = Some b" using countsD(2) [OF inv, of b] c C rc by auto
    then show ?thesis using False refs(2) t by (intro exI [of _ u]) (auto simp: nth_list_update)
  qed
next
  fix b assume "0 < rc (ps[t := p]) pool' b"
  then show "C' b \<noteq> None" using countsD(3) [OF inv, of b] C rc Ca zero by (cases "b = a") (auto split: if_splits)
next
  fix u b assume u: "u < length (ps[t := p])" "sole (ps[t := p] ! u) = Some b"
  have *: "C' b \<noteq> None \<and> rc (ps[t := p]) pool' b = count (refs (ps[t := p] ! u)) b"
  proof (cases "u = t")
    case True
    then have "sole p = Some b" using u t by simp
    then have "b = a" using refs(1) by blast
    then show ?thesis using True t sole Ca \<open>sole p = Some b\<close> by simp
  next
    case False
    then have "sole (ps ! u) = Some b" "b \<noteq> a" using u nosole by auto
    then show ?thesis using countsD(4) [OF inv, of u b] False u C rc by simp
  qed
  then show "C' b \<noteq> None" "rc (ps[t := p]) pool' b = count (refs (ps[t := p] ! u)) b" by auto
  fix w assume w: "w < length (ps[t := p])" "sole (ps[t := p] ! w) = Some b"
  show "w = u"
  proof (cases "b = a")
    case True
    then show ?thesis using nosole [of u] nosole [of w] u w by (cases "u = t"; cases "w = t") auto
  next
    case False
    then show ?thesis using refs(1) [of b] countsD(5) [OF inv, of u b w] u w by (cases "u = t"; cases "w = t") (auto simp: nth_list_update)
  qed
qed

lemma rc_upd_pool:
  "t < length ps \<Longrightarrow> rc (ps[t := p]) pool' a + count (refs (ps ! t)) a + count pool a = rc ps pool a + count (refs p) a + count pool' a"
  using rc_upd [of t ps p pool a] by (simp add: rc_def)

lemma rc_move:
  assumes "t < length ps" "refs p + pool' = refs (ps ! t) + pool"
  shows "rc (ps[t := p]) pool' = rc ps pool"
proof
  fix a
  have "count (refs p) a + count pool' a = count (refs (ps ! t)) a + count pool a" using assms(2) by (metis count_union)
  then show "rc (ps[t := p]) pool' a = rc ps pool a" using rc_upd_pool [OF assms(1), of p pool' a pool] by simp
qed

lemma counts_skip:
  assumes inv: "counts ps C pool" and t: "t < length ps" and r: "refs p + pool' = refs (ps ! t) + pool" "sole p = sole (ps ! t)"
    "sole p = None \<or> refs p = refs (ps ! t)"
  shows "counts (ps[t := p]) C pool'"
proof -
  have s: "sole (ps[t := p] ! u) = sole (ps ! u)" for u using r(2) t by (cases "u = t") auto
  have q: "refs (ps[t := p] ! u) = refs (ps ! u)" if "sole (ps ! u) = Some a" for u a using r t that by (cases "u = t") auto
  show ?thesis unfolding counts_def rc_move [OF t r(1)] s length_list_update
  proof (intro conjI allI impI)
    show "a \<noteq> 0" "c = int (rc ps pool a)" if "C a = Some c" for a c using countsD(1) [OF inv that] by auto
    show "\<exists>t < length ps. sole (ps ! t) = Some a" if "C a \<noteq> None" "rc ps pool a = 0" for a using countsD(2) [OF inv that] .
    show "C a \<noteq> None" if "0 < rc ps pool a" for a using countsD(3) [OF inv that] .
    fix u a assume u: "u < length ps" "sole (ps ! u) = Some a"
    show "C a \<noteq> None" "rc ps pool a = count (refs (ps[t := p] ! u)) a" using countsD(4) [OF inv u] q [OF u(2)] by auto
    show "w = u" if "w < length ps" "sole (ps ! w) = Some a" for w using countsD(5) [OF inv u that] .
  qed
qed

lemma rc_frame:
  assumes "t < length ps" "\<And>b. b \<noteq> a \<Longrightarrow> count (refs p) b + count pool' b = count (refs (ps ! t)) b + count pool b" "b \<noteq> a"
  shows "rc (ps[t := p]) pool' b = rc ps pool b"
  using rc_upd_pool [OF assms(1), of p pool' b pool] assms(2) [OF assms(3)] by simp

lemma counts_inc:
  assumes inv: "counts ps C pool" and t: "t < length ps" and c: "C a = Some c" and m: "may_use ps t a"
    and r: "refs p = add_mset a (refs (ps ! t))" "sole p = None" "sole (ps ! t) = None"
  shows "counts (ps[t := p]) (C(a \<mapsto> c + 1)) pool"
proof (rule counts_change [OF inv t, where a = a and dead = False])
  have 1: "rc (ps[t := p]) pool a = rc ps pool a + 1" using rc_upd [OF t, of p pool a] r(1) by simp
  then show "(C(a \<mapsto> c + 1)) a = (if False then None else Some (int (rc (ps[t := p]) pool a)))" using countsD(1) [OF inv c] by simp
  show "if False then rc (ps[t := p]) pool a = 0 else rc (ps[t := p]) pool a = 0 \<longrightarrow> sole p = Some a" using 1 by simp
  show "rc (ps[t := p]) pool b = rc ps pool b" if "b \<noteq> a" for b using r(1) that by (intro rc_frame [OF t]) auto
  show False if "u < length ps" "u \<noteq> t" "sole (ps ! u) = Some a" for u using may_use_sole [OF inv t m that(1,3)] that(2) by simp
qed (use r countsD(1) [OF inv c] in auto)

lemma counts_dec:
  assumes inv: "counts ps C pool" and t: "t < length ps" and c: "C a = Some c"
    and r: "refs (ps ! t) = add_mset a (refs p)" "sole p = (if c = 1 then Some a else None)" "sole (ps ! t) = None"
  shows "counts (ps[t := p]) (C(a \<mapsto> c - 1)) pool"
proof (rule counts_change [OF inv t, where a = a and dead = False])
  have 1: "rc (ps[t := p]) pool a + 1 = rc ps pool a" using rc_upd [OF t, of p pool a] r(1) by simp
  have 2: "count (refs p) a \<le> rc (ps[t := p]) pool a" using rc_one [of t "ps[t := p]" a pool] t by simp
  note c' = countsD(1) [OF inv c]
  show "(C(a \<mapsto> c - 1)) a = (if False then None else Some (int (rc (ps[t := p]) pool a)))" using c' 1 by simp
  show "if False then rc (ps[t := p]) pool a = 0 else rc (ps[t := p]) pool a = 0 \<longrightarrow> sole p = Some a" using 1 c' r(2) by simp
  show "\<not> False \<and> rc (ps[t := p]) pool a = count (refs p) a" if "sole p = Some a" using that 1 2 c' r(2) by (simp split: if_splits)
  show "rc (ps[t := p]) pool b = rc ps pool b" if "b \<noteq> a" for b using r(1) that by (intro rc_frame [OF t]) auto
  show False if "u < length ps" "u \<noteq> t" "sole (ps ! u) = Some a" for u using sole_excl [OF inv t _ that(1,3)] r(1) that(2) by simp
qed (use r countsD(1) [OF inv c] in \<open>auto split: if_splits\<close>)

lemma counts_sole:
  assumes inv: "counts ps C pool" and t: "t < length ps" and c: "C a = Some 1"
    and r: "a \<in># refs (ps ! t)" "refs p = refs (ps ! t)" "sole p = Some a" "sole (ps ! t) = None"
  shows "counts (ps[t := p]) C pool"
proof (rule counts_change [OF inv t, where a = a and dead = False])
  have 1: "rc (ps[t := p]) pool = rc ps pool" by (rule rc_move [OF t]) (simp add: r)
  note c' = countsD(1) [OF inv c]
  have "count (refs (ps ! t)) a \<le> rc ps pool a" "count (refs (ps ! t)) a \<noteq> 0" using rc_one [OF t] r(1) by auto
  moreover have "rc ps pool a = 1" using c' by simp
  ultimately have "rc ps pool a = count (refs (ps ! t)) a" by linarith
  then show "\<not> False \<and> rc (ps[t := p]) pool a = count (refs p) a" unfolding 1 r(2) by simp
  show "C a = (if False then None else Some (int (rc (ps[t := p]) pool a)))" using c' c 1 by simp
  show "rc (ps[t := p]) pool b = rc ps pool b" for b by (simp add: 1)
  show False if "u < length ps" "u \<noteq> t" "sole (ps ! u) = Some a" for u using sole_excl [OF inv t r(1) that(1,3)] that(2) by simp
qed (use r countsD(1) [OF inv c] in auto)

lemma counts_unsole:
  assumes inv: "counts ps C pool" and t: "t < length ps"
    and r: "a \<in># refs (ps ! t)" "refs p = refs (ps ! t)" "sole p = None" "sole (ps ! t) = Some a"
  shows "counts (ps[t := p]) C pool"
proof -
  obtain c where c: "C a = Some c" using countsD(4) [OF inv t r(4)] by auto
  have 1: "rc (ps[t := p]) pool = rc ps pool" by (rule rc_move [OF t]) (simp add: r)
  have 2: "0 < rc ps pool a" using rc_one [OF t, of a pool] r(1) by (metis count_greater_zero_iff less_le_trans)
  show ?thesis
  proof (rule counts_change [OF inv t, where a = a and dead = False])
    show "C a = (if False then None else Some (int (rc (ps[t := p]) pool a)))" using countsD(1) [OF inv c] c 1 by simp
    show "rc (ps[t := p]) pool b = rc ps pool b" for b by (simp add: 1)
    show False if "u < length ps" "u \<noteq> t" "sole (ps ! u) = Some a" for u using sole_excl [OF inv t r(1) that(1,3)] that(2) by simp
    show "if False then rc (ps[t := p]) pool a = 0 else rc (ps[t := p]) pool a = 0 \<longrightarrow> sole p = Some a" using 1 2 by simp
  qed (use r countsD(1) [OF inv c] in auto)
qed

lemma counts_new:
  assumes inv: "counts ps C pool" and t: "t < length ps" and c: "C a = None" "a \<noteq> 0"
    and r: "refs p + pool' = add_mset a (refs (ps ! t) + pool)" "sole p = None \<or> sole p = Some a \<and> a \<in># refs p" "sole (ps ! t) = None"
  shows "counts (ps[t := p]) (C(a \<mapsto> 1)) pool'"
proof (rule counts_change [OF inv t, where a = a and dead = False])
  have z: "rc ps pool a = 0" using countsD(3) [OF inv, of a] c(1) by blast
  have e: "count (refs p) b + count pool' b = (if b = a then 1 else 0) + count (refs (ps ! t)) b + count pool b" for b
    using arg_cong [OF r(1), of "\<lambda>M. count M b"] by simp
  have 1: "rc (ps[t := p]) pool' a = 1" using rc_upd_pool [OF t, of p pool' a pool] e [of a] z by simp
  have 2: "count (refs p) a \<le> rc (ps[t := p]) pool' a" using rc_one [of t "ps[t := p]" a pool'] t by simp
  show "(C(a \<mapsto> 1)) a = (if False then None else Some (int (rc (ps[t := p]) pool' a)))" using 1 by simp
  show "if False then rc (ps[t := p]) pool' a = 0 else rc (ps[t := p]) pool' a = 0 \<longrightarrow> sole p = Some a" using 1 by simp
  show "\<not> False \<and> rc (ps[t := p]) pool' a = count (refs p) a" if "sole p = Some a"
  proof -
    have "count (refs p) a \<noteq> 0" using that r(2) by auto
    with 1 2 have "rc (ps[t := p]) pool' a = count (refs p) a" by linarith
    then show ?thesis by simp
  qed
  show "rc (ps[t := p]) pool' b = rc ps pool b" if "b \<noteq> a" for b using e that by (intro rc_frame [OF t]) auto
  show False if "u < length ps" "u \<noteq> t" "sole (ps ! u) = Some a" for u using countsD(4) [OF inv that(1,3)] c(1) by simp
qed (use r c in auto)

lemma counts_free:
  assumes inv: "counts ps C pool" and t: "t < length ps"
    and r: "refs p = filter_mset (\<lambda>b. b \<noteq> a) (refs (ps ! t))" "sole p = None" "sole (ps ! t) = Some a"
  shows "counts (ps[t := p]) (C(a := None)) pool"
proof -
  note s = countsD(4) [OF inv t r(3)]
  then obtain c where c: "C a = Some c" by auto
  show ?thesis
  proof (rule counts_change [OF inv t, where a = a and dead = True])
    show "if True then rc (ps[t := p]) pool a = 0 else rc (ps[t := p]) pool a = 0 \<longrightarrow> sole p = Some a"
      using rc_upd [OF t, of p pool a] s r(1) by simp
    show "rc (ps[t := p]) pool b = rc ps pool b" if "b \<noteq> a" for b using r(1) that by (intro rc_frame [OF t]) auto
    show False if "u < length ps" "u \<noteq> t" "sole (ps ! u) = Some a" for u using countsD(5) [OF inv t r(3) that(1,3)] that(2) by simp
  qed (use r countsD(1) [OF inv c] in auto)
qed

subsection \<open>Mutexes out of use, and room\<close>

lemma quiets_skip: "quiets ps L \<Longrightarrow> t < length ps \<Longrightarrow> quiet p = None \<or> quiet p = quiet (ps ! t) \<Longrightarrow> quiets (ps[t := p]) L"
  unfolding quiets_def by (auto simp: nth_list_update split: if_splits)

lemma quiets_lock:
  assumes "quiets ps L" "counts ps C pool" "t < length ps" "may_use ps t a" "quiet p = None"
  shows "quiets (ps[t := p]) (L(a \<mapsto> l))"
proof -
  have "quiet (ps ! u) \<noteq> Some a" if "u < length ps" "u \<noteq> t" for u
    using may_use_sole [OF assms(2-4) that(1)] quiet_sole [of "ps ! u" a] that(2) by blast
  then show ?thesis using assms(1,3,5) unfolding quiets_def by (auto simp: nth_list_update split: if_splits)
qed

lemma quiets_unlock:
  "quiets ps L \<Longrightarrow> t < length ps \<Longrightarrow> quiet p = None \<or> quiet p = Some a \<Longrightarrow> quiets (ps[t := p]) (L(a \<mapsto> None))"
  unfolding quiets_def by (auto simp: nth_list_update split: if_splits)

lemma quiets_free:
  assumes "quiets ps L" "counts ps C pool" "t < length ps" "sole (ps ! t) = Some a" "quiet p = None"
  shows "quiets (ps[t := p]) (L(a := None))"
proof -
  have "quiet (ps ! u) \<noteq> Some a" if "u < length ps" "u \<noteq> t" for u
    using countsD(5) [OF assms(2-4) that(1)] quiet_sole [of "ps ! u" a] that(2) by blast
  then show ?thesis using assms(1,3,5) unfolding quiets_def by (auto simp: nth_list_update split: if_splits)
qed

lemma fits_skip:
  assumes "fits m ps pool" "t < length ps" "size pool' + need p \<le> size pool + need (ps ! t)"
  shows "fits m (ps[t := p]) pool'"
  using assms sum_list_upd [OF assms(2), of need p] by (simp add: fits_def)

lemma rc_fits:
  assumes "fits m ps pool"
  shows "int (rc ps pool a) \<le> m"
proof -
  have "count (refs p) a \<le> need p" for p using need [of p] count_le_size [of "refs p" a] by simp
  then have "sum_list (map (\<lambda>p. count (refs p) a) ps) \<le> sum_list (map need ps)" by (intro sum_list_mono)
  then show ?thesis using assms count_le_size [of pool a] by (simp add: fits_def rc_def)
qed

end

end
