(* ===== verification/Foo_Model.thy ===== *)
theory Foo_Model
  imports Linked_Lists C_Library
begin

text \<open>
  The reference-counted objects of \<open>apue.3e/threads/mutex1.c\<close>, \<open>mutex2.c\<close> and \<open>mutex3.c\<close> and of
  \<open>apue/11.6.2avoid_deadlock1.c\<close>: the objects, their hash table and the mutexes, and the four functions cut into steps at the
  calls of the mutex functions. In the first file an object has a count under its own lock; the second adds a hash
  table under a global lock, taken before an object's lock; the third uses the global lock for the counts also.

  A step works only on data that the thread may touch: reading or writing a count, a link or the table without the mutex that
  protects it is a data race, and it is the outcome \<open>Fault\<close>, as are the use of an object that is not allocated, unlocking a
  mutex that the thread does not hold, destroying a locked mutex and the overflow of a count.
\<close>

section \<open>Objects, table and mutexes\<close>

text \<open>A mutex is the thread that holds it.\<close>

record foo =
  f_count :: int
  f_lock :: "nat option"
  f_id :: int
  f_next :: nat

text \<open>The last field is the references which the clients hold between their calls.\<close>

record state =
  heap :: "foo store"
  fh :: "nat list"
  hashlock :: "nat option"
  pool :: "nat multiset"

datatype 'a outcome = Fault | Blocked | Next 'a

primrec andthen :: "'a outcome \<Rightarrow> ('a \<Rightarrow> 'b outcome) \<Rightarrow> 'b outcome" where
  "andthen Fault f = Fault"
| "andthen Blocked f = Blocked"
| "andthen (Next x) f = f x"

definition INT_MAX :: int where "INT_MAX = 2147483647"

definition NHASH :: nat where "NHASH = 29"

text \<open>The conversion to \<open>unsigned long\<close> of a negative identifier wraps around.\<close>

definition HASH :: "int \<Rightarrow> nat" where
  "HASH i = nat (i mod 2 ^ 64) mod NHASH"

lemma HASH_less: "HASH i < NHASH"
  by (simp add: HASH_def NHASH_def)

definition lock_hash :: "nat \<Rightarrow> state \<Rightarrow> state outcome" where
  "lock_hash t s = (if hashlock s = None then Next (s\<lparr>hashlock := Some t\<rparr>) else Blocked)"

definition unlock_hash :: "nat \<Rightarrow> state \<Rightarrow> state outcome" where
  "unlock_hash t s = (if hashlock s = Some t then Next (s\<lparr>hashlock := None\<rparr>) else Fault)"

definition lock_foo :: "nat \<Rightarrow> nat \<Rightarrow> state \<Rightarrow> state outcome" where
  "lock_foo t fp s = (case load (heap s) fp of None \<Rightarrow> Fault | Some n \<Rightarrow>
     if f_lock n = None then Next (s\<lparr>heap := (heap s)(fp \<mapsto> n\<lparr>f_lock := Some t\<rparr>)\<rparr>) else Blocked)"

definition unlock_foo :: "nat \<Rightarrow> nat \<Rightarrow> state \<Rightarrow> state outcome" where
  "unlock_foo t fp s = (case load (heap s) fp of None \<Rightarrow> Fault | Some n \<Rightarrow>
     if f_lock n = Some t then Next (s\<lparr>heap := (heap s)(fp \<mapsto> n\<lparr>f_lock := None\<rparr>)\<rparr>) else Fault)"

text \<open>The count of an object is protected by its own mutex in the first two files, by \<open>hashlock\<close> in the third.\<close>

datatype variant = Mutex1 | Mutex2 | Mutex3

definition may_count :: "variant \<Rightarrow> nat \<Rightarrow> state \<Rightarrow> foo \<Rightarrow> bool" where
  "may_count v t s n = (if v = Mutex3 then hashlock s = Some t else f_lock n = Some t)"

definition get_count :: "variant \<Rightarrow> nat \<Rightarrow> nat \<Rightarrow> state \<Rightarrow> int outcome" where
  "get_count v t fp s = (case load (heap s) fp of None \<Rightarrow> Fault | Some n \<Rightarrow>
     if may_count v t s n then Next (f_count n) else Fault)"

definition set_count :: "variant \<Rightarrow> nat \<Rightarrow> nat \<Rightarrow> int \<Rightarrow> state \<Rightarrow> state outcome" where
  "set_count v t fp c s = (case load (heap s) fp of None \<Rightarrow> Fault | Some n \<Rightarrow>
     if may_count v t s n \<and> - INT_MAX - 1 \<le> c \<and> c \<le> INT_MAX
     then Next (s\<lparr>heap := (heap s)(fp \<mapsto> n\<lparr>f_count := c\<rparr>)\<rparr>) else Fault)"

definition inc_count :: "variant \<Rightarrow> nat \<Rightarrow> nat \<Rightarrow> state \<Rightarrow> state outcome" where
  "inc_count v t fp s = andthen (get_count v t fp s) (\<lambda>c. set_count v t fp (c + 1) s)"

definition dec_count :: "variant \<Rightarrow> nat \<Rightarrow> nat \<Rightarrow> state \<Rightarrow> state outcome" where
  "dec_count v t fp s = andthen (get_count v t fp s) (\<lambda>c. set_count v t fp (c - 1) s)"

text \<open>\<open>fp->f_next = fh[idx]; fh[idx] = fp\<close>.\<close>

definition link_foo :: "nat \<Rightarrow> nat \<Rightarrow> nat \<Rightarrow> state \<Rightarrow> state outcome" where
  "link_foo t fp idx s = (if hashlock s \<noteq> Some t then Fault else
     case do { q \<leftarrow> rd (fh s) idx; h \<leftarrow> modify (heap s) fp (f_next_update (\<lambda>_. q)); b \<leftarrow> wr (fh s) idx fp; Some (h, b) } of
       None \<Rightarrow> Fault | Some (h, b) \<Rightarrow> Next (s\<lparr>heap := h, fh := b\<rparr>))"

text \<open>The scan of \<open>foo_find\<close> for an identifier, and that of \<open>foo_rele\<close> for the predecessor.\<close>

partial_function (option) scan :: "foo store \<Rightarrow> int \<Rightarrow> nat \<Rightarrow> nat option" where
  "scan h i fp = (if fp = 0 then Some 0 else do { n \<leftarrow> load h fp; if f_id n = i then Some fp else scan h i (f_next n) })"

partial_function (option) pred_loop :: "foo store \<Rightarrow> nat \<Rightarrow> nat \<Rightarrow> nat option" where
  "pred_loop h fp tfp = do { n \<leftarrow> load h tfp; if f_next n \<noteq> fp then pred_loop h fp (f_next n) else Some tfp }"

definition find_foo :: "nat \<Rightarrow> int \<Rightarrow> state \<Rightarrow> nat outcome" where
  "find_foo t i s = (if hashlock s \<noteq> Some t then Fault else
     case do { p \<leftarrow> rd (fh s) (HASH i); scan (heap s) i p } of None \<Rightarrow> Fault | Some fp \<Rightarrow> Next fp)"

definition unlink_foo :: "nat \<Rightarrow> nat \<Rightarrow> state \<Rightarrow> state outcome" where
  "unlink_foo t fp s = (if hashlock s \<noteq> Some t then Fault else
     case do {
       n \<leftarrow> load (heap s) fp;
       idx \<leftarrow> Some (HASH (f_id n));
       tfp \<leftarrow> rd (fh s) idx;
       if tfp = fp then do { b \<leftarrow> wr (fh s) idx (f_next n); Some (heap s, b) }
       else do { q \<leftarrow> pred_loop (heap s) fp tfp; h \<leftarrow> modify (heap s) q (f_next_update (\<lambda>_. f_next n)); Some (h, fh s) }
     } of None \<Rightarrow> Fault | Some (h, b) \<Rightarrow> Next (s\<lparr>heap := h, fh := b\<rparr>))"

text \<open>\<open>pthread_mutex_destroy\<close>, and \<open>free\<close>.\<close>

definition destroy_foo :: "nat \<Rightarrow> state \<Rightarrow> state outcome" where
  "destroy_foo fp s = (case load (heap s) fp of None \<Rightarrow> Fault | Some n \<Rightarrow> if f_lock n = None then Next s else Fault)"

definition free_foo :: "nat \<Rightarrow> state \<Rightarrow> state outcome" where
  "free_foo fp s = (if load (heap s) fp = None then Fault else Next (s\<lparr>heap := (heap s)(fp := None)\<rparr>))"

section \<open>The functions\<close>

text \<open>The control state of a thread: where it is in which function, with the values of its variables. A name that ends in a
  lock operation is the point in front of that operation.\<close>

datatype pc = Idle
  | Alloc int | AllocLockH nat int | AllocLink nat int | AllocLockF nat | AllocUnH nat | AllocUnF nat
  | HoldLockF nat | HoldInc nat | HoldUnF nat
  | HoldLockH nat | HoldIncH nat | HoldUnH nat
  | FindLockH int | FindScan int | FindLockF nat | FindInc nat | FindUnF nat | FindUnH nat
  | ReleLockF nat | ReleTest nat | ReleUnF1 nat | ReleLockH nat | ReleLockF2 nat | ReleTest2 nat
  | ReleUnF3 nat | ReleUnH3 nat | ReleRemove nat | ReleUnH4 nat | ReleUnF4 nat | ReleFree nat | ReleUnF nat
  | Rele1Test nat | Rele1UnF nat | Rele1Free nat
  | Rele3LockH nat | Rele3Test nat | Rele3Remove nat | Rele3UnH4 nat | Rele3Free nat | Rele3UnH

text \<open>What the environment decides in a step: the result of \<open>malloc\<close> and whether \<open>pthread_mutex_init\<close> succeeds. The fields that
  \<open>foo_alloc\<close> does not set are not read before they are.\<close>

type_synonym choice = "nat \<times> bool"

definition new_foo :: "int \<Rightarrow> foo" where
  "new_foo i = \<lparr>f_count = 1, f_lock = None, f_id = i, f_next = 0\<rparr>"

text \<open>\<open>foo_alloc\<close> without a hash table.\<close>

fun foo_alloc1 :: "nat \<Rightarrow> choice \<Rightarrow> pc \<Rightarrow> state \<Rightarrow> (pc \<times> state) outcome" where
  "foo_alloc1 t (fp, ok) (Alloc i) s =
     (if fp = 0 then Next (Idle, s)
      else if \<not> ok then Next (Idle, s)
      else Next (Idle, s\<lparr>heap := (heap s)(fp \<mapsto> new_foo i), pool := add_mset fp (pool s)\<rparr>))"
| "foo_alloc1 t c _ s = Fault"

text \<open>\<open>foo_alloc\<close> with the hash table, which the second and the third file share.\<close>

fun foo_alloc :: "nat \<Rightarrow> choice \<Rightarrow> pc \<Rightarrow> state \<Rightarrow> (pc \<times> state) outcome" where
  "foo_alloc t (fp, ok) (Alloc i) s =
     (if fp = 0 then Next (Idle, s)
      else if \<not> ok then Next (Idle, s)
      else Next (AllocLockH fp i, s\<lparr>heap := (heap s)(fp \<mapsto> new_foo i)\<rparr>))"
| "foo_alloc t c (AllocLockH fp i) s = andthen (lock_hash t s) (\<lambda>s. Next (AllocLink fp i, s))"
| "foo_alloc t c (AllocLink fp i) s = andthen (link_foo t fp (HASH i) s) (\<lambda>s. Next (AllocLockF fp, s))"
| "foo_alloc t c (AllocLockF fp) s = andthen (lock_foo t fp s) (\<lambda>s. Next (AllocUnH fp, s))"
| "foo_alloc t c (AllocUnH fp) s = andthen (unlock_hash t s) (\<lambda>s. Next (AllocUnF fp, s))"
| "foo_alloc t c (AllocUnF fp) s =
     andthen (unlock_foo t fp s) (\<lambda>s. Next (Idle, s\<lparr>pool := add_mset fp (pool s)\<rparr>))"
| "foo_alloc t c _ s = Fault"

text \<open>\<open>foo_hold\<close> with the object's own mutex.\<close>

fun foo_hold :: "variant \<Rightarrow> nat \<Rightarrow> pc \<Rightarrow> state \<Rightarrow> (pc \<times> state) outcome" where
  "foo_hold v t (HoldLockF fp) s = andthen (lock_foo t fp s) (\<lambda>s. Next (HoldInc fp, s))"
| "foo_hold v t (HoldInc fp) s = andthen (inc_count v t fp s) (\<lambda>s. Next (HoldUnF fp, s))"
| "foo_hold v t (HoldUnF fp) s = andthen (unlock_foo t fp s) (\<lambda>s. Next (Idle, s\<lparr>pool := pool s + {#fp, fp#}\<rparr>))"
| "foo_hold v t _ s = Fault"

text \<open>\<open>foo_find\<close>: the call of \<open>foo_hold\<close> for the object that is found is inside of the table's mutex.\<close>

fun foo_find :: "nat \<Rightarrow> pc \<Rightarrow> state \<Rightarrow> (pc \<times> state) outcome" where
  "foo_find t (FindLockH i) s = andthen (lock_hash t s) (\<lambda>s. Next (FindScan i, s))"
| "foo_find t (FindScan i) s =
     andthen (find_foo t i s) (\<lambda>fp. Next (if fp \<noteq> 0 then FindLockF fp else FindUnH 0, s))"
| "foo_find t (FindLockF fp) s = andthen (lock_foo t fp s) (\<lambda>s. Next (FindInc fp, s))"
| "foo_find t (FindInc fp) s = andthen (inc_count Mutex2 t fp s) (\<lambda>s. Next (FindUnF fp, s))"
| "foo_find t (FindUnF fp) s = andthen (unlock_foo t fp s) (\<lambda>s. Next (FindUnH fp, s))"
| "foo_find t (FindUnH fp) s =
     andthen (unlock_hash t s) (\<lambda>s. Next (Idle, if fp \<noteq> 0 then s\<lparr>pool := add_mset fp (pool s)\<rparr> else s))"
| "foo_find t _ s = Fault"

text \<open>\<open>foo_rele\<close> of the second file: the table's mutex has to be taken before the object's, so the last reference
  is given up only after the count has been read again.\<close>

fun foo_rele :: "nat \<Rightarrow> pc \<Rightarrow> state \<Rightarrow> (pc \<times> state) outcome" where
  "foo_rele t (ReleLockF fp) s = andthen (lock_foo t fp s) (\<lambda>s. Next (ReleTest fp, s))"
| "foo_rele t (ReleTest fp) s = andthen (get_count Mutex2 t fp s) (\<lambda>c.
     if c = 1 then Next (ReleUnF1 fp, s)
     else andthen (dec_count Mutex2 t fp s) (\<lambda>s. Next (ReleUnF fp, s)))"
| "foo_rele t (ReleUnF fp) s = andthen (unlock_foo t fp s) (\<lambda>s. Next (Idle, s))"
| "foo_rele t (ReleUnF1 fp) s = andthen (unlock_foo t fp s) (\<lambda>s. Next (ReleLockH fp, s))"
| "foo_rele t (ReleLockH fp) s = andthen (lock_hash t s) (\<lambda>s. Next (ReleLockF2 fp, s))"
| "foo_rele t (ReleLockF2 fp) s = andthen (lock_foo t fp s) (\<lambda>s. Next (ReleTest2 fp, s))"
| "foo_rele t (ReleTest2 fp) s = andthen (get_count Mutex2 t fp s) (\<lambda>c.
     if c \<noteq> 1 then andthen (dec_count Mutex2 t fp s) (\<lambda>s. Next (ReleUnF3 fp, s))
     else Next (ReleRemove fp, s))"
| "foo_rele t (ReleUnF3 fp) s = andthen (unlock_foo t fp s) (\<lambda>s. Next (ReleUnH3 fp, s))"
| "foo_rele t (ReleUnH3 fp) s = andthen (unlock_hash t s) (\<lambda>s. Next (Idle, s))"
| "foo_rele t (ReleRemove fp) s = andthen (unlink_foo t fp s) (\<lambda>s. Next (ReleUnH4 fp, s))"
| "foo_rele t (ReleUnH4 fp) s = andthen (unlock_hash t s) (\<lambda>s. Next (ReleUnF4 fp, s))"
| "foo_rele t (ReleUnF4 fp) s = andthen (unlock_foo t fp s) (\<lambda>s. Next (ReleFree fp, s))"
| "foo_rele t (ReleFree fp) s = andthen (destroy_foo fp s) (\<lambda>s. andthen (free_foo fp s) (\<lambda>s. Next (Idle, s)))"
| "foo_rele t _ s = Fault"

text \<open>\<open>foo_rele\<close> of the first file.\<close>

fun foo_rele1 :: "nat \<Rightarrow> pc \<Rightarrow> state \<Rightarrow> (pc \<times> state) outcome" where
  "foo_rele1 t (ReleLockF fp) s = andthen (lock_foo t fp s) (\<lambda>s. Next (Rele1Test fp, s))"
| "foo_rele1 t (Rele1Test fp) s = andthen (dec_count Mutex1 t fp s) (\<lambda>s. andthen (get_count Mutex1 t fp s) (\<lambda>c.
     Next (if c = 0 then Rele1UnF fp else ReleUnF fp, s)))"
| "foo_rele1 t (Rele1UnF fp) s = andthen (unlock_foo t fp s) (\<lambda>s. Next (Rele1Free fp, s))"
| "foo_rele1 t (Rele1Free fp) s = andthen (destroy_foo fp s) (\<lambda>s. andthen (free_foo fp s) (\<lambda>s. Next (Idle, s)))"
| "foo_rele1 t (ReleUnF fp) s = andthen (unlock_foo t fp s) (\<lambda>s. Next (Idle, s))"
| "foo_rele1 t _ s = Fault"

text \<open>The functions of the third file: the counts are under the table's mutex.\<close>

fun foo_hold3 :: "nat \<Rightarrow> pc \<Rightarrow> state \<Rightarrow> (pc \<times> state) outcome" where
  "foo_hold3 t (HoldLockH fp) s = andthen (lock_hash t s) (\<lambda>s. Next (HoldIncH fp, s))"
| "foo_hold3 t (HoldIncH fp) s = andthen (inc_count Mutex3 t fp s) (\<lambda>s. Next (HoldUnH fp, s))"
| "foo_hold3 t (HoldUnH fp) s = andthen (unlock_hash t s) (\<lambda>s. Next (Idle, s\<lparr>pool := pool s + {#fp, fp#}\<rparr>))"
| "foo_hold3 t _ s = Fault"

fun foo_find3 :: "nat \<Rightarrow> pc \<Rightarrow> state \<Rightarrow> (pc \<times> state) outcome" where
  "foo_find3 t (FindLockH i) s = andthen (lock_hash t s) (\<lambda>s. Next (FindScan i, s))"
| "foo_find3 t (FindScan i) s = andthen (find_foo t i s) (\<lambda>fp.
     if fp \<noteq> 0 then andthen (inc_count Mutex3 t fp s) (\<lambda>s. Next (FindUnH fp, s)) else Next (FindUnH 0, s))"
| "foo_find3 t (FindUnH fp) s =
     andthen (unlock_hash t s) (\<lambda>s. Next (Idle, if fp \<noteq> 0 then s\<lparr>pool := add_mset fp (pool s)\<rparr> else s))"
| "foo_find3 t _ s = Fault"

fun foo_rele3 :: "nat \<Rightarrow> pc \<Rightarrow> state \<Rightarrow> (pc \<times> state) outcome" where
  "foo_rele3 t (Rele3LockH fp) s = andthen (lock_hash t s) (\<lambda>s. Next (Rele3Test fp, s))"
| "foo_rele3 t (Rele3Test fp) s = andthen (dec_count Mutex3 t fp s) (\<lambda>s. andthen (get_count Mutex3 t fp s) (\<lambda>c.
     Next (if c = 0 then Rele3Remove fp else Rele3UnH, s)))"
| "foo_rele3 t (Rele3Remove fp) s = andthen (unlink_foo t fp s) (\<lambda>s. Next (Rele3UnH4 fp, s))"
| "foo_rele3 t (Rele3UnH4 fp) s = andthen (unlock_hash t s) (\<lambda>s. Next (Rele3Free fp, s))"
| "foo_rele3 t (Rele3Free fp) s = andthen (destroy_foo fp s) (\<lambda>s. andthen (free_foo fp s) (\<lambda>s. Next (Idle, s)))"
| "foo_rele3 t Rele3UnH s = andthen (unlock_hash t s) (\<lambda>s. Next (Idle, s))"
| "foo_rele3 t _ s = Fault"

text \<open>\<open>foo_rele\<close> of \<open>11.6.2avoid_deadlock1.c\<close> is that of the second file without \<open>free\<close>.\<close>

fun foo_rele_copy :: "nat \<Rightarrow> pc \<Rightarrow> state \<Rightarrow> (pc \<times> state) outcome" where
  "foo_rele_copy t (ReleFree fp) s = andthen (destroy_foo fp s) (\<lambda>s. Next (Idle, s))"
| "foo_rele_copy t p s = foo_rele t p s"

section \<open>Threads\<close>

datatype fn = Is_idle | In_alloc | In_hold | In_find | In_rele

fun fn_of :: "pc \<Rightarrow> fn" where
  "fn_of Idle = Is_idle"
| "fn_of (Alloc _) = In_alloc" | "fn_of (AllocLockH _ _) = In_alloc" | "fn_of (AllocLink _ _) = In_alloc"
| "fn_of (AllocLockF _) = In_alloc" | "fn_of (AllocUnH _) = In_alloc" | "fn_of (AllocUnF _) = In_alloc"
| "fn_of (HoldLockF _) = In_hold" | "fn_of (HoldInc _) = In_hold" | "fn_of (HoldUnF _) = In_hold"
| "fn_of (HoldLockH _) = In_hold" | "fn_of (HoldIncH _) = In_hold" | "fn_of (HoldUnH _) = In_hold"
| "fn_of (FindLockH _) = In_find" | "fn_of (FindScan _) = In_find" | "fn_of (FindLockF _) = In_find"
| "fn_of (FindInc _) = In_find" | "fn_of (FindUnF _) = In_find" | "fn_of (FindUnH _) = In_find"
| "fn_of _ = In_rele"

text \<open>One step of a thread that is in a function of the file.\<close>

definition tstep :: "variant \<Rightarrow> nat \<Rightarrow> choice \<Rightarrow> pc \<Rightarrow> state \<Rightarrow> (pc \<times> state) outcome" where
  "tstep v t c p s = (case fn_of p of
       Is_idle \<Rightarrow> Blocked
     | In_alloc \<Rightarrow> if v = Mutex1 then foo_alloc1 t c p s else foo_alloc t c p s
     | In_hold \<Rightarrow> if v = Mutex3 then foo_hold3 t p s else foo_hold v t p s
     | In_find \<Rightarrow> if v = Mutex3 then foo_find3 t p s else if v = Mutex2 then foo_find t p s else Fault
     | In_rele \<Rightarrow> if v = Mutex1 then foo_rele1 t p s else if v = Mutex2 then foo_rele t p s else foo_rele3 t p s)"

datatype request = Want_alloc int | Want_hold nat | Want_find int | Want_rele nat

text \<open>The first control state of a call; the first file has no \<open>foo_find\<close>.\<close>

fun entry :: "variant \<Rightarrow> request \<Rightarrow> pc option" where
  "entry v (Want_alloc i) = Some (Alloc i)"
| "entry v (Want_hold fp) = Some (if v = Mutex3 then HoldLockH fp else HoldLockF fp)"
| "entry v (Want_find i) = (if v = Mutex1 then None else Some (FindLockH i))"
| "entry v (Want_rele fp) = Some (if v = Mutex3 then Rele3LockH fp else ReleLockF fp)"

text \<open>The reference that the caller of \<open>foo_hold\<close> and \<open>foo_rele\<close> has and that no other thread uses during the call.\<close>

fun uses :: "request \<Rightarrow> nat multiset" where
  "uses (Want_hold fp) = {#fp#}"
| "uses (Want_rele fp) = {#fp#}"
| "uses _ = {#}"

text \<open>The references that a call may still need: clients keep the number of references within an \<open>int\<close>.\<close>

fun room :: "pc \<Rightarrow> nat" where
  "room Idle = 0"
| "room (HoldLockF _) = 2" | "room (HoldInc _) = 2" | "room (HoldUnF _) = 2"
| "room (HoldLockH _) = 2" | "room (HoldIncH _) = 2" | "room (HoldUnH _) = 2"
| "room (ReleUnF _) = 0" | "room (ReleUnF3 _) = 0" | "room (ReleUnH3 _) = 0" | "room (Rele1UnF _) = 0" | "room (Rele1Free _) = 0"
| "room (Rele3Remove _) = 0" | "room (Rele3UnH4 _) = 0" | "room (Rele3Free _) = 0" | "room Rele3UnH = 0"
| "room _ = 1"

definition total :: "pc list \<Rightarrow> state \<Rightarrow> nat" where
  "total ps s = size (pool s) + sum_list (map room ps)"

text \<open>The threads' steps in any order. A call of \<open>foo_hold\<close> or \<open>foo_rele\<close> takes a reference of the clients with it; \<open>malloc\<close>
  returns a null pointer or memory that is not in use.\<close>

inductive sys_step :: "variant \<Rightarrow> pc list \<times> state \<Rightarrow> pc list \<times> state \<Rightarrow> bool" for v where
  call: "t < length ps \<Longrightarrow> ps ! t = Idle \<Longrightarrow> entry v r = Some p \<Longrightarrow> uses r \<subseteq># pool s \<Longrightarrow> int (total ps s) < INT_MAX \<Longrightarrow>
    sys_step v (ps, s) (ps[t := p], s\<lparr>pool := pool s - uses r\<rparr>)"
| run: "t < length ps \<Longrightarrow> fst c = 0 \<or> heap s (fst c) = None \<Longrightarrow> tstep v t c (ps ! t) s = Next (p, s') \<Longrightarrow>
    sys_step v (ps, s) (ps[t := p], s')"

definition start :: "nat \<Rightarrow> pc list \<times> state" where
  "start n = (replicate n Idle, \<lparr>heap = Map.empty, fh = replicate NHASH 0, hashlock = None, pool = {#}\<rparr>)"

inductive reachable :: "variant \<Rightarrow> nat \<Rightarrow> pc list \<times> state \<Rightarrow> bool" for v n where
  init: "reachable v n (start n)"
| step: "reachable v n x \<Longrightarrow> sys_step v x y \<Longrightarrow> reachable v n y"

end
