(* ===== verification/Foo_Table.thy ===== *)
theory Foo_Table
  imports Foo_Model
begin

text \<open>
  The chains of the hash table of reference-counted objects: which objects are in the table, and what linking, scanning and unlinking do to
  the chains. The lemmas look at the identifiers and links of the objects only.
\<close>

definition nv :: "foo store \<Rightarrow> nat \<Rightarrow> (int \<times> nat) option" where
  "nv h a = map_option (\<lambda>n. (f_id n, f_next n)) (h a)"

fun chain :: "(nat \<Rightarrow> (int \<times> nat) option) \<Rightarrow> nat \<Rightarrow> nat list \<Rightarrow> bool" where
  "chain N p [] \<longleftrightarrow> p = 0"
| "chain N p (x # xs) \<longleftrightarrow> p = x \<and> x \<noteq> 0 \<and> (case N x of None \<Rightarrow> False | Some (i, q) \<Rightarrow> chain N q xs)"

text \<open>The table has the objects outside of \<open>U\<close>, each in the chain of its identifier.\<close>

definition table :: "(nat \<Rightarrow> (int \<times> nat) option) \<Rightarrow> nat list \<Rightarrow> nat set \<Rightarrow> bool" where
  "table N b U \<longleftrightarrow> length b = NHASH \<and> (\<forall>k < NHASH. \<exists>xs. chain N (b ! k) xs \<and> distinct xs \<and>
     set xs = {a. a \<notin> U \<and> (\<exists>i q. N a = Some (i, q) \<and> HASH i = k)})"

lemma chain_frame: "a \<notin> set xs \<Longrightarrow> chain (N(a := v)) p xs = chain N p xs"
  by (induction xs arbitrary: p) (auto split: option.splits)

lemma chain_Cons: "chain (nv h) p (x # xs) \<longleftrightarrow> p = x \<and> x \<noteq> 0 \<and> (\<exists>n. h x = Some n \<and> chain (nv h) (f_next n) xs)"
  by (cases "h x") (simp_all add: nv_def [of h x])

lemma nv_Some: "nv h x = Some (i, q) \<longleftrightarrow> (\<exists>n. h x = Some n \<and> i = f_id n \<and> q = f_next n)"
  by (auto simp: nv_def)

lemma chain_dom: "chain N p xs \<Longrightarrow> x \<in> set xs \<Longrightarrow> x \<noteq> 0 \<and> N x \<noteq> None"
  by (induction xs arbitrary: p) (auto split: option.splits)

lemma chain_append:
  "chain N p (xs @ y # ys) \<Longrightarrow> \<exists>i q. N y = Some (i, q) \<and> chain N q ys \<and> y \<noteq> 0"
  by (induction xs arbitrary: p) (auto split: option.splits)

text \<open>Unlinking the element behind \<open>y\<close>.\<close>

lemma chain_bypass:
  assumes "chain N p (xs @ y # a # ys)" "distinct (xs @ y # a # ys)" "N y = Some (i, q)" "N a = Some (j, r)"
  shows "chain (N(y \<mapsto> (i, r))) p (xs @ y # ys)"
  using assms
proof (induction xs arbitrary: p)
  case Nil
  then have "chain N r ys" "y \<notin> set ys" by auto
  then have "chain (N(y \<mapsto> (i, r))) r ys" by (simp add: chain_frame)
  moreover have "(N(y \<mapsto> (i, r))) y = Some (i, r)" by simp
  ultimately show ?case using Nil by (simp del: fun_upd_apply)
next
  case (Cons x xs)
  then obtain j' q' where n: "N x = Some (j', q')" "chain N q' (xs @ y # a # ys)" "p = x" "x \<noteq> 0" "x \<noteq> y" by (auto split: option.splits)
  moreover have "(N(y \<mapsto> (i, r))) x = N x" using n(5) by simp
  ultimately show ?case using Cons by (simp del: fun_upd_apply)
qed

lemma pred_loop_chain:
  assumes "chain (nv h) p (xs @ y # a # ys)" "distinct (xs @ y # a # ys)"
  shows "pred_loop h a p = Some y"
  using assms
proof (induction xs arbitrary: p)
  case Nil
  then obtain n where "h y = Some n" "f_next n = a" "p = y" "y \<noteq> 0" by (auto simp: chain_Cons simp del: chain.simps(2))
  then show ?case by (simp add: pred_loop.simps)
next
  case (Cons x xs)
  then obtain n where n: "h x = Some n" "p = x" "x \<noteq> 0" "chain (nv h) (f_next n) (xs @ y # a # ys)"
    by (auto simp: chain_Cons simp del: chain.simps(2))
  moreover have "f_next n \<noteq> a" using n(4) Cons.prems(2) by (cases xs) auto
  ultimately show ?case using Cons.IH [OF n(4)] Cons.prems(2) by (simp add: pred_loop.simps [of h a x])
qed

lemma scan_chain:
  "chain (nv h) p xs \<Longrightarrow> scan h i p = Some (case find (\<lambda>a. map_option f_id (h a) = Some i) xs of None \<Rightarrow> 0 | Some a \<Rightarrow> a)"
proof (induction xs arbitrary: p)
  case Nil
  then show ?case by (simp add: scan.simps)
next
  case (Cons x xs)
  then obtain n where n: "h x = Some n" "p = x" "x \<noteq> 0" "chain (nv h) (f_next n) xs"
    by (auto simp: chain_Cons simp del: chain.simps(2))
  then show ?case using Cons.IH [OF n(4)] by (simp add: scan.simps [of h i x])
qed

section \<open>Operations on the table\<close>

lemma table_new:
  assumes "table N b U" "N a = None"
  shows "table (N(a \<mapsto> v)) b (insert a U)"
  unfolding table_def
proof (intro conjI allI impI)
  show "length b = NHASH" using assms(1) by (simp add: table_def)
  fix k assume "k < NHASH"
  then obtain xs where x: "chain N (b ! k) xs" "distinct xs" "set xs = {a. a \<notin> U \<and> (\<exists>i q. N a = Some (i, q) \<and> HASH i = k)}"
    using assms(1) unfolding table_def by blast
  then have "chain (N(a \<mapsto> v)) (b ! k) xs" using assms(2) by (auto simp: chain_frame)
  moreover have "set xs = {c. c \<notin> insert a U \<and> (\<exists>i q. (N(a \<mapsto> v)) c = Some (i, q) \<and> HASH i = k)}" using x(3) assms(2) by auto
  ultimately show "\<exists>xs. chain (N(a \<mapsto> v)) (b ! k) xs \<and> distinct xs \<and> set xs = {c. c \<notin> insert a U \<and> (\<exists>i q. (N(a \<mapsto> v)) c = Some (i, q) \<and> HASH i = k)}"
    using x(2) by blast
qed

lemma table_free:
  assumes "table N b (insert a U)" "a \<notin> U"
  shows "table (N(a := None)) b U"
  unfolding table_def
proof (intro conjI allI impI)
  show "length b = NHASH" using assms(1) by (simp add: table_def)
  fix k assume "k < NHASH"
  then obtain xs where x: "chain N (b ! k) xs" "distinct xs" "set xs = {c. c \<notin> insert a U \<and> (\<exists>i q. N c = Some (i, q) \<and> HASH i = k)}"
    using assms(1) unfolding table_def by blast
  then have "chain (N(a := None)) (b ! k) xs" by (auto simp: chain_frame)
  moreover have "set xs = {c. c \<notin> U \<and> (\<exists>i q. (N(a := None)) c = Some (i, q) \<and> HASH i = k)}" using x(3) assms(2) by auto
  ultimately show "\<exists>xs. chain (N(a := None)) (b ! k) xs \<and> distinct xs \<and> set xs = {c. c \<notin> U \<and> (\<exists>i q. (N(a := None)) c = Some (i, q) \<and> HASH i = k)}"
    using x(2) by blast
qed

lemma table_link:
  assumes T: "table N b (insert a U)" and a: "a \<notin> U" "a \<noteq> 0" "N a = Some (i, q)"
  shows "table (N(a \<mapsto> (i, b ! HASH i))) (b[HASH i := a]) U"
  unfolding table_def
proof (intro conjI allI impI)
  let ?N = "N(a \<mapsto> (i, b ! HASH i))" and ?b = "b[HASH i := a]"
  show len: "length ?b = NHASH" using T by (simp add: table_def)
  fix k assume k: "k < NHASH"
  then obtain xs where x: "chain N (b ! k) xs" "distinct xs" "set xs = {c. c \<notin> insert a U \<and> (\<exists>i q. N c = Some (i, q) \<and> HASH i = k)}"
    using T unfolding table_def by blast
  then have c: "chain ?N (b ! k) xs" "a \<notin> set xs" by (auto simp: chain_frame)
  show "\<exists>xs. chain ?N (?b ! k) xs \<and> distinct xs \<and> set xs = {c. c \<notin> U \<and> (\<exists>i q. ?N c = Some (i, q) \<and> HASH i = k)}"
  proof (cases "k = HASH i")
    case True
    then show ?thesis using c x a k len by (intro exI [of _ "a # xs"]) auto
  next
    case False
    then show ?thesis using c x a by (intro exI [of _ xs]) auto
  qed
qed

text \<open>The two cases of the removal of \<open>foo_rele\<close>.\<close>

lemma table_unlink:
  assumes T: "table (nv h) b U" and a: "a \<notin> U" "h a = Some n"
  shows "\<exists>h' b'. (if b ! HASH (f_id n) = a then Some (h, b[HASH (f_id n) := f_next n])
      else do { q \<leftarrow> pred_loop h a (b ! HASH (f_id n)); h' \<leftarrow> modify h q (f_next_update (\<lambda>_. f_next n)); Some (h', b) }) = Some (h', b') \<and>
    table (nv h') b' (insert a U) \<and> (\<forall>x. map_option f_lock (h' x) = map_option f_lock (h x)) \<and> (\<forall>x. map_option f_count (h' x) = map_option f_count (h x)) \<and>
    (\<forall>x. map_option f_id (h' x) = map_option f_id (h x))"
proof -
  let ?k = "HASH (f_id n)"
  have k: "?k < NHASH" and len: "length b = NHASH" using T HASH_less by (auto simp: table_def)
  have Na: "nv h a = Some (f_id n, f_next n)" using a by (simp add: nv_def)
  obtain xs where x: "chain (nv h) (b ! ?k) xs" "distinct xs" "set xs = {c. c \<notin> U \<and> (\<exists>i q. nv h c = Some (i, q) \<and> HASH i = ?k)}"
    using T k unfolding table_def by blast
  then have "a \<in> set xs" using a Na by auto
  then obtain as bs where xs: "xs = as @ a # bs" by (meson split_list)
  have other: "\<exists>ys. chain N' (b ! k') ys \<and> distinct ys \<and> set ys = {c. c \<notin> insert a U \<and> (\<exists>i q. N' c = Some (i, q) \<and> HASH i = k')}"
    if k': "k' < NHASH" "k' \<noteq> ?k" and N': "\<And>c. c \<notin> set xs \<Longrightarrow> N' c = nv h c" "\<And>c. map_option fst (N' c) = map_option fst (nv h c)" for k' N'
  proof -
    obtain ys where y: "chain (nv h) (b ! k') ys" "distinct ys" "set ys = {c. c \<notin> U \<and> (\<exists>i q. nv h c = Some (i, q) \<and> HASH i = k')}"
      using T k' unfolding table_def by blast
    have d: "set ys \<inter> set xs = {}" using y(3) x(3) k'(2) by auto
    have "chain N' p ys" if "chain (nv h) p ys" "set ys \<inter> set xs = {}" for p ys
      using that by (induction ys arbitrary: p) (auto simp: N'(1) split: option.splits)
    then have "chain N' (b ! k') ys" using y(1) d by blast
    moreover have "(\<exists>i q. N' c = Some (i, q) \<and> HASH i = k') \<longleftrightarrow> (\<exists>i q. nv h c = Some (i, q) \<and> HASH i = k')" for c
      using N'(2) [of c] by (cases "N' c"; cases "nv h c") auto
    moreover have "a \<notin> set ys" using d xs by auto
    ultimately show ?thesis using y(2,3) by (intro exI [of _ ys]) auto
  qed
  show ?thesis
  proof (cases "as = []")
    case True
    then have ba: "b ! ?k = a" "chain (nv h) (f_next n) bs" using x(1) xs Na by auto
    have "table (nv h) (b[?k := f_next n]) (insert a U)" unfolding table_def
    proof (intro conjI allI impI)
      fix k' assume k': "k' < NHASH"
      show "\<exists>ys. chain (nv h) (b[?k := f_next n] ! k') ys \<and> distinct ys \<and> set ys = {c. c \<notin> insert a U \<and> (\<exists>i q. nv h c = Some (i, q) \<and> HASH i = k')}"
      proof (cases "k' = ?k")
        case True
        then show ?thesis using ba x(2,3) xs \<open>as = []\<close> len k by (intro exI [of _ bs]) auto
      next
        case False
        then show ?thesis using other [OF k' False, of "nv h"] by simp
      qed
    qed (simp add: len)
    then show ?thesis using ba by auto
  next
    case False
    then obtain cs y where as: "as = cs @ [y]" by (metis append_butlast_last_id)
    have xs': "xs = cs @ y # a # bs" using xs as by simp
    have pl: "pred_loop h a (b ! ?k) = Some y" using pred_loop_chain [of h "b ! ?k" cs y a bs] x(1,2) xs' by simp
    have ne: "b ! ?k \<noteq> a" using x(1,2) xs' by (cases cs) auto
    obtain m where m: "h y = Some m" "y \<noteq> 0" using chain_dom [OF x(1), of y] xs' by (auto simp: nv_def)
    let ?h = "h(y \<mapsto> m\<lparr>f_next := f_next n\<rparr>)"
    have N: "nv ?h = (nv h)(y \<mapsto> (f_id m, f_next n))" by (auto simp: nv_def)
    have "table (nv ?h) b (insert a U)" unfolding table_def
    proof (intro conjI allI impI)
      fix k' assume k': "k' < NHASH"
      show "\<exists>ys. chain (nv ?h) (b ! k') ys \<and> distinct ys \<and> set ys = {c. c \<notin> insert a U \<and> (\<exists>i q. nv ?h c = Some (i, q) \<and> HASH i = k')}"
      proof (cases "k' = ?k")
        case True
        have "chain (nv ?h) (b ! ?k) (cs @ y # bs)" unfolding N
          by (rule chain_bypass) (use x(1,2) xs' Na m in \<open>auto simp: nv_def\<close>)
        moreover have "(\<exists>i q. nv ?h c = Some (i, q) \<and> HASH i = ?k) \<longleftrightarrow> (\<exists>i q. nv h c = Some (i, q) \<and> HASH i = ?k)" for c
          using m(1) by (auto simp: nv_def)
        moreover have "set (cs @ y # bs) = set xs - {a}" using x(2) xs' by auto
        ultimately show ?thesis using True x(2) xs' unfolding x(3) by (intro exI [of _ "cs @ y # bs"]) auto
      next
        case False
        then show ?thesis using m xs' by (intro other [OF k' False]) (auto simp: nv_def)
      qed
    qed (simp add: len)
    then show ?thesis using pl ne m by (intro exI [of _ ?h] exI [of _ b]) auto
  qed
qed

text \<open>The scan of \<open>foo_find\<close>.\<close>

lemma find_foo_table:
  assumes T: "table (nv (heap s)) (fh s) U" and hl: "hashlock s = Some t"
  shows "\<exists>a. find_foo t i s = Next a \<and> (if a = 0 then \<forall>b n. heap s b = Some n \<longrightarrow> f_id n = i \<longrightarrow> b \<in> U
    else (\<exists>n. heap s a = Some n \<and> f_id n = i) \<and> a \<notin> U)"
proof -
  obtain xs where x: "chain (nv (heap s)) (fh s ! HASH i) xs" "set xs = {a. a \<notin> U \<and> (\<exists>j q. nv (heap s) a = Some (j, q) \<and> HASH j = HASH i)}"
    using T HASH_less [of i] unfolding table_def by blast
  have len: "HASH i < length (fh s)" using T HASH_less by (simp add: table_def)
  let ?P = "\<lambda>a. map_option f_id (heap s a) = Some i"
  have f: "find_foo t i s = Next (case find ?P xs of None \<Rightarrow> 0 | Some a \<Rightarrow> a)" using hl len scan_chain [OF x(1), of i] by (simp add: find_foo_def)
  show ?thesis
  proof (cases "find ?P xs")
    case None
    then have "b \<in> U" if "heap s b = Some n" "f_id n = i" for b n
      using that x(2) by (auto simp: find_None_iff nv_Some)
    then show ?thesis using f None by simp
  next
    case (Some a)
    then have "a \<in> set xs" "?P a" by (auto simp: find_Some_iff)
    then show ?thesis using f Some x chain_dom [OF x(1), of a] by (intro exI [of _ a]) auto
  qed
qed

end
