(* ===== verification/Foo_Inv.thy ===== *)
theory Foo_Inv
  imports Ref_Counts Foo_Table
begin

text \<open>
  The control states of the three files in the terms of the discipline of \<open>Ref_Counts\<close>, the invariant of the system, and one lemma for every kind of
  step: mutex operations, counting, and the changes of the table.
\<close>

section \<open>What the control states stand for\<close>

fun holds_hash :: "pc \<Rightarrow> bool" where
  "holds_hash (AllocLink _ _) = True" | "holds_hash (AllocLockF _) = True" | "holds_hash (AllocUnH _) = True"
| "holds_hash (HoldIncH _) = True" | "holds_hash (HoldUnH _) = True"
| "holds_hash (FindScan _) = True" | "holds_hash (FindLockF _) = True" | "holds_hash (FindInc _) = True"
| "holds_hash (FindUnF _) = True" | "holds_hash (FindUnH _) = True"
| "holds_hash (ReleLockF2 _) = True" | "holds_hash (ReleTest2 _) = True" | "holds_hash (ReleUnF3 _) = True" | "holds_hash (ReleUnH3 _) = True"
| "holds_hash (ReleRemove _) = True" | "holds_hash (ReleUnH4 _) = True"
| "holds_hash (Rele3Test _) = True" | "holds_hash (Rele3Remove _) = True" | "holds_hash (Rele3UnH4 _) = True" | "holds_hash Rele3UnH = True"
| "holds_hash _ = False"

fun holds_foo :: "pc \<Rightarrow> nat option" where
  "holds_foo (AllocUnH a) = Some a" | "holds_foo (AllocUnF a) = Some a"
| "holds_foo (HoldInc a) = Some a" | "holds_foo (HoldUnF a) = Some a"
| "holds_foo (FindInc a) = Some a" | "holds_foo (FindUnF a) = Some a"
| "holds_foo (ReleTest a) = Some a" | "holds_foo (ReleUnF1 a) = Some a" | "holds_foo (ReleTest2 a) = Some a" | "holds_foo (ReleUnF3 a) = Some a"
| "holds_foo (ReleRemove a) = Some a" | "holds_foo (ReleUnH4 a) = Some a" | "holds_foo (ReleUnF4 a) = Some a" | "holds_foo (ReleUnF a) = Some a"
| "holds_foo (Rele1Test a) = Some a" | "holds_foo (Rele1UnF a) = Some a"
| "holds_foo _ = None"

text \<open>The references inside of a call.\<close>

fun prefs :: "pc \<Rightarrow> nat multiset" where
  "prefs Idle = {#}" | "prefs (Alloc _) = {#}"
| "prefs (AllocLockH a _) = {#a#}" | "prefs (AllocLink a _) = {#a#}" | "prefs (AllocLockF a) = {#a#}" | "prefs (AllocUnH a) = {#a#}" | "prefs (AllocUnF a) = {#a#}"
| "prefs (HoldLockF a) = {#a#}" | "prefs (HoldInc a) = {#a#}" | "prefs (HoldUnF a) = {#a, a#}"
| "prefs (HoldLockH a) = {#a#}" | "prefs (HoldIncH a) = {#a#}" | "prefs (HoldUnH a) = {#a, a#}"
| "prefs (FindUnF a) = {#a#}" | "prefs (FindUnH a) = (if a = 0 then {#} else {#a#})"
| "prefs (ReleLockF a) = {#a#}" | "prefs (ReleTest a) = {#a#}" | "prefs (ReleUnF1 a) = {#a#}" | "prefs (ReleLockH a) = {#a#}"
| "prefs (ReleLockF2 a) = {#a#}" | "prefs (ReleTest2 a) = {#a#}" | "prefs (ReleRemove a) = {#a#}" | "prefs (ReleUnH4 a) = {#a#}"
| "prefs (ReleUnF4 a) = {#a#}" | "prefs (ReleFree a) = {#a#}"
| "prefs (Rele1Test a) = {#a#}" | "prefs (Rele3LockH a) = {#a#}" | "prefs (Rele3Test a) = {#a#}"
| "prefs _ = {#}"

text \<open>The object of which the thread is the sole user, the one that it has taken from the table or not put there yet, and the one whose mutex is out of
  use.\<close>

fun sole_of :: "pc \<Rightarrow> nat option" where
  "sole_of (AllocLockH a _) = Some a" | "sole_of (AllocLink a _) = Some a"
| "sole_of (ReleRemove a) = Some a" | "sole_of (ReleUnH4 a) = Some a" | "sole_of (ReleUnF4 a) = Some a" | "sole_of (ReleFree a) = Some a"
| "sole_of (Rele1UnF a) = Some a" | "sole_of (Rele1Free a) = Some a"
| "sole_of (Rele3Remove a) = Some a" | "sole_of (Rele3UnH4 a) = Some a" | "sole_of (Rele3Free a) = Some a"
| "sole_of _ = None"

fun unl :: "pc \<Rightarrow> nat option" where
  "unl (AllocLockH a _) = Some a" | "unl (AllocLink a _) = Some a"
| "unl (ReleUnH4 a) = Some a" | "unl (ReleUnF4 a) = Some a" | "unl (ReleFree a) = Some a"
| "unl (Rele3UnH4 a) = Some a" | "unl (Rele3Free a) = Some a"
| "unl _ = None"

fun quiet_of :: "pc \<Rightarrow> nat option" where
  "quiet_of (ReleFree a) = Some a" | "quiet_of (Rele1Free a) = Some a" | "quiet_of (Rele3Free a) = Some a"
| "quiet_of _ = None"

text \<open>The object that \<open>foo_find\<close> has found, and the identifier of the object that \<open>foo_alloc\<close> makes.\<close>

fun tgt :: "pc \<Rightarrow> nat option" where
  "tgt (FindLockF a) = Some a" | "tgt (FindInc a) = Some a" | "tgt _ = None"

fun pid :: "pc \<Rightarrow> (nat \<times> int) option" where
  "pid (AllocLockH a i) = Some (a, i)" | "pid (AllocLink a i) = Some (a, i)" | "pid _ = None"

text \<open>The control states of a file.\<close>

fun ok_pc :: "variant \<Rightarrow> pc \<Rightarrow> bool" where
  "ok_pc v Idle = True" | "ok_pc v (Alloc _) = True"
| "ok_pc v (AllocLockH _ _) = (v \<noteq> Mutex1)" | "ok_pc v (AllocLink _ _) = (v \<noteq> Mutex1)" | "ok_pc v (AllocLockF _) = (v \<noteq> Mutex1)"
| "ok_pc v (AllocUnH _) = (v \<noteq> Mutex1)" | "ok_pc v (AllocUnF _) = (v \<noteq> Mutex1)"
| "ok_pc v (HoldLockF _) = (v \<noteq> Mutex3)" | "ok_pc v (HoldInc _) = (v \<noteq> Mutex3)" | "ok_pc v (HoldUnF _) = (v \<noteq> Mutex3)"
| "ok_pc v (HoldLockH _) = (v = Mutex3)" | "ok_pc v (HoldIncH _) = (v = Mutex3)" | "ok_pc v (HoldUnH _) = (v = Mutex3)"
| "ok_pc v (FindLockH _) = (v \<noteq> Mutex1)" | "ok_pc v (FindScan _) = (v \<noteq> Mutex1)" | "ok_pc v (FindUnH _) = (v \<noteq> Mutex1)"
| "ok_pc v (FindLockF _) = (v = Mutex2)" | "ok_pc v (FindInc _) = (v = Mutex2)" | "ok_pc v (FindUnF _) = (v = Mutex2)"
| "ok_pc v (ReleLockF _) = (v \<noteq> Mutex3)" | "ok_pc v (ReleUnF _) = (v \<noteq> Mutex3)"
| "ok_pc v (Rele1Test _) = (v = Mutex1)" | "ok_pc v (Rele1UnF _) = (v = Mutex1)" | "ok_pc v (Rele1Free _) = (v = Mutex1)"
| "ok_pc v (Rele3LockH _) = (v = Mutex3)" | "ok_pc v (Rele3Test _) = (v = Mutex3)" | "ok_pc v (Rele3Remove _) = (v = Mutex3)"
| "ok_pc v (Rele3UnH4 _) = (v = Mutex3)" | "ok_pc v (Rele3Free _) = (v = Mutex3)" | "ok_pc v Rele3UnH = (v = Mutex3)"
| "ok_pc v _ = (v = Mutex2)"

interpretation d: discipline holds_hash holds_foo prefs sole_of quiet_of room
proof
  show "quiet_of p = Some a \<Longrightarrow> sole_of p = Some a" for p a by (cases p) auto
  show "size (prefs p) \<le> room p" for p by (cases p) auto
qed

lemma unl_sole: "unl p = Some a \<Longrightarrow> sole_of p = Some a"
  by (cases p) auto

lemma sole_cases: "sole_of p = Some a \<Longrightarrow> ok_pc v p \<Longrightarrow> v \<noteq> Mutex1 \<Longrightarrow> holds_hash p \<or> unl p = Some a"
  by (cases p) auto

lemma holder_refs: "holds_foo p = Some a \<Longrightarrow> ok_pc Mutex3 p \<Longrightarrow> a \<in># prefs p"
  by (cases p) auto

section \<open>The invariant\<close>

definition lk :: "foo store \<Rightarrow> nat \<Rightarrow> nat option option" where
  "lk h a = map_option f_lock (h a)"

definition ct :: "foo store \<Rightarrow> nat \<Rightarrow> int option" where
  "ct h a = map_option f_count (h a)"

definition unls :: "pc list \<Rightarrow> nat set" where
  "unls ps = {a. \<exists>t < length ps. unl (ps ! t) = Some a}"

definition tgts :: "pc list \<Rightarrow> (nat \<Rightarrow> (int \<times> nat) option) \<Rightarrow> bool" where
  "tgts ps N \<longleftrightarrow> (\<forall>t < length ps. (\<forall>a. tgt (ps ! t) = Some a \<longrightarrow> N a \<noteq> None \<and> a \<notin> unls ps) \<and>
     (\<forall>a i. pid (ps ! t) = Some (a, i) \<longrightarrow> map_option fst (N a) = Some i))"

definition inv :: "variant \<Rightarrow> pc list \<Rightarrow> state \<Rightarrow> bool" where
  "inv v ps s \<longleftrightarrow> d.locks ps (lk (heap s)) (hashlock s) \<and> d.counts ps (ct (heap s)) (pool s) \<and> d.quiets ps (lk (heap s)) \<and>
     d.fits INT_MAX ps (pool s) \<and> (\<forall>t < length ps. ok_pc v (ps ! t)) \<and>
     (v \<noteq> Mutex1 \<longrightarrow> table (nv (heap s)) (fh s) (unls ps) \<and> tgts ps (nv (heap s)))"

definition safe :: "variant \<Rightarrow> pc list \<Rightarrow> nat \<Rightarrow> (pc \<times> state) outcome \<Rightarrow> bool" where
  "safe v ps t r \<longleftrightarrow> (case r of Fault \<Rightarrow> False | Blocked \<Rightarrow> True | Next (p, s) \<Rightarrow> inv v (ps[t := p]) s)"

lemma safe_simps [simp]: "safe v ps t (Next (p, s)) = inv v (ps[t := p]) s" "safe v ps t Blocked" "\<not> safe v ps t Fault"
  by (auto simp: safe_def)

lemma views [simp]:
  "h a = Some n \<Longrightarrow> lk (h(a \<mapsto> n\<lparr>f_lock := l\<rparr>)) = (lk h)(a \<mapsto> l)" "h a = Some n \<Longrightarrow> ct (h(a \<mapsto> n\<lparr>f_lock := l\<rparr>)) = ct h"
  "h a = Some n \<Longrightarrow> nv (h(a \<mapsto> n\<lparr>f_lock := l\<rparr>)) = nv h" "h a = Some n \<Longrightarrow> lk (h(a \<mapsto> n\<lparr>f_count := c\<rparr>)) = lk h"
  "h a = Some n \<Longrightarrow> ct (h(a \<mapsto> n\<lparr>f_count := c\<rparr>)) = (ct h)(a \<mapsto> c)" "h a = Some n \<Longrightarrow> nv (h(a \<mapsto> n\<lparr>f_count := c\<rparr>)) = nv h"
  "h a = Some n \<Longrightarrow> lk (h(a \<mapsto> n\<lparr>f_next := q\<rparr>)) = lk h" "h a = Some n \<Longrightarrow> ct (h(a \<mapsto> n\<lparr>f_next := q\<rparr>)) = ct h"
  "h a = Some n \<Longrightarrow> nv (h(a \<mapsto> n\<lparr>f_next := q\<rparr>)) = (nv h)(a \<mapsto> (f_id n, q))"
  "lk (h(a := None)) = (lk h)(a := None)" "ct (h(a := None)) = (ct h)(a := None)" "nv (h(a := None)) = (nv h)(a := None)"
  "lk (h(a \<mapsto> new_foo i)) = (lk h)(a \<mapsto> None)" "ct (h(a \<mapsto> new_foo i)) = (ct h)(a \<mapsto> 1)" "nv (h(a \<mapsto> new_foo i)) = (nv h)(a \<mapsto> (i, 0))"
  by (auto simp: lk_def ct_def nv_def new_foo_def fun_eq_iff)

text \<open>Which part of the table a change of control state can affect.\<close>

definition same_tab :: "pc \<Rightarrow> pc \<Rightarrow> bool" where
  "same_tab p p' \<longleftrightarrow> unl p' = unl p \<and> (tgt p' = None \<or> tgt p' = tgt p) \<and> (pid p' = None \<or> pid p' = pid p)"

lemma unls_same: "t < length ps \<Longrightarrow> unl p = unl (ps ! t) \<Longrightarrow> unls (ps[t := p]) = unls ps"
  by (auto simp: unls_def nth_list_update split: if_splits)

lemma tgts_same: "tgts ps N \<Longrightarrow> t < length ps \<Longrightarrow> same_tab (ps ! t) p \<Longrightarrow> tgts (ps[t := p]) N"
  using unls_same [of t ps p] by (auto simp: tgts_def same_tab_def nth_list_update split: if_splits)

lemma invD:
  assumes "inv v ps s"
  shows "d.locks ps (lk (heap s)) (hashlock s)" "d.counts ps (ct (heap s)) (pool s)" "d.quiets ps (lk (heap s))" "d.fits INT_MAX ps (pool s)"
    "t < length ps \<Longrightarrow> ok_pc v (ps ! t)" "v \<noteq> Mutex1 \<Longrightarrow> table (nv (heap s)) (fh s) (unls ps)" "v \<noteq> Mutex1 \<Longrightarrow> tgts ps (nv (heap s))"
  using assms by (auto simp: inv_def)

text \<open>An effect that leaves the table alone.\<close>

lemma inv_upd:
  assumes inv: "inv v ps s" "t < length ps" "ok_pc v p"
    and l: "d.locks (ps[t := p]) (lk (heap s')) (hashlock s')" and c: "d.counts (ps[t := p]) (ct (heap s')) (pool s')"
    and q: "d.quiets (ps[t := p]) (lk (heap s'))" and f: "d.fits INT_MAX (ps[t := p]) (pool s')"
    and n: "nv (heap s') = nv (heap s)" "fh s' = fh s" "same_tab (ps ! t) p"
  shows "inv v (ps[t := p]) s'"
  unfolding inv_def
proof (intro conjI allI impI)
  show "ok_pc v (ps[t := p] ! u)" if "u < length (ps[t := p])" for u using that invD(5) [OF inv(1)] inv(3) by (cases "u = t") auto
  show "table (nv (heap s')) (fh s') (unls (ps[t := p]))" if "v \<noteq> Mutex1"
    using invD(6) [OF inv(1) that] n unls_same [OF inv(2), of p] by (simp add: same_tab_def)
  show "tgts (ps[t := p]) (nv (heap s'))" if "v \<noteq> Mutex1" using tgts_same [OF invD(7) [OF inv(1) that] inv(2) n(3)] n(1) by simp
qed (use l c q f in auto)

section \<open>The steps keep the invariant\<close>

lemma safe_lock_hash:
  assumes inv: "inv v ps s" "t < length ps" "ok_pc v p" and p: "holds_hash p" "holds_foo p = holds_foo (ps ! t)" "prefs p = prefs (ps ! t)"
    "sole_of p = sole_of (ps ! t)" "quiet_of p = None" "room p \<le> room (ps ! t)" "same_tab (ps ! t) p"
  shows "safe v ps t (andthen (lock_hash t s) (\<lambda>s. Next (p, s)))"
proof (cases "hashlock s")
  case None
  note i = invD [OF inv(1)]
  have "inv v (ps[t := p]) (s\<lparr>hashlock := Some t\<rparr>)"
    by (rule inv_upd [OF inv]) (use i(1) None p inv(2) in \<open>auto intro: d.locks_hash_acq d.counts_skip [OF i(2)] d.quiets_skip [OF i(3)] d.fits_skip [OF i(4)]\<close>)
  then show ?thesis using None by (simp add: lock_hash_def)
qed (simp add: lock_hash_def)

lemma safe_unlock_hash:
  assumes inv: "inv v ps s" "t < length ps" "ok_pc v p" and p: "holds_hash (ps ! t)" "\<not> holds_hash p" "holds_foo p = holds_foo (ps ! t)"
    "prefs (ps ! t) = prefs p + g" "sole_of p = sole_of (ps ! t)" "sole_of p = None \<or> g = {#}"
    "quiet_of p = None \<or> quiet_of p = Some a \<and> lk (heap s) a = Some None" "room p + size g \<le> room (ps ! t)" "same_tab (ps ! t) p"
  shows "safe v ps t (andthen (unlock_hash t s) (\<lambda>s. Next (p, s\<lparr>pool := pool s + g\<rparr>)))"
proof -
  note i = invD [OF inv(1)]
  have hl: "hashlock s = Some t" using d.locksD(1) [OF i(1), of t] inv(2) p(1) by simp
  have q: "d.quiets (ps[t := p]) (lk (heap s))" using i(3) p(7) inv(2) by (auto simp: d.quiets_def nth_list_update split: if_splits)
  have "inv v (ps[t := p]) (s\<lparr>hashlock := None, pool := pool s + g\<rparr>)"
    by (rule inv_upd [OF inv]) (use i(1) hl p inv(2) q in \<open>auto intro!: d.locks_hash_rel d.counts_skip [OF i(2)] d.fits_skip [OF i(4)]\<close>)
  then show ?thesis using hl by (simp add: unlock_hash_def)
qed

lemma safe_lock_foo:
  assumes inv: "inv v ps s" "t < length ps" "ok_pc v p" and a: "heap s a \<noteq> None" "d.may_use ps t a" "holds_foo (ps ! t) = None"
    and p: "holds_foo p = Some a" "holds_hash p = holds_hash (ps ! t)" "prefs p = prefs (ps ! t)"
    "sole_of p = sole_of (ps ! t)" "quiet_of p = None" "room p \<le> room (ps ! t)" "same_tab (ps ! t) p"
  shows "safe v ps t (andthen (lock_foo t a s) (\<lambda>s. Next (p, s)))"
proof -
  note i = invD [OF inv(1)]
  obtain n where n: "heap s a = Some n" using a(1) by auto
  then have a0: "a \<noteq> 0" using d.countsD(1) [OF i(2), of a "f_count n"] by (simp add: ct_def)
  show ?thesis
  proof (cases "f_lock n")
    case None
    then have l: "lk (heap s) a = Some None" using n by (simp add: lk_def)
    have "inv v (ps[t := p]) (s\<lparr>heap := (heap s)(a \<mapsto> n\<lparr>f_lock := Some t\<rparr>)\<rparr>)"
      by (rule inv_upd [OF inv])
        (use p inv(2) n l in \<open>auto intro: d.locks_foo_acq [OF i(1) inv(2) l a(3)] d.counts_skip [OF i(2)] d.quiets_lock [OF i(3,2) inv(2) a(2)] d.fits_skip [OF i(4)]\<close>)
    then show ?thesis using None n a0 by (simp add: lock_foo_def)
  qed (use n a0 in \<open>simp add: lock_foo_def\<close>)
qed

lemma safe_unlock_foo:
  assumes inv: "inv v ps s" "t < length ps" "ok_pc v p" and a: "holds_foo (ps ! t) = Some a"
    and p: "holds_foo p = None" "holds_hash p = holds_hash (ps ! t)" "prefs (ps ! t) = prefs p + g"
    "sole_of p = sole_of (ps ! t)" "sole_of p = None \<or> g = {#}" "quiet_of p = None \<or> quiet_of p = Some a"
    "room p + size g \<le> room (ps ! t)" "same_tab (ps ! t) p"
  shows "safe v ps t (andthen (unlock_foo t a s) (\<lambda>s. Next (p, s\<lparr>pool := pool s + g\<rparr>)))"
proof -
  note i = invD [OF inv(1)]
  obtain n where n: "heap s a = Some n" "f_lock n = Some t" using d.hf_held [OF i(1) inv(2) a] by (auto simp: lk_def)
  then have a0: "a \<noteq> 0" using d.countsD(1) [OF i(2), of a "f_count n"] by (simp add: ct_def)
  have "inv v (ps[t := p]) (s\<lparr>heap := (heap s)(a \<mapsto> n\<lparr>f_lock := None\<rparr>), pool := pool s + g\<rparr>)"
    by (rule inv_upd [OF inv])
      (use p inv(2) n in \<open>auto intro!: d.locks_foo_rel [OF i(1) inv(2) a] d.counts_skip [OF i(2)] d.quiets_unlock [OF i(3)] d.fits_skip [OF i(4)]\<close>)
  then show ?thesis using n a0 by (simp add: unlock_foo_def)
qed

text \<open>The count of an object can be read and written by a thread with the mutex that protects it.\<close>

definition guarded :: "variant \<Rightarrow> pc \<Rightarrow> nat \<Rightarrow> bool" where
  "guarded v p a \<longleftrightarrow> (if v = Mutex3 then holds_hash p else holds_foo p = Some a)"

lemma object:
  assumes "inv v ps s" "heap s a = Some n"
  shows "a \<noteq> 0" "f_count n = int (d.rc ps (pool s) a)"
  using d.countsD(1) [OF invD(2) [OF assms(1)], of a "f_count n"] assms(2) by (auto simp: ct_def)

lemma may_count_guarded:
  assumes "inv v ps s" "t < length ps" "heap s a = Some n" "guarded v (ps ! t) a"
  shows "may_count v t s n"
  using d.locksD(1) [OF invD(1) [OF assms(1)], of t] d.hf_held [OF invD(1) [OF assms(1)] assms(2), of a] assms(2-4)
  by (auto simp: may_count_def guarded_def lk_def split: if_splits)

lemma get_count_eq:
  assumes "inv v ps s" "t < length ps" "heap s a = Some n" "guarded v (ps ! t) a"
  shows "get_count v t a s = Next (f_count n)"
  using may_count_guarded [OF assms] object(1) [OF assms(1,3)] assms(3) by (simp add: get_count_def)

lemma safe_inc:
  assumes inv: "inv v ps s" "t < length ps" "ok_pc v p" and a: "heap s a \<noteq> None" "d.may_use ps t a" "guarded v (ps ! t) a"
    and p: "holds_foo p = holds_foo (ps ! t)" "holds_hash p = holds_hash (ps ! t)" "prefs p = add_mset a (prefs (ps ! t))"
    "sole_of p = None" "sole_of (ps ! t) = None" "quiet_of p = None" "room p \<le> room (ps ! t)" "same_tab (ps ! t) p"
  shows "safe v ps t (andthen (inc_count v t a s) (\<lambda>s. Next (p, s)))"
proof -
  note i = invD [OF inv(1)]
  obtain n where n: "heap s a = Some n" using a(1) by auto
  then have c: "ct (heap s) a = Some (f_count n)" by (simp add: ct_def)
  note o = object [OF inv(1) n] and m = may_count_guarded [OF inv(1,2) n a(3)]
  have f: "d.fits INT_MAX (ps[t := p]) (pool s)" by (rule d.fits_skip [OF i(4) inv(2)]) (simp add: p)
  have "f_count n + 1 \<le> INT_MAX" using d.rc_fits [OF f, of a] d.rc_upd [OF inv(2), of p "pool s" a] o(2) p(3) by simp
  then have "inc_count v t a s = Next (s\<lparr>heap := (heap s)(a \<mapsto> n\<lparr>f_count := f_count n + 1\<rparr>)\<rparr>)"
    using n o m get_count_eq [OF inv(1,2) n a(3)] by (simp add: inc_count_def set_count_def INT_MAX_def)
  moreover have "inv v (ps[t := p]) (s\<lparr>heap := (heap s)(a \<mapsto> n\<lparr>f_count := f_count n + 1\<rparr>)\<rparr>)"
    by (rule inv_upd [OF inv]) (use p n f inv(2) in \<open>auto intro: d.locks_skip [OF i(1)] d.counts_inc [OF i(2) inv(2) c a(2)] d.quiets_skip [OF i(3)]\<close>)
  ultimately show ?thesis by simp
qed

lemma dec_count_eq:
  assumes inv: "inv v ps s" "t < length ps" and n: "heap s a = Some n" and g: "guarded v (ps ! t) a" and a: "a \<in># prefs (ps ! t)"
  shows "dec_count v t a s = Next (s\<lparr>heap := (heap s)(a \<mapsto> n\<lparr>f_count := f_count n - 1\<rparr>)\<rparr>)" "1 \<le> f_count n"
proof -
  note i = invD [OF inv(1)]
  note o = object [OF inv(1) n] and m = may_count_guarded [OF inv n g]
  have "0 < count (prefs (ps ! t)) a" using a by simp
  then show c: "1 \<le> f_count n" using o(2) d.rc_one [OF inv(2), of a "pool s"] by linarith
  have "f_count n \<le> INT_MAX" using d.rc_fits [OF i(4), of a] o(2) by simp
  then show "dec_count v t a s = Next (s\<lparr>heap := (heap s)(a \<mapsto> n\<lparr>f_count := f_count n - 1\<rparr>)\<rparr>)"
    using n o m c get_count_eq [OF inv n g] by (simp add: dec_count_def set_count_def INT_MAX_def)
qed

lemma inv_dec:
  assumes inv: "inv v ps s" "t < length ps" "ok_pc v p" and n: "heap s a = Some n"
    and p: "holds_foo p = holds_foo (ps ! t)" "holds_hash p = holds_hash (ps ! t)" "prefs (ps ! t) = add_mset a (prefs p)"
    "sole_of p = (if f_count n = 1 then Some a else None)" "sole_of (ps ! t) = None" "quiet_of p = None" "room p \<le> room (ps ! t)" "same_tab (ps ! t) p"
  shows "inv v (ps[t := p]) (s\<lparr>heap := (heap s)(a \<mapsto> n\<lparr>f_count := f_count n - 1\<rparr>)\<rparr>)"
proof -
  note i = invD [OF inv(1)]
  have c: "ct (heap s) a = Some (f_count n)" using n by (simp add: ct_def)
  show ?thesis
    by (rule inv_upd [OF inv]) (use p n inv(2) in \<open>auto intro: d.locks_skip [OF i(1)] d.counts_dec [OF i(2) inv(2) c] d.quiets_skip [OF i(3)] d.fits_skip [OF i(4)]\<close>)
qed

lemma inv_sole:
  assumes inv: "inv v ps s" "t < length ps" "ok_pc v p" and n: "heap s a = Some n" "f_count n = 1"
    and p: "holds_foo p = holds_foo (ps ! t)" "holds_hash p = holds_hash (ps ! t)" "prefs p = prefs (ps ! t)" "a \<in># prefs p"
    "sole_of p = Some a" "sole_of (ps ! t) = None" "quiet_of p = None" "room p \<le> room (ps ! t)" "same_tab (ps ! t) p"
  shows "inv v (ps[t := p]) s"
proof -
  note i = invD [OF inv(1)]
  have c: "ct (heap s) a = Some 1" using n by (simp add: ct_def)
  show ?thesis
    by (rule inv_upd [OF inv]) (use p inv(2) in \<open>auto intro: d.locks_skip [OF i(1)] d.counts_sole [OF i(2) inv(2) c] d.quiets_skip [OF i(3)] d.fits_skip [OF i(4)]\<close>)
qed

lemma inv_skip:
  assumes inv: "inv v ps s" "t < length ps" "ok_pc v p"
    and p: "holds_foo p = holds_foo (ps ! t)" "holds_hash p = holds_hash (ps ! t)" "prefs p = prefs (ps ! t)"
    "sole_of p = sole_of (ps ! t)" "quiet_of p = None" "room p \<le> room (ps ! t)" "same_tab (ps ! t) p"
  shows "inv v (ps[t := p]) s"
proof -
  note i = invD [OF inv(1)]
  show ?thesis
    by (rule inv_upd [OF inv]) (use p inv(2) in \<open>auto intro: d.locks_skip [OF i(1)] d.counts_skip [OF i(2)] d.quiets_skip [OF i(3)] d.fits_skip [OF i(4)]\<close>)
qed

text \<open>A thread's own references are to allocated objects.\<close>

lemma ref_alloc:
  assumes "inv v ps s" "t < length ps" "a \<in># prefs (ps ! t)"
  shows "\<exists>n. heap s a = Some n" "d.may_use ps t a"
proof -
  have "0 < d.rc ps (pool s) a" using d.rc_one [OF assms(2), of a "pool s"] assms(3) by (metis count_greater_zero_iff less_le_trans)
  then show "\<exists>n. heap s a = Some n" using d.countsD(3) [OF invD(2) [OF assms(1)]] by (auto simp: ct_def)
qed (use assms in \<open>simp add: d.may_use_def\<close>)

section \<open>The steps that change the table\<close>

lemma unls_others:
  assumes "inv v ps s" "t < length ps" "sole_of (ps ! t) = Some a" "u < length ps" "unl (ps ! u) = Some a"
  shows "u = t"
  using d.countsD(5) [OF invD(2) [OF assms(1)] assms(2-4)] unl_sole [OF assms(5)] by simp

lemma unls_remove:
  assumes "inv v ps s" "t < length ps" "unl (ps ! t) = Some a" "unl p = None"
  shows "unls ps = insert a (unls (ps[t := p]))" "a \<notin> unls (ps[t := p])"
proof -
  have o: "unl (ps ! u) \<noteq> Some a" if "u < length ps" "u \<noteq> t" for u
    using unls_others [OF assms(1,2) unl_sole [OF assms(3)] that(1)] that(2) by blast
  show "a \<notin> unls (ps[t := p])"
  proof
    assume "a \<in> unls (ps[t := p])"
    then obtain u where "u < length ps" "unl (ps[t := p] ! u) = Some a" by (auto simp: unls_def)
    then show False using o [of u] assms(2,4) by (cases "u = t") simp_all
  qed
  show "unls ps = insert a (unls (ps[t := p]))"
  proof (intro set_eqI iffI)
    fix b assume "b \<in> unls ps"
    then obtain u where u: "u < length ps" "unl (ps ! u) = Some b" by (auto simp: unls_def)
    then show "b \<in> insert a (unls (ps[t := p]))" using assms(3) by (cases "u = t") (auto simp: unls_def intro!: exI [of _ u])
  next
    fix b assume "b \<in> insert a (unls (ps[t := p]))"
    then show "b \<in> unls ps" using assms by (auto simp: unls_def nth_list_update split: if_splits)
  qed
qed

lemma unls_add: "t < length ps \<Longrightarrow> unl (ps ! t) = None \<Longrightarrow> unl p = Some a \<Longrightarrow> unls (ps[t := p]) = insert a (unls ps)"
  by (auto simp: unls_def nth_list_update split: if_splits) (metis option.distinct(1))

lemma tgtsD:
  assumes "tgts ps N" "t < length ps"
  shows "tgt (ps ! t) = Some a \<Longrightarrow> N a \<noteq> None \<and> a \<notin> unls ps" "pid (ps ! t) = Some (a, i) \<Longrightarrow> map_option fst (N a) = Some i"
  using assms unfolding tgts_def by blast+

lemma inv_tab:
  assumes inv: "inv v ps s" "t < length ps" "ok_pc v p"
    and l: "d.locks (ps[t := p]) (lk (heap s')) (hashlock s')" and c: "d.counts (ps[t := p]) (ct (heap s')) (pool s')"
    and q: "d.quiets (ps[t := p]) (lk (heap s'))" and f: "d.fits INT_MAX (ps[t := p]) (pool s')"
    and T: "v \<noteq> Mutex1 \<Longrightarrow> table (nv (heap s')) (fh s') (unls (ps[t := p]))" "v \<noteq> Mutex1 \<Longrightarrow> tgts (ps[t := p]) (nv (heap s'))"
  shows "inv v (ps[t := p]) s'"
  unfolding inv_def using invD(5) [OF inv(1)] inv(2,3) l c q f T by (auto simp: nth_list_update)

lemma inv_new:
  assumes inv: "inv v ps s" "t < length ps" "ps ! t = Alloc i" and a: "heap s a = None" "a \<noteq> 0"
  shows "v \<noteq> Mutex1 \<Longrightarrow> inv v (ps[t := AllocLockH a i]) (s\<lparr>heap := (heap s)(a \<mapsto> new_foo i)\<rparr>)"
    and "v = Mutex1 \<Longrightarrow> inv v (ps[t := Idle]) (s\<lparr>heap := (heap s)(a \<mapsto> new_foo i), pool := add_mset a (pool s)\<rparr>)"
proof -
  note i = invD [OF inv(1)]
  have n: "ct (heap s) a = None" "lk (heap s) a = None" "nv (heap s) a = None" using a by (auto simp: ct_def lk_def nv_def)
  note L = d.locks_new [OF i(1) inv(2) n(2)] and C = d.counts_new [OF i(2) inv(2) n(1) a(2)] and Q = d.quiets_unlock [OF i(3) inv(2)] and F = d.fits_skip [OF i(4) inv(2)]
  show "inv v (ps[t := Idle]) (s\<lparr>heap := (heap s)(a \<mapsto> new_foo i), pool := add_mset a (pool s)\<rparr>)" if "v = Mutex1"
    by (rule inv_tab [OF inv(1,2)]) (use that inv(3) in \<open>auto intro: L C Q F\<close>)
  show "inv v (ps[t := AllocLockH a i]) (s\<lparr>heap := (heap s)(a \<mapsto> new_foo i)\<rparr>)" if v: "v \<noteq> Mutex1"
  proof (rule inv_tab [OF inv(1,2)])
    have U: "unls (ps[t := AllocLockH a i]) = insert a (unls ps)" by (rule unls_add [OF inv(2)]) (simp_all add: inv(3))
    show "table (nv (heap (s\<lparr>heap := (heap s)(a \<mapsto> new_foo i)\<rparr>))) (fh (s\<lparr>heap := (heap s)(a \<mapsto> new_foo i)\<rparr>)) (unls (ps[t := AllocLockH a i]))"
      unfolding U using table_new [OF i(6) [OF v] n(3)] by simp
    show "tgts (ps[t := AllocLockH a i]) (nv (heap (s\<lparr>heap := (heap s)(a \<mapsto> new_foo i)\<rparr>)))"
      unfolding tgts_def U
    proof (intro allI impI conjI)
      fix u assume u: "u < length (ps[t := AllocLockH a i])"
      show "nv (heap (s\<lparr>heap := (heap s)(a \<mapsto> new_foo i)\<rparr>)) b \<noteq> None" "b \<notin> insert a (unls ps)" if "tgt (ps[t := AllocLockH a i] ! u) = Some b" for b
        using that u inv(2) tgtsD(1) [OF i(7) [OF v], of u b] n(3) by (cases "u = t"; cases "b = a"; simp)+
      show "map_option fst (nv (heap (s\<lparr>heap := (heap s)(a \<mapsto> new_foo i)\<rparr>)) b) = Some j" if "pid (ps[t := AllocLockH a i] ! u) = Some (b, j)" for b j
        using that u inv(2) tgtsD(2) [OF i(7) [OF v], of u b j] n(3) by (cases "u = t"; cases "b = a"; simp)
    qed
  qed (use v inv(3) in \<open>auto intro: L C Q F\<close>)
qed

lemma tgts_change:
  assumes t: "tgts ps N" "t < length ps" "tgt p = None" "pid p = None"
    and g: "\<And>u b. u < length ps \<Longrightarrow> u \<noteq> t \<Longrightarrow> tgt (ps ! u) = Some b \<Longrightarrow> N' b \<noteq> None \<and> b \<notin> unls (ps[t := p])"
    and i: "\<And>u b j. u < length ps \<Longrightarrow> u \<noteq> t \<Longrightarrow> pid (ps ! u) = Some (b, j) \<Longrightarrow> map_option fst (N' b) = map_option fst (N b)"
  shows "tgts (ps[t := p]) N'"
  unfolding tgts_def
proof (intro allI impI)
  fix u assume "u < length (ps[t := p])"
  then show "(\<forall>a. tgt (ps[t := p] ! u) = Some a \<longrightarrow> N' a \<noteq> None \<and> a \<notin> unls (ps[t := p])) \<and>
      (\<forall>a i. pid (ps[t := p] ! u) = Some (a, i) \<longrightarrow> map_option fst (N' a) = Some i)"
    using t(2-4) g [of u] i [of u] tgtsD(2) [OF t(1), of u] by (cases "u = t") auto
qed

lemma pid_unl: "pid p = Some (a, i) \<Longrightarrow> unl p = Some a"
  by (cases p) auto

lemma tgt_hash: "tgt p = Some a \<Longrightarrow> holds_hash p"
  by (cases p) auto

lemma inv_free:
  assumes inv: "inv v ps s" "t < length ps" and p: "quiet_of (ps ! t) = Some a" "v \<noteq> Mutex1 \<Longrightarrow> unl (ps ! t) = Some a"
  shows "safe v ps t (andthen (destroy_foo a s) (\<lambda>s. andthen (free_foo a s) (\<lambda>s. Next (Idle, s))))"
proof -
  note i = invD [OF inv(1)]
  have so: "sole_of (ps ! t) = Some a" by (rule d.quiet_sole [OF p(1)])
  have l: "lk (heap s) a = Some None" using i(3) inv(2) p(1) by (simp add: d.quiets_def)
  then obtain n where n: "heap s a = Some n" "f_lock n = None" by (auto simp: lk_def)
  have pc: "prefs Idle = filter_mset (\<lambda>b. b \<noteq> a) (prefs (ps ! t))" "holds_hash Idle = holds_hash (ps ! t)" "holds_foo Idle = holds_foo (ps ! t)"
    using p(1) by (cases "ps ! t"; simp)+
  have "inv v (ps[t := Idle]) (s\<lparr>heap := (heap s)(a := None)\<rparr>)"
  proof (rule inv_tab [OF inv])
    assume v: "v \<noteq> Mutex1"
    note U = unls_remove [OF inv p(2) [OF v], of Idle]
    show "table (nv (heap (s\<lparr>heap := (heap s)(a := None)\<rparr>))) (fh (s\<lparr>heap := (heap s)(a := None)\<rparr>)) (unls (ps[t := Idle]))"
      using table_free [of "nv (heap s)" "fh s" a "unls (ps[t := Idle])"] i(6) [OF v] U by simp
    show "tgts (ps[t := Idle]) (nv (heap (s\<lparr>heap := (heap s)(a := None)\<rparr>)))"
    proof (rule tgts_change [OF i(7) [OF v] inv(2)])
      show "nv (heap (s\<lparr>heap := (heap s)(a := None)\<rparr>)) b \<noteq> None \<and> b \<notin> unls (ps[t := Idle])" if "u < length ps" "u \<noteq> t" "tgt (ps ! u) = Some b" for u b
        using tgtsD(1) [OF i(7) [OF v] that(1,3)] U by auto
      show "map_option fst (nv (heap (s\<lparr>heap := (heap s)(a := None)\<rparr>)) b) = map_option fst (nv (heap s) b)"
        if "u < length ps" "u \<noteq> t" "pid (ps ! u) = Some (b, j)" for u b j
        using unls_others [OF inv so that(1)] pid_unl [OF that(3)] that(2) by (cases "b = a") auto
    qed simp_all
  qed (use pc in \<open>auto intro: d.locks_free [OF i(1) inv(2) l] d.counts_free [OF i(2) inv(2) pc(1) _ so] d.quiets_free [OF i(3,2) inv(2) so] d.fits_skip [OF i(4) inv(2)]\<close>)
  then show ?thesis using n object(1) [OF inv(1) n(1)] by (simp add: destroy_foo_def free_foo_def)
qed

lemma safe_link:
  assumes inv: "inv v ps s" "t < length ps" "ps ! t = AllocLink a i"
  shows "safe v ps t (andthen (link_foo t a (HASH i) s) (\<lambda>s. Next (AllocLockF a, s)))"
proof -
  note iv = invD [OF inv(1)]
  have v: "v \<noteq> Mutex1" using iv(5) [OF inv(2)] inv(3) by simp
  have hl: "hashlock s = Some t" using d.locksD(1) [OF iv(1), of t] inv(2,3) by simp
  have ra: "a \<in># prefs (ps ! t)" by (simp add: inv(3))
  obtain n where n: "heap s a = Some n" using ref_alloc(1) [OF inv(1,2) ra] by blast
  note a0 = object(1) [OF inv(1) n]
  have id: "f_id n = i" using tgtsD(2) [OF iv(7) [OF v] inv(2), of a i] inv(3) n by (simp add: nv_def)
  have U: "unls ps = insert a (unls (ps[t := AllocLockF a]))" "a \<notin> unls (ps[t := AllocLockF a])"
    using unls_remove [OF inv(1,2), of a "AllocLockF a"] inv(3) by auto
  have len: "HASH i < length (fh s)" using iv(6) [OF v] HASH_less by (simp add: table_def)
  let ?s = "s\<lparr>heap := (heap s)(a \<mapsto> n\<lparr>f_next := fh s ! HASH i\<rparr>), fh := (fh s)[HASH i := a]\<rparr>"
  have "inv v (ps[t := AllocLockF a]) ?s"
  proof (rule inv_tab [OF inv(1,2)])
    have "nv (heap s) a = Some (i, f_next n)" using n id by (simp add: nv_def)
    from table_link [of "nv (heap s)" "fh s", OF _ U(2) a0 this] show "table (nv (heap ?s)) (fh ?s) (unls (ps[t := AllocLockF a]))"
      using iv(6) [OF v] U(1) n id by simp
    show "tgts (ps[t := AllocLockF a]) (nv (heap ?s))"
    proof (rule tgts_change [OF iv(7) [OF v] inv(2)])
      show "nv (heap ?s) b \<noteq> None \<and> b \<notin> unls (ps[t := AllocLockF a])" if "u < length ps" "u \<noteq> t" "tgt (ps ! u) = Some b" for u b
        using tgtsD(1) [OF iv(7) [OF v] that(1,3)] U n by auto
    qed (use n in \<open>auto simp: nv_def\<close>)
    show "d.counts (ps[t := AllocLockF a]) (ct (heap ?s)) (pool ?s)" using n inv(3) by (auto intro: d.counts_unsole [OF iv(2) inv(2) ra])
  qed (use n inv(3) v in \<open>auto intro: d.locks_skip [OF iv(1) inv(2)] d.quiets_skip [OF iv(3) inv(2)] d.fits_skip [OF iv(4) inv(2)]\<close>)
  then show ?thesis using hl len n a0 by (simp add: link_foo_def)
qed

lemma unlink_foo_eq:
  assumes "hashlock s = Some t" "heap s a = Some n" "a \<noteq> 0" "HASH (f_id n) < length (fh s)"
    "(if fh s ! HASH (f_id n) = a then Some (heap s, (fh s)[HASH (f_id n) := f_next n])
      else do { q \<leftarrow> pred_loop (heap s) a (fh s ! HASH (f_id n)); h' \<leftarrow> modify (heap s) q (f_next_update (\<lambda>_. f_next n)); Some (h', fh s) }) = Some (h', b')"
  shows "unlink_foo t a s = Next (s\<lparr>heap := h', fh := b'\<rparr>)"
  using assms by (auto simp: unlink_foo_def split: if_splits)

lemma safe_unlink:
  assumes inv: "inv v ps s" "t < length ps" "ok_pc v p" "v \<noteq> Mutex1"
    and q: "sole_of (ps ! t) = Some a" "unl (ps ! t) = None" "holds_hash (ps ! t)" "heap s a \<noteq> None"
    and p: "sole_of p = Some a" "unl p = Some a" "holds_hash p" "holds_foo p = holds_foo (ps ! t)" "prefs p = prefs (ps ! t)" "quiet_of p = None"
      "room p \<le> room (ps ! t)" "tgt p = None" "pid p = None"
  shows "safe v ps t (andthen (unlink_foo t a s) (\<lambda>s. Next (p, s)))"
proof -
  note iv = invD [OF inv(1)]
  obtain n where n: "heap s a = Some n" using q(4) by blast
  have hl: "hashlock s = Some t" using d.locksD(1) [OF iv(1), of t] inv(2) q(3) by simp
  have na: "a \<notin> unls ps"
  proof
    assume "a \<in> unls ps"
    then obtain u where "u < length ps" "unl (ps ! u) = Some a" by (auto simp: unls_def)
    then show False using unls_others [OF inv(1,2) q(1)] q(2) by force
  qed
  have len: "HASH (f_id n) < length (fh s)" using iv(6) [OF inv(4)] HASH_less by (simp add: table_def)
  from table_unlink [OF iv(6) [OF inv(4)] na n] obtain h' b' where h': "(if fh s ! HASH (f_id n) = a then Some (heap s, (fh s)[HASH (f_id n) := f_next n])
      else do { q \<leftarrow> pred_loop (heap s) a (fh s ! HASH (f_id n)); h' \<leftarrow> modify (heap s) q (f_next_update (\<lambda>_. f_next n)); Some (h', fh s) }) = Some (h', b')"
    "table (nv h') b' (insert a (unls ps))" "\<forall>x. map_option f_lock (h' x) = map_option f_lock (heap s x)"
    "\<forall>x. map_option f_count (h' x) = map_option f_count (heap s x)" "\<forall>x. map_option f_id (h' x) = map_option f_id (heap s x)" by blast
  have V: "lk h' = lk (heap s)" "ct h' = ct (heap s)" "map_option fst (nv h' b) = map_option fst (nv (heap s) b)" for b
    using h'(3-5) by (auto simp: lk_def ct_def nv_def fun_eq_iff option.map_comp comp_def)
  have "inv v (ps[t := p]) (s\<lparr>heap := h', fh := b'\<rparr>)"
  proof (rule inv_tab [OF inv(1-3)])
    show "table (nv (heap (s\<lparr>heap := h', fh := b'\<rparr>))) (fh (s\<lparr>heap := h', fh := b'\<rparr>)) (unls (ps[t := p]))"
      using h'(2) unls_add [OF inv(2) q(2) p(2)] by simp
    show "tgts (ps[t := p]) (nv (heap (s\<lparr>heap := h', fh := b'\<rparr>)))"
    proof (rule tgts_change [OF iv(7) [OF inv(4)] inv(2) p(8,9)])
      show "nv (heap (s\<lparr>heap := h', fh := b'\<rparr>)) b \<noteq> None \<and> b \<notin> unls (ps[t := p])" if "u < length ps" "u \<noteq> t" "tgt (ps ! u) = Some b" for u b
        using d.locksD(1) [OF iv(1), of u] tgt_hash [OF that(3)] hl that by simp
    qed (simp add: V)
  qed (use V p q in \<open>auto intro: d.locks_skip [OF iv(1) inv(2)] d.quiets_skip [OF iv(3) inv(2)] d.counts_skip [OF iv(2) inv(2)] d.fits_skip [OF iv(4) inv(2)]\<close>)
  then show ?thesis using unlink_foo_eq [OF hl n object(1) [OF inv(1) n] len h'(1)] by simp
qed

text \<open>The scan finds an object of the table with the identifier, if there is one.\<close>

lemma find_foo_spec:
  assumes inv: "inv v ps s" "t < length ps" "holds_hash (ps ! t)" "v \<noteq> Mutex1"
  shows "\<exists>a. find_foo t i s = Next a \<and> (if a = 0 then \<forall>b n. heap s b = Some n \<longrightarrow> f_id n = i \<longrightarrow> b \<in> unls ps
    else (\<exists>n. heap s a = Some n \<and> f_id n = i) \<and> a \<notin> unls ps)"
  using find_foo_table [OF invD(6) [OF inv(1,4)], of t i] d.locksD(1) [OF invD(1) [OF inv(1)], of t] inv(2,3) by simp

lemma found_may_use:
  assumes inv: "inv v ps s" "t < length ps" "holds_hash (ps ! t)" "v \<noteq> Mutex1" and s: "sole_of (ps ! t) = None" and a: "a \<notin> unls ps"
  shows "d.may_use ps t a"
proof -
  have "sole_of (ps ! u) \<noteq> Some a" if u: "u < length ps" for u
  proof
    assume so: "sole_of (ps ! u) = Some a"
    have "hashlock s = Some t" using d.locksD(1) [OF invD(1) [OF inv(1)], of t] inv(2,3) by simp
    moreover have "holds_hash (ps ! u)" using sole_cases [OF so invD(5) [OF inv(1) u] inv(4)] a u by (auto simp: unls_def)
    ultimately have "u = t" using d.locksD(1) [OF invD(1) [OF inv(1)], of u] u by simp
    then show False using so s by simp
  qed
  then show ?thesis by (simp add: d.may_use_def)
qed

end
