(* ===== verification/Foo_Steps.thy ===== *)
theory Foo_Steps
  imports Foo_Inv
begin

text \<open>
  No step of the four functions faults, in any of the three files, and every step keeps the invariant: one lemma per function.
\<close>

section \<open>Every function keeps the invariant\<close>

lemma safe_hold:
  assumes inv: "inv v ps s" "t < length ps" and f: "fn_of (ps ! t) = In_hold" "v \<noteq> Mutex3"
  shows "safe v ps t (foo_hold v t (ps ! t) s)"
proof -
  note ok = invD(5) [OF inv] and i = inv(1,2)
  consider a where "ps ! t = HoldLockF a" | a where "ps ! t = HoldInc a" | a where "ps ! t = HoldUnF a"
    using f ok by (cases "ps ! t") auto
  then show ?thesis
  proof cases
    case (1 a)
    then have "a \<in># prefs (ps ! t)" by simp
    from ref_alloc [OF i this] have "safe v ps t (andthen (lock_foo t a s) (\<lambda>s. Next (HoldInc a, s)))"
      using 1 f by (intro safe_lock_foo [OF i]) (auto simp: same_tab_def)
    then show ?thesis using 1 by simp
  next
    case (2 a)
    then have "a \<in># prefs (ps ! t)" by simp
    from ref_alloc [OF i this] have "safe v ps t (andthen (inc_count v t a s) (\<lambda>s. Next (HoldUnF a, s)))"
      using 2 f by (intro safe_inc [OF i]) (auto simp: same_tab_def guarded_def)
    then show ?thesis using 2 by simp
  next
    case (3 a)
    have "safe v ps t (andthen (unlock_foo t a s) (\<lambda>s. Next (Idle, s\<lparr>pool := pool s + {#a, a#}\<rparr>)))"
      using 3 by (intro safe_unlock_foo [OF i]) (auto simp: same_tab_def)
    then show ?thesis using 3 by simp
  qed
qed

lemma safe_unlock_foo0:
  assumes "inv v ps s" "t < length ps" "ok_pc v p" "holds_foo (ps ! t) = Some a" "holds_foo p = None" "holds_hash p = holds_hash (ps ! t)"
    "prefs p = prefs (ps ! t)" "sole_of p = sole_of (ps ! t)" "quiet_of p = None \<or> quiet_of p = Some a" "room p \<le> room (ps ! t)" "same_tab (ps ! t) p"
  shows "safe v ps t (andthen (unlock_foo t a s) (\<lambda>s. Next (p, s)))"
  using safe_unlock_foo [OF assms(1-6), of "{#}"] assms(7-11) by simp

lemma safe_unlock_hash0:
  assumes "inv v ps s" "t < length ps" "ok_pc v p" "holds_hash (ps ! t)" "\<not> holds_hash p" "holds_foo p = holds_foo (ps ! t)"
    "prefs p = prefs (ps ! t)" "sole_of p = sole_of (ps ! t)" "quiet_of p = None \<or> quiet_of p = Some a \<and> lk (heap s) a = Some None"
    "room p \<le> room (ps ! t)" "same_tab (ps ! t) p"
  shows "safe v ps t (andthen (unlock_hash t s) (\<lambda>s. Next (p, s)))"
  using safe_unlock_hash [OF assms(1-6), of "{#}" a] assms(7-11) by simp

lemma safe_alloc:
  assumes inv: "inv v ps s" "t < length ps" and f: "fn_of (ps ! t) = In_alloc" "v \<noteq> Mutex1" and c: "fst c = 0 \<or> heap s (fst c) = None"
  shows "safe v ps t (foo_alloc t c (ps ! t) s)"
proof -
  note ok = invD(5) [OF inv]
  consider i where "ps ! t = Alloc i" | a i where "ps ! t = AllocLockH a i" | a i where "ps ! t = AllocLink a i" | a where "ps ! t = AllocLockF a"
    | a where "ps ! t = AllocUnH a" | a where "ps ! t = AllocUnF a"
    using f ok by (cases "ps ! t") auto
  then show ?thesis
  proof cases
    case (1 i)
    have "inv v (ps[t := Idle]) s" by (rule inv_skip [OF inv]) (use 1 in \<open>auto simp: same_tab_def\<close>)
    then show ?thesis using 1 c f inv_new(1) [OF inv 1] by (cases c) auto
  next
    case (2 a i)
    have "safe v ps t (andthen (lock_hash t s) (\<lambda>s. Next (AllocLink a i, s)))"
      by (rule safe_lock_hash [OF inv]) (use 2 f in \<open>auto simp: same_tab_def\<close>)
    then show ?thesis using 2 by simp
  next
    case (3 a i)
    then show ?thesis using safe_link [OF inv 3] by simp
  next
    case (4 a)
    then have "a \<in># prefs (ps ! t)" by simp
    from ref_alloc [OF inv this] have "safe v ps t (andthen (lock_foo t a s) (\<lambda>s. Next (AllocUnH a, s)))"
      using 4 f by (intro safe_lock_foo [OF inv]) (auto simp: same_tab_def)
    then show ?thesis using 4 by simp
  next
    case (5 a)
    have "safe v ps t (andthen (unlock_hash t s) (\<lambda>s. Next (AllocUnF a, s)))"
      by (rule safe_unlock_hash0 [OF inv]) (use 5 f in \<open>auto simp: same_tab_def\<close>)
    then show ?thesis using 5 by simp
  next
    case (6 a)
    have "safe v ps t (andthen (unlock_foo t a s) (\<lambda>s. Next (Idle, s\<lparr>pool := pool s + {#a#}\<rparr>)))"
      by (rule safe_unlock_foo [OF inv]) (use 6 in \<open>auto simp: same_tab_def\<close>)
    then show ?thesis using 6 by simp
  qed
qed

lemma safe_alloc1:
  assumes inv: "inv v ps s" "t < length ps" and f: "fn_of (ps ! t) = In_alloc" "v = Mutex1" and c: "fst c = 0 \<or> heap s (fst c) = None"
  shows "safe v ps t (foo_alloc1 t c (ps ! t) s)"
proof -
  obtain i where 1: "ps ! t = Alloc i" using f invD(5) [OF inv] by (cases "ps ! t") auto
  have "inv v (ps[t := Idle]) s" by (rule inv_skip [OF inv]) (use 1 in \<open>auto simp: same_tab_def\<close>)
  then show ?thesis using 1 c f inv_new(2) [OF inv 1] by (cases c) auto
qed

lemma safe_found_return:
  assumes "inv v ps s" "t < length ps" "ps ! t = FindUnH a"
  shows "safe v ps t (andthen (unlock_hash t s) (\<lambda>s. Next (Idle, if a \<noteq> 0 then s\<lparr>pool := add_mset a (pool s)\<rparr> else s)))"
  using safe_unlock_hash [OF assms(1,2), of Idle "prefs (FindUnH a)"] assms(3) by (cases "a = 0") (auto simp: same_tab_def)

lemma safe_find:
  assumes inv: "inv v ps s" "t < length ps" and f: "fn_of (ps ! t) = In_find" "v = Mutex2"
  shows "safe v ps t (foo_find t (ps ! t) s)"
proof -
  note ok = invD(5) [OF inv]
  have v: "v \<noteq> Mutex1" using f by simp
  consider i where "ps ! t = FindLockH i" | i where "ps ! t = FindScan i" | a where "ps ! t = FindLockF a"
    | a where "ps ! t = FindInc a" | a where "ps ! t = FindUnF a" | a where "ps ! t = FindUnH a"
    using f ok by (cases "ps ! t") auto
  then show ?thesis
  proof cases
    case (1 i)
    have "safe v ps t (andthen (lock_hash t s) (\<lambda>s. Next (FindScan i, s)))"
      by (rule safe_lock_hash [OF inv]) (use 1 f in \<open>auto simp: same_tab_def\<close>)
    then show ?thesis using 1 by simp
  next
    case (2 i)
    then have "holds_hash (ps ! t)" by simp
    from find_foo_spec [OF inv this v] obtain a where a: "find_foo t i s = Next a" "a \<noteq> 0 \<Longrightarrow> (\<exists>n. heap s a = Some n) \<and> a \<notin> unls ps" by force
    let ?p = "if a \<noteq> 0 then FindLockF a else FindUnH 0"
    have u: "unls (ps[t := ?p]) = unls ps" by (rule unls_same [OF inv(2)]) (simp add: 2)
    note iv = invD [OF inv(1)]
    have "inv v (ps[t := ?p]) s"
    proof (rule inv_tab [OF inv])
      show "table (nv (heap s)) (fh s) (unls (ps[t := ?p]))" unfolding u by (rule iv(6) [OF v])
      show "tgts (ps[t := ?p]) (nv (heap s))"
        unfolding tgts_def u using tgtsD [OF iv(7) [OF v]] a(2) inv(2) by (auto simp: nth_list_update nv_def)
    qed (use 2 f in \<open>auto intro: d.locks_skip [OF iv(1) inv(2)] d.quiets_skip [OF iv(3) inv(2)] d.counts_skip [OF iv(2) inv(2)] d.fits_skip [OF iv(4) inv(2)]\<close>)
    then show ?thesis using 2 a(1) by simp
  next
    case (3 a)
    then have a: "nv (heap s) a \<noteq> None" "a \<notin> unls ps" using tgtsD(1) [OF invD(7) [OF inv(1) v] inv(2), of a] by auto
    have "safe v ps t (andthen (lock_foo t a s) (\<lambda>s. Next (FindInc a, s)))"
      by (rule safe_lock_foo [OF inv]) (use 3 f a in \<open>auto simp: same_tab_def nv_def intro: found_may_use [OF inv _ v _ a(2)]\<close>)
    then show ?thesis using 3 by simp
  next
    case (4 a)
    then have a: "nv (heap s) a \<noteq> None" "a \<notin> unls ps" using tgtsD(1) [OF invD(7) [OF inv(1) v] inv(2), of a] by auto
    have "safe v ps t (andthen (inc_count v t a s) (\<lambda>s. Next (FindUnF a, s)))"
      by (rule safe_inc [OF inv]) (use 4 f a in \<open>auto simp: same_tab_def nv_def guarded_def intro: found_may_use [OF inv _ v _ a(2)]\<close>)
    then show ?thesis using 4 f by simp
  next
    case (5 a)
    then have "a \<in># prefs (ps ! t)" by simp
    from ref_alloc(1) [OF inv this] have "a \<noteq> 0" using object(1) [OF inv(1)] by blast
    then have "safe v ps t (andthen (unlock_foo t a s) (\<lambda>s. Next (FindUnH a, s)))"
      using 5 f by (intro safe_unlock_foo0 [OF inv]) (auto simp: same_tab_def)
    then show ?thesis using 5 by simp
  next
    case (6 a)
    then show ?thesis using safe_found_return [OF inv 6] by simp
  qed
qed

lemma safe_hold3:
  assumes inv: "inv v ps s" "t < length ps" and f: "fn_of (ps ! t) = In_hold" "v = Mutex3"
  shows "safe v ps t (foo_hold3 t (ps ! t) s)"
proof -
  consider a where "ps ! t = HoldLockH a" | a where "ps ! t = HoldIncH a" | a where "ps ! t = HoldUnH a"
    using f invD(5) [OF inv] by (cases "ps ! t") auto
  then show ?thesis
  proof cases
    case (1 a)
    have "safe v ps t (andthen (lock_hash t s) (\<lambda>s. Next (HoldIncH a, s)))"
      by (rule safe_lock_hash [OF inv]) (use 1 f in \<open>auto simp: same_tab_def\<close>)
    then show ?thesis using 1 by simp
  next
    case (2 a)
    then have "a \<in># prefs (ps ! t)" by simp
    from ref_alloc [OF inv this] have "safe v ps t (andthen (inc_count v t a s) (\<lambda>s. Next (HoldUnH a, s)))"
      using 2 f by (intro safe_inc [OF inv]) (auto simp: same_tab_def guarded_def)
    then show ?thesis using 2 f by simp
  next
    case (3 a)
    have "safe v ps t (andthen (unlock_hash t s) (\<lambda>s. Next (Idle, s\<lparr>pool := pool s + {#a, a#}\<rparr>)))"
      by (rule safe_unlock_hash [OF inv]) (use 3 in \<open>auto simp: same_tab_def\<close>)
    then show ?thesis using 3 by simp
  qed
qed

lemma safe_find3:
  assumes inv: "inv v ps s" "t < length ps" and f: "fn_of (ps ! t) = In_find" "v = Mutex3"
  shows "safe v ps t (foo_find3 t (ps ! t) s)"
proof -
  have v: "v \<noteq> Mutex1" using f by simp
  consider i where "ps ! t = FindLockH i" | i where "ps ! t = FindScan i" | a where "ps ! t = FindUnH a"
    using f invD(5) [OF inv] by (cases "ps ! t") auto
  then show ?thesis
  proof cases
    case (1 i)
    have "safe v ps t (andthen (lock_hash t s) (\<lambda>s. Next (FindScan i, s)))"
      by (rule safe_lock_hash [OF inv]) (use 1 f in \<open>auto simp: same_tab_def\<close>)
    then show ?thesis using 1 by simp
  next
    case (2 i)
    then have h: "holds_hash (ps ! t)" by simp
    from find_foo_spec [OF inv h v] obtain a where a: "find_foo t i s = Next a" "a \<noteq> 0 \<Longrightarrow> (\<exists>n. heap s a = Some n) \<and> a \<notin> unls ps" by force
    show ?thesis
    proof (cases "a = 0")
      case True
      have "inv v (ps[t := FindUnH 0]) s" by (rule inv_skip [OF inv]) (use 2 v in \<open>auto simp: same_tab_def\<close>)
      then show ?thesis using True 2 a(1) by simp
    next
      case False
      have "safe v ps t (andthen (inc_count v t a s) (\<lambda>s. Next (FindUnH a, s)))"
        by (rule safe_inc [OF inv]) (use 2 f a(2) [OF False] False in \<open>auto simp: same_tab_def guarded_def intro: found_may_use [OF inv h v]\<close>)
      then show ?thesis using False 2 a(1) f by simp
    qed
  next
    case (3 a)
    then show ?thesis using safe_found_return [OF inv 3] by simp
  qed
qed

lemma safe_rele1:
  assumes inv: "inv v ps s" "t < length ps" and f: "fn_of (ps ! t) = In_rele" "v = Mutex1"
  shows "safe v ps t (foo_rele1 t (ps ! t) s)"
proof -
  consider a where "ps ! t = ReleLockF a" | a where "ps ! t = Rele1Test a" | a where "ps ! t = Rele1UnF a" | a where "ps ! t = Rele1Free a" | a where "ps ! t = ReleUnF a"
    using f invD(5) [OF inv] by (cases "ps ! t") auto
  then show ?thesis
  proof cases
    case (1 a)
    then have "a \<in># prefs (ps ! t)" by simp
    from ref_alloc [OF inv this] have "safe v ps t (andthen (lock_foo t a s) (\<lambda>s. Next (Rele1Test a, s)))"
      using 1 f by (intro safe_lock_foo [OF inv]) (auto simp: same_tab_def)
    then show ?thesis using 1 by simp
  next
    case (2 a)
    then have a: "a \<in># prefs (ps ! t)" "guarded v (ps ! t) a" using f by (auto simp: guarded_def)
    obtain n where n: "heap s a = Some n" using ref_alloc(1) [OF inv a(1)] by blast
    note c = dec_count_eq [OF inv n a(2,1)] and m = may_count_guarded [OF inv n a(2)] object(1) [OF inv(1) n]
    have "inv v (ps[t := if f_count n = 1 then Rele1UnF a else ReleUnF a]) (s\<lparr>heap := (heap s)(a \<mapsto> n\<lparr>f_count := f_count n - 1\<rparr>)\<rparr>)"
      by (rule inv_dec [OF inv _ n]) (use 2 f in \<open>auto simp: same_tab_def\<close>)
    then show ?thesis using 2 c m f by (simp add: get_count_def may_count_def)
  next
    case (3 a)
    have "safe v ps t (andthen (unlock_foo t a s) (\<lambda>s. Next (Rele1Free a, s)))"
      by (rule safe_unlock_foo0 [OF inv]) (use 3 f in \<open>auto simp: same_tab_def\<close>)
    then show ?thesis using 3 by simp
  next
    case (4 a)
    then show ?thesis using inv_free [OF inv, of a] f by simp
  next
    case (5 a)
    have "safe v ps t (andthen (unlock_foo t a s) (\<lambda>s. Next (Idle, s)))"
      by (rule safe_unlock_foo0 [OF inv]) (use 5 f in \<open>auto simp: same_tab_def\<close>)
    then show ?thesis using 5 by simp
  qed
qed

text \<open>In the third file an object without references is not locked by any thread.\<close>

lemma unlocked3:
  assumes inv: "inv Mutex3 ps s" "t < length ps" and a: "sole_of (ps ! t) = Some a" "a \<notin># prefs (ps ! t)"
  shows "lk (heap s) a = Some None"
proof -
  have s: "ct (heap s) a \<noteq> None" "d.rc ps (pool s) a = 0" using d.countsD(4) [OF invD(2) [OF inv(1)] inv(2) a(1)] a(2) by (auto simp: not_in_iff)
  then obtain n where n: "heap s a = Some n" by (auto simp: ct_def)
  have "f_lock n \<noteq> Some u" for u
  proof
    assume "f_lock n = Some u"
    then have u: "u < length ps" "holds_foo (ps ! u) = Some a" using d.locksD(2) [OF invD(1) [OF inv(1)], of a "f_lock n" u] n by (auto simp: lk_def)
    then have "a \<in># prefs (ps ! u)" using holder_refs invD(5) [OF inv(1) u(1)] by blast
    then show False using d.rc_one [OF u(1), of a "pool s"] s(2) by (simp add: not_in_iff [symmetric])
  qed
  then show ?thesis using n by (cases "f_lock n") (auto simp: lk_def)
qed

lemma safe_rele3:
  assumes inv: "inv v ps s" "t < length ps" and f: "fn_of (ps ! t) = In_rele" "v = Mutex3"
  shows "safe v ps t (foo_rele3 t (ps ! t) s)"
proof -
  consider a where "ps ! t = Rele3LockH a" | a where "ps ! t = Rele3Test a" | a where "ps ! t = Rele3Remove a" | a where "ps ! t = Rele3UnH4 a"
    | a where "ps ! t = Rele3Free a" | "ps ! t = Rele3UnH"
    using f invD(5) [OF inv] by (cases "ps ! t") auto
  then show ?thesis
  proof cases
    case (1 a)
    have "safe v ps t (andthen (lock_hash t s) (\<lambda>s. Next (Rele3Test a, s)))"
      by (rule safe_lock_hash [OF inv]) (use 1 f in \<open>auto simp: same_tab_def\<close>)
    then show ?thesis using 1 by simp
  next
    case (2 a)
    then have a: "a \<in># prefs (ps ! t)" "guarded v (ps ! t) a" using f by (auto simp: guarded_def)
    obtain n where n: "heap s a = Some n" using ref_alloc(1) [OF inv a(1)] by blast
    note c = dec_count_eq [OF inv n a(2,1)] and m = may_count_guarded [OF inv n a(2)] object(1) [OF inv(1) n]
    have "inv v (ps[t := if f_count n = 1 then Rele3Remove a else Rele3UnH]) (s\<lparr>heap := (heap s)(a \<mapsto> n\<lparr>f_count := f_count n - 1\<rparr>)\<rparr>)"
      by (rule inv_dec [OF inv _ n]) (use 2 f in \<open>auto simp: same_tab_def\<close>)
    then show ?thesis using 2 c m f by (simp add: get_count_def may_count_def)
  next
    case (3 a)
    have "heap s a \<noteq> None" using d.countsD(4) [OF invD(2) [OF inv(1)] inv(2), of a] 3 by (auto simp: ct_def)
    then have "safe v ps t (andthen (unlink_foo t a s) (\<lambda>s. Next (Rele3UnH4 a, s)))"
      using 3 f by (intro safe_unlink [OF inv]) auto
    then show ?thesis using 3 by simp
  next
    case (4 a)
    have "lk (heap s) a = Some None" by (rule unlocked3 [OF _ inv(2)]) (use 4 inv(1) f in auto)
    then have "safe v ps t (andthen (unlock_hash t s) (\<lambda>s. Next (Rele3Free a, s)))"
      using 4 f by (intro safe_unlock_hash0 [OF inv, of _ a]) (auto simp: same_tab_def)
    then show ?thesis using 4 by simp
  next
    case (5 a)
    then show ?thesis using inv_free [OF inv, of a] f by simp
  next
    case 6
    have "safe v ps t (andthen (unlock_hash t s) (\<lambda>s. Next (Idle, s)))"
      by (rule safe_unlock_hash0 [OF inv]) (use 6 f in \<open>auto simp: same_tab_def\<close>)
    then show ?thesis using 6 by simp
  qed
qed

text \<open>The two steps of the second file's \<open>foo_rele\<close> that look at the count.\<close>

lemma safe_rele_tests:
  assumes inv: "inv v ps s" "t < length ps" and v: "v = Mutex2" and p: "ps ! t = ReleTest a \<or> ps ! t = ReleTest2 a"
  shows "safe v ps t (foo_rele t (ps ! t) s)"
proof -
  have a: "a \<in># prefs (ps ! t)" "guarded v (ps ! t) a" using p v by (auto simp: guarded_def)
  obtain n where n: "heap s a = Some n" using ref_alloc(1) [OF inv a(1)] by blast
  note c = dec_count_eq [OF inv n a(2,1)] and g = get_count_eq [OF inv n a(2)]
  have one: "inv v (ps[t := if ps ! t = ReleTest a then ReleUnF1 a else ReleRemove a]) s" if "f_count n = 1"
  proof (cases "ps ! t = ReleTest a")
    case True
    then show ?thesis by (intro inv_skip [OF inv]) (use v in \<open>auto simp: same_tab_def\<close>)
  next
    case False
    then have "ps ! t = ReleTest2 a" using p by simp
    then show ?thesis by (intro inv_sole [OF inv _ n that]) (use v in \<open>auto simp: same_tab_def\<close>)
  qed
  have more: "inv v (ps[t := if ps ! t = ReleTest a then ReleUnF a else ReleUnF3 a]) (s\<lparr>heap := (heap s)(a \<mapsto> n\<lparr>f_count := f_count n - 1\<rparr>)\<rparr>)"
    if "f_count n \<noteq> 1" by (rule inv_dec [OF inv _ n]) (use p v that in \<open>auto simp: same_tab_def\<close>)
  show ?thesis using p c(1) g one more v by auto
qed

lemma safe_rele:
  assumes inv: "inv v ps s" "t < length ps" and f: "fn_of (ps ! t) = In_rele" and v: "v = Mutex2"
  shows "safe v ps t (foo_rele t (ps ! t) s)"
proof -
  consider a where "ps ! t = ReleLockF a \<or> ps ! t = ReleLockF2 a" | a where "ps ! t = ReleTest a \<or> ps ! t = ReleTest2 a"
    | a where "ps ! t \<in> {ReleUnF a, ReleUnF1 a, ReleUnF3 a, ReleUnF4 a}" | a where "ps ! t = ReleLockH a" | a where "ps ! t = ReleUnH3 a \<or> ps ! t = ReleUnH4 a"
    | a where "ps ! t = ReleRemove a" | a where "ps ! t = ReleFree a"
    using f v invD(5) [OF inv] by (cases "ps ! t") auto
  then show ?thesis
  proof cases
    case (1 a)
    then have "a \<in># prefs (ps ! t)" by auto
    from ref_alloc [OF inv this] have "safe v ps t (andthen (lock_foo t a s) (\<lambda>s. Next (if ps ! t = ReleLockF a then ReleTest a else ReleTest2 a, s)))"
      using 1 v by (intro safe_lock_foo [OF inv]) (auto simp: same_tab_def)
    then show ?thesis using 1 by auto
  next
    case (2 a)
    then show ?thesis by (rule safe_rele_tests [OF inv v])
  next
    case (3 a)
    let ?p = "if ps ! t = ReleUnF a then Idle else if ps ! t = ReleUnF1 a then ReleLockH a else if ps ! t = ReleUnF3 a then ReleUnH3 a else ReleFree a"
    have "safe v ps t (andthen (unlock_foo t a s) (\<lambda>s. Next (?p, s)))"
      by (rule safe_unlock_foo0 [OF inv]) (use 3 v in \<open>auto simp: same_tab_def\<close>)
    then show ?thesis using 3 by auto
  next
    case (4 a)
    have "safe v ps t (andthen (lock_hash t s) (\<lambda>s. Next (ReleLockF2 a, s)))"
      by (rule safe_lock_hash [OF inv]) (use 4 v in \<open>auto simp: same_tab_def\<close>)
    then show ?thesis using 4 by simp
  next
    case (5 a)
    have "safe v ps t (andthen (unlock_hash t s) (\<lambda>s. Next (if ps ! t = ReleUnH3 a then Idle else ReleUnF4 a, s)))"
      by (rule safe_unlock_hash0 [OF inv]) (use 5 v in \<open>auto simp: same_tab_def\<close>)
    then show ?thesis using 5 by auto
  next
    case (6 a)
    then have "a \<in># prefs (ps ! t)" by simp
    from ref_alloc(1) [OF inv this] have "safe v ps t (andthen (unlink_foo t a s) (\<lambda>s. Next (ReleUnH4 a, s)))"
      using 6 v by (intro safe_unlink [OF inv]) auto
    then show ?thesis using 6 by simp
  next
    case (7 a)
    then show ?thesis using inv_free [OF inv, of a] by simp
  qed
qed

lemma safe_tstep:
  assumes inv: "inv v ps s" "t < length ps" and c: "fst c = 0 \<or> heap s (fst c) = None"
  shows "safe v ps t (tstep v t c (ps ! t) s)"
proof (cases "fn_of (ps ! t)")
  case In_alloc
  then show ?thesis using safe_alloc1 [OF inv _ _ c] safe_alloc [OF inv _ _ c] by (simp add: tstep_def)
next
  case In_hold
  then show ?thesis using safe_hold [OF inv] safe_hold3 [OF inv] by (simp add: tstep_def)
next
  case In_find
  then have "v \<noteq> Mutex1" using invD(5) [OF inv] by (cases "ps ! t") auto
  then show ?thesis using In_find safe_find [OF inv] safe_find3 [OF inv] by (cases v) (simp_all add: tstep_def)
next
  case In_rele
  then show ?thesis using safe_rele [OF inv] safe_rele1 [OF inv] safe_rele3 [OF inv] by (cases v) (simp_all add: tstep_def)
qed (simp add: tstep_def)

end
