(* ===== verification/Foo_Refs.thy ===== *)
theory Foo_Refs
  imports Foo_Steps
begin

text \<open>
  The reference-counted objects of the three files keep the discipline of \<open>Ref_Counts\<close>: in every
  interleaving of any number of threads no step faults, the counts are the numbers of references, objects are freed exactly when
  the last reference is given up, and no deadlock occurs.
\<close>

section \<open>Reachable states\<close>

inductive_cases sys_stepE: "sys_step v (ps, s) y"

lemma inv_call:
  assumes inv: "inv v ps s" "t < length ps" "ps ! t = Idle" and e: "entry v r = Some p" "uses r \<subseteq># pool s" "int (total ps s) < INT_MAX"
  shows "inv v (ps[t := p]) (s\<lparr>pool := pool s - uses r\<rparr>)"
proof -
  note i = invD [OF inv(1)]
  have p: "holds_hash p = holds_hash (ps ! t)" "holds_foo p = holds_foo (ps ! t)" "prefs p = uses r" "sole_of p = None" "quiet_of p = None"
      "ok_pc v p" "same_tab (ps ! t) p" "room p + size (pool s - uses r) \<le> size (pool s) + 1"
    using e(1,2) inv(3) size_mset_mono [OF e(2)] by (cases r; auto simp: same_tab_def size_Diff_submset split: if_splits)+
  have f: "d.fits INT_MAX (ps[t := p]) (pool s - uses r)"
    using sum_list_upd [OF inv(2), of room p] p(8) e(3) inv(3) by (simp add: d.fits_def total_def)
  show ?thesis
    by (rule inv_upd [OF inv(1,2) p(6)])
      (use p e(2) inv(2,3) f in \<open>auto intro!: d.locks_skip [OF i(1)] d.counts_skip [OF i(2)] d.quiets_skip [OF i(3)] simp: subset_mset.add_diff_inverse\<close>)
qed

lemma inv_start: "inv v (fst (start n)) (snd (start n))"
proof -
  have "sum_list (map f (replicate n Idle)) = (0::nat)" if "f Idle = 0" for f using that by (induction n) auto
  then show ?thesis
    by (auto simp: inv_def start_def d.locks_def d.counts_def d.quiets_def d.fits_def d.rc_def table_def tgts_def unls_def lk_def ct_def nv_def INT_MAX_def NHASH_def sum_list_replicate
        intro!: exI [of _ "[]"])
qed

lemma foo_reachable_inv: "reachable v n x \<Longrightarrow> inv v (fst x) (snd x) \<and> length (fst x) = n"
proof (induction rule: reachable.induct)
  case init
  then show ?case using inv_start by (simp add: start_def)
next
  case (step x y)
  obtain ps s where x: "x = (ps, s)" by (cases x)
  from step.hyps(2) [unfolded x]
  consider t r p where "t < length ps" "ps ! t = Idle" "entry v r = Some p" "uses r \<subseteq># pool s" "int (total ps s) < INT_MAX" "y = (ps[t := p], s\<lparr>pool := pool s - uses r\<rparr>)"
    | t c p s' where "t < length ps" "fst c = 0 \<or> heap s (fst c) = None" "tstep v t c (ps ! t) s = Next (p, s')" "y = (ps[t := p], s')"
    by (rule sys_stepE) blast+
  then show ?case
  proof cases
    case (1 t r p)
    then show ?thesis using step.IH x inv_call [of v ps s t r p] by simp
  next
    case (2 t c p s')
    then show ?thesis using step.IH x safe_tstep [of v ps s t c] by simp
  qed
qed

text \<open>Every step brings its function nearer to its end.\<close>

fun rank :: "pc \<Rightarrow> nat" where
  "rank Idle = 0"
| "rank (Alloc _) = 6" | "rank (AllocLockH _ _) = 5" | "rank (AllocLink _ _) = 4" | "rank (AllocLockF _) = 3" | "rank (AllocUnH _) = 2"
| "rank (HoldLockF _) = 3" | "rank (HoldInc _) = 2" | "rank (HoldLockH _) = 3" | "rank (HoldIncH _) = 2"
| "rank (FindLockH _) = 6" | "rank (FindScan _) = 5" | "rank (FindLockF _) = 4" | "rank (FindInc _) = 3" | "rank (FindUnF _) = 2"
| "rank (ReleLockF _) = 10" | "rank (ReleTest _) = 9" | "rank (ReleUnF1 _) = 8" | "rank (ReleLockH _) = 7" | "rank (ReleLockF2 _) = 6" | "rank (ReleTest2 _) = 5"
| "rank (ReleUnF3 _) = 2" | "rank (ReleRemove _) = 4" | "rank (ReleUnH4 _) = 3" | "rank (ReleUnF4 _) = 2"
| "rank (Rele1Test _) = 3" | "rank (Rele1UnF _) = 2"
| "rank (Rele3LockH _) = 5" | "rank (Rele3Test _) = 4" | "rank (Rele3Remove _) = 3" | "rank (Rele3UnH4 _) = 2"
| "rank _ = 1"

lemma andthen_Next: "andthen m f = Next y \<longleftrightarrow> (\<exists>x. m = Next x \<and> f x = Next y)"
  by (cases m) auto

lemma rank_decreases: "tstep v t c p s = Next (p', s') \<Longrightarrow> rank p' < rank p"
  by (cases p; cases c; cases v) (auto simp: tstep_def andthen_Next split: if_splits)

text \<open>A control state with the mutex of an object does not wait.\<close>

lemma holder_runs: "holds_foo p = Some a \<Longrightarrow> tstep v t c p s \<noteq> Blocked"
  by (cases p; cases c; cases v)
    (auto simp: tstep_def unlock_hash_def unlock_foo_def inc_count_def dec_count_def get_count_def set_count_def unlink_foo_def
      split: option.splits)

text \<open>A thread that waits does so for a mutex that is held.\<close>

lemma waits_for:
  assumes "tstep v t c p s = Blocked" "p \<noteq> Idle"
  shows "(hashlock s \<noteq> None \<and> \<not> holds_hash p) \<or> (\<exists>a n u. heap s a = Some n \<and> f_lock n = Some u)"
  using assms
  by (cases p; cases c; cases v)
    (auto simp: tstep_def lock_hash_def lock_foo_def unlock_hash_def unlock_foo_def inc_count_def dec_count_def get_count_def set_count_def
      unlink_foo_def link_foo_def find_foo_def destroy_foo_def free_foo_def load_def split: option.splits if_splits)

lemma inv_no_fault:
  assumes "inv v ps s" "t < length ps" "fst c = 0 \<or> heap s (fst c) = None" "tstep v t c (ps ! t) s \<noteq> Blocked"
  shows "\<exists>p s'. tstep v t c (ps ! t) s = Next (p, s')"
  using safe_tstep [OF assms(1-3)] assms(4) by (cases "tstep v t c (ps ! t) s") (auto simp: safe_def)

lemma inv_progress:
  assumes inv: "inv v ps s" and t: "t < length ps" "ps ! t \<noteq> Idle"
  shows "\<exists>u < length ps. ps ! u \<noteq> Idle \<and> (\<forall>c. fst c = 0 \<or> heap s (fst c) = None \<longrightarrow> (\<exists>p s'. tstep v u c (ps ! u) s = Next (p, s')))"
proof -
  have go: ?thesis if u: "u < length ps" "ps ! u \<noteq> Idle" "\<And>c. tstep v u c (ps ! u) s \<noteq> Blocked" for u
    using inv_no_fault [OF inv u(1) _ u(3)] u(1,2) by blast
  show ?thesis
  proof (cases "\<exists>u a. u < length ps \<and> holds_foo (ps ! u) = Some a")
    case True
    then obtain u a where u: "u < length ps" "holds_foo (ps ! u) = Some a" by blast
    then have "ps ! u \<noteq> Idle" by auto
    then show ?thesis using go [OF u(1)] holder_runs [OF u(2)] by blast
  next
    case False
    then have "f_lock n \<noteq> Some u" if "heap s a = Some n" for a n u
      using d.locksD(2) [OF invD(1) [OF inv], of a "f_lock n" u] that by (simp add: lk_def)
    then have nf: "\<not> (\<exists>a n u. heap s a = Some n \<and> f_lock n = Some u)" by blast
    show ?thesis
    proof (cases "hashlock s")
      case None
      then show ?thesis using go [OF t] waits_for [of v t _ "ps ! t" s] t nf by blast
    next
      case (Some u)
      then have u: "u < length ps" "holds_hash (ps ! u)" using d.locksD(1) [OF invD(1) [OF inv], of u] by auto
      then have "ps ! u \<noteq> Idle" by auto
      then show ?thesis using go [OF u(1)] waits_for [of v u _ "ps ! u" s] u nf by blast
    qed
  qed
qed

text \<open>Steps of calls in progress, without new calls.\<close>

inductive runs :: "variant \<Rightarrow> nat \<Rightarrow> pc list \<times> state \<Rightarrow> pc list \<times> state \<Rightarrow> bool" for v where
  none: "runs v 0 x x"
| more: "runs v k x (ps, s) \<Longrightarrow> t < length ps \<Longrightarrow> fst c = 0 \<or> heap s (fst c) = None \<Longrightarrow> tstep v t c (ps ! t) s = Next (p, s') \<Longrightarrow>
    runs v (Suc k) x (ps[t := p], s')"

lemma runs_rank: "runs v k x y \<Longrightarrow> k + sum_list (map rank (fst y)) \<le> sum_list (map rank (fst x))"
proof (induction rule: runs.induct)
  case (more k x ps s t c p s')
  then show ?case using rank_decreases [OF more.hyps(4)] sum_list_upd [OF more.hyps(2), of rank p] by simp
qed simp

lemma runs_reachable: "runs v k x y \<Longrightarrow> reachable v n x \<Longrightarrow> reachable v n y"
proof (induction rule: runs.induct)
  case (more k x ps s t c p s')
  then show ?case using reachable.step [OF _ sys_step.run [OF more.hyps(2-4)]] by blast
qed

lemma rank_le: "rank p \<le> 10"
  by (cases p) auto

text \<open>Schedules, for examples: who calls what, and who takes a step with which choice of the environment.\<close>

datatype move = Call request | Run choice

fun play :: "variant \<Rightarrow> (nat \<times> move) list \<Rightarrow> pc list \<times> state \<Rightarrow> (pc list \<times> state) option" where
  "play v [] x = Some x"
| "play v ((t, Call r) # ms) (ps, s) = (if t < length ps \<and> ps ! t = Idle \<and> uses r \<subseteq># pool s \<and> int (total ps s) < INT_MAX
     then do { p \<leftarrow> entry v r; play v ms (ps[t := p], s\<lparr>pool := pool s - uses r\<rparr>) } else None)"
| "play v ((t, Run c) # ms) (ps, s) = (if t < length ps \<and> (fst c = 0 \<or> heap s (fst c) = None)
     then (case tstep v t c (ps ! t) s of Next (p, s') \<Rightarrow> play v ms (ps[t := p], s') | _ \<Rightarrow> None) else None)"

lemma play_reachable: "play v ms x = Some y \<Longrightarrow> reachable v n x \<Longrightarrow> reachable v n y"
proof (induction v ms x arbitrary: y rule: play.induct)
  case (2 v t r ms ps s)
  then obtain p where "entry v r = Some p" "t < length ps" "ps ! t = Idle" "uses r \<subseteq># pool s" "int (total ps s) < INT_MAX"
      "play v ms (ps[t := p], s\<lparr>pool := pool s - uses r\<rparr>) = Some y"
    by (auto simp: bind_eq_Some_conv split: if_splits)
  then show ?case using 2 reachable.step [OF 2(3) sys_step.call [of t ps v r p s]] by auto
next
  case (3 v t c ms ps s)
  then obtain p s' where "tstep v t c (ps ! t) s = Next (p, s')" "t < length ps" "fst c = 0 \<or> heap s (fst c) = None" "play v ms (ps[t := p], s') = Some y"
    by (auto split: if_splits outcome.splits)
  then show ?case using 3 reachable.step [OF 3(3) sys_step.run [of t ps c s v p s']] by auto
qed simp

section \<open>Properties\<close>

text \<open>C4: For each of the three files, in every interleaving of any number of threads that call the functions with references
  they hold: no step faults, that is, no object is used after it is freed, nothing is accessed without the mutex
  that protects it, no mutex is unlocked by another thread or destroyed while it is locked, and no count overflows; the count of every object is the
  number of references to it, held by clients or inside of calls; every reference is to an allocated object. When no call is in progress, exactly the objects with
  references are allocated, and (in the second and third file) a scan of the table finds an object with a given identifier
  if and only if there is one.\<close>

theorem foo_refs_safe:
  assumes "reachable v n (ps, s)"
  shows "(\<forall>t c. t < n \<and> (fst c = 0 \<or> heap s (fst c) = None) \<longrightarrow> tstep v t c (ps ! t) s \<noteq> Fault) \<and>
    (\<forall>a k. heap s a = Some k \<longrightarrow> f_count k = int (count (pool s) a + sum_list (map (\<lambda>p. count (prefs p) a) ps))) \<and>
    (\<forall>a. a \<in># pool s \<longrightarrow> heap s a \<noteq> None) \<and>
    ((\<forall>t < n. ps ! t = Idle) \<longrightarrow> (\<forall>a. heap s a \<noteq> None \<longleftrightarrow> a \<in># pool s) \<and>
      (v \<noteq> Mutex1 \<longrightarrow> (\<forall>i t. \<exists>a. find_foo t i (s\<lparr>hashlock := Some t\<rparr>) = Next a \<and>
         (if a = 0 then \<forall>b k. heap s b = Some k \<longrightarrow> f_id k \<noteq> i else \<exists>k. heap s a = Some k \<and> f_id k = i))))"
proof -
  have inv: "inv v ps s" and n: "length ps = n" using foo_reachable_inv [OF assms] by auto
  note i = invD [OF inv]
  have pool: "heap s a \<noteq> None" if "a \<in># pool s" for a
  proof -
    have "0 < d.rc ps (pool s) a" using that by (simp add: d.rc_def)
    then show ?thesis using d.countsD(3) [OF i(2)] by (simp add: ct_def)
  qed
  have "heap s a \<noteq> None \<longleftrightarrow> a \<in># pool s" if idle: "\<forall>t < n. ps ! t = Idle" for a
  proof
    assume a: "heap s a \<noteq> None"
    have "sum_list (map (\<lambda>p. count (prefs p) a) ps) = 0" using idle n by (auto simp: in_set_conv_nth)
    moreover have "d.rc ps (pool s) a \<noteq> 0"
    proof
      assume "d.rc ps (pool s) a = 0"
      then obtain t where "t < length ps" "sole_of (ps ! t) = Some a" using d.countsD(2) [OF i(2), of a] a by (auto simp: ct_def)
      then show False using idle n by simp
    qed
    ultimately have "count (pool s) a \<noteq> 0" by (simp add: d.rc_def)
    then show "a \<in># pool s" by (simp add: count_eq_zero_iff)
  qed (rule pool)
  moreover have "\<exists>a. find_foo t j (s\<lparr>hashlock := Some t\<rparr>) = Next a \<and> (if a = 0 then \<forall>b k. heap s b = Some k \<longrightarrow> f_id k \<noteq> j else \<exists>k. heap s a = Some k \<and> f_id k = j)"
    if idle: "\<forall>t < n. ps ! t = Idle" and v: "v \<noteq> Mutex1" for t j
  proof -
    have "unls ps = {}" using idle n by (auto simp: unls_def)
    then obtain a where "find_foo t j (s\<lparr>hashlock := Some t\<rparr>) = Next a" "if a = 0 then \<forall>b n. heap s b = Some n \<longrightarrow> f_id n \<noteq> j else \<exists>n. heap s a = Some n \<and> f_id n = j"
      using find_foo_table [of "s\<lparr>hashlock := Some t\<rparr>" "{}" t j] i(6) [OF v] by (auto split: if_splits)
    then show ?thesis by blast
  qed
  moreover have "tstep v t c (ps ! t) s \<noteq> Fault" if "t < n" "fst c = 0 \<or> heap s (fst c) = None" for t c
    using safe_tstep [OF inv, of t c] that n by auto
  moreover have "f_count k = int (count (pool s) a + sum_list (map (\<lambda>p. count (prefs p) a) ps))" if "heap s a = Some k" for a k
    using object(2) [OF inv that] by (simp add: d.rc_def)
  ultimately show ?thesis using pool by blast
qed

text \<open>A schedule with two threads: the second one finds an object while the first is giving up what was the last reference.\<close>

definition race :: "(nat \<times> move) list" where
  "race = [(0, Call (Want_alloc 7)), (0, Run (4, True)), (0, Run (0, True)), (0, Run (0, True)), (0, Run (0, True)), (0, Run (0, True)), (0, Run (0, True)),
     (0, Call (Want_rele 4)), (0, Run (0, True)), (0, Run (0, True)), (1, Call (Want_find 7)), (0, Run (0, True)), (1, Run (0, True)), (1, Run (0, True)), (1, Run (0, True)), (1, Run (0, True)),
     (1, Run (0, True)), (1, Run (0, True)), (0, Run (0, True)), (0, Run (0, True)), (0, Run (0, True)), (0, Run (0, True)), (0, Run (0, True))]"

lemma HASH_7: "HASH 7 = 7"
  by (simp add: HASH_def NHASH_def)

lemma race_play: "\<exists>s. play Mutex2 race (start 2) = Some ([Idle, Idle], s) \<and> pool s = {#4#} \<and> map_option f_count (heap s 4) = Some 1"
  by (simp add: race_def start_def HASH_7 NHASH_def tstep_def lock_hash_def unlock_hash_def lock_foo_def unlock_foo_def link_foo_def find_foo_def
      inc_count_def dec_count_def get_count_def set_count_def may_count_def new_foo_def total_def INT_MAX_def scan.simps rd_def wr_def numeral_2_eq_2)


theorem foo_refs_safe_witness:
  "\<exists>s. play Mutex2 race (start 2) = Some ([Idle, Idle], s) \<and> (\<forall>a. heap s a \<noteq> None \<longleftrightarrow> a = 4) \<and> map_option f_count (heap s 4) = Some 1 \<and>
     (\<exists>a. find_foo 0 8 (s\<lparr>hashlock := Some 0\<rparr>) = Next a)"
proof -
  obtain s where s: "play Mutex2 race (start 2) = Some ([Idle, Idle], s)" "pool s = {#4#}" "map_option f_count (heap s 4) = Some 1" using race_play by blast
  note reach = play_reachable [OF s(1) reachable.init]
  have idle: "\<forall>t < 2. [Idle, Idle] ! t = Idle" by (simp add: less_2_cases_iff)
  from foo_refs_safe [OF reach] idle s show ?thesis by (intro exI [of _ s]) (simp, blast)
qed

text \<open>C5: Every call returns: calls in progress need at most ten steps each, whatever the other threads and \<open>malloc\<close> do, and as long as a
  call has not returned some thread can take its next step. In particular there is no deadlock.\<close>

theorem foo_calls_return:
  assumes "reachable v n x" "runs v k x (ps, s)"
  shows "k \<le> 10 * n \<and> ((\<forall>t < n. ps ! t = Idle) \<or>
    (\<exists>t < n. ps ! t \<noteq> Idle \<and> (\<forall>c. fst c = 0 \<or> heap s (fst c) = None \<longrightarrow> (\<exists>p s'. tstep v t c (ps ! t) s = Next (p, s')))))"
proof -
  have inv: "inv v ps s" and n: "length ps = n" using foo_reachable_inv [OF runs_reachable [OF assms(2,1)]] by auto
  have "sum_list (map rank (fst x)) \<le> sum_list (map (\<lambda>_. 10) (fst x))" by (intro sum_list_mono rank_le)
  then have "k \<le> 10 * n" using runs_rank [OF assms(2)] foo_reachable_inv [OF assms(1)] by (simp add: sum_list_triv)
  then show ?thesis using inv_progress [OF inv] n by blast
qed

theorem foo_calls_return_witness:
  "\<exists>s. runs Mutex2 2 ([Alloc 7, Idle], snd (start 2)) ([AllocLink 4 7, Idle], s) \<and>
     (\<exists>t < 2. ([AllocLink 4 7, Idle] ! t \<noteq> Idle) \<and> (\<exists>p s'. tstep Mutex2 t (0, True) ([AllocLink 4 7, Idle] ! t) s = Next (p, s')))"
proof -
  let ?x = "([Alloc 7, Idle], snd (start 2))"
  have "play Mutex2 [(0, Call (Want_alloc 7))] (start 2) = Some ?x" by (simp add: start_def total_def INT_MAX_def numeral_2_eq_2)
  from play_reachable [OF this reachable.init] have x: "reachable Mutex2 2 ?x" .
  define s where "s = (snd (start 2))\<lparr>heap := (heap (snd (start 2)))(4 \<mapsto> new_foo 7), hashlock := Some 0\<rparr>"
  have "runs Mutex2 (Suc 0) ?x ([Alloc 7, Idle][0 := AllocLockH 4 7], (snd (start 2))\<lparr>heap := (heap (snd (start 2)))(4 \<mapsto> new_foo 7)\<rparr>)"
    by (rule runs.more [OF runs.none, where t = 0 and c = "(4, True)"]) (simp_all add: start_def tstep_def)
  then have "runs Mutex2 (Suc 0) ?x ([AllocLockH 4 7, Idle], (snd (start 2))\<lparr>heap := (heap (snd (start 2)))(4 \<mapsto> new_foo 7)\<rparr>)" by simp
  then have "runs Mutex2 (Suc (Suc 0)) ?x ([AllocLockH 4 7, Idle][0 := AllocLink 4 7], s)"
    by (rule runs.more [where t = 0 and c = "(0, True)"]) (simp_all add: s_def start_def tstep_def lock_hash_def)
  then have r: "runs Mutex2 2 ?x ([AllocLink 4 7, Idle], s)" by (simp add: numeral_2_eq_2)
  have "\<not> (\<forall>t < 2. [AllocLink 4 7, Idle] ! t = Idle)" by (auto intro!: exI [of _ 0])
  with foo_calls_return [OF x r] obtain t where t: "t < 2" "[AllocLink 4 7, Idle] ! t \<noteq> Idle"
      "\<forall>c. fst c = 0 \<or> heap s (fst c) = None \<longrightarrow> (\<exists>p s'. tstep Mutex2 t c ([AllocLink 4 7, Idle] ! t) s = Next (p, s'))" by blast
  from t(3) [rule_format, of "(0, True)"] show ?thesis using r t(1,2) by auto
qed

end
