(* ===== verification/Open_Args.thy ===== *)
theory Open_Args
  imports C_Library
begin

text \<open>
  Breaking a request into arguments: \<open>strtok\<close> on a buffer that it changes, and \<open>buf_args\<close> of \<open>apue.3e/lib/bufargs.c\<close>
  (the copies in \<open>apue/17.5open_serv_1\<close> and \<open>apue/17.6open_serv_2\<close> are the same). Pointers into the buffer are offsets.
\<close>

section \<open>Tokens of a buffer\<close>

definition MAXARGC :: nat where "MAXARGC = 50"

definition WHITE :: string where "WHITE = [SPACE, CHR 0x09, NEWLINE]"

abbreviation white :: "char \<Rightarrow> bool" where "white c \<equiv> c \<in> set WHITE"

text \<open>\<open>strtok\<close> continues at the offset \<open>p\<close>, which is 0 in the first call and afterwards what the call before it has saved.
  The result is the token's offset, if there is one, the offset to save and the buffer.\<close>

definition strtok :: "string \<Rightarrow> nat \<Rightarrow> (nat option \<times> nat \<times> string) option" where
  "strtok b p = (let q = p + length (takeWhile white (drop p b)) in
     if length b \<le> q then None
     else if b ! q = NUL then Some (None, q, b)
     else let e = q + length (takeWhile (\<lambda>c. \<not> white c \<and> c \<noteq> NUL) (drop q b)) in
       if length b \<le> e then None
       else if b ! e = NUL then Some (Some q, e, b)
       else Some (Some q, e + 1, b[e := NUL]))"

text \<open>The loop of \<open>buf_args\<close>; the number of elements of \<open>argv\<close> is the code's \<open>argc + 1\<close>.\<close>

function args_loop :: "string \<Rightarrow> nat \<Rightarrow> nat list \<Rightarrow> (nat list option \<times> string) option" where
  "args_loop b save argv = do {
     (ptr, save, b) \<leftarrow> strtok b save;
     case ptr of
       None \<Rightarrow> Some (Some argv, b)
     | Some p \<Rightarrow> if MAXARGC - 1 \<le> length argv then Some (None, b) else args_loop b save (argv @ [p]) }"
  by pat_completeness auto
termination
  by (relation "measure (\<lambda>(b, save, argv). MAXARGC - length argv)") (auto simp: MAXARGC_def)

declare args_loop.simps [simp del]

text \<open>The caller's function gets the number of arguments and the strings that \<open>argv\<close> points to.\<close>

definition buf_args :: "string \<Rightarrow> (nat \<Rightarrow> string list \<Rightarrow> 's \<Rightarrow> int \<times> 's) \<Rightarrow> 's \<Rightarrow> (int \<times> 's \<times> string) option" where
  "buf_args buf optfunc st = do {
     (ptr, save, buf) \<leftarrow> strtok buf 0;
     case ptr of
       None \<Rightarrow> Some (-1, st, buf)
     | Some _ \<Rightarrow> do {
         (argv, buf) \<leftarrow> args_loop buf save [0];
         case argv of
           None \<Rightarrow> Some (-1, st, buf)
         | Some argv \<Rightarrow> if MAXARGC \<le> length argv then None
             else (case optfunc (length argv) (map (\<lambda>p. cstr (drop p buf)) argv) st of (rc, st) \<Rightarrow> Some (rc, st, buf)) } }"

section \<open>What the arguments are\<close>

text \<open>The maximal pieces without white space.\<close>

function arg_fields :: "string \<Rightarrow> string list" where
  "arg_fields s = (let s = dropWhile white s in
     if s = [] then [] else takeWhile (\<lambda>c. \<not> white c) s # arg_fields (dropWhile (\<lambda>c. \<not> white c) s))"
  by pat_completeness auto
termination
proof (relation "measure length"; simp)
  fix s :: string assume "\<exists>x\<in>set s. \<not> white x"
  then obtain c t where t: "dropWhile white s = c # t" "\<not> white c" by (metis dropWhile_eq_Nil_conv hd_dropWhile list.collapse)
  have "length (dropWhile (\<lambda>c. \<not> white c) t) \<le> length t" by (rule length_dropWhile_le)
  also have "\<dots> < length s" using t(1) length_dropWhile_le [of white s] by simp
  finally show "length (dropWhile (\<lambda>c. \<not> white c) (dropWhile white s)) < length s" using t by simp
qed

declare arg_fields.simps [simp del]

lemma white_NUL [simp]: "\<not> white NUL"
  by (simp add: WHITE_def c_consts)

text \<open>A call of \<open>strtok\<close> on a string with the terminator at its end.\<close>

lemma takeWhile_stop: "\<not> P y \<Longrightarrow> takeWhile P (s @ y # r) = takeWhile P s"
  by (induction s) auto

lemma takeWhile_stop2: "\<not> P y \<Longrightarrow> \<not> Q y \<Longrightarrow> (\<And>x. x \<in> set s \<Longrightarrow> P x = Q x) \<Longrightarrow> takeWhile P (s @ y # r) = takeWhile Q s"
  by (induction s) auto

lemma drop_at: "drop p b = s @ t \<Longrightarrow> drop (p + length s) b = t"
  by (metis append_eq_conv_conj drop_drop add.commute)

lemma drop_lt: "drop p b = s @ y # t \<Longrightarrow> p + length s < length b \<and> b ! (p + length s) = y"
proof -
  assume a: "drop p b = s @ y # t"
  then have "drop (p + length s) b = y # t" by (rule drop_at)
  then show ?thesis by (metis drop_eq_Nil list.distinct(1) not_le nth_via_drop)
qed

lemma take_same: "take n a = take n b \<Longrightarrow> i < n \<Longrightarrow> a ! i = b ! i"
  by (metis nth_take)

lemma strtok_end:
  assumes b: "drop p b = s @ NUL # r" and w: "\<forall>c \<in> set s. white c"
  shows "strtok b p = Some (None, p + length s, b)"
proof -
  have "takeWhile white (drop p b) = s" using takeWhile_stop [of white NUL s r] w by (simp add: b takeWhile_eq_all_conv [THEN iffD2])
  then show ?thesis using drop_lt [OF b] by (simp add: strtok_def)
qed

lemma strtok_token:
  assumes b: "drop p b = w @ k @ c # r" and w: "\<forall>c \<in> set w. white c" and k: "k \<noteq> []" "\<forall>c \<in> set k. \<not> white c \<and> c \<noteq> NUL" and c: "white c \<or> c = NUL"
  shows "strtok b p = Some (Some (p + length w), p + length w + length k + (if c = NUL then 0 else 1), if c = NUL then b else b[p + length w + length k := NUL])"
proof -
  obtain x xs where x: "k = x # xs" using k(1) by (cases k) auto
  have "takeWhile white (drop p b) = w" using w k by (simp add: b x takeWhile_append takeWhile_eq_all_conv [THEN iffD2])
  moreover have 1: "p + length w < length b" "b ! (p + length w) = x" using drop_lt [of p b w x "xs @ c # r"] b x by auto
  moreover have d: "drop (p + length w) b = k @ c # r" using drop_at b by blast
  have "takeWhile (\<lambda>c. \<not> white c \<and> c \<noteq> NUL) (drop (p + length w) b) = k" using k(2) c by (auto simp: d takeWhile_append takeWhile_eq_all_conv [THEN iffD2])
  moreover have "p + length w + length k < length b" "b ! (p + length w + length k) = c" using drop_lt [OF d] by auto
  ultimately show ?thesis using k(2) x by (auto simp: strtok_def Let_def)
qed

lemma fields_white: "white c \<Longrightarrow> arg_fields (c # s) = arg_fields s"
  by (subst arg_fields.simps, subst (2) arg_fields.simps) simp

lemma fields_all_white: "\<forall>c \<in> set s. white c \<Longrightarrow> arg_fields s = []"
  by (subst arg_fields.simps) (simp add: dropWhile_eq_Nil_conv [THEN iffD2])

lemma fields_token:
  assumes "\<forall>c \<in> set w. white c" "k \<noteq> []" "\<forall>c \<in> set k. \<not> white c" "t = [] \<or> white (hd t)"
  shows "arg_fields (w @ k @ t) = k # arg_fields t"
proof -
  obtain x xs where x: "k = x # xs" using assms(2) by (cases k) auto
  have "dropWhile white (w @ k @ t) = k @ t" using assms(1,3) x by (simp add: dropWhile_append dropWhile_eq_Nil_conv [THEN iffD2])
  moreover have "takeWhile (\<lambda>c. \<not> white c) (k @ t) = k" "dropWhile (\<lambda>c. \<not> white c) (k @ t) = t"
    using assms(3,4) by (cases t; auto simp: takeWhile_append dropWhile_append takeWhile_eq_all_conv [THEN iffD2] dropWhile_eq_Nil_conv [THEN iffD2])+
  ultimately show ?thesis using assms(2) by (subst arg_fields.simps) simp
qed

text \<open>Every string is white space, or white space in front of a token and the rest.\<close>

lemma token_cases:
  obtains (blank) "\<forall>c \<in> set s. white c"
  | (token) w k t where "s = w @ k @ t" "\<forall>c \<in> set w. white c" "k \<noteq> []" "\<forall>c \<in> set k. \<not> white c" "t = [] \<or> white (hd t)"
proof (cases "\<forall>c \<in> set s. white c")
  case True
  then show ?thesis by (rule blank)
next
  case False
  let ?u = "dropWhile white s"
  have ne: "?u \<noteq> []" using False by (auto simp: dropWhile_eq_Nil_conv)
  then have "\<not> white (hd ?u)" using hd_dropWhile [of white s] by simp
  then have k: "takeWhile (\<lambda>c. \<not> white c) ?u \<noteq> []" using ne by (cases ?u) auto
  have s: "s = takeWhile white s @ takeWhile (\<lambda>c. \<not> white c) ?u @ dropWhile (\<lambda>c. \<not> white c) ?u" by simp
  have t: "dropWhile (\<lambda>c. \<not> white c) ?u = [] \<or> white (hd (dropWhile (\<lambda>c. \<not> white c) ?u))"
    using hd_dropWhile [of "\<lambda>c. \<not> white c" ?u] by auto
  show ?thesis by (rule token [OF s _ k _ t]) (auto dest: set_takeWhileD)
qed

lemma cstr_at:
  assumes "q + length k < length b" "\<And>j. j < length k \<Longrightarrow> b ! (q + j) = k ! j" "b ! (q + length k) = NUL" "NUL \<notin> set k"
  shows "cstr (drop q b) = k"
proof -
  have "drop q b = k @ NUL # drop (q + length k + 1) b"
    using assms(1-3) by (intro nth_equalityI) (auto simp: nth_append nth_Cons' add.assoc add.commute)
  then show ?thesis using assms(4) by (auto simp: cstr_def takeWhile_append takeWhile_eq_all_conv [THEN iffD2])
qed

lemma args_loop_spec:
  assumes "drop save b = s @ NUL # r" "NUL \<notin> set s"
  shows "\<exists>ps b'. args_loop b save argv = Some (if length (arg_fields s) \<le> MAXARGC - 1 - length argv then Some (argv @ ps) else None, b') \<and>
    (length (arg_fields s) \<le> MAXARGC - 1 - length argv \<longrightarrow> map (\<lambda>p. cstr (drop p b')) ps = arg_fields s \<and> take save b' = take save b \<and> length b' = length b \<and>
      (\<forall>i < length b. b ! i = NUL \<longrightarrow> b' ! i = NUL))"
  using assms
proof (induction s arbitrary: save b argv rule: length_induct)
  case (1 s)
  note IH = 1(1) [rule_format] and b = 1(2) and nul = 1(3)
  show ?case
  proof (cases s rule: token_cases)
    case blank
    then show ?thesis using strtok_end [OF b blank] fields_all_white [OF blank] by (subst args_loop.simps) simp
  next
    case (token w k t)
    define c where "c = (if t = [] then NUL else hd t)"
    define u where "u = (if t = [] then [] else tl t)"
    have t: "t @ NUL # r = c # (if t = [] then r else u @ NUL # r)" by (simp add: c_def u_def)
    have b': "drop save b = w @ k @ c # (if t = [] then r else u @ NUL # r)" using b token(1) t by simp
    have kn: "\<forall>c \<in> set k. \<not> white c \<and> c \<noteq> NUL" "white c \<or> c = NUL" and cn: "c = NUL \<longleftrightarrow> t = []"
      using token nul white_NUL by (auto simp: c_def split: if_splits)
    let ?q = "save + length w" and ?e = "save + length w + length k"
    define b1 where "b1 = (if c = NUL then b else b[?e := NUL])"
    define sv where "sv = ?e + (if c = NUL then 0 else 1)"
    have st: "strtok b save = Some (Some ?q, sv, b1)" using strtok_token [OF b' token(2,3) kn] by (simp add: sv_def b1_def)
    have el: "?e < length b" "b ! ?e = c" using drop_lt [of save b "w @ k" c] b' by (auto simp: add.assoc)
    have f: "arg_fields s = k # arg_fields u" using fields_token [OF token(2-5)] fields_white [of "hd t" "tl t"] token(1,5) by (cases t) (auto simp: u_def)
    have du: "drop sv b1 = u @ NUL # r"
      using drop_at [of save b "w @ k @ [c]" "u @ NUL # r"] drop_at [of save b "w @ k" "NUL # r"] b' cn
      by (auto simp: sv_def b1_def u_def add.assoc)
    have "length u < length s" "NUL \<notin> set u" using token(1,3) nul by (cases t; auto simp: u_def)+
    from IH [OF this(1) du this(2), of "argv @ [?q]"] obtain ps b2 where i:
      "args_loop b1 sv (argv @ [?q]) = Some (if length (arg_fields u) \<le> MAXARGC - 1 - length (argv @ [?q]) then Some ((argv @ [?q]) @ ps) else None, b2)"
      "length (arg_fields u) \<le> MAXARGC - 1 - length (argv @ [?q]) \<longrightarrow> map (\<lambda>p. cstr (drop p b2)) ps = arg_fields u \<and> take sv b2 = take sv b1 \<and> length b2 = length b1 \<and>
        (\<forall>i < length b1. b1 ! i = NUL \<longrightarrow> b2 ! i = NUL)" by blast
    have fit: "map (\<lambda>p. cstr (drop p b2)) (?q # ps) = arg_fields s \<and> take save b2 = take save b \<and> length b2 = length b \<and> (\<forall>i < length b. b ! i = NUL \<longrightarrow> b2 ! i = NUL)"
      if n: "length (arg_fields u) \<le> MAXARGC - 1 - length (argv @ [?q])"
    proof -
      note i' = i(2) [rule_format, OF n]
      have same: "b2 ! i = b1 ! i" if "i < sv" for i using take_same i' that by blast
      have kb: "b2 ! (?q + j) = k ! j" if "j < length k" for j
      proof -
        have "b2 ! (?q + j) = b ! (?q + j)" using same [of "?q + j"] that by (simp add: sv_def b1_def)
        also have "\<dots> = drop save b ! (length w + j)" using el(1) by (simp add: add.assoc)
        also have "\<dots> = k ! j" using that by (simp add: b' nth_append)
        finally show ?thesis .
      qed
      have e0: "b1 ! ?e = NUL" using el by (auto simp: b1_def)
      have ck: "cstr (drop ?q b2) = k" by (rule cstr_at) (use el kb e0 i' kn(1) in \<open>auto simp: b1_def\<close>)
      have tk: "take save b2 = take save b" using arg_cong [of _ _ "take save", OF i' [THEN conjunct2, THEN conjunct1]] by (simp add: sv_def b1_def min_def)
      have nu: "\<forall>i < length b. b ! i = NUL \<longrightarrow> b2 ! i = NUL" using i' el by (auto simp: b1_def nth_list_update)
      show ?thesis using ck tk nu i' f by (auto simp: b1_def)
    qed
    show ?thesis
    proof (cases "MAXARGC - 1 \<le> length argv")
      case True
      then show ?thesis using st f by (subst args_loop.simps) simp
    next
      case False
      then show ?thesis using st f i(1) fit by (subst args_loop.simps) (auto intro!: exI [of _ "?q # ps"] exI [of _ b2])
    qed
  qed
qed

text \<open>\<open>buf_args\<close> on the string \<open>s\<close> in a buffer: a blank string and more than 49 arguments are refused without a call of the function; otherwise
  the function gets the fields of the string, the first one together with the white space in front of it.\<close>

lemma buf_args_spec:
  assumes b: "buf = s @ NUL # r" and nul: "NUL \<notin> set s"
  shows "\<exists>buf'. buf_args buf optfunc st = Some
    (if arg_fields s = [] \<or> MAXARGC - 1 < length (arg_fields s) then (-1, st, buf')
     else case optfunc (length (arg_fields s)) ((takeWhile white s @ hd (arg_fields s)) # tl (arg_fields s)) st of (rc, st) \<Rightarrow> (rc, st, buf'))"
proof (cases s rule: token_cases)
  case blank
  then show ?thesis using strtok_end [of 0 buf s r] b fields_all_white [OF blank] by (simp add: buf_args_def)
next
  case (token w k t)
  define c where "c = (if t = [] then NUL else hd t)"
  define u where "u = (if t = [] then [] else tl t)"
  have t: "t @ NUL # r = c # (if t = [] then r else u @ NUL # r)" by (simp add: c_def u_def)
  have b': "drop 0 buf = w @ k @ c # (if t = [] then r else u @ NUL # r)" using b token(1) t by simp
  have kn: "\<forall>c \<in> set k. \<not> white c \<and> c \<noteq> NUL" "white c \<or> c = NUL" and cn: "c = NUL \<longleftrightarrow> t = []"
    using token nul white_NUL by (auto simp: c_def split: if_splits)
  let ?e = "length w + length k"
  define b1 where "b1 = (if c = NUL then buf else buf[?e := NUL])"
  define sv where "sv = ?e + (if c = NUL then 0 else 1)"
  have st: "strtok buf 0 = Some (Some (length w), sv, b1)" using strtok_token [OF b' token(2,3) kn] by (simp add: sv_def b1_def)
  have el: "?e < length buf" "buf ! ?e = c" using drop_lt [of 0 buf "w @ k" c] b' by auto
  have f: "arg_fields s = k # arg_fields u" using fields_token [OF token(2-5)] fields_white [of "hd t" "tl t"] token(1,5) by (cases t) (auto simp: u_def)
  have du: "drop sv b1 = u @ NUL # r"
    using drop_at [of 0 buf "w @ k @ [c]" "u @ NUL # r"] drop_at [of 0 buf "w @ k" "NUL # r"] b' cn by (auto simp: sv_def b1_def u_def)
  have "NUL \<notin> set u" using token(1) nul by (cases t) (auto simp: u_def)
  from args_loop_spec [OF du this, of "[0]"] obtain ps b2 where i:
    "args_loop b1 sv [0] = Some (if length (arg_fields u) \<le> MAXARGC - 1 - length [0 :: nat] then Some ([0] @ ps) else None, b2)"
    "length (arg_fields u) \<le> MAXARGC - 1 - length [0 :: nat] \<longrightarrow> map (\<lambda>p. cstr (drop p b2)) ps = arg_fields u \<and> take sv b2 = take sv b1 \<and> length b2 = length b1 \<and>
      (\<forall>i < length b1. b1 ! i = NUL \<longrightarrow> b2 ! i = NUL)" by blast
  have tw: "takeWhile white s = w" using token by (cases k) (auto simp: takeWhile_append takeWhile_eq_all_conv [THEN iffD2])
  show ?thesis
  proof (cases "length (arg_fields u) \<le> MAXARGC - 1 - length [0 :: nat]")
    case True
    note i' = i(2) [rule_format, OF True]
    have same: "b2 ! i = b1 ! i" if "i < sv" for i using take_same i' that by blast
    have "cstr (drop 0 b2) = w @ k"
    proof (rule cstr_at)
      show "b2 ! (0 + j) = (w @ k) ! j" if "j < length (w @ k)" for j
        using same [of j] that b' by (auto simp: sv_def b1_def nth_append)
    qed (use el i' kn(1) token(2) white_NUL in \<open>auto simp: b1_def\<close>)
    moreover have "length (arg_fields u) = length ps" using arg_cong [OF i' [THEN conjunct1], of length] by simp
    ultimately show ?thesis using True st i(1) i' f tw by (auto simp: buf_args_def MAXARGC_def split: prod.splits)
  next
    case False
    then show ?thesis using st i(1) f by (auto simp: buf_args_def MAXARGC_def)
  qed
qed

end
