(* ===== verification/Fd_Passing.thy ===== *)
theory Fd_Passing
  imports Byte_Streams
begin

text \<open>
  Passing file descriptors over a UNIX domain socket: \<open>apue.3e/lib/sendfd.c\<close>, \<open>senderr.c\<close> and \<open>recvfd.c\<close> (and the copies
  \<open>apue/17.4send_fd.c\<close>, \<open>17.4send_err.c\<close>, \<open>17.4recv_fd.c\<close>). A message is a string of bytes with or without a descriptor. The protocol: any text
  without null bytes, then a null byte and a status byte; status 0 comes with a descriptor, any other status is an error.
\<close>

section \<open>Sending\<close>

text \<open>One end of a connection: what it has sent, and what the next writes will accept.\<close>

record conn =
  sent :: "(string \<times> int option) list"
  wevs :: "wev list"

definition sendmsg :: "string \<Rightarrow> int option \<Rightarrow> conn \<Rightarrow> int \<times> conn" where
  "sendmsg buf ctl c = (case sink_write buf (wevs c) of
       (Inr e, w) \<Rightarrow> (-1, c\<lparr>wevs := w\<rparr>)
     | (Inl k, w) \<Rightarrow> (int k, c\<lparr>sent := sent c @ [(take k buf, ctl)], wevs := w\<rparr>))"

text \<open>\<open>buf[1] = -fd_to_send\<close> keeps the low byte; the negation of the least \<open>int\<close> overflows.\<close>

definition send_fd :: "bool \<Rightarrow> int \<Rightarrow> conn \<Rightarrow> (int \<times> conn) option" where
  "send_fd malloc_ok fd_to_send c =
     (if fd_to_send < 0 then
        if fd_to_send = - (2 ^ 31) then None
        else let st = nat ((- fd_to_send) mod 256); st = (if st = 0 then 1 else st) in
          (case sendmsg [NUL, char_of st] None c of (n, c) \<Rightarrow> Some (if n \<noteq> 2 then -1 else 0, c))
      else if \<not> malloc_ok then Some (-1, c)
      else (case sendmsg [NUL, NUL] (Some fd_to_send) c of (n, c) \<Rightarrow> Some (if n \<noteq> 2 then -1 else 0, c)))"

definition send_err :: "bool \<Rightarrow> int \<Rightarrow> string \<Rightarrow> conn \<Rightarrow> (int \<times> conn) option" where
  "send_err malloc_ok errcode msg c =
     (let n = length msg;
        (ok, c) = (if n > 0 then
           (case writen msg (wevs c) of (k, d, w) \<Rightarrow> (k = int n, c\<lparr>sent := sent c @ [(d, None)], wevs := w\<rparr>))
           else (True, c))
      in if \<not> ok then Some (-1, c)
         else let errcode = (if errcode \<ge> 0 then -1 else errcode) in
           map_option (\<lambda>(r, c). (if r < 0 then -1 else 0, c)) (send_fd malloc_ok errcode c))"

section \<open>Receiving\<close>

definition MAXLINE :: nat where "MAXLINE = 4096"

text \<open>The loop over the bytes that one \<open>recvmsg\<close> has delivered. \<open>nr\<close> shrinks in the loop; \<^const>\<open>None\<close> is a call of \<open>err_dump\<close>.\<close>

function scan_status :: "string \<Rightarrow> int option \<Rightarrow> nat \<Rightarrow> nat \<Rightarrow> int \<Rightarrow> int \<Rightarrow> (nat \<times> int \<times> int) option" where
  "scan_status buf ctl ptr nr status newfd =
     (if ptr < nr then
        if buf ! ptr = NUL then
          if ptr + 1 \<noteq> nr - 1 then None
          else let status = of_char (buf ! (ptr + 1)) in
            if status = 0 then (case ctl of None \<Rightarrow> None | Some fd \<Rightarrow> scan_status buf ctl (ptr + 1) (nr - 2) status fd)
            else scan_status buf ctl (ptr + 1) (nr - 2) status (- status)
        else scan_status buf ctl (ptr + 1) nr status newfd
      else Some (nr, status, newfd))"
  by pat_completeness auto
termination
  by (relation "measure (\<lambda>(buf, ctl, ptr, nr, status, newfd). nr - ptr)") auto

declare scan_status.simps [simp del]

text \<open>What a call of \<open>recvmsg\<close> delivers: an error, or bytes and possibly a descriptor (no bytes at the end of the connection). The text is
  passed to \<open>userfunc\<close>, which may fail; what it got is the second result.\<close>

datatype rmsg = RecvErr | Recv string "int option"

fun recv_fd :: "bool \<Rightarrow> (string \<Rightarrow> bool) \<Rightarrow> rmsg list \<Rightarrow> string \<Rightarrow> (int \<times> string) option" where
  "recv_fd malloc_ok userfunc [] acc = Some (-1, acc)"
| "recv_fd malloc_ok userfunc (RecvErr # ms) acc = Some (-1, acc)"
| "recv_fd malloc_ok userfunc (Recv buf ctl # ms) acc =
     (if \<not> malloc_ok then Some (-1, acc)
      else if buf = [] then Some (-1, acc)
      else do {
        (nr, status, newfd) \<leftarrow> scan_status buf ctl 0 (length buf) (-1) 0;
        if nr > 0 \<and> \<not> userfunc (take nr buf) then Some (-1, acc)
        else let acc = acc @ take nr buf in
          if status \<ge> 0 then Some (newfd, acc) else recv_fd malloc_ok userfunc ms acc })"

section \<open>The protocol\<close>

text \<open>What the kernel may make of the messages: the bytes arrive in pieces of any sizes, which need not be those that were sent; the descriptor of the last message comes
  with its first byte.\<close>

fun attach :: "nat \<Rightarrow> int option \<Rightarrow> string list \<Rightarrow> rmsg list" where
  "attach k ctl [] = []"
| "attach k ctl (x # xs) = (if k < length x then Recv x ctl # map (\<lambda>y. Recv y None) xs else Recv x None # attach (k - length x) ctl xs)"

definition delivers :: "(string \<times> int option) list \<Rightarrow> rmsg list \<Rightarrow> bool" where
  "delivers out ms \<longleftrightarrow> (\<exists>fin ctl cs. out \<noteq> [] \<and> last out = (fin, ctl) \<and> length fin = 2 \<and> (\<forall>m \<in> set (butlast out). snd m = None) \<and>
     concat cs = concat (map fst out) \<and> [] \<notin> set cs \<and> ms = attach (length (concat (map fst (butlast out)))) ctl cs)"

text \<open>The null byte and the status byte at the end come in one piece.\<close>

definition together :: "rmsg list \<Rightarrow> bool" where
  "together ms \<longleftrightarrow> (case last ms of Recv b ctl \<Rightarrow> 2 \<le> length b | RecvErr \<Rightarrow> False)"

lemma attach_append: "length (concat xs) \<le> k \<Longrightarrow> attach k ctl (xs @ ys) = map (\<lambda>y. Recv y None) xs @ attach (k - length (concat xs)) ctl ys"
  by (induction xs arbitrary: k) auto

text \<open>Either the last piece holds both bytes, or it is the status byte alone and the piece before it ends with the null byte.\<close>

lemma delivers_cases:
  assumes "delivers out ms" "last out = ([a, b], ctl)" "d = concat (map fst (butlast out))"
  shows "if together ms then \<exists>cs pre. concat cs @ pre = d \<and> [] \<notin> set cs \<and> ms = map (\<lambda>x. Recv x None) cs @ [Recv (pre @ [a, b]) ctl]
    else \<exists>cs pre. concat cs @ pre = d \<and> [] \<notin> set cs \<and> ms = map (\<lambda>x. Recv x None) cs @ [Recv (pre @ [a]) ctl, Recv [b] None]"
proof -
  obtain cs where cs: "concat cs = d @ [a, b]" "[] \<notin> set cs" "ms = attach (length d) ctl cs"
  proof -
    obtain fin c cs where c: "out \<noteq> []" "last out = (fin, c)" "concat cs = concat (map fst out)" "[] \<notin> set cs" "ms = attach (length (concat (map fst (butlast out)))) c cs"
      using assms(1) by (auto simp: delivers_def)
    have "concat (map fst out) = d @ [a, b]" using c(1) assms(2,3) by (metis append_butlast_last_id concat.simps concat_append list.simps(8,9) map_append append_Nil2 fst_conv)
    then show ?thesis using that [of cs] c assms(2,3) by auto
  qed
  have "cs \<noteq> []" using cs(1) by auto
  then obtain xs l where xs: "cs = xs @ [l]" by (metis append_butlast_last_id)
  have l: "l \<noteq> []" using cs(2) xs by auto
  have e: "concat xs @ l = d @ [a, b]" using cs(1) xs by simp
  show ?thesis
  proof (cases "2 \<le> length l")
    case True
    then obtain pre where pre: "l = pre @ [a, b]" "concat xs @ pre = d" using e by (auto simp: append_eq_append_conv2 Cons_eq_append_conv append_eq_Cons_conv)
    have "length (concat xs) \<le> length d" "length d - length (concat xs) = length pre" using pre(2) by auto
    then have "ms = map (\<lambda>x. Recv x None) xs @ [Recv (pre @ [a, b]) ctl]" using cs(3) xs attach_append [of xs "length d" ctl "[l]"] pre(1) by simp
    moreover have "together ms" using calculation by (simp add: together_def)
    ultimately show ?thesis using pre(2) cs(2) xs by auto
  next
    case False
    then obtain x where x: "l = [x]" using l by (cases l) (auto simp: Suc_le_eq)
    then have f: "x = b" "concat xs = d @ [a]" using e by auto
    have "xs \<noteq> []" using f(2) by auto
    then obtain ys m where ys: "xs = ys @ [m]" by (metis append_butlast_last_id)
    have "m \<noteq> []" using cs(2) xs ys by auto
    then obtain pre where pre: "m = pre @ [a]" "concat ys @ pre = d" using f(2) ys by (metis append_assoc append_butlast_last_id append_same_eq butlast_append concat.simps(1) concat.simps(2) concat_append append_Nil2 last_appendR last_snoc)
    have "length (concat ys) \<le> length d" "length d - length (concat ys) = length pre" using pre(2) by auto
    then have "ms = map (\<lambda>x. Recv x None) ys @ [Recv (pre @ [a]) ctl, Recv [b] None]"
      using cs(3) xs ys x f(1) attach_append [of ys "length d" ctl "[m, l]"] pre(1) by simp
    moreover have "\<not> together ms" using calculation by (simp add: together_def)
    ultimately show ?thesis using pre(2) cs(2) xs ys by auto
  qed
qed

lemma scan_text:
  assumes "ptr \<le> nr" "nr \<le> length buf" "\<And>i. ptr \<le> i \<Longrightarrow> i < nr \<Longrightarrow> buf ! i \<noteq> NUL"
  shows "scan_status buf ctl ptr nr status newfd = Some (nr, status, newfd)"
  using assms
proof (induction "nr - ptr" arbitrary: ptr)
  case 0
  then show ?case by (subst scan_status.simps) simp
next
  case (Suc n)
  then show ?case by (subst scan_status.simps) auto
qed

lemma scan_final:
  assumes "ptr \<le> length pre" "NUL \<notin> set pre" and st: "st = of_char c" and ctl: "st = 0 \<Longrightarrow> ctl = Some fd"
  shows "scan_status (pre @ [NUL, c]) ctl ptr (length pre + 2) status newfd = Some (length pre, st, if st = 0 then fd else - st)"
  using assms(1)
proof (induction "length pre - ptr" arbitrary: ptr)
  case 0
  then have p: "ptr = length pre" by simp
  have end': "scan_status (pre @ [NUL, c]) g (Suc (length pre)) (length pre) s f = Some (length pre, s, f)" for g s f
    by (subst scan_status.simps) simp
  show ?case using st ctl by (subst scan_status.simps) (auto simp: p nth_append end' Let_def)
next
  case (Suc n)
  then have "ptr < length pre" by simp
  then have "(pre @ [NUL, c]) ! ptr \<noteq> NUL" using assms(2) by (auto simp: nth_append in_set_conv_nth)
  then show ?case using Suc by (subst scan_status.simps) simp
qed

text \<open>However the text is cut into pieces, the receiver passes all of it on and returns the descriptor or the negative status.\<close>

lemma recv_fd_pieces:
  assumes "\<forall>d \<in> set cs. d \<noteq> [] \<and> NUL \<notin> set d" "NUL \<notin> set pre" "st = of_char c" "st = 0 \<Longrightarrow> ctl = Some fd" "\<And>d. uf d"
  shows "recv_fd True uf (map (\<lambda>d. Recv d None) cs @ [Recv (pre @ [NUL, c]) ctl]) acc = Some (if st = 0 then fd else - st, acc @ concat cs @ pre)"
  using assms(1)
proof (induction cs arbitrary: acc)
  case Nil
  have "st = int (of_char c :: nat)" using assms(3) by (simp only: of_nat_of_char)
  then have "0 \<le> st" by simp
  then show ?case using scan_final [of 0 pre st c ctl fd "-1" 0] assms(2-5) by simp
next
  case (Cons d cs)
  have "scan_status d None 0 (length d) (-1) 0 = Some (length d, -1, 0)"
    by (rule scan_text) (use Cons.prems in \<open>auto simp: in_set_conv_nth\<close>)
  then show ?case using Cons assms(5) by simp
qed

text \<open>A piece that ends with the null byte makes the receiver call \<open>err_dump\<close>.\<close>

lemma scan_cut:
  assumes "ptr \<le> length pre" "NUL \<notin> set pre"
  shows "scan_status (pre @ [NUL]) ctl ptr (length pre + 1) status newfd = None"
  using assms(1)
proof (induction "length pre - ptr" arbitrary: ptr)
  case 0
  then have "ptr = length pre" by simp
  then show ?case by (subst scan_status.simps) simp
next
  case (Suc n)
  then have "ptr < length pre" by simp
  then have "(pre @ [NUL]) ! ptr \<noteq> NUL" using assms(2) by (auto simp: nth_append in_set_conv_nth)
  then show ?case using Suc by (subst scan_status.simps) simp
qed

lemma recv_fd_cut:
  assumes "\<forall>d \<in> set cs. d \<noteq> [] \<and> NUL \<notin> set d" "NUL \<notin> set pre" "\<And>d. uf d"
  shows "recv_fd True uf (map (\<lambda>d. Recv d None) cs @ Recv (pre @ [NUL]) ctl # ms) acc = None"
  using assms(1)
proof (induction cs arbitrary: acc)
  case Nil
  then show ?case using scan_cut [of 0 pre ctl "-1" 0] assms(2) by simp
next
  case (Cons d cs)
  have "scan_status d None 0 (length d) (-1) 0 = Some (length d, -1, 0)"
    by (rule scan_text) (use Cons.prems in \<open>auto simp: in_set_conv_nth\<close>)
  then show ?case using Cons assms(3) by simp
qed

text \<open>The status byte for an error code.\<close>

definition status_of :: "int \<Rightarrow> int" where
  "status_of e = (let k = (- e) mod 256 in if k = 0 then 1 else k)"

lemma status_char: "of_char (char_of (nat (status_of e)) :: char) = status_of e"
proof -
  have "0 \<le> status_of e" "status_of e < 256" using pos_mod_bound [of 256 "- e"] pos_mod_sign [of 256 "- e"] by (auto simp: status_of_def Let_def)
  then have "int (of_char (char_of (nat (status_of e)) :: char) :: nat) = status_of e" by simp
  then show ?thesis by (simp only: of_nat_of_char)
qed

lemma send_fd_ok:
  assumes "wevs c = []" "- (2 ^ 31) < e"
  shows "send_fd True e c = Some (0, c\<lparr>sent := sent c @ [if e < 0 then ([NUL, char_of (nat (status_of e))], None) else ([NUL, NUL], Some e)]\<rparr>)"
proof -
  have "(if nat (- e mod 256) = 0 then 1 else nat (- e mod 256)) = nat (status_of e)"
    using pos_mod_sign [of 256 "- e"] by (auto simp: status_of_def Let_def)
  then show ?thesis using assms by (simp add: send_fd_def sendmsg_def Let_def)
qed

lemma writen_unhindered: "writen s [] = (int (length s), s, [])"
proof (cases "s = []")
  case False
  then show ?thesis by (simp add: writen_def writen_loop.simps)
qed (simp add: writen_def writen_loop.simps)

lemma send_err_ok:
  assumes "wevs c = []" "- (2 ^ 31) < e"
  shows "send_err True e msg c = Some (0, c\<lparr>sent := sent c @ (if msg = [] then [] else [(msg, None)]) @
    [([NUL, char_of (nat (status_of (if 0 \<le> e then -1 else e)))], None)]\<rparr>)"
proof -
  have "send_err True e msg c = map_option (\<lambda>(r, c). (if r < 0 then -1 else 0, c))
      (send_fd True (if 0 \<le> e then -1 else e) (c\<lparr>sent := sent c @ (if msg = [] then [] else [(msg, None)]), wevs := []\<rparr>))"
    using assms(1) writen_unhindered [of msg] by (cases c) (auto simp: send_err_def Let_def)
  then show ?thesis using assms by (simp add: send_fd_ok)
qed

end
