(* ===== verification/Open_Server.thy ===== *)
theory Open_Server
  imports Open_Args Fd_Passing
begin

text \<open>
  The open server and its client: \<open>apue.3e/ipc2/opend/cliargs.c\<close> and \<open>request.c\<close>, \<open>apue.3e/ipc2/open/open.c\<close> (the copies in
  \<open>apue/17.6open_serv_2\<close> are the same up to logging). A client asks for a file by name and flags in one string; the server takes it apart, opens
  the file and passes the descriptor back, or an error text.
\<close>

section \<open>The server's side\<close>

record srv =
  errmsg :: string
  pathname :: string
  oflag :: int

definition CL_OPEN :: string where "CL_OPEN = ''open''"

definition usage :: string where "usage = ''usage: <pathname> <oflag>'' @ [NEWLINE]"

definition cli_args :: "nat \<Rightarrow> string list \<Rightarrow> srv \<Rightarrow> int \<times> srv" where
  "cli_args argc argv st =
     (if argc \<noteq> 3 \<or> argv ! 0 \<noteq> CL_OPEN then (-1, st\<lparr>errmsg := usage\<rparr>)
      else (0, st\<lparr>pathname := argv ! 1, oflag := atoi (argv ! 2)\<rparr>))"

definition dec_int :: "int \<Rightarrow> string" where
  "dec_int i = (if i < 0 then CHR ''-'' # dec (nat (- i)) else dec (nat i))"

text \<open>\<open>snprintf(errmsg, MAXLINE-1, ...)\<close>.\<close>

definition set_errmsg :: "string \<Rightarrow> srv \<Rightarrow> srv" where
  "set_errmsg s st = st\<lparr>errmsg := take (MAXLINE - 2) s\<rparr>"

definition unterminated :: "int \<Rightarrow> nat \<Rightarrow> string \<Rightarrow> string" where
  "unterminated uid nread buf = ''request from uid '' @ dec_int uid @ '' not null terminated: '' @ pad nread (take nread (cstr buf)) @ [NEWLINE]"

definition cant_open :: "string \<Rightarrow> string \<Rightarrow> string" where
  "cant_open path e = ''can'' @ [CHR 0x27] @ ''t open '' @ path @ '': '' @ e @ [NEWLINE]"

text \<open>\<open>open\<close> is a parameter: a descriptor, or the text of the error. The last result is the descriptors that the server has closed again;
  \<^const>\<open>None\<close> is the end of the server.\<close>

definition handle_request :: "(string \<Rightarrow> int \<Rightarrow> int + string) \<Rightarrow> bool \<Rightarrow> string \<Rightarrow> nat \<Rightarrow> int \<Rightarrow> srv \<Rightarrow> conn \<Rightarrow> (srv \<times> conn \<times> int list) option" where
  "handle_request open_file malloc_ok buf nread uid st c =
     (if nread = 0 \<or> length buf < nread then None
      else if buf ! (nread - 1) \<noteq> NUL then do {
        st \<leftarrow> Some (set_errmsg (unterminated uid nread buf) st);
        (_, c) \<leftarrow> send_err malloc_ok (-1) (errmsg st) c;
        Some (st, c, []) }
      else do {
        (rc, st, buf) \<leftarrow> buf_args buf cli_args st;
        if rc < 0 then do {
          (_, c) \<leftarrow> send_err malloc_ok (-1) (errmsg st) c;
          Some (st, c, []) }
        else (case open_file (pathname st) (oflag st) of
          Inr e \<Rightarrow> do {
            st \<leftarrow> Some (set_errmsg (cant_open (pathname st) e) st);
            (_, c) \<leftarrow> send_err malloc_ok (-1) (errmsg st) c;
            Some (st, c, []) }
        | Inl newfd \<Rightarrow> do {
            (r, c) \<leftarrow> send_fd malloc_ok newfd c;
            if r < 0 then None else Some (st, c, [newfd]) }) })"

section \<open>The client's side\<close>

text \<open>\<open>sprintf(buf, " %d", oflag)\<close> into a buffer of \<open>n\<close> bytes.\<close>

definition sprintf_flag :: "nat \<Rightarrow> int \<Rightarrow> string option" where
  "sprintf_flag n i = (let s = SPACE # dec_int i in if length s + 1 \<le> n then Some s else None)"

definition request :: "string \<Rightarrow> string \<Rightarrow> string" where
  "request name flagbuf = (CL_OPEN @ [SPACE]) @ name @ flagbuf @ [NUL]"

text \<open>The connection, the success of \<open>writev\<close> and what comes back for a request are parameters; the result is that of \<open>recv_fd\<close> with the text
  written to the standard error output.\<close>

definition csopen :: "bool \<Rightarrow> string \<Rightarrow> int \<Rightarrow> bool \<Rightarrow> (string \<Rightarrow> rmsg list) \<Rightarrow> (int \<times> string) option" where
  "csopen conn_ok name flag writev_ok serve =
     (if \<not> conn_ok then Some (-1, [])
      else do {
        buf \<leftarrow> sprintf_flag 12 flag;
        if \<not> writev_ok then Some (-1, [])
        else recv_fd True (\<lambda>_. True) (serve (request name buf)) [] })"

section \<open>Fields of a request\<close>

lemma arg_fields_append: "white c \<Longrightarrow> arg_fields (a @ c # b) = arg_fields a @ arg_fields b"
proof (induction a rule: length_induct)
  case (1 a)
  show ?case
  proof (cases a rule: token_cases)
    case blank
    then have "arg_fields (a @ c # b) = arg_fields b" using 1(2)
      by (induction a) (auto simp: fields_white)
    then show ?thesis using fields_all_white [OF blank] by simp
  next
    case (token w k t)
    have "arg_fields (w @ k @ (t @ c # b)) = k # arg_fields (t @ c # b)"
      by (rule fields_token) (use token 1(2) in \<open>auto simp: hd_append\<close>)
    moreover have "length t < length a" using token(1,3) by simp
    ultimately show ?thesis using 1 token fields_token [OF token(2-5)] by simp
  qed
qed

lemma arg_fields_word: "k \<noteq> [] \<Longrightarrow> \<forall>c \<in> set k. \<not> white c \<Longrightarrow> arg_fields k = [k]"
  using fields_token [of "[]" k "[]"] fields_all_white [of "[]"] by simp

lemma dec_int_facts: "dec_int i \<noteq> []" "\<forall>c \<in> set (dec_int i). \<not> white c" "NUL \<notin> set (dec_int i)"
proof -
  have d: "\<not> white c \<and> c \<noteq> NUL" if "c \<in> set (dec n)" for c n
    using isdigit_facts [OF dec_isdigit [OF that]] by (auto simp: WHITE_def isspace_def c_consts)
  show "dec_int i \<noteq> []" by (simp add: dec_int_def)
  show "\<forall>c \<in> set (dec_int i). \<not> white c" "NUL \<notin> set (dec_int i)" using d by (auto simp: dec_int_def WHITE_def c_consts)
qed

lemma atoi_dec_int:
  assumes "- (2 ^ 31) \<le> i" "i < 2 ^ 31"
  shows "atoi (dec_int i) = i"
proof (cases "i < 0")
  case True
  have "\<not> isspace (CHR ''-'')" by (simp add: isspace_def c_consts)
  moreover have "digits_val (dec (nat (- i))) = - i"
    using dec_isdigit [of _ "nat (- i)"] dec_value [of "nat (- i)"] True by (simp add: digits_val_def takeWhile_eq_all_conv [THEN iffD2])
  ultimately have "atol (dec_int i) = i" using True assms by (simp add: atol_def dec_int_def)
  then show ?thesis using assms by (simp add: atoi_def)
next
  case False
  then have "atol (dec_int i) = i" using atol_plain [of "nat i"] assms by (simp add: dec_int_def)
  then show ?thesis using assms by (simp add: atoi_def)
qed

lemma length_dec_int: "- (10 ^ 9) < i \<Longrightarrow> i < 10 ^ 10 \<Longrightarrow> length (dec_int i) \<le> 10"
  using length_dec [of "nat (- i)" 9] length_dec [of "nat i" 10] by (auto simp: dec_int_def)

lemma recv_answer:
  assumes "delivers ((if msg = [] then [] else [(msg, None)]) @ [([NUL, c], ctl)]) ms" "NUL \<notin> set msg" "st = of_char c" "st = 0 \<Longrightarrow> ctl = Some fd"
  shows "recv_fd True (\<lambda>_. True) ms [] = (if together ms then Some (if st = 0 then fd else - st, msg) else None)"
proof -
  have m: "msg = concat (map fst (butlast ((if msg = [] then [] else [(msg, None :: int option)]) @ [([NUL, c], ctl)])))" by simp
  note cases = delivers_cases [OF assms(1) _ m, of NUL c ctl, simplified]
  show ?thesis
  proof (cases "together ms")
    case True
    then obtain cs pre where c: "concat cs @ pre = msg" "[] \<notin> set cs" "ms = map (\<lambda>x. Recv x None) cs @ [Recv (pre @ [NUL, c]) ctl]" using cases by auto
    have "\<forall>d \<in> set cs. d \<noteq> [] \<and> NUL \<notin> set d" "NUL \<notin> set pre" using c(1,2) assms(2) by auto
    then show ?thesis using recv_fd_pieces [of cs pre st c ctl fd "\<lambda>_. True" "[]"] assms(3,4) c True by simp
  next
    case False
    then obtain cs pre where c: "concat cs @ pre = msg" "[] \<notin> set cs" "ms = map (\<lambda>x. Recv x None) cs @ Recv (pre @ [NUL]) ctl # [Recv [c] None]" using cases by auto
    have "\<forall>d \<in> set cs. d \<noteq> [] \<and> NUL \<notin> set d" "NUL \<notin> set pre" using c(1,2) assms(2) by auto
    then show ?thesis using recv_fd_cut [of cs pre "\<lambda>_. True" ctl "[Recv [c] None]" "[]"] c(3) False by simp
  qed
qed

lemma recv_error_text:
  assumes "delivers ((if msg = [] then [] else [(msg, None)]) @ [([NUL, char_of (nat (status_of (- 1)))], None)]) ms" "NUL \<notin> set msg"
  shows "recv_fd True (\<lambda>_. True) ms [] = (if together ms then Some (- 1, msg) else None)"
proof -
  have one: "status_of (- 1) = 1" by (simp add: status_of_def)
  have "recv_fd True (\<lambda>_. True) ms [] = (if together ms then Some (if status_of (- 1) = 0 then undefined else - status_of (- 1), msg) else None)"
    by (rule recv_answer [OF assms]) (simp only: status_char, simp only: one one_neq_zero)
  then show ?thesis using one by simp
qed

lemma recv_descriptor:
  assumes "delivers [([NUL, NUL], Some fd)] ms"
  shows "recv_fd True (\<lambda>_. True) ms [] = (if together ms then Some (fd, []) else None)"
  using recv_answer [of "[]" NUL "Some fd" ms 0 fd] assms by (simp add: NUL_def)

section \<open>A request and its answer\<close>

text \<open>What a client gets for a name: with more than 46 fields the error text of the last failed request, with other than one field
  the usage text, and otherwise the result of opening the field.\<close>

definition open_answer :: "(string \<Rightarrow> int \<Rightarrow> int + string) \<Rightarrow> srv \<Rightarrow> string \<Rightarrow> int \<Rightarrow> int \<times> string" where
  "open_answer open_file st name flag = (let fs = arg_fields name in
     if 47 < length fs then (-1, errmsg st)
     else if length fs \<noteq> 1 then (-1, usage)
     else case open_file (hd fs) flag of Inl fd \<Rightarrow> (fd, []) | Inr e \<Rightarrow> (-1, take (MAXLINE - 2) (cant_open (hd fs) e)))"

lemma request_fields:
  "arg_fields ((CL_OPEN @ [SPACE]) @ name @ SPACE # dec_int flag) = CL_OPEN # arg_fields name @ [dec_int flag]"
proof -
  have w: "white SPACE" by (simp add: WHITE_def)
  have "arg_fields CL_OPEN = [CL_OPEN]" by (rule arg_fields_word) (auto simp: CL_OPEN_def WHITE_def c_consts)
  moreover have "arg_fields (dec_int flag) = [dec_int flag]" by (rule arg_fields_word) (use dec_int_facts in auto)
  ultimately show ?thesis using arg_fields_append [OF w, of CL_OPEN "name @ SPACE # dec_int flag"] arg_fields_append [OF w, of name "dec_int flag"] by simp
qed

lemma arg_fields_set: "x \<in> set (arg_fields s) \<Longrightarrow> set x \<subseteq> set s"
proof (induction s arbitrary: x rule: length_induct)
  case (1 s)
  show ?case
  proof (cases s rule: token_cases)
    case blank
    then show ?thesis using 1(2) fields_all_white by auto
  next
    case (token w k t)
    then have "x = k \<or> x \<in> set (arg_fields t)" using 1(2) fields_token [OF token(2-5)] by auto
    moreover have "set x \<subseteq> set t" if "x \<in> set (arg_fields t)" using 1(1) token(1,3) that by simp
    ultimately show ?thesis using token(1) by auto
  qed
qed

lemma no_NUL_texts: "NUL \<notin> set usage" "NUL \<notin> set path \<Longrightarrow> NUL \<notin> set e \<Longrightarrow> NUL \<notin> set (take n (cant_open path e))"
  by (auto simp: usage_def cant_open_def c_consts dest: in_set_takeD)

lemma buf_args_request:
  assumes "NUL \<notin> set name"
  shows "\<exists>buf'. buf_args (((CL_OPEN @ [SPACE]) @ name @ SPACE # dec_int flag) @ NUL # r) cli_args st =
    Some (if 47 < length (arg_fields name) then (-1, st, buf')
      else case cli_args (length (arg_fields name) + 2) (CL_OPEN # arg_fields name @ [dec_int flag]) st of (rc, st) \<Rightarrow> (rc, st, buf'))"
proof -
  let ?s = "(CL_OPEN @ [SPACE]) @ name @ SPACE # dec_int flag"
  have n: "NUL \<notin> set ?s" using assms dec_int_facts(3) by (auto simp: CL_OPEN_def c_consts)
  have w: "takeWhile white ?s = []" by (simp add: CL_OPEN_def WHITE_def c_consts)
  obtain buf' where "buf_args (?s @ NUL # r) cli_args st = Some
      (if arg_fields ?s = [] \<or> MAXARGC - 1 < length (arg_fields ?s) then (-1, st, buf')
       else case cli_args (length (arg_fields ?s)) ((takeWhile white ?s @ hd (arg_fields ?s)) # tl (arg_fields ?s)) st of (rc, st) \<Rightarrow> (rc, st, buf'))"
    using buf_args_spec [of "?s @ NUL # r" ?s r cli_args st] n by blast
  then show ?thesis unfolding request_fields w by (intro exI [of _ buf']) (simp add: MAXARGC_def)
qed

text \<open>C11: The client of the open server gets what opening the file gives: its request is taken apart by the server into the name and the flags, the file is opened with
  them, and the client receives the new descriptor, which the server then closes, or -1 and the whole error text. The answer may be cut into pieces at any place but one: exactly if
  the null byte and the status byte that end it arrive separately, the client calls \<open>err_dump\<close>. This holds for names that are one field; a name with white space inside gets the usage text, white space
  around a name is lost, and a name of more than 47 fields gets the error text that the server sent last.\<close>

theorem open_roundtrip:
  assumes "NUL \<notin> set name" "- (10 ^ 9) < flag" "flag < 2 ^ 31" "NUL \<notin> set (errmsg st)"
    "\<And>p fl. case open_file p fl of Inl fd \<Rightarrow> 0 \<le> fd | Inr e \<Rightarrow> NUL \<notin> set e"
  shows "\<exists>req st' c' closed. req = request name (SPACE # dec_int flag) \<and>
    handle_request open_file True (req @ rest) (length req) uid st \<lparr>sent = [], wevs = []\<rparr> = Some (st', c', closed) \<and>
    (\<forall>ms. delivers (sent c') ms \<longrightarrow> csopen True name flag True (\<lambda>r. if r = req then ms else []) =
      (if together ms then Some (open_answer open_file st name flag) else None)) \<and>
    closed = (if 0 \<le> fst (open_answer open_file st name flag) then [fst (open_answer open_file st name flag)] else [])"
proof -
  define req where "req = ((CL_OPEN @ [SPACE]) @ name @ SPACE # dec_int flag) @ [NUL]"
  have rq: "request name (SPACE # dec_int flag) = req" by (simp add: request_def req_def)
  let ?c = "\<lparr>sent = [], wevs = []\<rparr>" and ?fs = "arg_fields name"
  have cs: "csopen True name flag True (\<lambda>r. if r = req then ms else []) = recv_fd True (\<lambda>_. True) ms []" for ms
    using length_dec_int [of flag] assms(2,3) rq by (simp add: csopen_def sprintf_flag_def)
  have len: "req \<noteq> []" "(req @ rest) ! (length req - 1) = NUL" by (auto simp: req_def nth_append)
  obtain buf' where b: "buf_args (req @ rest) cli_args st = Some (if 47 < length ?fs then (-1, st, buf')
      else case cli_args (length ?fs + 2) (CL_OPEN # ?fs @ [dec_int flag]) st of (rc, st) \<Rightarrow> (rc, st, buf'))"
    using buf_args_request [OF assms(1), of flag rest st] by (auto simp: req_def)
  have err: ?thesis if h: "handle_request open_file True (req @ rest) (length req) uid st ?c =
      do { (_, c) \<leftarrow> send_err True (-1) msg ?c; Some (st', c, []) }" and n: "NUL \<notin> set msg" and a: "open_answer open_file st name flag = (-1, msg)" for msg st'
    using h recv_error_text [OF _ n] a cs rq by (simp add: send_err_ok)
  consider "47 < length ?fs" | "length ?fs \<le> 47" "length ?fs \<noteq> 1" | "length ?fs = 1" by linarith
  then show ?thesis
  proof cases
    case 1
    show ?thesis by (rule err [of "errmsg st" st]) (use 1 b len assms(4) in \<open>auto simp: handle_request_def open_answer_def\<close>)
  next
    case 2
    show ?thesis by (rule err [of usage "st\<lparr>errmsg := usage\<rparr>"]) (use 2 b len no_NUL_texts in \<open>auto simp: handle_request_def open_answer_def cli_args_def\<close>)
  next
    case 3
    then obtain f where f: "?fs = [f]" by (auto simp: length_Suc_conv)
    have nf: "NUL \<notin> set f" using arg_fields_set [of f name] f assms(1) by auto
    have args: "buf_args (req @ rest) cli_args st = Some (0, st\<lparr>pathname := f, oflag := flag\<rparr>, buf')"
      using b f atoi_dec_int [of flag] assms(2,3) by (simp add: cli_args_def)
    show ?thesis
    proof (cases "open_file f flag")
      case (Inl fd)
      then have fd: "0 \<le> fd" using assms(5) [of f flag] by simp
      then have "handle_request open_file True (req @ rest) (length req) uid st ?c = Some (st\<lparr>pathname := f, oflag := flag\<rparr>, ?c\<lparr>sent := [([NUL, NUL], Some fd)]\<rparr>, [fd])"
        using args Inl len by (simp add: handle_request_def send_fd_ok)
      then show ?thesis using Inl f fd recv_descriptor cs rq by (simp add: open_answer_def)
    next
      case (Inr e)
      let ?st = "set_errmsg (cant_open f e) (st\<lparr>pathname := f, oflag := flag\<rparr>)"
      show ?thesis by (rule err [of "take (MAXLINE - 2) (cant_open f e)" ?st])
          (use args Inr f len nf no_NUL_texts(2) [OF nf] assms(5) [of f flag] in \<open>auto simp: handle_request_def open_answer_def set_errmsg_def\<close>)
    qed
  qed
qed

theorem open_roundtrip_witness:
  "\<exists>req st' c'. handle_request (\<lambda>p fl. if p = ''f'' then Inl 7 else Inr ''No such file'') True req (length req) 42
       \<lparr>errmsg = [], pathname = [], oflag = 0\<rparr> \<lparr>sent = [], wevs = []\<rparr> = Some (st', c', [7]) \<and>
     (\<forall>ms. delivers (sent c') ms \<longrightarrow> csopen True ''f'' 0 True (\<lambda>r. if r = req then ms else []) = (if together ms then Some (7, []) else None))"
proof -
  have "arg_fields ''f'' = [''f'']" by (rule arg_fields_word) (auto simp: WHITE_def c_consts)
  then have a: "open_answer (\<lambda>p fl. if p = ''f'' then Inl 7 else Inr ''No such file'') \<lparr>errmsg = [], pathname = [], oflag = 0\<rparr> ''f'' 0 = (7, [])"
    by (simp add: open_answer_def)
  have "\<exists>req st' c' closed. req = request ''f'' (SPACE # dec_int 0) \<and>
    handle_request (\<lambda>p fl. if p = ''f'' then Inl 7 else Inr ''No such file'') True (req @ []) (length req) 42
      \<lparr>errmsg = [], pathname = [], oflag = 0\<rparr> \<lparr>sent = [], wevs = []\<rparr> = Some (st', c', closed) \<and>
    (\<forall>ms. delivers (sent c') ms \<longrightarrow> csopen True ''f'' 0 True (\<lambda>r. if r = req then ms else []) =
       (if together ms then Some (open_answer (\<lambda>p fl. if p = ''f'' then Inl 7 else Inr ''No such file'') \<lparr>errmsg = [], pathname = [], oflag = 0\<rparr> ''f'' 0) else None)) \<and>
    closed = (if 0 \<le> fst (open_answer (\<lambda>p fl. if p = ''f'' then Inl 7 else Inr ''No such file'') \<lparr>errmsg = [], pathname = [], oflag = 0\<rparr> ''f'' 0)
      then [fst (open_answer (\<lambda>p fl. if p = ''f'' then Inl 7 else Inr ''No such file'') \<lparr>errmsg = [], pathname = [], oflag = 0\<rparr> ''f'' 0)] else [])"
    by (rule open_roundtrip) (simp_all add: c_consts)
  then obtain req st' c' where w: "handle_request (\<lambda>p fl. if p = ''f'' then Inl 7 else Inr ''No such file'') True req (length req) 42
      \<lparr>errmsg = [], pathname = [], oflag = 0\<rparr> \<lparr>sent = [], wevs = []\<rparr> = Some (st', c', [7])"
    "\<forall>ms. delivers (sent c') ms \<longrightarrow> csopen True ''f'' 0 True (\<lambda>r. if r = req then ms else []) = (if together ms then Some (7, []) else None)"
    unfolding a by auto
  then show ?thesis by blast
qed

end
