(* ===== verification/Open_Loop.thy ===== *)
theory Open_Loop
  imports C_Library
begin

text \<open>
  The main loops of the open server: the table of clients (\<open>apue.3e/ipc2/opend/client.c\<close>), the loop with \<open>select\<close> (\<open>loop.select.c\<close>)
  and the loop with \<open>poll\<close> (\<open>loop.poll.c\<close>), and the copies in \<open>apue/17.6open_serv_2\<close>. A round of a loop is told which descriptors are ready and what
  reading them gives; its result is the calls of \<open>handle_request\<close> and the connections that it closes.
\<close>

section \<open>The table of clients\<close>

text \<open>Entries are a descriptor, -1 for a free one, and a user. An empty list is the null pointer before the first allocation.\<close>

type_synonym clients = "(int \<times> int) list"

definition NALLOC :: nat where "NALLOC = 10"

definition client_alloc :: "bool \<Rightarrow> clients \<Rightarrow> clients option" where
  "client_alloc alloc_ok cl = (if alloc_ok then Some (cl @ replicate NALLOC (-1, 0)) else None)"

text \<open>The loops that look for the first entry with a descriptor.\<close>

fun find_slot :: "int \<Rightarrow> clients \<Rightarrow> nat option" where
  "find_slot fd [] = None"
| "find_slot fd ((f, u) # cl) = (if f = fd then Some 0 else map_option Suc (find_slot fd cl))"

lemma find_slot_None: "find_slot fd cl = None \<longleftrightarrow> fd \<notin> fst ` set cl"
  by (induction fd cl rule: find_slot.induct) auto

lemma find_slot_Some: "find_slot fd cl = Some i \<Longrightarrow> i < length cl \<and> fst (cl ! i) = fd"
  by (induction fd cl arbitrary: i rule: find_slot.induct) (auto split: if_splits)

lemma find_slot_alloc: "client_alloc ok cl = Some cl' \<Longrightarrow> find_slot (-1) cl' \<noteq> None"
  by (auto simp: find_slot_None client_alloc_def NALLOC_def image_Un split: if_splits)

text \<open>The search from the label \<open>again\<close> on: it is repeated after the table has grown.\<close>

function add_loop :: "bool \<Rightarrow> int \<Rightarrow> int \<Rightarrow> clients \<Rightarrow> (nat \<times> clients) option" where
  "add_loop alloc_ok fd uid cl = (case find_slot (-1) cl of
       Some i \<Rightarrow> Some (i, cl[i := (fd, uid)])
     | None \<Rightarrow> do { cl \<leftarrow> client_alloc alloc_ok cl; add_loop alloc_ok fd uid cl })"
  by pat_completeness auto
termination
  by (relation "measure (\<lambda>(ok, fd, uid, cl). if find_slot (-1) cl = None then 1 else 0)") (auto dest: find_slot_alloc)

declare add_loop.simps [simp del]

definition client_add :: "bool \<Rightarrow> int \<Rightarrow> int \<Rightarrow> clients \<Rightarrow> (nat \<times> clients) option" where
  "client_add alloc_ok fd uid cl = do {
     cl \<leftarrow> (if cl = [] then client_alloc alloc_ok cl else Some cl);
     add_loop alloc_ok fd uid cl }"

definition client_del :: "int \<Rightarrow> clients \<Rightarrow> clients option" where
  "client_del fd cl = (case find_slot fd cl of Some i \<Rightarrow> Some (cl[i := (-1, snd (cl ! i))]) | None \<Rightarrow> None)"

section \<open>The loop with select\<close>

text \<open>What a ready descriptor gives: a hang-up, the end of the data, an error of \<open>read\<close>, or a request.\<close>

datatype event = Hup | Eof | ReadError | Data string

datatype act = Served int int string | Closed int

text \<open>A round: the connection that is accepted, if the listening descriptor is ready, and what the other descriptors have.\<close>

type_synonym input = "(int \<times> int) option \<times> (int \<Rightarrow> event option)"

definition FD_SETSIZE :: int where "FD_SETSIZE = 1024"

record selst =
  listenfd :: int
  client :: clients
  allset :: "int set"
  maxfd :: int
  maxi :: int

text \<open>The call \<open>select(maxfd + 1, &rset, ...)\<close> with \<open>rset = allset\<close>: only the descriptors of the set up to \<open>maxfd\<close> are examined. The set that it leaves is
  given with what reading its members gives.\<close>

definition examined :: "selst \<Rightarrow> int \<Rightarrow> bool" where
  "examined st fd \<longleftrightarrow> fd \<in> allset st \<and> fd < maxfd st + 1"

definition select_fds :: "selst \<Rightarrow> (int \<Rightarrow> event option) \<Rightarrow> int \<Rightarrow> event option" where
  "select_fds st ready fd = (if examined st fd then ready fd else None)"

function select_scan :: "(int \<Rightarrow> event option) \<Rightarrow> nat \<Rightarrow> selst \<Rightarrow> act list \<Rightarrow> (selst \<times> act list) option" where
  "select_scan rset i st acts =
     (if int i \<le> maxi st then
        if length (client st) \<le> i then None
        else let (clifd, uid) = client st ! i in
          if clifd < 0 then select_scan rset (i + 1) st acts
          else (case rset clifd of
             None \<Rightarrow> select_scan rset (i + 1) st acts
           | Some ReadError \<Rightarrow> None
           | Some (Data d) \<Rightarrow> select_scan rset (i + 1) st (acts @ [Served clifd uid d])
           | Some _ \<Rightarrow> do {
               cl \<leftarrow> client_del clifd (client st);
               select_scan rset (i + 1) (st\<lparr>client := cl, allset := allset st - {clifd}\<rparr>) (acts @ [Closed clifd]) })
      else Some (st, acts))"
  by pat_completeness auto
termination
  by (relation "measure (\<lambda>(rset, i, st, acts). nat (maxi st + 1 - int i))") auto

declare select_scan.simps [simp del]

definition select_start :: "int \<Rightarrow> selst option" where
  "select_start lfd = (if lfd < 0 \<or> lfd \<ge> FD_SETSIZE then None
     else Some \<lparr>listenfd = lfd, client = [], allset = {lfd}, maxfd = lfd, maxi = -1\<rparr>)"

definition select_round :: "bool \<Rightarrow> input \<Rightarrow> selst \<Rightarrow> (selst \<times> act list) option" where
  "select_round alloc_ok = (\<lambda>(accept, ready) st. case (if examined st (listenfd st) then accept else None) of
       Some (clifd, uid) \<Rightarrow>
         if clifd < 0 then None
         else do {
           (i, cl) \<leftarrow> client_add alloc_ok clifd uid (client st);
           if clifd \<ge> FD_SETSIZE then None
           else Some (st\<lparr>client := cl, allset := insert clifd (allset st), maxfd := (if clifd > maxfd st then clifd else maxfd st),
             maxi := (if int i > maxi st then int i else maxi st)\<rparr>, []) }
     | None \<Rightarrow> select_scan (select_fds st ready) 0 st [])"

fun select_loop :: "bool \<Rightarrow> input list \<Rightarrow> selst \<Rightarrow> (selst \<times> act list list) option" where
  "select_loop alloc_ok [] st = Some (st, [])"
| "select_loop alloc_ok (r # rs) st = do {
     (st, acts) \<leftarrow> select_round alloc_ok r st;
     (st, rest) \<leftarrow> select_loop alloc_ok rs st;
     Some (st, acts # rest) }"

section \<open>The loop with poll\<close>

text \<open>The array of \<open>pollfd\<close> with the events found; its length is the code's \<open>maxfd\<close>.\<close>

record pollst =
  pclient :: clients
  pollfd :: "(int \<times> event option) list"
  numfd :: nat

definition grow_pollfd :: "bool \<Rightarrow> (int \<times> event option) list \<Rightarrow> (int \<times> event option) list option" where
  "grow_pollfd alloc_ok pfd = (if alloc_ok then Some (pfd @ replicate NALLOC (-1, None)) else None)"

definition poll_start :: "bool \<Rightarrow> int \<Rightarrow> pollst option" where
  "poll_start alloc_ok lfd = do {
     pfd \<leftarrow> (if alloc_ok then Some (replicate NALLOC (-1, None)) else None);
     if lfd < 0 then None
     else do {
       (_, cl) \<leftarrow> client_add alloc_ok lfd 0 [];
       Some \<lparr>pclient = cl, pollfd = pfd[0 := (lfd, None)], numfd = 1\<rparr> } }"

function poll_scan :: "nat \<Rightarrow> pollst \<Rightarrow> act list \<Rightarrow> (pollst \<times> act list) option" where
  "poll_scan i st acts =
     (if i < numfd st then
        if length (pollfd st) \<le> i \<or> length (pclient st) \<le> i then None
        else (case pollfd st ! i of (fd, revents) \<Rightarrow>
          (case revents of
             None \<Rightarrow> poll_scan (i + 1) st acts
           | Some ReadError \<Rightarrow> None
           | Some (Data d) \<Rightarrow> poll_scan (i + 1) st (acts @ [Served fd (snd (pclient st ! i)) d])
           | Some _ \<Rightarrow> do {
               cl \<leftarrow> client_del fd (pclient st);
               if i < numfd st - 1 then
                 if length (pollfd st) \<le> numfd st - 1 then None
                 else poll_scan i (st\<lparr>pclient := cl, pollfd := (pollfd st)[i := pollfd st ! (numfd st - 1)], numfd := numfd st - 1\<rparr>) (acts @ [Closed fd])
               else poll_scan (i + 1) (st\<lparr>pclient := cl, numfd := numfd st - 1\<rparr>) (acts @ [Closed fd]) }))
      else Some (st, acts))"
  by pat_completeness auto
termination
  by (relation "measure (\<lambda>(i, st, acts). numfd st - i)") auto

declare poll_scan.simps [simp del]

definition poll_round :: "bool \<Rightarrow> input \<Rightarrow> pollst \<Rightarrow> (pollst \<times> act list) option" where
  "poll_round alloc_ok = (\<lambda>(accept, ready) st. do {
     st \<leftarrow> Some (st\<lparr>pollfd := map (\<lambda>(fd, _). (fd, ready fd)) (take (numfd st) (pollfd st)) @ drop (numfd st) (pollfd st)\<rparr>);
     st \<leftarrow> (case accept of
         None \<Rightarrow> Some st
       | Some (clifd, uid) \<Rightarrow>
           if clifd < 0 then None
           else do {
             (_, cl) \<leftarrow> client_add alloc_ok clifd uid (pclient st);
             pfd \<leftarrow> (if numfd st = length (pollfd st) then grow_pollfd alloc_ok (pollfd st) else Some (pollfd st));
             pfd \<leftarrow> wr pfd (numfd st) (clifd, None);
             Some (st\<lparr>pclient := cl, pollfd := pfd, numfd := numfd st + 1\<rparr>) });
     poll_scan 1 st [] })"

fun poll_loop :: "bool \<Rightarrow> input list \<Rightarrow> pollst \<Rightarrow> (pollst \<times> act list list) option" where
  "poll_loop alloc_ok [] st = Some (st, [])"
| "poll_loop alloc_ok (r # rs) st = do {
     (st, acts) \<leftarrow> poll_round alloc_ok r st;
     (st, rest) \<leftarrow> poll_loop alloc_ok rs st;
     Some (st, acts # rest) }"

section \<open>The table represents the open connections\<close>

text \<open>The open connections with their users.\<close>

definition tab :: "clients \<Rightarrow> (int \<Rightarrow> int option) \<Rightarrow> bool" where
  "tab cl cs \<longleftrightarrow> (\<forall>i j. i < length cl \<longrightarrow> j < length cl \<longrightarrow> 0 \<le> fst (cl ! i) \<longrightarrow> fst (cl ! i) = fst (cl ! j) \<longrightarrow> i = j) \<and>
     (\<forall>fd uid. cs fd = Some uid \<longleftrightarrow> 0 \<le> fd \<and> (fd, uid) \<in> set cl) \<and> (\<forall>i < length cl. -1 \<le> fst (cl ! i))"

lemma tab_inj: "tab cl cs \<Longrightarrow> i < length cl \<Longrightarrow> j < length cl \<Longrightarrow> 0 \<le> fst (cl ! i) \<Longrightarrow> fst (cl ! i) = fst (cl ! j) \<Longrightarrow> i = j"
  unfolding tab_def by blast

lemma tab_conns: "tab cl cs \<Longrightarrow> cs fd = Some uid \<longleftrightarrow> 0 \<le> fd \<and> (fd, uid) \<in> set cl"
  unfolding tab_def by blast

lemma tab_empty: "tab [] Map.empty"
  by (simp add: tab_def)

lemma tab_alloc: "client_alloc ok cl = Some cl' \<Longrightarrow> tab cl cs \<Longrightarrow> tab cl' cs"
  by (auto simp: tab_def client_alloc_def NALLOC_def nth_append split: if_splits)

text \<open>Replacing an entry without a connection.\<close>

lemma tab_set:
  assumes t: "tab cl cs" and i: "i < length cl" "fst (cl ! i) = -1" and fd: "0 \<le> fd" "cs fd = None"
  shows "tab (cl[i := (fd, uid)]) (cs(fd \<mapsto> uid))"
proof -
  have nf: "fst (cl ! j) \<noteq> fd" if "j < length cl" for j
    using tab_conns [OF t, of fd "snd (cl ! j)"] fd that nth_mem [OF that] by (metis option.distinct(1) prod.collapse)
  have s: "(a, u) \<in> set (cl[i := (fd, uid)]) \<longleftrightarrow> (a, u) = (fd, uid) \<or> (a, u) \<in> set cl \<and> a \<noteq> fd" if "0 \<le> a" for a u
  proof
    assume "(a, u) \<in> set (cl[i := (fd, uid)])"
    then obtain j where "j < length cl" "cl[i := (fd, uid)] ! j = (a, u)" by (auto simp: in_set_conv_nth)
    then show "(a, u) = (fd, uid) \<or> (a, u) \<in> set cl \<and> a \<noteq> fd" using nf [of j] i(1) by (cases "j = i") (auto simp: in_set_conv_nth)
  next
    assume "(a, u) = (fd, uid) \<or> (a, u) \<in> set cl \<and> a \<noteq> fd"
    then show "(a, u) \<in> set (cl[i := (fd, uid)])"
    proof
      assume "(a, u) = (fd, uid)"
      then show ?thesis using set_update_memI [OF i(1), of "(fd, uid)"] by simp
    next
      assume a: "(a, u) \<in> set cl \<and> a \<noteq> fd"
      then obtain j where j: "j < length cl" "cl ! j = (a, u)" by (auto simp: in_set_conv_nth)
      then have "j \<noteq> i" using i(2) that by auto
      then have "cl[i := (fd, uid)] ! j = (a, u)" using j by simp
      then show ?thesis using j(1) by (metis length_list_update nth_mem)
    qed
  qed
  show ?thesis unfolding tab_def
  proof (intro conjI allI impI)
    fix j k assume "j < length (cl[i := (fd, uid)])" "k < length (cl[i := (fd, uid)])" "0 \<le> fst (cl[i := (fd, uid)] ! j)"
      "fst (cl[i := (fd, uid)] ! j) = fst (cl[i := (fd, uid)] ! k)"
    then show "j = k" using tab_inj [OF t, of j k] nf [of j] nf [of k] i(1) by (cases "j = i"; cases "k = i") auto
  next
    show "((cs(fd \<mapsto> uid)) a = Some u) = (0 \<le> a \<and> (a, u) \<in> set (cl[i := (fd, uid)]))" for a u
      using tab_conns [OF t, of a u] s [of a u] fd by auto
  next
    show "-1 \<le> fst (cl[i := (fd, uid)] ! j)" if "j < length (cl[i := (fd, uid)])" for j
      using that t fd i by (cases "j = i") (auto simp: tab_def)
  qed
qed

lemma add_loop_tab:
  assumes "tab cl cs" "0 \<le> fd" "cs fd = None"
  shows "\<exists>i cl'. add_loop True fd uid cl = Some (i, cl') \<and> tab cl' (cs(fd \<mapsto> uid)) \<and> i < length cl' \<and> cl' ! i = (fd, uid) \<and>
    length cl \<le> length cl' \<and> (\<forall>j < length cl'. j \<noteq> i \<longrightarrow> 0 \<le> fst (cl' ! j) \<longrightarrow> j < length cl \<and> cl' ! j = cl ! j)"
proof -
  have found: ?thesis if "find_slot (-1) cl' = Some i" "tab cl' cs" "length cl \<le> length cl'"
      "add_loop True fd uid cl = add_loop True fd uid cl'" "\<forall>j < length cl'. 0 \<le> fst (cl' ! j) \<longrightarrow> j < length cl \<and> cl' ! j = cl ! j" for i cl'
    using find_slot_Some [OF that(1)] tab_set [OF that(2) _ _ assms(2,3), of i uid] that
    by (intro exI [of _ i] exI [of _ "cl'[i := (fd, uid)]"]) (auto simp: add_loop.simps [of True fd uid cl'])
  show ?thesis
  proof (cases "find_slot (-1) cl")
    case (Some i)
    then show ?thesis using found [of cl i] assms(1) by simp
  next
    case None
    let ?cl = "cl @ replicate NALLOC (-1, 0)"
    have a: "client_alloc True cl = Some ?cl" by (simp add: client_alloc_def)
    obtain i where i: "find_slot (-1) ?cl = Some i" using find_slot_alloc [OF a] by auto
    show ?thesis
      by (rule found [OF i tab_alloc [OF a assms(1)]]) (use None a in \<open>auto simp: add_loop.simps [of True fd uid cl] nth_append\<close>)
  qed
qed

lemma client_add_tab:
  assumes "tab cl cs" "0 \<le> fd" "cs fd = None"
  shows "\<exists>i cl'. client_add True fd uid cl = Some (i, cl') \<and> tab cl' (cs(fd \<mapsto> uid)) \<and> i < length cl' \<and> cl' ! i = (fd, uid) \<and>
    length cl \<le> length cl' \<and> (\<forall>j < length cl'. j \<noteq> i \<longrightarrow> 0 \<le> fst (cl' ! j) \<longrightarrow> j < length cl \<and> cl' ! j = cl ! j)"
proof (cases "cl = []")
  case True
  let ?cl = "replicate NALLOC (-1, 0)"
  have a: "client_alloc True [] = Some ?cl" by (simp add: client_alloc_def)
  have t: "tab ?cl cs" using tab_alloc [OF a] assms(1) True by simp
  from add_loop_tab [OF t assms(2,3), of uid] obtain i cl' where i: "add_loop True fd uid ?cl = Some (i, cl')" "tab cl' (cs(fd \<mapsto> uid))"
    "i < length cl'" "cl' ! i = (fd, uid)" "\<forall>j < length cl'. j \<noteq> i \<longrightarrow> 0 \<le> fst (cl' ! j) \<longrightarrow> j < NALLOC \<and> cl' ! j = ?cl ! j" by auto
  moreover have "\<not> 0 \<le> fst (cl' ! j)" if "j < length cl'" "j \<noteq> i" for j using i(5) that by force
  ultimately show ?thesis using True a by (auto simp: client_add_def)
next
  case False
  then show ?thesis using add_loop_tab [OF assms, of uid] by (simp add: client_add_def)
qed

text \<open>Deleting a client frees its own entry.\<close>

lemma client_del_tab:
  assumes t: "tab cl cs" and i: "i < length cl" "cl ! i = (fd, uid)" "0 \<le> fd"
  shows "client_del fd cl = Some (cl[i := (-1, uid)])" "tab (cl[i := (-1, uid)]) (cs(fd := None))"
proof -
  have "fd \<in> fst ` set cl" using i by (force simp: in_set_conv_nth)
  then obtain k where k: "find_slot fd cl = Some k" using find_slot_None [of fd cl] by auto
  then have "k = i" using find_slot_Some [OF k] tab_inj [OF t i(1), of k] i by auto
  then show "client_del fd cl = Some (cl[i := (-1, uid)])" using k i by (simp add: client_del_def)
  have s: "(a, u) \<in> set (cl[i := (-1, uid)]) \<longleftrightarrow> (a, u) \<in> set cl \<and> a \<noteq> fd" if "0 \<le> a" for a u
  proof
    assume "(a, u) \<in> set (cl[i := (-1, uid)])"
    then obtain j where j: "j < length cl" "cl[i := (-1, uid)] ! j = (a, u)" by (auto simp: in_set_conv_nth)
    then have "j \<noteq> i" using that i(1) by auto
    then show "(a, u) \<in> set cl \<and> a \<noteq> fd" using j tab_inj [OF t i(1) j(1)] i by (auto simp: in_set_conv_nth)
  next
    assume a: "(a, u) \<in> set cl \<and> a \<noteq> fd"
    then obtain j where j: "j < length cl" "cl ! j = (a, u)" by (auto simp: in_set_conv_nth)
    then have "j \<noteq> i" using i(2) a by auto
    then have "cl[i := (-1, uid)] ! j = (a, u)" using j by simp
    then show "(a, u) \<in> set (cl[i := (-1, uid)])" using j(1) by (metis length_list_update nth_mem)
  qed
  show "tab (cl[i := (-1, uid)]) (cs(fd := None))" unfolding tab_def
  proof (intro conjI allI impI)
    fix j k assume "j < length (cl[i := (-1, uid)])" "k < length (cl[i := (-1, uid)])" "0 \<le> fst (cl[i := (-1, uid)] ! j)"
      "fst (cl[i := (-1, uid)] ! j) = fst (cl[i := (-1, uid)] ! k)"
    then show "j = k" using tab_inj [OF t, of j k] i(1) by (cases "j = i"; cases "k = i") auto
  next
    show "((cs(fd := None)) a = Some u) = (0 \<le> a \<and> (a, u) \<in> set (cl[i := (-1, uid)]))" for a u
      using tab_conns [OF t, of a u] s [of a u] by auto
  next
    show "-1 \<le> fst (cl[i := (-1, uid)] ! j)" if "j < length (cl[i := (-1, uid)])" for j
      using that t i by (cases "j = i") (auto simp: tab_def)
  qed
qed

section \<open>What a round does\<close>

text \<open>The calls and closings that the ready connections call for, and the connections afterwards.\<close>

definition closing :: "(int \<Rightarrow> event option) \<Rightarrow> int \<Rightarrow> bool" where
  "closing ready fd \<longleftrightarrow> ready fd = Some Hup \<or> ready fd = Some Eof"

definition due :: "(int \<Rightarrow> int option) \<Rightarrow> (int \<Rightarrow> event option) \<Rightarrow> act set" where
  "due cs ready = {Served fd uid d | fd uid d. cs fd = Some uid \<and> ready fd = Some (Data d)} \<union> {Closed fd | fd. cs fd \<noteq> None \<and> closing ready fd}"

definition fds_from :: "nat \<Rightarrow> clients \<Rightarrow> int set" where
  "fds_from i cl = (\<lambda>j. fst (cl ! j)) ` {i..<length cl}"

lemma fds_from_Suc: "i < length cl \<Longrightarrow> fds_from i cl = insert (fst (cl ! i)) (fds_from (Suc i) cl)"
proof -
  assume "i < length cl"
  then have "{i..<length cl} = insert i {Suc i..<length cl}" by auto
  then show ?thesis by (simp add: fds_from_def)
qed

lemma fds_from_upd: "fds_from (Suc i) (cl[i := x]) = fds_from (Suc i) cl"
  by (auto simp: fds_from_def)

lemma tab_fresh: "tab cl cs \<Longrightarrow> i < length cl \<Longrightarrow> 0 \<le> fst (cl ! i) \<Longrightarrow> fst (cl ! i) \<notin> fds_from (Suc i) cl"
proof
  assume a: "tab cl cs" "i < length cl" "0 \<le> fst (cl ! i)" "fst (cl ! i) \<in> fds_from (Suc i) cl"
  then obtain j where "Suc i \<le> j" "j < length cl" "fst (cl ! i) = fst (cl ! j)" by (auto simp: fds_from_def)
  then show False using tab_inj [OF a(1,2) _ a(3), of j] by simp
qed

lemma due_mem: "Served fd uid d \<in> due cs ready \<longleftrightarrow> cs fd = Some uid \<and> ready fd = Some (Data d)"
  "Closed fd \<in> due cs ready \<longleftrightarrow> cs fd \<noteq> None \<and> closing ready fd"
  by (auto simp: due_def)

lemma act_set_eqI: "(\<And>fd uid d. Served fd uid d \<in> A \<longleftrightarrow> Served fd uid d \<in> B) \<Longrightarrow> (\<And>fd. Closed fd \<in> A \<longleftrightarrow> Closed fd \<in> B) \<Longrightarrow> A = B"
  by (metis act.exhaust subsetI subset_antisym)

lemma due_insert:
  assumes "fd \<notin> F"
  shows "due (cs |` insert fd F) ready = due (cs |` F) ready \<union>
    (case cs fd of None \<Rightarrow> {} | Some uid \<Rightarrow> case ready fd of Some (Data d) \<Rightarrow> {Served fd uid d} | Some Hup \<Rightarrow> {Closed fd} | Some Eof \<Rightarrow> {Closed fd} | _ \<Rightarrow> {})"
  using assms by (intro act_set_eqI) (auto simp: due_mem closing_def restrict_map_def split: option.splits event.splits if_splits)

lemma due_none: "cs fd = None \<Longrightarrow> due (cs |` insert fd F) ready = due (cs |` F) ready"
  by (intro act_set_eqI) (auto simp: due_mem restrict_map_def split: if_splits)

definition after :: "(int \<Rightarrow> event option) \<Rightarrow> int set \<Rightarrow> (int \<Rightarrow> int option) \<Rightarrow> int \<Rightarrow> int option" where
  "after ready F cs fd = (if fd \<in> F \<and> closing ready fd then None else cs fd)"

text \<open>A state of the \<open>select\<close> loop.\<close>

definition sel_ok :: "selst \<Rightarrow> (int \<Rightarrow> int option) \<Rightarrow> bool" where
  "sel_ok st cs \<longleftrightarrow> tab (client st) cs \<and> maxi st < int (length (client st)) \<and> (\<forall>fd \<in> dom cs. examined st fd) \<and>
     examined st (listenfd st) \<and> listenfd st \<notin> dom cs \<and>
     (\<forall>j < length (client st). 0 \<le> fst (client st ! j) \<longrightarrow> int j \<le> maxi st)"

lemma select_scan_spec:
  assumes "sel_ok st cs" "\<forall>fd. cs fd \<noteq> None \<longrightarrow> ready fd \<noteq> Some ReadError"
  shows "\<exists>st' new. select_scan ready i st acts = Some (st', acts @ new) \<and> set new = due (cs |` fds_from i (client st)) ready \<and> distinct new \<and>
    sel_ok st' (after ready (fds_from i (client st)) cs) \<and> listenfd st' = listenfd st"
  using assms
proof (induction "length (client st) - i" arbitrary: i st cs acts)
  case 0
  then have "fds_from i (client st) = {}" "\<not> int i \<le> maxi st" by (auto simp: fds_from_def sel_ok_def)
  moreover have "after ready {} cs = cs" by (auto simp: after_def)
  moreover have "due Map.empty ready = {}" by (simp add: due_def)
  ultimately show ?case using 0 by (simp add: select_scan.simps)
next
  case (Suc n)
  let ?cl = "client st"
  obtain fd uid where e: "?cl ! i = (fd, uid)" by (cases "?cl ! i")
  have i: "i < length ?cl" and n: "n = length ?cl - Suc i" using Suc.hyps(2) by auto
  have t: "tab ?cl cs" using Suc.prems by (simp add: sel_ok_def)
  have F: "fds_from i ?cl = insert fd (fds_from (Suc i) ?cl)" using fds_from_Suc [OF i] e by simp
  note IH = Suc.hyps(1) [of st "Suc i" cs, OF _ Suc.prems]
  show ?case
  proof (cases "0 \<le> fd")
    case False
    then have c: "cs fd = None" using tab_conns [OF t, of fd] by (cases "cs fd") auto
    have af: "after ready (fds_from i ?cl) cs = after ready (fds_from (Suc i) ?cl) cs" using c by (auto simp: F after_def fun_eq_iff)
    have skip: "select_scan ready i st acts = select_scan ready (Suc i) st acts \<or> \<not> int i \<le> maxi st \<and> select_scan ready i st acts = Some (st, acts)"
      using False e i by (subst (1 3) select_scan.simps) auto
    have stop: "select_scan ready (Suc i) st acts = Some (st, acts)" if "\<not> int i \<le> maxi st" using that by (subst select_scan.simps) auto
    show ?thesis using IH [of acts] skip stop n af due_none [of cs fd "fds_from (Suc i) ?cl" ready, OF c] F by auto
  next
    case True
    have c: "cs fd = Some uid" using tab_conns [OF t, of fd uid] True i e nth_mem [OF i] by simp
    have g: "int i \<le> maxi st" "fd \<noteq> listenfd st" using Suc.prems(1) i e True c by (auto simp: sel_ok_def)
    have fr: "fd \<notin> fds_from (Suc i) ?cl" using tab_fresh [OF t i] e True by simp
    note du = due_insert [OF fr, of cs ready]
    have nodup: "Served fd u d \<notin> due (cs |` fds_from (Suc i) ?cl) ready" "Closed fd \<notin> due (cs |` fds_from (Suc i) ?cl) ready" for u d
      using fr by (auto simp: due_mem restrict_map_def split: if_splits)
    note sc = select_scan.simps [of ready i st acts]
    have plain: "after ready (fds_from i ?cl) cs = after ready (fds_from (Suc i) ?cl) cs" if "\<not> closing ready fd" using that by (auto simp: F after_def fun_eq_iff)
    consider "ready fd = None" | d where "ready fd = Some (Data d)" | "closing ready fd" using Suc.prems(2) c by (cases "ready fd"; cases "the (ready fd)") (auto simp: closing_def)
    then show ?thesis
    proof cases
      case 1
      then show ?thesis using IH [of acts] n g i e True c du F plain by (simp add: sc closing_def)
    next
      case (2 d)
      obtain st' new where "select_scan ready (Suc i) st (acts @ [Served fd uid d]) = Some (st', (acts @ [Served fd uid d]) @ new)"
        "set new = due (cs |` fds_from (Suc i) ?cl) ready" "distinct new" "sel_ok st' (after ready (fds_from (Suc i) ?cl) cs)" "listenfd st' = listenfd st"
        using IH [of "acts @ [Served fd uid d]"] n by auto
      then show ?thesis using 2 g i e True c du F plain nodup by (intro exI [of _ st'] exI [of _ "Served fd uid d # new"]) (simp add: sc closing_def)
    next
      case 3
      let ?cl' = "?cl[i := (-1, uid)]" and ?cs = "cs(fd := None)"
      let ?st = "st\<lparr>client := ?cl', allset := allset st - {fd}\<rparr>"
      note dl = client_del_tab [OF t i e True]
      have ok: "sel_ok ?st ?cs" using Suc.prems(1) dl(2) i g(2) by (auto simp: sel_ok_def examined_def nth_list_update split: if_splits)
      have r: "\<forall>a. ?cs a \<noteq> None \<longrightarrow> ready a \<noteq> Some ReadError" using Suc.prems(2) by simp
      have Fs: "fds_from (Suc i) (client ?st) = fds_from (Suc i) ?cl" by (simp add: fds_from_upd)
      have dc: "due (?cs |` fds_from (Suc i) ?cl) ready = due (cs |` fds_from (Suc i) ?cl) ready" using fr by (intro act_set_eqI) (auto simp: due_mem restrict_map_def split: if_splits)
      have ac: "after ready (fds_from (Suc i) ?cl) ?cs = after ready (fds_from i ?cl) cs" using 3 by (auto simp: after_def F fun_eq_iff)
      obtain st' new where *: "select_scan ready (Suc i) ?st (acts @ [Closed fd]) = Some (st', (acts @ [Closed fd]) @ new)"
        "set new = due (cs |` fds_from (Suc i) ?cl) ready" "distinct new" "sel_ok st' (after ready (fds_from i ?cl) cs)" "listenfd st' = listenfd st"
        using Suc.hyps(1) [of ?st "Suc i" ?cs "acts @ [Closed fd]", OF _ ok r] n unfolding Fs dc ac by auto
      have "select_scan ready i st acts = select_scan ready (Suc i) ?st (acts @ [Closed fd])"
        using 3 g i e True dl(1) unfolding closing_def by (elim disjE) (simp_all add: sc)
      moreover have "due (cs |` fds_from i ?cl) ready = insert (Closed fd) (due (cs |` fds_from (Suc i) ?cl) ready)"
        using du c 3 unfolding F closing_def by (elim disjE) simp_all
      ultimately show ?thesis using * nodup by (intro exI [of _ st'] exI [of _ "Closed fd # new"]) simp
    qed
  qed
qed

lemma fds_from_0: "tab cl cs \<Longrightarrow> cs fd = Some uid \<Longrightarrow> fd \<in> fds_from 0 cl"
proof -
  assume "tab cl cs" "cs fd = Some uid"
  then have "(fd, uid) \<in> set cl" using tab_conns by blast
  then obtain j where "j < length cl" "cl ! j = (fd, uid)" by (auto simp: in_set_conv_nth)
  then show ?thesis by (force simp: fds_from_def)
qed

lemma select_accept:
  assumes ok: "sel_ok st cs" and fd: "0 \<le> fd" "fd < FD_SETSIZE" "cs fd = None" "fd \<noteq> listenfd st"
  shows "\<exists>st'. select_round True (Some (fd, uid), ready) st = Some (st', []) \<and> sel_ok st' (cs(fd \<mapsto> uid)) \<and> listenfd st' = listenfd st"
proof -
  have t: "tab (client st) cs" using ok by (simp add: sel_ok_def)
  from client_add_tab [OF t fd(1,3), of uid] obtain i cl' where a: "client_add True fd uid (client st) = Some (i, cl')" "tab cl' (cs(fd \<mapsto> uid))" "i < length cl'"
    "length (client st) \<le> length cl'" "\<forall>j < length cl'. j \<noteq> i \<longrightarrow> 0 \<le> fst (cl' ! j) \<longrightarrow> j < length (client st) \<and> cl' ! j = client st ! j" by blast
  have "int j \<le> (if int i > maxi st then int i else maxi st)" if "j < length cl'" "0 \<le> fst (cl' ! j)" for j
  proof (cases "j = i")
    case False
    then have "j < length (client st)" "cl' ! j = client st ! j" using a(5) that by auto
    then show ?thesis using ok that by (force simp: sel_ok_def)
  qed simp
  moreover have "(if int i > maxi st then int i else maxi st) < int (length cl')" using a(3,4) ok by (auto simp: sel_ok_def)
  moreover have "x \<in> allset st \<and> x \<le> maxfd st" if "cs x = Some y" for x y using ok that by (auto simp: sel_ok_def examined_def)
  ultimately show ?thesis using a(1,2) fd ok by (simp add: select_round_def sel_ok_def) (fastforce simp: examined_def)
qed

lemma select_ready:
  assumes ok: "sel_ok st cs" and r: "\<forall>fd. cs fd \<noteq> None \<longrightarrow> ready fd \<noteq> Some ReadError"
  shows "\<exists>st' acts. select_round True (None, ready) st = Some (st', acts) \<and> set acts = due cs ready \<and> distinct acts \<and>
    sel_ok st' (\<lambda>fd. if closing ready fd then None else cs fd) \<and> listenfd st' = listenfd st"
proof -
  have t: "tab (client st) cs" using ok by (simp add: sel_ok_def)
  let ?rset = "select_fds st ready"
  have rs: "?rset fd = ready fd" if "cs fd = Some u" for fd u using ok that by (auto simp: sel_ok_def select_fds_def)
  have r': "\<forall>fd. cs fd \<noteq> None \<longrightarrow> ?rset fd \<noteq> Some ReadError" using r rs by (metis option.exhaust)
  have "(cs |` fds_from 0 (client st)) fd = cs fd" for fd using fds_from_0 [OF t, of fd] by (cases "cs fd") (auto simp: restrict_map_def)
  then have "cs |` fds_from 0 (client st) = cs" by (rule ext)
  moreover have "due cs ?rset = due cs ready" by (intro act_set_eqI) (auto simp: due_mem closing_def rs)
  moreover have "after ?rset (fds_from 0 (client st)) cs fd = (if closing ready fd then None else cs fd)" for fd
    using fds_from_0 [OF t, of fd] rs [of fd] by (cases "cs fd") (auto simp: after_def closing_def)
  then have "after ?rset (fds_from 0 (client st)) cs = (\<lambda>fd. if closing ready fd then None else cs fd)" by (rule ext)
  ultimately show ?thesis using select_scan_spec [OF ok r', of 0 "[]"] by (simp add: select_round_def)
qed

section \<open>Properties\<close>

text \<open>The environment of the loops: descriptors that are accepted are none of the open ones and fit into a set of descriptors, and reading does not fail.\<close>

fun sane :: "int \<Rightarrow> (int \<Rightarrow> int option) \<Rightarrow> input list \<Rightarrow> bool" where
  "sane lfd cs [] = True"
| "sane lfd cs ((Some (fd, uid), ready) # rs) = (0 \<le> fd \<and> fd < FD_SETSIZE \<and> fd \<noteq> lfd \<and> cs fd = None \<and> sane lfd (cs(fd \<mapsto> uid)) rs)"
| "sane lfd cs ((None, ready) # rs) =
     ((\<forall>fd. cs fd \<noteq> None \<longrightarrow> ready fd \<noteq> Some ReadError) \<and> sane lfd (\<lambda>fd. if closing ready fd then None else cs fd) rs)"

text \<open>What the rounds should do.\<close>

fun expected :: "(int \<Rightarrow> int option) \<Rightarrow> input list \<Rightarrow> act set list" where
  "expected cs [] = []"
| "expected cs ((Some (fd, uid), ready) # rs) = {} # expected (cs(fd \<mapsto> uid)) rs"
| "expected cs ((None, ready) # rs) = due cs ready # expected (\<lambda>fd. if closing ready fd then None else cs fd) rs"

lemma select_loop_expected:
  "sel_ok st cs \<Longrightarrow> sane (listenfd st) cs rs \<Longrightarrow>
    \<exists>st' actss. select_loop True rs st = Some (st', actss) \<and> map set actss = expected cs rs \<and> (\<forall>acts \<in> set actss. distinct acts)"
proof (induction "listenfd st" cs rs arbitrary: st rule: sane.induct)
  case (2 cs fd uid ready rs)
  then obtain st1 where s: "select_round True (Some (fd, uid), ready) st = Some (st1, [])" "sel_ok st1 (cs(fd \<mapsto> uid))" "listenfd st = listenfd st1"
    using select_accept [OF 2(2), of fd uid ready] by auto
  have sn: "sane (listenfd st1) (cs(fd \<mapsto> uid)) rs" using 2(3) s(3) by (simp del: fun_upd_apply)
  from "2.hyps" [OF s(3,2) sn] obtain st2 actss where "select_loop True rs st1 = Some (st2, actss)" "map set actss = expected (cs(fd \<mapsto> uid)) rs"
    "\<forall>acts \<in> set actss. distinct acts" by blast
  then show ?case using s(1) by (simp del: fun_upd_apply)
next
  case (3 cs ready rs)
  then obtain st1 acts where s: "select_round True (None, ready) st = Some (st1, acts)" "set acts = due cs ready" "distinct acts"
      "sel_ok st1 (\<lambda>fd. if closing ready fd then None else cs fd)" "listenfd st = listenfd st1"
    using select_ready [OF 3(2), of ready] by auto
  have sn: "sane (listenfd st1) (\<lambda>fd. if closing ready fd then None else cs fd) rs" using 3(3) s(5) by simp
  from "3.hyps" [OF s(5,4) sn] obtain st2 actss where "select_loop True rs st1 = Some (st2, actss)"
    "map set actss = expected (\<lambda>fd. if closing ready fd then None else cs fd) rs" "\<forall>acts \<in> set actss. distinct acts" by blast
  then show ?case using s(1-3) by simp
qed simp

text \<open>C12: The \<open>select\<close> loop serves every client under its own identity: for any sequence of
  connections, requests and hang-ups, a round in which a new client is waiting accepts it and serves nobody; in every other round the loop calls \<open>handle_request\<close>
  once for each open connection that has sent a request, with the
  descriptor, the user who opened this connection and the data, closes exactly the connections that have ended, and does nothing else. Accepted descriptors are
  not open yet and below \<open>FD_SETSIZE\<close>, and no allocation and no \<open>read\<close> fails.\<close>

theorem select_serves_clients:
  assumes "0 \<le> lfd" "lfd < FD_SETSIZE" "sane lfd Map.empty rs"
  shows "\<exists>st st' actss. select_start lfd = Some st \<and> select_loop True rs st = Some (st', actss) \<and> map set actss = expected Map.empty rs \<and>
    (\<forall>acts \<in> set actss. distinct acts)"
proof -
  obtain st where st: "select_start lfd = Some st" "sel_ok st Map.empty" "listenfd st = lfd"
    using assms(1,2) by (simp add: sel_ok_def select_start_def examined_def tab_empty)
  then show ?thesis using select_loop_expected [OF st(2)] assms(3) by blast
qed

text \<open>Three connections, the first of which is closed before the third sends a request.\<close>

definition three_clients :: "input list" where
  "three_clients = [(Some (5, 101), \<lambda>_. None), (Some (6, 102), \<lambda>_. None), (Some (7, 103), \<lambda>_. None),
     (None, \<lambda>fd. if fd = 5 then Some Hup else None), (None, \<lambda>fd. if fd = 7 then Some (Data ''x'') else None)]"

theorem select_serves_clients_witness:
  "\<exists>st st' actss. select_start 3 = Some st \<and> select_loop True three_clients st = Some (st', actss) \<and>
     map set actss = [{}, {}, {}, {Closed 5}, {Served 7 103 ''x''}]"
proof -
  have "expected Map.empty three_clients = [{}, {}, {}, {Closed 5}, {Served 7 103 ''x''}]"
    by (simp add: three_clients_def) (intro conjI act_set_eqI; auto simp: due_mem closing_def split: if_splits)
  moreover have "sane 3 Map.empty three_clients" by (simp add: three_clients_def FD_SETSIZE_def closing_def)
  ultimately show ?thesis using select_serves_clients [of 3 three_clients] by (auto simp: FD_SETSIZE_def)
qed

text \<open>The arrays of the \<open>poll\<close> loop are in step as long as no connection has been closed.\<close>

definition in_step :: "int \<Rightarrow> clients \<Rightarrow> pollst \<Rightarrow> bool" where
  "in_step lfd conns st \<longleftrightarrow> numfd st = Suc (length conns) \<and>
     (\<exists>unused. pclient st = (lfd, 0) # conns @ unused \<and> (\<forall>e \<in> set unused. fst e = -1)) \<and>
     (\<exists>pfd rest. pollfd st = pfd @ rest \<and> map fst pfd = lfd # map fst conns)"

lemma in_stepE:
  assumes "in_step lfd conns st"
  obtains unused pfd rest where "pclient st = (lfd, 0) # conns @ unused" "\<forall>e \<in> set unused. fst e = -1"
    "pollfd st = pfd @ rest" "map fst pfd = lfd # map fst conns" "numfd st = Suc (length conns)"
  using assms unfolding in_step_def by (elim conjE exE) (rule that)

lemma replicate_NALLOC: "replicate NALLOC x = x # replicate 9 x"
  by (simp add: NALLOC_def eval_nat_numeral)

definition harmless :: "event option \<Rightarrow> bool" where
  "harmless e \<longleftrightarrow> (case e of None \<Rightarrow> True | Some (Data d) \<Rightarrow> True | _ \<Rightarrow> False)"

definition served :: "int \<times> event option \<Rightarrow> int \<times> int \<Rightarrow> act list" where
  "served p c = (case snd p of Some (Data d) \<Rightarrow> [Served (fst p) (snd c) d] | _ \<Rightarrow> [])"

lemma poll_scan_step:
  assumes "a < numfd st" "numfd st \<le> length (pollfd st)" "numfd st \<le> length (pclient st)" "harmless (snd (pollfd st ! a))"
  shows "poll_scan a st acts = poll_scan (Suc a) st (acts @ served (pollfd st ! a) (pclient st ! a))"
  using assms by (subst poll_scan.simps) (auto simp: harmless_def served_def split: prod.splits option.splits event.splits)

lemma poll_scan_harmless:
  assumes "a \<le> b" "b \<le> numfd st" "numfd st \<le> length (pollfd st)" "numfd st \<le> length (pclient st)" "\<forall>j. a \<le> j \<longrightarrow> j < b \<longrightarrow> harmless (snd (pollfd st ! j))"
  shows "poll_scan a st acts = poll_scan b st (acts @ concat (map (\<lambda>j. served (pollfd st ! j) (pclient st ! j)) [a..<b]))"
  using assms
proof (induction "b - a" arbitrary: a acts)
  case (Suc n)
  then have "[a..<b] = a # [Suc a..<b]" by (simp add: upt_conv_Cons)
  then show ?case using Suc poll_scan_step [of a st acts] by simp
qed simp

lemma poll_scan_end: "poll_scan (numfd st) st acts = Some (st, acts)"
  by (subst poll_scan.simps) simp

text \<open>A new client gets the entry behind those in use.\<close>

lemma find_slot_skip: "\<forall>e \<in> set xs. 0 \<le> fst e \<Longrightarrow> find_slot (-1) (xs @ ys) = map_option (\<lambda>i. length xs + i) (find_slot (-1) ys)"
  by (induction xs) (cases "find_slot (-1) ys"; auto)+

lemma add_loop_next:
  assumes "\<forall>e \<in> set xs. 0 \<le> fst e" "\<forall>e \<in> set ys. fst e = -1"
  shows "\<exists>ys'. add_loop True fd uid (xs @ ys) = Some (length xs, xs @ (fd, uid) # ys') \<and> (\<forall>e \<in> set ys'. fst e = -1)"
proof (cases ys)
  case (Cons e ys')
  then have "find_slot (-1) (xs @ ys) = Some (length xs)" using find_slot_skip [OF assms(1), of ys] assms(2) by (cases e) simp
  then show ?thesis using Cons assms(2) by (simp add: add_loop.simps [of True fd uid "xs @ e # ys'"])
next
  case Nil
  have a: "client_alloc True xs = Some (xs @ (-1, 0) # replicate 9 (-1, 0))" by (simp add: client_alloc_def replicate_NALLOC)
  moreover have "find_slot (-1) xs = None" using find_slot_skip [OF assms(1), of "[]"] by simp
  moreover have "find_slot (-1) (xs @ (-1, 0) # replicate 9 (-1, 0)) = Some (length xs)" using find_slot_skip [OF assms(1), of "(-1, 0) # replicate 9 (-1, 0)"] by simp
  ultimately show ?thesis using Nil by (simp add: add_loop.simps [of True fd uid xs] add_loop.simps [of True fd uid "xs @ (-1, 0) # replicate 9 (-1, 0)"])
qed

lemma poll_start_step:
  assumes "0 \<le> lfd"
  shows "\<exists>st. poll_start True lfd = Some st \<and> in_step lfd [] st"
proof -
  let ?r = "replicate NALLOC (-1, 0) :: clients"
  obtain ys' where "add_loop True lfd 0 ([] @ ?r) = Some (length ([] :: clients), [] @ (lfd, 0) # ys')" and ys: "\<forall>e \<in> set ys'. fst e = -1"
    using add_loop_next [of "[]" ?r lfd 0] by auto
  moreover have "(replicate NALLOC (-1, None))[0 := (lfd, None)] = [(lfd, None)] @ replicate 9 (-1, None)" by (simp add: replicate_NALLOC)
  moreover have "client_add True lfd 0 [] = add_loop True lfd 0 ?r" by (simp add: client_add_def client_alloc_def)
  ultimately have "poll_start True lfd = Some \<lparr>pclient = (lfd, 0) # ys', pollfd = [(lfd, None)] @ replicate 9 (-1, None), numfd = 1\<rparr>"
    using assms by (simp add: poll_start_def)
  moreover have "in_step lfd [] \<lparr>pclient = (lfd, 0) # ys', pollfd = [(lfd, None)] @ replicate 9 (-1, None), numfd = 1\<rparr>"
    unfolding in_step_def by (intro conjI exI [of _ ys'] exI [of _ "[(lfd, None)]"] exI [of _ "replicate 9 (-1, None)"]) (use ys in simp_all)
  ultimately show ?thesis by blast
qed

text \<open>What \<open>poll\<close> reports.\<close>

lemma poll_report:
  assumes "pollfd st = pfd @ rest" "map fst pfd = lfd # map fst conns" "numfd st = Suc (length conns)"
  shows "map (\<lambda>(fd, _). (fd, ready fd)) (take (numfd st) (pollfd st)) @ drop (numfd st) (pollfd st) = map (\<lambda>fd. (fd, ready fd)) (lfd # map fst conns) @ rest"
proof -
  have "length pfd = numfd st" using arg_cong [OF assms(2), of length] assms(3) by simp
  moreover have "map (\<lambda>(fd, _). (fd, ready fd)) pfd = map (\<lambda>fd. (fd, ready fd)) (map fst pfd)" by (simp add: split_beta comp_def)
  ultimately show ?thesis using assms(1,2) by simp
qed

lemma poll_round_calm:
  assumes st: "in_step lfd conns st" and nn: "0 \<le> lfd" "\<forall>fd \<in> fst ` set conns. 0 \<le> fd" and h: "\<forall>fd. harmless (ready fd)"
    and a: "case accept of None \<Rightarrow> True | Some (fd, uid) \<Rightarrow> 0 \<le> fd"
  shows "\<exists>st' acts. poll_round True (accept, ready) st = Some (st', acts) \<and> in_step lfd (conns @ (case accept of None \<Rightarrow> [] | Some c \<Rightarrow> [c])) st'"
proof -
  obtain unused pfd rest where u: "pclient st = (lfd, 0) # conns @ unused" "\<forall>e \<in> set unused. fst e = -1"
    and p: "pollfd st = pfd @ rest" "map fst pfd = lfd # map fst conns" and n: "numfd st = Suc (length conns)" by (rule in_stepE [OF st])
  define rep where "rep = map (\<lambda>fd. (fd, ready fd)) (lfd # map fst conns)"
  define st1 where "st1 = st\<lparr>pollfd := rep @ rest\<rparr>"
  have scan: "\<exists>acts. poll_scan 1 s [] = Some (s, acts)" if "numfd s \<le> length (pollfd s)" "numfd s \<le> length (pclient s)" "1 \<le> numfd s" "\<forall>j < numfd s. harmless (snd (pollfd s ! j))" for s
    using poll_scan_harmless [of 1 "numfd s" s "[]"] that poll_scan_end by simp
  have s1: "poll_round True (accept, ready) st = do {
     st \<leftarrow> (case accept of
         None \<Rightarrow> Some st1
       | Some (clifd, uid) \<Rightarrow>
           if clifd < 0 then None
           else do {
             (_, cl) \<leftarrow> client_add True clifd uid (pclient st1);
             pfd \<leftarrow> (if numfd st1 = length (pollfd st1) then grow_pollfd True (pollfd st1) else Some (pollfd st1));
             pfd \<leftarrow> wr pfd (numfd st1) (clifd, None);
             Some (st1\<lparr>pclient := cl, pollfd := pfd, numfd := numfd st1 + 1\<rparr>) });
     poll_scan 1 st [] }"
    unfolding poll_round_def st1_def rep_def by (simp only: poll_report [OF p n] prod.case bind.bind_lunit)
  have f: "length rep = Suc (length conns)" "map fst rep = lfd # map fst conns" "\<forall>j < Suc (length conns). harmless (snd (rep ! j))"
    using h by (auto simp: rep_def comp_def nth_Cons split: nat.splits)
  show ?thesis
  proof (cases accept)
    case None
    have "in_step lfd conns st1" unfolding in_step_def st1_def using u n f(2) by auto
    moreover have "\<exists>acts. poll_scan 1 st1 [] = Some (st1, acts)" using u n f by (intro scan) (auto simp: st1_def nth_append)
    ultimately show ?thesis using None s1 by auto
  next
    case (Some c)
    obtain fd uid where c: "c = (fd, uid)" by (cases c)
    have fd: "0 \<le> fd" using a Some c by simp
    have "\<forall>e \<in> set ((lfd, 0) # conns). 0 \<le> fst e" using nn by auto
    from add_loop_next [OF this u(2), of fd uid] obtain ys where ys: "client_add True fd uid (pclient st1) = Some (Suc (length conns), (lfd, 0) # conns @ (fd, uid) # ys)" "\<forall>e \<in> set ys. fst e = -1"
      by (auto simp: client_add_def st1_def u)
    obtain r0 rs where r: "(if numfd st1 = length (pollfd st1) then grow_pollfd True (pollfd st1) else Some (pollfd st1)) = Some (rep @ r0 # rs)"
    proof (cases rest)
      case Nil
      have "grow_pollfd True (pollfd st1) = Some (rep @ (-1, None) # replicate 9 (-1, None))" using Nil by (simp add: grow_pollfd_def st1_def replicate_NALLOC)
      then show ?thesis using that Nil n f(1) by (simp add: st1_def)
    next
      case (Cons r0 rs)
      then show ?thesis using that n f(1) by (simp add: st1_def)
    qed
    define st2 where "st2 = st1\<lparr>pclient := (lfd, 0) # conns @ (fd, uid) # ys, pollfd := rep @ (fd, None) # rs, numfd := Suc (Suc (length conns))\<rparr>"
    have "numfd st1 = length rep" using n f(1) by (simp add: st1_def)
    then have w: "wr (rep @ r0 # rs) (numfd st1) (fd, None) = Some (rep @ (fd, None) # rs)" by (simp add: wr_def)
    have "poll_round True (accept, ready) st = poll_scan 1 st2 []" unfolding s1 using Some c fd ys(1) r w n by (simp add: st2_def st1_def)
    moreover have "\<exists>acts. poll_scan 1 st2 [] = Some (st2, acts)"
      using f by (intro scan) (auto simp: st2_def nth_append less_Suc_eq harmless_def)
    moreover have "in_step lfd (conns @ [c]) st2" unfolding in_step_def
      by (intro conjI exI [of _ ys] exI [of _ "rep @ [(fd, None)]"] exI [of _ rs]) (use c ys(2) f(2) in \<open>simp_all add: st2_def\<close>)
    ultimately show ?thesis using Some by auto
  qed
qed

lemma poll_loop_calm:
  assumes "in_step lfd conns st" "0 \<le> lfd" "\<forall>fd \<in> fst ` set (conns @ List.map_filter fst rs). 0 \<le> fd" "\<forall>(accept, ready) \<in> set rs. \<forall>fd. harmless (ready fd)"
  shows "\<exists>st' actss. in_step lfd (conns @ List.map_filter fst rs) st' \<and>
    (\<forall>more. poll_loop True (rs @ more) st = map_option (\<lambda>(s, a). (s, actss @ a)) (poll_loop True more st'))"
  using assms(1,3,4)
proof (induction rs arbitrary: st conns)
  case Nil
  have "poll_loop True ([] @ more) st = map_option (\<lambda>(s, a). (s, [] @ a)) (poll_loop True more st)" for more by (cases "poll_loop True more st") auto
  moreover have "in_step lfd (conns @ List.map_filter fst []) st" using Nil by (simp add: map_filter_simps)
  ultimately show ?case by blast
next
  case (Cons r rs)
  obtain accept ready where r: "r = (accept, ready)" by (cases r)
  let ?new = "case accept of None \<Rightarrow> [] | Some c \<Rightarrow> [c]"
  have mf: "conns @ List.map_filter fst (r # rs) = (conns @ ?new) @ List.map_filter fst rs" by (simp add: r map_filter_simps split: option.split)
  have nn: "\<forall>fd \<in> fst ` set conns. 0 \<le> fd" "case accept of None \<Rightarrow> True | Some (fd, uid) \<Rightarrow> 0 \<le> fd" using Cons.prems(2) unfolding mf by (auto split: option.splits)
  have h: "\<forall>fd. harmless (ready fd)" using Cons.prems(3) r by simp
  obtain st1 acts where s: "poll_round True (accept, ready) st = Some (st1, acts)" "in_step lfd (conns @ ?new) st1"
    using poll_round_calm [OF Cons.prems(1) assms(2) nn(1) h nn(2)] by blast
  have "\<forall>fd \<in> fst ` set ((conns @ ?new) @ List.map_filter fst rs). 0 \<le> fd" "\<forall>(accept, ready) \<in> set rs. \<forall>fd. harmless (ready fd)"
    using Cons.prems(2,3) unfolding mf by auto
  from Cons.IH [OF s(2) this] obtain st' actss where i: "in_step lfd ((conns @ ?new) @ List.map_filter fst rs) st'"
    "\<And>more. poll_loop True (rs @ more) st1 = map_option (\<lambda>(s, a). (s, actss @ a)) (poll_loop True more st')" by blast
  have "poll_loop True ((r # rs) @ more) st = map_option (\<lambda>(s, a). (s, (acts # actss) @ a)) (poll_loop True more st')" for more
    using s(1) i(2) [of more] by (cases "poll_loop True more st'") (auto simp: r)
  then show ?case unfolding mf using i(1) by blast
qed

text \<open>The round in which a connection before the last one is closed and the last one has sent a request.\<close>

lemma client_del_nth:
  assumes "distinct (map fst xs)" "j < length xs" "xs ! j = (fd, uid)"
  shows "client_del fd (xs @ ys) = Some ((xs @ ys)[j := (-1, uid)])"
proof -
  have sk: "find_slot y (as @ (y, v) # bs) = Some (length as)" if "y \<notin> fst ` set as" for y v as bs using that by (induction as) auto
  have xs: "xs = take j xs @ (fd, uid) # drop (Suc j) xs" using assms(2,3) id_take_nth_drop by metis
  have "fd \<notin> fst ` set (take j xs)" using assms(1) by (subst (asm) xs) auto
  then have "find_slot fd ((take j xs @ (fd, uid) # drop (Suc j) xs) @ ys) = Some j" using sk [of fd "take j xs" uid "drop (Suc j) xs @ ys"] assms(2) by simp
  then show ?thesis using assms(2,3) by (simp add: client_del_def nth_append flip: xs)
qed

lemma poll_round_mixes:
  assumes st: "in_step lfd conns st" and nn: "distinct (lfd # map fst conns)" and i: "Suc i < length conns" "conns ! i = (fd, uid)"
    and l: "last conns = (fd', uid')" "ready fd' = Some (Data d)" and c: "closing ready fd" and h: "\<forall>x. x \<noteq> fd \<longrightarrow> harmless (ready x)"
  shows "\<exists>st' before behind. poll_round True (None, ready) st = Some (st', before @ [Closed fd, Served fd' uid d] @ behind) \<and>
    (\<forall>u e. Served fd' u e \<notin> set (before @ behind)) \<and> fst (pollfd st' ! Suc i) = fd' \<and> pclient st' ! Suc i = (-1, uid)"
proof -
  obtain unused pfd rest where u: "pclient st = (lfd, 0) # conns @ unused"
    and p: "pollfd st = pfd @ rest" "map fst pfd = lfd # map fst conns" and n: "numfd st = Suc (length conns)" by (rule in_stepE [OF st])
  let ?n = "length conns"
  define st1 where "st1 = st\<lparr>pollfd := map (\<lambda>fd. (fd, ready fd)) (lfd # map fst conns) @ rest\<rparr>"
  have nth: "pollfd st1 ! Suc j = (fst (conns ! j), ready (fst (conns ! j)))" if "j < ?n" for j using that by (auto simp: st1_def nth_append)
  have ln: "conns ! (?n - 1) = (fd', uid')" using l(1) i(1) last_conv_nth [of conns] by (cases conns) auto
  have inj: "fst (conns ! j) = fst (conns ! k) \<longleftrightarrow> j = k" if "j < ?n" "k < ?n" for j k using nn that nth_eq_iff_index_eq [of "map fst conns" j k] by simp
  have sub: "numfd st1 = Suc ?n" "numfd st1 \<le> length (pollfd st1)" "numfd st1 \<le> length (pclient st1)" using n by (simp_all add: st1_def u)
  define cl where "cl = (pclient st)[Suc i := (-1, uid)]"
  have del: "client_del fd (pclient st1) = Some cl" using client_del_nth [of "(lfd, 0) # conns" "Suc i" fd uid unused] nn i by (simp add: st1_def cl_def u)
  define st2 where "st2 = st1\<lparr>pclient := cl, pollfd := (pollfd st1)[Suc i := pollfd st1 ! ?n], numfd := ?n\<rparr>"
  let ?b = "concat (map (\<lambda>j. served (pollfd st1 ! j) (pclient st1 ! j)) [1..<Suc i])"
  let ?a = "concat (map (\<lambda>j. served (pollfd st2 ! j) (pclient st2 ! j)) [Suc (Suc i)..<?n])"
  have hm: "harmless (snd (pollfd st1 ! Suc j))" if "j < ?n" "j \<noteq> i" for j using nth [OF that(1)] h inj [of j i] i that by (cases "conns ! j") auto
  have "Suc (?n - 1) = ?n" using i(1) by simp
  then have pl: "pollfd st1 ! ?n = (fd', Some (Data d))" using nth [of "?n - 1"] ln l(2) i(1) by simp
  have n2: "pollfd st2 ! Suc j = (if j = i then (fd', Some (Data d)) else pollfd st1 ! Suc j)" if "Suc j < ?n" for j
    using pl i sub that by (auto simp: st2_def)
  have c2: "pclient st2 ! Suc i = (-1, uid)" using i u by (simp add: st2_def cl_def)
  have sub2: "numfd st2 = ?n" "?n \<le> length (pollfd st2)" "?n \<le> length (pclient st2)" using sub u by (simp_all add: st2_def cl_def)
  have other: "Served fd' w e \<notin> set (served (pollfd st1 ! Suc j) x)" if "Suc j < ?n" for j x w e
  proof -
    have "?n - 1 < ?n" "j \<noteq> ?n - 1" using that by auto
    then have "fst (conns ! j) \<noteq> fd'" using inj [of j "?n - 1"] ln that by simp
    then show ?thesis using nth [of j] that by (auto simp: served_def split: option.splits event.splits)
  qed
  have "poll_round True (None, ready) st = poll_scan 1 st1 []" unfolding poll_round_def st1_def by (simp add: poll_report [OF p n] del: list.map)
  also have "\<dots> = poll_scan (Suc i) st1 ([] @ ?b)"
  proof (rule poll_scan_harmless)
    show "\<forall>j. 1 \<le> j \<longrightarrow> j < Suc i \<longrightarrow> harmless (snd (pollfd st1 ! j))"
    proof (intro allI impI)
      fix j :: nat assume j: "1 \<le> j" "j < Suc i"
      then obtain k where "j = Suc k" by (cases j) auto
      then show "harmless (snd (pollfd st1 ! j))" using hm [of k] j i by simp
    qed
  qed (use i sub in simp_all)
  also have "\<dots> = poll_scan (Suc i) st1 ?b" by simp
  also have "\<dots> = poll_scan (Suc i) st2 (?b @ [Closed fd])"
    using i sub nth [of i] c del by (subst poll_scan.simps) (auto simp: closing_def st2_def)
  also have "\<dots> = poll_scan (Suc (Suc i)) st2 ((?b @ [Closed fd]) @ [Served fd' uid d])"
    using poll_scan_step [of "Suc i" st2 "?b @ [Closed fd]"] n2 [of i] i sub2 c2 by (simp add: harmless_def served_def)
  also have "\<dots> = poll_scan ?n st2 (((?b @ [Closed fd]) @ [Served fd' uid d]) @ ?a)"
  proof (rule poll_scan_harmless)
    show "\<forall>j. Suc (Suc i) \<le> j \<longrightarrow> j < ?n \<longrightarrow> harmless (snd (pollfd st2 ! j))"
    proof (intro allI impI)
      fix j assume j: "Suc (Suc i) \<le> j" "j < ?n"
      then obtain k where "j = Suc k" "Suc i \<le> k" by (cases j) auto
      then show "harmless (snd (pollfd st2 ! j))" using n2 [of k] hm [of k] j by simp
    qed
  qed (use i sub2 in simp_all)
  also have "\<dots> = Some (st2, ?b @ [Closed fd, Served fd' uid d] @ ?a)" using poll_scan_end [of st2] sub2(1) by simp
  finally have run: "poll_round True (None, ready) st = Some (st2, ?b @ [Closed fd, Served fd' uid d] @ ?a)" .
  have "Served fd' w e \<notin> set ?b" for w e
  proof
    assume "Served fd' w e \<in> set ?b"
    then obtain j where j: "1 \<le> j" "j < Suc i" "Served fd' w e \<in> set (served (pollfd st1 ! j) (pclient st1 ! j))" by auto
    then obtain k where "j = Suc k" by (cases j) auto
    then show False using j other [of k] i by simp
  qed
  moreover have "Served fd' w e \<notin> set ?a" for w e
  proof
    assume "Served fd' w e \<in> set ?a"
    then obtain j where j: "Suc (Suc i) \<le> j" "j < ?n" "Served fd' w e \<in> set (served (pollfd st2 ! j) (pclient st2 ! j))" by auto
    then obtain k where k: "j = Suc k" "Suc i \<le> k" by (cases j) auto
    then show False using j n2 [of k] other [of k] by simp
  qed
  ultimately have "\<forall>u e. Served fd' u e \<notin> set (?b @ ?a)" by simp
  moreover have "fst (pollfd st2 ! Suc i) = fd'" using n2 [of i] i by simp
  ultimately show ?thesis using run c2 by blast
qed

text \<open>C35: The \<open>poll\<close> loop does not: it moves the last entry of its array to the place of a closed
  connection, but finds the user of a request at the same index of the table of clients, whose entries do not move. Whenever clients have connected and
  sent requests, and then a client other than the last one closes its connection while the last one has sent a request, this
  request is served once, under the identity of the user who has gone, and the two entries stay paired in this way after the round.\<close>

theorem poll_serves_wrong_client:
  assumes "\<forall>(accept, ready) \<in> set rs. \<forall>fd. harmless (ready fd)" "conns = List.map_filter fst rs"
    and "distinct (lfd # map fst conns)" "0 \<le> lfd" "\<forall>fd \<in> fst ` set conns. 0 \<le> fd"
    and "Suc i < length conns" "conns ! i = (fd, uid)" "last conns = (fd', uid')"
    and "closing ready fd" "ready fd' = Some (Data d)" "\<forall>x. x \<noteq> fd \<longrightarrow> harmless (ready x)"
  shows "\<exists>st st' actss before behind. poll_start True lfd = Some st \<and>
    poll_loop True (rs @ [(None, ready)]) st = Some (st', actss @ [before @ [Closed fd, Served fd' uid d] @ behind]) \<and>
    (\<forall>u e. Served fd' u e \<notin> set (before @ behind)) \<and> fst (pollfd st' ! Suc i) = fd' \<and> pclient st' ! Suc i = (-1, uid)"
proof -
  obtain st where st: "poll_start True lfd = Some st" "in_step lfd [] st" using poll_start_step [OF assms(4)] by blast
  obtain st1 actss where s: "in_step lfd conns st1" "\<And>more. poll_loop True (rs @ more) st = map_option (\<lambda>(s, a). (s, actss @ a)) (poll_loop True more st1)"
    using poll_loop_calm [OF st(2) assms(4), of rs] assms(1,2,5) by auto
  obtain st' before behind where "poll_round True (None, ready) st1 = Some (st', before @ [Closed fd, Served fd' uid d] @ behind)"
    "\<forall>u e. Served fd' u e \<notin> set (before @ behind)" "fst (pollfd st' ! Suc i) = fd'" "pclient st' ! Suc i = (-1, uid)"
    using poll_round_mixes [OF s(1) assms(3,6,7,8,10,9,11)] by blast
  then show ?thesis using st(1) s(2) [of "[(None, ready)]"] by auto
qed

theorem poll_serves_wrong_client_witness:
  "\<exists>st st' actss before behind. poll_start True 3 = Some st \<and>
    poll_loop True ([(Some (5, 101), \<lambda>_. None), (Some (6, 102), \<lambda>_. None), (Some (7, 103), \<lambda>fd. if fd = 5 then Some (Data ''y'') else None)] @
      [(None, (\<lambda>_. None)(5 := Some Hup, 7 := Some (Data ''x'')))]) st = Some (st', actss @ [before @ [Closed 5, Served 7 101 ''x''] @ behind])"
proof -
  let ?rs = "[(Some (5, 101), \<lambda>_. None), (Some (6, 102), \<lambda>_. None), (Some (7, 103), \<lambda>fd. if fd = 5 then Some (Data ''y'') else None)] :: input list"
  let ?ready = "(\<lambda>_. None)(5 := Some Hup, 7 := Some (Data ''x''))"
  have mf: "[(5, 101), (6, 102), (7, 103)] = List.map_filter fst ?rs" by (simp add: map_filter_simps)
  have "\<exists>st st' actss before behind. poll_start True 3 = Some st \<and>
    poll_loop True (?rs @ [(None, ?ready)]) st = Some (st', actss @ [before @ [Closed 5, Served 7 101 ''x''] @ behind]) \<and>
    (\<forall>u e. Served 7 u e \<notin> set (before @ behind)) \<and> fst (pollfd st' ! Suc 0) = 7 \<and> pclient st' ! Suc 0 = (-1, 101)"
    by (rule poll_serves_wrong_client [OF _ mf]) (simp_all add: harmless_def closing_def)
  then show ?thesis by blast
qed

end
