(* ===== verification/Tty_Modes.thy ===== *)
theory Tty_Modes
  imports Prelude "HOL-Library.Word"
begin

unbundle bit_operations_syntax

text \<open>
  Terminal modes: \<open>apue.3e/lib/ttymodes.c\<close> and the copy \<open>apue/18.11break_and_raw.c\<close>. The terminals are a map from descriptors to settings. What a terminal
  driver makes of the settings it is given is a parameter \<open>drv old new\<close>, since \<open>tcsetattr\<close> may succeed in part; each call of \<open>tcgetattr\<close> and
  \<open>tcsetattr\<close> may also fail, as a list of outcomes says (\<open>Some e\<close>: failure with the error \<open>e\<close>). The flag values are those of Linux.
\<close>

section \<open>Settings and state\<close>

record termios =
  c_iflag :: "32 word"
  c_oflag :: "32 word"
  c_cflag :: "32 word"
  c_lflag :: "32 word"
  c_cc :: "nat \<Rightarrow> 8 word"

abbreviation "ECHO \<equiv> 8 :: 32 word"
abbreviation "ICANON \<equiv> 2 :: 32 word"
abbreviation "IEXTEN \<equiv> 32768 :: 32 word"
abbreviation "ISIG \<equiv> 1 :: 32 word"
abbreviation "BRKINT \<equiv> 2 :: 32 word"
abbreviation "ICRNL \<equiv> 256 :: 32 word"
abbreviation "INPCK \<equiv> 16 :: 32 word"
abbreviation "ISTRIP \<equiv> 32 :: 32 word"
abbreviation "IXON \<equiv> 1024 :: 32 word"
abbreviation "CSIZE \<equiv> 48 :: 32 word"
abbreviation "PARENB \<equiv> 256 :: 32 word"
abbreviation "CS8 \<equiv> 48 :: 32 word"
abbreviation "OPOST \<equiv> 1 :: 32 word"
abbreviation "VTIME \<equiv> 5 :: nat"
abbreviation "VMIN \<equiv> 6 :: nat"
abbreviation "EINVAL \<equiv> 22 :: int"

datatype tstate = RESET | RAW | CBREAK

record tty =
  dev :: "int \<Rightarrow> termios"
  outcomes :: "int option list"
  errno :: int
  save_termios :: termios
  ttysavefd :: int
  ttystate :: tstate

type_synonym driver = "termios \<Rightarrow> termios \<Rightarrow> termios"

definition outcome :: "tty \<Rightarrow> int option \<times> tty" where
  "outcome s = (case outcomes s of [] \<Rightarrow> (None, s) | None # os \<Rightarrow> (None, s\<lparr>outcomes := os\<rparr>) | Some e # os \<Rightarrow> (Some e, s\<lparr>outcomes := os, errno := e\<rparr>))"

definition tcgetattr :: "int \<Rightarrow> tty \<Rightarrow> termios option \<times> tty" where
  "tcgetattr fd s = (case outcome s of (Some e, s) \<Rightarrow> (None, s) | (None, s) \<Rightarrow> (Some (dev s fd), s))"

definition tcsetattr :: "driver \<Rightarrow> int \<Rightarrow> termios \<Rightarrow> tty \<Rightarrow> int \<times> tty" where
  "tcsetattr drv fd t s = (case outcome s of (Some e, s) \<Rightarrow> (-1, s) | (None, s) \<Rightarrow> (0, s\<lparr>dev := (dev s)(fd := drv (dev s fd) t)\<rparr>))"

section \<open>The operations\<close>

definition tty_cbreak :: "driver \<Rightarrow> int \<Rightarrow> tty \<Rightarrow> int \<times> tty" where
  "tty_cbreak drv fd s =
     (if ttystate s \<noteq> RESET then (-1, s\<lparr>errno := EINVAL\<rparr>)
      else case tcgetattr fd s of (None, s) \<Rightarrow> (-1, s) | (Some buf, s) \<Rightarrow>
        let s = s\<lparr>save_termios := buf\<rparr>;
            buf = buf\<lparr>c_lflag := c_lflag buf AND NOT (ECHO OR ICANON)\<rparr>;
            buf = buf\<lparr>c_cc := (c_cc buf)(VMIN := 1, VTIME := 0)\<rparr>;
            (r, s) = tcsetattr drv fd buf s
        in if r < 0 then (-1, s)
           else case tcgetattr fd s of
             (None, s) \<Rightarrow> let err = errno s; (r, s) = tcsetattr drv fd (save_termios s) s in (-1, s\<lparr>errno := err\<rparr>)
           | (Some buf, s) \<Rightarrow>
               if c_lflag buf AND (ECHO OR ICANON) \<noteq> 0 \<or> c_cc buf VMIN \<noteq> 1 \<or> c_cc buf VTIME \<noteq> 0
               then let (r, s) = tcsetattr drv fd (save_termios s) s in (-1, s\<lparr>errno := EINVAL\<rparr>)
               else (0, s\<lparr>ttystate := CBREAK, ttysavefd := fd\<rparr>))"

text \<open>The settings that \<open>tty_raw\<close> asks for: the copy does not clear \<open>INPCK\<close>.\<close>

definition raw_settings :: "termios \<Rightarrow> termios" where
  "raw_settings buf =
     (let buf = buf\<lparr>c_lflag := c_lflag buf AND NOT (ECHO OR ICANON OR IEXTEN OR ISIG)\<rparr>;
          buf = buf\<lparr>c_iflag := c_iflag buf AND NOT (BRKINT OR ICRNL OR INPCK OR ISTRIP OR IXON)\<rparr>;
          buf = buf\<lparr>c_cflag := c_cflag buf AND NOT (CSIZE OR PARENB)\<rparr>;
          buf = buf\<lparr>c_cflag := c_cflag buf OR CS8\<rparr>;
          buf = buf\<lparr>c_oflag := c_oflag buf AND NOT OPOST\<rparr>
      in buf\<lparr>c_cc := (c_cc buf)(VMIN := 1, VTIME := 0)\<rparr>)"

definition raw_settings_copy :: "termios \<Rightarrow> termios" where
  "raw_settings_copy buf =
     (let buf = buf\<lparr>c_lflag := c_lflag buf AND NOT (ECHO OR ICANON OR IEXTEN OR ISIG)\<rparr>;
          buf = buf\<lparr>c_iflag := c_iflag buf AND NOT (BRKINT OR ICRNL OR ISTRIP OR IXON)\<rparr>;
          buf = buf\<lparr>c_cflag := c_cflag buf AND NOT (CSIZE OR PARENB)\<rparr>;
          buf = buf\<lparr>c_cflag := c_cflag buf OR CS8\<rparr>;
          buf = buf\<lparr>c_oflag := c_oflag buf AND NOT OPOST\<rparr>
      in buf\<lparr>c_cc := (c_cc buf)(VMIN := 1, VTIME := 0)\<rparr>)"

definition tty_raw_with :: "(termios \<Rightarrow> termios) \<Rightarrow> driver \<Rightarrow> int \<Rightarrow> tty \<Rightarrow> int \<times> tty" where
  "tty_raw_with settings drv fd s =
     (if ttystate s \<noteq> RESET then (-1, s\<lparr>errno := EINVAL\<rparr>)
      else case tcgetattr fd s of (None, s) \<Rightarrow> (-1, s) | (Some buf, s) \<Rightarrow>
        let s = s\<lparr>save_termios := buf\<rparr>;
            buf = settings buf;
            (r, s) = tcsetattr drv fd buf s
        in if r < 0 then (-1, s)
           else case tcgetattr fd s of
             (None, s) \<Rightarrow> let err = errno s; (r, s) = tcsetattr drv fd (save_termios s) s in (-1, s\<lparr>errno := err\<rparr>)
           | (Some buf, s) \<Rightarrow>
               if c_lflag buf AND (ECHO OR ICANON OR IEXTEN OR ISIG) \<noteq> 0 \<or>
                  c_iflag buf AND (BRKINT OR ICRNL OR INPCK OR ISTRIP OR IXON) \<noteq> 0 \<or>
                  c_cflag buf AND (CSIZE OR PARENB OR CS8) \<noteq> CS8 \<or>
                  c_oflag buf AND OPOST \<noteq> 0 \<or> c_cc buf VMIN \<noteq> 1 \<or> c_cc buf VTIME \<noteq> 0
               then let (r, s) = tcsetattr drv fd (save_termios s) s in (-1, s\<lparr>errno := EINVAL\<rparr>)
               else (0, s\<lparr>ttystate := RAW, ttysavefd := fd\<rparr>))"

definition tty_raw :: "driver \<Rightarrow> int \<Rightarrow> tty \<Rightarrow> int \<times> tty" where
  "tty_raw = tty_raw_with raw_settings"

definition tty_raw_copy :: "driver \<Rightarrow> int \<Rightarrow> tty \<Rightarrow> int \<times> tty" where
  "tty_raw_copy = tty_raw_with raw_settings_copy"

definition tty_reset :: "driver \<Rightarrow> int \<Rightarrow> tty \<Rightarrow> int \<times> tty" where
  "tty_reset drv fd s =
     (if ttystate s = RESET then (0, s)
      else let (r, s) = tcsetattr drv fd (save_termios s) s in if r < 0 then (-1, s) else (0, s\<lparr>ttystate := RESET\<rparr>))"

definition tty_atexit :: "driver \<Rightarrow> tty \<Rightarrow> tty" where
  "tty_atexit drv s = (if 0 \<le> ttysavefd s then snd (tty_reset drv (ttysavefd s) s) else s)"

definition tty_termios :: "tty \<Rightarrow> termios" where
  "tty_termios s = save_termios s"

section \<open>Both modes are entered the same way\<close>

definition is_cbreak :: "termios \<Rightarrow> bool" where
  "is_cbreak t \<longleftrightarrow> c_lflag t AND (ECHO OR ICANON) = 0 \<and> c_cc t VMIN = 1 \<and> c_cc t VTIME = 0"

definition is_raw :: "termios \<Rightarrow> bool" where
  "is_raw t \<longleftrightarrow> c_lflag t AND (ECHO OR ICANON OR IEXTEN OR ISIG) = 0 \<and> c_iflag t AND (BRKINT OR ICRNL OR INPCK OR ISTRIP OR IXON) = 0 \<and>
     c_cflag t AND (CSIZE OR PARENB OR CS8) = CS8 \<and> c_oflag t AND OPOST = 0 \<and> c_cc t VMIN = 1 \<and> c_cc t VTIME = 0"

definition cbreak_settings :: "termios \<Rightarrow> termios" where
  "cbreak_settings t = t\<lparr>c_lflag := c_lflag t AND NOT (ECHO OR ICANON), c_cc := (c_cc t)(VMIN := 1, VTIME := 0)\<rparr>"

definition enter :: "(termios \<Rightarrow> termios) \<Rightarrow> (termios \<Rightarrow> bool) \<Rightarrow> tstate \<Rightarrow> driver \<Rightarrow> int \<Rightarrow> tty \<Rightarrow> int \<times> tty" where
  "enter chg good m drv fd s =
     (if ttystate s \<noteq> RESET then (-1, s\<lparr>errno := EINVAL\<rparr>)
      else case tcgetattr fd s of (None, s) \<Rightarrow> (-1, s) | (Some buf, s) \<Rightarrow>
        let s = s\<lparr>save_termios := buf\<rparr>; (r, s) = tcsetattr drv fd (chg buf) s
        in if r < 0 then (-1, s)
           else case tcgetattr fd s of
             (None, s) \<Rightarrow> let err = errno s; (r, s) = tcsetattr drv fd (save_termios s) s in (-1, s\<lparr>errno := err\<rparr>)
           | (Some buf, s) \<Rightarrow>
               if \<not> good buf then let (r, s) = tcsetattr drv fd (save_termios s) s in (-1, s\<lparr>errno := EINVAL\<rparr>)
               else (0, s\<lparr>ttystate := m, ttysavefd := fd\<rparr>))"

lemma tty_cbreak_enter: "tty_cbreak = enter cbreak_settings is_cbreak CBREAK"
  by (intro ext) (simp add: tty_cbreak_def enter_def is_cbreak_def cbreak_settings_def Let_def split: prod.splits option.splits)

lemma tty_raw_with_enter: "tty_raw_with settings = enter settings is_raw RAW"
  by (intro ext) (simp add: tty_raw_with_def enter_def is_raw_def Let_def split: prod.splits option.splits)

lemmas tty_enter = tty_cbreak_enter tty_raw_def tty_raw_copy_def tty_raw_with_enter

lemma outcome_Nil: "outcomes s = [] \<Longrightarrow> outcome s = (None, s)"
  by (simp add: outcome_def)

lemma and_not_and: "(x AND NOT m) AND m = (0 :: 32 word)"
  by (rule bit_eqI) (simp add: bit_simps)

lemma settings_good: "is_cbreak (cbreak_settings t)" "is_raw (raw_settings t)"
proof -
  show "is_cbreak (cbreak_settings t)" using and_not_and [of "c_lflag t" 10] by (simp add: is_cbreak_def cbreak_settings_def)
  show "is_raw (raw_settings t)"
    using and_not_and [of "c_lflag t" 32779] and_not_and [of "c_iflag t" 1330] and_not_and [of "c_cflag t" 304] and_not_and [of "c_oflag t" 1]
    by (simp add: is_raw_def raw_settings_def Let_def bit.conj_disj_distrib bit.conj_disj_distrib2)
qed

lemma copy_settings_bad: "c_iflag t AND INPCK \<noteq> 0 \<Longrightarrow> \<not> is_raw (raw_settings_copy t)"
  by (simp add: is_raw_def raw_settings_copy_def Let_def and.assoc)

lemma get_facts:
  "tcgetattr fd s = (x, s') \<Longrightarrow> dev s' = dev s \<and> save_termios s' = save_termios s \<and> ttysavefd s' = ttysavefd s \<and> ttystate s' = ttystate s \<and>
     outcomes s' = drop 1 (outcomes s) \<and> (x = None \<or> x = Some (dev s fd))"
  by (auto simp: tcgetattr_def outcome_def split: list.splits option.splits)

lemma set_facts:
  "tcsetattr drv fd t s = (r, s') \<Longrightarrow> save_termios s' = save_termios s \<and> ttysavefd s' = ttysavefd s \<and> ttystate s' = ttystate s \<and>
     outcomes s' = drop 1 (outcomes s) \<and>
     (r = 0 \<and> dev s' = (dev s)(fd := drv (dev s fd) t) \<or> r = -1 \<and> dev s' = dev s \<and> (\<exists>e. outcomes s \<noteq> [] \<and> hd (outcomes s) = Some e))"
  by (auto simp: tcsetattr_def outcome_def split: list.splits option.splits)

lemma set_fine: "set (outcomes s) \<subseteq> {None} \<Longrightarrow> tcsetattr drv fd t s = (r, s') \<Longrightarrow> r = 0 \<and> dev s' = (dev s)(fd := drv (dev s fd) t)"
  using set_facts [of drv fd t s r s'] by (cases "outcomes s") auto

text \<open>What entering a mode does, on every path.\<close>

lemma enter_spec:
  assumes e: "enter chg good m drv fd s = (r, s')"
  shows "r = 0 \<and> ttystate s = RESET \<and> ttystate s' = m \<and> ttysavefd s' = fd \<and> save_termios s' = dev s fd \<and> good (dev s' fd) \<and>
      dev s' = (dev s)(fd := drv (dev s fd) (chg (dev s fd)))
    \<or> r = -1 \<and> ttystate s' = ttystate s \<and> ttysavefd s' = ttysavefd s \<and> (ttystate s \<noteq> RESET \<longrightarrow> save_termios s' = save_termios s) \<and>
      (\<forall>f. f \<noteq> fd \<longrightarrow> dev s' f = dev s f) \<and>
      (set (drop 3 (outcomes s)) \<subseteq> {None} \<longrightarrow> (\<forall>cur. drv cur (dev s fd) = dev s fd) \<longrightarrow> dev s' = dev s)"
proof (cases "ttystate s = RESET")
  case False
  then show ?thesis using e by (auto simp: enter_def)
next
  case R: True
  obtain x s1 where g: "tcgetattr fd s = (x, s1)" by (cases "tcgetattr fd s")
  note G = get_facts [OF g]
  show ?thesis
  proof (cases x)
    case None
    then show ?thesis using e R g G by (auto simp: enter_def)
  next
    case (Some buf)
    then have buf: "buf = dev s fd" using G by simp
    obtain q s2 where t: "tcsetattr drv fd (chg buf) (s1\<lparr>save_termios := buf\<rparr>) = (q, s2)" by fastforce
    note T = set_facts [OF t, simplified]
    show ?thesis
    proof (cases "q < 0")
      case True
      then show ?thesis using e R g G Some t T by (auto simp: enter_def Let_def)
    next
      case q: False
      then have d2: "dev s2 = (dev s)(fd := drv (dev s fd) (chg (dev s fd)))" using T G buf by auto
      obtain y s3 where h: "tcgetattr fd s2 = (y, s3)" by (cases "tcgetattr fd s2")
      note H = get_facts [OF h]
      show ?thesis
      proof (cases "\<exists>b. y = Some b \<and> good b")
        case True
        then show ?thesis using e R g G Some buf t T q h H d2 by (auto simp: enter_def Let_def)
      next
        case bad: False
        obtain w s4 where u: "tcsetattr drv fd (save_termios s3) s3 = (w, s4)" by fastforce
        note U = set_facts [OF u]
        have s': "r = -1" "dev s' = dev s4" "ttystate s' = ttystate s4" "ttysavefd s' = ttysavefd s4"
          using e R g Some t q h u bad by (auto simp: enter_def Let_def split: option.splits if_splits)
        have sv: "save_termios s3 = dev s fd" "outcomes s3 = drop 3 (outcomes s)" "dev s3 = dev s2" "ttystate s3 = ttystate s" "ttysavefd s3 = ttysavefd s"
          using T H G buf by (simp_all add: numeral_3_eq_3)
        have "dev s4 = dev s" if "set (drop 3 (outcomes s)) \<subseteq> {None}" "\<forall>cur. drv cur (dev s fd) = dev s fd"
          using set_fine [OF _ u] that sv d2 by simp
        moreover have "\<forall>f. f \<noteq> fd \<longrightarrow> dev s4 f = dev s f" using U sv d2 by auto
        ultimately show ?thesis using s' U sv R by simp
      qed
    qed
  qed
qed

section \<open>Properties\<close>

text \<open>A mode is entered or the terminal is as before: whatever the driver does and whichever calls fail, \<open>tty_raw\<close> and
  \<open>tty_cbreak\<close> return 0 only with the terminal in the mode (every flag checked), the old settings saved and the state changed; otherwise they return -1,
  leave the state and all other terminals alone, and, if the driver accepts its own old settings and the restoring call works, the settings too.\<close>

theorem tty_modes_verified:
  assumes "tty_raw drv fd s = (r, s') \<and> m = RAW \<and> good = is_raw \<or> tty_cbreak drv fd s = (r, s') \<and> m = CBREAK \<and> good = is_cbreak"
  shows "(r = 0 \<or> r = -1) \<and> (\<forall>f. f \<noteq> fd \<longrightarrow> dev s' f = dev s f) \<and>
    (r = 0 \<longrightarrow> good (dev s' fd) \<and> ttystate s = RESET \<and> ttystate s' = m \<and> tty_termios s' = dev s fd \<and> ttysavefd s' = fd) \<and>
    (r = -1 \<longrightarrow> ttystate s' = ttystate s \<and> ttysavefd s' = ttysavefd s \<and>
       (set (drop 3 (outcomes s)) \<subseteq> {None} \<and> (\<forall>cur. drv cur (dev s fd) = dev s fd) \<longrightarrow> dev s' = dev s))"
proof -
  obtain chg where "enter chg good m drv fd s = (r, s')" using assms unfolding tty_enter by blast
  then show ?thesis using enter_spec [of chg good m drv fd s r s'] by (auto simp: tty_termios_def)
qed

text \<open>The calls a program makes on its terminals, each with the outcomes of the calls of \<open>tcgetattr\<close> and \<open>tcsetattr\<close> in it.\<close>

datatype tty_op = Raw | Cbreak | Reset

type_synonym tty_step = "tty_op \<times> int \<times> int option list"

fun tty_call :: "driver \<Rightarrow> tty_step \<Rightarrow> tty \<Rightarrow> tty" where
  "tty_call drv (Raw, fd, os) s = snd (tty_raw drv fd (s\<lparr>outcomes := os\<rparr>))"
| "tty_call drv (Cbreak, fd, os) s = snd (tty_cbreak drv fd (s\<lparr>outcomes := os\<rparr>))"
| "tty_call drv (Reset, fd, os) s = snd (tty_reset drv fd (s\<lparr>outcomes := os\<rparr>))"

text \<open>A program resets the terminal whose mode it has changed, and a call that restores the old settings in \<open>tty_raw\<close> or \<open>tty_cbreak\<close>, the fourth there, works;
  every other call may fail.\<close>

fun proper :: "driver \<Rightarrow> tty_step list \<Rightarrow> tty \<Rightarrow> bool" where
  "proper drv [] s = True"
| "proper drv ((p, fd, os) # ops) s =
     (0 \<le> fd \<and> (if p = Reset then ttystate s = RESET \<or> fd = ttysavefd s else set (drop 3 os) \<subseteq> {None}) \<and> proper drv ops (tty_call drv (p, fd, os) s))"

definition restorable :: "(int \<Rightarrow> termios) \<Rightarrow> tty \<Rightarrow> bool" where
  "restorable d s \<longleftrightarrow> (if ttystate s = RESET then dev s = d
     else save_termios s = d (ttysavefd s) \<and> 0 \<le> ttysavefd s \<and> (\<forall>f. f \<noteq> ttysavefd s \<longrightarrow> dev s f = d f))"

lemma enter_restorable:
  assumes d: "\<forall>f cur. drv cur (d f) = d f" and s: "restorable d s" and m: "m \<noteq> RESET" "0 \<le> fd" "set (drop 3 (outcomes s)) \<subseteq> {None}"
  shows "restorable d (snd (enter chg good m drv fd s))"
proof -
  obtain r s' where e: "enter chg good m drv fd s = (r, s')" by (cases "enter chg good m drv fd s")
  have "r = -1 \<Longrightarrow> ttystate s \<noteq> RESET \<Longrightarrow> dev s' = dev s" using e by (auto simp: enter_def)
  then show ?thesis using enter_spec [OF e] e s m d by (auto simp: restorable_def split: if_splits)
qed

lemma reset_restores:
  assumes d: "\<forall>f cur. drv cur (d f) = d f" and s: "restorable d s" and fd: "ttystate s = RESET \<or> fd = ttysavefd s"
  shows "restorable d (snd (tty_reset drv fd s))" "outcomes s = [] \<Longrightarrow> dev (snd (tty_reset drv fd s)) = d"
proof -
  obtain r s' where t: "tcsetattr drv fd (save_termios s) s = (r, s')" by fastforce
  have "dev s' = d" if "ttystate s \<noteq> RESET" "r = 0" using set_facts [OF t] s fd d that by (auto simp: restorable_def)
  then show "restorable d (snd (tty_reset drv fd s))" using set_facts [OF t] s t by (auto simp: tty_reset_def restorable_def Let_def)
  show "dev (snd (tty_reset drv fd s)) = d" if "outcomes s = []"
    using that set_facts [OF t] s t \<open>ttystate s \<noteq> RESET \<Longrightarrow> r = 0 \<Longrightarrow> dev s' = d\<close> by (auto simp: tty_reset_def restorable_def Let_def)
qed

lemma call_restorable:
  assumes d: "\<forall>f cur. drv cur (d f) = d f" and s: "restorable d s" and p: "proper drv [(p, fd, os)] s"
  shows "restorable d (tty_call drv (p, fd, os) s)"
proof -
  have s': "restorable d (s\<lparr>outcomes := os\<rparr>)" using s by (simp add: restorable_def)
  show ?thesis using enter_restorable [OF d s', of _ fd] reset_restores(1) [OF d s', of fd] p by (cases p) (simp_all add: tty_enter)
qed

text \<open>C17: A program leaves its terminals as it found them: after any sequence of mode changes, successful or not, on any descriptors, \<open>tty_atexit\<close> gives every
  terminal its original settings. The program must reset no terminal but the one whose mode it has changed; any call of \<open>tcgetattr\<close> and \<open>tcsetattr\<close> may fail, except the
  \<open>tcsetattr\<close> by which \<open>tty_raw\<close> or \<open>tty_cbreak\<close> takes back a change and that of \<open>tty_atexit\<close>; the driver must accept the settings that a terminal
  had at the start, and may refuse all others in part.\<close>

theorem tty_session_restores:
  assumes "ttystate s = RESET" "\<forall>f cur. drv cur (dev s f) = dev s f" "proper drv ops s"
  shows "dev (tty_atexit drv ((fold (tty_call drv) ops s)\<lparr>outcomes := []\<rparr>)) = dev s"
proof -
  have "restorable (dev s) (fold (tty_call drv) ops t)" if "restorable (dev s) t" "proper drv ops t" for t
    using that
  proof (induction ops arbitrary: t)
    case (Cons st ops)
    obtain p fd os where st: "st = (p, fd, os)" by (cases st)
    have "restorable (dev s) (tty_call drv st t)" unfolding st by (rule call_restorable [OF assms(2) Cons.prems(1)]) (use Cons.prems(2) st in simp)
    then show ?case using Cons.IH Cons.prems(2) st by simp
  qed simp
  then have r: "restorable (dev s) ((fold (tty_call drv) ops s)\<lparr>outcomes := []\<rparr>)" using assms by (simp add: restorable_def)
  then show ?thesis using reset_restores(2) [OF assms(2) r] by (auto simp: tty_atexit_def restorable_def split: if_splits)
qed

text \<open>Raw mode in the copy: with a driver that does all it is told and no failing call, \<open>tty_raw\<close> succeeds on every terminal
  in the library, and in \<open>18.11break_and_raw.c\<close> it fails with \<open>EINVAL\<close> on every terminal with parity checking on, because the copy verifies a flag
  that it has not cleared.\<close>

theorem tty_raw_copy_parity:
  assumes "ttystate s = RESET" "outcomes s = []" "\<forall>old new. drv old new = new"
  shows "fst (tty_raw drv fd s) = 0 \<and>
    (c_iflag (dev s fd) AND INPCK \<noteq> 0 \<longrightarrow> (\<exists>s'. tty_raw_copy drv fd s = (-1, s') \<and> errno s' = EINVAL \<and> dev s' = dev s))"
  using assms settings_good(2) [of "dev s fd"] copy_settings_bad [of "dev s fd"]
  by (auto simp: tty_enter enter_def tcgetattr_def tcsetattr_def outcome_Nil Let_def)

definition terminal0 :: termios where
  "terminal0 = \<lparr>c_iflag = 18, c_oflag = 5, c_cflag = 1, c_lflag = 11, c_cc = (\<lambda>i. 3)\<rparr>"

definition tty0 :: tty where
  "tty0 = \<lparr>dev = (\<lambda>_. terminal0), outcomes = [], errno = 0, save_termios = terminal0, ttysavefd = -1, ttystate = RESET\<rparr>"

theorem tty_modes_verified_witness:
  "tty_cbreak (\<lambda>old new. new) 0 tty0 = (0, snd (tty_cbreak (\<lambda>old new. new) 0 tty0)) \<and> is_cbreak (dev (snd (tty_cbreak (\<lambda>old new. new) 0 tty0)) 0)"
proof -
  have r: "tty_cbreak (\<lambda>old new. new) 0 tty0 = (0, snd (tty_cbreak (\<lambda>old new. new) 0 tty0))"
    using settings_good(1) [of terminal0] by (simp add: tty_enter enter_def tcgetattr_def tcsetattr_def outcome_Nil Let_def tty0_def)
  then show ?thesis using tty_modes_verified [of "\<lambda>old new. new" 0 tty0 0 _ CBREAK is_cbreak] by blast
qed

theorem tty_session_restores_witness:
  "dev (tty_atexit (\<lambda>old new. new) ((fold (tty_call (\<lambda>old new. new)) [(Raw, 0, [None, Some 5]), (Cbreak, 0, []), (Raw, 1, []), (Reset, 0, [Some 5])] tty0)\<lparr>outcomes := []\<rparr>)) = dev tty0"
proof -
  have "proper (\<lambda>old new. new) [(Raw, 0, [None, Some 5]), (Cbreak, 0, []), (Raw, 1, []), (Reset, 0, [Some 5])] tty0"
    using settings_good(1) [of terminal0] by (simp add: tty0_def tty_enter enter_def tcgetattr_def tcsetattr_def outcome_def Let_def)
  then show ?thesis by (intro tty_session_restores) (simp_all add: tty0_def)
qed

theorem tty_raw_copy_parity_witness:
  "\<exists>s'. tty_raw_copy (\<lambda>old new. new) 0 tty0 = (-1, s') \<and> errno s' = EINVAL \<and> dev s' = dev tty0"
  using tty_raw_copy_parity [of tty0 "\<lambda>old new. new" 0] by (simp add: tty0_def terminal0_def)

end
