(* ===== verification/File_Walk.thy ===== *)
theory File_Walk
  imports C_Library
begin

text \<open>
  Walking a file hierarchy: \<open>apue.3e/filedir/ftw8.c\<close> with \<open>apue.3e/lib/pathalloc.c\<close>, and the copy \<open>apue/4.22ftw.c\<close>, which has a \<open>path_alloc\<close> of its own.
  The pathname is kept in one buffer, an array of bytes, that grows when a directory is entered; a write outside it is a fault (\<open>None\<close>). The operating system
  answers \<open>lstat\<close> and \<open>opendir\<close> (with \<open>readdir\<close>) by pathname; whether memory of a given size can be had and what it contains
  are parameters. A directory nested without end would recurse without end; the depth of the recursion is bounded by a fuel argument.
\<close>

section \<open>The operating system and the callback\<close>

datatype ftype = S_IFREG | S_IFBLK | S_IFCHR | S_IFIFO | S_IFLNK | S_IFSOCK | S_IFDIR

datatype ftw = FTW_F | FTW_D | FTW_DNR | FTW_NS

record fsys =
  lstat :: "string \<Rightarrow> ftype option"
  opendir :: "string \<Rightarrow> string list option"
  malloc_ok :: "nat \<Rightarrow> bool"
  junk :: char

text \<open>A callback gets the pathname, the file type if known and the kind of call; \<open>None\<close>: it aborts.\<close>

type_synonym 'a func = "string \<Rightarrow> ftype option \<Rightarrow> ftw \<Rightarrow> 'a \<Rightarrow> (int \<times> 'a) option"

abbreviation "NAME_MAX \<equiv> 255 :: nat"
abbreviation "SLASH \<equiv> CHR ''/''"

datatype 'a walked = Exited | Walked int "string" 'a

section \<open>The walk\<close>

definition path_alloc :: "fsys \<Rightarrow> nat" where
  "path_alloc os = (if malloc_ok os 256 then 256 else 0)"

text \<open>The library's version: \<open>pathmax\<close> is \<open>PATH_MAX\<close> or 0 if that is not defined; \<open>pathconf\<close> gives a limit or an error number, 0 if there is no limit.\<close>

definition path_alloc_lib :: "fsys \<Rightarrow> nat \<Rightarrow> nat \<Rightarrow> nat \<Rightarrow> int + nat \<Rightarrow> nat option" where
  "path_alloc_lib os pathmax posix_version xsi_version pathconf = do {
     pathmax \<leftarrow> (if pathmax = 0 then (case pathconf of Inl errno \<Rightarrow> if errno = 0 then Some 1024 else None | Inr m \<Rightarrow> Some (m + 1)) else Some pathmax);
     let size = (if posix_version < 200112 \<and> xsi_version < 4 then pathmax + 1 else pathmax);
     if malloc_ok os size then Some size else None }"

definition realloc :: "fsys \<Rightarrow> string \<Rightarrow> nat \<Rightarrow> string option" where
  "realloc os b n = (if malloc_ok os n then Some (take n b @ replicate (n - length b) (junk os)) else None)"

definition strcpy_at :: "string \<Rightarrow> nat \<Rightarrow> string \<Rightarrow> string option" where
  "strcpy_at b n s = (if n + length s < length b then Some (take n b @ s @ NUL # drop (n + length s + 1) b) else None)"

fun dopath :: "fsys \<Rightarrow> 'a func \<Rightarrow> nat \<Rightarrow> string \<Rightarrow> 'a \<Rightarrow> 'a walked option"
and dirloop :: "fsys \<Rightarrow> 'a func \<Rightarrow> nat \<Rightarrow> nat \<Rightarrow> string list \<Rightarrow> int \<Rightarrow> string \<Rightarrow> 'a \<Rightarrow> 'a walked option" where
  "dopath os func 0 fullpath u = None"
| "dopath os func (Suc fuel) fullpath u =
     (case lstat os (cstr fullpath) of
        None \<Rightarrow> do { (r, u) \<leftarrow> func (cstr fullpath) None FTW_NS u; Some (Walked r fullpath u) }
      | Some ty \<Rightarrow>
          if ty \<noteq> S_IFDIR then do { (r, u) \<leftarrow> func (cstr fullpath) (Some ty) FTW_F u; Some (Walked r fullpath u) }
          else do {
            (ret, u) \<leftarrow> func (cstr fullpath) (Some ty) FTW_D u;
            if ret \<noteq> 0 then Some (Walked ret fullpath u)
            else let n = length (cstr fullpath); pathlen = length fullpath in
              case (if pathlen < n + NAME_MAX + 2 then realloc os fullpath (pathlen * 2) else Some fullpath) of
                None \<Rightarrow> Some Exited
              | Some fullpath \<Rightarrow> do {
                  fullpath \<leftarrow> wr fullpath n SLASH;
                  fullpath \<leftarrow> wr fullpath (n + 1) NUL;
                  case opendir os (cstr fullpath) of
                    None \<Rightarrow> do { (r, u) \<leftarrow> func (cstr fullpath) (Some ty) FTW_DNR u; Some (Walked r fullpath u) }
                  | Some names \<Rightarrow> do {
                      w \<leftarrow> dirloop os func fuel (n + 1) names ret fullpath u;
                      case w of Exited \<Rightarrow> Some Exited
                      | Walked ret fullpath u \<Rightarrow> do { fullpath \<leftarrow> wr fullpath n NUL; Some (Walked ret fullpath u) } } } })"
| "dirloop os func fuel n [] ret fullpath u = Some (Walked ret fullpath u)"
| "dirloop os func fuel n (d_name # names) ret fullpath u =
     (if d_name = ''.'' \<or> d_name = ''..'' then dirloop os func fuel n names ret fullpath u
      else do {
        fullpath \<leftarrow> strcpy_at fullpath n d_name;
        w \<leftarrow> dopath os func fuel fullpath u;
        case w of Exited \<Rightarrow> Some Exited
        | Walked ret fullpath u \<Rightarrow> if ret \<noteq> 0 then Some (Walked ret fullpath u) else dirloop os func fuel n names ret fullpath u })"

definition myftw :: "fsys \<Rightarrow> 'a func \<Rightarrow> nat \<Rightarrow> nat \<Rightarrow> string \<Rightarrow> 'a \<Rightarrow> 'a walked option" where
  "myftw os func fuel pathlen pathname u =
     (let fullpath = replicate pathlen (junk os) in
      case (if pathlen \<le> length pathname then realloc os fullpath (length pathname * 2) else Some fullpath) of
        None \<Rightarrow> Some Exited
      | Some fullpath \<Rightarrow> do { fullpath \<leftarrow> strcpy_at fullpath 0 pathname; dopath os func fuel fullpath u })"

section \<open>The program's callback\<close>

record counts =
  nreg :: nat
  ndir :: nat
  nblk :: nat
  nchr :: nat
  nfifo :: nat
  nslink :: nat
  nsock :: nat
  messages :: "string list"

abbreviation err_ret :: "string \<Rightarrow> counts \<Rightarrow> counts" where
  "err_ret m c \<equiv> c\<lparr>messages := messages c @ [m]\<rparr>"

definition count_file :: "ftype option \<Rightarrow> counts \<Rightarrow> counts option" where
  "count_file st c = (case st of
      Some S_IFREG \<Rightarrow> Some (c\<lparr>nreg := nreg c + 1\<rparr>)
    | Some S_IFBLK \<Rightarrow> Some (c\<lparr>nblk := nblk c + 1\<rparr>)
    | Some S_IFCHR \<Rightarrow> Some (c\<lparr>nchr := nchr c + 1\<rparr>)
    | Some S_IFIFO \<Rightarrow> Some (c\<lparr>nfifo := nfifo c + 1\<rparr>)
    | Some S_IFLNK \<Rightarrow> Some (c\<lparr>nslink := nslink c + 1\<rparr>)
    | Some S_IFSOCK \<Rightarrow> Some (c\<lparr>nsock := nsock c + 1\<rparr>)
    | _ \<Rightarrow> None)"

definition myfunc :: "counts func" where
  "myfunc pathname st type c = (case type of
      FTW_F \<Rightarrow> do { c \<leftarrow> count_file st c; Some (0, c) }
    | FTW_D \<Rightarrow> Some (0, c\<lparr>ndir := ndir c + 1\<rparr>)
    | FTW_DNR \<Rightarrow> Some (0, err_ret (''can't read directory '' @ pathname) c)
    | FTW_NS \<Rightarrow> Some (0, err_ret (''stat error for '' @ pathname) c))"

text \<open>The copy: the \<open>break\<close> after the count of the directories is missing.\<close>

definition myfunc_copy :: "counts func" where
  "myfunc_copy pathname st type c = (case type of
      FTW_F \<Rightarrow> do { c \<leftarrow> count_file st c; Some (0, c) }
    | FTW_D \<Rightarrow> Some (0, err_ret (''can't read directory '' @ pathname) (c\<lparr>ndir := ndir c + 1\<rparr>))
    | FTW_DNR \<Rightarrow> Some (0, err_ret (''can't read directory '' @ pathname) c)
    | FTW_NS \<Rightarrow> Some (0, err_ret (''stat error for '' @ pathname) c))"

definition ntot :: "counts \<Rightarrow> nat" where
  "ntot c = (let n = nreg c + ndir c + nblk c + nchr c + nfifo c + nslink c + nsock c in if n = 0 then 1 else n)"

section \<open>The hierarchy and the calls it should lead to\<close>

datatype tree = Leaf ftype | Unstat | Unreadable | Dir entries
and entries = Done | Entry string tree entries

abbreviation dots :: "string set" where
  "dots \<equiv> {''.'', ''..''}"

primrec names :: "entries \<Rightarrow> string list" where
  "names Done = []"
| "names (Entry nm t es) = nm # names es"

text \<open>The system shows the tree at a pathname; a name is a C string of at most \<open>NAME_MAX\<close> bytes.\<close>

primrec shows_tree :: "fsys \<Rightarrow> string \<Rightarrow> tree \<Rightarrow> bool"
and shows_entries :: "fsys \<Rightarrow> string \<Rightarrow> entries \<Rightarrow> bool" where
  "shows_tree os p (Leaf ty) \<longleftrightarrow> lstat os p = Some ty \<and> ty \<noteq> S_IFDIR"
| "shows_tree os p Unstat \<longleftrightarrow> lstat os p = None"
| "shows_tree os p Unreadable \<longleftrightarrow> lstat os p = Some S_IFDIR \<and> opendir os (p @ [SLASH]) = None"
| "shows_tree os p (Dir es) \<longleftrightarrow> lstat os p = Some S_IFDIR \<and> opendir os (p @ [SLASH]) = Some (names es) \<and> shows_entries os p es"
| "shows_entries os p Done \<longleftrightarrow> True"
| "shows_entries os p (Entry nm t es) \<longleftrightarrow> length nm \<le> NAME_MAX \<and> NUL \<notin> set nm \<and> (nm \<in> dots \<or> shows_tree os (p @ SLASH # nm) t) \<and> shows_entries os p es"

primrec depth :: "tree \<Rightarrow> nat" and depths :: "entries \<Rightarrow> nat" where
  "depth (Leaf ty) = 1"
| "depth Unstat = 1"
| "depth Unreadable = 1"
| "depth (Dir es) = Suc (depths es)"
| "depths Done = 0"
| "depths (Entry nm t es) = max (if nm \<in> dots then 0 else depth t) (depths es)"

type_synonym call = "string \<times> ftype option \<times> ftw"

primrec visits :: "string \<Rightarrow> tree \<Rightarrow> call list" and visits_in :: "string \<Rightarrow> entries \<Rightarrow> call list" where
  "visits p (Leaf ty) = [(p, Some ty, FTW_F)]"
| "visits p Unstat = [(p, None, FTW_NS)]"
| "visits p Unreadable = [(p, Some S_IFDIR, FTW_D), (p @ [SLASH], Some S_IFDIR, FTW_DNR)]"
| "visits p (Dir es) = (p, Some S_IFDIR, FTW_D) # visits_in p es"
| "visits_in p Done = []"
| "visits_in p (Entry nm t es) = (if nm \<in> dots then [] else visits (p @ SLASH # nm) t) @ visits_in p es"

text \<open>The calls in order, up to the first one that does not return 0.\<close>

fun calls :: "'a func \<Rightarrow> call list \<Rightarrow> 'a \<Rightarrow> (int \<times> 'a) option" where
  "calls func [] u = Some (0, u)"
| "calls func ((p, st, k) # vs) u = do { (r, u) \<leftarrow> func p st k u; if r \<noteq> 0 then Some (r, u) else calls func vs u }"

lemma calls_append: "calls func (vs @ ws) u = do { (r, u) \<leftarrow> calls func vs u; if r \<noteq> 0 then Some (r, u) else calls func ws u }"
  by (induction func vs u rule: calls.induct) (auto split: Option.bind_splits)

section \<open>The pathname buffer\<close>

definition holds :: "string \<Rightarrow> string \<Rightarrow> bool" where
  "holds b p \<longleftrightarrow> NUL \<notin> set p \<and> (\<exists>rest. b = p @ NUL # rest)"

lemma cstr_holds: "holds b p \<Longrightarrow> cstr b = p"
  by (auto simp: holds_def cstr_def takeWhile_append)

lemma strcpy_holds:
  assumes "take n b = q" "length q = n" "NUL \<notin> set q" "NUL \<notin> set s" "n + length s < length b"
  shows "\<exists>b'. strcpy_at b n s = Some b' \<and> holds b' (q @ s) \<and> length b' = length b"
  using assms by (auto simp: strcpy_at_def holds_def)

text \<open>The buffer of a directory: big enough for the slash and every name, after at most one doubling.\<close>

lemma enter_dir:
  assumes h: "holds b p" and l: "256 \<le> length b" and m: "\<forall>n. malloc_ok os n"
  shows "\<exists>b0 b1 b2. (if length b < length p + NAME_MAX + 2 then realloc os b (length b * 2) else Some b) = Some b0 \<and>
    wr b0 (length p) SLASH = Some b1 \<and> wr b1 (length p + 1) NUL = Some b2 \<and> holds b2 (p @ [SLASH]) \<and>
    length p + 257 \<le> length b2 \<and> length b \<le> length b2"
proof -
  obtain rest where b: "b = p @ NUL # rest" "NUL \<notin> set p" using h by (auto simp: holds_def)
  let ?b0 = "if length b < length p + NAME_MAX + 2 then b @ replicate (length b) (junk os) else b"
  define more where "more = (if length b < length p + NAME_MAX + 2 then rest @ replicate (length b) (junk os) else rest)"
  have b0: "?b0 = p @ NUL # more" using b(1) by (simp add: more_def)
  have len: "length p + 257 \<le> length ?b0" "length b \<le> length ?b0" using b l by auto
  then obtain x more' where more: "more = x # more'" using b0 by (cases more) auto
  have "(if length b < length p + NAME_MAX + 2 then realloc os b (length b * 2) else Some b) = Some ?b0" using m by (simp add: realloc_def mult_2_right)
  moreover have "wr ?b0 (length p) SLASH = Some (p @ SLASH # more)" unfolding b0 by (simp add: wr_def)
  moreover have "wr (p @ SLASH # more) (length p + 1) NUL = Some (p @ SLASH # NUL # more')" unfolding more by (simp add: wr_def list_update_append)
  moreover have "holds (p @ SLASH # NUL # more') (p @ [SLASH])" using b(2) by (auto simp: holds_def NUL_def)
  moreover have "length (p @ SLASH # NUL # more') = length ?b0" using b0 more by simp
  ultimately show ?thesis using len by metis
qed

lemma holds_take: "holds b p \<Longrightarrow> take (length p) b = p \<and> length p < length b"
  by (auto simp: holds_def)

lemma dopath_dir:
  assumes "lstat os p = Some S_IFDIR" and h: "holds b p" "256 \<le> length b" "\<forall>n. malloc_ok os n" and f: "func p (Some S_IFDIR) FTW_D u = Some (0, u1)"
  shows "\<exists>b2. holds b2 (p @ [SLASH]) \<and> length p + 257 \<le> length b2 \<and> length b \<le> length b2 \<and>
    dopath os func (Suc fuel) b u =
      (case opendir os (p @ [SLASH]) of
         None \<Rightarrow> do { (r, u) \<leftarrow> func (p @ [SLASH]) (Some S_IFDIR) FTW_DNR u1; Some (Walked r b2 u) }
       | Some nms \<Rightarrow> do {
           w \<leftarrow> dirloop os func fuel (Suc (length p)) nms 0 b2 u1;
           case w of Exited \<Rightarrow> Some Exited
           | Walked ret b3 u \<Rightarrow> do { b3 \<leftarrow> wr b3 (length p) NUL; Some (Walked ret b3 u) } })"
proof -
  obtain b0 b1 b2 where b: "(if length b < length p + NAME_MAX + 2 then realloc os b (length b * 2) else Some b) = Some b0"
    "wr b0 (length p) SLASH = Some b1" "wr b1 (length p + 1) NUL = Some b2" "holds b2 (p @ [SLASH])" "length p + 257 \<le> length b2" "length b \<le> length b2"
    using enter_dir [OF h] by blast
  show ?thesis using b(4-6)
    by (intro exI [of _ b2] conjI)
      (simp_all only: dopath.simps cstr_holds [OF h(1)] assms(1) option.case simp_thms if_False f Option.bind.simps prod.case Let_def b(1-3)
        cstr_holds [OF b(4)] Suc_eq_plus1 [of "length p"])
qed

text \<open>The walk makes the calls of the tree, and it keeps the part of the buffer before the name it was given.\<close>

lemma dopath_visits:
  fixes os :: fsys and func :: "'a func"
  assumes m: "\<forall>n. malloc_ok os n"
  shows "\<And>p b u r u' fuel. shows_tree os p t \<Longrightarrow> holds b p \<Longrightarrow> 256 \<le> length b \<Longrightarrow> depth t \<le> fuel \<Longrightarrow> calls func (visits p t) u = Some (r, u') \<Longrightarrow>
      \<exists>b'. dopath os func fuel b u = Some (Walked r b' u') \<and> take (length p) b' = p \<and> length b \<le> length b'"
    and "\<And>p b u r u' fuel. shows_entries os p es \<Longrightarrow> take (Suc (length p)) b = p @ [SLASH] \<Longrightarrow> NUL \<notin> set p \<Longrightarrow> length p + 257 \<le> length b \<Longrightarrow> depths es \<le> fuel \<Longrightarrow>
      calls func (visits_in p es) u = Some (r, u') \<Longrightarrow>
      \<exists>b'. dirloop os func fuel (Suc (length p)) (names es) 0 b u = Some (Walked r b' u') \<and> take (Suc (length p)) b' = p @ [SLASH] \<and> length b \<le> length b'"
proof (induction t and es)
  case (Leaf ty)
  then show ?case using cstr_holds [OF Leaf(2)] holds_take [OF Leaf(2)] by (cases fuel) (auto split: Option.bind_splits if_splits)
next
  case Unstat
  then show ?case using cstr_holds [OF Unstat(2)] holds_take [OF Unstat(2)] by (cases fuel) (auto split: Option.bind_splits if_splits)
next
  case Unreadable
  then obtain f where fuel: "fuel = Suc f" by (cases fuel) auto
  obtain r1 u1 where r1: "func p (Some S_IFDIR) FTW_D u = Some (r1, u1)" using Unreadable(5) by (auto simp: bind_eq_Some_conv)
  show ?case
  proof (cases "r1 = 0")
    case True
    obtain b2 where b2: "holds b2 (p @ [SLASH])" "length b \<le> length b2"
      "dopath os func (Suc f) b u = do { (r, u) \<leftarrow> func (p @ [SLASH]) (Some S_IFDIR) FTW_DNR u1; Some (Walked r b2 u) }"
      using dopath_dir [OF _ Unreadable(2,3) m, of func u u1 f] r1 True Unreadable(1) by auto
    have "take (length p) b2 = p" using b2(1) by (auto simp: holds_def)
    then show ?thesis using Unreadable(5) r1 True b2 fuel by (auto simp: bind_eq_Some_conv split: if_splits)
  next
    case False
    then show ?thesis using Unreadable r1 fuel cstr_holds [OF Unreadable(2)] holds_take [OF Unreadable(2)] by auto
  qed
next
  case (Dir es)
  then obtain f where fuel: "fuel = Suc f" "depths es \<le> f" by (cases fuel) auto
  obtain r1 u1 where r1: "func p (Some S_IFDIR) FTW_D u = Some (r1, u1)" using Dir.prems(5) by (auto simp: bind_eq_Some_conv)
  show ?case
  proof (cases "r1 = 0")
    case True
    have os: "lstat os p = Some S_IFDIR" "opendir os (p @ [SLASH]) = Some (names es)" "shows_entries os p es" using Dir.prems(1) by auto
    obtain b2 where b2: "holds b2 (p @ [SLASH])" "length b \<le> length b2" "length p + 257 \<le> length b2"
      "dopath os func (Suc f) b u = do {
           w \<leftarrow> dirloop os func f (Suc (length p)) (names es) 0 b2 u1;
           case w of Exited \<Rightarrow> Some Exited
           | Walked ret b3 u \<Rightarrow> do { b3 \<leftarrow> wr b3 (length p) NUL; Some (Walked ret b3 u) } }"
      using dopath_dir [OF os(1) Dir.prems(2,3) m, of func u u1 f] r1 True os(2) by auto
    have "calls func (visits_in p es) u1 = Some (r, u')" using Dir.prems(5) r1 True by simp
    moreover have "take (Suc (length p)) b2 = p @ [SLASH]" "NUL \<notin> set p" using holds_take [OF b2(1)] b2(1) by (auto simp: holds_def)
    ultimately obtain b3 where b3: "dirloop os func f (Suc (length p)) (names es) 0 b2 u1 = Some (Walked r b3 u')" "take (Suc (length p)) b3 = p @ [SLASH]" "length b2 \<le> length b3"
      using Dir.IH [OF os(3) _ _ b2(3) fuel(2)] by blast
    have "length p < length b3" using b2(3) b3(3) by simp
    moreover have "take (length p) b3 = p" using arg_cong [OF b3(2), of "take (length p)"] by (simp add: min_def)
    ultimately show ?thesis using b2 b3 fuel(1) by simp
  next
    case False
    then show ?thesis using Dir.prems r1 fuel cstr_holds [OF Dir.prems(2)] holds_take [OF Dir.prems(2)] by auto
  qed
next
  case Done
  then show ?case by auto
next
  case (Entry nm t es)
  show ?case
  proof (cases "nm \<in> dots")
    case True
    then show ?thesis using Entry.IH(2) [of p b fuel u r u'] Entry.prems by auto
  next
    case False
    have os: "shows_tree os (p @ SLASH # nm) t" "length nm \<le> NAME_MAX" "NUL \<notin> set nm" "shows_entries os p es" using Entry.prems(1) False by auto
    obtain b1 where b1: "strcpy_at b (Suc (length p)) nm = Some b1" "holds b1 ((p @ [SLASH]) @ nm)" "length b1 = length b"
      using strcpy_holds [OF Entry.prems(2), of nm] os Entry.prems(3,4) by (auto simp: NUL_def)
    obtain r1 u1 where r1: "calls func (visits (p @ SLASH # nm) t) u = Some (r1, u1)" "if r1 \<noteq> 0 then (r, u') = (r1, u1) else calls func (visits_in p es) u1 = Some (r, u')"
      using Entry.prems(6) False by (auto simp: calls_append bind_eq_Some_conv split: if_splits)
    obtain b2 where b2: "dopath os func fuel b1 u = Some (Walked r1 b2 u1)" "take (length (p @ SLASH # nm)) b2 = p @ SLASH # nm" "length b1 \<le> length b2"
      using Entry.IH(1) [OF os(1) _ _ _ r1(1), of b1 fuel] b1(2,3) Entry.prems(4,5) False by auto
    have t2: "take (Suc (length p)) b2 = p @ [SLASH]" using arg_cong [OF b2(2), of "take (Suc (length p))"] by (simp add: min_def)
    show ?thesis
    proof (cases "r1 = 0")
      case True
      then have "calls func (visits_in p es) u1 = Some (r, u')" using r1(2) by simp
      then obtain b3 where "dirloop os func fuel (Suc (length p)) (names es) 0 b2 u1 = Some (Walked r b3 u')" "take (Suc (length p)) b3 = p @ [SLASH]" "length b2 \<le> length b3"
        using Entry.IH(2) [OF os(4) t2 Entry.prems(3)] b1(3) b2(3) Entry.prems(4,5) by fastforce
      then show ?thesis using False b1 b2 True by auto
    next
      case stop: False
      then show ?thesis using False b1 b2 t2 r1(2) by auto
    qed
  qed
qed

section \<open>Properties\<close>

lemma myftw_visits:
  assumes "\<forall>n. malloc_ok os n" "shows_tree os pathname t" "NUL \<notin> set pathname" "256 \<le> pathlen" "depth t \<le> fuel" "calls func (visits pathname t) u = Some (r, u')"
  shows "\<exists>b. myftw os func fuel pathlen pathname u = Some (Walked r b u')"
proof -
  define b0 where "b0 = (if pathlen \<le> length pathname then replicate pathlen (junk os) @ replicate (length pathname * 2 - pathlen) (junk os) else replicate pathlen (junk os))"
  have b0: "(if pathlen \<le> length pathname then realloc os (replicate pathlen (junk os)) (length pathname * 2) else Some (replicate pathlen (junk os))) = Some b0"
    using assms(1,4) by (simp add: b0_def realloc_def min_def)
  have l: "length pathname < length b0" "256 \<le> length b0" using assms(4) by (auto simp: b0_def)
  obtain b1 where b1: "strcpy_at b0 0 pathname = Some b1" "holds b1 pathname" "length b1 = length b0"
    using strcpy_holds [of 0 b0 "[]" pathname] assms(3) l by auto
  obtain b2 where "dopath os func fuel b1 u = Some (Walked r b2 u')"
    using dopath_visits(1) [OF assms(1,2) b1(2) _ assms(5,6)] b1(3) l by auto
  then show ?thesis unfolding myftw_def Let_def b0 using b1(1) by simp
qed

text \<open>C15: The walk visits every file once, in order, with its pathname: for every hierarchy that the system shows, every
  callback, every buffer of at least 256 bytes (that of \<open>4.22ftw.c\<close>; the library's is larger) and enough memory, the calls of the callback are exactly those of
  the tree, up to the first one that does not return 0, whose value is returned; the pathname buffer is never overrun although it is doubled at most
  once per directory, and a recursion as deep as the tree is enough.\<close>

theorem ftw_visits_tree:
  assumes "\<forall>n. malloc_ok os n" "shows_tree os pathname t" "NUL \<notin> set pathname" "depth t \<le> fuel" "calls func (visits pathname t) u = Some (r, u')"
    and "pathlen = path_alloc os \<or> path_alloc_lib os 4096 posix xsi pc = Some pathlen"
  shows "\<exists>b. myftw os func fuel pathlen pathname u = Some (Walked r b u')"
proof -
  have "256 \<le> pathlen" using assms(1,6) by (auto simp: path_alloc_def path_alloc_lib_def Let_def split: if_splits)
  then show ?thesis by (rule myftw_visits [OF assms(1-3) _ assms(4,5)])
qed

text \<open>How many calls of a kind there are.\<close>

definition tally :: "ftype option \<Rightarrow> ftw \<Rightarrow> call list \<Rightarrow> nat" where
  "tally st k vs = length (filter (\<lambda>v. snd v = (st, k)) vs)"

definition good_call :: "call \<Rightarrow> bool" where
  "good_call v \<longleftrightarrow> (snd (snd v) = FTW_F \<longrightarrow> (\<exists>ty. fst (snd v) = Some ty \<and> ty \<noteq> S_IFDIR)) \<and> (snd (snd v) = FTW_D \<longrightarrow> fst (snd v) = Some S_IFDIR)"

lemma good_calls:
  "ty \<noteq> S_IFDIR \<Longrightarrow> good_call (p, Some ty, FTW_F)" "good_call (p, Some S_IFDIR, FTW_D)" "good_call (p, st, FTW_DNR)" "good_call (p, st, FTW_NS)"
  by (simp_all add: good_call_def)

lemma visits_good:
  "\<And>p. shows_tree os p t \<Longrightarrow> \<forall>v \<in> set (visits p t). good_call v" "\<And>p. shows_entries os p es \<Longrightarrow> \<forall>v \<in> set (visits_in p es). good_call v"
  by (induction t and es) (auto simp: good_calls)

definition counted :: "counts \<Rightarrow> call list \<Rightarrow> counts \<Rightarrow> bool" where
  "counted c vs c' \<longleftrightarrow> nreg c' = nreg c + tally (Some S_IFREG) FTW_F vs \<and> ndir c' = ndir c + tally (Some S_IFDIR) FTW_D vs \<and>
     nblk c' = nblk c + tally (Some S_IFBLK) FTW_F vs \<and> nchr c' = nchr c + tally (Some S_IFCHR) FTW_F vs \<and>
     nfifo c' = nfifo c + tally (Some S_IFIFO) FTW_F vs \<and> nslink c' = nslink c + tally (Some S_IFLNK) FTW_F vs \<and>
     nsock c' = nsock c + tally (Some S_IFSOCK) FTW_F vs"

definition complaint :: "bool \<Rightarrow> call \<Rightarrow> string list" where
  "complaint copy v = (case snd (snd v) of
      FTW_DNR \<Rightarrow> [''can't read directory '' @ fst v]
    | FTW_NS \<Rightarrow> [''stat error for '' @ fst v]
    | FTW_D \<Rightarrow> if copy then [''can't read directory '' @ fst v] else []
    | FTW_F \<Rightarrow> [])"

lemma myfunc_call:
  "good_call (p, st, k) \<Longrightarrow> \<exists>c1. (if copy then myfunc_copy else myfunc) p st k c = Some (0, c1) \<and> counted c [(p, st, k)] c1 \<and>
    messages c1 = messages c @ complaint copy (p, st, k)"
proof (cases k)
  case FTW_F
  assume "good_call (p, st, k)"
  then obtain ty where "st = Some ty" "ty \<noteq> S_IFDIR" using FTW_F by (auto simp: good_call_def)
  then show ?thesis using FTW_F by (cases ty) (auto simp: myfunc_def myfunc_copy_def count_file_def counted_def tally_def complaint_def)
qed (auto simp: myfunc_def myfunc_copy_def counted_def tally_def good_call_def complaint_def)

lemma myfunc_calls:
  "\<forall>v \<in> set vs. good_call v \<Longrightarrow>
    \<exists>c'. calls (if copy then myfunc_copy else myfunc) vs c = Some (0, c') \<and> counted c vs c' \<and> messages c' = messages c @ concat (map (complaint copy) vs)"
proof (induction vs arbitrary: c)
  case (Cons v vs)
  obtain p st k where v: "v = (p, st, k)" by (cases v)
  obtain c1 where c1: "(if copy then myfunc_copy else myfunc) p st k c = Some (0, c1)" "counted c [v] c1" "messages c1 = messages c @ complaint copy v"
    using myfunc_call [of p st k copy c] Cons.prems v by auto
  obtain c2 where c2: "calls (if copy then myfunc_copy else myfunc) vs c1 = Some (0, c2)" "counted c1 vs c2" "messages c2 = messages c1 @ concat (map (complaint copy) vs)"
    using Cons by auto
  have "counted c (v # vs) c2" using c1(2) c2(2) by (auto simp: counted_def tally_def)
  then show ?case using c1 c2 v by auto
qed (simp add: counted_def tally_def)

text \<open>The program counts the files: \<open>myfunc\<close> over a tree gives for each type the number of files of that type, returns
  0, and complains about exactly the files that cannot be examined and the directories that cannot be read. The copy counts the same, but for want of a \<open>break\<close>
  it complains about every directory.\<close>

theorem ftw_counts:
  assumes "\<forall>n. malloc_ok os n" "shows_tree os pathname t" "NUL \<notin> set pathname" "depth t \<le> fuel"
  shows "\<exists>b c'. myftw os (if copy then myfunc_copy else myfunc) fuel (path_alloc os) pathname c = Some (Walked 0 b c') \<and>
    counted c (visits pathname t) c' \<and> messages c' = messages c @ concat (map (complaint copy) (visits pathname t))"
proof -
  obtain c' where c': "calls (if copy then myfunc_copy else myfunc) (visits pathname t) c = Some (0, c')" "counted c (visits pathname t) c'"
    "messages c' = messages c @ concat (map (complaint copy) (visits pathname t))"
    using myfunc_calls [OF visits_good(1) [OF assms(2)]] by blast
  have "256 \<le> path_alloc os" using assms(1) by (simp add: path_alloc_def)
  then show ?thesis using myftw_visits [OF assms(1-3) _ assms(4) c'(1)] c'(2,3) by blast
qed

text \<open>An example: a directory with a file, a link and an unreadable directory.\<close>

definition fsys0 :: fsys where
  "fsys0 = \<lparr>lstat = (\<lambda>p. if p = ''d'' \<or> p = ''d/u'' then Some S_IFDIR else if p = ''d/a'' then Some S_IFREG else if p = ''d/l'' then Some S_IFLNK else None),
    opendir = (\<lambda>p. if p = ''d/'' then Some [''.'', ''..'', ''a'', ''u'', ''l''] else None), malloc_ok = (\<lambda>_. True), junk = CHR ''x''\<rparr>"

definition tree0 :: tree where
  "tree0 = Dir (Entry ''.'' Unstat (Entry ''..'' Unstat (Entry ''a'' (Leaf S_IFREG) (Entry ''u'' Unreadable (Entry ''l'' (Leaf S_IFLNK) Done)))))"

lemma tree0_shown: "shows_tree fsys0 ''d'' tree0" "\<forall>n. malloc_ok fsys0 n" "NUL \<notin> set ''d''" "depth tree0 \<le> 2"
  by (simp_all add: fsys0_def tree0_def NUL_def)

theorem ftw_visits_tree_witness:
  "\<exists>b. myftw fsys0 (\<lambda>p st k u. Some (0, u @ [p])) 2 256 ''d'' [] = Some (Walked 0 b [''d'', ''d/a'', ''d/u'', ''d/u/'', ''d/l''])"
proof (rule ftw_visits_tree [OF tree0_shown(2,1,3,4)])
  show "calls (\<lambda>p st k u. Some (0, u @ [p])) (visits ''d'' tree0) [] = Some (0, [''d'', ''d/a'', ''d/u'', ''d/u/'', ''d/l''])" by (simp add: tree0_def)
  show "256 = path_alloc fsys0 \<or> path_alloc_lib fsys0 4096 200809 700 (Inr 4096) = Some 256" by (simp add: path_alloc_def fsys0_def)
qed

theorem ftw_counts_witness:
  "\<exists>b c'. myftw fsys0 myfunc_copy 2 256 ''d'' \<lparr>nreg = 0, ndir = 0, nblk = 0, nchr = 0, nfifo = 0, nslink = 0, nsock = 0, messages = []\<rparr> = Some (Walked 0 b c') \<and>
    nreg c' = 1 \<and> ndir c' = 2 \<and> nslink c' = 1 \<and> messages c' = [''can't read directory d'', ''can't read directory d/u'', ''can't read directory d/u/'']"
  using ftw_counts [OF tree0_shown(2,1,3,4), of True "\<lparr>nreg = 0, ndir = 0, nblk = 0, nchr = 0, nfifo = 0, nslink = 0, nsock = 0, messages = []\<rparr>"]
  by (auto simp: counted_def tally_def complaint_def tree0_def path_alloc_def fsys0_def)

end
