(* ===== verification/Rot13.thy ===== *)
theory Rot13
  imports Prelude "HOL-Library.Word"
begin

text \<open>
  The ROT-13 filters: \<open>apue.3e/advio/rot13a.c\<close> with plain reads and writes, and \<open>apue/14.5.3rot_13_aio.c\<close> (and \<open>apue.3e/advio/rot13c2.c.in\<close>) with up to 8
  asynchronous operations at a time. A file is a list of bytes; the output file is kept as the bytes written at each
  offset. The operating system is a set of transitions: it may finish any operation in progress at any moment, with success, with an error, or (a write)
  with fewer bytes than asked for. Reads of the regular input file return all bytes up to the end of the file.
\<close>

section \<open>The translation\<close>

type_synonym byte = "8 word"

definition isalpha :: "byte \<Rightarrow> bool" where
  "isalpha c \<longleftrightarrow> 65 \<le> c \<and> c \<le> 90 \<or> 97 \<le> c \<and> c \<le> 122"

definition translate :: "byte \<Rightarrow> byte" where
  "translate c =
     (if isalpha c then
        if 110 \<le> c then c - 13
        else if 97 \<le> c then c + 13
        else if 78 \<le> c then c - 13
        else c + 13
      else c)"

lemma translate_involution: "translate (translate c) = c"
proof -
  have u: "unat (c - 13) = unat c - 13" if "65 \<le> unat c" using that by unat_arith
  have v: "unat (c + 13) = unat c + 13" if "unat c < 110" using that by (simp add: unat_word_ariths)
  consider "isalpha c" "110 \<le> unat c" | "isalpha c" "97 \<le> unat c" "unat c < 110" | "isalpha c" "78 \<le> unat c" "unat c \<le> 90" | "isalpha c" "unat c < 78" | "\<not> isalpha c"
    by (cases "isalpha c"; cases "110 \<le> unat c"; cases "97 \<le> unat c"; cases "78 \<le> unat c") (auto simp: isalpha_def word_le_nat_alt)
  then show ?thesis by cases (auto simp: translate_def isalpha_def word_le_nat_alt u v)
qed

section \<open>With plain reads and writes\<close>

text \<open>\<open>reads\<close>: what each call of \<open>read\<close> gives, \<open>None\<close> for an error; \<open>writes\<close>: what each call of \<open>write\<close> returns, all bytes when the list has ended.\<close>

datatype exit_status = Exit_ok | Err_sys | Err_quit

fun rot13a_loop :: "byte list option list \<Rightarrow> int list \<Rightarrow> byte list \<Rightarrow> exit_status \<times> byte list" where
  "rot13a_loop (Some d # rs) ws out =
     (if d = [] then (Exit_ok, out)
      else let n = int (length d); buf = map translate d; nw = (case ws of [] \<Rightarrow> n | w # _ \<Rightarrow> w); out' = out @ take (nat nw) buf
        in if nw \<noteq> n then (if nw < 0 then (Err_sys, out) else (Err_quit, out')) else rot13a_loop rs (drop 1 ws) out')"
| "rot13a_loop (None # rs) ws out = (Exit_ok, out)"
| "rot13a_loop [] ws out = (Exit_ok, out)"

lemma rot13a_loop_ok:
  "rot13a_loop (map Some ds) ws out = (Exit_ok, out') \<Longrightarrow> [] \<notin> set ds \<Longrightarrow> out' = out @ map translate (concat ds)"
proof (induction ds arbitrary: ws out)
  case (Cons d ds)
  then have "rot13a_loop (map Some ds) (drop 1 ws) (out @ map translate d) = (Exit_ok, out')" by (auto simp: Let_def split: if_splits)
  then show ?case using Cons.IH Cons.prems(2) by fastforce
qed simp

section \<open>With asynchronous operations\<close>

definition BSZ :: nat where "BSZ = 4096"
definition NBUF :: nat where "NBUF = 8"

abbreviation "EINPROGRESS \<equiv> 115 :: int"

datatype rwop = UNUSED | READ_PENDING | WRITE_PENDING

text \<open>What the system knows of a request: in progress; finished with an error (0: none) and a count; its result fetched by \<open>aio_return\<close>,
  after which the answers of \<open>aio_error\<close> and \<open>aio_return\<close> are unspecified.\<close>

datatype aio_stat = In_progress | Finished int nat | Fetched

record buf =
  rw :: rwop
  lastb :: bool
  to_out :: bool
  offset :: nat
  nbytes :: nat
  bdata :: "byte list"
  stat :: aio_stat

datatype apc = Scan nat | Suspended | Exit_0 | Failed

record aio =
  bufs :: "buf list"
  aiolist :: "bool list"
  off :: nat
  numop :: int
  pc :: apc
  outf :: "nat \<Rightarrow> byte option"

text \<open>The answers of the system in one visit: whether it accepts a new request, and what it says of a request whose result has been fetched.\<close>

record answer =
  accepted :: bool
  stale_error :: int
  stale_return :: int

definition aio_error :: "answer \<Rightarrow> buf \<Rightarrow> int" where
  "aio_error ans b = (case stat b of In_progress \<Rightarrow> EINPROGRESS | Finished e n \<Rightarrow> e | Fetched \<Rightarrow> stale_error ans)"

definition aio_return :: "answer \<Rightarrow> buf \<Rightarrow> int" where
  "aio_return ans b = (case stat b of Finished e n \<Rightarrow> int n | _ \<Rightarrow> stale_return ans)"

text \<open>The body of the loop over the buffers. \<open>reset\<close>: the buffer is marked as unused when its write is done, which \<open>14.5.3rot_13_aio.c\<close> omits.\<close>

definition visit :: "bool \<Rightarrow> nat \<Rightarrow> answer \<Rightarrow> nat \<Rightarrow> aio \<Rightarrow> aio" where
  "visit reset st_size ans i s =
     (let b = bufs s ! i; next_i = s\<lparr>pc := Scan (Suc i)\<rparr>; fail = s\<lparr>pc := Failed\<rparr> in
      case rw b of
        UNUSED \<Rightarrow>
          if off s < st_size then
            let b = b\<lparr>rw := READ_PENDING, to_out := False, offset := off s\<rparr>;
                off' = off s + BSZ;
                b = (if st_size \<le> off' then b\<lparr>lastb := True\<rparr> else b);
                b = b\<lparr>nbytes := BSZ\<rparr>
            in if \<not> accepted ans then fail
               else next_i\<lparr>bufs := (bufs s)[i := b\<lparr>stat := In_progress\<rparr>], off := off', aiolist := (aiolist s)[i := True], numop := numop s + 1\<rparr>
          else next_i
      | READ_PENDING \<Rightarrow>
          if aio_error ans b = EINPROGRESS then next_i
          else if aio_error ans b \<noteq> 0 then fail
          else let n = aio_return ans b in
            if n < 0 then fail
            else if n \<noteq> int BSZ \<and> \<not> lastb b then fail
            else let b = b\<lparr>bdata := map translate (take (nat n) (bdata b)) @ drop (nat n) (bdata b)\<rparr>;
                     b = b\<lparr>rw := WRITE_PENDING, to_out := True, nbytes := nat n\<rparr>
                 in if \<not> accepted ans then fail else next_i\<lparr>bufs := (bufs s)[i := b\<lparr>stat := In_progress\<rparr>]\<rparr>
      | WRITE_PENDING \<Rightarrow>
          if aio_error ans b = EINPROGRESS then next_i
          else if aio_error ans b \<noteq> 0 then fail
          else let n = aio_return ans b in
            if n < 0 then fail
            else if n \<noteq> int (nbytes b) then fail
            else let b = b\<lparr>stat := Fetched\<rparr>; b = (if reset then b\<lparr>rw := UNUSED\<rparr> else b)
                 in next_i\<lparr>bufs := (bufs s)[i := b], aiolist := (aiolist s)[i := False], numop := numop s - 1\<rparr>)"

text \<open>What follows the loop over the buffers.\<close>

definition scan_end :: "nat \<Rightarrow> answer \<Rightarrow> aio \<Rightarrow> aio" where
  "scan_end st_size ans s =
     (if numop s = 0 then
        if st_size \<le> off s then s\<lparr>pc := (if accepted ans then Exit_0 else Failed)\<rparr> else s\<lparr>pc := Scan 0\<rparr>
      else s\<lparr>pc := Suspended\<rparr>)"

text \<open>The transitions. Without \<open>faulty\<close> the system accepts every request and finishes each in full and without error.\<close>

inductive astep :: "bool \<Rightarrow> bool \<Rightarrow> byte list \<Rightarrow> aio \<Rightarrow> aio \<Rightarrow> bool" for faulty reset inp where
  visit: "pc s = Scan i \<Longrightarrow> i < NBUF \<Longrightarrow> accepted ans \<or> faulty \<Longrightarrow> astep faulty reset inp s (visit reset (length inp) ans i s)"
| scan_end: "pc s = Scan NBUF \<Longrightarrow> accepted ans \<or> faulty \<Longrightarrow> astep faulty reset inp s (scan_end (length inp) ans s)"
| resume: "pc s = Suspended \<Longrightarrow> i < NBUF \<Longrightarrow> aiolist s ! i \<Longrightarrow> stat (bufs s ! i) \<noteq> In_progress \<Longrightarrow> astep faulty reset inp s (s\<lparr>pc := Scan 0\<rparr>)"
| suspend_fails: "pc s = Suspended \<Longrightarrow> faulty \<Longrightarrow> astep faulty reset inp s (s\<lparr>pc := Failed\<rparr>)"
| read_done: "pc s \<noteq> Exit_0 \<Longrightarrow> pc s \<noteq> Failed \<Longrightarrow> i < NBUF \<Longrightarrow> b = bufs s ! i \<Longrightarrow> stat b = In_progress \<Longrightarrow> \<not> to_out b \<Longrightarrow> n = min (nbytes b) (length inp - offset b) \<Longrightarrow>
    astep faulty reset inp s (s\<lparr>bufs := (bufs s)[i := b\<lparr>bdata := put (bdata b) 0 (take n (drop (offset b) inp)), stat := Finished 0 n\<rparr>]\<rparr>)"
| write_done: "pc s \<noteq> Exit_0 \<Longrightarrow> pc s \<noteq> Failed \<Longrightarrow> i < NBUF \<Longrightarrow> b = bufs s ! i \<Longrightarrow> stat b = In_progress \<Longrightarrow> to_out b \<Longrightarrow> n \<le> nbytes b \<Longrightarrow> n = nbytes b \<or> faulty \<Longrightarrow>
    astep faulty reset inp s (s\<lparr>bufs := (bufs s)[i := b\<lparr>stat := Finished 0 n\<rparr>],
      outf := (\<lambda>p. if offset b \<le> p \<and> p < offset b + n then Some (bdata b ! (p - offset b)) else outf s p)\<rparr>)"
| request_fails: "pc s \<noteq> Exit_0 \<Longrightarrow> pc s \<noteq> Failed \<Longrightarrow> i < NBUF \<Longrightarrow> b = bufs s ! i \<Longrightarrow> stat b = In_progress \<Longrightarrow> faulty \<Longrightarrow> 0 < e \<Longrightarrow> e \<noteq> EINPROGRESS \<Longrightarrow>
    astep faulty reset inp s (s\<lparr>bufs := (bufs s)[i := b\<lparr>stat := Finished e 0\<rparr>]\<rparr>)"

definition abuf0 :: buf where
  "abuf0 = \<lparr>rw = UNUSED, lastb = False, to_out = False, offset = 0, nbytes = 0, bdata = replicate BSZ 0, stat = Fetched\<rparr>"

definition astart :: aio where
  "astart = \<lparr>bufs = replicate NBUF abuf0, aiolist = replicate NBUF False, off = 0, numop = 0, pc = Scan 0, outf = Map.empty\<rparr>"

section \<open>The invariant\<close>

definition cnt :: "byte list \<Rightarrow> buf \<Rightarrow> nat" where
  "cnt inp b = min BSZ (length inp - offset b)"

text \<open>One buffer: a finished read holds its block of the input, a pending write the translation of it.\<close>

definition bok :: "bool \<Rightarrow> byte list \<Rightarrow> buf \<Rightarrow> bool" where
  "bok faulty inp b \<longleftrightarrow> length (bdata b) = BSZ \<and>
     (case rw b of
        UNUSED \<Rightarrow> stat b = Fetched
      | READ_PENDING \<Rightarrow> stat b \<noteq> Fetched \<and> \<not> to_out b \<and> nbytes b = BSZ \<and> (length inp < offset b + BSZ \<longrightarrow> lastb b) \<and>
          (\<forall>n. stat b = Finished 0 n \<longrightarrow> n = cnt inp b \<and> take n (bdata b) = take n (drop (offset b) inp))
      | WRITE_PENDING \<Rightarrow> stat b \<noteq> Fetched \<and> to_out b \<and> nbytes b = cnt inp b \<and>
          take (nbytes b) (bdata b) = map translate (take (nbytes b) (drop (offset b) inp)) \<and>
          (\<forall>e n. stat b = Finished e n \<longrightarrow> faulty \<or> n = nbytes b)) \<and>
     (\<forall>e n. stat b = Finished e n \<longrightarrow> e \<noteq> EINPROGRESS \<and> (e = 0 \<or> faulty))"

definition covers :: "buf \<Rightarrow> nat \<Rightarrow> bool" where
  "covers b p \<longleftrightarrow> rw b \<noteq> UNUSED \<and> offset b \<le> p \<and> p < offset b + BSZ"

definition written :: "byte list \<Rightarrow> (nat \<Rightarrow> byte option) \<Rightarrow> buf \<Rightarrow> bool" where
  "written inp out b \<longleftrightarrow> (rw b = WRITE_PENDING \<and> stat b = Finished 0 (nbytes b) \<longrightarrow> (\<forall>p < length inp. covers b p \<longrightarrow> out p \<noteq> None))"

abbreviation used :: "buf \<Rightarrow> nat" where
  "used b \<equiv> if rw b = UNUSED then 0 else 1"

definition ainv :: "bool \<Rightarrow> byte list \<Rightarrow> aio \<Rightarrow> bool" where
  "ainv faulty inp s \<longleftrightarrow> length (bufs s) = NBUF \<and> (\<forall>j < NBUF. bok faulty inp (bufs s ! j) \<and> written inp (outf s) (bufs s ! j)) \<and>
     length (aiolist s) = NBUF \<and> (\<forall>j < NBUF. aiolist s ! j \<longleftrightarrow> rw (bufs s ! j) \<noteq> UNUSED) \<and> numop s = int (\<Sum>j<NBUF. used (bufs s ! j)) \<and>
     (\<forall>p c. outf s p = Some c \<longrightarrow> p < length inp \<and> c = translate (inp ! p)) \<and>
     (\<forall>p < length inp. p < off s \<longrightarrow> outf s p \<noteq> None \<or> (\<exists>j < NBUF. covers (bufs s ! j) p)) \<and>
     (case pc s of Scan i \<Rightarrow> i \<le> NBUF | Exit_0 \<Rightarrow> numop s = 0 \<and> length inp \<le> off s | Failed \<Rightarrow> faulty | Suspended \<Rightarrow> numop s \<noteq> 0)"

lemma ainvD:
  assumes "ainv faulty inp s"
  shows "length (bufs s) = NBUF" "j < NBUF \<Longrightarrow> bok faulty inp (bufs s ! j)" "j < NBUF \<Longrightarrow> written inp (outf s) (bufs s ! j)" "length (aiolist s) = NBUF"
    "j < NBUF \<Longrightarrow> aiolist s ! j \<longleftrightarrow> rw (bufs s ! j) \<noteq> UNUSED" "numop s = int (\<Sum>j<NBUF. used (bufs s ! j))"
    "outf s p = Some c \<Longrightarrow> p < length inp \<and> c = translate (inp ! p)"
    "p < length inp \<Longrightarrow> p < off s \<Longrightarrow> outf s p \<noteq> None \<or> (\<exists>j < NBUF. covers (bufs s ! j) p)"
  using assms unfolding ainv_def by blast+

lemma sum_upd:
  fixes f :: "'a \<Rightarrow> nat"
  assumes "i < n" "n = length xs"
  shows "(\<Sum>j<n. f (xs[i := x] ! j)) + f (xs ! i) = (\<Sum>j<n. f (xs ! j)) + f x"
proof -
  have "(\<Sum>j \<in> {..<n} - {i}. f (xs[i := x] ! j)) = (\<Sum>j \<in> {..<n} - {i}. f (xs ! j))" by (rule sum.cong) auto
  then show ?thesis using assms sum.remove [of "{..<n}" i "\<lambda>j. f (xs[i := x] ! j)"] sum.remove [of "{..<n}" i "\<lambda>j. f (xs ! j)"] by simp
qed

text \<open>A change of one buffer and of what goes with it.\<close>

lemma ainv_upd:
  assumes inv: "ainv faulty inp s" and i: "i < NBUF" and b: "bok faulty inp b" "written inp out b"
    and s': "bufs s' = (bufs s)[i := b]" "aiolist s' = (aiolist s)[i := (rw b \<noteq> UNUSED)]" "outf s' = out"
      "numop s' = numop s + int (used b) - int (used (bufs s ! i))" "off s \<le> off s'"
    and out: "\<And>p c. out p = Some c \<Longrightarrow> p < length inp \<and> c = translate (inp ! p)" "\<And>p. outf s p \<noteq> None \<Longrightarrow> out p \<noteq> None"
    and cov: "\<And>p. p < length inp \<Longrightarrow> covers (bufs s ! i) p \<Longrightarrow> out p \<noteq> None \<or> covers b p"
      "\<And>p. p < length inp \<Longrightarrow> off s \<le> p \<Longrightarrow> p < off s' \<Longrightarrow> covers b p"
    and pc: "pc s' = pc s \<or> pc s' = Scan (Suc i)" "pc s \<noteq> Exit_0" "pc s \<noteq> Failed" "pc s' = Suspended \<Longrightarrow> rw b \<noteq> UNUSED"
  shows "ainv faulty inp s'"
proof -
  note D = ainvD [OF inv]
  have n: "numop s' = int (\<Sum>j<NBUF. used (bufs s' ! j))" 
    using sum_upd [of i NBUF "bufs s" used b] i D(1,6) s'(4) unfolding s'(1) by linarith
  have w: "written inp out (bufs s ! j)" if "j < NBUF" for j using D(3) [OF that] out(2) by (auto simp: written_def)
  have c: "out p \<noteq> None \<or> (\<exists>j < NBUF. covers (bufs s' ! j) p)" if p: "p < length inp" "p < off s'" for p
  proof (cases "p < off s")
    case True
    then consider "outf s p \<noteq> None" | j where "j < NBUF" "covers (bufs s ! j) p" using D(8) p by blast
    then show ?thesis
    proof cases
      case (2 j)
      then show ?thesis using cov(1) [OF p(1)] i D(1) s'(1) by (cases "j = i") (metis length_list_update nth_list_update_eq, metis nth_list_update_neq)
    qed (use out(2) in blast)
  next
    case False
    then show ?thesis using cov(2) [OF p(1) _ p(2)] i D(1) s'(1) by (metis linorder_not_less nth_list_update_eq)
  qed
  have "rw b \<noteq> UNUSED \<Longrightarrow> 0 < (\<Sum>j<NBUF. used (bufs s' ! j))" using i D(1) s'(1) by (intro sum_pos2 [of _ i]) auto
  then have pos: "rw b \<noteq> UNUSED \<Longrightarrow> numop s' \<noteq> 0" unfolding n by linarith
  have "case pc s of Scan i \<Rightarrow> i \<le> NBUF | Exit_0 \<Rightarrow> numop s = 0 \<and> length inp \<le> off s | Failed \<Rightarrow> faulty | Suspended \<Rightarrow> numop s \<noteq> 0"
    using inv by (simp add: ainv_def)
  then have "case pc s' of Scan i \<Rightarrow> i \<le> NBUF | Exit_0 \<Rightarrow> numop s' = 0 \<and> length inp \<le> off s' | Failed \<Rightarrow> faulty | Suspended \<Rightarrow> numop s' \<noteq> 0"
    using pc i pos by (cases "pc s") (auto split: apc.splits)
  then show ?thesis unfolding ainv_def using D(1,2,4,5) i b w s' n c out(1) by (simp add: nth_list_update)
qed

text \<open>What a visit does: nothing, start a read, turn a finished read into a write, or release a finished write; it
  fails only after a fault of the system.\<close>

definition ready :: "byte list \<Rightarrow> aio \<Rightarrow> nat \<Rightarrow> bool" where
  "ready inp s j \<longleftrightarrow> (if rw (bufs s ! j) = UNUSED then off s < length inp else stat (bufs s ! j) \<noteq> In_progress)"

inductive visited :: "bool \<Rightarrow> byte list \<Rightarrow> nat \<Rightarrow> aio \<Rightarrow> aio \<Rightarrow> bool" for faulty inp i s where
  idle: "\<not> ready inp s i \<Longrightarrow> visited faulty inp i s (s\<lparr>pc := Scan (Suc i)\<rparr>)"
| fail: "faulty \<Longrightarrow> visited faulty inp i s (s\<lparr>pc := Failed\<rparr>)"
| issue: "rw (bufs s ! i) = UNUSED \<Longrightarrow> off s < length inp \<Longrightarrow> l \<longleftrightarrow> length inp \<le> off s + BSZ \<or> lastb (bufs s ! i) \<Longrightarrow> visited faulty inp i s
    (s\<lparr>pc := Scan (Suc i), bufs := (bufs s)[i := (bufs s ! i)\<lparr>rw := READ_PENDING, to_out := False, offset := off s, lastb := l, nbytes := BSZ, stat := In_progress\<rparr>],
       off := off s + BSZ, aiolist := (aiolist s)[i := True], numop := numop s + 1\<rparr>)"
| turn: "rw (bufs s ! i) = READ_PENDING \<Longrightarrow> stat (bufs s ! i) = Finished 0 n \<Longrightarrow> visited faulty inp i s
    (s\<lparr>pc := Scan (Suc i), bufs := (bufs s)[i := (bufs s ! i)\<lparr>bdata := map translate (take n (bdata (bufs s ! i))) @ drop n (bdata (bufs s ! i)),
       rw := WRITE_PENDING, to_out := True, nbytes := n, stat := In_progress\<rparr>]\<rparr>)"
| release: "rw (bufs s ! i) = WRITE_PENDING \<Longrightarrow> stat (bufs s ! i) = Finished 0 (nbytes (bufs s ! i)) \<Longrightarrow> visited faulty inp i s
    (s\<lparr>pc := Scan (Suc i), bufs := (bufs s)[i := (bufs s ! i)\<lparr>stat := Fetched, rw := UNUSED\<rparr>], aiolist := (aiolist s)[i := False], numop := numop s - 1\<rparr>)"

lemma visit_visited:
  assumes inv: "ainv faulty inp s" and i: "i < NBUF" and a: "accepted ans \<or> faulty"
  shows "visited faulty inp i s (visit True (length inp) ans i s)"
proof -
  note ok = ainvD(2) [OF inv i]
  note fail = visited.fail [of faulty inp i s]
  show ?thesis
  proof (cases "rw (bufs s ! i)")
    case UNUSED
    then have idle: "\<not> off s < length inp \<Longrightarrow> ?thesis" using visited.idle [of inp s i faulty] by (simp add: visit_def ready_def)
    have "?thesis" if "off s < length inp" "accepted ans"
      using visited.issue [OF UNUSED that(1), of "length inp \<le> off s + BSZ \<or> lastb (bufs s ! i)" faulty] UNUSED that
      by (cases "bufs s ! i"; cases "length inp \<le> off s + BSZ") (simp_all add: visit_def Let_def)
    then show ?thesis using idle a fail UNUSED by (cases "off s < length inp"; cases "accepted ans") (simp_all add: visit_def Let_def)
  next
    case READ_PENDING
    show ?thesis
    proof (cases "stat (bufs s ! i)")
      case In_progress
      then show ?thesis using READ_PENDING visited.idle [of inp s i faulty] by (simp add: visit_def ready_def aio_error_def)
    next
      case (Finished e n)
      show ?thesis
      proof (cases "e = 0")
        case True
        have "n = cnt inp (bufs s ! i)" "length inp < offset (bufs s ! i) + BSZ \<longrightarrow> lastb (bufs s ! i)" using ok READ_PENDING Finished True by (simp_all add: bok_def)
        then have "n = BSZ \<or> lastb (bufs s ! i)" by (auto simp: cnt_def)
        then show ?thesis using a fail True READ_PENDING Finished visited.turn [OF READ_PENDING, of n faulty inp]
          by (cases "accepted ans") (auto simp: visit_def aio_error_def aio_return_def Let_def)
      next
        case False
        then have "faulty" "e \<noteq> EINPROGRESS" using ok Finished by (auto simp: bok_def)
        then show ?thesis using False READ_PENDING Finished fail by (simp add: visit_def aio_error_def)
      qed
    qed (use ok READ_PENDING in \<open>simp add: bok_def\<close>)
  next
    case WRITE_PENDING
    show ?thesis
    proof (cases "stat (bufs s ! i)")
      case In_progress
      then show ?thesis using WRITE_PENDING visited.idle [of inp s i faulty] by (simp add: visit_def ready_def aio_error_def)
    next
      case (Finished e n)
      then have "e \<noteq> EINPROGRESS" "e = 0 \<or> faulty" "faulty \<or> n = nbytes (bufs s ! i)" using ok WRITE_PENDING by (auto simp: bok_def)
      then show ?thesis using WRITE_PENDING Finished fail visited.release [OF WRITE_PENDING, of faulty inp]
        by (cases "e = 0"; cases "n = nbytes (bufs s ! i)") (auto simp: visit_def aio_error_def aio_return_def Let_def)
    qed (use ok WRITE_PENDING in \<open>simp add: bok_def\<close>)
  qed
qed

lemma listed_same: "ainv faulty inp s \<Longrightarrow> i < NBUF \<Longrightarrow> (aiolist s)[i := (rw (bufs s ! i) \<noteq> UNUSED)] = aiolist s"
  by (simp add: list_update_same_conv ainvD(4) ainvD(5) [of faulty])

lemma visited_ainv:
  assumes inv: "ainv faulty inp s" and i: "pc s = Scan i" "i < NBUF" and v: "visited faulty inp i s s'"
  shows "ainv faulty inp s'"
proof -
  note ok = ainvD(2) [OF inv i(2)]
  note D = ainvD(7) [OF inv]
  from v show ?thesis
  proof cases
    case issue
    show ?thesis unfolding issue(1)
      by (rule ainv_upd [OF inv i(2), where out = "outf s"]) (use issue i ok D in \<open>auto simp: bok_def written_def covers_def split: rwop.splits\<close>)
  next
    case (turn n)
    have n: "n = cnt inp (bufs s ! i)" "n \<le> BSZ" using ok turn by (auto simp: bok_def cnt_def)
    have listed: "(aiolist s)[i := True] = aiolist s" using listed_same [OF inv i(2)] turn by simp
    show ?thesis unfolding turn(1)
      by (rule ainv_upd [OF inv i(2), where out = "outf s"]) (use turn i ok D n listed in \<open>auto simp: bok_def cnt_def written_def covers_def take_map [symmetric]\<close>)
  next
    case release
    show ?thesis unfolding release(1)
      by (rule ainv_upd [OF inv i(2), where out = "outf s"])
        (use release i ok D ainvD(3) [OF inv i(2)] in \<open>auto simp: bok_def written_def covers_def\<close>)
  qed (use inv i in \<open>auto simp: ainv_def\<close>)
qed

lemma read_done_ainv:
  assumes inv: "ainv faulty inp s" and pc: "pc s \<noteq> Exit_0" "pc s \<noteq> Failed" and i: "i < NBUF" and b: "stat (bufs s ! i) = In_progress" "\<not> to_out (bufs s ! i)"
    and n: "n = min (nbytes (bufs s ! i)) (length inp - offset (bufs s ! i))"
  shows "ainv faulty inp (s\<lparr>bufs := (bufs s)[i := (bufs s ! i)\<lparr>bdata := put (bdata (bufs s ! i)) 0 (take n (drop (offset (bufs s ! i)) inp)), stat := Finished 0 n\<rparr>]\<rparr>)"
proof -
  note ok = ainvD(2) [OF inv i]
  then have rw: "rw (bufs s ! i) = READ_PENDING" using b by (cases "rw (bufs s ! i)") (auto simp: bok_def)
  then have "n = cnt inp (bufs s ! i)" "nbytes (bufs s ! i) = BSZ" "n \<le> BSZ" using n ok by (auto simp: bok_def cnt_def)
  then show ?thesis
    by (intro ainv_upd [OF inv i, where out = "outf s" and b = "(bufs s ! i)\<lparr>bdata := put (bdata (bufs s ! i)) 0 (take n (drop (offset (bufs s ! i)) inp)), stat := Finished 0 n\<rparr>"])
      (use listed_same [OF inv i] rw pc ok ainvD(7) [OF inv] in \<open>auto simp: bok_def cnt_def written_def covers_def put_def\<close>)
qed

lemma write_done_ainv:
  assumes inv: "ainv faulty inp s" and pc: "pc s \<noteq> Exit_0" "pc s \<noteq> Failed" and i: "i < NBUF" and b: "stat (bufs s ! i) = In_progress" "to_out (bufs s ! i)"
    and n: "n \<le> nbytes (bufs s ! i)" "n = nbytes (bufs s ! i) \<or> faulty"
  shows "ainv faulty inp (s\<lparr>bufs := (bufs s)[i := (bufs s ! i)\<lparr>stat := Finished 0 n\<rparr>],
    outf := (\<lambda>p. if offset (bufs s ! i) \<le> p \<and> p < offset (bufs s ! i) + n then Some (bdata (bufs s ! i) ! (p - offset (bufs s ! i))) else outf s p)\<rparr>)"
    (is "ainv _ _ (s\<lparr>bufs := _, outf := ?out\<rparr>)")
proof -
  let ?b = "bufs s ! i"
  note ok = ainvD(2) [OF inv i]
  then have rw: "rw ?b = WRITE_PENDING" using b by (cases "rw ?b") (auto simp: bok_def)
  have nb: "nbytes ?b = cnt inp ?b" and d: "take (nbytes ?b) (bdata ?b) = map translate (take (nbytes ?b) (drop (offset ?b) inp))" "length (bdata ?b) = BSZ"
    using ok rw by (auto simp: bok_def)
  have bytes: "p < length inp \<and> bdata ?b ! (p - offset ?b) = translate (inp ! p)" if "offset ?b \<le> p" "p < offset ?b + n" for p
  proof -
    have "p - offset ?b < nbytes ?b" "p < length inp" using that n nb by (auto simp: cnt_def)
    then show ?thesis using arg_cong [OF d(1), of "\<lambda>l. l ! (p - offset ?b)"] that(1) d(2) nb by (simp add: cnt_def)
  qed
  have w: "written inp ?out (?b\<lparr>stat := Finished 0 n\<rparr>)" using nb by (auto simp: written_def covers_def cnt_def)
  show ?thesis
    by (rule ainv_upd [OF inv i _ w]) (use listed_same [OF inv i] rw pc ok n bytes ainvD(7) [OF inv] in \<open>auto simp: bok_def cnt_def covers_def split: if_splits\<close>)
qed

lemma request_fails_ainv:
  assumes inv: "ainv faulty inp s" and pc: "pc s \<noteq> Exit_0" "pc s \<noteq> Failed" and i: "i < NBUF" and b: "stat (bufs s ! i) = In_progress" and e: "faulty" "0 < e" "e \<noteq> EINPROGRESS"
  shows "ainv faulty inp (s\<lparr>bufs := (bufs s)[i := (bufs s ! i)\<lparr>stat := Finished e 0\<rparr>]\<rparr>)"
proof -
  note ok = ainvD(2) [OF inv i]
  then have rw: "rw (bufs s ! i) \<noteq> UNUSED" using b by (cases "rw (bufs s ! i)") (auto simp: bok_def)
  show ?thesis
    by (rule ainv_upd [OF inv i, where out = "outf s" and b = "(bufs s ! i)\<lparr>stat := Finished e 0\<rparr>"])
      (use listed_same [OF inv i] rw pc ok b e ainvD(7) [OF inv] in \<open>auto simp: bok_def cnt_def written_def covers_def split: rwop.splits\<close>)
qed

lemma astep_ainv:
  assumes "astep faulty True inp s s'" "ainv faulty inp s"
  shows "ainv faulty inp s'"
  using assms(1)
proof cases
  case (visit i ans)
  then show ?thesis using visited_ainv [OF assms(2)] visit_visited [OF assms(2)] by blast
next
  case (scan_end ans)
  then show ?thesis using assms(2) by (auto simp: ainv_def scan_end_def)
next
  case (read_done i b n)
  then show ?thesis using read_done_ainv [OF assms(2)] by simp
next
  case (write_done i b n)
  show ?thesis unfolding write_done(1,5) by (rule write_done_ainv [OF assms(2)]) (use write_done in simp_all)
next
  case (request_fails i b e)
  then show ?thesis using request_fails_ainv [OF assms(2)] by simp
qed (use assms(2) in \<open>auto simp: ainv_def\<close>)

lemma ainv_start: "ainv faulty inp astart"
  by (simp add: ainv_def astart_def abuf0_def bok_def written_def)

section \<open>Every run ends\<close>

text \<open>The work left: the stages of the requests and the blocks not yet asked for; and how far the next visit with something to do is.\<close>

definition weight :: "buf \<Rightarrow> nat" where
  "weight b = (case rw b of UNUSED \<Rightarrow> 0 | READ_PENDING \<Rightarrow> if stat b = In_progress then 4 else 3 | WRITE_PENDING \<Rightarrow> if stat b = In_progress then 2 else 1)"

definition blocks :: "nat \<Rightarrow> nat" where
  "blocks n = (n + (BSZ - 1)) div BSZ"

definition work :: "byte list \<Rightarrow> aio \<Rightarrow> nat" where
  "work inp s = (\<Sum>j<NBUF. weight (bufs s ! j)) + 5 * blocks (length inp - off s)"

definition distance :: "byte list \<Rightarrow> aio \<Rightarrow> nat" where
  "distance inp s = (case pc s of Scan i \<Rightarrow> (if \<exists>j. i \<le> j \<and> j < NBUF \<and> ready inp s j then 0 else NBUF + 2) + (NBUF - i) | _ \<Rightarrow> NBUF + 1)"

definition arank :: "byte list \<Rightarrow> aio \<Rightarrow> nat" where
  "arank inp s = (if pc s = Exit_0 \<or> pc s = Failed then 0 else work inp s * (2 * NBUF + 3) + distance inp s)"

lemma NBUF_pos: "0 < NBUF"
  by (simp add: NBUF_def)

lemma distance_le: "distance inp s \<le> 2 * NBUF + 2"
  using NBUF_pos by (auto simp: distance_def split: apc.splits)

lemma arank_work: "work inp s' < work inp s \<Longrightarrow> pc s \<noteq> Exit_0 \<Longrightarrow> pc s \<noteq> Failed \<Longrightarrow> arank inp s' < arank inp s"
proof -
  assume a: "work inp s' < work inp s" "pc s \<noteq> Exit_0" "pc s \<noteq> Failed"
  have "arank inp s' \<le> work inp s' * (2 * NBUF + 3) + (2 * NBUF + 2)" using distance_le [of inp s'] by (simp add: arank_def)
  also have "\<dots> < Suc (work inp s') * (2 * NBUF + 3)" by simp
  also have "\<dots> \<le> work inp s * (2 * NBUF + 3)" using a(1) by (intro mult_le_mono1) simp
  finally show ?thesis using a by (simp add: arank_def)
qed

lemma arank_distance: "work inp s' = work inp s \<Longrightarrow> distance inp s' < distance inp s \<Longrightarrow> pc s \<noteq> Exit_0 \<Longrightarrow> pc s \<noteq> Failed \<Longrightarrow> arank inp s' < arank inp s"
  by (simp add: arank_def)

lemma arank_end: "pc s' = Exit_0 \<or> pc s' = Failed \<Longrightarrow> distance inp s \<noteq> 0 \<Longrightarrow> pc s \<noteq> Exit_0 \<Longrightarrow> pc s \<noteq> Failed \<Longrightarrow> arank inp s' < arank inp s"
  by (auto simp: arank_def)

lemma blocks_step: "0 < n \<Longrightarrow> blocks n = Suc (blocks (n - BSZ))"
proof -
  assume n: "0 < n"
  have B: "0 < BSZ" by (simp add: BSZ_def)
  show ?thesis
  proof (cases "BSZ \<le> n")
    case True
    then have "n + (BSZ - 1) = (n - BSZ + (BSZ - 1)) + BSZ" by simp
    then show ?thesis unfolding blocks_def using B by (metis div_add_self2 Suc_eq_plus1 less_not_refl2)
  next
    case False
    have "(n + (BSZ - 1)) div BSZ = 1" using n False B by (intro div_nat_eqI) auto
    then show ?thesis unfolding blocks_def using False B by simp
  qed
qed

lemma work_upd:
  assumes "ainv faulty inp s" "i < NBUF" "bufs s' = (bufs s)[i := b]"
    and "off s' = off s \<and> weight b < weight (bufs s ! i) \<or> off s < length inp \<and> off s' = off s + BSZ \<and> weight b \<le> weight (bufs s ! i) + 4"
  shows "work inp s' < work inp s"
proof -
  have "(\<Sum>j<NBUF. weight (bufs s' ! j)) + weight (bufs s ! i) = (\<Sum>j<NBUF. weight (bufs s ! j)) + weight b"
    using sum_upd [of i NBUF "bufs s" weight b] assms(2,3) ainvD(1) [OF assms(1)] by simp
  moreover have "off s < length inp \<Longrightarrow> blocks (length inp - off s) = Suc (blocks (length inp - (off s + BSZ)))" using blocks_step [of "length inp - off s"] by simp
  ultimately show ?thesis using assms(4) by (auto simp: work_def)
qed

lemma visited_rank:
  assumes inv: "ainv faulty inp s" and i: "pc s = Scan i" "i < NBUF" and v: "visited faulty inp i s s'"
  shows "arank inp s' < arank inp s"
  using v
proof cases
  case idle
  have "ready inp (s\<lparr>pc := Scan (Suc i)\<rparr>) = ready inp s" by (simp add: ready_def fun_eq_iff)
  moreover have "(\<exists>j. Suc i \<le> j \<and> j < NBUF \<and> ready inp s j) \<longleftrightarrow> (\<exists>j. i \<le> j \<and> j < NBUF \<and> ready inp s j)"
    using idle(2) by (metis Suc_leD Suc_leI le_neq_implies_less)
  ultimately have "distance inp s' < distance inp s" using i idle(1) by (simp add: distance_def)
  then show ?thesis using i idle(1) by (intro arank_distance) (simp_all add: work_def)
next
  case fail
  then show ?thesis using i by (intro arank_end) (simp_all add: distance_def)
next
  case issue
  then have "work inp s' < work inp s" by (intro work_upd [OF inv i(2)]) (simp_all add: weight_def)+
  then show ?thesis using i by (intro arank_work) simp_all
next
  case (turn n)
  then have "work inp s' < work inp s" by (intro work_upd [OF inv i(2)]) (simp_all add: weight_def)+
  then show ?thesis using i by (intro arank_work) simp_all
next
  case release
  then have "work inp s' < work inp s" by (intro work_upd [OF inv i(2)]) (simp_all add: weight_def)+
  then show ?thesis using i by (intro arank_work) simp_all
qed

lemma finished_rank:
  assumes inv: "ainv faulty inp s" and pc: "pc s \<noteq> Exit_0" "pc s \<noteq> Failed" and i: "i < NBUF" "stat (bufs s ! i) = In_progress"
    and s': "bufs s' = (bufs s)[i := b]" "off s' = off s" "rw b = rw (bufs s ! i)" "stat b \<noteq> In_progress"
  shows "arank inp s' < arank inp s"
proof -
  have "rw (bufs s ! i) \<noteq> UNUSED" using ainvD(2) [OF inv i(1)] i(2) by (auto simp: bok_def)
  then have "work inp s' < work inp s" using i s' by (intro work_upd [OF inv i(1) s'(1)]) (auto simp: weight_def split: rwop.splits)
  then show ?thesis using pc by (rule arank_work)
qed

lemma unused_all: "ainv faulty inp s \<Longrightarrow> numop s = 0 \<Longrightarrow> j < NBUF \<Longrightarrow> rw (bufs s ! j) = UNUSED"
proof -
  assume a: "ainv faulty inp s" "numop s = 0" "j < NBUF"
  then have "(\<Sum>j<NBUF. used (bufs s ! j)) = 0" using ainvD(6) [OF a(1)] by (metis of_nat_eq_0_iff)
  then show ?thesis using a(3) by (auto split: if_splits)
qed

lemma astep_rank:
  assumes "astep faulty True inp s s'" "ainv faulty inp s"
  shows "arank inp s' < arank inp s"
  using assms(1)
proof cases
  case (visit i ans)
  then show ?thesis using visited_rank [OF assms(2)] visit_visited [OF assms(2)] by blast
next
  case (scan_end ans)
  have d: "distance inp s = NBUF + 2" using scan_end by (simp add: distance_def)
  show ?thesis
  proof (cases "numop s = 0 \<and> length inp \<le> off s")
    case True
    then show ?thesis using scan_end d by (intro arank_end) (simp_all add: scan_end_def)
  next
    case False
    then have "distance inp s' \<le> NBUF + 1"
      using scan_end unused_all [OF assms(2), of 0] NBUF_pos by (auto simp: distance_def scan_end_def ready_def intro!: exI [of _ 0])
    moreover have "work inp s' = work inp s" using scan_end(1) by (simp add: work_def scan_end_def)
    ultimately show ?thesis using d scan_end by (intro arank_distance) simp_all
  qed
next
  case (resume i)
  have "ready inp s' i" using resume ainvD(5) [OF assms(2) resume(3)] by (simp add: ready_def)
  then have "distance inp s' < distance inp s" using resume by (auto simp: distance_def)
  then show ?thesis using resume by (intro arank_distance) (simp_all add: work_def)
next
  case suspend_fails
  then show ?thesis by (intro arank_end) (simp_all add: distance_def)
next
  case (read_done i b n)
  then show ?thesis by (intro finished_rank [OF assms(2) read_done(2,3,4), where b = "b\<lparr>bdata := put (bdata b) 0 (take n (drop (offset b) inp)), stat := Finished 0 n\<rparr>"]) simp_all
next
  case (write_done i b n)
  then show ?thesis by (intro finished_rank [OF assms(2) write_done(2,3,4), where b = "b\<lparr>stat := Finished 0 n\<rparr>"]) simp_all
next
  case (request_fails i b e)
  then show ?thesis by (intro finished_rank [OF assms(2) request_fails(2,3,4), where b = "b\<lparr>stat := Finished e 0\<rparr>"]) simp_all
qed

section \<open>Properties\<close>

lemma astep_progress:
  assumes inv: "ainv faulty inp s" and pc: "pc s \<noteq> Exit_0" "pc s \<noteq> Failed"
  shows "\<exists>s'. astep faulty True inp s s'"
proof (cases "pc s")
  case (Scan i)
  obtain ans :: answer where ans: "accepted ans" by (metis answer.select_convs(1))
  have "i \<le> NBUF" using inv Scan by (simp add: ainv_def)
  then consider "i < NBUF" | "i = NBUF" by linarith
  then show ?thesis using astep.visit [of s i ans faulty True inp] astep.scan_end [of s ans faulty True inp] Scan ans by cases blast+
next
  case Suspended
  then have "numop s \<noteq> 0" using inv by (simp add: ainv_def)
  then have "(\<Sum>j<NBUF. used (bufs s ! j)) \<noteq> 0" using ainvD(6) [OF inv] by linarith
  then obtain j where j: "j < NBUF" "rw (bufs s ! j) \<noteq> UNUSED" by (auto split: if_splits)
  show ?thesis
  proof (cases "stat (bufs s ! j) = In_progress")
    case True
    show ?thesis
    proof (cases "to_out (bufs s ! j)")
      case o: True
      show ?thesis using astep.write_done [OF pc j(1) refl True o order_refl, of faulty True inp] by blast
    next
      case False
      show ?thesis using astep.read_done [OF pc j(1) refl True False refl, of faulty True inp] by blast
    qed
  next
    case False
    then show ?thesis using astep.resume [OF Suspended j(1)] ainvD(5) [OF inv j(1)] j(2) by blast
  qed
qed (use pc in simp_all)

lemma arank_start: "arank inp astart \<le> 95 * ((length inp + 4095) div 4096) + 18"
proof -
  have "work inp astart = 5 * ((length inp + 4095) div 4096)" by (simp add: work_def astart_def abuf0_def weight_def blocks_def BSZ_def)
  then show ?thesis using distance_le [of inp astart] by (simp add: arank_def NBUF_def)
qed

lemma aio_run:
  assumes "((astep faulty True inp) ^^ n) astart s"
  shows "ainv faulty inp s \<and> n + arank inp s \<le> arank inp astart"
  using assms
proof (induction n arbitrary: s)
  case 0
  then show ?case by (auto simp: ainv_start)
next
  case (Suc n)
  then obtain t where t: "ainv faulty inp t" "n + arank inp t \<le> arank inp astart" "astep faulty True inp t s" by auto
  then show ?case using astep_ainv [OF t(3,1)] astep_rank [OF t(3,1)] by auto
qed

lemma aio_exit:
  assumes "((astep faulty True inp) ^^ n) astart s" "pc s = Exit_0"
  shows "outf s = (\<lambda>p. if p < length inp then Some (translate (inp ! p)) else None)"
proof
  fix p
  have inv: "ainv faulty inp s" using aio_run [OF assms(1)] by simp
  have e: "numop s = 0" "length inp \<le> off s" using inv assms(2) by (auto simp: ainv_def)
  have "\<not> (\<exists>j < NBUF. covers (bufs s ! j) p)" using unused_all [OF inv e(1)] by (auto simp: covers_def)
  then show "outf s p = (if p < length inp then Some (translate (inp ! p)) else None)" using ainvD(7,8) [OF inv, of p] e(2) by (cases "outf s p") auto
qed

text \<open>C14: The asynchronous filter with the buffers released after their writes: under every order in which the system finishes
  the requests, a run is finite (at most 95 transitions per block and 18 more), it can always go on until the program ends, and when the
  program exits with success the output file is exactly the translation of the input, byte by byte. Without faults of the system the program
  does not fail.\<close>

theorem rot13_aio_correct:
  assumes "((astep faulty True inp) ^^ n) astart s"
  shows "n \<le> 95 * ((length inp + 4095) div 4096) + 18 \<and>
    (pc s = Exit_0 \<longrightarrow> outf s = (\<lambda>p. if p < length inp then Some (translate (inp ! p)) else None)) \<and>
    (pc s = Failed \<longrightarrow> faulty) \<and> (pc s \<noteq> Exit_0 \<and> pc s \<noteq> Failed \<longrightarrow> (\<exists>s'. astep faulty True inp s s'))"
proof -
  have inv: "ainv faulty inp s" and n: "n \<le> arank inp astart" using aio_run [OF assms] by auto
  have "pc s = Failed \<Longrightarrow> faulty" using inv by (simp add: ainv_def)
  then show ?thesis using n arank_start [of inp] astep_progress [OF inv] aio_exit [OF assms] by simp
qed

text \<open>The asynchronous filter as it is in \<open>14.5.3rot_13_aio.c\<close>, where a buffer stays in the state \<open>WRITE_PENDING\<close> after its
  write: whatever the system does, the program never finishes an input of more than 8 blocks, because it can ask for 8 blocks only.\<close>

theorem rot13_aio_stuck:
  assumes "8 * 4096 < length inp" "(astep faulty False inp)\<^sup>*\<^sup>* astart s"
  shows "pc s \<noteq> Exit_0"
proof -
  have "length (bufs s) = NBUF \<and> off s \<le> BSZ * (\<Sum>j<NBUF. used (bufs s ! j)) \<and> (pc s = Exit_0 \<longrightarrow> length inp \<le> off s)" using assms(2)
  proof (induction rule: rtranclp_induct)
    case base
    then show ?case by (simp add: astart_def)
  next
    case (step s t)
    have keep: "length (bufs t) = NBUF \<and> off t \<le> BSZ * (\<Sum>j<NBUF. used (bufs t ! j))"
      if u: "i < NBUF" "bufs t = (bufs s)[i := b]" "off t = off s \<and> used (bufs s ! i) \<le> used b \<or> off t = off s + BSZ \<and> used (bufs s ! i) + 1 \<le> used b" for i b
    proof -
      have "(\<Sum>j<NBUF. used (bufs s ! j)) + (if off t = off s then 0 else 1) \<le> (\<Sum>j<NBUF. used (bufs t ! j))"
        using sum_upd [of i NBUF "bufs s" used b] u(3) step.IH unfolding u(2) by (auto simp: u(1))
      then have "BSZ * (\<Sum>j<NBUF. used (bufs s ! j)) + BSZ * (if off t = off s then 0 else 1) \<le> BSZ * (\<Sum>j<NBUF. used (bufs t ! j))"
        unfolding distrib_left [symmetric] by (rule mult_le_mono2)
      moreover have "off t \<le> off s + BSZ * (if off t = off s then 0 else 1)" using u(3) by auto
      moreover have "length (bufs t) = NBUF" using u(2) step.IH by simp
      ultimately show ?thesis using step.IH by linarith
    qed
    from step.hyps(2) show ?case
    proof cases
      case (visit i ans)
      then consider "bufs t = bufs s" "off t = off s" | b where "bufs t = (bufs s)[i := b]" "off t = off s \<and> used (bufs s ! i) \<le> used b \<or> off t = off s + BSZ \<and> used (bufs s ! i) + 1 \<le> used b"
        by (cases "rw (bufs s ! i)") (auto simp: visit_def Let_def split: if_splits)
      moreover have "pc t \<noteq> Exit_0" using visit by (cases "rw (bufs s ! i)") (auto simp: visit_def Let_def)
      ultimately show ?thesis using keep [OF visit(3)] step.IH by cases auto
    next
      case (scan_end ans)
      then show ?thesis using step.IH by (auto simp: scan_end_def)
    next
      case (read_done i b n)
      then show ?thesis using keep [OF read_done(4), of "b\<lparr>bdata := put (bdata b) 0 (take n (drop (offset b) inp)), stat := Finished 0 n\<rparr>"] by simp
    next
      case (write_done i b n)
      then show ?thesis using keep [OF write_done(4), of "b\<lparr>stat := Finished 0 n\<rparr>"] by simp
    next
      case (request_fails i b e)
      then show ?thesis using keep [OF request_fails(4), of "b\<lparr>stat := Finished e 0\<rparr>"] by simp
    qed (use step.IH in auto)
  qed
  moreover have "(\<Sum>j<NBUF. used (bufs s ! j)) \<le> NBUF" using sum_bounded_above [of "{..<NBUF}" "\<lambda>j. used (bufs s ! j)" 1] by simp
  ultimately show ?thesis using assms(1) by (auto simp: BSZ_def NBUF_def)
qed

theorem rot13_aio_stuck_witness: "pc astart \<noteq> Exit_0"
  using rot13_aio_stuck [of "replicate 40000 65" False astart] by simp

text \<open>An empty input: one pass over the buffers, and the program exits.\<close>

lemma idle_run: "k \<le> NBUF \<Longrightarrow> ((astep False True []) ^^ k) astart (astart\<lparr>pc := Scan k\<rparr>)"
proof (induction k)
  case 0
  then show ?case by (simp add: astart_def)
next
  case (Suc k)
  let ?ans = "\<lparr>accepted = True, stale_error = 0, stale_return = 0\<rparr>" and ?s = "astart\<lparr>pc := Scan k\<rparr>"
  have "astep False True [] ?s (visit True 0 ?ans k ?s)" using Suc.prems astep.visit [of ?s k ?ans False True "[]"] by simp
  moreover have "visit True 0 ?ans k ?s = astart\<lparr>pc := Scan (Suc k)\<rparr>" using Suc.prems by (simp add: visit_def astart_def abuf0_def)
  ultimately show ?case using Suc by auto
qed

lemma empty_run: "\<exists>s. ((astep False True []) ^^ 9) astart s \<and> pc s = Exit_0"
proof -
  let ?ans = "\<lparr>accepted = True, stale_error = 0, stale_return = 0\<rparr>" and ?s = "astart\<lparr>pc := Scan NBUF\<rparr>"
  let ?t = "scan_end 0 ?ans ?s"
  have "astep False True [] ?s ?t" using astep.scan_end [of ?s ?ans False True "[]"] by simp
  then have "((astep False True []) ^^ 9) astart ?t" using idle_run [of NBUF] relpowp_Suc_I [of NBUF "astep False True []" astart ?s ?t] by (simp add: NBUF_def)
  moreover have "pc ?t = Exit_0" by (simp add: scan_end_def astart_def)
  ultimately show ?thesis by blast
qed

theorem rot13_aio_correct_witness:
  "\<exists>s. ((astep False True []) ^^ 9) astart s \<and> pc s = Exit_0 \<and> outf s = Map.empty"
proof -
  obtain s where run: "((astep False True []) ^^ 9) astart s" "pc s = Exit_0" using empty_run by blast
  then show ?thesis using rot13_aio_correct [OF run(1)] by auto
qed

text \<open>The two filters agree, and each undoes the other: if \<open>rot13a\<close> reads a file in any pieces and ends with success
  and the asynchronous filter ends with success on the same file, both have written the same bytes; and a second run of \<open>rot13a\<close> on that output, read in
  any pieces, gives the original file.\<close>

theorem rot13_filters_agree:
  assumes "rot13a_loop (map Some ds) ws [] = (Exit_ok, out)" "[] \<notin> set ds" "((astep faulty True (concat ds)) ^^ n) astart s" "pc s = Exit_0"
    and "rot13a_loop (map Some es) ws' [] = (Exit_ok, out')" "[] \<notin> set es" "concat es = out"
  shows "outf s = (\<lambda>p. if p < length out then Some (out ! p) else None) \<and> out' = concat ds"
proof -
  have out: "out = map translate (concat ds)" "out' = map translate (concat es)"
    using rot13a_loop_ok [OF assms(1,2)] rot13a_loop_ok [OF assms(5,6)] by simp_all
  then have "out' = concat ds" using assms(7) by (simp add: translate_involution o_def)
  moreover have "outf s = (\<lambda>p. if p < length (concat ds) then Some (translate (concat ds ! p)) else None)" using aio_exit [OF assms(3,4)] .
  ultimately show ?thesis using out(1) by (simp add: fun_eq_iff)
qed

theorem rot13_filters_agree_witness: "\<exists>s :: aio. pc s = Exit_0 \<and> outf s = Map.empty"
proof -
  obtain s where run: "((astep False True []) ^^ 9) astart s" "pc s = Exit_0" using empty_run by blast
  have "outf s = (\<lambda>p. if p < length ([] :: byte list) then Some ([] ! p) else None) \<and> ([] :: byte list) = concat []"
    by (rule rot13_filters_agree [where ds = "[]" and ws = "[]" and faulty = False and n = 9 and es = "[]" and ws' = "[]"]) (use run in simp_all)
  then show ?thesis using run(2) by auto
qed

end
