(* ===== verification/Barrier_Sort.thy ===== *)
theory Barrier_Sort
  imports Prelude
begin

text \<open>
  Sorting with a barrier (\<open>apue.3e/threads/barrier.c\<close>): \<open>NTHR\<close> threads sort one slice of \<open>nums\<close> each with the C library's \<open>heapsort\<close>, a parameter
  here, and wait at a barrier; the main thread waits there too and then merges the slices into \<open>snums\<close>. The number of threads and
  the length of a slice (\<open>TNUM\<close>) are parameters, so that the theorems hold for the 8 threads and 8000000 numbers of the source and for every other choice.
\<close>

section \<open>The code\<close>

abbreviation "LONG_MAX \<equiv> 9223372036854775807 :: int"

definition complong :: "int \<Rightarrow> int \<Rightarrow> int" where
  "complong l1 l2 = (if l1 = l2 then 0 else if l1 < l2 then -1 else 1)"

type_synonym sorter = "(int \<Rightarrow> int \<Rightarrow> int) \<Rightarrow> int list \<Rightarrow> int list"

definition thr_sort :: "sorter \<Rightarrow> nat \<Rightarrow> nat \<Rightarrow> int list \<Rightarrow> int list" where
  "thr_sort heapsort tnum idx nums = put nums idx (heapsort complong (slice nums idx (idx + tnum)))"

text \<open>\<open>merge\<close>: the inner loop looks for the least head of the slices, from \<open>LONG_MAX\<close> on; \<open>minidx\<close> has no value before
  the first assignment and keeps its value from one round to the next.\<close>

fun min_loop :: "nat \<Rightarrow> int list \<Rightarrow> nat list \<Rightarrow> nat list \<Rightarrow> int \<Rightarrow> nat option \<Rightarrow> nat option option" where
  "min_loop tnum nums idx [] num minidx = Some minidx"
| "min_loop tnum nums idx (i # is) num minidx = do {
     p \<leftarrow> rd idx i;
     if p < (i + 1) * tnum
     then do { v \<leftarrow> rd nums p; if v < num then min_loop tnum nums idx is v (Some i) else min_loop tnum nums idx is num minidx }
     else min_loop tnum nums idx is num minidx }"

fun merge_loop :: "nat \<Rightarrow> nat \<Rightarrow> int list \<Rightarrow> nat list \<Rightarrow> nat list \<Rightarrow> nat option \<Rightarrow> int list \<Rightarrow> int list option" where
  "merge_loop nthr tnum nums idx [] minidx snums = Some snums"
| "merge_loop nthr tnum nums idx (sidx # sidxs) minidx snums = do {
     minidx \<leftarrow> min_loop tnum nums idx [0..<nthr] LONG_MAX minidx;
     m \<leftarrow> minidx;
     p \<leftarrow> rd idx m;
     v \<leftarrow> rd nums p;
     snums \<leftarrow> wr snums sidx v;
     idx \<leftarrow> wr idx m (p + 1);
     merge_loop nthr tnum nums idx sidxs (Some m) snums }"

definition merge :: "nat \<Rightarrow> nat \<Rightarrow> int list \<Rightarrow> int list \<Rightarrow> int list option" where
  "merge nthr tnum nums snums = merge_loop nthr tnum nums (map (\<lambda>i. i * tnum) [0..<nthr]) [0..<nthr * tnum] None snums"

text \<open>The threads. The main thread creates them one after the other, waits at the barrier and merges; a thread sorts its slice and arrives at
  the barrier, which lets \<open>NTHR + 1\<close> arrivals through.\<close>

datatype mpc = Creating nat | At_barrier | Merged | Fault

record psort =
  nums :: "int list"
  snums :: "int list"
  arrived :: "nat set"
  waiting :: nat
  main_pc :: mpc

inductive pstep :: "sorter \<Rightarrow> nat \<Rightarrow> nat \<Rightarrow> psort \<Rightarrow> psort \<Rightarrow> bool" for heapsort nthr tnum where
  create: "main_pc s = Creating j \<Longrightarrow> j < nthr \<Longrightarrow> pstep heapsort nthr tnum s (s\<lparr>main_pc := Creating (Suc j)\<rparr>)"
| main_wait: "main_pc s = Creating nthr \<Longrightarrow> pstep heapsort nthr tnum s (s\<lparr>main_pc := At_barrier, waiting := Suc (waiting s)\<rparr>)"
| thr_fn: "i < nthr \<Longrightarrow> i \<notin> arrived s \<Longrightarrow> (case main_pc s of Creating j \<Rightarrow> i < j | _ \<Rightarrow> True) \<Longrightarrow>
    pstep heapsort nthr tnum s (s\<lparr>nums := thr_sort heapsort tnum (i * tnum) (nums s), arrived := insert i (arrived s), waiting := Suc (waiting s)\<rparr>)"
| main_merge: "main_pc s = At_barrier \<Longrightarrow> waiting s = nthr + 1 \<Longrightarrow> merge nthr tnum (nums s) (snums s) = Some r \<Longrightarrow>
    pstep heapsort nthr tnum s (s\<lparr>snums := r, main_pc := Merged\<rparr>)"
| main_fault: "main_pc s = At_barrier \<Longrightarrow> waiting s = nthr + 1 \<Longrightarrow> merge nthr tnum (nums s) (snums s) = None \<Longrightarrow>
    pstep heapsort nthr tnum s (s\<lparr>main_pc := Fault\<rparr>)"

definition pstart :: "int list \<Rightarrow> int list \<Rightarrow> psort" where
  "pstart xs ys = \<lparr>nums = xs, snums = ys, arrived = {}, waiting = 0, main_pc = Creating 0\<rparr>"

section \<open>The merge\<close>

text \<open>The slices, each sorted, and how far each is merged.\<close>

definition rest :: "nat \<Rightarrow> int list \<Rightarrow> nat list \<Rightarrow> nat \<Rightarrow> int list" where
  "rest tnum ns idx i = slice ns (idx ! i) ((i + 1) * tnum)"

definition idx_ok :: "nat \<Rightarrow> nat \<Rightarrow> int list \<Rightarrow> nat list \<Rightarrow> bool" where
  "idx_ok nthr tnum ns idx \<longleftrightarrow> length ns = nthr * tnum \<and> length idx = nthr \<and> (\<forall>i < nthr. i * tnum \<le> idx ! i \<and> idx ! i \<le> (i + 1) * tnum)"

lemma slice_end: "i < nthr \<Longrightarrow> (i + 1) * tnum \<le> nthr * (tnum :: nat)"
  using mult_le_mono1 [of "i + 1" nthr tnum] by simp

lemma min_loop_spec:
  assumes "idx_ok nthr tnum ns idx" "set is \<subseteq> {..<nthr}"
  shows "\<exists>m'. min_loop tnum ns idx is num m = Some m' \<and>
    (m' = m \<and> (\<forall>i \<in> set is. idx ! i < (i + 1) * tnum \<longrightarrow> num \<le> ns ! (idx ! i)) \<or>
     (\<exists>j \<in> set is. m' = Some j \<and> idx ! j < (j + 1) * tnum \<and> ns ! (idx ! j) < num \<and>
       (\<forall>i \<in> set is. idx ! i < (i + 1) * tnum \<longrightarrow> ns ! (idx ! j) \<le> ns ! (idx ! i))))"
  using assms(2)
proof (induction "is" arbitrary: num m)
  case (Cons i "is")
  have i: "i < length idx" "idx ! i < (i + 1) * tnum \<Longrightarrow> idx ! i < length ns"
    using assms(1) Cons.prems slice_end [of i nthr tnum] by (auto simp: idx_ok_def)
  show ?case
  proof (cases "idx ! i < (i + 1) * tnum \<and> ns ! (idx ! i) < num")
    case True
    then show ?thesis using Cons.IH [of "ns ! (idx ! i)" "Some i"] Cons.prems i by (elim exE conjE disjE) (auto intro!: bexI)
  next
    case False
    then have e: "min_loop tnum ns idx (i # is) num m = min_loop tnum ns idx is num m" using i by auto
    from Cons obtain m' where m': "min_loop tnum ns idx is num m = Some m'"
      "m' = m \<and> (\<forall>i \<in> set is. idx ! i < (i + 1) * tnum \<longrightarrow> num \<le> ns ! (idx ! i)) \<or>
     (\<exists>j \<in> set is. m' = Some j \<and> idx ! j < (j + 1) * tnum \<and> ns ! (idx ! j) < num \<and>
       (\<forall>i \<in> set is. idx ! i < (i + 1) * tnum \<longrightarrow> ns ! (idx ! j) \<le> ns ! (idx ! i)))" by fastforce
    from m'(2) show ?thesis
    proof
      assume "m' = m \<and> (\<forall>i \<in> set is. idx ! i < (i + 1) * tnum \<longrightarrow> num \<le> ns ! (idx ! i))"
      then show ?thesis using e m'(1) False by auto
    next
      assume "\<exists>j \<in> set is. m' = Some j \<and> idx ! j < (j + 1) * tnum \<and> ns ! (idx ! j) < num \<and>
       (\<forall>i \<in> set is. idx ! i < (i + 1) * tnum \<longrightarrow> ns ! (idx ! j) \<le> ns ! (idx ! i))"
      then obtain j where j: "j \<in> set is" "m' = Some j" "idx ! j < (j + 1) * tnum" "ns ! (idx ! j) < num"
       "\<forall>i \<in> set is. idx ! i < (i + 1) * tnum \<longrightarrow> ns ! (idx ! j) \<le> ns ! (idx ! i)" by blast
      have "\<forall>k \<in> set (i # is). idx ! k < (k + 1) * tnum \<longrightarrow> ns ! (idx ! j) \<le> ns ! (idx ! k)" using j(4,5) False by auto
      then show ?thesis using e m'(1) j by (intro exI [of _ m'] conjI disjI2 bexI [of _ j]) auto
    qed
  qed
qed simp

text \<open>The state of the merge after \<open>n - k\<close> rounds: what is merged and what is left.\<close>

definition merging :: "nat \<Rightarrow> nat \<Rightarrow> int list \<Rightarrow> nat list \<Rightarrow> nat \<Rightarrow> int list \<Rightarrow> bool" where
  "merging nthr tnum ns idx k out \<longleftrightarrow> idx_ok nthr tnum ns idx \<and> k \<le> nthr * tnum \<and> length out = nthr * tnum \<and>
     mset (take k out) + (\<Sum>i<nthr. mset (rest tnum ns idx i)) = mset ns \<and>
     sorted (take k out) \<and> (\<forall>x \<in> set (take k out). \<forall>i < nthr. \<forall>y \<in> set (rest tnum ns idx i). x \<le> y)"

lemma head_least:
  assumes s: "sorted (slice ns (i * tnum) ((i + 1) * tnum))" and i: "i < nthr" "idx_ok nthr tnum ns idx" and y: "y \<in> set (rest tnum ns idx i)"
  shows "idx ! i < (i + 1) * tnum \<and> ns ! (idx ! i) \<le> y"
proof -
  have l: "(i + 1) * tnum \<le> length ns" using slice_end [OF i(1), of tnum] i(2) by (simp add: idx_ok_def)
  then obtain j where j: "y = ns ! j" "idx ! i \<le> j" "j < (i + 1) * tnum" using y by (auto simp: rest_def set_slice)
  have "i * tnum \<le> idx ! i" using i by (simp add: idx_ok_def)
  then show ?thesis using s j l sorted_segD [of ns "i * tnum" "(i + 1) * tnum" "idx ! i" j] by (simp add: sorted_slice)
qed

lemma merging_step:
  assumes m: "merging nthr tnum ns idx k out" and k: "k < nthr * tnum" and s: "\<forall>i < nthr. sorted (slice ns (i * tnum) ((i + 1) * tnum))"
    and b: "\<forall>x \<in> set ns. x < LONG_MAX"
  shows "\<exists>j. min_loop tnum ns idx [0..<nthr] LONG_MAX mi = Some (Some j) \<and> j < length idx \<and> idx ! j < length ns \<and>
    merging nthr tnum ns (idx[j := idx ! j + 1]) (Suc k) (out[k := ns ! (idx ! j)])"
proof -
  have ok: "idx_ok nthr tnum ns idx" and lo: "length out = nthr * tnum" and ms: "mset (take k out) + (\<Sum>i<nthr. mset (rest tnum ns idx i)) = mset ns"
    using m by (auto simp: merging_def)
  have ln: "length ns = nthr * tnum" "length idx = nthr" using ok by (auto simp: idx_ok_def)
  have "(\<Sum>i<nthr. mset (rest tnum ns idx i)) \<noteq> {#}"
  proof
    assume "(\<Sum>i<nthr. mset (rest tnum ns idx i)) = {#}"
    then have "length (take k out) = length ns" using ms by (metis add.right_neutral mset_eq_length)
    then show False using k lo ln by simp
  qed
  then obtain i where i: "i < nthr" "rest tnum ns idx i \<noteq> []" by (metis lessThan_iff mset_zero_iff sum.neutral)
  then have ii: "idx ! i < (i + 1) * tnum" by (auto simp: rest_def slice_def)
  then have "ns ! (idx ! i) < LONG_MAX" using b slice_end [OF i(1), of tnum] ln by (simp add: order.strict_trans2)
  then obtain j where j: "j < nthr" "min_loop tnum ns idx [0..<nthr] LONG_MAX mi = Some (Some j)" "idx ! j < (j + 1) * tnum"
    "\<forall>i < nthr. idx ! i < (i + 1) * tnum \<longrightarrow> ns ! (idx ! j) \<le> ns ! (idx ! i)"
  proof -
    have "set [0..<nthr] \<subseteq> {..<nthr}" by auto
    note min_loop_spec [OF ok this, of LONG_MAX mi]
    moreover have "i \<in> set [0..<nthr]" using i(1) by simp
    ultimately show thesis using that ii \<open>ns ! (idx ! i) < LONG_MAX\<close> by (metis atLeastLessThan_iff atLeastLessThan_upt le0 not_less)
  qed
  let ?v = "ns ! (idx ! j)" and ?idx = "idx[j := idx ! j + 1]" and ?out = "out[k := ns ! (idx ! j)]"
  have pj: "idx ! j < length ns" "(j + 1) * tnum \<le> length ns" using j(1,3) slice_end [of j nthr tnum] ln by auto
  have rj: "rest tnum ns idx j = ?v # rest tnum ns ?idx j" using slice_Cons [OF j(3) pj(2)] j(1) ln by (simp add: rest_def)
  have ro: "rest tnum ns ?idx i = rest tnum ns idx i" if "i \<noteq> j" for i using that by (simp add: rest_def)
  have sub: "set (rest tnum ns ?idx i) \<subseteq> set (rest tnum ns idx i)" for i using rj ro by (cases "i = j") auto
  have le: "?v \<le> y" if "i < nthr" "y \<in> set (rest tnum ns idx i)" for i y
  proof -
    have "idx ! i < (i + 1) * tnum \<and> ns ! (idx ! i) \<le> y" using head_least [OF _ that(1) ok that(2)] s that(1) by blast
    then show ?thesis using j(4) that(1) order_trans by blast
  qed
  have tk: "take (Suc k) ?out = take k out @ [?v]" using k lo by (simp add: take_Suc_conv_app_nth)
  have others: "(\<Sum>i \<in> {..<nthr} - {j}. mset (rest tnum ns ?idx i)) = (\<Sum>i \<in> {..<nthr} - {j}. mset (rest tnum ns idx i))"
    by (rule sum.cong) (use ro in auto)
  have "(\<Sum>i<nthr. mset (rest tnum ns idx i)) = add_mset ?v (\<Sum>i<nthr. mset (rest tnum ns ?idx i))"
    using sum.remove [of "{..<nthr}" j "\<lambda>i. mset (rest tnum ns idx i)"] sum.remove [of "{..<nthr}" j "\<lambda>i. mset (rest tnum ns ?idx i)"] j(1) rj others by simp
  then have "mset (take (Suc k) ?out) + (\<Sum>i<nthr. mset (rest tnum ns ?idx i)) = mset ns" using ms tk by simp
  moreover have "idx_ok nthr tnum ns ?idx" using ok j(1,3) by (auto simp: idx_ok_def nth_list_update)
  moreover have "sorted (take (Suc k) ?out)" using m tk j(1) rj by (auto simp: merging_def sorted_append)
  moreover have "x \<le> y" if "x \<in> set (take (Suc k) ?out)" "i < nthr" "y \<in> set (rest tnum ns ?idx i)" for x i y
    using that m tk le [OF that(2)] sub [of i] unfolding merging_def by auto
  ultimately show ?thesis using j(1,2) pj k lo ln by (intro exI [of _ j]) (auto simp: merging_def)
qed

lemma merge_loop_spec:
  assumes s: "\<forall>i < nthr. sorted (slice ns (i * tnum) ((i + 1) * tnum))" and b: "\<forall>x \<in> set ns. x < LONG_MAX"
  shows "merging nthr tnum ns idx k out \<Longrightarrow> \<exists>idx' out'. merge_loop nthr tnum ns idx [k..<nthr * tnum] mi out = Some out' \<and> merging nthr tnum ns idx' (nthr * tnum) out'"
proof (induction "nthr * tnum - k" arbitrary: k idx mi out)
  case 0
  then have "k = nthr * tnum" by (simp add: merging_def)
  then show ?case using 0 by auto
next
  case (Suc d)
  then have k: "k < nthr * tnum" by simp
  obtain j where j: "min_loop tnum ns idx [0..<nthr] LONG_MAX mi = Some (Some j)" "j < length idx" "idx ! j < length ns"
    "merging nthr tnum ns (idx[j := idx ! j + 1]) (Suc k) (out[k := ns ! (idx ! j)])" using merging_step [OF Suc.prems k s b] by blast
  have "length out = nthr * tnum" using Suc.prems by (simp add: merging_def)
  then show ?case using Suc.hyps(1) [OF _ j(4), of "Some j"] Suc.hyps(2) j k by (simp add: upt_conv_Cons)
qed

lemma slices_mset: "length ns = k * tnum \<Longrightarrow> (\<Sum>i<k. mset (slice ns (i * tnum) ((i + 1) * tnum))) = mset ns"
proof -
  assume l: "length ns = k * tnum"
  have "(\<Sum>i<j. mset (slice ns (i * tnum) ((i + 1) * tnum))) = mset (take (j * tnum) ns)" if "j \<le> k" for j
    using that
  proof (induction j)
    case (Suc j)
    have "take (j * tnum) ns = slice ns 0 (j * tnum)" "take (Suc j * tnum) ns = slice ns 0 (Suc j * tnum)" by (simp_all add: slice_def)
    then show ?case using Suc slice_append [of 0 "j * tnum" "Suc j * tnum" ns] l mult_le_mono1 [of "Suc j" k tnum] by simp
  qed simp
  then show ?thesis using l by simp
qed

lemma barrier_merge_spec:
  assumes "length ns = nthr * tnum" "length out = nthr * tnum" "\<forall>i < nthr. sorted (slice ns (i * tnum) ((i + 1) * tnum))" "\<forall>x \<in> set ns. x < LONG_MAX"
  shows "merge nthr tnum ns out = Some (sort ns)"
proof -
  let ?idx = "map (\<lambda>i. i * tnum) [0..<nthr]"
  have "(\<Sum>i<nthr. mset (rest tnum ns ?idx i)) = (\<Sum>i<nthr. mset (slice ns (i * tnum) ((i + 1) * tnum)))"
    by (rule sum.cong) (simp_all add: rest_def)
  then have "merging nthr tnum ns ?idx 0 out" using assms(1,2) slices_mset [OF assms(1)] by (simp add: merging_def idx_ok_def)
  then obtain idx' r where r: "merge nthr tnum ns out = Some r" "merging nthr tnum ns idx' (nthr * tnum) r"
    using merge_loop_spec [OF assms(3,4)] unfolding merge_def by blast
  then have "sorted r" "mset r + (\<Sum>i<nthr. mset (rest tnum ns idx' i)) = mset ns" "length r = length ns" using assms(1) by (auto simp: merging_def)
  moreover from this have "size (\<Sum>i<nthr. mset (rest tnum ns idx' i)) = 0" by (metis add_diff_cancel_left' cancel_comm_monoid_add_class.diff_cancel size_mset size_union)
  ultimately have "mset r = mset ns" "sorted r" by auto
  then show ?thesis using r(1) properties_for_sort by metis
qed

section \<open>The threads\<close>

text \<open>What the code relies on: \<open>heapsort\<close> sorts with the comparison it is given.\<close>

definition sorts :: "sorter \<Rightarrow> bool" where
  "sorts heapsort \<longleftrightarrow> (\<forall>xs. mset (heapsort complong xs) = mset xs \<and> sorted_wrt (\<lambda>x y. complong x y \<le> 0) (heapsort complong xs))"

lemma complong_le: "complong x y \<le> 0 \<longleftrightarrow> x \<le> y"
  by (simp add: complong_def)

lemma thr_sort_spec:
  assumes "sorts heapsort" "lo + tnum \<le> length ns"
  shows "perm_seg ns (thr_sort heapsort tnum lo ns) lo (lo + tnum)" "sorted (slice (thr_sort heapsort tnum lo ns) lo (lo + tnum))"
proof -
  let ?z = "heapsort complong (slice ns lo (lo + tnum))"
  have z: "mset ?z = mset (slice ns lo (lo + tnum))" "sorted ?z" using assms(1) by (simp_all add: sorts_def complong_le)
  then have l: "length ?z = tnum" using assms(2) by (metis add_diff_cancel_left' length_slice mset_eq_length)
  show "perm_seg ns (thr_sort heapsort tnum lo ns) lo (lo + tnum)"
    unfolding perm_seg_iff [OF le_add1 assms(2)] by (rule exI [of _ ?z]) (simp add: z l thr_sort_def put_def)
  show "sorted (slice (thr_sort heapsort tnum lo ns) lo (lo + tnum))"
    using slice_put [of lo ?z ns] l z assms(2) by (simp add: thr_sort_def)
qed

fun main_steps :: "nat \<Rightarrow> mpc \<Rightarrow> nat" where
  "main_steps nthr (Creating j) = j"
| "main_steps nthr At_barrier = nthr + 1"
| "main_steps nthr _ = nthr + 2"

definition pinv :: "nat \<Rightarrow> nat \<Rightarrow> int list \<Rightarrow> nat \<Rightarrow> psort \<Rightarrow> bool" where
  "pinv nthr tnum xs n s \<longleftrightarrow> length (nums s) = nthr * tnum \<and> length (snums s) = nthr * tnum \<and> mset (nums s) = mset xs \<and> arrived s \<subseteq> {..<nthr} \<and>
     (\<forall>i \<in> arrived s. sorted (slice (nums s) (i * tnum) ((i + 1) * tnum))) \<and>
     n = card (arrived s) + main_steps nthr (main_pc s) \<and> main_pc s \<noteq> Fault \<and> (case main_pc s of Creating j \<Rightarrow> j \<le> nthr | _ \<Rightarrow> True) \<and>
     waiting s = card (arrived s) + (case main_pc s of Creating j \<Rightarrow> 0 | _ \<Rightarrow> 1) \<and> (main_pc s = Merged \<longrightarrow> snums s = sort xs)"

lemma all_arrived: "A \<subseteq> {..<n} \<Longrightarrow> card A = n \<Longrightarrow> A = {..<n}"
  by (rule card_subset_eq) simp_all

lemma merge_ready:
  assumes "pinv nthr tnum xs n s" "\<forall>x \<in> set xs. x < LONG_MAX" "main_pc s = At_barrier" "waiting s = nthr + 1"
  shows "merge nthr tnum (nums s) (snums s) = Some (sort xs)"
proof -
  have "arrived s \<subseteq> {..<nthr}" "card (arrived s) = nthr" using assms unfolding pinv_def by auto
  then have "arrived s = {..<nthr}" by (rule all_arrived)
  moreover have "sort (nums s) = sort xs" using assms(1) by (metis pinv_def mset_sort properties_for_sort sorted_sort)
  moreover have "set (nums s) = set xs" using assms(1) mset_eq_setD [of "nums s" xs] by (simp add: pinv_def)
  ultimately show ?thesis using barrier_merge_spec [of "nums s" nthr tnum "snums s"] assms(1,2) by (simp add: pinv_def)
qed

lemma pinv_thr_fn:
  assumes h: "sorts heapsort" and p: "pinv nthr tnum xs n s" and i: "i < nthr" "i \<notin> arrived s"
  shows "pinv nthr tnum xs (Suc n) (s\<lparr>nums := thr_sort heapsort tnum (i * tnum) (nums s), arrived := insert i (arrived s), waiting := Suc (waiting s)\<rparr>)"
proof -
  let ?ns = "thr_sort heapsort tnum (i * tnum) (nums s)"
  have l: "i * tnum + tnum \<le> length (nums s)" using slice_end [OF i(1), of tnum] p by (simp add: pinv_def add.commute)
  note t = thr_sort_spec [OF h l]
  have "sorted (slice ?ns (j * tnum) ((j + 1) * tnum))" if j: "j \<in> insert i (arrived s)" for j
  proof (cases "j = i")
    case True
    then show ?thesis using t(2) by (simp add: add.commute)
  next
    case False
    then have jn: "j < nthr" "sorted (slice (nums s) (j * tnum) ((j + 1) * tnum))" using j p by (auto simp: pinv_def)
    have "(j + 1) * tnum \<le> i * tnum \<or> i * tnum + tnum \<le> j * tnum"
      using False mult_le_mono1 [of "j + 1" i tnum] mult_le_mono1 [of "i + 1" j tnum] by (cases "j < i") simp_all
    then have "slice ?ns (j * tnum) ((j + 1) * tnum) = slice (nums s) (j * tnum) ((j + 1) * tnum)"
      using perm_seg_slice_outside [OF t(1)] slice_end [OF jn(1), of tnum] p by (simp add: pinv_def)
    then show ?thesis using jn(2) by simp
  qed
  moreover have "finite (arrived s)" using p by (auto simp: pinv_def intro: finite_subset)
  moreover have "card (insert i (arrived s)) \<le> nthr" using p i by (intro subset_eq_atLeast0_lessThan_card) (auto simp: pinv_def)
  ultimately show ?thesis using p i perm_seg_length [OF t(1)] perm_seg_mset [OF t(1)]
    by (auto simp: pinv_def split: mpc.splits)
qed

lemma pinv_step:
  assumes "sorts heapsort" "\<forall>x \<in> set xs. x < LONG_MAX" "pstep heapsort nthr tnum s s'" "pinv nthr tnum xs n s"
  shows "pinv nthr tnum xs (Suc n) s'"
  using assms(3)
proof cases
  case (thr_fn i)
  then show ?thesis using pinv_thr_fn [OF assms(1,4)] by simp
next
  case (main_merge r)
  have "length (nums s) = length xs" using assms(4) by (metis pinv_def mset_eq_length)
  then show ?thesis using main_merge merge_ready [OF assms(4,2)] assms(4) unfolding pinv_def by auto
next
  case main_fault
  then show ?thesis using merge_ready [OF assms(4,2)] by simp
qed (use assms(4) in \<open>simp_all add: pinv_def\<close>)

lemma pinv_progress:
  assumes "pinv nthr tnum xs n s" "main_pc s \<noteq> Merged"
  shows "\<exists>s'. pstep heapsort nthr tnum s s'"
proof (cases "main_pc s")
  case (Creating j)
  then have "j < nthr \<or> j = nthr" using assms(1) by (auto simp: pinv_def)
  then show ?thesis using Creating pstep.create pstep.main_wait by blast
next
  case At_barrier
  show ?thesis
  proof (cases "arrived s = {..<nthr}")
    case True
    then have "waiting s = nthr + 1" using assms(1) At_barrier by (simp add: pinv_def)
    then show ?thesis using At_barrier pstep.main_merge pstep.main_fault by (cases "merge nthr tnum (nums s) (snums s)") blast+
  next
    case False
    then obtain i where "i < nthr" "i \<notin> arrived s" using assms(1) by (auto simp: pinv_def)
    then show ?thesis using At_barrier pstep.thr_fn [of i nthr s heapsort tnum] by auto
  qed
qed (use assms in \<open>simp_all add: pinv_def\<close>)

text \<open>C16: The parallel sort is right under every schedule: for every number of threads and slice length, numbers
  below \<open>LONG_MAX\<close> and a library sort that sorts, no run takes more than \<open>2 * NTHR + 2\<close> steps, none is stuck before the merge is done, none faults,
  and when the merge is done \<open>snums\<close> is the sorted input.\<close>

theorem barrier_sort_correct:
  assumes "sorts heapsort" "length xs = nthr * tnum" "length ys = nthr * tnum" "\<forall>x \<in> set xs. x < LONG_MAX"
    and "((pstep heapsort nthr tnum) ^^ n) (pstart xs ys) s"
  shows "n \<le> 2 * nthr + 2 \<and> main_pc s \<noteq> Fault \<and> (main_pc s = Merged \<longrightarrow> snums s = sort xs) \<and>
    (main_pc s \<noteq> Merged \<longrightarrow> (\<exists>s'. pstep heapsort nthr tnum s s'))"
proof -
  have p: "pinv nthr tnum xs n s" using assms(5)
  proof (induction n arbitrary: s)
    case 0
    then have "s = pstart xs ys" by simp
    then show ?case using assms(2,3) by (simp add: pstart_def pinv_def)
  next
    case (Suc n)
    then show ?case using pinv_step [OF assms(1,4)] by auto
  qed
  have "card (arrived s) \<le> nthr" using p by (intro subset_eq_atLeast0_lessThan_card) (auto simp: pinv_def)
  then have "n \<le> 2 * nthr + 2" using p by (cases "main_pc s") (auto simp: pinv_def)
  then show ?thesis using p pinv_progress [OF p] by (auto simp: pinv_def)
qed

theorem barrier_sort_correct_witness:
  "((pstep (\<lambda>cmp. sort) 1 2) ^^ 4) (pstart [7, 3] [0, 0]) \<lparr>nums = [3, 7], snums = [3, 7], arrived = {0}, waiting = 2, main_pc = Merged\<rparr> \<and> [3, 7] = sort [7, 3 :: int]"
proof -
  let ?r = "pstep (\<lambda>cmp. sort) 1 2"
  let ?s1 = "\<lparr>nums = [7, 3], snums = [0, 0], arrived = {}, waiting = 0, main_pc = Creating 1\<rparr>"
  let ?s2 = "\<lparr>nums = [3, 7], snums = [0, 0], arrived = {0}, waiting = 1, main_pc = Creating 1\<rparr>"
  let ?s3 = "\<lparr>nums = [3, 7], snums = [0, 0], arrived = {0}, waiting = 2, main_pc = At_barrier\<rparr>"
  let ?s4 = "\<lparr>nums = [3, 7], snums = [3, 7], arrived = {0}, waiting = 2, main_pc = Merged\<rparr>"
  have 1: "?r (pstart [7, 3] [0, 0]) ?s1" using pstep.create [of "pstart [7, 3] [0, 0]" 0 1 "\<lambda>cmp. sort" 2] by (simp add: pstart_def)
  have 2: "?r ?s1 ?s2" using pstep.thr_fn [of 0 1 ?s1 "\<lambda>cmp. sort" 2] by (simp add: thr_sort_def put_def slice_def)
  have 3: "?r ?s2 ?s3" using pstep.main_wait [of ?s2 1 "\<lambda>cmp. sort" 2] by (simp add: numeral_2_eq_2)
  have "merge 1 2 [3, 7] [0, 0] = Some [3, 7]" by (simp add: merge_def upt_rec rd_def)
  then have 4: "?r ?s3 ?s4" using pstep.main_merge [of ?s3 1 2 "[3, 7]" "\<lambda>cmp. sort"] by simp
  have run: "(?r ^^ 4) (pstart [7, 3] [0, 0]) ?s4"
    using 1 2 3 4 by (auto simp: eval_nat_numeral relcompp_apply)
  have "sorts (\<lambda>cmp. sort)" by (simp add: sorts_def complong_le)
  from barrier_sort_correct [OF this _ _ _ run] show ?thesis using run by simp
qed

text \<open>A number \<open>LONG_MAX\<close> is never less than \<open>num\<close>: once only such numbers are left, the index of the last
  round is used again, past its slice and here past the array.\<close>

lemma barrier_merge_overrun: "merge 2 1 [LONG_MAX, 5] [0, 0] = None"
  by (simp add: merge_def upt_rec rd_def)

end
