(* ===== verification/Disjoint_Set.thy ===== *)
theory Disjoint_Set
  imports Prelude
begin

text \<open>
  Disjoint sets in an array (\<open>data_structure_and_algorithm/the_disjoint_set/disjset.c\<close>). An element is an index from 1 on; a positive entry is the parent, any other one
  marks a root. The plain union is right, and so is the partition after the union by height, but the latter links the trees in the wrong direction:
  it can turn the sets into a list. \<open>find_route_compress\<close> does not compile and is left out.
\<close>

section \<open>The operations\<close>

fun init_loop :: "nat \<Rightarrow> int list \<Rightarrow> int list option" where
  "init_loop 0 s = Some s"
| "init_loop (Suc i) s = do { s \<leftarrow> wr s (Suc i) 0; init_loop i s }"

definition initialize :: "nat \<Rightarrow> int list \<Rightarrow> int list option" where
  "initialize numsets s = init_loop numsets s"

definition setunion :: "int list \<Rightarrow> nat \<Rightarrow> nat \<Rightarrow> int list option" where
  "setunion s root1 root2 = wr s root2 (int root1)"

definition setunion_high :: "int list \<Rightarrow> nat \<Rightarrow> nat \<Rightarrow> int list option" where
  "setunion_high s root1 root2 = do {
     a \<leftarrow> rd s root1;
     b \<leftarrow> rd s root2;
     if a < b then wr s root1 (int root2)
     else do {
       s \<leftarrow> (if a = b then wr s root1 (a - 1) else Some s);
       wr s root2 (int root1) } }"

partial_function (option) find :: "int list \<Rightarrow> nat \<Rightarrow> nat option" where
  "find s x = do { v \<leftarrow> rd s x; if v \<le> 0 then Some x else find s (nat v) }"

section \<open>Paths to the root\<close>

text \<open>\<open>path s x r d\<close>: the root of \<open>x\<close> is \<open>r\<close>, and it is \<open>d\<close> links away.\<close>

inductive path :: "int list \<Rightarrow> nat \<Rightarrow> nat \<Rightarrow> nat \<Rightarrow> bool" for s where
  root: "0 < x \<Longrightarrow> x < length s \<Longrightarrow> s ! x \<le> 0 \<Longrightarrow> path s x x 0"
| link: "0 < x \<Longrightarrow> x < length s \<Longrightarrow> 0 < s ! x \<Longrightarrow> path s (nat (s ! x)) r d \<Longrightarrow> path s x r (Suc d)"

inductive_cases path_rootE: "path s x r 0"
inductive_cases path_linkE: "path s x r (Suc d)"

lemma path_find: "path s x r d \<Longrightarrow> find s x = Some r"
proof (induction rule: path.induct)
  case (root x)
  then show ?case by (simp add: find.simps)
next
  case (link x r d)
  then show ?case by (subst find.simps) simp
qed

lemma path_root: "path s x r d \<Longrightarrow> 0 < r \<and> r < length s \<and> s ! r \<le> 0"
  by (induction rule: path.induct) auto

text \<open>Making a root \<open>c\<close> a child of the root \<open>p\<close>.\<close>

lemma path_relink:
  assumes "path s x r d" and p: "path s p p 0" "path s c c 0" "p \<noteq> c"
    and s': "length s' = length s" "s' ! c = int p" "s' ! p \<le> 0" "\<And>y. y < length s \<Longrightarrow> y \<noteq> c \<Longrightarrow> y \<noteq> p \<Longrightarrow> s' ! y = s ! y"
  shows "if r = c then path s' x p (Suc d) else path s' x r d"
proof -
  have pp: "0 < p" "p < length s" "s ! p \<le> 0" and cc: "0 < c" "c < length s" "s ! c \<le> 0" using path_root [OF p(1)] path_root [OF p(2)] by auto
  have p': "path s' p p 0" using pp s' by (intro path.root) auto
  show ?thesis using assms(1)
  proof (induction rule: path.induct)
    case (root x)
    then show ?case using p' s' cc pp by (cases "x = c"; cases "x = p") (auto intro: path.intros)
  next
    case (link x r d)
    then have "x \<noteq> c" "x \<noteq> p" using cc pp by auto
    then show ?case using link s' by (auto intro: path.link)
  qed
qed

text \<open>A forest: every element has a root.\<close>

definition forest :: "nat \<Rightarrow> int list \<Rightarrow> bool" where
  "forest n s \<longleftrightarrow> length s = Suc n \<and> (\<forall>x. 0 < x \<longrightarrow> x \<le> n \<longrightarrow> (\<exists>r d. path s x r d))"

lemma init_loop_eq: "n < length s \<Longrightarrow> \<exists>s'. init_loop n s = Some s' \<and> length s' = length s \<and> (\<forall>i. 0 < i \<longrightarrow> i \<le> n \<longrightarrow> s' ! i = 0) \<and> (\<forall>i. n < i \<longrightarrow> s' ! i = s ! i)"
proof (induction n arbitrary: s)
  case (Suc n)
  then obtain s' where "init_loop n (s[Suc n := 0]) = Some s'" "length s' = length s" "\<forall>i. 0 < i \<longrightarrow> i \<le> n \<longrightarrow> s' ! i = 0"
      "\<forall>i. n < i \<longrightarrow> s' ! i = s[Suc n := 0] ! i" using Suc.IH [of "s[Suc n := 0]"] by auto
  then show ?case using Suc.prems by (intro exI [of _ s']) (auto simp: le_Suc_eq)
qed simp

lemma initialize_forest:
  assumes "length s = Suc n"
  shows "\<exists>s'. initialize n s = Some s' \<and> forest n s' \<and> (\<forall>x. 0 < x \<longrightarrow> x \<le> n \<longrightarrow> path s' x x 0)"
proof -
  obtain s' where s': "init_loop n s = Some s'" "length s' = Suc n" "\<forall>i. 0 < i \<longrightarrow> i \<le> n \<longrightarrow> s' ! i = 0"
    using init_loop_eq [of n s] assms by auto
  have "path s' x x 0" if "0 < x" "x \<le> n" for x using that s' by (intro path.root) auto
  then show ?thesis using s' by (auto simp: initialize_def forest_def)
qed

text \<open>What both unions do on two different roots: one becomes the child of the other.\<close>

lemma unions_relink:
  assumes r: "path s r1 r1 0" "path s r2 r2 0" "r1 \<noteq> r2"
  shows "\<exists>s'. setunion s r1 r2 = Some s' \<and> length s' = length s \<and> (\<forall>x r d. path s x r d \<longrightarrow> (if r = r2 then path s' x r1 (Suc d) else path s' x r d))"
    and "\<exists>s'. setunion_high s r1 r2 = Some s' \<and> length s' = length s \<and>
      (\<forall>x r d. path s x r d \<longrightarrow> (if s ! r1 < s ! r2 then if r = r1 then path s' x r2 (Suc d) else path s' x r d
        else if r = r2 then path s' x r1 (Suc d) else path s' x r d))"
proof -
  have l: "0 < r1" "r1 < length s" "s ! r1 \<le> 0" "0 < r2" "r2 < length s" "s ! r2 \<le> 0" using path_root [OF r(1)] path_root [OF r(2)] by auto
  have 1: "\<forall>x r d. path s x r d \<longrightarrow> (if r = r2 then path (s[r2 := int r1]) x r1 (Suc d) else path (s[r2 := int r1]) x r d)"
    using path_relink [OF _ r, of _ _ _ "s[r2 := int r1]"] l r(3) by simp
  then show "\<exists>s'. setunion s r1 r2 = Some s' \<and> length s' = length s \<and> (\<forall>x r d. path s x r d \<longrightarrow> (if r = r2 then path s' x r1 (Suc d) else path s' x r d))"
    using l by (simp add: setunion_def)
  have 2: "\<forall>x r d. path s x r d \<longrightarrow> (if r = r1 then path (s[r1 := int r2]) x r2 (Suc d) else path (s[r1 := int r2]) x r d)"
    using path_relink [OF _ r(2,1), of _ _ _ "s[r1 := int r2]"] l r(3) by simp
  have 3: "\<forall>x r d. path s x r d \<longrightarrow> (if r = r2 then path (s[r1 := s ! r1 - 1, r2 := int r1]) x r1 (Suc d) else path (s[r1 := s ! r1 - 1, r2 := int r1]) x r d)"
    using path_relink [OF _ r, of _ _ _ "s[r1 := s ! r1 - 1, r2 := int r1]"] l r(3) by simp
  show "\<exists>s'. setunion_high s r1 r2 = Some s' \<and> length s' = length s \<and>
      (\<forall>x r d. path s x r d \<longrightarrow> (if s ! r1 < s ! r2 then if r = r1 then path s' x r2 (Suc d) else path s' x r d
        else if r = r2 then path s' x r1 (Suc d) else path s' x r d))"
  proof (cases "s ! r1 < s ! r2")
    case True
    then show ?thesis using 2 l by (simp add: setunion_high_def)
  next
    case False
    show ?thesis
    proof (cases "s ! r1 = s ! r2")
      case True
      then have "setunion_high s r1 r2 = Some (s[r1 := s ! r1 - 1, r2 := int r1])" using l by (simp add: setunion_high_def)
      then show ?thesis using 3 False by auto
    next
      case ne: False
      then have "setunion_high s r1 r2 = Some (s[r2 := int r1])" using False l by (simp add: setunion_high_def)
      then show ?thesis using 1 False by auto
    qed
  qed
qed

section \<open>The partition\<close>

text \<open>A client joins the sets of two elements: it unites their roots if they differ.\<close>

definition unite :: "bool \<Rightarrow> nat \<Rightarrow> nat \<Rightarrow> int list \<Rightarrow> int list option" where
  "unite high x y s = do {
     r1 \<leftarrow> find s x;
     r2 \<leftarrow> find s y;
     if r1 = r2 then Some s else if high then setunion_high s r1 r2 else setunion s r1 r2 }"

fun unites :: "(bool \<times> nat \<times> nat) list \<Rightarrow> int list \<Rightarrow> int list option" where
  "unites [] s = Some s"
| "unites ((high, x, y) # us) s = do { s \<leftarrow> unite high x y s; unites us s }"

definition joined :: "(nat \<times> nat) set \<Rightarrow> nat \<Rightarrow> nat \<Rightarrow> bool" where
  "joined P x y \<longleftrightarrow> (x, y) \<in> (P \<union> P\<inverse>)\<^sup>*"

lemma joined_trans: "joined P x y \<Longrightarrow> joined P y z \<Longrightarrow> joined P x z"
  unfolding joined_def by (rule rtrancl_trans)

lemma joined_sym: "joined P x y \<Longrightarrow> joined P y x"
proof -
  assume "joined P x y"
  then have "(y, x) \<in> ((P \<union> P\<inverse>)\<inverse>)\<^sup>*" unfolding joined_def by (rule rtrancl_converseI)
  moreover have "(P \<union> P\<inverse>)\<inverse> = P \<union> P\<inverse>" by auto
  ultimately show ?thesis by (simp add: joined_def)
qed

lemma joined_pair: "(x, y) \<in> P \<Longrightarrow> joined P x y"
  unfolding joined_def by (rule r_into_rtrancl) simp

lemma joined_mono: "joined P x y \<Longrightarrow> P \<subseteq> Q \<Longrightarrow> joined Q x y"
  unfolding joined_def by (rule subsetD [OF rtrancl_mono]) auto

text \<open>Every element is joined with its root, and the elements of a pair have the same root.\<close>

definition classes :: "nat \<Rightarrow> int list \<Rightarrow> (nat \<times> nat) set \<Rightarrow> bool" where
  "classes n s P \<longleftrightarrow> forest n s \<and> (\<forall>x r d. path s x r d \<longrightarrow> joined P x r) \<and> (\<forall>(x, y) \<in> P. \<exists>r d e. path s x r d \<and> path s y r e)"

lemma classes_path: "classes n s P \<Longrightarrow> 0 < x \<Longrightarrow> x \<le> n \<Longrightarrow> \<exists>r d. path s x r d"
  by (simp add: classes_def forest_def)

lemma classes_pair: "classes n s P \<Longrightarrow> (x, y) \<in> P \<Longrightarrow> \<exists>r d e. path s x r d \<and> path s y r e"
  unfolding classes_def by blast

lemma path_unique: "path s x r d \<Longrightarrow> path s x r' d' \<Longrightarrow> r = r'"
  using path_find by (metis option.inject)

lemma classes_relink:
  assumes c: "classes n s P" and x: "path s x r1 dx" and y: "path s y r2 dy" and l: "length s' = length s"
    and p: "\<And>z r d. path s z r d \<Longrightarrow> if r = b then path s' z a (Suc d) else path s' z r d" and ab: "a = r1 \<and> b = r2 \<or> a = r2 \<and> b = r1"
  shows "classes n s' (insert (x, y) P)"
proof -
  let ?P = "insert (x, y) P"
  have f: "length s' = Suc n" "\<exists>r d. path s z r d" if "0 < z" "z \<le> n" for z using c l that by (auto simp: classes_def forest_def)
  have fs': "forest n s'" using c l p unfolding classes_def forest_def by metis
  have j1: "joined ?P z r" if "path s z r d" for z r d using c that joined_mono [of P z r ?P] unfolding classes_def by blast
  have jab: "joined ?P b a"
  proof -
    have "joined ?P x y" by (rule joined_pair) simp
    then have j: "joined ?P r1 r2" using joined_trans [OF joined_trans [OF joined_sym [OF j1 [OF x]]] j1 [OF y]] by blast
    show ?thesis using ab j joined_sym [OF j] by blast
  qed
  have step: "path s' z (if r = b then a else r) (if r = b then Suc d else d)" if "path s z r d" for z r d using p [OF that] by auto
  have "joined ?P z r'" if z: "path s' z r' d'" for z r' d'
  proof -
    have "0 < z" "z \<le> n" using z l c by (cases rule: path.cases; auto simp: classes_def forest_def)+
    then obtain r d where r: "path s z r d" using f by blast
    have "r' = (if r = b then a else r)" by (rule path_unique [OF z step [OF r]])
    then show ?thesis using j1 [OF r] joined_trans [OF j1 [OF r], of a] jab by (cases "r = b") simp_all
  qed
  moreover have "\<exists>r d e. path s' u r d \<and> path s' w r e" if uw: "(u, w) \<in> ?P" for u w
  proof (cases "(u, w) \<in> P")
    case True
    then obtain r d e where "path s u r d" "path s w r e" using c unfolding classes_def by blast
    then show ?thesis using step by blast
  next
    case False
    then have "u = x" "w = y" using uw by auto
    moreover have same: "(if r1 = b then a else r1) = a" "(if r2 = b then a else r2) = a" using ab by auto
    ultimately show ?thesis using step [OF x, unfolded same] step [OF y, unfolded same] by blast
  qed
  ultimately show ?thesis using fs' unfolding classes_def by blast
qed

lemma unite_classes:
  assumes c: "classes n s P" and xy: "0 < x" "x \<le> n" "0 < y" "y \<le> n"
  shows "\<exists>s'. unite high x y s = Some s' \<and> classes n s' (insert (x, y) P)"
proof -
  obtain r1 d1 r2 d2 where r: "path s x r1 d1" "path s y r2 d2" 
    using classes_path [OF c xy(1,2)] classes_path [OF c xy(3,4)] by blast
  note f = path_find [OF r(1)] path_find [OF r(2)]
  show ?thesis
  proof (cases "r1 = r2")
    case True
    have "classes n s (insert (x, y) P)" using c r True unfolding classes_def by (blast intro: joined_mono)
    then show ?thesis using f True by (simp add: unite_def)
  next
    case False
    have root: "path s r1 r1 0" "path s r2 r2 0" using path_root [OF r(1)] path_root [OF r(2)] by (auto intro: path.root)
    note u = unions_relink [OF root False]
    show ?thesis
    proof (cases high)
      case True
      obtain s' where s': "setunion_high s r1 r2 = Some s'" "length s' = length s"
        "\<forall>x r d. path s x r d \<longrightarrow> (if s ! r1 < s ! r2 then if r = r1 then path s' x r2 (Suc d) else path s' x r d
          else if r = r2 then path s' x r1 (Suc d) else path s' x r d)" using u(2) by blast
      have "classes n s' (insert (x, y) P)"
      proof (cases "s ! r1 < s ! r2")
        case True
        show ?thesis by (rule classes_relink [OF c r s'(2), of r1 r2]) (use s'(3) True in simp_all)
      next
        case False
        show ?thesis by (rule classes_relink [OF c r s'(2), of r2 r1]) (use s'(3) False in simp_all)
      qed
      then show ?thesis using f False True s'(1) by (simp add: unite_def)
    next
      case low: False
      obtain s' where s': "setunion s r1 r2 = Some s'" "length s' = length s" "\<forall>x r d. path s x r d \<longrightarrow> (if r = r2 then path s' x r1 (Suc d) else path s' x r d)"
        using u(1) by blast
      have "classes n s' (insert (x, y) P)" by (rule classes_relink [OF c r s'(2), of r2 r1]) (use s'(3) in simp_all)
      then show ?thesis using f False low s'(1) by (simp add: unite_def)
    qed
  qed
qed

lemma unites_classes:
  "classes n s P \<Longrightarrow> \<forall>(h, x, y) \<in> set us. 0 < x \<and> x \<le> n \<and> 0 < y \<and> y \<le> n \<Longrightarrow>
    \<exists>s'. unites us s = Some s' \<and> classes n s' (P \<union> snd ` set us)"
proof (induction us arbitrary: s P)
  case (Cons u us)
  obtain h x y where u: "u = (h, x, y)" by (cases u)
  obtain s1 where s1: "unite h x y s = Some s1" "classes n s1 (insert (x, y) P)" using unite_classes [OF Cons.prems(1), of x y h] Cons.prems(2) u by auto
  have "\<forall>(h, x, y) \<in> set us. 0 < x \<and> x \<le> n \<and> 0 < y \<and> y \<le> n" using Cons.prems(2) by simp
  then obtain s' where "unites us s1 = Some s'" "classes n s' (insert (x, y) P \<union> snd ` set us)" using Cons.IH [OF s1(2)] by blast
  then show ?case using s1(1) u by simp
qed simp

text \<open>C33: The sets are those that the unions call for: after \<open>initialize\<close> and any sequence of joins by either kind
  of union, \<open>find\<close> returns for every element, and it returns the same root for two elements if and only if they are connected by the pairs that were joined.\<close>

theorem disjset_partition:
  assumes "length s = Suc n" "\<forall>(h, x, y) \<in> set us. 0 < x \<and> x \<le> n \<and> 0 < y \<and> y \<le> n"
  shows "\<exists>s0 s'. initialize n s = Some s0 \<and> unites us s0 = Some s' \<and>
    (\<forall>x y. 0 < x \<and> x \<le> n \<and> 0 < y \<and> y \<le> n \<longrightarrow>
      (\<exists>r q. find s' x = Some r \<and> find s' y = Some q \<and> (r = q \<longleftrightarrow> joined (snd ` set us) x y)))"
proof -
  obtain s0 where s0: "initialize n s = Some s0" "forest n s0" "\<forall>x. 0 < x \<longrightarrow> x \<le> n \<longrightarrow> path s0 x x 0" using initialize_forest [OF assms(1)] by blast
  have "joined {} x r" if p: "path s0 x r d" for x r d
  proof -
    have "0 < x" "x \<le> n" using p s0(2) by (cases rule: path.cases; auto simp: forest_def)+
    then have "r = x" using path_unique [OF p] s0(3) by blast
    then show ?thesis by (simp add: joined_def)
  qed
  then have "classes n s0 {}" using s0(2) by (simp add: classes_def)
  then obtain s' where s': "unites us s0 = Some s'" "classes n s' (snd ` set us)" using unites_classes [of n s0 "{}" us] assms(2) by auto
  have "\<exists>r q. find s' x = Some r \<and> find s' y = Some q \<and> (r = q \<longleftrightarrow> joined (snd ` set us) x y)" if xy: "0 < x" "x \<le> n" "0 < y" "y \<le> n" for x y
  proof -
    obtain r d q e where p: "path s' x r d" "path s' y q e" 
      using classes_path [OF s'(2) xy(1,2)] classes_path [OF s'(2) xy(3,4)] by blast
    have rt: "joined (snd ` set us) x r" "joined (snd ` set us) y q" using s'(2) p unfolding classes_def by blast+
    have same: "\<exists>r d. path s' z r d \<and> path s' x r d'" if "joined (snd ` set us) x z" "path s' x r d'" for z d' r
      using that unfolding joined_def
    proof (induction rule: rtrancl_induct)
      case (step z w)
      then obtain r2 d2 where z: "path s' z r2 d2" "path s' x r2 d'" by blast
      from step.hyps(2) have "\<exists>r d e. path s' z r d \<and> path s' w r e" using classes_pair [OF s'(2)] by blast
      then show ?case using z path_unique by metis
    qed blast
    have "r = q" if "joined (snd ` set us) x y" using same [OF that p(1)] p path_unique by metis
    moreover have "joined (snd ` set us) x y" if "r = q" using rt that joined_sym joined_trans by blast
    ultimately show ?thesis using path_find [OF p(1)] path_find [OF p(2)] by blast
  qed
  then show ?thesis using s0(1) s'(1) by blast
qed

theorem disjset_partition_witness:
  "\<exists>s0 s'. initialize 3 [0, 7, 7, 7] = Some s0 \<and> unites [(True, 1, 2), (False, 3, 3)] s0 = Some s' \<and>
    (\<forall>x y. 0 < x \<and> x \<le> 3 \<and> 0 < y \<and> y \<le> 3 \<longrightarrow>
      (\<exists>r q. find s' x = Some r \<and> find s' y = Some q \<and> (r = q \<longleftrightarrow> joined (snd ` set [(True, 1, 2), (False, 3, 3)]) x y)))"
  by (rule disjset_partition) simp_all

section \<open>The union by height\<close>

text \<open>A sequence of joins: 1 with 2, then the set of 2 with 3, 4, ... in turn, the arguments exchanged at the even ones.\<close>

definition chain_join :: "nat \<Rightarrow> bool \<times> nat \<times> nat" where
  "chain_join k = (True, if odd k then (2, k) else (k, 2))"

definition chain_joins :: "nat \<Rightarrow> (bool \<times> nat \<times> nat) list" where
  "chain_joins n = (True, 1, 2) # map chain_join [3..<Suc n]"

lemma unites_append: "unites (us @ vs) s = Option.bind (unites us s) (unites vs)"
  by (induction us s rule: unites.induct) (auto simp: bind_eq_Some_conv split: Option.bind_split)

text \<open>The chain so far: the root of 2 is the last element joined; its own entry alternates between height 0 and 1.\<close>

definition chained :: "nat \<Rightarrow> nat \<Rightarrow> int list \<Rightarrow> bool" where
  "chained N n s \<longleftrightarrow> length s = Suc N \<and> path s 2 n (n - 1) \<and> s ! n = (if even n then -1 else 0) \<and> (\<forall>k. n < k \<longrightarrow> k \<le> N \<longrightarrow> s ! k = 0)"

lemma chain_step:
  assumes c: "chained N n s" and n: "3 \<le> n" "n < N"
  shows "\<exists>s'. unites [chain_join (Suc n)] s = Some s' \<and> chained N (Suc n) s'"
proof -
  have l: "length s = Suc N" and p: "path s 2 n (n - 1)" and h: "s ! n = (if even n then -1 else 0)" and z: "\<forall>k. n < k \<longrightarrow> k \<le> N \<longrightarrow> s ! k = 0"
    using c by (auto simp: chained_def)
  have r: "path s n n 0" "path s (Suc n) (Suc n) 0" using l h z n by (auto intro!: path.root)
  note f = path_find [OF p] path_find [OF r(2)]
  let ?s = "if even n then s[n := int (Suc n)] else s[Suc n := -1, n := int (Suc n)]"
  have "path ?s 2 (Suc n) (Suc (n - 1))" using path_relink [OF p r(2,1), of ?s] l h z n by (simp split: if_splits)
  then have "chained N (Suc n) ?s" using l z n by (auto simp: chained_def)
  moreover have "unites [chain_join (Suc n)] s = Some ?s"
    using f l h z n by (simp add: chain_join_def unite_def setunion_high_def)
  ultimately show ?thesis by blast
qed

lemma chained_3: "3 \<le> N \<Longrightarrow> length s = Suc N \<Longrightarrow> \<forall>x. 0 < x \<longrightarrow> x \<le> N \<longrightarrow> s ! x = 0 \<Longrightarrow> \<exists>s'. unites (chain_joins 3) s = Some s' \<and> chained N 3 s'"
proof -
  assume a: "3 \<le> N" "length s = Suc N" "\<forall>x. 0 < x \<longrightarrow> x \<le> N \<longrightarrow> s ! x = 0"
  let ?s = "s[1 := 3, 2 := 1]"
  have "path ?s 3 3 0" using a by (intro path.root) simp_all
  then have "path ?s 1 3 (Suc 0)" using a by - (rule path.link, simp_all)
  then have "path ?s 2 3 (Suc (Suc 0))" using a by - (rule path.link, simp_all)
  then have "chained N 3 ?s" using a by (simp add: chained_def numeral_2_eq_2 [symmetric])
  moreover have "s[Suc 0 := -1, 2 := 1, Suc 0 := 3] = ?s" using list_update_swap [of 2 "Suc 0" "s[Suc 0 := -1]" 1 3] by simp
  then have "unites (chain_joins 3) s = Some ?s"
    using a by (simp add: chain_joins_def chain_join_def unite_def find.simps setunion_high_def upt_rec)
  ultimately show ?thesis by blast
qed

text \<open>The union by height links the trees in the wrong direction: the joins \<open>chain_joins n\<close> turn the \<open>n\<close> sets into a
  list, in which the root is \<open>n - 1\<close> links from element 2. With the comparison the other way round no path would be longer than the logarithm of \<open>n\<close>.\<close>

theorem disjset_high_chain:
  assumes "3 \<le> n" "length s = Suc n"
  shows "\<exists>s0 s'. initialize n s = Some s0 \<and> unites (chain_joins n) s0 = Some s' \<and> path s' 2 n (n - 1)"
proof -
  obtain s0 where s0: "init_loop n s = Some s0" "length s0 = Suc n" "\<forall>i. 0 < i \<longrightarrow> i \<le> n \<longrightarrow> s0 ! i = 0"
    using init_loop_eq [of n s] assms by auto
  have "\<exists>s'. unites (chain_joins m) s0 = Some s' \<and> chained n m s'" if "3 \<le> m" "m \<le> n" for m
    using that
  proof (induction m rule: nat_induct_at_least)
    case base
    then show ?case using chained_3 [OF assms(1) s0(2,3)] by simp
  next
    case (Suc m)
    then obtain s1 where s1: "unites (chain_joins m) s0 = Some s1" "chained n m s1" by auto
    then obtain s2 where s2: "unites [chain_join (Suc m)] s1 = Some s2" "chained n (Suc m) s2" using chain_step [of n m s1] Suc by auto
    have "chain_joins (Suc m) = chain_joins m @ [chain_join (Suc m)]" using Suc.hyps by (simp add: chain_joins_def)
    then show ?case using s1 s2 unites_append by simp
  qed
  then obtain s' where "unites (chain_joins n) s0 = Some s'" "chained n n s'" using assms(1) by blast
  then show ?thesis using s0(1) by (auto simp: initialize_def chained_def)
qed

theorem disjset_high_chain_witness:
  "\<exists>s0 s'. initialize 5 [0, 7, 7, 7, 7, 7] = Some s0 \<and> unites (chain_joins 5) s0 = Some s' \<and> path s' 2 5 4"
  using disjset_high_chain [of 5 "[0, 7, 7, 7, 7, 7]"] by simp

end
