(* ===== verification/Relay.thy ===== *)
theory Relay
  imports C_Library "HOL-Library.Sublist"
begin

text \<open>
  The port relay \<open>network/lcx/lcx.c\<close>: its command line, the three ways of making pairs of connections, and the loop that carries the data of a pair in
  both directions. The network is a list of events, one record per round of the loop: what \<open>select\<close> reports and what each \<open>read\<close> and \<open>write\<close>
  does; a \<open>write\<close> without an event writes everything. \<open>None\<close> is an access outside of an array (or outside of \<open>argv\<close>), or a \<open>memcpy\<close> of overlapping blocks.
\<close>

section \<open>The command line\<close>

definition HOSTLEN :: nat where "HOSTLEN = 40"

datatype lmethod = NONE | LISTEN | SLAVE | TRAN

record opts =
  lmeth :: lmethod
  host1 :: string
  host2 :: string
  port1 :: int
  port2 :: int
  logfile :: "string option"

text \<open>A cell of \<open>argv\<close>: the strings, a null pointer, and nothing beyond it.\<close>

definition cell :: "string list \<Rightarrow> nat \<Rightarrow> string option option" where
  "cell argv p = (if p < length argv then Some (Some (argv ! p)) else if p = length argv then Some None else None)"

definition testifisvalue :: "string option \<Rightarrow> bool" where
  "testifisvalue str = (case str of None \<Rightarrow> False | Some s \<Rightarrow> \<not> (s \<noteq> [] \<and> hd s = CHR ''-''))"

text \<open>The two things done with a value: the test looks at cell \<open>p + k\<close>, the value is always in the next cell.\<close>

definition get_port :: "string list \<Rightarrow> nat \<Rightarrow> nat \<Rightarrow> int \<Rightarrow> (nat \<times> int) option" where
  "get_port argv k p port = do {
     c \<leftarrow> cell argv (p + k);
     if testifisvalue c then do { v \<leftarrow> cell argv (p + 1); s \<leftarrow> v; Some (p + 1, atoi s) } else Some (p, port) }"

definition get_host :: "string list \<Rightarrow> nat \<Rightarrow> nat \<Rightarrow> string \<Rightarrow> (nat \<times> string) option" where
  "get_host argv k p host = do {
     c \<leftarrow> cell argv (p + k);
     if testifisvalue c then do { v \<leftarrow> cell argv (p + 1); s \<leftarrow> v; Some (p + 1, put host 0 (take (HOSTLEN - 1) s)) } else Some (p, host) }"

datatype lcx_exit = Version | No_logfile

definition parse_one :: "string list \<Rightarrow> nat \<Rightarrow> string \<Rightarrow> opts \<Rightarrow> (lcx_exit + nat \<times> opts) option" where
  "parse_one argv p s st =
     (if s = ''-v'' then Some (Inl Version)
      else if s = ''-listen'' then do {
        (p, a) \<leftarrow> get_port argv 1 p (port1 st);
        (p, b) \<leftarrow> get_port argv 1 p (port2 st);
        Some (Inr (p + 1, st\<lparr>lmeth := LISTEN, port1 := a, port2 := b\<rparr>)) }
      else if s = ''-slave'' then do {
        (p, h) \<leftarrow> get_host argv 1 p (host1 st);
        (p, a) \<leftarrow> get_port argv 1 p (port1 st);
        (p, g) \<leftarrow> get_host argv 1 p (host2 st);
        (p, b) \<leftarrow> get_port argv 1 p (port2 st);
        Some (Inr (p + 1, st\<lparr>lmeth := SLAVE, host1 := h, port1 := a, host2 := g, port2 := b\<rparr>)) }
      else if s = ''-tran'' then do {
        (p, a) \<leftarrow> get_port argv 1 p (port1 st);
        (p, g) \<leftarrow> get_host argv 2 p (host2 st);
        (p, b) \<leftarrow> get_port argv 3 p (port2 st);
        Some (Inr (p + 1, st\<lparr>lmeth := TRAN, port1 := a, host2 := g, port2 := b\<rparr>)) }
      else if s = ''-log'' then do {
        c \<leftarrow> cell argv (p + 1);
        if testifisvalue c then Some (Inr (p + 2, st\<lparr>logfile := c\<rparr>)) else Some (Inl No_logfile) }
      else Some (Inr (p + 1, st)))"

partial_function (option) parse_loop :: "string list \<Rightarrow> nat \<Rightarrow> opts \<Rightarrow> (lcx_exit + opts) option" where
  "parse_loop argv p st = do {
     c \<leftarrow> cell argv p;
     case c of None \<Rightarrow> Some (Inr st)
     | Some s \<Rightarrow> do {
         r \<leftarrow> parse_one argv p s st;
         case r of Inl e \<Rightarrow> Some (Inl e) | Inr (p, st) \<Rightarrow> parse_loop argv p st } }"

definition opts0 :: opts where
  "opts0 = \<lparr>lmeth = NONE, host1 = replicate HOSTLEN NUL, host2 = replicate HOSTLEN NUL, port1 = 0, port2 = 0, logfile = None\<rparr>"

datatype action = Bind2bind int int | Conn2conn string int string int | Bind2conn int string int | No_ports | No_host1 | No_host2 | Usage

definition dispatch :: "opts \<Rightarrow> action" where
  "dispatch st = (case lmeth st of
      LISTEN \<Rightarrow> if port1 st = 0 \<or> port2 st = 0 then No_ports else Bind2bind (port1 st) (port2 st)
    | SLAVE \<Rightarrow> if port1 st = 0 \<or> port2 st = 0 then No_ports
        else if cstr (host1 st) = [] then No_host1 else if cstr (host2 st) = [] then No_host2
        else Conn2conn (cstr (host1 st)) (port1 st) (cstr (host2 st)) (port2 st)
    | TRAN \<Rightarrow> if port1 st = 0 \<or> port2 st = 0 then No_ports
        else if cstr (host2 st) = [] then No_host2 else Bind2conn (port1 st) (cstr (host2 st)) (port2 st)
    | NONE \<Rightarrow> Usage)"

definition lcx_main :: "string list \<Rightarrow> (lcx_exit + action \<times> string option) option" where
  "lcx_main argv = do {
     r \<leftarrow> parse_loop argv 0 opts0;
     case r of Inl e \<Rightarrow> Some (Inl e) | Inr st \<Rightarrow> Some (Inr (dispatch st, logfile st)) }"

section \<open>The relay loop\<close>

abbreviation "MAXSIZE \<equiv> 10240 :: int"
abbreviation "EINTR \<equiv> 4 :: int"

datatype rd_ev = Got string | Rerr int
datatype wr_ev = Wrote nat | Werr int

record round =
  result :: int
  serr :: int
  readable1 :: bool
  writable2 :: bool
  readable2 :: bool
  writable1 :: bool
  read1 :: rd_ev
  writes2 :: "wr_ev list"
  read2 :: rd_ev
  writes1 :: "wr_ev list"

text \<open>The buffers of both directions with the number of bytes that wait in them; all bytes read from and written to each connection; the log.\<close>

record relay =
  send_out1 :: string
  totalread1 :: int
  send_out2 :: string
  totalread2 :: int
  got1 :: string
  got2 :: string
  put1 :: string
  put2 :: string
  rlog :: "string option"
  tmpbuf1 :: string
  tmpbuf2 :: string

datatype 'a flow = Cont 'a | Break 'a

definition makelog :: "string \<Rightarrow> string option \<Rightarrow> string option" where
  "makelog s l = map_option (\<lambda>t. t @ s) l"

text \<open>Reading into a buffer that holds \<open>tot\<close> bytes; the result is what was read, or the end of the loop.\<close>

definition read_into :: "rd_ev \<Rightarrow> string \<Rightarrow> int \<Rightarrow> (string \<times> string \<times> int) option option" where
  "read_into ev buf tot =
     (case ev of
        Got d \<Rightarrow> let d = take (nat (MAXSIZE - tot)) d in
          if d = [] then Some None
          else if tot < 0 then None
          else Some (Some (d, put buf (nat tot) d, tot + int (length d)))
      | Rerr e \<Rightarrow> if e \<noteq> EINTR then Some None else None)"

fun write_loop :: "string \<Rightarrow> int \<Rightarrow> int \<Rightarrow> string \<Rightarrow> wr_ev list \<Rightarrow> (bool \<times> int \<times> int \<times> string) option" where
  "write_loop buf sendcount tot sent evs =
     (if tot \<le> 0 then Some (False, sendcount, tot, sent)
      else if sendcount < 0 \<or> MAXSIZE < sendcount + tot then None
      else case evs of
        [] \<Rightarrow> Some (False, sendcount + tot, 0, sent @ take (nat tot) (drop (nat sendcount) buf))
      | Wrote n # evs \<Rightarrow>
          let n = min n (nat tot) in
          if n = 0 then Some (False, sendcount, tot, sent)
          else write_loop buf (sendcount + int n) (tot - int n) (sent @ take n (drop (nat sendcount) buf)) evs
      | Werr e # evs \<Rightarrow>
          if e \<noteq> EINTR then Some (True, sendcount, tot, sent)
          else write_loop buf (sendcount - 1) (tot + 1) sent evs)"

definition write_from :: "wr_ev list \<Rightarrow> string \<Rightarrow> int \<Rightarrow> string \<Rightarrow> (bool \<times> string \<times> int \<times> string) option" where
  "write_from evs buf tot sent = do {
     (err, sendcount, tot, sent) \<leftarrow> write_loop buf 0 tot sent evs;
     if err then Some (True, buf, tot, sent)
     else if 0 < tot \<and> 0 < sendcount then
       (if sendcount < tot then None
        else Some (False, take (nat tot) (drop (nat sendcount) buf) @ replicate (nat (MAXSIZE - tot)) NUL, tot, sent))
     else Some (False, replicate (nat MAXSIZE) NUL, tot, sent) }"

definition read_dir1 :: "round \<Rightarrow> relay \<Rightarrow> relay flow option" where
  "read_dir1 r s =
     (if readable1 r \<and> totalread1 s < MAXSIZE then do {
        x \<leftarrow> read_into (read1 r) (send_out1 s) (totalread1 s);
        case x of None \<Rightarrow> Some (Break s)
        | Some (d, buf, tot) \<Rightarrow>
            Some (Cont (s\<lparr>send_out1 := buf, totalread1 := tot, got1 := got1 s @ d, rlog := makelog d (makelog (tmpbuf1 s) (rlog s))\<rparr>)) }
      else Some (Cont s))"

definition write_dir1 :: "round \<Rightarrow> relay \<Rightarrow> relay flow option" where
  "write_dir1 r s =
     (if writable2 r then do {
        (err, buf, tot, sent) \<leftarrow> write_from (writes2 r) (send_out1 s) (totalread1 s) (put2 s);
        let s = s\<lparr>send_out1 := buf, totalread1 := tot, put2 := sent\<rparr>;
        Some (if err then Break s else Cont s) }
      else Some (Cont s))"

definition read_dir2 :: "round \<Rightarrow> relay \<Rightarrow> relay flow option" where
  "read_dir2 r s =
     (if readable2 r \<and> totalread2 s < MAXSIZE then do {
        x \<leftarrow> read_into (read2 r) (send_out2 s) (totalread2 s);
        case x of None \<Rightarrow> Some (Break s)
        | Some (d, buf, tot) \<Rightarrow>
            Some (Cont (s\<lparr>send_out2 := buf, totalread2 := tot, got2 := got2 s @ d, rlog := makelog d (makelog (tmpbuf2 s) (rlog s))\<rparr>)) }
      else Some (Cont s))"

definition write_dir2 :: "round \<Rightarrow> relay \<Rightarrow> relay flow option" where
  "write_dir2 r s =
     (if writable1 r then do {
        (err, buf, tot, sent) \<leftarrow> write_from (writes1 r) (send_out2 s) (totalread2 s) (put1 s);
        let s = s\<lparr>send_out2 := buf, totalread2 := tot, put1 := sent\<rparr>;
        Some (if err then Break s else Cont s) }
      else Some (Cont s))"

definition on_cont :: "'a flow option \<Rightarrow> ('a \<Rightarrow> 'a flow option) \<Rightarrow> 'a flow option" where
  "on_cont m f = (case m of Some (Cont s) \<Rightarrow> f s | _ \<Rightarrow> m)"

definition relay_round :: "round \<Rightarrow> relay \<Rightarrow> relay flow option" where
  "relay_round r s =
     (if result r < 0 \<and> serr r \<noteq> EINTR then Some (Break s)
      else if result r = 0 then Some (Break s)
      else on_cont (on_cont (on_cont (read_dir1 r s) (write_dir1 r)) (read_dir2 r)) (write_dir2 r))"

fun transdata :: "round list \<Rightarrow> relay \<Rightarrow> relay flow option" where
  "transdata [] s = Some (Cont s)"
| "transdata (r # rs) s = on_cont (relay_round r s) (transdata rs)"

definition relay0 :: "string option \<Rightarrow> string \<Rightarrow> string \<Rightarrow> relay" where
  "relay0 l t1 t2 = \<lparr>send_out1 = replicate (nat MAXSIZE) NUL, totalread1 = 0, send_out2 = replicate (nat MAXSIZE) NUL, totalread2 = 0,
     got1 = [], got2 = [], put1 = [], put2 = [], rlog = l, tmpbuf1 = t1, tmpbuf2 = t2\<rparr>"

section \<open>Making the connections\<close>

text \<open>The descriptors that the parent process has open, and one turn of each loop. \<open>create_socket\<close> returns 0 for a failure. A turn ends with the next one
  (\<open>Again\<close>) or with the end of the loop (\<open>Left\<close>).\<close>

record turn =
  acc1 :: "int option"
  acc2 :: "int option"
  sock1 :: "int option"
  sock2 :: "int option"
  conn1 :: bool
  conn2 :: bool

datatype turned = Again "int set" | Left "int set"

definition create_socket :: "int option \<Rightarrow> int" where
  "create_socket ev = (case ev of None \<Rightarrow> 0 | Some fd \<Rightarrow> fd)"

definition opened :: "int option \<Rightarrow> int set \<Rightarrow> int set" where
  "opened ev fds = (case ev of None \<Rightarrow> fds | Some fd \<Rightarrow> insert fd fds)"

definition bind2conn :: "turn \<Rightarrow> int set \<Rightarrow> turned" where
  "bind2conn t fds = (case acc1 t of
      None \<Rightarrow> Again fds
    | Some sockfd1 \<Rightarrow>
        let fds = insert sockfd1 fds; sockfd2 = create_socket (sock2 t); fds = opened (sock2 t) fds in
        if sockfd2 = 0 then Again (fds - {sockfd1})
        else if \<not> conn2 t then Again (fds - {sockfd2} - {sockfd1})
        else Again (fds - {sockfd1} - {sockfd2}))"

definition bind2bind :: "turn \<Rightarrow> int set \<Rightarrow> turned" where
  "bind2bind t fds = (case acc1 t of
      None \<Rightarrow> Again fds
    | Some sockfd1 \<Rightarrow>
        let fds = insert sockfd1 fds in
        (case acc2 t of
           None \<Rightarrow> Again (fds - {sockfd1})
         | Some sockfd2 \<Rightarrow> Again (insert sockfd2 fds - {sockfd1} - {sockfd2})))"

definition conn2conn :: "turn \<Rightarrow> int set \<Rightarrow> turned" where
  "conn2conn t fds =
     (let sockfd1 = create_socket (sock1 t); fds = opened (sock1 t) fds in
      if sockfd1 = 0 then Left fds
      else let sockfd2 = create_socket (sock2 t); fds = opened (sock2 t) fds in
        if sockfd2 = 0 then Left fds
        else if \<not> conn1 t then Left (fds - {sockfd1} - {sockfd2})
        else if \<not> conn2 t then Left (fds - {sockfd1} - {sockfd2})
        else Again (fds - {sockfd1} - {sockfd2}))"

fun turns :: "(turn \<Rightarrow> int set \<Rightarrow> turned) \<Rightarrow> turn list \<Rightarrow> int set \<Rightarrow> turned" where
  "turns f [] fds = Again fds"
| "turns f (t # ts) fds = (case f t fds of Again fds \<Rightarrow> turns f ts fds | Left fds \<Rightarrow> Left fds)"

section \<open>What the loop keeps\<close>

declare write_loop.simps [simp del]

text \<open>One direction: what was read is what was written and what waits.\<close>

definition carries :: "string \<Rightarrow> int \<Rightarrow> string \<Rightarrow> string \<Rightarrow> bool" where
  "carries buf tot got sent \<longleftrightarrow> length buf = nat MAXSIZE \<and> 0 \<le> tot \<and> tot \<le> MAXSIZE \<and> got = sent @ take (nat tot) buf"

fun calm_read :: "rd_ev \<Rightarrow> bool" where
  "calm_read (Got d) = True"
| "calm_read (Rerr e) = (e \<noteq> EINTR)"

fun calm_write :: "wr_ev \<Rightarrow> bool" where
  "calm_write (Wrote n) = (n \<noteq> 0)"
| "calm_write (Werr e) = (e \<noteq> EINTR)"

definition calm :: "round \<Rightarrow> bool" where
  "calm r \<longleftrightarrow> calm_read (read1 r) \<and> calm_read (read2 r) \<and> list_all calm_write (writes1 r) \<and> list_all calm_write (writes2 r)"

lemma read_into_carries:
  assumes "carries buf tot got sent" "calm_read ev" "tot < MAXSIZE"
  shows "\<exists>x. read_into ev buf tot = Some x \<and> (\<forall>d buf' tot'. x = Some (d, buf', tot') \<longrightarrow> carries buf' tot' (got @ d) sent)"
proof (cases ev)
  case (Got d)
  define e where "e = take (nat (MAXSIZE - tot)) d"
  have tot: "0 \<le> tot" "length buf = nat MAXSIZE" "got = sent @ take (nat tot) buf" using assms(1) by (auto simp: carries_def)
  have e: "tot + int (length e) \<le> MAXSIZE" using assms(3) by (auto simp: e_def)
  then have l: "nat tot + length e \<le> length buf" using tot by linarith
  have "take (nat (tot + int (length e))) (put buf (nat tot) e) = take (nat tot) buf @ e"
    using tot(1,2) e l by (cases "e = []") (auto simp: put_def nat_add_distrib min_def simp flip: length_greater_0_conv)
  then have "carries (put buf (nat tot) e) (tot + int (length e)) (got @ e) sent" using tot e length_put [OF l] unfolding carries_def by simp
  then show ?thesis using Got tot(1) by (simp add: read_into_def Let_def e_def)
qed (use assms in \<open>simp add: read_into_def\<close>)

lemma write_loop_carries:
  assumes "length buf = nat MAXSIZE" "0 \<le> sc" "0 \<le> tot" "sc + tot \<le> MAXSIZE" "list_all calm_write evs"
  shows "\<exists>err sc' tot' sent'. write_loop buf sc tot sent evs = Some (err, sc', tot', sent') \<and> 0 \<le> tot' \<and> 0 \<le> sc' \<and> sc' + tot' = sc + tot \<and> (\<not> err \<longrightarrow> tot' = 0) \<and>
    sent' @ take (nat tot') (drop (nat sc') buf) = sent @ take (nat tot) (drop (nat sc) buf)"
  using assms
proof (induction evs arbitrary: sc tot sent)
  case Nil
  then show ?case by (subst write_loop.simps) auto
next
  case (Cons e evs)
  show ?case
  proof (cases "tot = 0")
    case True
    then show ?thesis using Cons.prems by (subst write_loop.simps) auto
  next
    case False
    show ?thesis
    proof (cases e)
      case (Werr x)
      then show ?thesis using Cons.prems False by (subst write_loop.simps) auto
    next
      case (Wrote n)
      define m where "m = min n (nat tot)"
      have n: "0 < m" "int m \<le> tot" using Wrote Cons.prems False by (auto simp: m_def)
      have step: "write_loop buf sc tot sent (e # evs) = write_loop buf (sc + int m) (tot - int m) (sent @ take m (drop (nat sc) buf)) evs"
        using Cons.prems Wrote False n by (subst write_loop.simps) (simp add: Let_def m_def [symmetric])
      have "take m (drop (nat sc) buf) @ take (nat (tot - int m)) (drop (nat (sc + int m)) buf) = take (nat tot) (drop (nat sc) buf)"
      proof -
        have "nat tot = m + nat (tot - int m)" "nat (sc + int m) = m + nat sc" using n Cons.prems by auto
        then show ?thesis by (metis drop_drop take_add)
      qed
      then show ?thesis unfolding step
        using Cons.IH [of "sc + int m" "tot - int m" "sent @ take m (drop (nat sc) buf)"] Cons.prems n by auto
    qed
  qed
qed

lemma write_from_carries:
  assumes "carries buf tot got sent" "list_all calm_write evs"
  shows "\<exists>err buf' tot' sent'. write_from evs buf tot sent = Some (err, buf', tot', sent') \<and> (if err then prefix sent' got else carries buf' tot' got sent' \<and> tot' = 0)"
proof -
  have b: "length buf = nat MAXSIZE" "0 \<le> tot" "tot \<le> MAXSIZE" "got = sent @ take (nat tot) buf" using assms(1) by (auto simp: carries_def)
  obtain err sc' tot' sent' where w: "write_loop buf 0 tot sent evs = Some (err, sc', tot', sent')" "\<not> err \<longrightarrow> tot' = 0"
    "sent' @ take (nat tot') (drop (nat sc') buf) = sent @ take (nat tot) buf"
    using write_loop_carries [of buf 0 tot evs sent] b assms(2) by auto
  show ?thesis
  proof (cases err)
    case True
    have "prefix sent' got" using w(3) b(4) by (metis prefixI)
    then show ?thesis using w(1) True by (auto simp: write_from_def)
  next
    case False
    then show ?thesis using w b by (auto simp: write_from_def carries_def)
  qed
qed

section \<open>The whole loop\<close>

definition rinv :: "relay \<Rightarrow> bool" where
  "rinv s \<longleftrightarrow> carries (send_out1 s) (totalread1 s) (got1 s) (put2 s) \<and> carries (send_out2 s) (totalread2 s) (got2 s) (put1 s)"

definition rprefix :: "relay \<Rightarrow> bool" where
  "rprefix s \<longleftrightarrow> prefix (put2 s) (got1 s) \<and> prefix (put1 s) (got2 s)"

text \<open>What a part of a round must do: go on in the invariant, or stop with nothing but a prefix delivered.\<close>

definition relays :: "relay flow option \<Rightarrow> (relay \<Rightarrow> bool) \<Rightarrow> bool" where
  "relays m Q \<longleftrightarrow> (\<exists>s. m = Some (Cont s) \<and> rinv s \<and> Q s \<or> m = Some (Break s) \<and> rprefix s)"

lemma rinv_prefix: "rinv s \<Longrightarrow> rprefix s"
  by (auto simp: rinv_def rprefix_def carries_def)

lemma relays_on_cont: "relays m P \<Longrightarrow> (\<And>s. rinv s \<Longrightarrow> P s \<Longrightarrow> relays (f s) Q) \<Longrightarrow> relays (on_cont m f) Q"
  by (auto simp: relays_def on_cont_def)

lemma relays_read1: "rinv s \<Longrightarrow> calm r \<Longrightarrow> relays (read_dir1 r s) (\<lambda>_. True)"
  using read_into_carries [of "send_out1 s" "totalread1 s" "got1 s" "put2 s" "read1 r"] rinv_prefix [of s]
  by (fastforce simp: read_dir1_def relays_def rinv_def calm_def split: option.splits)

lemma relays_read2: "rinv s \<Longrightarrow> calm r \<Longrightarrow> P (totalread1 s) \<Longrightarrow> relays (read_dir2 r s) (\<lambda>s. P (totalread1 s))"
  using read_into_carries [of "send_out2 s" "totalread2 s" "got2 s" "put1 s" "read2 r"] rinv_prefix [of s]
  by (fastforce simp: read_dir2_def relays_def rinv_def calm_def split: option.splits)

lemma relays_write1: "rinv s \<Longrightarrow> calm r \<Longrightarrow> relays (write_dir1 r s) (\<lambda>s. writable2 r \<longrightarrow> totalread1 s = 0)"
  using write_from_carries [of "send_out1 s" "totalread1 s" "got1 s" "put2 s" "writes2 r"] rinv_prefix [of s]
  by (fastforce simp: write_dir1_def relays_def rinv_def rprefix_def calm_def Let_def split: if_splits)

lemma relays_write2:
  "rinv s \<Longrightarrow> calm r \<Longrightarrow> P (totalread1 s) \<Longrightarrow> relays (write_dir2 r s) (\<lambda>s. P (totalread1 s) \<and> (writable1 r \<longrightarrow> totalread2 s = 0))"
  using write_from_carries [of "send_out2 s" "totalread2 s" "got2 s" "put1 s" "writes1 r"] rinv_prefix [of s]
  by (fastforce simp: write_dir2_def relays_def rinv_def rprefix_def calm_def Let_def split: if_splits)

lemma relays_round:
  assumes "rinv s" "calm r"
  shows "relays (relay_round r s) (\<lambda>s. (writable2 r \<longrightarrow> totalread1 s = 0) \<and> (writable1 r \<longrightarrow> totalread2 s = 0))"
proof (cases "result r < 0 \<and> serr r \<noteq> EINTR \<or> result r = 0")
  case True
  then show ?thesis using rinv_prefix [OF assms(1)] by (auto simp: relay_round_def relays_def)
next
  case False
  have "relays (on_cont (on_cont (on_cont (read_dir1 r s) (write_dir1 r)) (read_dir2 r)) (write_dir2 r))
      (\<lambda>s. (writable2 r \<longrightarrow> totalread1 s = 0) \<and> (writable1 r \<longrightarrow> totalread2 s = 0))"
    by (rule relays_on_cont, rule relays_on_cont, rule relays_on_cont, rule relays_read1 [OF assms], rule relays_write1 [OF _ assms(2)], assumption,
        rule relays_read2 [OF _ assms(2)], assumption, assumption, rule relays_write2 [OF _ assms(2)])
  then show ?thesis using False by (auto simp: relay_round_def)
qed

section \<open>Properties\<close>

lemma relays_transdata:
  "rinv s \<Longrightarrow> list_all calm rounds \<Longrightarrow> b \<longrightarrow> (\<forall>r \<in> set rounds. writable1 r \<and> writable2 r) \<Longrightarrow> b \<longrightarrow> totalread1 s = 0 \<and> totalread2 s = 0 \<Longrightarrow>
    relays (transdata rounds s) (\<lambda>s. b \<longrightarrow> totalread1 s = 0 \<and> totalread2 s = 0)"
proof (induction rounds arbitrary: s)
  case Nil
  then show ?case by (simp add: relays_def)
next
  case (Cons r rs)
  show ?case unfolding transdata.simps
  proof (rule relays_on_cont)
    show "relays (relay_round r s) (\<lambda>s. (writable2 r \<longrightarrow> totalread1 s = 0) \<and> (writable1 r \<longrightarrow> totalread2 s = 0))"
      using relays_round [OF Cons.prems(1)] Cons.prems(2) by simp
  next
    fix s'
    assume "rinv s'" "(writable2 r \<longrightarrow> totalread1 s' = 0) \<and> (writable1 r \<longrightarrow> totalread2 s' = 0)"
    then show "relays (transdata rs s') (\<lambda>s. b \<longrightarrow> totalread1 s = 0 \<and> totalread2 s = 0)" using Cons.IH [of s'] Cons.prems(2,3) by auto
  qed
qed

text \<open>C13: The relay carries the data of both directions unchanged, in order and without loss: for any rounds in which no call is
  interrupted by a signal and no \<open>write\<close> writes nothing, there is no fault; while the loop goes on, what was read from one side is what was written to the other
  followed by what waits in the buffer, and nothing waits if both sides were always writable; when it ends, each side has got a prefix of what the
  other side sent.\<close>

theorem relay_exact:
  assumes "list_all calm rounds"
  shows "\<exists>f. transdata rounds (relay0 l t1 t2) = Some f \<and> (case f of
      Cont s \<Rightarrow> got1 s = put2 s @ take (nat (totalread1 s)) (send_out1 s) \<and> got2 s = put1 s @ take (nat (totalread2 s)) (send_out2 s) \<and>
        totalread1 s \<in> {0..MAXSIZE} \<and> totalread2 s \<in> {0..MAXSIZE} \<and>
        ((\<forall>r \<in> set rounds. writable1 r \<and> writable2 r) \<longrightarrow> got1 s = put2 s \<and> got2 s = put1 s)
    | Break s \<Rightarrow> prefix (put2 s) (got1 s) \<and> prefix (put1 s) (got2 s))"
proof -
  have "rinv (relay0 l t1 t2)" by (simp add: rinv_def relay0_def carries_def)
  then have "relays (transdata rounds (relay0 l t1 t2)) (\<lambda>s. (\<forall>r \<in> set rounds. writable1 r \<and> writable2 r) \<longrightarrow> totalread1 s = 0 \<and> totalread2 s = 0)"
    by (rule relays_transdata [OF _ assms]) (simp_all add: relay0_def)
  then obtain s where "transdata rounds (relay0 l t1 t2) = Some (Cont s) \<and> rinv s \<and> ((\<forall>r \<in> set rounds. writable1 r \<and> writable2 r) \<longrightarrow> totalread1 s = 0 \<and> totalread2 s = 0)
      \<or> transdata rounds (relay0 l t1 t2) = Some (Break s) \<and> rprefix s" by (auto simp: relays_def)
  then show ?thesis
  proof
    assume c: "transdata rounds (relay0 l t1 t2) = Some (Cont s) \<and> rinv s \<and> ((\<forall>r \<in> set rounds. writable1 r \<and> writable2 r) \<longrightarrow> totalread1 s = 0 \<and> totalread2 s = 0)"
    show ?thesis by (rule exI [of _ "Cont s"]) (use c in \<open>auto simp: rinv_def carries_def\<close>)
  next
    assume c: "transdata rounds (relay0 l t1 t2) = Some (Break s) \<and> rprefix s"
    show ?thesis by (rule exI [of _ "Break s"]) (use c in \<open>auto simp: rprefix_def\<close>)
  qed
qed

definition round0 :: round where
  "round0 = \<lparr>result = 2, serr = 0, readable1 = True, writable2 = True, readable2 = False, writable1 = True,
     read1 = Got ''abc'', writes2 = [Wrote 1], read2 = Got [], writes1 = []\<rparr>"

theorem relay_exact_witness:
  "\<exists>f. transdata [round0] (relay0 None [] []) = Some f \<and> (case f of
      Cont s \<Rightarrow> got1 s = put2 s @ take (nat (totalread1 s)) (send_out1 s) \<and> got2 s = put1 s @ take (nat (totalread2 s)) (send_out2 s) \<and>
        totalread1 s \<in> {0..MAXSIZE} \<and> totalread2 s \<in> {0..MAXSIZE} \<and>
        ((\<forall>r \<in> set [round0]. writable1 r \<and> writable2 r) \<longrightarrow> got1 s = put2 s \<and> got2 s = put1 s)
    | Break s \<Rightarrow> prefix (put2 s) (got1 s) \<and> prefix (put1 s) (got2 s))"
  by (rule relay_exact) (simp add: round0_def calm_def)

text \<open>A signal breaks the relay: a \<open>read\<close> or a first \<open>write\<close> that is interrupted leads to an access outside of the buffers, since
  the result -1 is used as a number of bytes.\<close>

theorem relay_interrupted:
  assumes "0 < result r" "readable1 r" "d \<noteq> []"
    and "read1 r = Rerr EINTR \<or> read1 r = Got d \<and> writable2 r \<and> writes2 r = Werr EINTR # evs"
  shows "transdata (r # rs) (relay0 l t1 t2) = None"
proof -
  have "on_cont (read_dir1 r (relay0 l t1 t2)) (write_dir1 r) = None" using assms(4)
  proof
    assume "read1 r = Rerr EINTR"
    then show ?thesis using assms(2) by (simp add: read_dir1_def read_into_def relay0_def on_cont_def)
  next
    assume a: "read1 r = Got d \<and> writable2 r \<and> writes2 r = Werr EINTR # evs"
    define e where "e = take 10240 d"
    then have e: "e \<noteq> []" "length e \<le> 10240" using assms(3) by auto
    let ?s = "(relay0 l t1 t2)\<lparr>send_out1 := put (send_out1 (relay0 l t1 t2)) 0 e, totalread1 := int (length e), got1 := e, rlog := makelog e (makelog t1 l)\<rparr>"
    have "read_dir1 r (relay0 l t1 t2) = Some (Cont ?s)" using a assms(2) e(1) by (simp add: read_dir1_def read_into_def relay0_def Let_def e_def)
    moreover have "write_loop buf 0 (int (length e)) [] (Werr EINTR # evs) = None" for buf
      using e by (subst write_loop.simps, subst write_loop.simps) simp
    then have "write_dir1 r ?s = None" using a by (simp add: write_dir1_def write_from_def relay0_def)
    ultimately show ?thesis by (simp add: on_cont_def)
  qed
  then show ?thesis using assms(1) by (simp add: relay_round_def on_cont_def)
qed

theorem relay_interrupted_witness:
  "transdata [round0\<lparr>writes2 := [Werr EINTR]\<rparr>] (relay0 None [] []) = None"
  by (rule relay_interrupted [of _ "''abc''" "[]"]) (simp_all add: round0_def)

text \<open>New descriptors are positive and not in use.\<close>

definition fresh_turn :: "int set \<Rightarrow> turn \<Rightarrow> bool" where
  "fresh_turn fds t \<longleftrightarrow> (\<forall>ev \<in> {acc1 t, acc2 t, sock1 t, sock2 t}. \<forall>fd. ev = Some fd \<longrightarrow> 0 < fd \<and> fd \<notin> fds)"

lemma turn_keeps:
  assumes "fresh_turn fds t"
  shows "bind2conn t fds = Again fds" "bind2bind t fds = Again fds" "\<forall>fds'. conn2conn t fds = Again fds' \<longrightarrow> fds' = fds"
  using assms by (auto simp: bind2conn_def bind2bind_def conn2conn_def fresh_turn_def create_socket_def opened_def Let_def split: option.splits if_splits)

text \<open>No descriptor is leaked: after any number of turns of each of the three loops the parent process has the same
  descriptors open as before, and the two server loops go on forever.\<close>

theorem relay_descriptors:
  assumes "\<forall>t \<in> set ts. fresh_turn fds t"
  shows "turns bind2conn ts fds = Again fds \<and> turns bind2bind ts fds = Again fds \<and> (\<forall>fds'. turns conn2conn ts fds = Again fds' \<longrightarrow> fds' = fds)"
  using assms
proof (induction ts)
  case (Cons t ts)
  then show ?case using turn_keeps [of fds t] by (auto split: turned.splits)
qed simp

theorem relay_descriptors_witness:
  "turns bind2conn [\<lparr>acc1 = Some 5, acc2 = None, sock1 = None, sock2 = Some 6, conn1 = False, conn2 = False\<rparr>] {3, 4} = Again {3, 4}"
  using relay_descriptors [of "[\<lparr>acc1 = Some 5, acc2 = None, sock1 = None, sock2 = Some 6, conn1 = False, conn2 = False\<rparr>]" "{3, 4}"]
  by (simp add: fresh_turn_def)

definition plain :: "string \<Rightarrow> bool" where
  "plain s \<longleftrightarrow> s \<notin> {''-v'', ''-listen'', ''-slave'', ''-tran'', ''-log''}"

lemma parse_at:
  "p < length argv \<Longrightarrow> parse_loop argv p st = do { r \<leftarrow> parse_one argv p (argv ! p) st; case r of Inl e \<Rightarrow> Some (Inl e) | Inr (p, st) \<Rightarrow> parse_loop argv p st }"
  by (subst parse_loop.simps) (simp add: cell_def)

lemma parse_end: "p = length argv \<Longrightarrow> parse_loop argv p st = Some (Inr st)"
  by (subst parse_loop.simps) (simp add: cell_def)

lemma parse_plain: "plain n \<Longrightarrow> parse_loop (n # argv) 0 st = parse_loop (n # argv) 1 st"
  by (simp add: parse_at parse_one_def plain_def)

lemmas option_values = get_port_def get_host_def cell_def

text \<open>The command line: with values that do not start with a hyphen, \<open>-listen\<close> and \<open>-slave\<close> do what the usage message says. \<open>-tran\<close>
  with its three values, as in the usage message, reads beyond the end of \<open>argv\<close>, because it tests the second and third cell after the current one instead of the next;
  it works if \<open>-log\<close> and a file name follow.\<close>

theorem lcx_command_line:
  assumes "plain n" "\<forall>v \<in> {a, b, g, h, f}. testifisvalue (Some v)" "atoi a \<noteq> 0" "atoi b \<noteq> 0"
    and "NUL \<notin> set g" "NUL \<notin> set h" "g \<noteq> []" "h \<noteq> []" "length g < HOSTLEN" "length h < HOSTLEN"
  shows "lcx_main [n, ''-listen'', a, b] = Some (Inr (Bind2bind (atoi a) (atoi b), None)) \<and>
    lcx_main [n, ''-slave'', g, a, h, b] = Some (Inr (Conn2conn g (atoi a) h (atoi b), None)) \<and>
    lcx_main [n, ''-tran'', a, h, b] = None \<and>
    lcx_main [n, ''-tran'', a, h, b, ''-log'', f] = Some (Inr (Bind2conn (atoi a) h (atoi b), Some f))"
proof -
  have v: "testifisvalue (Some a)" "testifisvalue (Some b)" "testifisvalue (Some g)" "testifisvalue (Some h)" "testifisvalue (Some f)" "\<not> testifisvalue None"
    using assms(2) by (auto simp: testifisvalue_def)
  have host: "cstr (put (replicate HOSTLEN NUL) 0 (take (HOSTLEN - 1) x)) = x" if "x \<in> {g, h}" for x
    using that assms(5-10) by (auto simp: put_def cstr_def takeWhile_append)
  let ?l = "[n, ''-listen'', a, b]" and ?s = "[n, ''-slave'', g, a, h, b]" and ?t = "[n, ''-tran'', a, h, b]" and ?u = "[n, ''-tran'', a, h, b, ''-log'', f]"
  note skip = parse_plain [OF assms(1)]
  have "parse_one ?l 1 ''-listen'' opts0 = Some (Inr (4, opts0\<lparr>lmeth := LISTEN, port1 := atoi a, port2 := atoi b\<rparr>))"
    by (simp add: parse_one_def option_values v)
  then have 1: "lcx_main ?l = Some (Inr (Bind2bind (atoi a) (atoi b), None))"
    using assms(3,4) by (simp add: lcx_main_def skip parse_at parse_end dispatch_def opts0_def)
  have "parse_one ?s 1 ''-slave'' opts0 = Some (Inr (6, opts0\<lparr>lmeth := SLAVE, host1 := put (replicate HOSTLEN NUL) 0 (take (HOSTLEN - 1) g), port1 := atoi a,
      host2 := put (replicate HOSTLEN NUL) 0 (take (HOSTLEN - 1) h), port2 := atoi b\<rparr>))"
    by (simp add: parse_one_def option_values v opts0_def)
  then have 2: "lcx_main ?s = Some (Inr (Conn2conn g (atoi a) h (atoi b), None))"
    using assms(3,4,7,8) host by (simp add: lcx_main_def skip parse_at parse_end dispatch_def opts0_def)
  have "parse_one ?t 1 ''-tran'' opts0 = None" by (simp add: parse_one_def option_values v)
  then have 3: "lcx_main ?t = None" by (simp add: lcx_main_def skip parse_at)
  have "parse_one ?u 1 ''-tran'' opts0 = Some (Inr (5, opts0\<lparr>lmeth := TRAN, port1 := atoi a, host2 := put (replicate HOSTLEN NUL) 0 (take (HOSTLEN - 1) h), port2 := atoi b\<rparr>))"
    by (simp add: parse_one_def option_values v opts0_def)
  moreover have "parse_one ?u 5 ''-log'' st = Some (Inr (7, st\<lparr>logfile := Some f\<rparr>))" for st
    by (simp add: parse_one_def option_values v)
  ultimately have 4: "lcx_main ?u = Some (Inr (Bind2conn (atoi a) h (atoi b), Some f))"
    using assms(3,4,8) host by (simp add: lcx_main_def skip parse_at parse_end dispatch_def opts0_def)
  show ?thesis using 1 2 3 4 by blast
qed

theorem lcx_command_line_witness:
  "lcx_main [''lcx'', ''-tran'', ''80'', ''h'', ''90''] = None \<and> lcx_main [''lcx'', ''-listen'', ''80'', ''90''] = Some (Inr (Bind2bind 80 90, None))"
proof -
  have p: "atoi ''80'' = 80" "atoi ''90'' = 90" by code_simp+
  show ?thesis using lcx_command_line [of "''lcx''" "''80''" "''90''" "''g''" "''h''" "''f''"]
    by (simp add: p plain_def testifisvalue_def NUL_def HOSTLEN_def)
qed

end
