(* ===== verification/Popen.thy ===== *)
theory Popen
  imports Prelude
begin

text \<open>
  \<open>popen\<close> and \<open>pclose\<close>: \<open>apue.3e/lib/popen.c\<close> (the same as \<open>ipc1/popen.c\<close>) and the copy \<open>apue/15.3popen_and_pclose.c\<close>. The copy writes \<open>pdf[1]\<close> for \<open>pfd[1]\<close> once
  and is read as if it did not. A process has a table of descriptors; a stream is its descriptor. What the system calls answer is the argument \<open>pev\<close> or \<open>wev\<close>. The array \<open>childpid\<close> is a list, and an access outside it is a fault. The
  error numbers that the failing system calls set themselves are left out.
\<close>

section \<open>The code\<close>

datatype obj = Pipe_read nat | Pipe_write nat | Other nat

type_synonym fdtab = "nat \<Rightarrow> obj option"

record pstate =
  childpid :: "int list option"
  maxfd :: nat
  fds :: fdtab
  perrno :: int

record pev =
  calloc_ok :: bool
  open_max :: nat
  pipe :: "(nat \<times> nat) option"
  pipe_id :: nat
  fork :: int
  fdopen_ok :: bool

abbreviation "EINVAL \<equiv> 22 :: int"
abbreviation "EMFILE \<equiv> 24 :: int"
abbreviation "STDIN_FILENO \<equiv> 0 :: nat"
abbreviation "STDOUT_FILENO \<equiv> 1 :: nat"

definition dup2 :: "nat \<Rightarrow> nat \<Rightarrow> fdtab \<Rightarrow> fdtab" where
  "dup2 a b t = t(b := t a)"

definition close :: "nat \<Rightarrow> fdtab \<Rightarrow> fdtab" where
  "close a t = t(a := None)"

text \<open>The descriptors of the child when it calls \<open>execl\<close>.\<close>

definition close_streams :: "int list \<Rightarrow> fdtab \<Rightarrow> fdtab" where
  "close_streams cp t = fold (\<lambda>i t. if cp ! i > 0 then close i t else t) [0..<length cp] t"

definition child :: "string \<Rightarrow> nat \<times> nat \<Rightarrow> int list \<Rightarrow> fdtab \<Rightarrow> fdtab" where
  "child type pfd cp t =
     (let t = (if type = ''r'' then
                 let t = close (fst pfd) t in
                 if snd pfd \<noteq> STDOUT_FILENO then close (snd pfd) (dup2 (snd pfd) STDOUT_FILENO t) else t
               else
                 let t = close (snd pfd) t in
                 if fst pfd \<noteq> STDIN_FILENO then close (fst pfd) (dup2 (fst pfd) STDIN_FILENO t) else t)
      in close_streams cp t)"

text \<open>\<open>popen\<close> returns the stream, the descriptors of the child if one was made, and the new state. \<open>slack\<close> is 0 in the library and 1 in the copy, which
  compares with \<open>>\<close> instead of \<open>>=\<close>.\<close>

definition popen_gen :: "nat \<Rightarrow> string \<Rightarrow> pev \<Rightarrow> pstate \<Rightarrow> (nat option \<times> fdtab option \<times> pstate) option" where
  "popen_gen slack type ev s =
     (if type \<noteq> ''r'' \<and> type \<noteq> ''w'' then Some (None, None, s\<lparr>perrno := EINVAL\<rparr>)
      else let s = (if childpid s = None then s\<lparr>maxfd := open_max ev, childpid := (if calloc_ok ev then Some (replicate (open_max ev) 0) else None)\<rparr> else s) in
        case childpid s of None \<Rightarrow> Some (None, None, s)
        | Some cp \<Rightarrow>
            (case pipe ev of None \<Rightarrow> Some (None, None, s)
             | Some pfd \<Rightarrow>
                 let s = s\<lparr>fds := (fds s)(fst pfd \<mapsto> Pipe_read (pipe_id ev), snd pfd \<mapsto> Pipe_write (pipe_id ev))\<rparr> in
                 if maxfd s \<le> fst pfd \<or> maxfd s + slack \<le> snd pfd
                 then Some (None, None, s\<lparr>fds := close (snd pfd) (close (fst pfd) (fds s)), perrno := EMFILE\<rparr>)
                 else if fork ev < 0 then Some (None, None, s)
                 else let c = Some (child type pfd cp (fds s));
                          mine = (if type = ''r'' then fst pfd else snd pfd);
                          s = s\<lparr>fds := close (if type = ''r'' then snd pfd else fst pfd) (fds s)\<rparr>
                      in if \<not> fdopen_ok ev then Some (None, c, s)
                         else do { cp \<leftarrow> wr cp mine (fork ev); Some (Some mine, c, s\<lparr>childpid := Some cp\<rparr>) }))"

definition popen :: "string \<Rightarrow> pev \<Rightarrow> pstate \<Rightarrow> (nat option \<times> fdtab option \<times> pstate) option" where
  "popen = popen_gen 0"

definition popen_copy :: "string \<Rightarrow> pev \<Rightarrow> pstate \<Rightarrow> (nat option \<times> fdtab option \<times> pstate) option" where
  "popen_copy = popen_gen 1"

text \<open>The answers of \<open>waitpid\<close> for one child: an error number or the status. After the last one the child never ends, and the loop does not return: \<open>None\<close>.\<close>

fun wait_loop :: "(int + int) list \<Rightarrow> (int \<times> int option) option" where
  "wait_loop [] = None"
| "wait_loop (Inl e # ws) = (if e \<noteq> 4 then Some (-1, Some e) else wait_loop ws)"
| "wait_loop (Inr stat # ws) = Some (stat, None)"

record wev =
  fclose_ok :: bool
  waits :: "int \<Rightarrow> (int + int) list"

definition pclose_gen :: "nat \<Rightarrow> nat \<Rightarrow> wev \<Rightarrow> pstate \<Rightarrow> (int \<times> pstate) option" where
  "pclose_gen slack fd ev s =
     (case childpid s of
        None \<Rightarrow> Some (-1, s\<lparr>perrno := EINVAL\<rparr>)
      | Some cp \<Rightarrow>
          if maxfd s + slack \<le> fd then Some (-1, s\<lparr>perrno := EINVAL\<rparr>)
          else do {
            pid \<leftarrow> rd cp fd;
            if pid = 0 then Some (-1, s\<lparr>perrno := EINVAL\<rparr>)
            else do {
              cp \<leftarrow> wr cp fd 0;
              let s = s\<lparr>childpid := Some cp, fds := close fd (fds s)\<rparr>;
              if \<not> fclose_ok ev then Some (-1, s)
              else do { (r, e) \<leftarrow> wait_loop (waits ev pid); Some (r, case e of None \<Rightarrow> s | Some e \<Rightarrow> s\<lparr>perrno := e\<rparr>) } } })"

definition pclose :: "nat \<Rightarrow> wev \<Rightarrow> pstate \<Rightarrow> (int \<times> pstate) option" where
  "pclose = pclose_gen 0"

definition pclose_copy :: "nat \<Rightarrow> wev \<Rightarrow> pstate \<Rightarrow> (int \<times> pstate) option" where
  "pclose_copy = pclose_gen 1"

section \<open>Streams and their children\<close>

text \<open>The abstract state: which stream has which child.\<close>

definition streams :: "pstate \<Rightarrow> nat \<Rightarrow> int option" where
  "streams s fd = (case childpid s of None \<Rightarrow> None | Some cp \<Rightarrow> if fd < length cp \<and> cp ! fd \<noteq> 0 then Some (cp ! fd) else None)"

definition pok :: "nat \<Rightarrow> pstate \<Rightarrow> bool" where
  "pok m s \<longleftrightarrow> (\<forall>cp. childpid s = Some cp \<longrightarrow> length cp = m \<and> maxfd s = m \<and> (\<forall>p \<in> set cp. 0 \<le> p)) \<and> (\<forall>fd. streams s fd \<noteq> None \<longrightarrow> fds s fd \<noteq> None)"

text \<open>What waiting for a child gives, read off the answers: the first that is not an interruption, \<open>EINTR\<close>, an error or the status.\<close>

definition wait_answer :: "(int + int) list \<Rightarrow> int option" where
  "wait_answer ws = (case dropWhile (\<lambda>w. w = Inl 4) ws of [] \<Rightarrow> None | Inl e # _ \<Rightarrow> Some (-1) | Inr stat # _ \<Rightarrow> Some stat)"

lemma wait_loop_answer: "map_option fst (wait_loop ws) = wait_answer ws"
  by (induction ws rule: wait_loop.induct) (auto simp: wait_answer_def)

text \<open>What the system calls promise: \<open>calloc\<close> does not fail, there are at most \<open>m\<close> descriptors, \<open>pipe\<close> gives two unused ones, \<open>fork\<close> does not return 0 to the parent; a child whose stream is closed ends.\<close>

definition pev_ok :: "nat \<Rightarrow> pstate \<Rightarrow> pev \<Rightarrow> bool" where
  "pev_ok m s ev \<longleftrightarrow> open_max ev = m \<and> calloc_ok ev \<and> (\<forall>a b. pipe ev = Some (a, b) \<longrightarrow> a \<noteq> b \<and> fds s a = None \<and> fds s b = None) \<and> fork ev \<noteq> 0"

datatype pcall = Popen string pev | Pclose nat wev

fun pcall_ok :: "nat \<Rightarrow> pstate \<Rightarrow> pcall \<Rightarrow> bool" where
  "pcall_ok m s (Popen ty ev) = pev_ok m s ev"
| "pcall_ok m s (Pclose fd ev) = (case streams s fd of None \<Rightarrow> True | Some pid \<Rightarrow> wait_answer (waits ev pid) \<noteq> None)"

fun perform :: "pcall \<Rightarrow> pstate \<Rightarrow> (int \<times> pstate) option" where
  "perform (Popen ty ev) s = map_option (\<lambda>(r, c, s). (case r of None \<Rightarrow> -1 | Some fd \<Rightarrow> int fd, s)) (popen ty ev s)"
| "perform (Pclose fd ev) s = pclose fd ev s"

text \<open>The reference: \<open>popen\<close> adds a stream with its child, unless the type or a system call fails; \<open>pclose\<close> takes a stream away and returns what
  waiting for its child gives.\<close>

definition granted :: "nat \<Rightarrow> string \<Rightarrow> pev \<Rightarrow> bool" where
  "granted m ty ev \<longleftrightarrow> (ty = ''r'' \<or> ty = ''w'') \<and> (\<exists>a b. pipe ev = Some (a, b) \<and> a < m \<and> b < m) \<and> 0 < fork ev \<and> fdopen_ok ev"

fun spec :: "nat \<Rightarrow> pcall \<Rightarrow> (nat \<Rightarrow> int option) \<Rightarrow> int \<times> (nat \<Rightarrow> int option)" where
  "spec m (Popen ty ev) A =
     (if granted m ty ev then let fd = (if ty = ''r'' then fst else snd) (the (pipe ev)) in (int fd, A(fd \<mapsto> fork ev)) else (-1, A))"
| "spec m (Pclose fd ev) A = (case A fd of
      None \<Rightarrow> (-1, A)
    | Some pid \<Rightarrow> (if fclose_ok ev then the (wait_answer (waits ev pid)) else -1, A(fd := None)))"

lemma streams_Some: "childpid s = Some cp \<Longrightarrow> streams s fd = (if fd < length cp \<and> cp ! fd \<noteq> 0 then Some (cp ! fd) else None)"
  by (simp add: streams_def)

lemma streams_upd: "fd < length cp \<Longrightarrow> streams (s\<lparr>childpid := Some (cp[fd := pid])\<rparr>) = (streams (s\<lparr>childpid := Some cp\<rparr>))(fd := (if pid = 0 then None else Some pid))"
  by (auto simp: streams_def fun_eq_iff nth_list_update)

lemma streams_fds: "streams (s\<lparr>fds := t\<rparr>) = streams s" "streams (s\<lparr>perrno := e\<rparr>) = streams s"
  by (simp_all add: streams_def fun_eq_iff)

text \<open>The array at the first call.\<close>

definition started :: "nat \<Rightarrow> pstate \<Rightarrow> pstate" where
  "started m s = (if childpid s = None then s\<lparr>maxfd := m, childpid := Some (replicate m 0)\<rparr> else s)"

lemma started_facts:
  assumes "pok m s"
  shows "\<exists>cp. childpid (started m s) = Some cp \<and> length cp = m \<and> maxfd (started m s) = m \<and> pok m (started m s) \<and> streams (started m s) = streams s \<and> fds (started m s) = fds s"
  using assms by (cases "childpid s") (auto simp: started_def pok_def streams_def fun_eq_iff)

lemma popen_started: "pev_ok m s ev \<Longrightarrow> ty = ''r'' \<or> ty = ''w'' \<Longrightarrow> childpid (started m s) = Some cp \<Longrightarrow> maxfd (started m s) = m \<Longrightarrow>
  popen ty ev s = (case pipe ev of None \<Rightarrow> Some (None, None, started m s)
     | Some pfd \<Rightarrow>
         let t = (fds s)(fst pfd \<mapsto> Pipe_read (pipe_id ev), snd pfd \<mapsto> Pipe_write (pipe_id ev)) in
         if m \<le> fst pfd \<or> m \<le> snd pfd then Some (None, None, (started m s)\<lparr>fds := close (snd pfd) (close (fst pfd) t), perrno := EMFILE\<rparr>)
         else if fork ev < 0 then Some (None, None, (started m s)\<lparr>fds := t\<rparr>)
         else let mine = (if ty = ''r'' then fst pfd else snd pfd); theirs = (if ty = ''r'' then snd pfd else fst pfd);
                s' = (started m s)\<lparr>fds := close theirs t\<rparr> in
           if \<not> fdopen_ok ev then Some (None, Some (child ty pfd cp t), s')
           else do { cp' \<leftarrow> wr cp mine (fork ev); Some (Some mine, Some (child ty pfd cp t), s'\<lparr>childpid := Some cp'\<rparr>) })"
  by (cases "childpid s") (auto simp: popen_def popen_gen_def started_def pev_ok_def Let_def split: option.splits)

lemma pok_fds: "pok m s \<Longrightarrow> (\<And>fd. fds s fd \<noteq> None \<Longrightarrow> t fd \<noteq> None) \<Longrightarrow> pok m (s\<lparr>fds := t\<rparr>)"
  by (auto simp: pok_def streams_fds)

lemma popen_refines_spec:
  assumes p: "pok m s" "pev_ok m s ev"
  shows "\<exists>s'. perform (Popen ty ev) s = Some (fst (spec m (Popen ty ev) (streams s)), s') \<and> pok m s' \<and> streams s' = snd (spec m (Popen ty ev) (streams s))"
proof (cases "ty = ''r'' \<or> ty = ''w''")
  case False
  then show ?thesis using p(1) by (auto simp: popen_def popen_gen_def granted_def pok_def streams_fds)
next
  case ty: True
  obtain cp where st: "childpid (started m s) = Some cp" "length cp = m" "maxfd (started m s) = m" "pok m (started m s)" "streams (started m s) = streams s"
    "fds (started m s) = fds s" using started_facts [OF p(1)] by blast
  note e = popen_started [OF p(2) ty st(1,3)]
  show ?thesis
  proof (cases "pipe ev")
    case None
    then show ?thesis using e st(4,5) by (simp add: granted_def)
  next
    case (Some pfd)
    obtain a b where ab: "pfd = (a, b)" by (cases pfd)
    have new: "a \<noteq> b" "fds s a = None" "fds s b = None" "fork ev \<noteq> 0" using p(2) Some ab by (auto simp: pev_ok_def)
    let ?t = "(fds s)(a \<mapsto> Pipe_read (pipe_id ev), b \<mapsto> Pipe_write (pipe_id ev))"
    have ok: "pok m ((started m s)\<lparr>fds := t\<rparr>)" if "\<And>fd. fd \<noteq> a \<Longrightarrow> fd \<noteq> b \<Longrightarrow> t fd = fds s fd" for t
      using pok_fds [OF st(4), of t] that st(6) new by metis
    consider "m \<le> a \<or> m \<le> b" | "a < m" "b < m" "fork ev < 0 \<or> \<not> fdopen_ok ev" | "a < m" "b < m" "0 < fork ev" "fdopen_ok ev" using new(4) by linarith
    then show ?thesis
    proof cases
      case 1
      then show ?thesis using e Some ab ok [of "close b (close a ?t)"] st(5) by (auto simp: granted_def Let_def streams_fds close_def pok_def)
    next
      case 2
      then show ?thesis using e Some ab ty ok [of ?t] ok [of "close b ?t"] ok [of "close a ?t"] st(5)
        by (auto simp: granted_def Let_def streams_fds close_def)
    next
      case 3
      let ?fd = "if ty = ''r'' then a else b"
      let ?s' = "(started m s)\<lparr>fds := close (if ty = ''r'' then b else a) ?t, childpid := Some (cp[?fd := fork ev])\<rparr>"
      have "perform (Popen ty ev) s = Some (int ?fd, ?s')" using e Some ab 3 st(2) by (auto simp: Let_def)
      moreover have str: "streams ?s' = (streams (started m s))(?fd \<mapsto> fork ev)" using 3 st(1,2) new(4) by (auto simp: streams_def fun_eq_iff nth_list_update)
      moreover have "pok m ?s'"
      proof -
        have keep: "fds s fd \<noteq> None" if "streams (started m s) fd \<noteq> None" for fd using st(4,6) that by (auto simp: pok_def)
        have "fds ?s' fd \<noteq> None" if "streams ?s' fd \<noteq> None" for fd
          using that keep [of fd] new(1-3) unfolding str by (cases "fd = ?fd"; cases "fd = a"; cases "fd = b") (auto simp: close_def split: if_splits)
        moreover have "\<forall>p \<in> set (cp[?fd := fork ev]). 0 \<le> p" using st(1,4) 3 by (auto simp: pok_def dest!: set_update_subset_insert [THEN subsetD])
        ultimately show ?thesis using st(2,3) by (simp add: pok_def)
      qed
      moreover have "granted m ty ev" using 3 ty Some ab by (simp add: granted_def)
      ultimately show ?thesis using Some ab st(5) by (auto simp: Let_def)
    qed
  qed
qed

lemma pclose_refines_spec:
  assumes p: "pok m s" and ends: "pcall_ok m s (Pclose fd ev)"
  shows "\<exists>s'. perform (Pclose fd ev) s = Some (fst (spec m (Pclose fd ev) (streams s)), s') \<and> pok m s' \<and> streams s' = snd (spec m (Pclose fd ev) (streams s))"
proof (cases "streams s fd")
  case None
  then have "perform (Pclose fd ev) s = Some (-1, s\<lparr>perrno := EINVAL\<rparr>)" using p
    by (auto simp: pclose_def pclose_gen_def pok_def streams_def split: option.splits if_splits)
  then show ?thesis using None p by (auto simp: streams_fds pok_def)
next
  case (Some pid)
  then obtain cp where cp: "childpid s = Some cp" "fd < length cp" "cp ! fd = pid" "pid \<noteq> 0" by (auto simp: streams_def split: option.splits if_splits)
  have m: "length cp = m" "maxfd s = m" using p cp(1) by (auto simp: pok_def)
  let ?s = "s\<lparr>childpid := Some (cp[fd := 0]), fds := close fd (fds s)\<rparr>"
  have st: "streams ?s = (streams s)(fd := None)" using cp by (auto simp: streams_def fun_eq_iff nth_list_update)
  have "pok m ?s" using p cp unfolding pok_def by (auto simp: streams_def close_def nth_list_update set_conv_nth split: if_splits)
  then have ok: "pok m (?s\<lparr>perrno := e\<rparr>)" "pok m ?s" for e by (auto simp: pok_def streams_fds)
  obtain r e where w: "wait_loop (waits ev pid) = Some (r, e)" using ends Some wait_loop_answer [of "waits ev pid"] by (cases "wait_loop (waits ev pid)") auto
  then have a: "wait_answer (waits ev pid) = Some r" using wait_loop_answer [of "waits ev pid"] by simp
  have "perform (Pclose fd ev) s = Some (if \<not> fclose_ok ev then (-1, ?s) else (r, case e of None \<Rightarrow> ?s | Some e \<Rightarrow> ?s\<lparr>perrno := e\<rparr>))"
    using cp m w by (auto simp: pclose_def pclose_gen_def Let_def)
  then show ?thesis using Some a st ok by (cases e) (auto simp: streams_fds)
qed

section \<open>Properties\<close>

fun performs :: "pcall list \<Rightarrow> pstate \<Rightarrow> (int list \<times> pstate) option" where
  "performs [] s = Some ([], s)"
| "performs (c # cs) s = do { (r, s) \<leftarrow> perform c s; (rs, s) \<leftarrow> performs cs s; Some (r # rs, s) }"

fun specs :: "nat \<Rightarrow> pcall list \<Rightarrow> (nat \<Rightarrow> int option) \<Rightarrow> int list \<times> (nat \<Rightarrow> int option)" where
  "specs m [] A = ([], A)"
| "specs m (c # cs) A = (let (r, A) = spec m c A; (rs, A) = specs m cs A in (r # rs, A))"

fun admissible :: "nat \<Rightarrow> pcall list \<Rightarrow> pstate \<Rightarrow> bool" where
  "admissible m [] s = True"
| "admissible m (c # cs) s = (pcall_ok m s c \<and> (case perform c s of None \<Rightarrow> True | Some (r, s) \<Rightarrow> admissible m cs s))"

lemma perform_spec:
  "pok m s \<Longrightarrow> pcall_ok m s c \<Longrightarrow> \<exists>s'. perform c s = Some (fst (spec m c (streams s)), s') \<and> pok m s' \<and> streams s' = snd (spec m c (streams s))"
  by (cases c) (use popen_refines_spec pclose_refines_spec in auto)

lemma performs_spec:
  "pok m s \<Longrightarrow> admissible m cs s \<Longrightarrow> \<exists>s'. performs cs s = Some (fst (specs m cs (streams s)), s') \<and> pok m s' \<and> streams s' = snd (specs m cs (streams s))"
proof (induction cs arbitrary: s)
  case (Cons c cs)
  obtain s1 where s1: "perform c s = Some (fst (spec m c (streams s)), s1)" "pok m s1" "streams s1 = snd (spec m c (streams s))"
    using perform_spec [OF Cons.prems(1)] Cons.prems(2) by auto
  then obtain s2 where "performs cs s1 = Some (fst (specs m cs (streams s1)), s2)" "pok m s2" "streams s2 = snd (specs m cs (streams s1))"
    using Cons.IH [OF s1(2)] Cons.prems(2) by auto
  then show ?case using s1 by (auto simp: Let_def split: prod.splits)
qed simp

text \<open>Before the first call.\<close>

definition pstate0 :: "fdtab \<Rightarrow> pstate" where
  "pstate0 t = \<lparr>childpid = None, maxfd = 0, fds = t, perrno = 0\<rparr>"

text \<open>C18: \<open>popen\<close> and \<open>pclose\<close> keep a map from streams to children: for every sequence of calls and every behaviour of the
  system calls within their rules, no call faults, each answers as the map does (a stream is added with the child made for it, closed
  streams give the status of just that child, interrupted waits are repeated, unknown streams are refused), and the array stands for the map.\<close>

theorem popen_refines_map:
  assumes "admissible m cs (pstate0 t)"
  shows "\<exists>s. performs cs (pstate0 t) = Some (fst (specs m cs Map.empty), s) \<and> streams s = snd (specs m cs Map.empty)"
proof -
  have "pok m (pstate0 t)" "streams (pstate0 t) = Map.empty" by (simp_all add: pok_def pstate0_def streams_def fun_eq_iff)
  then show ?thesis using performs_spec [of m "pstate0 t" cs] assms by auto
qed

definition pev0 :: pev where
  "pev0 = \<lparr>calloc_ok = True, open_max = 8, pipe = Some (3, 4), pipe_id = 0, fork = 77, fdopen_ok = True\<rparr>"

theorem popen_refines_map_witness:
  "\<exists>s. performs [Popen ''r'' pev0, Pclose 3 \<lparr>fclose_ok = True, waits = (\<lambda>p. [Inl 4, Inr 256])\<rparr>] (pstate0 Map.empty) = Some ([3, 256], s) \<and> streams s = Map.empty"
proof -
  have g: "granted 8 ''r'' pev0" by (simp add: granted_def pev0_def)
  have "admissible 8 [Popen ''r'' pev0, Pclose 3 \<lparr>fclose_ok = True, waits = (\<lambda>p. [Inl 4, Inr 256])\<rparr>] (pstate0 Map.empty)"
    by (simp add: pev_ok_def pev0_def pstate0_def wait_answer_def split: option.splits)
  from popen_refines_map [OF this] show ?thesis using g by (simp add: pev0_def Let_def wait_answer_def)
qed

lemma close_streams_eq: "close_streams cp t = (\<lambda>f. if f < length cp \<and> 0 < cp ! f then None else t f)"
proof -
  have "fold (\<lambda>i t. if cp ! i > 0 then close i t else t) [0..<n] t = (\<lambda>f. if f < n \<and> 0 < cp ! f then None else t f)" for n
  proof (induction n)
    case (Suc n)
    then show ?case by (auto simp: close_def fun_eq_iff less_Suc_eq)
  qed simp
  then show ?thesis by (simp add: close_streams_def)
qed

text \<open>C21: What the child gets: if the descriptors 0 and 1 are open and not streams, the program that \<open>popen\<close> runs has the
  pipe as its standard output (or input), neither of the descriptors of the pipe, none of the streams opened before, and every other descriptor of the parent.\<close>

theorem popen_child_descriptors:
  assumes "pok m s" "pev_ok m s ev" "popen ty ev s = Some (r, Some t, s')" "pipe ev = Some (a, b)"
    and "fds s 0 \<noteq> None" "fds s 1 \<noteq> None" "streams s 0 = None" "streams s 1 = None"
  shows "t f = (if f = (if ty = ''r'' then 1 else 0) then Some (if ty = ''r'' then Pipe_write (pipe_id ev) else Pipe_read (pipe_id ev))
    else if f = a \<or> f = b \<or> streams s f \<noteq> None then None else fds s f)"
proof -
  have ty: "ty = ''r'' \<or> ty = ''w''" using assms(3) by (auto simp: popen_def popen_gen_def split: if_splits)
  obtain cp where st: "childpid (started m s) = Some cp" "maxfd (started m s) = m" "length cp = m" "streams (started m s) = streams s" "pok m (started m s)"
    using started_facts [OF assms(1)] by blast
  let ?t = "(fds s)(a \<mapsto> Pipe_read (pipe_id ev), b \<mapsto> Pipe_write (pipe_id ev))"
  have t: "t = child ty (a, b) cp ?t" using assms(3,4) popen_started [OF assms(2) ty st(1,2)]
    by (auto simp: Let_def bind_eq_Some_conv split: if_splits)
  have ab: "a \<noteq> b" "a \<noteq> 0" "a \<noteq> 1" "b \<noteq> 0" "b \<noteq> 1" 
  proof -
    have "a \<noteq> b" "fds s a = None" "fds s b = None" using assms(2,4) by (auto simp: pev_ok_def)
    then show "a \<noteq> b" "a \<noteq> 0" "a \<noteq> 1" "b \<noteq> 0" "b \<noteq> 1" using assms(5,6) by metis+
  qed
  have cp: "(f < length cp \<and> 0 < cp ! f) \<longleftrightarrow> streams s f \<noteq> None" for f
  proof -
    have "f < length cp \<Longrightarrow> 0 \<le> cp ! f" using st(1,5) by (auto simp: pok_def)
    then show ?thesis unfolding st(4) [symmetric] streams_Some [OF st(1)] by auto
  qed
  show ?thesis using ty ab assms(7,8) unfolding t child_def close_streams_eq cp by (auto simp: Let_def close_def dup2_def)
qed

theorem popen_child_descriptors_witness:
  "\<exists>t s'. popen ''r'' pev0 (pstate0 [0 \<mapsto> Other 1, 1 \<mapsto> Other 1]) = Some (Some 3, Some t, s') \<and> t 1 = Some (Pipe_write 0)"
proof -
  let ?s = "pstate0 [0 \<mapsto> Other 1, 1 \<mapsto> Other 1]"
  have ok: "pok 8 ?s" "pev_ok 8 ?s pev0" by (simp_all add: pok_def pev_ok_def pstate0_def pev0_def streams_def)
  obtain t s' where r: "popen ''r'' pev0 ?s = Some (Some 3, Some t, s')" by (auto simp: popen_def popen_gen_def pstate0_def pev0_def Let_def)
  have "t 1 = Some (Pipe_write 0)"
    using popen_child_descriptors [OF ok r, of 3 4 1] by (simp add: pev0_def pstate0_def streams_def)
  then show ?thesis using r by blast
qed

text \<open>The copy accepts one descriptor too many: it writes or reads the array one cell behind its end.\<close>

theorem popen_copy_overrun:
  assumes "childpid s = Some cp" "length cp = maxfd s"
  shows "pclose_copy (maxfd s) wv s = None \<and>
    (pipe ev = Some (a, maxfd s) \<and> a < maxfd s \<and> 0 < fork ev \<and> fdopen_ok ev \<longrightarrow> popen_copy ''w'' ev s = None)"
  using assms by (auto simp: pclose_copy_def pclose_gen_def popen_copy_def popen_gen_def Let_def)

theorem popen_copy_overrun_witness:
  "pclose_copy 2 \<lparr>fclose_ok = True, waits = (\<lambda>p. [])\<rparr> \<lparr>childpid = Some [0, 0], maxfd = 2, fds = Map.empty, perrno = 0\<rparr> = None"
  using popen_copy_overrun [of "\<lparr>childpid = Some [0, 0], maxfd = 2, fds = Map.empty, perrno = 0\<rparr>" "[0, 0]" "\<lparr>fclose_ok = True, waits = (\<lambda>p. [])\<rparr>"]
  by simp

end
