(* ===== verification/Apue_Lib.thy ===== *)
theory Apue_Lib
  imports C_Library
begin

text \<open>
  Smaller library functions of \<open>apue.3e\<close>: the error messages of \<open>lib/error.c\<close> and \<open>lib/errorlog.c\<close> (and \<open>apue/errorlog.c\<close>, the same), and the timeouts of \<open>threadctl/timeout.c\<close>
  with \<open>makethread\<close> of \<open>threadctl/detach.c\<close>.
\<close>

section \<open>Error messages\<close>

text \<open>The text that the format and its arguments give is an argument, and so is \<open>strerror\<close>. A buffer of \<open>MAXLINE\<close> bytes holds a string of fewer bytes; a longer one is a fault.
  \<open>snprintf\<close> into \<open>n\<close> bytes keeps the first \<open>n - 1\<close> bytes of its text.\<close>

definition MAXLINE :: nat where "MAXLINE = 4096"

definition snprintf :: "nat \<Rightarrow> string \<Rightarrow> string" where
  "snprintf n s = take (n - 1) s"

definition strcat :: "string \<Rightarrow> string \<Rightarrow> string option" where
  "strcat buf s = (if length buf + length s < MAXLINE then Some (buf @ s) else None)"

definition message :: "(int \<Rightarrow> string) \<Rightarrow> bool \<Rightarrow> int \<Rightarrow> string \<Rightarrow> string option" where
  "message strerror errnoflag error txt =
     (let buf = snprintf (MAXLINE - 1) txt;
          buf = (if errnoflag then buf @ snprintf (MAXLINE - length buf - 1) ('': '' @ strerror error) else buf)
      in strcat buf ''\<newline>'')"

datatype ending = Returns | Exits int | Aborts

datatype target = Stderr | Syslog

type_synonym reported = "(target \<times> string) option \<times> ending"

definition err_doit :: "(int \<Rightarrow> string) \<Rightarrow> bool \<Rightarrow> int \<Rightarrow> string \<Rightarrow> (target \<times> string) option" where
  "err_doit strerror errnoflag error txt = do { b \<leftarrow> message strerror errnoflag error txt; Some (Stderr, b) }"

definition err_ret :: "(int \<Rightarrow> string) \<Rightarrow> int \<Rightarrow> string \<Rightarrow> reported" where
  "err_ret strerror errno txt = (err_doit strerror True errno txt, Returns)"

definition err_sys :: "(int \<Rightarrow> string) \<Rightarrow> int \<Rightarrow> string \<Rightarrow> reported" where
  "err_sys strerror errno txt = (err_doit strerror True errno txt, Exits 1)"

definition err_cont :: "(int \<Rightarrow> string) \<Rightarrow> int \<Rightarrow> string \<Rightarrow> reported" where
  "err_cont strerror error txt = (err_doit strerror True error txt, Returns)"

definition err_exit :: "(int \<Rightarrow> string) \<Rightarrow> int \<Rightarrow> string \<Rightarrow> reported" where
  "err_exit strerror error txt = (err_doit strerror True error txt, Exits 1)"

definition err_dump :: "(int \<Rightarrow> string) \<Rightarrow> int \<Rightarrow> string \<Rightarrow> reported" where
  "err_dump strerror errno txt = (err_doit strerror True errno txt, Aborts)"

definition err_msg :: "(int \<Rightarrow> string) \<Rightarrow> string \<Rightarrow> reported" where
  "err_msg strerror txt = (err_doit strerror False 0 txt, Returns)"

definition err_quit :: "(int \<Rightarrow> string) \<Rightarrow> string \<Rightarrow> reported" where
  "err_quit strerror txt = (err_doit strerror False 0 txt, Exits 1)"

definition log_doit :: "bool \<Rightarrow> (int \<Rightarrow> string) \<Rightarrow> bool \<Rightarrow> int \<Rightarrow> string \<Rightarrow> (target \<times> string) option" where
  "log_doit log_to_stderr strerror errnoflag error txt = do { b \<leftarrow> message strerror errnoflag error txt; Some (if log_to_stderr then Stderr else Syslog, b) }"

definition log_ret :: "bool \<Rightarrow> (int \<Rightarrow> string) \<Rightarrow> int \<Rightarrow> string \<Rightarrow> reported" where
  "log_ret l strerror errno txt = (log_doit l strerror True errno txt, Returns)"

definition log_sys :: "bool \<Rightarrow> (int \<Rightarrow> string) \<Rightarrow> int \<Rightarrow> string \<Rightarrow> reported" where
  "log_sys l strerror errno txt = (log_doit l strerror True errno txt, Exits 2)"

definition log_msg :: "bool \<Rightarrow> (int \<Rightarrow> string) \<Rightarrow> string \<Rightarrow> reported" where
  "log_msg l strerror txt = (log_doit l strerror False 0 txt, Returns)"

definition log_quit :: "bool \<Rightarrow> (int \<Rightarrow> string) \<Rightarrow> string \<Rightarrow> reported" where
  "log_quit l strerror txt = (log_doit l strerror False 0 txt, Exits 2)"

definition log_exit :: "bool \<Rightarrow> (int \<Rightarrow> string) \<Rightarrow> int \<Rightarrow> string \<Rightarrow> reported" where
  "log_exit l strerror error txt = (log_doit l strerror True error txt, Exits 2)"

section \<open>Timeouts\<close>

record timespec =
  tv_sec :: int
  tv_nsec :: int

abbreviation "SECTONSEC \<equiv> 1000000000 :: int"

text \<open>\<open>makethread\<close>: the results of the three calls that may fail.\<close>

definition makethread :: "int \<Rightarrow> int \<Rightarrow> int \<Rightarrow> int \<times> bool" where
  "makethread attr_init setdetachstate create =
     (if attr_init \<noteq> 0 then (attr_init, False)
      else let err = setdetachstate in let err = (if err = 0 then create else err) in (err, err = 0))"

text \<open>What \<open>timeout\<close> does with the function: it is called at once, or by a new thread after a time.\<close>

datatype called = Now | After timespec

definition timeout :: "timespec \<Rightarrow> timespec \<Rightarrow> bool \<Rightarrow> int \<Rightarrow> called" where
  "timeout when now malloc_ok thread_err =
     (if tv_sec now < tv_sec when \<or> tv_sec when = tv_sec now \<and> tv_nsec now < tv_nsec when then
        if malloc_ok then
          let w = \<lparr>tv_sec = tv_sec when - tv_sec now, tv_nsec = 0\<rparr>;
              w = (if tv_nsec now \<le> tv_nsec when then w\<lparr>tv_nsec := tv_nsec when - tv_nsec now\<rparr>
                   else w\<lparr>tv_sec := tv_sec w - 1, tv_nsec := SECTONSEC - tv_nsec now + tv_nsec when\<rparr>)
          in if thread_err = 0 then After w else Now
        else Now
      else Now)"

section \<open>Properties\<close>

definition reports_in :: "reported \<Rightarrow> target \<Rightarrow> string \<Rightarrow> ending \<Rightarrow> bool" where
  "reports_in x t s e \<longleftrightarrow> x = (Some (t, s), e)"

lemma message_eq:
  "message strerror flag error txt = Some (take (MAXLINE - 2) (txt @ (if flag then '': '' @ strerror error else [])) @ ''\<newline>'')"
proof -
  have "take 4094 txt @ take (4094 - min (length txt) 4094) r = take 4094 (txt @ r)" for r :: string
    by (cases "length txt \<le> 4094") (simp_all add: min_def)
  moreover have "min x 4094 < (4095 :: nat)" "min x 4092 < (4093 :: nat)" for x by simp_all
  ultimately show ?thesis by (simp add: message_def snprintf_def strcat_def MAXLINE_def Let_def del: take_append)
qed

text \<open>No message is too long for its buffer: whatever the text and the error, the seven \<open>err_\<close> and the five \<open>log_\<close> functions
  write the first 4094 bytes of the text (with the error, where there is one) and a newline to the right place, and end as documented.\<close>

theorem error_messages_fit:
  "\<forall>txt e. let full = take 4094 (txt @ '': '' @ strerror e) @ ''\<newline>''; short = take 4094 txt @ ''\<newline>''; t = (if l then Stderr else Syslog) in
    reports_in (err_ret strerror e txt) Stderr full Returns \<and> reports_in (err_sys strerror e txt) Stderr full (Exits 1) \<and>
    reports_in (err_cont strerror e txt) Stderr full Returns \<and> reports_in (err_exit strerror e txt) Stderr full (Exits 1) \<and>
    reports_in (err_dump strerror e txt) Stderr full Aborts \<and>
    reports_in (err_msg strerror txt) Stderr short Returns \<and> reports_in (err_quit strerror txt) Stderr short (Exits 1) \<and>
    reports_in (log_ret l strerror e txt) t full Returns \<and> reports_in (log_sys l strerror e txt) t full (Exits 2) \<and>
    reports_in (log_msg l strerror txt) t short Returns \<and> reports_in (log_quit l strerror txt) t short (Exits 2) \<and>
    reports_in (log_exit l strerror e txt) t full (Exits 2)"
  by (simp add: reports_in_def message_eq err_ret_def err_sys_def err_cont_def err_exit_def err_dump_def err_msg_def err_quit_def
      log_ret_def log_sys_def log_msg_def log_quit_def log_exit_def err_doit_def log_doit_def MAXLINE_def Let_def)

definition nsecs :: "timespec \<Rightarrow> int" where
  "nsecs t = tv_sec t * SECTONSEC + tv_nsec t"

definition normal :: "timespec \<Rightarrow> bool" where
  "normal t \<longleftrightarrow> 0 \<le> tv_nsec t \<and> tv_nsec t < SECTONSEC"

text \<open>A timeout is exact and never lost: a time in the future is waited for by a new thread for exactly the difference, in
  normal form and positive; if the time has come, or memory or the thread cannot be had, the function is called at once.\<close>

theorem timeout_exact:
  assumes "normal when" "normal now"
  shows "timeout when now ok err = (if nsecs now < nsecs when \<and> ok \<and> err = 0 then After \<lparr>tv_sec = (nsecs when - nsecs now) div SECTONSEC, tv_nsec = (nsecs when - nsecs now) mod SECTONSEC\<rparr> else Now)"
proof -
  have lt: "tv_sec now < tv_sec when \<or> tv_sec when = tv_sec now \<and> tv_nsec now < tv_nsec when \<longleftrightarrow> nsecs now < nsecs when"
    using assms by (auto simp: nsecs_def normal_def)
  have d: "(nsecs when - nsecs now) div SECTONSEC = (if tv_nsec now \<le> tv_nsec when then tv_sec when - tv_sec now else tv_sec when - tv_sec now - 1) \<and>
    (nsecs when - nsecs now) mod SECTONSEC = (if tv_nsec now \<le> tv_nsec when then tv_nsec when - tv_nsec now else SECTONSEC - tv_nsec now + tv_nsec when)"
    (is "?D div _ = ?q \<and> _ = ?r")
  proof -
    have "?D = SECTONSEC * ?q + ?r" "0 \<le> ?r" "?r < SECTONSEC" using assms by (auto simp: nsecs_def normal_def algebra_simps)
    then show ?thesis using int_div_pos_eq [of ?D SECTONSEC ?q ?r] int_mod_pos_eq [of ?D SECTONSEC ?q ?r] by blast
  qed
  then show ?thesis unfolding timeout_def lt by (auto simp: Let_def)
qed

theorem timeout_exact_witness:
  "timeout \<lparr>tv_sec = 5, tv_nsec = 100\<rparr> \<lparr>tv_sec = 3, tv_nsec = 999999999\<rparr> True 0 = After \<lparr>tv_sec = 1, tv_nsec = 101\<rparr>"
  using timeout_exact [of "\<lparr>tv_sec = 5, tv_nsec = 100\<rparr>" "\<lparr>tv_sec = 3, tv_nsec = 999999999\<rparr>" True 0] by (simp add: normal_def nsecs_def)

end
