(* ===== verification/Textbook_Lists.thy ===== *)
theory Textbook_Lists
  imports Prelude
begin

text \<open>
  The linked list of \<open>data_structure_and_algorithm/list/list.c\<close> and the hash table with separate chaining of \<open>hashtable/hashsep/hashsep.c\<close>, whose
  buckets are such lists. Nodes live in a store, a partial map from addresses; address 0 is the null pointer, and a list is given by its header node.
  Where the sources misspell a name (\<open>L->next\<close>, \<open>h-thelists\<close>) the intended name is modelled. The array of lists that \<open>hashsep.c\<close> forgets to allocate is a parameter.
\<close>

section \<open>The list\<close>

record node =
  Element :: int
  Next :: nat

type_synonym heap = "nat \<Rightarrow> node option"

definition IsEmpty :: "heap \<Rightarrow> nat \<Rightarrow> bool option" where
  "IsEmpty h L = do { n \<leftarrow> h L; Some (Next n = 0) }"

definition IsLast :: "heap \<Rightarrow> nat \<Rightarrow> bool option" where
  "IsLast h P = do { n \<leftarrow> h P; Some (Next n = 0) }"

partial_function (option) find_loop :: "heap \<Rightarrow> int \<Rightarrow> nat \<Rightarrow> nat option" where
  "find_loop h X P = (if P = 0 then Some P else do { n \<leftarrow> h P; if Element n \<noteq> X then find_loop h X (Next n) else Some P })"

definition Find :: "heap \<Rightarrow> int \<Rightarrow> nat \<Rightarrow> nat option" where
  "Find h X L = do { n \<leftarrow> h L; find_loop h X (Next n) }"

partial_function (option) FindPrevious :: "heap \<Rightarrow> int \<Rightarrow> nat \<Rightarrow> nat option" where
  "FindPrevious h X P = do {
     n \<leftarrow> h P;
     if Next n = 0 then Some P
     else do { m \<leftarrow> h (Next n); if Element m \<noteq> X then FindPrevious h X (Next n) else Some P } }"

definition Delete :: "heap \<Rightarrow> int \<Rightarrow> nat \<Rightarrow> heap option" where
  "Delete h X L = do {
     P \<leftarrow> FindPrevious h X L;
     last \<leftarrow> IsLast h P;
     if \<not> last then do {
       n \<leftarrow> h P;
       let Tmp = Next n;
       t \<leftarrow> h Tmp;
       let h = h(P \<mapsto> n\<lparr>Next := Next t\<rparr>);
       Some (h(Tmp := None)) }
     else Some h }"

text \<open>\<open>Tmp\<close>: what \<open>malloc\<close> returns. The code goes on after a failure and follows the null pointer.\<close>

definition Insert :: "heap \<Rightarrow> nat \<Rightarrow> int \<Rightarrow> nat \<Rightarrow> heap option" where
  "Insert h Tmp X P =
     (if Tmp = 0 then None
      else do { n \<leftarrow> h P; Some (h(Tmp \<mapsto> \<lparr>Element = X, Next = Next n\<rparr>, P \<mapsto> n\<lparr>Next := Tmp\<rparr>)) })"

partial_function (option) free_loop :: "heap \<Rightarrow> nat \<Rightarrow> heap option" where
  "free_loop h P = (if P = 0 then Some h else do { n \<leftarrow> h P; free_loop (h(P := None)) (Next n) })"

definition DeleteList :: "heap \<Rightarrow> nat \<Rightarrow> heap option" where
  "DeleteList h L = do { n \<leftarrow> h L; free_loop (h(L \<mapsto> n\<lparr>Next := 0\<rparr>)) (Next n) }"

section \<open>Hash table with separate chaining\<close>

text \<open>\<open>hash\<close>, \<open>nextprime\<close> and \<open>mintablesize\<close> are not in this program. Whether there is a handle and whether \<open>thelists\<close> points to an array are arguments, and so is what
  \<open>malloc\<close> returns for the header of the list \<open>i\<close>, \<open>cell i\<close>; the element of a header stays what it was, \<open>garbage\<close>. \<open>None\<close> is a fault, the pointer inside it the table:
  a failed allocation of the handle or of the array only prints a message, and the pointer is followed all the same.\<close>

definition initialize_table_with :: "bool \<Rightarrow> bool \<Rightarrow> (nat \<Rightarrow> nat) \<Rightarrow> nat \<Rightarrow> nat \<Rightarrow> (nat \<Rightarrow> nat) \<Rightarrow> int \<Rightarrow> heap \<Rightarrow> (nat list option \<times> heap) option" where
  "initialize_table_with array handle nextprime mintablesize tablesize cell garbage h =
     (if tablesize < mintablesize then Some (None, h)
      else if \<not> handle then None
      else let n = nextprime tablesize in
        if 0 < n \<and> \<not> array then None
        else Some (Some (map cell [0..<n]), fold (\<lambda>i h. if cell i = 0 then h else h(cell i \<mapsto> \<lparr>Element = garbage, Next = 0\<rparr>)) [0..<n] h))"

text \<open>In line 32 the call of \<open>malloc\<close> is missing: \<open>thelists\<close> is the number \<open>sizeof(list) * tablesize\<close> as an address, where there is no array. The repaired function
  allocates it.\<close>

definition initializee_table :: "bool \<Rightarrow> (nat \<Rightarrow> nat) \<Rightarrow> nat \<Rightarrow> nat \<Rightarrow> (nat \<Rightarrow> nat) \<Rightarrow> int \<Rightarrow> heap \<Rightarrow> (nat list option \<times> heap) option" where
  "initializee_table = initialize_table_with False"

definition initialize_repaired :: "bool \<Rightarrow> (nat \<Rightarrow> nat) \<Rightarrow> nat \<Rightarrow> nat \<Rightarrow> (nat \<Rightarrow> nat) \<Rightarrow> int \<Rightarrow> heap \<Rightarrow> (nat list option \<times> heap) option" where
  "initialize_repaired = initialize_table_with True"

definition table_find :: "(int \<Rightarrow> nat \<Rightarrow> nat) \<Rightarrow> nat list \<Rightarrow> heap \<Rightarrow> int \<Rightarrow> nat option" where
  "table_find hash thelists h key = do {
     l \<leftarrow> rd thelists (hash key (length thelists));
     n \<leftarrow> h l;
     find_loop h key (Next n) }"

definition table_insert :: "(int \<Rightarrow> nat \<Rightarrow> nat) \<Rightarrow> nat list \<Rightarrow> heap \<Rightarrow> nat \<Rightarrow> int \<Rightarrow> heap option" where
  "table_insert hash thelists h newcell key = do {
     pos \<leftarrow> table_find hash thelists h key;
     if pos = 0 then
       if newcell = 0 then Some h
       else do {
         l \<leftarrow> rd thelists (hash key (length thelists));
         n \<leftarrow> h l;
         Some (h(newcell \<mapsto> \<lparr>Element = key, Next = Next n\<rparr>, l \<mapsto> n\<lparr>Next := newcell\<rparr>)) }
     else Some h }"

section \<open>Lists in the store\<close>

text \<open>\<open>chain h p as xs q\<close>: from \<open>p\<close> to \<open>q\<close> there are the nodes \<open>as\<close> with the elements \<open>xs\<close>.\<close>

fun chain :: "heap \<Rightarrow> nat \<Rightarrow> nat list \<Rightarrow> int list \<Rightarrow> nat \<Rightarrow> bool" where
  "chain h p [] [] q = (p = q)"
| "chain h p (a # as) (x # xs) q = (p = a \<and> a \<noteq> 0 \<and> (\<exists>n. h a = Some n \<and> Element n = x \<and> chain h (Next n) as xs q))"
| "chain h p _ _ q = False"

text \<open>A list with its header node.\<close>

definition is_list :: "heap \<Rightarrow> nat \<Rightarrow> nat list \<Rightarrow> int list \<Rightarrow> bool" where
  "is_list h L as xs \<longleftrightarrow> L \<noteq> 0 \<and> distinct (L # as) \<and> (\<exists>n. h L = Some n \<and> chain h (Next n) as xs 0)"

lemma chain_len: "chain h p as xs q \<Longrightarrow> length as = length xs"
  by (induction h p as xs q rule: chain.induct) auto

lemma chain_cong: "chain h p as xs q \<Longrightarrow> (\<And>a. a \<in> set as \<Longrightarrow> h' a = h a) \<Longrightarrow> chain h' p as xs q"
  by (induction h p as xs q rule: chain.induct) auto

lemma chain_nonnull: "chain h p as xs q \<Longrightarrow> 0 \<notin> set as"
  by (induction h p as xs q rule: chain.induct) auto

lemma chain_alloc: "chain h p as xs q \<Longrightarrow> a \<in> set as \<Longrightarrow> h a \<noteq> None"
  by (induction h p as xs q rule: chain.induct) auto

lemma list_chain_append:
  "length us = length ys \<Longrightarrow> chain h p (us @ bs) (ys @ zs) q \<longleftrightarrow> (\<exists>r. chain h p us ys r \<and> chain h r bs zs q)"
  by (induction us ys arbitrary: p rule: list_induct2) auto

lemma is_list_cong: "is_list h L as xs \<Longrightarrow> (\<And>a. a \<in> set (L # as) \<Longrightarrow> h' a = h a) \<Longrightarrow> is_list h' L as xs"
  using chain_cong [of h _ as xs 0 h'] by (fastforce simp: is_list_def)

lemma is_list_alloc: "is_list h L as xs \<Longrightarrow> a \<in> set (L # as) \<Longrightarrow> h a \<noteq> None \<and> a \<noteq> 0"
  using chain_alloc [of h _ as xs 0 a] chain_nonnull [of h _ as xs 0] unfolding is_list_def by (cases "a = L"; cases "a = 0") auto

text \<open>The position of the first occurrence, 0 if there is none.\<close>

fun first :: "int \<Rightarrow> nat list \<Rightarrow> int list \<Rightarrow> nat" where
  "first X (a # as) (x # xs) = (if x = X then a else first X as xs)"
| "first X _ _ = 0"

lemma first_0: "length as = length xs \<Longrightarrow> 0 \<notin> set as \<Longrightarrow> first X as xs = 0 \<longleftrightarrow> X \<notin> set xs"
  by (induction X as xs rule: first.induct) auto

lemma find_loop_chain: "chain h p as xs 0 \<Longrightarrow> find_loop h X p = Some (first X as xs)"
proof (induction h p as xs "0 :: nat" rule: chain.induct)
  case (2 h p a as x xs)
  then show ?case by (subst find_loop.simps) auto
qed (auto simp: find_loop.simps)

lemma Find_list: "is_list h L as xs \<Longrightarrow> Find h X L = Some (first X as xs)"
  by (auto simp: is_list_def Find_def find_loop_chain)

text \<open>Pointing the last node of a chain somewhere else.\<close>

lemma chain_relink:
  assumes "h P = Some n" "chain h (Next n) us ys q" "distinct (P # us)" "h (last (P # us)) = Some l" "h' = h(last (P # us) \<mapsto> l\<lparr>Next := r\<rparr>)"
  shows "\<exists>n'. h' P = Some n' \<and> chain h' (Next n') us ys r"
  using assms
proof (induction us arbitrary: P n ys)
  case Nil
  then show ?case by (cases ys) auto
next
  case (Cons a us)
  then obtain y zs where ys: "ys = y # zs" by (cases ys) auto
  then obtain m where m: "Next n = a" "a \<noteq> 0" "h a = Some m" "Element m = y" "chain h (Next m) us zs q" using Cons.prems(2) by auto
  obtain m' where m': "h' a = Some m'" "chain h' (Next m') us zs r" using Cons.IH [OF m(3,5)] Cons.prems by auto
  have "last (a # us) \<noteq> P" using Cons.prems(3) by (metis last_in_set list.distinct(1) distinct.simps(2))
  moreover have "Element m' = y" using m m'(1) Cons.prems(4,5) by (auto split: if_splits)
  ultimately show ?case using m m' Cons.prems(1,5) ys by auto
qed

lemma FindPrevious_chain:
  assumes "h P = Some n" "chain h (Next n) us ys q" "X \<notin> set ys" "q = 0 \<or> (\<exists>m. h q = Some m \<and> Element m = X)"
  shows "FindPrevious h X P = Some (last (P # us))"
  using assms
proof (induction us arbitrary: P n ys)
  case Nil
  then show ?case by (cases ys; subst FindPrevious.simps) auto
next
  case (Cons a us)
  then show ?case by (cases ys; subst FindPrevious.simps) auto
qed

lemma chain_last: "h P = Some n \<Longrightarrow> chain h (Next n) us ys q \<Longrightarrow> \<exists>l. h (last (P # us)) = Some l \<and> Next l = q"
proof (induction us arbitrary: P n ys)
  case Nil
  then show ?case by (cases ys) auto
next
  case (Cons a us)
  then show ?case by (cases ys) auto
qed

lemma Insert_list:
  assumes "is_list h L (us @ bs) (ys @ zs)" "length us = length ys" "h Tmp = None" "Tmp \<noteq> 0"
  shows "\<exists>h'. Insert h Tmp X (last (L # us)) = Some h' \<and> is_list h' L (us @ Tmp # bs) (ys @ X # zs) \<and> (\<forall>a. a \<notin> set (Tmp # L # us) \<longrightarrow> h' a = h a)"
proof -
  obtain n r where n: "h L = Some n" "chain h (Next n) us ys r" "chain h r bs zs 0" using assms(1,2) by (auto simp: is_list_def list_chain_append)
  have d: "L \<noteq> 0" "distinct (L # us @ bs)" using assms(1) by (auto simp: is_list_def)
  have new: "Tmp \<notin> set (L # us @ bs)" using is_list_alloc [OF assms(1)] assms(3) by blast
  let ?P = "last (L # us)"
  obtain l where l: "h ?P = Some l" "Next l = r" using chain_last [OF n(1,2)] by blast
  have P: "?P \<in> set (L # us)" by (metis last_in_set list.distinct(1))
  let ?h = "h(Tmp \<mapsto> \<lparr>Element = X, Next = r\<rparr>)"
  let ?h' = "?h(?P \<mapsto> l\<lparr>Next := Tmp\<rparr>)"
  have t: "?P \<noteq> Tmp" "L \<noteq> Tmp" using P new by auto
  have c: "chain ?h (Next n) us ys r" using n(2) by (rule chain_cong) (use new in auto)
  have "distinct (L # us)" using d by auto
  then obtain n' where n': "?h' L = Some n'" "chain ?h' (Next n') us ys Tmp"
    using chain_relink [of ?h L n us ys r l ?h' Tmp] n(1) c l t by (auto simp del: last.simps)
  have "\<forall>a \<in> set bs. ?h' a = h a" using d P new by (auto simp del: last.simps)
  then have "chain ?h' r bs zs 0" using chain_cong [OF n(3)] by blast
  then have "chain ?h' (Next n') (us @ Tmp # bs) (ys @ X # zs) 0" using n' assms(2,4) t by (auto simp: list_chain_append simp del: last.simps)
  then have "is_list ?h' L (us @ Tmp # bs) (ys @ X # zs)" using n'(1) d new by (auto simp: is_list_def simp del: last.simps)
  moreover have "Insert h Tmp X ?P = Some ?h'" using l assms(4) by (simp add: Insert_def del: last.simps)
  ultimately show ?thesis using P by (auto simp del: last.simps)
qed

lemma Insert_nth:
  assumes l: "is_list h L as xs" and a: "i \<le> length xs \<and> h Tmp = None \<and> Tmp \<noteq> 0"
  shows "\<exists>h'. Insert h Tmp X ((L # as) ! i) = Some h' \<and> is_list h' L (take i as @ Tmp # drop i as) (take i xs @ X # drop i xs) \<and>
        (\<forall>a. a \<notin> set (Tmp # L # as) \<longrightarrow> h' a = h a)"
proof -
  have len: "length as = length xs" using l chain_len by (auto simp: is_list_def)
  then have "last (L # take i as) = (L # as) ! i" using a by (cases i) (auto simp: last_conv_nth take_Suc_conv_app_nth)
  moreover obtain h' where "Insert h Tmp X (last (L # take i as)) = Some h'" "is_list h' L (take i as @ Tmp # drop i as) (take i xs @ X # drop i xs)"
    "\<forall>a. a \<notin> set (Tmp # L # take i as) \<longrightarrow> h' a = h a"
    using Insert_list [of h L "take i as" "drop i as" "take i xs" "drop i xs" Tmp X] l a len by auto
  moreover have "set (take i as) \<subseteq> set as" by (rule set_take_subset)
  ultimately show ?thesis by (metis (no_types, lifting) list.set_intros subsetD set_ConsD)
qed

lemma Delete_list:
  assumes "is_list h L as xs"
  shows "\<exists>h' as'. Delete h X L = Some h' \<and> is_list h' L as' (remove1 X xs) \<and> set as' = set as - {first X as xs} \<and> (\<forall>a. a \<notin> set (L # as) \<longrightarrow> h' a = h a)
    \<and> (X \<in> set xs \<longrightarrow> h' (first X as xs) = None)"
proof (cases "X \<in> set xs")
  case False
  obtain n where n: "h L = Some n" "chain h (Next n) as xs 0" using assms by (auto simp: is_list_def)
  have "FindPrevious h X L = Some (last (L # as))" using FindPrevious_chain [OF n False] by simp
  moreover obtain l where "h (last (L # as)) = Some l" "Next l = 0" using chain_last [OF n] by blast
  ultimately have "Delete h X L = Some h" by (simp add: Delete_def IsLast_def del: last.simps)
  moreover have "first X as xs = 0" "0 \<notin> set as" using first_0 [OF chain_len [OF n(2)] chain_nonnull [OF n(2)]] False chain_nonnull [OF n(2)] by auto
  ultimately show ?thesis using False assms by (auto simp: remove1_idem)
next
  case True
  then obtain ys zs where xs: "xs = ys @ X # zs" "X \<notin> set ys" using split_list_first by metis
  obtain n where n: "h L = Some n" "chain h (Next n) as xs 0" using assms by (auto simp: is_list_def)
  have len: "length as = length xs" using chain_len [OF n(2)] .
  define us where "us = take (length ys) as"
  have lus: "length us = length ys" using len xs by (simp add: us_def)
  obtain b bs where as: "as = us @ b # bs" using len xs by (metis us_def append_take_drop_id Cons_nth_drop_Suc length_append length_Cons less_add_Suc1 add.commute add_Suc_right)
  obtain m where m: "chain h (Next n) us ys b" "b \<noteq> 0" "h b = Some m" "Element m = X" "chain h (Next m) bs zs 0"
    using n(2) by (auto simp: xs as list_chain_append lus)
  have d: "L \<noteq> 0" "distinct (L # us @ b # bs)" using assms by (auto simp: is_list_def as)
  let ?P = "last (L # us)"
  obtain l where l: "h ?P = Some l" "Next l = b" using chain_last [OF n(1) m(1)] by blast
  have P: "?P \<in> set (L # us)" by (metis last_in_set list.distinct(1))
  have f: "FindPrevious h X L = Some ?P" using FindPrevious_chain [OF n(1) m(1) xs(2)] m by blast
  let ?h = "h(?P \<mapsto> l\<lparr>Next := Next m\<rparr>)"
  let ?h' = "?h(b := None)"
  have r: "Delete h X L = Some ?h'" using f l m by (simp add: Delete_def IsLast_def Let_def del: last.simps)
  have "distinct (L # us)" using d by auto
  then obtain n' where n': "?h L = Some n'" "chain ?h (Next n') us ys (Next m)" using chain_relink [OF n(1) m(1) _ l(1) refl, of "Next m"] by auto
  have "chain ?h' (Next n') us ys (Next m)" using n'(2) by (rule chain_cong) (use d in auto)
  moreover have "chain ?h' (Next m) bs zs 0" using m(5) by (rule chain_cong) (use d P in \<open>auto simp del: last.simps\<close>)
  moreover have "?h' L = Some n'" using n'(1) d by auto
  ultimately have "is_list ?h' L (us @ bs) (ys @ zs)" unfolding is_list_def using d lus by (auto simp: list_chain_append simp del: last.simps)
  moreover have "remove1 X xs = ys @ zs" using xs by (simp add: remove1_append)
  moreover have "first X as xs = b" unfolding as xs(1) using lus xs(2) by (induction us ys rule: list_induct2) auto
  moreover have "set (us @ bs) = set as - {b}" using d as by auto
  ultimately show ?thesis using r P as by (auto simp del: last.simps)
qed

lemma free_loop_chain: "chain h p as xs 0 \<Longrightarrow> distinct as \<Longrightarrow> free_loop h p = Some (\<lambda>a. if a \<in> set as then None else h a)"
proof (induction as arbitrary: h p xs)
  case Nil
  then show ?case by (cases xs; subst free_loop.simps) auto
next
  case (Cons a as)
  then obtain x ys n where x: "xs = x # ys" "p = a" "a \<noteq> 0" "h a = Some n" "chain h (Next n) as ys 0" by (cases xs) auto
  have "chain (h(a := None)) (Next n) as ys 0" using x(5) by (rule chain_cong) (use Cons.prems(2) in auto)
  then have "free_loop (h(a := None)) (Next n) = Some (\<lambda>b. if b \<in> set as then None else (h(a := None)) b)" using Cons by auto
  then show ?case using x by (subst free_loop.simps) (auto simp: fun_eq_iff)
qed

lemma DeleteList_list:
  assumes "is_list h L as xs"
  shows "\<exists>h'. DeleteList h L = Some h' \<and> is_list h' L [] [] \<and> (\<forall>a. a \<noteq> L \<longrightarrow> h' a = (if a \<in> set as then None else h a))"
proof -
  obtain n where n: "h L = Some n" "chain h (Next n) as xs 0" "L \<noteq> 0" "distinct (L # as)" using assms by (auto simp: is_list_def)
  have "chain (h(L \<mapsto> n\<lparr>Next := 0\<rparr>)) (Next n) as xs 0" using n(2) by (rule chain_cong) (use n(4) in auto)
  then show ?thesis using n by (auto simp: DeleteList_def is_list_def free_loop_chain)
qed

section \<open>The buckets\<close>

definition table_ok :: "(int \<Rightarrow> nat \<Rightarrow> nat) \<Rightarrow> nat list \<Rightarrow> heap \<Rightarrow> (nat \<Rightarrow> nat list) \<Rightarrow> (nat \<Rightarrow> int list) \<Rightarrow> bool" where
  "table_ok hash ls h A X \<longleftrightarrow>
     (\<forall>i < length ls. is_list h (ls ! i) (A i) (X i) \<and> (\<forall>x \<in> set (X i). hash x (length ls) = i)) \<and>
     (\<forall>i < length ls. \<forall>j < length ls. i \<noteq> j \<longrightarrow> set (ls ! i # A i) \<inter> set (ls ! j # A j) = {})"

text \<open>The keys of the table.\<close>

definition keys :: "nat list \<Rightarrow> (nat \<Rightarrow> int list) \<Rightarrow> int set" where
  "keys ls X = (\<Union>i < length ls. set (X i))"

text \<open>What is assumed of \<open>hash\<close>: it gives an index of the table.\<close>

definition hash_in_range :: "(int \<Rightarrow> nat \<Rightarrow> nat) \<Rightarrow> bool" where
  "hash_in_range hash \<longleftrightarrow> (\<forall>k n. 0 < n \<longrightarrow> hash k n < n)"

lemma table_find_first:
  assumes "table_ok hash ls h A X" "hash_in_range hash" "ls \<noteq> []"
  shows "table_find hash ls h key = Some (first key (A (hash key (length ls))) (X (hash key (length ls))))"
proof -
  have i: "hash key (length ls) < length ls" using assms(2,3) by (simp add: hash_in_range_def)
  then have "is_list h (ls ! hash key (length ls)) (A (hash key (length ls))) (X (hash key (length ls)))" using assms(1) by (simp add: table_ok_def)
  then show ?thesis using i by (auto simp: table_find_def is_list_def find_loop_chain)
qed

lemma table_find_keys:
  assumes "table_ok hash ls h A X" "hash_in_range hash" "ls \<noteq> []"
  shows "\<exists>p. table_find hash ls h key = Some p \<and> (p \<noteq> 0 \<longleftrightarrow> key \<in> keys ls X)"
proof -
  let ?i = "hash key (length ls)"
  have i: "?i < length ls" using assms(2,3) by (simp add: hash_in_range_def)
  then obtain n where "chain h n (A ?i) (X ?i) 0" using assms(1) by (auto simp: table_ok_def is_list_def)
  then have "first key (A ?i) (X ?i) = 0 \<longleftrightarrow> key \<notin> set (X ?i)" using first_0 chain_len chain_nonnull by metis
  moreover have "key \<in> keys ls X \<longleftrightarrow> key \<in> set (X ?i)" using i assms(1) by (auto simp: keys_def table_ok_def)
  ultimately show ?thesis using table_find_first [OF assms] by auto
qed

lemma table_insert_ok:
  assumes t: "table_ok hash ls h A X" and range: "hash_in_range hash" "ls \<noteq> []" and new: "h c = None" "c \<noteq> 0"
  shows "\<exists>h' A' X'. table_insert hash ls h c key = Some h' \<and> table_ok hash ls h' A' X' \<and> keys ls X' = insert key (keys ls X) \<and>
    (\<forall>a. h' a = None \<longrightarrow> h a = None) \<and> (\<forall>a. a \<noteq> c \<longrightarrow> h a = None \<longrightarrow> h' a = None)"
proof -
  obtain p where p: "table_find hash ls h key = Some p" "p \<noteq> 0 \<longleftrightarrow> key \<in> keys ls X" using table_find_keys [OF t range] by blast
  show ?thesis
  proof (cases "p = 0")
    case False
    then have "table_insert hash ls h c key = Some h" "insert key (keys ls X) = keys ls X" using p by (auto simp: table_insert_def)
    then show ?thesis using t by metis
  next
    case True
    define i where "i = hash key (length ls)"
    have i: "i < length ls" using range by (simp add: hash_in_range_def i_def)
    have L: "is_list h (ls ! i) (A i) (X i)" using t i by (simp add: table_ok_def)
    obtain h' where h': "Insert h c key (ls ! i) = Some h'" "is_list h' (ls ! i) (c # A i) (key # X i)" "\<forall>a. a \<noteq> c \<and> a \<noteq> ls ! i \<longrightarrow> h' a = h a"
      using Insert_list [of h "ls ! i" "[]" "A i" "[]" "X i" c key] L new by auto
    have ins: "table_insert hash ls h c key = Some h'" using h'(1) p(1) True i new(2) by (auto simp: table_insert_def Insert_def i_def)
    let ?A = "A(i := c # A i)" and ?X = "X(i := key # X i)"
    have fresh: "c \<notin> set (ls ! j # A j)" if "j < length ls" for j using that t new(1) is_list_alloc [of h "ls ! j" "A j" "X j" c] by (auto simp: table_ok_def)
    have other: "ls ! i \<notin> set (ls ! j # A j)" if "j < length ls" "j \<noteq> i" for j using that t i unfolding table_ok_def by force
    have "is_list h' (ls ! j) (A j) (X j)" if "j < length ls" "j \<noteq> i" for j
    proof (rule is_list_cong)
      show "is_list h (ls ! j) (A j) (X j)" using that t by (simp add: table_ok_def)
      show "h' a = h a" if "a \<in> set (ls ! j # A j)" for a using h'(3) fresh [of j] other [of j] \<open>j < length ls\<close> \<open>j \<noteq> i\<close> that by metis
    qed
    then have "\<forall>j < length ls. is_list h' (ls ! j) (?A j) (?X j) \<and> (\<forall>x \<in> set (?X j). hash x (length ls) = j)" using t h'(2) by (auto simp: table_ok_def i_def)
    moreover have "set (ls ! j # ?A j) \<inter> set (ls ! k # ?A k) = {}" if "j < length ls" "k < length ls" "j \<noteq> k" for j k
    proof -
      have "set (ls ! j # A j) \<inter> set (ls ! k # A k) = {}" using t that unfolding table_ok_def by blast
      then show ?thesis using fresh [OF that(1)] fresh [OF that(2)] that(3) by auto
    qed
    ultimately have "table_ok hash ls h' ?A ?X" unfolding table_ok_def by blast
    moreover have "keys ls ?X = insert key (keys ls X)" using i by (auto simp: keys_def split: if_splits)
    moreover have "h' (ls ! i) \<noteq> None" "h' c \<noteq> None" "h (ls ! i) \<noteq> None" using is_list_alloc [OF h'(2)] is_list_alloc [OF L] by auto
    ultimately show ?thesis using ins h'(3) by metis
  qed
qed

lemma initialize_cells:
  "0 \<notin> set (map cell is) \<Longrightarrow> fold (\<lambda>i h. if cell i = 0 then h else h(cell i \<mapsto> x)) is h = (\<lambda>a. if a \<in> set (map cell is) then Some x else h a)"
  by (induction "is" arbitrary: h) (auto simp: fun_eq_iff)

lemma initialize_table_ok:
  assumes "cells = map cell [0..<nextprime tablesize]" "distinct cells" "0 \<notin> set cells" "mintablesize \<le> tablesize"
  shows "\<exists>h'. initialize_repaired True nextprime mintablesize tablesize cell e h = Some (Some cells, h') \<and> table_ok hash cells h' (\<lambda>i. []) (\<lambda>i. []) \<and>
    (\<forall>a. a \<notin> set cells \<longrightarrow> h' a = h a)"
proof -
  define h' where "h' = (\<lambda>a. if a \<in> set cells then Some \<lparr>Element = e, Next = 0\<rparr> else h a)"
  have i: "initialize_repaired True nextprime mintablesize tablesize cell e h = Some (Some cells, h')"
    using assms initialize_cells [of cell "[0..<nextprime tablesize]" "\<lparr>Element = e, Next = 0\<rparr>" h] by (simp add: initialize_repaired_def initialize_table_with_def h'_def Let_def)
  have "is_list h' (cells ! i) [] []" if "i < length cells" for i
  proof -
    have "cells ! i \<in> set cells" using that by simp
    moreover from this have "cells ! i \<noteq> 0" using assms(3) by metis
    ultimately show ?thesis by (simp add: is_list_def h'_def)
  qed
  then have "table_ok hash cells h' (\<lambda>i. []) (\<lambda>i. [])" using assms(2) by (auto simp: table_ok_def nth_eq_iff_index_eq)
  then show ?thesis using i by (auto simp: h'_def)
qed

section \<open>Properties\<close>

text \<open>C31: The list refines a mathematical list: for a list with its nodes at distinct addresses, \<open>IsEmpty\<close> tells whether it is empty,
  \<open>Find\<close> returns the first node with the element (or the null pointer), \<open>Delete\<close> takes the first occurrence away and frees its node, \<open>Insert\<close> puts
  an element behind any position, \<open>DeleteList\<close> leaves the empty list and frees every node. None follows an invalid pointer, all end, and nodes of other lists are not touched.\<close>

theorem textbook_list_refines:
  assumes "is_list h L as xs"
  shows "IsEmpty h L = Some (xs = []) \<and>
    Find h X L = Some (first X as xs) \<and> (first X as xs = 0 \<longleftrightarrow> X \<notin> set xs) \<and>
    (\<exists>h' as'. Delete h X L = Some h' \<and> is_list h' L as' (remove1 X xs) \<and> set as' = set as - {first X as xs} \<and>
      (X \<in> set xs \<longrightarrow> h' (first X as xs) = None) \<and> (\<forall>a. a \<notin> set (L # as) \<longrightarrow> h' a = h a)) \<and>
    (i \<le> length xs \<and> h Tmp = None \<and> Tmp \<noteq> 0 \<longrightarrow>
      (\<exists>h'. Insert h Tmp X ((L # as) ! i) = Some h' \<and> is_list h' L (take i as @ Tmp # drop i as) (take i xs @ X # drop i xs) \<and>
        (\<forall>a. a \<notin> set (Tmp # L # as) \<longrightarrow> h' a = h a))) \<and>
    (\<exists>h'. DeleteList h L = Some h' \<and> is_list h' L [] [] \<and> (\<forall>a. a \<noteq> L \<longrightarrow> h' a = (if a \<in> set as then None else h a)))"
proof (intro conjI)
  obtain n where n: "h L = Some n" "chain h (Next n) as xs 0" using assms by (auto simp: is_list_def)
  show "IsEmpty h L = Some (xs = [])" using n by (cases as; cases xs) (auto simp: IsEmpty_def)
  show "first X as xs = 0 \<longleftrightarrow> X \<notin> set xs" using first_0 [OF chain_len [OF n(2)] chain_nonnull [OF n(2)]] .
qed (use Find_list [OF assms] Delete_list [OF assms, of X] Insert_nth [OF assms, of i Tmp X] DeleteList_list [OF assms] in blast)+

theorem textbook_list_refines_witness:
  "\<exists>h' as'. Delete [1 \<mapsto> \<lparr>Element = 0, Next = 2\<rparr>, 2 \<mapsto> \<lparr>Element = 7, Next = 3\<rparr>, 3 \<mapsto> \<lparr>Element = 8, Next = 0\<rparr>] 7 1 = Some h' \<and> is_list h' 1 as' [8] \<and> h' 2 = None"
proof -
  have "is_list [1 \<mapsto> \<lparr>Element = 0, Next = 2\<rparr>, 2 \<mapsto> \<lparr>Element = 7, Next = 3\<rparr>, 3 \<mapsto> \<lparr>Element = 8, Next = 0\<rparr>] 1 [2, 3] [7, 8]" by (simp add: is_list_def)
  from textbook_list_refines [OF this, of 7 0 0, THEN conjunct2, THEN conjunct2, THEN conjunct2, THEN conjunct1]
  obtain h' as' where "Delete [1 \<mapsto> \<lparr>Element = 0, Next = 2\<rparr>, 2 \<mapsto> \<lparr>Element = 7, Next = 3\<rparr>, 3 \<mapsto> \<lparr>Element = 8, Next = 0\<rparr>] 7 1 = Some h'"
    "is_list h' 1 as' (remove1 7 [7, 8])" "h' (first 7 [2, 3] [7, 8]) = None" by auto
  moreover have "remove1 7 [7, 8 :: int] = [8]" "first 7 [2, 3] [7, 8] = 2" by simp_all
  ultimately show ?thesis by metis
qed

fun inserts :: "(int \<Rightarrow> nat \<Rightarrow> nat) \<Rightarrow> nat list \<Rightarrow> heap \<Rightarrow> (nat \<times> int) list \<Rightarrow> heap option" where
  "inserts hash ls h [] = Some h"
| "inserts hash ls h ((c, k) # cks) = do { h \<leftarrow> table_insert hash ls h c k; inserts hash ls h cks }"

lemma inserts_ok:
  "table_ok hash ls h A X \<Longrightarrow> hash_in_range hash \<Longrightarrow> ls \<noteq> [] \<Longrightarrow> distinct (map fst cks) \<Longrightarrow> (\<forall>c \<in> fst ` set cks. h c = None \<and> c \<noteq> 0) \<Longrightarrow>
   \<exists>h' A' X'. inserts hash ls h cks = Some h' \<and> table_ok hash ls h' A' X' \<and> keys ls X' = keys ls X \<union> snd ` set cks"
proof (induction cks arbitrary: h A X)
  case (Cons ck cks)
  obtain c k where ck: "ck = (c, k)" by (cases ck)
  obtain h1 A1 X1 where h1: "table_insert hash ls h c k = Some h1" "table_ok hash ls h1 A1 X1" "keys ls X1 = insert k (keys ls X)" "\<forall>a. a \<noteq> c \<longrightarrow> h a = None \<longrightarrow> h1 a = None"
    using table_insert_ok [OF Cons.prems(1-3), of c k] Cons.prems(5) unfolding ck by (metis fst_conv image_eqI list.set_intros(1))
  have "\<forall>c' \<in> fst ` set cks. c' \<noteq> c \<and> h c' = None \<and> c' \<noteq> 0" using Cons.prems(4,5) ck by auto
  then have "\<forall>c' \<in> fst ` set cks. h1 c' = None \<and> c' \<noteq> 0" using h1(4) by simp
  moreover have "distinct (map fst cks)" using Cons.prems(4) by simp
  ultimately obtain h' A' X' where "inserts hash ls h1 cks = Some h'" "table_ok hash ls h' A' X'" "keys ls X' = keys ls X1 \<union> snd ` set cks"
    using Cons.IH [OF h1(2) Cons.prems(2,3)] by blast
  then have "inserts hash ls h (ck # cks) = Some h' \<and> table_ok hash ls h' A' X' \<and> keys ls X' = keys ls X \<union> snd ` set (ck # cks)" using h1(1,3) ck by simp
  then show ?case by blast
qed auto

text \<open>C32: The hash table is a set, once line 32 is repaired: after a table is made with the array allocated, and any keys are inserted, \<open>find\<close> returns a node exactly for the
  keys that were inserted, whatever the hash function, as long as its values are indices of the table. As written, \<open>initializee_table\<close> never returns a table: it writes
  through a pointer that is no address of an array.\<close>

theorem hashsep_is_set:
  assumes "hash_in_range hash" "mintablesize \<le> tablesize" "0 < nextprime tablesize" "cells = map cell [0..<nextprime tablesize]"
    and "distinct (cells @ map fst cks)" "\<forall>c \<in> set (cells @ map fst cks). h c = None \<and> c \<noteq> 0"
  shows "(\<exists>ls h0 h' p. initialize_repaired True nextprime mintablesize tablesize cell e h = Some (Some ls, h0) \<and> length ls = nextprime tablesize \<and>
      inserts hash ls h0 cks = Some h' \<and> table_find hash ls h' key = Some p \<and> (p \<noteq> 0 \<longleftrightarrow> key \<in> snd ` set cks)) \<and>
    initializee_table handle nextprime mintablesize tablesize cell e h = None"
proof -
  have z: "0 \<notin> set cells" "distinct cells" using assms(5,6) by force+
  obtain h0 where i: "initialize_repaired True nextprime mintablesize tablesize cell e h = Some (Some cells, h0)" "table_ok hash cells h0 (\<lambda>i. []) (\<lambda>i. [])" "\<forall>a. a \<notin> set cells \<longrightarrow> h0 a = h a"
    using initialize_table_ok [of cells cell nextprime tablesize mintablesize e h hash] assms(2,4) z by blast
  have ne: "cells \<noteq> []" "length cells = nextprime tablesize" using assms(3,4) by auto
  have "\<forall>c \<in> fst ` set cks. h0 c = None \<and> c \<noteq> 0" using i(3) assms(5,6) by (metis (no_types, lifting) disjoint_iff distinct_append list.set_map set_append Un_iff)
  then obtain h' A X where h': "inserts hash cells h0 cks = Some h'" "table_ok hash cells h' A X" "keys cells X = snd ` set cks"
    using inserts_ok [OF i(2) assms(1) ne(1), of cks] assms(5) by (auto simp: keys_def)
  have "initializee_table handle nextprime mintablesize tablesize cell e h = None" using assms(2,3) by (simp add: initializee_table_def initialize_table_with_def Let_def)
  then show ?thesis using table_find_keys [OF h'(2) assms(1) ne(1), of key] h'(1,3) i(1) ne(2) by auto
qed

theorem hashsep_is_set_witness:
  "\<exists>ls h0 h' p. initialize_repaired True (\<lambda>n. 2) 2 2 Suc 0 Map.empty = Some (Some ls, h0) \<and> inserts (\<lambda>k n. nat k mod n) ls h0 [(3, 7), (4, 9)] = Some h' \<and>
    table_find (\<lambda>k n. nat k mod n) ls h' 9 = Some p \<and> p \<noteq> 0"
proof -
  have r: "hash_in_range (\<lambda>k n. nat k mod n)" by (simp add: hash_in_range_def)
  have c: "[1, 2] = map Suc [0..<2]" by (simp add: eval_nat_numeral)
  have "(\<exists>ls h0 h' p. initialize_repaired True (\<lambda>n. 2) 2 2 Suc 0 Map.empty = Some (Some ls, h0) \<and> length ls = 2 \<and>
      inserts (\<lambda>k n. nat k mod n) ls h0 [(3, 7), (4, 9)] = Some h' \<and> table_find (\<lambda>k n. nat k mod n) ls h' 9 = Some p \<and> (p \<noteq> 0 \<longleftrightarrow> 9 \<in> snd ` set [(3 :: nat, 7 :: int), (4, 9)])) \<and>
    initializee_table True (\<lambda>n. 2) 2 2 Suc 0 Map.empty = None"
    by (rule hashsep_is_set [where cells = "[1, 2]", OF r]) (simp_all add: c, simp_all add: eval_nat_numeral)
  then show ?thesis by auto
qed

end
