(* ===== verification/Stack_Queue.thy ===== *)
theory Stack_Queue
  imports Prelude
begin

text \<open>
  The array stack of \<open>data_structure_and_algorithm/stack/stack.c\<close> and the circular queue of \<open>queue/queue.c\<close>. \<open>IsFull\<close> is declared in both headers and defined nowhere: it is
  a parameter. An access outside the array is a fault, \<open>None\<close>. Messages are left out; the spelling errors of the source (\<open>TopofStack\<close>, \<open>NULLo\<close>) are corrected.
\<close>

section \<open>The stack\<close>

abbreviation "EmptyTOS \<equiv> -1 :: int"

record stack =
  SCapacity :: int
  TopOfStack :: int
  SArray :: "int list"

text \<open>Reading and writing an array at a signed index.\<close>

definition get :: "'a list \<Rightarrow> int \<Rightarrow> 'a option" where
  "get xs i = (if i < 0 then None else rd xs (nat i))"

definition put :: "'a list \<Rightarrow> int \<Rightarrow> 'a \<Rightarrow> 'a list option" where
  "put xs i x = (if i < 0 then None else wr xs (nat i) x)"

text \<open>\<open>CreateStack\<close> when both allocations succeed: the top of the stack and the array are what \<open>malloc\<close> leaves there. A size below the minimum only gives a message.\<close>

definition CreateStack :: "int \<Rightarrow> int list \<Rightarrow> nat \<Rightarrow> stack" where
  "CreateStack garbage cells MaxElements = \<lparr>SCapacity = int MaxElements, TopOfStack = garbage, SArray = take MaxElements cells\<rparr>"

definition SIsEmpty :: "stack \<Rightarrow> bool" where
  "SIsEmpty S = (TopOfStack S = EmptyTOS)"

definition SMakeEmpty :: "stack \<Rightarrow> stack" where
  "SMakeEmpty S = S\<lparr>TopOfStack := EmptyTOS\<rparr>"

definition Push :: "(stack \<Rightarrow> bool) \<Rightarrow> int \<Rightarrow> stack \<Rightarrow> stack option" where
  "Push IsFull X S =
     (if IsFull S then Some S
      else do { a \<leftarrow> put (SArray S) (TopOfStack S + 1) X; Some (S\<lparr>TopOfStack := TopOfStack S + 1, SArray := a\<rparr>) })"

definition Top :: "stack \<Rightarrow> int option" where
  "Top S = (if \<not> SIsEmpty S then get (SArray S) (TopOfStack S) else Some 0)"

definition Pop :: "stack \<Rightarrow> stack" where
  "Pop S = (if SIsEmpty S then S else S\<lparr>TopOfStack := TopOfStack S - 1\<rparr>)"

definition TopAndPop :: "stack \<Rightarrow> (int \<times> stack) option" where
  "TopAndPop S =
     (if \<not> SIsEmpty S then do { x \<leftarrow> get (SArray S) (TopOfStack S); Some (x, S\<lparr>TopOfStack := TopOfStack S - 1\<rparr>) }
      else Some (0, S))"

section \<open>The queue\<close>

record queue =
  QCapacity :: int
  Front :: int
  Rear :: int
  QSize :: int
  QArray :: "int list"

definition QIsEmpty :: "queue \<Rightarrow> bool" where
  "QIsEmpty Q = (QSize Q = 0)"

definition QMakeEmpty :: "queue \<Rightarrow> queue" where
  "QMakeEmpty Q = Q\<lparr>QSize := 0, Front := 1, Rear := 0\<rparr>"

definition Succ :: "int \<Rightarrow> queue \<Rightarrow> int" where
  "Succ Value Q = (if Value + 1 = QCapacity Q then 0 else Value + 1)"

definition Enqueue :: "(queue \<Rightarrow> bool) \<Rightarrow> int \<Rightarrow> queue \<Rightarrow> queue option" where
  "Enqueue IsFull X Q =
     (if IsFull Q then Some Q
      else let Q = Q\<lparr>QSize := QSize Q + 1\<rparr>; Q = Q\<lparr>Rear := Succ (Rear Q) Q\<rparr> in
        do { a \<leftarrow> put (QArray Q) (Rear Q) X; Some (Q\<lparr>QArray := a\<rparr>) })"

section \<open>What they stand for\<close>

text \<open>The stack as a list, top first, and what is assumed of \<open>IsFull\<close>.\<close>

definition sfull :: "(stack \<Rightarrow> bool) \<Rightarrow> bool" where
  "sfull IsFull \<longleftrightarrow> (\<forall>S. IsFull S \<longleftrightarrow> TopOfStack S + 1 = SCapacity S)"

definition stack_is :: "stack \<Rightarrow> int list \<Rightarrow> bool" where
  "stack_is S xs \<longleftrightarrow> TopOfStack S + 1 = int (length xs) \<and> length xs \<le> length (SArray S) \<and> SCapacity S = int (length (SArray S)) \<and> rev xs = take (length xs) (SArray S)"

datatype scall = SPush int | SPop | STopAndPop

fun sdo :: "(stack \<Rightarrow> bool) \<Rightarrow> scall \<Rightarrow> stack \<Rightarrow> (int \<times> stack) option" where
  "sdo IsFull (SPush X) S = map_option (Pair 0) (Push IsFull X S)"
| "sdo IsFull SPop S = Some (0, Pop S)"
| "sdo IsFull STopAndPop S = TopAndPop S"

fun sspec :: "nat \<Rightarrow> scall \<Rightarrow> int list \<Rightarrow> int \<times> int list" where
  "sspec m (SPush X) xs = (0, if length xs = m then xs else X # xs)"
| "sspec m SPop xs = (0, drop 1 xs)"
| "sspec m STopAndPop xs = (case xs of [] \<Rightarrow> (0, []) | x # xs \<Rightarrow> (x, xs))"

fun sruns :: "(stack \<Rightarrow> bool) \<Rightarrow> scall list \<Rightarrow> stack \<Rightarrow> (int list \<times> stack) option" where
  "sruns IsFull [] S = Some ([], S)"
| "sruns IsFull (c # cs) S = do { (r, S) \<leftarrow> sdo IsFull c S; (rs, S) \<leftarrow> sruns IsFull cs S; Some (r # rs, S) }"

fun sspecs :: "nat \<Rightarrow> scall list \<Rightarrow> int list \<Rightarrow> int list \<times> int list" where
  "sspecs m [] xs = ([], xs)"
| "sspecs m (c # cs) xs = (let (r, xs) = sspec m c xs; (rs, xs) = sspecs m cs xs in (r # rs, xs))"

lemma stack_is_top: "stack_is S (x # xs) \<Longrightarrow> TopOfStack S = int (length xs) \<and> SArray S ! length xs = x \<and> length xs < length (SArray S)"
proof -
  assume a: "stack_is S (x # xs)"
  then have "(rev (x # xs)) ! length xs = take (Suc (length xs)) (SArray S) ! length xs" by (simp add: stack_is_def)
  then show ?thesis using a by (auto simp: stack_is_def nth_append)
qed

lemma stack_is_pop: "stack_is S (x # xs) \<Longrightarrow> stack_is (S\<lparr>TopOfStack := TopOfStack S - 1\<rparr>) xs"
proof -
  assume a: "stack_is S (x # xs)"
  then have "take (length xs) (rev (x # xs)) = take (length xs) (take (Suc (length xs)) (SArray S))" by (simp add: stack_is_def)
  then show ?thesis using a by (auto simp: stack_is_def min_def)
qed

lemma stack_is_Nil: "stack_is S xs \<Longrightarrow> SIsEmpty S \<longleftrightarrow> xs = []"
  by (auto simp: stack_is_def SIsEmpty_def)

lemma Push_stack:
  assumes "sfull IsFull" "stack_is S xs"
  shows "\<exists>S'. Push IsFull X S = Some S' \<and> SCapacity S' = SCapacity S \<and> stack_is S' (if int (length xs) = SCapacity S then xs else X # xs)"
proof (cases "int (length xs) = SCapacity S")
  case True
  then show ?thesis using assms by (auto simp: Push_def sfull_def stack_is_def)
next
  case False
  then have lt: "length xs < length (SArray S)" and n: "\<not> IsFull S" and t: "TopOfStack S = int (length xs) - 1" using assms by (auto simp: sfull_def stack_is_def)
  have "rev xs @ [X] = take (Suc (length xs)) ((SArray S)[length xs := X])" using assms(2) lt by (simp add: stack_is_def take_Suc_conv_app_nth)
  then have "stack_is (S\<lparr>TopOfStack := int (length xs), SArray := (SArray S)[length xs := X]\<rparr>) (X # xs)" using assms(2) lt by (simp add: stack_is_def)
  then show ?thesis using n t lt False by (auto simp: Push_def put_def)
qed

lemma sdo_spec:
  assumes "sfull IsFull" "stack_is S xs" "SCapacity S = int m"
  shows "\<exists>S'. sdo IsFull c S = Some (fst (sspec m c xs), S') \<and> stack_is S' (snd (sspec m c xs)) \<and> SCapacity S' = int m"
proof (cases c)
  case (SPush X)
  then show ?thesis using Push_stack [OF assms(1,2), of X] assms(3) by auto
next
  case SPop
  then show ?thesis using assms(2,3) stack_is_pop [of S] stack_is_Nil [OF assms(2)] by (cases xs) (auto simp: Pop_def)
next
  case STopAndPop
  then show ?thesis using assms(2,3) stack_is_pop [of S] stack_is_top [of S] stack_is_Nil [OF assms(2)] by (cases xs) (auto simp: TopAndPop_def get_def)
qed

lemma sruns_spec:
  "sfull IsFull \<Longrightarrow> stack_is S xs \<Longrightarrow> SCapacity S = int m \<Longrightarrow> \<exists>S'. sruns IsFull cs S = Some (fst (sspecs m cs xs), S') \<and> stack_is S' (snd (sspecs m cs xs))"
proof (induction cs arbitrary: S xs)
  case (Cons c cs)
  obtain S1 where S1: "sdo IsFull c S = Some (fst (sspec m c xs), S1)" "stack_is S1 (snd (sspec m c xs))" "SCapacity S1 = int m" using sdo_spec Cons.prems by blast
  obtain S2 where "sruns IsFull cs S1 = Some (fst (sspecs m cs (snd (sspec m c xs))), S2)" "stack_is S2 (snd (sspecs m cs (snd (sspec m c xs))))"
    using Cons.IH [OF Cons.prems(1) S1(2,3)] by blast
  then show ?case using S1(1) by (auto simp: Let_def split: prod.splits)
qed auto

text \<open>The queue as a list, from the front, and what is assumed of \<open>IsFull\<close>.\<close>

definition qfull :: "(queue \<Rightarrow> bool) \<Rightarrow> bool" where
  "qfull IsFull \<longleftrightarrow> (\<forall>Q. IsFull Q \<longleftrightarrow> QSize Q = QCapacity Q)"

definition qlist :: "queue \<Rightarrow> int list" where
  "qlist Q = map (\<lambda>k. QArray Q ! nat ((Front Q + int k) mod QCapacity Q)) [0..<nat (QSize Q)]"

definition queue_ok :: "queue \<Rightarrow> bool" where
  "queue_ok Q \<longleftrightarrow> 0 < QCapacity Q \<and> int (length (QArray Q)) = QCapacity Q \<and> 0 \<le> QSize Q \<and> QSize Q \<le> QCapacity Q \<and>
     0 \<le> Rear Q \<and> Rear Q < QCapacity Q \<and> Rear Q = (Front Q + QSize Q - 1) mod QCapacity Q"

lemma Succ_mod: "0 \<le> r \<Longrightarrow> r < QCapacity Q \<Longrightarrow> Succ r Q = (r + 1) mod QCapacity Q"
  by (auto simp: Succ_def)

lemma mod_add_inj: "0 < n \<Longrightarrow> (f + int i) mod n = (f + int j) mod n \<Longrightarrow> int i < n \<Longrightarrow> int j < n \<Longrightarrow> i = j"
  by (metis add_diff_cancel_left' mod_diff_left_eq mod_pos_pos_trivial of_nat_0_le_iff of_nat_eq_iff)

lemma Enqueue_ok:
  assumes "qfull IsFull" "queue_ok Q" "QSize Q < QCapacity Q"
  shows "\<exists>Q'. Enqueue IsFull X Q = Some Q' \<and> queue_ok Q' \<and> qlist Q' = qlist Q @ [X] \<and> QCapacity Q' = QCapacity Q \<and> QSize Q' = QSize Q + 1"
proof -
  let ?r = "(Front Q + QSize Q) mod QCapacity Q"
  have c: "0 < QCapacity Q" "int (length (QArray Q)) = QCapacity Q" "0 \<le> QSize Q" and r: "0 \<le> ?r" "?r < QCapacity Q" using assms(2) by (auto simp: queue_ok_def)
  have "Succ (Rear Q) (Q\<lparr>QSize := QSize Q + 1\<rparr>) = (Rear Q + 1) mod QCapacity Q" using assms(2) by (subst Succ_mod) (auto simp: queue_ok_def)
  also have "\<dots> = ?r" using assms(2) by (simp add: queue_ok_def mod_simps)
  finally have e: "Enqueue IsFull X Q = Some (Q\<lparr>QSize := QSize Q + 1, Rear := ?r, QArray := (QArray Q)[nat ?r := X]\<rparr>)" (is "_ = Some ?Q")
    using assms(1,3) r c(2) by (auto simp: Enqueue_def qfull_def put_def Let_def)
  have n: "nat (QSize Q + 1) = Suc (nat (QSize Q))" using c(3) by simp
  have "QArray ?Q ! nat ((Front Q + int k) mod QCapacity Q) = QArray Q ! nat ((Front Q + int k) mod QCapacity Q)" if "k < nat (QSize Q)" for k
  proof -
    have "(Front Q + int k) mod QCapacity Q \<noteq> ?r" using mod_add_inj [OF c(1), of "Front Q" k "nat (QSize Q)"] that c(3) assms(3) by auto
    moreover have "0 \<le> (Front Q + int k) mod QCapacity Q" using c(1) by simp
    ultimately have "nat ?r \<noteq> nat ((Front Q + int k) mod QCapacity Q)" using r(1) by (metis nat_eq_iff2 int_nat_eq)
    then show ?thesis by simp
  qed
  moreover have "QArray ?Q ! nat ((Front Q + QSize Q) mod QCapacity Q) = X" using r c(2) by simp
  ultimately have "qlist ?Q = qlist Q @ [X]" using c(3) by (simp add: qlist_def n)
  moreover have "queue_ok ?Q" using c r assms(3) by (simp add: queue_ok_def)
  ultimately show ?thesis using e by auto
qed

fun enqueues :: "(queue \<Rightarrow> bool) \<Rightarrow> int list \<Rightarrow> queue \<Rightarrow> queue option" where
  "enqueues IsFull [] Q = Some Q"
| "enqueues IsFull (X # Xs) Q = do { Q \<leftarrow> Enqueue IsFull X Q; enqueues IsFull Xs Q }"

lemma enqueues_full: "qfull IsFull \<Longrightarrow> QSize Q = QCapacity Q \<Longrightarrow> enqueues IsFull Xs Q = Some Q"
  by (induction Xs) (auto simp: Enqueue_def qfull_def)

lemma enqueues_ok:
  "qfull IsFull \<Longrightarrow> queue_ok Q \<Longrightarrow> \<exists>Q'. enqueues IsFull Xs Q = Some Q' \<and> queue_ok Q' \<and> qlist Q' = qlist Q @ take (nat (QCapacity Q - QSize Q)) Xs"
proof (induction Xs arbitrary: Q)
  case (Cons X Xs)
  show ?case
  proof (cases "QSize Q = QCapacity Q")
    case True
    then show ?thesis using enqueues_full [OF Cons.prems(1) True, of "X # Xs"] Cons.prems(2) by simp
  next
    case False
    then have "QSize Q < QCapacity Q" using Cons.prems(2) by (simp add: queue_ok_def)
    then obtain Q1 where Q1: "Enqueue IsFull X Q = Some Q1" "queue_ok Q1" "qlist Q1 = qlist Q @ [X]" "QCapacity Q1 = QCapacity Q" "QSize Q1 = QSize Q + 1"
      using Enqueue_ok [OF Cons.prems] by blast
    have "nat (QCapacity Q - QSize Q) = Suc (nat (QCapacity Q - (QSize Q + 1)))" using \<open>QSize Q < QCapacity Q\<close> by simp
    then show ?thesis using Cons.IH [OF Cons.prems(1) Q1(2)] Q1 by auto
  qed
qed simp

section \<open>Properties\<close>

text \<open>The stack refines a list of at most \<open>n\<close> elements, if it is emptied first: for every sequence of calls no access leaves
  the array, each call returns what the list gives (0 from an empty stack), and a push onto a full stack changes nothing.\<close>

theorem array_stack_refines:
  assumes "sfull IsFull" "n \<le> length cells"
  shows "\<exists>S. sruns IsFull cs (SMakeEmpty (CreateStack g cells n)) = Some (fst (sspecs n cs []), S) \<and> stack_is S (snd (sspecs n cs []))"
proof -
  have "stack_is (SMakeEmpty (CreateStack g cells n)) []" "SCapacity (SMakeEmpty (CreateStack g cells n)) = int n" using assms(2) by (simp_all add: stack_is_def SMakeEmpty_def CreateStack_def)
  then show ?thesis using sruns_spec [OF assms(1)] by blast
qed

theorem array_stack_refines_witness:
  "\<exists>S. sruns (\<lambda>S. TopOfStack S + 1 = SCapacity S) [SPush 7, SPush 8, SPush 9, STopAndPop] (SMakeEmpty (CreateStack 99 [0, 0] 2)) = Some ([0, 0, 0, 8], S) \<and> stack_is S [7]"
  using array_stack_refines [of "\<lambda>S. TopOfStack S + 1 = SCapacity S" 2 "[0, 0]" "[SPush 7, SPush 8, SPush 9, STopAndPop]" 99] by (simp add: sfull_def)

text \<open>\<open>CreateStack\<close> forgets to empty the stack: what the first \<open>Push\<close> does depends on the memory that \<open>malloc\<close> returns, and it may write outside the array.\<close>

theorem create_stack_not_empty:
  assumes "sfull IsFull" "int n \<le> g"
  shows "Push IsFull X (CreateStack g cells n) = None"
  using assms by (auto simp: Push_def CreateStack_def sfull_def put_def wr_def)

theorem create_stack_not_empty_witness:
  "Push (\<lambda>S. TopOfStack S + 1 = SCapacity S) 7 (CreateStack 5 [0, 0, 0, 0, 0] 5) = None"
  by (rule create_stack_not_empty) (simp_all add: sfull_def)

text \<open>The circular queue keeps the order: an emptied queue takes the elements in order until it is full, refuses the others, and never
  writes outside its array.\<close>

theorem array_queue_keeps_order:
  assumes "qfull IsFull" "0 < QCapacity Q" "int (length (QArray Q)) = QCapacity Q"
  shows "\<exists>Q'. enqueues IsFull Xs (QMakeEmpty Q) = Some Q' \<and> qlist Q' = take (nat (QCapacity Q)) Xs"
proof -
  have "queue_ok (QMakeEmpty Q)" "qlist (QMakeEmpty Q) = []" using assms(2,3) by (simp_all add: queue_ok_def QMakeEmpty_def qlist_def)
  then show ?thesis using enqueues_ok [OF assms(1), of "QMakeEmpty Q" Xs] by (auto simp: QMakeEmpty_def)
qed

theorem array_queue_keeps_order_witness:
  "\<exists>Q'. enqueues (\<lambda>Q. QSize Q = QCapacity Q) [7, 8, 9] (QMakeEmpty \<lparr>QCapacity = 2, Front = 0, Rear = 0, QSize = 0, QArray = [0, 0]\<rparr>) = Some Q' \<and> qlist Q' = [7, 8]"
  using array_queue_keeps_order [of "\<lambda>Q. QSize Q = QCapacity Q" "\<lparr>QCapacity = 2, Front = 0, Rear = 0, QSize = 0, QArray = [0, 0]\<rparr>" "[7, 8, 9]"] by (simp add: qfull_def)

end
