(* ===== verification/Binomial_Queue.thy ===== *)
theory Binomial_Queue
  imports Prelude "HOL-Library.Multiset"
begin

text \<open>
  The binomial queue of \<open>data_structure_and_algorithm/priority_queue/binqueue/binominal_queue.c\<close>. The file does not compile, and what is modelled is its repair: \<open>h2->thetrees[i]\<close> for
  \<open>t2->thetrees[i]\<close> in line 34, \<open>t1\<close> and \<open>t2\<close> for \<open>T1\<close> and \<open>T2\<close> in line 35, and \<open>h1->thetrees[i] = NULL\<close> and \<open>h2->thetrees[i] = NULL\<close> for the assignments to a whole
  array in lines 53 and 57. Everything else is as written. \<open>initialize\<close>, \<open>isempty\<close>, \<open>infinity\<close> and the number of
  trees are not in the program and are parameters. A null pointer that is followed, an index outside the array, the use of a variable that was never set and an overflow
  of \<open>int\<close> are faults, \<open>None\<close>.
\<close>

section \<open>The code\<close>

datatype bintree = NULL | Binnode int bintree bintree

text \<open>A result of \<open>int\<close> arithmetic, if it fits.\<close>

definition fits :: "int \<Rightarrow> int option" where
  "fits x = (if - (2 ^ 31) \<le> x \<and> x < 2 ^ 31 then Some x else None)"

lemma fits_double: "fits (2 ^ i * 2) = (if (2 :: int) ^ Suc i < 2 ^ 31 then Some (2 ^ Suc i) else None)"
proof -
  have "- (2 ^ 31) \<le> (0 :: int)" "(0 :: int) \<le> 2 ^ Suc i" by simp_all
  then have "- (2 ^ 31) \<le> (2 :: int) ^ Suc i" by (rule order_trans)
  moreover have "(2 :: int) ^ i * 2 = 2 ^ Suc i" by simp
  ultimately show ?thesis by (simp only: fits_def simp_thms)
qed

record collection =
  currentsize :: int
  thetrees :: "bintree list"

function combine_trees :: "bintree \<Rightarrow> bintree \<Rightarrow> bintree option" where
  "combine_trees (Binnode e1 l1 s1) (Binnode e2 l2 s2) =
     (if e1 > e2 then combine_trees (Binnode e2 l2 s2) (Binnode e1 l1 s1)
      else Some (Binnode e1 (Binnode e2 l2 l1) s1))"
| "combine_trees NULL t = None"
| "combine_trees (Binnode e1 l1 s1) NULL = None"
  by pat_completeness auto
termination by (relation "measure (\<lambda>(t1, t2). case t1 of Binnode e1 _ _ \<Rightarrow> (case t2 of Binnode e2 _ _ \<Rightarrow> if e1 > e2 then 1 else 0 | _ \<Rightarrow> 0) | _ \<Rightarrow> 0)") auto

text \<open>The \<open>switch\<close>: the new trees of the two queues and the new carry.\<close>

definition merge_slot :: "bintree \<Rightarrow> bintree \<Rightarrow> bintree \<Rightarrow> (bintree \<times> bintree \<times> bintree) option" where
  "merge_slot t1 t2 carry =
     (case (t1 \<noteq> NULL, t2 \<noteq> NULL, carry \<noteq> NULL) of
        (False, False, False) \<Rightarrow> Some (t1, t2, carry)
      | (True, False, False) \<Rightarrow> Some (t1, t2, carry)
      | (False, True, False) \<Rightarrow> Some (t2, NULL, carry)
      | (False, False, True) \<Rightarrow> Some (carry, t2, NULL)
      | (True, True, False) \<Rightarrow> do { c \<leftarrow> combine_trees t1 t2; Some (NULL, NULL, c) }
      | (True, False, True) \<Rightarrow> do { c \<leftarrow> combine_trees t1 carry; Some (NULL, t2, c) }
      | (False, True, True) \<Rightarrow> do { c \<leftarrow> combine_trees t2 carry; Some (t1, NULL, c) }
      | (True, True, True) \<Rightarrow> do { c \<leftarrow> combine_trees t1 t2; Some (carry, NULL, c) })"

partial_function (option) merge_loop :: "int \<Rightarrow> nat \<Rightarrow> int \<Rightarrow> bintree list \<Rightarrow> bintree list \<Rightarrow> bintree \<Rightarrow> (bintree list \<times> bintree list) option" where
  "merge_loop n i j a b carry =
     (if j \<le> n then do {
        t1 \<leftarrow> rd a i;
        t2 \<leftarrow> rd b i;
        (t1, t2, carry) \<leftarrow> merge_slot t1 t2 carry;
        j \<leftarrow> fits (j * 2);
        merge_loop n (i + 1) j (a[i := t1]) (b[i := t2]) carry }
      else Some (a, b))"

text \<open>If the sizes exceed the capacity there is only a message. The queues after the merge.\<close>

definition merge :: "collection \<Rightarrow> collection \<Rightarrow> (collection \<times> collection) option" where
  "merge h1 h2 = do {
     n \<leftarrow> fits (currentsize h1 + currentsize h2);
     (a, b) \<leftarrow> merge_loop n 0 1 (thetrees h1) (thetrees h2) NULL;
     Some (h1\<lparr>currentsize := n, thetrees := a\<rparr>, h2\<lparr>thetrees := b\<rparr>) }"

definition min_step :: "bintree list \<Rightarrow> nat \<Rightarrow> int \<times> nat option \<Rightarrow> int \<times> nat option" where
  "min_step ts i m = (case ts ! i of Binnode e l s \<Rightarrow> if e < fst m then (e, Some i) else m | NULL \<Rightarrow> m)"

definition find_min :: "int \<Rightarrow> bintree list \<Rightarrow> int \<times> nat option" where
  "find_min infinity ts = fold (min_step ts) [0..<length ts] (infinity, None)"

text \<open>The loop with \<open>j\<close> going down; \<open>Suc j\<close> trees are left.\<close>

fun spread :: "nat \<Rightarrow> bintree \<Rightarrow> bintree list \<Rightarrow> bintree list option" where
  "spread 0 deletedtree ts = Some ts"
| "spread (Suc j) (Binnode e l s) ts = do { ts \<leftarrow> wr ts j (Binnode e l NULL); spread j s ts }"
| "spread (Suc j) NULL ts = None"

definition deletemin :: "int \<Rightarrow> (collection \<Rightarrow> bool) \<Rightarrow> collection \<Rightarrow> collection \<Rightarrow> (int \<times> collection) option" where
  "deletemin infinity isempty initialize h =
     (if isempty h then Some (- infinity, h)
      else do {
        let (minitem, mintree) = find_min infinity (thetrees h);
        mintree \<leftarrow> mintree;
        deletedtree \<leftarrow> rd (thetrees h) mintree;
        deletedtree \<leftarrow> (case deletedtree of NULL \<Rightarrow> None | Binnode e l s \<Rightarrow> Some l);
        ts \<leftarrow> spread mintree deletedtree (thetrees initialize);
        bit \<leftarrow> fits (push_bit mintree 1);
        let deletedqueue = initialize\<lparr>currentsize := bit - 1, thetrees := ts\<rparr>;
        n \<leftarrow> fits (currentsize h - (currentsize deletedqueue + 1));
        let h = h\<lparr>thetrees := (thetrees h)[mintree := NULL], currentsize := n\<rparr>;
        (h, deletedqueue) \<leftarrow> merge h deletedqueue;
        Some (minitem, h) })"

section \<open>Binomial trees\<close>

fun elems :: "bintree \<Rightarrow> int multiset" where
  "elems NULL = {#}"
| "elems (Binnode e l s) = add_mset e (elems l + elems s)"

text \<open>\<open>children k e t\<close>: a list of siblings with the orders \<open>k - 1\<close> down to 0, in heap order below \<open>e\<close>.\<close>

fun children :: "nat \<Rightarrow> int \<Rightarrow> bintree \<Rightarrow> bool" where
  "children 0 e t = (t = NULL)"
| "children (Suc k) e NULL = False"
| "children (Suc k) e (Binnode x l s) = (e \<le> x \<and> children k x l \<and> children k e s)"

fun btree :: "nat \<Rightarrow> bintree \<Rightarrow> bool" where
  "btree k NULL = False"
| "btree k (Binnode e l s) = (s = NULL \<and> children k e l)"

lemma children_size: "children k e t \<Longrightarrow> size (elems t) + 1 = 2 ^ k"
proof (induction k e t rule: children.induct)
  case (3 k e x l s)
  then show ?case by simp
qed auto

lemma btree_size: "btree k t \<Longrightarrow> size (elems t) = 2 ^ k"
  using children_size by (cases t) fastforce+

lemma children_min: "children k e t \<Longrightarrow> y \<in># elems t \<Longrightarrow> e \<le> y"
  by (induction k e t rule: children.induct) fastforce+

lemma combine_trees_btree:
  assumes "btree k t1" "btree k t2"
  shows "\<exists>t. combine_trees t1 t2 = Some t \<and> btree (Suc k) t \<and> elems t = elems t1 + elems t2"
proof -
  obtain e1 l1 e2 l2 where t: "t1 = Binnode e1 l1 NULL" "t2 = Binnode e2 l2 NULL" "children k e1 l1" "children k e2 l2"
    using assms by (cases t1; cases t2) auto
  then show ?thesis by (cases "e1 > e2") auto
qed

text \<open>An empty slot or a tree of the right order.\<close>

definition slot_ok :: "nat \<Rightarrow> bintree \<Rightarrow> bool" where
  "slot_ok k t \<longleftrightarrow> t = NULL \<or> btree k t"

lemma slot_ok_NULL [simp]: "slot_ok k NULL"
  by (simp add: slot_ok_def)

lemma merge_slot_ok:
  assumes "slot_ok k t1" "slot_ok k t2" "slot_ok k c"
  shows "\<exists>u1 u2 d. merge_slot t1 t2 c = Some (u1, u2, d) \<and> slot_ok k u1 \<and> u2 = NULL \<and> slot_ok (Suc k) d \<and>
    elems u1 + elems d = elems t1 + elems t2 + elems c"
proof -
  have 1: "\<exists>t. combine_trees t1 t2 = Some t \<and> btree (Suc k) t \<and> elems t = elems t1 + elems t2" if "t1 \<noteq> NULL" "t2 \<noteq> NULL" 
    using assms that by (intro combine_trees_btree) (auto simp: slot_ok_def)
  have 2: "\<exists>t. combine_trees t1 c = Some t \<and> btree (Suc k) t \<and> elems t = elems t1 + elems c" if "t1 \<noteq> NULL" "c \<noteq> NULL" 
    using assms that by (intro combine_trees_btree) (auto simp: slot_ok_def)
  have 3: "\<exists>t. combine_trees t2 c = Some t \<and> btree (Suc k) t \<and> elems t = elems t2 + elems c" if "t2 \<noteq> NULL" "c \<noteq> NULL" 
    using assms that by (intro combine_trees_btree) (auto simp: slot_ok_def)
  show ?thesis
  proof (cases "t1 = NULL"; cases "t2 = NULL"; cases "c = NULL")
  qed (use 1 2 3 assms in \<open>auto simp: merge_slot_def slot_ok_def ac_simps\<close>)
qed

section \<open>Queues\<close>

definition all_elems :: "bintree list \<Rightarrow> int multiset" where
  "all_elems ts = sum_list (map elems ts)"

definition slots_ok :: "bintree list \<Rightarrow> bool" where
  "slots_ok ts \<longleftrightarrow> (\<forall>i < length ts. slot_ok i (ts ! i))"

definition queue_ok :: "nat \<Rightarrow> collection \<Rightarrow> bool" where
  "queue_ok m h \<longleftrightarrow> length (thetrees h) = m \<and> slots_ok (thetrees h) \<and> currentsize h = int (size (all_elems (thetrees h)))"

abbreviation "contents h \<equiv> all_elems (thetrees h)"

lemma all_elems_upd: "i < length ts \<Longrightarrow> all_elems (ts[i := t]) + elems (ts ! i) = all_elems ts + elems t"
  unfolding all_elems_def by (induction ts arbitrary: i) (auto simp: nth_Cons ac_simps split: nat.splits)

lemma all_elems_nth: "i < length ts \<Longrightarrow> elems (ts ! i) \<subseteq># all_elems ts"
  unfolding all_elems_def by (induction ts arbitrary: i) (auto simp: nth_Cons subset_mset.add_increasing subset_mset.add_increasing2 split: nat.splits)

lemma all_elems_in: "y \<in># all_elems ts \<Longrightarrow> \<exists>i < length ts. y \<in># elems (ts ! i)"
proof (induction ts)
  case (Cons t ts)
  then consider "y \<in># elems t" | "y \<in># all_elems ts" by (auto simp: all_elems_def)
  then show ?case using Cons.IH by cases (auto intro: exI [of _ 0] exI [of _ "Suc _"])
qed (simp add: all_elems_def)

lemma all_elems_NULL: "(\<forall>i < length ts. ts ! i = NULL) \<Longrightarrow> all_elems ts = {#}"
  unfolding all_elems_def by (induction ts) (auto, force)

lemma slots_ok_upd: "slots_ok ts \<Longrightarrow> slot_ok i t \<Longrightarrow> slots_ok (ts[i := t])"
proof -
  assume a: "slots_ok ts" "slot_ok i t"
  have "slot_ok k (ts[i := t] ! k)" if "k < length ts" for k using a that by (cases "k = i") (auto simp: slots_ok_def)
  then show ?thesis by (simp add: slots_ok_def)
qed

text \<open>The loop of \<open>merge\<close>: what is left to do fits below \<open>n\<close>, so the slots from \<open>i\<close> on are empty when it ends.\<close>

lemma merge_loop_ok:
  assumes "slots_ok a" "slots_ok b" "slot_ok i c" "length a = m" "length b = m" "\<forall>k < i. k < m \<longrightarrow> b ! k = NULL" "size (all_elems a + all_elems b + elems c) = n"
  shows "if n < 2 ^ m \<and> n < 2 ^ 30
    then \<exists>a' b'. merge_loop (int n) i (2 ^ i) a b c = Some (a', b') \<and> length a' = m \<and> slots_ok a' \<and> all_elems a' = all_elems a + all_elems b + elems c
    else i \<le> m \<and> i \<le> 30 \<longrightarrow> merge_loop (int n) i (2 ^ i) a b c = None"
  using assms
proof (induction "Suc n - 2 ^ i" arbitrary: i a b c rule: less_induct)
  case less
  show ?case
  proof (cases "2 ^ i \<le> n")
    case False
    have none: "t = NULL" if "slot_ok k t" "elems t \<subseteq># all_elems a + all_elems b + elems c" "i \<le> k" for k t
    proof (rule ccontr)
      assume "t \<noteq> NULL"
      then have "size (elems t) = 2 ^ k" using that(1) btree_size by (auto simp: slot_ok_def)
      moreover have "size (elems t) \<le> n" using size_mset_mono [OF that(2)] less.prems(7) by simp
      moreover have "(2 :: nat) ^ i \<le> 2 ^ k" using that(3) by (simp add: power_increasing)
      ultimately show False using False by simp
    qed
    have "c = NULL" using none [of i c] less.prems(3) by (simp add: subset_mset.add_increasing)
    moreover have "b ! k = NULL" if "k < m" for k
    proof (cases "k < i")
      case no: False
      have "elems (b ! k) \<subseteq># all_elems a + all_elems b + elems c" using all_elems_nth [of k b] that less.prems(5) by (metis subset_mset.add_increasing subset_mset.add_increasing2 subset_mset.zero_le)
      then show ?thesis using none [of k "b ! k"] no that less.prems(2,5) by (auto simp: slots_ok_def)
    qed (use that less.prems(6) in auto)
    ultimately have e: "all_elems b = {#}" "c = NULL" using less.prems(5) by (auto intro: all_elems_NULL)
    have "merge_loop (int n) i (2 ^ i) a b c = Some (a, b)" using False by (subst merge_loop.simps) (simp flip: of_nat_power)
    moreover have pk: "i \<le> k \<Longrightarrow> n < 2 ^ k" for k using False by (meson linorder_not_le less_le_trans one_le_numeral power_increasing)
    ultimately show ?thesis using less.prems(1,4) e pk [of 30] by auto
  next
    case True
    show ?thesis
    proof (cases "i < m")
      case no: False
      have "\<not> n < 2 ^ m" using no True by (meson le_less_trans not_le one_le_numeral order_trans power_increasing)
      moreover have "merge_loop (int n) i (2 ^ i) a b c = None" using True no less.prems(4) by (subst merge_loop.simps) (simp flip: of_nat_power)
      ultimately show ?thesis by simp
    next
      case i: True
      obtain u1 u2 d where u: "merge_slot (a ! i) (b ! i) c = Some (u1, u2, d)" "slot_ok i u1" "u2 = NULL" "slot_ok (Suc i) d"
        "elems u1 + elems d = elems (a ! i) + elems (b ! i) + elems c"
        using merge_slot_ok [of i "a ! i" "b ! i" c] less.prems i by (auto simp: slots_ok_def)
      let ?a = "a[i := u1]" and ?b = "b[i := u2]"
      have guard: "(2 :: int) ^ i \<le> int n" using True by (simp flip: of_nat_power)
      have step: "merge_loop (int n) i (2 ^ i) a b c = (if (2 :: int) ^ Suc i < 2 ^ 31 then merge_loop (int n) (Suc i) (2 ^ Suc i) ?a ?b d else None)"
        using guard i u(1) less.prems(4,5) fits_double [of i] by (subst merge_loop.simps) (simp del: power_Suc)
      have fit: "(2 :: int) ^ Suc i < 2 ^ 31 \<longleftrightarrow> i < 30" by (subst power_strict_increasing_iff) auto
      have small: "i < 30" if "n < 2 ^ 30"
      proof -
        have "(2 :: nat) ^ i < 2 ^ 30" using True that by simp
        then show ?thesis by (subst (asm) power_strict_increasing_iff) auto
      qed
      have a: "all_elems ?a + elems (a ! i) = all_elems a + elems u1" and b: "all_elems ?b + elems (b ! i) = all_elems b"
        using all_elems_upd [of i a u1] all_elems_upd [of i b u2] i less.prems(4,5) u(3) by auto
      have "all_elems ?a + all_elems ?b + elems d + (elems (a ! i) + elems (b ! i)) = (all_elems ?a + elems (a ! i)) + (all_elems ?b + elems (b ! i)) + elems d" by (simp add: ac_simps)
      also have "\<dots> = all_elems a + all_elems b + (elems u1 + elems d)" unfolding a b by (simp add: ac_simps)
      also have "\<dots> = all_elems a + all_elems b + elems c + (elems (a ! i) + elems (b ! i))" unfolding u(5) by (simp add: ac_simps)
      finally have e: "all_elems ?a + all_elems ?b + elems d = all_elems a + all_elems b + elems c" by simp
      have dec: "Suc n - 2 ^ Suc i < Suc n - 2 ^ i" using True by (simp add: diff_less_mono2)
      have "\<forall>k < Suc i. k < m \<longrightarrow> ?b ! k = NULL" using less.prems(5,6) i u(3) by (auto simp: nth_list_update less_Suc_eq)
      moreover have "slots_ok ?a" "slots_ok ?b" using less.prems(1,2) u(2,3) by (auto intro: slots_ok_upd)
      ultimately have IH: "if n < 2 ^ m \<and> n < 2 ^ 30
        then \<exists>a' b'. merge_loop (int n) (Suc i) (2 ^ Suc i) ?a ?b d = Some (a', b') \<and> length a' = m \<and> slots_ok a' \<and> all_elems a' = all_elems ?a + all_elems ?b + elems d
        else Suc i \<le> m \<and> Suc i \<le> 30 \<longrightarrow> merge_loop (int n) (Suc i) (2 ^ Suc i) ?a ?b d = None"
        using less.hyps [OF dec, of ?a ?b d] less.prems(4,5,7) u(4) e by (simp del: power_Suc)
      show ?thesis
      proof (cases "n < 2 ^ m \<and> n < 2 ^ 30")
        case True
        then show ?thesis using IH small unfolding step e fit by (simp del: power_Suc)
      next
        case False
        then show ?thesis using IH i unfolding step e fit by (simp only: if_False if_cancel Suc_le_eq) simp
      qed
    qed
  qed
qed

lemma merge_queues:
  assumes "queue_ok m h1" "queue_ok m h2"
  shows "if size (contents h1) + size (contents h2) < 2 ^ m \<and> size (contents h1) + size (contents h2) < 2 ^ 30
    then \<exists>h1' h2'. merge h1 h2 = Some (h1', h2') \<and> queue_ok m h1' \<and> contents h1' = contents h1 + contents h2
    else merge h1 h2 = None"
proof -
  let ?n = "size (contents h1) + size (contents h2)"
  have n: "currentsize h1 + currentsize h2 = int ?n" using assms by (simp add: queue_ok_def)
  have "merge h1 h2 = (if ?n < 2 ^ 31 then do {
      (a, b) \<leftarrow> merge_loop (int ?n) 0 (2 ^ 0) (thetrees h1) (thetrees h2) NULL;
      Some (h1\<lparr>currentsize := int ?n, thetrees := a\<rparr>, h2\<lparr>thetrees := b\<rparr>) } else None)"
    unfolding merge_def n by (simp add: fits_def)
  moreover note merge_loop_ok [of "thetrees h1" "thetrees h2" 0 NULL m ?n]
  ultimately show ?thesis using assms by (auto simp: queue_ok_def split: if_splits)
qed

text \<open>The search for the tree with the smallest root.\<close>

definition min_so_far :: "bintree list \<Rightarrow> int \<Rightarrow> nat \<Rightarrow> int \<times> nat option \<Rightarrow> bool" where
  "min_so_far ts infinity n m \<longleftrightarrow> (\<forall>k < n. \<forall>x l s. ts ! k = Binnode x l s \<longrightarrow> fst m \<le> x) \<and>
     (snd m = None \<longrightarrow> fst m = infinity) \<and> (\<forall>i. snd m = Some i \<longrightarrow> i < n \<and> (\<exists>l s. ts ! i = Binnode (fst m) l s))"

lemma min_step_so_far: "min_so_far ts infinity n m \<Longrightarrow> min_so_far ts infinity (Suc n) (min_step ts n m)"
  by (cases "ts ! n") (force simp: min_so_far_def min_step_def less_Suc_eq)+

lemma find_min_upto: "min_so_far ts infinity n (fold (min_step ts) [0..<n] (infinity, None))"
  by (induction n) (simp_all add: min_so_far_def [of _ _ 0] min_step_so_far)

lemma find_min_root:
  assumes "slots_ok ts" "y \<in># all_elems ts" "\<forall>y \<in># all_elems ts. y < infinity"
  shows "\<exists>e i l. find_min infinity ts = (e, Some i) \<and> i < length ts \<and> ts ! i = Binnode e l NULL \<and> children i e l \<and> (\<forall>y \<in># all_elems ts. e \<le> y)"
proof -
  obtain e o' where e: "find_min infinity ts = (e, o')" "\<forall>k < length ts. \<forall>x l s. ts ! k = Binnode x l s \<longrightarrow> e \<le> x"
    "o' = None \<longrightarrow> e = infinity" "\<forall>i. o' = Some i \<longrightarrow> i < length ts \<and> (\<exists>l s. ts ! i = Binnode e l s)"
    using find_min_upto [of ts infinity "length ts"] unfolding find_min_def [symmetric] by (cases "find_min infinity ts") (auto simp: min_so_far_def)
  have le: "e \<le> z" if z: "z \<in># all_elems ts" for z
  proof -
    obtain k where k: "k < length ts" "z \<in># elems (ts ! k)" using all_elems_in [OF z] by blast
    then obtain x l where x: "ts ! k = Binnode x l NULL" "children k x l" using assms(1) by (cases "ts ! k") (auto simp: slots_ok_def slot_ok_def)
    then have "x \<le> z" using k(2) children_min [OF x(2)] by auto
    then show ?thesis using e(2) k(1) x(1) by fastforce
  qed
  then obtain i where i: "o' = Some i" using e(3) assms(2,3) by force
  then obtain l s where l: "i < length ts" "ts ! i = Binnode e l s" using e(4) by blast
  then have "s = NULL" "children i e l" using assms(1) by (auto simp: slots_ok_def slot_ok_def)
  then show ?thesis using e(1) i l le by auto
qed

lemma spread_ok:
  "children k e t \<Longrightarrow> k \<le> length ts \<Longrightarrow> (\<forall>j < k. ts ! j = NULL) \<Longrightarrow>
   \<exists>ts'. spread k t ts = Some ts' \<and> length ts' = length ts \<and> (\<forall>j < k. btree j (ts' ! j)) \<and> (\<forall>j. k \<le> j \<longrightarrow> ts' ! j = ts ! j) \<and> all_elems ts' = all_elems ts + elems t"
proof (induction k arbitrary: t ts)
  case (Suc k)
  then obtain x l s where t: "t = Binnode x l s" "children k x l" "children k e s" by (cases t) auto
  let ?ts = "ts[k := Binnode x l NULL]"
  have a: "all_elems ?ts = all_elems ts + elems (Binnode x l NULL)" using all_elems_upd [of k ts "Binnode x l NULL"] Suc.prems by simp
  have "k \<le> length ?ts" "\<forall>j < k. ?ts ! j = NULL" using Suc.prems by auto
  then obtain ts' where ts': "spread k s ?ts = Some ts'" "length ts' = length ts" "\<forall>j < k. btree j (ts' ! j)" "\<forall>j. k \<le> j \<longrightarrow> ts' ! j = ?ts ! j" "all_elems ts' = all_elems ?ts + elems s"
    using Suc.IH [OF t(3), of ?ts] unfolding length_list_update by blast
  have "btree j (ts' ! j)" if "j < Suc k" for j using that ts'(3,4) t(2) Suc.prems(2) by (cases "j = k") auto
  moreover have "ts' ! j = ts ! j" if "Suc k \<le> j" for j using that ts'(4) by auto
  moreover have "spread (Suc k) t ts = Some ts'" using t(1) ts'(1) Suc.prems(2) by simp
  ultimately show ?case using ts'(2,5) a t(1) by (auto simp: ac_simps)
qed simp

lemma slots_size: "slots_ok ts \<Longrightarrow> size (all_elems ts) < 2 ^ length ts"
proof (induction ts rule: rev_induct)
  case (snoc t ts)
  have "slots_ok ts" "slot_ok (length ts) t" using snoc.prems by (auto simp: slots_ok_def nth_append dest: spec [of _ "length ts"] split: if_splits)
  moreover from this(2) have "size (elems t) \<le> 2 ^ length ts" using btree_size by (auto simp: slot_ok_def)
  ultimately show ?case using snoc.IH by (auto simp: all_elems_def)
qed (simp add: all_elems_def)

section \<open>Properties\<close>

text \<open>C23: Merging two binomial queues (with the repairs of lines 34, 35, 53 and 57 named above) is binary addition: if the trees fit into the array and there are fewer
  than \<open>2 ^ 30\<close> elements, the first queue has the elements of both and is again a
  binomial queue. If they do not fit, the message about the capacity does not stop the function, and it reads behind the array of trees; with \<open>2 ^ 30\<close> or more
  elements \<open>j *= 2\<close> or \<open>currentsize\<close> overflows.\<close>

theorem binqueue_merge:
  assumes "queue_ok m h1" "queue_ok m h2"
  shows "if size (contents h1) + size (contents h2) < 2 ^ m \<and> size (contents h1) + size (contents h2) < 2 ^ 30
    then \<exists>h1' h2'. merge h1 h2 = Some (h1', h2') \<and> queue_ok m h1' \<and> contents h1' = contents h1 + contents h2
    else merge h1 h2 = None"
  using merge_queues [OF assms] .

definition single :: "nat \<Rightarrow> int \<Rightarrow> collection" where
  "single m x = \<lparr>currentsize = 1, thetrees = Binnode x NULL NULL # replicate (m - 1) NULL\<rparr>"

lemma single_ok: "0 < m \<Longrightarrow> queue_ok m (single m x) \<and> contents (single m x) = {#x#}"
proof -
  have "all_elems (Binnode x NULL NULL # replicate (m - 1) NULL) = {#x#}" using all_elems_NULL [of "replicate (m - 1) NULL"] by (simp add: all_elems_def)
  then show "0 < m \<Longrightarrow> ?thesis" by (auto simp: queue_ok_def single_def slots_ok_def nth_Cons slot_ok_def split: nat.splits)
qed

theorem binqueue_merge_witness:
  "\<exists>h1' h2'. merge (single 4 7) (single 4 5) = Some (h1', h2') \<and> contents h1' = {#7, 5#}"
  using binqueue_merge [of 4 "single 4 7" "single 4 5"] single_ok [of 4] by auto

text \<open>C22: \<open>deletemin\<close> is right, with the same repairs in \<open>merge\<close>: from a queue that is not empty and has at most \<open>2 ^ 30\<close> elements, all below \<open>infinity\<close>, it takes one
  smallest element, returns it, and leaves a binomial queue with the other elements; no step faults or overflows.\<close>

theorem binqueue_deletemin:
  assumes "queue_ok m h" "contents h \<noteq> {#}" "\<forall>y \<in># contents h. y < infinity" "size (contents h) \<le> 2 ^ 30"
    and "\<forall>h. isempty h \<longleftrightarrow> currentsize h = 0" "initialize = \<lparr>currentsize = 0, thetrees = replicate m NULL\<rparr>"
  shows "\<exists>e h'. deletemin infinity isempty initialize h = Some (e, h') \<and> queue_ok m h' \<and> e \<in># contents h \<and> (\<forall>y \<in># contents h. e \<le> y) \<and> contents h' = contents h - {#e#}"
proof -
  have h: "length (thetrees h) = m" "slots_ok (thetrees h)" "currentsize h = int (size (contents h))" using assms(1) by (auto simp: queue_ok_def)
  obtain e i l where e: "find_min infinity (thetrees h) = (e, Some i)" "i < m" "thetrees h ! i = Binnode e l NULL" "children i e l" "\<forall>y \<in># contents h. e \<le> y"
    using find_min_root [OF h(2) _ assms(3)] assms(2) h(1) by (metis multiset_nonemptyE)
  obtain ts where ts: "spread i l (replicate m NULL) = Some ts" "length ts = m" "\<forall>j < i. btree j (ts ! j)" "\<forall>j. i \<le> j \<longrightarrow> ts ! j = replicate m NULL ! j"
    "all_elems ts = all_elems (replicate m NULL) + elems l" using spread_ok [OF e(4), of "replicate m NULL"] e(2) by auto
  have tse: "all_elems ts = elems l" using ts(5) by (simp add: all_elems_NULL)
  have "slot_ok j (ts ! j)" if "j < m" for j using that ts(3,4) by (cases "j < i") (auto simp: slot_ok_def)
  then have "slots_ok ts" using ts(2) by (simp add: slots_ok_def)
  moreover have sz: "size (elems l) + 1 = 2 ^ i" by (rule children_size [OF e(4)])
  then have szi: "int (size (elems l)) = 2 ^ i - 1" by (metis add_diff_cancel_right' of_nat_1 of_nat_add of_nat_numeral of_nat_power)
  ultimately have dq: "queue_ok m (initialize\<lparr>currentsize := 2 ^ i - 1, thetrees := ts\<rparr>)" using ts(2) tse by (simp add: queue_ok_def)
  let ?h = "h\<lparr>thetrees := (thetrees h)[i := NULL], currentsize := currentsize h - (2 ^ i - 1 + 1)\<rparr>"
  have c: "contents h = contents ?h + elems (Binnode e l NULL)" using all_elems_upd [of i "thetrees h" NULL] e(2,3) h(1) by simp
  have "currentsize ?h = int (size (contents ?h))" using c h(3) szi by simp
  then have ok: "queue_ok m ?h" using h(1,2) by (simp add: queue_ok_def slots_ok_upd)
  have "size (contents ?h) + size (all_elems ts) < 2 ^ m" "size (contents ?h) + size (all_elems ts) < 2 ^ 30" using slots_size [OF h(2)] h(1) c tse assms(4) by simp_all
  then obtain h' d' where h': "merge ?h (initialize\<lparr>currentsize := 2 ^ i - 1, thetrees := ts\<rparr>) = Some (h', d')" "queue_ok m h'" "contents h' = contents ?h + elems l"
    using merge_queues [OF ok dq] tse by auto
  have bit: "fits (push_bit i 1) = Some (2 ^ i)" and sub: "fits (currentsize h - (2 ^ i - 1 + 1)) = Some (currentsize h - (2 ^ i - 1 + 1))"
    using c h(3) szi assms(4) by (simp_all add: fits_def push_bit_eq_mult)
  have "\<not> isempty h" using assms(2,5) h(3) by simp
  then have "deletemin infinity isempty initialize h = Some (e, h')"
    using e(1-3) ts(1) h'(1) assms(6) h(1) bit sub by (simp add: deletemin_def Let_def)
  moreover have "contents h' = contents h - {#e#}" using h'(3) c by simp
  moreover have "e \<in># contents h" using c by simp
  ultimately show ?thesis using h'(2) e(5) by blast
qed

theorem binqueue_deletemin_witness:
  "\<exists>h'. deletemin 1000 (\<lambda>h. currentsize h = 0) \<lparr>currentsize = 0, thetrees = replicate 4 NULL\<rparr> (single 4 7) = Some (7, h') \<and> contents h' = {#}"
  using binqueue_deletemin [of 4 "single 4 7" 1000 "\<lambda>h. currentsize h = 0" "\<lparr>currentsize = 0, thetrees = replicate 4 NULL\<rparr>"] single_ok [of 4 7] by auto

end
