(* ===== verification/Random_Range.thy ===== *)
theory Random_Range
  imports Prelude
begin

text \<open>
  The random numbers of \<open>clrs/exercises/05.1.2random_ab.c\<close>. The results of \<open>biase_random\<close>, zeros and ones, are a list; \<open>None\<close> is the result when the list ends too early
  or when the shifted number no longer is an \<open>int\<close>.
\<close>

section \<open>The code\<close>

fun random01 :: "int list \<Rightarrow> (int \<times> int list) option" where
  "random01 (x # y # bits) = (if x \<noteq> y then Some (x, bits) else random01 bits)"
| "random01 _ = None"

lemma random01_shorter: "random01 bits = Some (x, bits') \<Longrightarrow> length bits' < length bits"
  by (induction bits rule: random01.induct) (fastforce split: if_splits)+

text \<open>The inner loop, with the final values of \<open>tmp\<close> and \<open>cur\<close>.\<close>

function grow :: "int \<Rightarrow> int \<Rightarrow> int list \<Rightarrow> (int \<times> int \<times> int list) option" where
  "grow b cur bits =
     (case random01 bits of
        None \<Rightarrow> None
      | Some (x, bits') \<Rightarrow>
          let tmp = cur; cur = 2 * cur + x in
          if cur \<ge> 2 ^ 31 then None
          else if cur < b then grow b cur bits'
          else Some (tmp, cur, bits'))"
  by pat_completeness auto
termination by (relation "measure (\<lambda>(b, cur, bits). length bits)") (auto dest: random01_shorter)

declare grow.simps [simp del]

lemma grow_shorter: "grow b cur bits = Some (tmp, cur', bits') \<Longrightarrow> length bits' < length bits"
proof (induction b cur bits rule: grow.induct)
  case (1 b cur bits)
  obtain x bs where r: "random01 bits = Some (x, bs)" using 1(2) by (subst (asm) grow.simps) (auto split: option.splits)
  have l: "length bs < length bits" using random01_shorter [OF r] .
  show ?case
  proof (cases "2 * cur + x < 2 ^ 31 \<and> 2 * cur + x < b")
    case True
    then have "grow b (2 * cur + x) bs = Some (tmp, cur', bits')" using 1(2) r by (simp add: grow.simps [of b cur] Let_def)
    then show ?thesis using 1(1) [OF r refl refl refl] True l by simp
  next
    case False
    then show ?thesis using 1(2) r l by (auto simp: grow.simps [of b cur] Let_def split: if_splits)
  qed
qed

function rounds :: "int \<Rightarrow> int \<Rightarrow> int \<Rightarrow> int list \<Rightarrow> int option" where
  "rounds a b cur bits =
     (case grow b cur bits of
        None \<Rightarrow> None
      | Some (tmp, cur, bits') \<Rightarrow> if tmp > a then Some tmp else rounds a b cur bits')"
  by pat_completeness auto
termination by (relation "measure (\<lambda>(a, b, cur, bits). length bits)") (auto dest: grow_shorter)

declare rounds.simps [simp del]

datatype outcome = Range_error | Returned "int option"

definition crandom :: "int \<Rightarrow> int \<Rightarrow> int list \<Rightarrow> outcome" where
  "crandom a b bits = (if a > b then Range_error else Returned (rounds a b 0 bits))"

section \<open>Which numbers are returned\<close>

definition zeros_ones :: "int list \<Rightarrow> bool" where
  "zeros_ones bits \<longleftrightarrow> set bits \<subseteq> {0, 1}"

lemma random01_bit: "random01 bits = Some (x, bits') \<Longrightarrow> zeros_ones bits \<Longrightarrow> (x = 0 \<or> x = 1) \<and> zeros_ones bits'"
  by (induction bits rule: random01.induct) (auto simp: zeros_ones_def split: if_splits)

lemma grow_range:
  "grow b cur bits = Some (tmp, cur', bits') \<Longrightarrow> zeros_ones bits \<Longrightarrow> 0 \<le> cur \<Longrightarrow>
   zeros_ones bits' \<and> b \<le> cur' \<and> (cur' = 2 * tmp \<or> cur' = 2 * tmp + 1) \<and> 0 \<le> tmp \<and> (if cur < b then tmp < b else b \<le> tmp)"
proof (induction b cur bits rule: grow.induct)
  case (1 b cur bits)
  obtain x bs where r: "random01 bits = Some (x, bs)" using 1(2) by (subst (asm) grow.simps) (auto split: option.splits)
  have x: "x = 0 \<or> x = 1" "zeros_ones bs" using random01_bit [OF r 1(3)] by auto
  show ?case
  proof (cases "2 * cur + x < b")
    case True
    then have "grow b (2 * cur + x) bs = Some (tmp, cur', bits')" using 1(2) r by (subst (asm) grow.simps) (auto simp: Let_def split: if_splits)
    then show ?thesis using 1(1) [OF r refl refl refl] True x 1(2,4) r by (auto simp: grow.simps [of b cur] Let_def split: if_splits)
  next
    case False
    then have "tmp = cur" "cur' = 2 * cur + x" "bits' = bs" using 1(2) r by (auto simp: grow.simps [of b cur] Let_def split: if_splits)
    then show ?thesis using False x 1(4) by auto
  qed
qed

lemma rounds_range:
  "rounds a b cur bits = Some r \<Longrightarrow> zeros_ones bits \<Longrightarrow> 0 \<le> cur \<Longrightarrow> 0 \<le> a \<Longrightarrow> 0 < b \<Longrightarrow> cur < b \<or> cur \<le> 2 * a + 1 \<Longrightarrow>
   a < r \<and> b \<le> 2 * r + 1 \<and> (r < b \<or> r \<le> 2 * a + 1)"
proof (induction a b cur bits rule: rounds.induct)
  case (1 a b cur bits)
  obtain tmp cur' bits' where g: "grow b cur bits = Some (tmp, cur', bits')" using 1(2) by (subst (asm) rounds.simps) (auto split: option.splits)
  note gr = grow_range [OF g 1(3,4)]
  show ?case
  proof (cases "tmp > a")
    case True
    then have "r = tmp" using 1(2) g by (simp add: rounds.simps [of a b cur])
    moreover have "b \<le> 2 * tmp + 1" using gr by auto
    moreover have "tmp < b \<or> tmp \<le> 2 * a + 1"
    proof (cases "cur < b")
      case False
      then have "2 * cur + 1 \<ge> b" "tmp = cur" using g 1(3-6) random01_bit [of bits]
        by (auto simp: grow.simps [of b cur] Let_def split: option.splits if_splits)
      then show ?thesis using 1(7) False by simp
    qed (use gr in auto)
    ultimately show ?thesis using True by simp
  next
    case False
    then have "rounds a b cur' bits' = Some r" using 1(2) g by (simp add: rounds.simps [of a b cur])
    then show ?thesis using 1(1) [OF g refl refl False] gr False 1(5,6) by auto
  qed
qed

section \<open>Properties\<close>

text \<open>The numbers that \<open>crandom\<close> returns are not evenly spread over the range from \<open>a\<close> to \<open>b\<close>: \<open>a\<close> is never returned, nor is
  a number below half of \<open>b\<close>, and numbers above \<open>b\<close>, up to \<open>2 * a + 1\<close>, can be returned because \<open>cur\<close> is not set back.\<close>

theorem crandom_results:
  assumes "zeros_ones bits" "0 \<le> a" "0 < b" "crandom a b bits = Returned (Some r)"
  shows "a < r \<and> b \<le> 2 * r + 1 \<and> (r < b \<or> r \<le> 2 * a + 1)"
  using rounds_range [of a b 0 bits r] assms by (auto simp: crandom_def split: if_splits)

theorem crandom_results_witness:
  "crandom 1 2 [1, 0, 1, 0, 0, 1] = Returned (Some 3) \<and> (1 :: int) < 3"
proof -
  have r: "crandom 1 2 [1, 0, 1, 0, 0, 1] = Returned (Some 3)" by (simp add: crandom_def rounds.simps grow.simps)
  then show ?thesis using crandom_results [of "[1, 0, 1, 0, 0, 1]" 1 2 3] by (simp add: zeros_ones_def)
qed

end
