(* ===== verification/Unix_Conn.thy ===== *)
theory Unix_Conn
  imports C_Library
begin

text \<open>
  Connections with an identity over UNIX domain sockets: \<open>apue.3e/lib/servlisten.c\<close>, \<open>servaccept.c\<close>, \<open>cliconn.c\<close> and the copies \<open>apue/17.3serv_listen.c\<close>, \<open>17.3serv_accept.c\<close>, \<open>17.3cli_conn.c\<close>.
  The copies differ from the library in one call of \<open>malloc\<close>. The state is the directory of names and the open descriptors of a process; what a system call
  answers is an argument. A write behind a buffer is a fault, \<open>None\<close>. The bits of \<open>st_mode\<close> are read as digits: type (by 4096), user (by 64), group and others (below 64).
\<close>

section \<open>The code\<close>

record inode =
  st_mode :: nat
  st_uid :: int
  st_atime :: int
  st_mtime :: int
  st_ctime :: int

record world =
  names :: "string \<Rightarrow> inode option"
  open_fds :: "int set"

definition sun_path_size :: nat where "sun_path_size = 108"

abbreviation "STALE \<equiv> 30 :: int"

definition S_ISSOCK :: "nat \<Rightarrow> bool" where
  "S_ISSOCK m \<longleftrightarrow> m div 4096 mod 16 = 12"

text \<open>\<open>rwx------\<close>\<close>

definition S_RWX_only :: "nat \<Rightarrow> bool" where
  "S_RWX_only m \<longleftrightarrow> \<not> (m mod 64 \<noteq> 0 \<or> m div 64 mod 8 \<noteq> 7)"

definition unlink :: "string \<Rightarrow> world \<Rightarrow> world" where
  "unlink n w = w\<lparr>names := (names w)(n := None)\<rparr>"

definition close_fd :: "int \<Rightarrow> world \<Rightarrow> world" where
  "close_fd fd w = w\<lparr>open_fds := open_fds w - {fd}\<rparr>"

definition open_fd :: "int \<Rightarrow> world \<Rightarrow> world" where
  "open_fd fd w = w\<lparr>open_fds := insert fd (open_fds w)\<rparr>"

text \<open>A successful \<open>bind\<close> makes a socket with the permissions \<open>p\<close> that the file mode creation mask leaves.\<close>

definition bind_name :: "string \<Rightarrow> nat \<Rightarrow> int \<Rightarrow> int \<Rightarrow> world \<Rightarrow> world" where
  "bind_name n p uid now w = w\<lparr>names := (names w)(n \<mapsto> \<lparr>st_mode = 12 * 4096 + p mod 512, st_uid = uid, st_atime = now, st_mtime = now, st_ctime = now\<rparr>)\<rparr>"

text \<open>A successful \<open>chmod\<close> replaces the permissions.\<close>

definition chmod :: "string \<Rightarrow> nat \<Rightarrow> int \<Rightarrow> world \<Rightarrow> world" where
  "chmod n p now w = w\<lparr>names := (names w)(n := map_option (\<lambda>i. i\<lparr>st_mode := st_mode i div 4096 * 4096 + p, st_ctime := now\<rparr>) (names w n))\<rparr>"

text \<open>What the system calls answer.\<close>

record sys =
  malloc_ok :: bool
  socket :: int
  bind_ok :: bool
  chmod_ok :: bool
  listen_ok :: bool
  connect_ok :: bool
  getpid :: nat
  geteuid :: int
  mode_at_bind :: nat
  now :: int
  accept :: int
  accept_addr :: string

definition serv_listen :: "sys \<Rightarrow> string \<Rightarrow> world \<Rightarrow> int \<times> world" where
  "serv_listen c name w =
     (if length name \<ge> sun_path_size then (-1, w)
      else if socket c < 0 then (-2, w)
      else let fd = socket c; w = unlink name (open_fd fd w) in
        if \<not> bind_ok c then (-3, close_fd fd w)
        else let w = bind_name name (mode_at_bind c) (geteuid c) (now c) w in
          if \<not> listen_ok c then (-4, close_fd fd w) else (fd, w))"

text \<open>The name that the client binds: \<open>sprintf\<close> with \<open>%s%05ld\<close>.\<close>

definition CLI_PATH :: string where "CLI_PATH = ''/var/tmp/''"

definition client_path :: "nat \<Rightarrow> string" where
  "client_path pid = CLI_PATH @ replicate (5 - length (dec pid)) (CHR ''0'') @ dec pid"

definition cli_conn :: "sys \<Rightarrow> string \<Rightarrow> world \<Rightarrow> (int \<times> world) option" where
  "cli_conn c name w =
     (if length name \<ge> sun_path_size then Some (-1, w)
      else if socket c < 0 then Some (-1, w)
      else let fd = socket c; w = open_fd fd w; path = client_path (getpid c) in
        if length path \<ge> sun_path_size then None
        else let w = unlink path w in
          if \<not> bind_ok c then Some (-2, close_fd fd w)
          else let w = bind_name path (mode_at_bind c) (geteuid c) (now c) w in
            if \<not> chmod_ok c then Some (-3, unlink path (close_fd fd w))
            else let w = chmod path 448 (now c) w in
              if \<not> connect_ok c then Some (-4, unlink path (close_fd fd w))
              else Some (fd, w))"

text \<open>\<open>n\<close>: how many bytes \<open>malloc\<close> is asked for; \<open>uidptr\<close>: \<open>None\<close> for a null pointer, and otherwise what the place it points to holds. The result of
  the function, what \<open>uidptr\<close> points to afterwards, and the state.\<close>

definition serv_accept_with :: "nat \<Rightarrow> int option \<Rightarrow> sys \<Rightarrow> world \<Rightarrow> (int \<times> int option \<times> world) option" where
  "serv_accept_with n uidptr c w =
     (if \<not> malloc_ok c then Some (-1, uidptr, w)
      else if accept c < 0 then Some (-2, uidptr, w)
      else let clifd = accept c; w = open_fd clifd w in
        if n \<le> length (accept_addr c) then None
        else let name = cstr (accept_addr c) in
          (case names w name of
             None \<Rightarrow> Some (-3, uidptr, close_fd clifd w)
           | Some statbuf \<Rightarrow>
               if \<not> S_ISSOCK (st_mode statbuf) then Some (-4, uidptr, close_fd clifd w)
               else if st_mode statbuf mod 64 \<noteq> 0 \<or> st_mode statbuf div 64 mod 8 \<noteq> 7 then Some (-5, uidptr, close_fd clifd w)
               else let staletime = now c - STALE in
                 if st_atime statbuf < staletime \<or> st_ctime statbuf < staletime \<or> st_mtime statbuf < staletime then Some (-6, uidptr, close_fd clifd w)
                 else let uidptr = (case uidptr of None \<Rightarrow> None | Some _ \<Rightarrow> Some (st_uid statbuf)) in Some (clifd, uidptr, unlink name w)))"

text \<open>The library asks for \<open>sizeof(un.sun_path + 1)\<close> bytes, the size of a pointer; the copy for \<open>sizeof(un.sun_path) + 1\<close>.\<close>

definition sizeof_pointer :: nat where "sizeof_pointer = 8"

definition serv_accept :: "int option \<Rightarrow> sys \<Rightarrow> world \<Rightarrow> (int \<times> int option \<times> world) option" where
  "serv_accept = serv_accept_with sizeof_pointer"

definition serv_accept_copy :: "int option \<Rightarrow> sys \<Rightarrow> world \<Rightarrow> (int \<times> int option \<times> world) option" where
  "serv_accept_copy = serv_accept_with (sun_path_size + 1)"

section \<open>Names of clients\<close>

lemma client_path_length: "pid < 10 ^ 20 \<Longrightarrow> 14 \<le> length (client_path pid) \<and> length (client_path pid) \<le> 29"
  using length_dec [of pid 20] by (auto simp: client_path_def CLI_PATH_def)

lemma client_path_no_NUL: "NUL \<notin> set (client_path pid)"
  using dec_no_NUL [of pid] by (auto simp: client_path_def CLI_PATH_def NUL_def)

text \<open>What \<open>accept\<close> gives as the address: the name that the client has bound, with or without a null byte at the end.\<close>

definition addr_of :: "nat \<Rightarrow> string \<Rightarrow> bool" where
  "addr_of pid a \<longleftrightarrow> a = client_path pid \<or> a = client_path pid @ [NUL]"

lemma addr_of_cstr: "addr_of pid a \<Longrightarrow> cstr a = client_path pid"
  using client_path_no_NUL [of pid] by (auto simp: addr_of_def cstr_def takeWhile_tail intro!: takeWhile_eq_all_conv [THEN iffD2])

section \<open>Properties\<close>

definition fresh :: "int \<Rightarrow> inode \<Rightarrow> bool" where
  "fresh t i \<longleftrightarrow> t \<le> st_atime i + 30 \<and> t \<le> st_mtime i + 30 \<and> t \<le> st_ctime i + 30"

text \<open>C19: The server learns who calls: when a client has connected and the server accepts the connection within 30 seconds, the corrected
  \<open>serv_accept\<close> returns the descriptor, stores the user of the client where \<open>uidptr\<close> points to (unless it is null), and the name is gone. \<open>serv_accept\<close> of the library, which allocates only 8 bytes for the name, writes
  behind its buffer for every such client.\<close>

theorem local_conn_identity:
  assumes "cli_conn c server w = Some (fd, w1)" "0 \<le> fd" "getpid c < 10 ^ 20"
    and "names w2 = names w1" "malloc_ok s" "0 \<le> accept s" "addr_of (getpid c) (accept_addr s)" "now s \<le> now c + 30"
  shows "(\<exists>w3. serv_accept_copy uidptr s w2 = Some (accept s, map_option (\<lambda>_. geteuid c) uidptr, w3) \<and> open_fds w3 = insert (accept s) (open_fds w2) \<and>
      names w3 = (names w)(client_path (getpid c) := None)) \<and> serv_accept uidptr s w2 = None"
proof -
  let ?p = "client_path (getpid c)"
  have len: "14 \<le> length ?p" "length ?p \<le> 29" using client_path_length [OF assms(3)] by auto
  have a: "cstr (accept_addr s) = ?p" "14 \<le> length (accept_addr s)" "length (accept_addr s) \<le> 30" using addr_of_cstr [OF assms(7)] assms(7) len by (auto simp: addr_of_def)
  have w1: "w1 = chmod ?p 448 (now c) (bind_name ?p (mode_at_bind c) (geteuid c) (now c) (unlink ?p (open_fd (socket c) w)))"
    using assms(1,2) len by (auto simp: cli_conn_def Let_def sun_path_size_def split: if_splits)
  have "names w1 ?p = Some \<lparr>st_mode = 12 * 4096 + 448, st_uid = geteuid c, st_atime = now c, st_mtime = now c, st_ctime = now c\<rparr>"
    unfolding w1 by (simp add: chmod_def bind_name_def)
  moreover have "(names w1)(?p := None) = (names w)(?p := None)" unfolding w1 by (simp add: chmod_def bind_name_def unlink_def open_fd_def fun_eq_iff)
  ultimately show ?thesis using assms(4-6,8) a
    by (auto simp: serv_accept_copy_def serv_accept_def serv_accept_with_def sun_path_size_def sizeof_pointer_def S_ISSOCK_def open_fd_def unlink_def Let_def split: option.split)
qed

definition sys0 :: sys where
  "sys0 = \<lparr>malloc_ok = True, socket = 3, bind_ok = True, chmod_ok = True, listen_ok = True, connect_ok = True, getpid = 7, geteuid = 1000, mode_at_bind = 493, now = 50,
     accept = 5, accept_addr = client_path 7\<rparr>"

definition world0 :: world where
  "world0 = \<lparr>names = Map.empty, open_fds = {}\<rparr>"

theorem local_conn_identity_witness:
  "\<exists>w1 w3. cli_conn sys0 ''/tmp/opend'' world0 = Some (3, w1) \<and> serv_accept_copy (Some 0) sys0 w1 = Some (5, Some 1000, w3) \<and> serv_accept (Some 0) sys0 w1 = None"
proof -
  have "length (client_path 7) \<le> 29" using client_path_length [of 7] by simp
  then obtain w1 where w1: "cli_conn sys0 ''/tmp/opend'' world0 = Some (3, w1)" by (auto simp: cli_conn_def sys0_def sun_path_size_def Let_def)
  have s: "getpid sys0 = 7" "accept sys0 = 5" "geteuid sys0 = 1000" "malloc_ok sys0" "accept_addr sys0 = client_path 7" by (simp_all add: sys0_def)
  show ?thesis using local_conn_identity [OF w1, of w1 sys0 "Some 0"] w1 s by (auto simp: addr_of_def)
qed

text \<open>C20: Only the owner counts, and nothing leaks: a client is accepted exactly if its name is a socket with the permissions
  \<open>rwx------\<close> that is not older than 30 seconds, and then the user that is reported is the owner of that socket; in every other case the result is negative, no user
  is reported and the connection is closed again.\<close>

theorem local_conn_verdict:
  assumes "length (accept_addr s) \<le> sun_path_size" "accept s \<notin> open_fds w"
  shows "if malloc_ok s \<and> 0 \<le> accept s \<and> (\<exists>i. names w (cstr (accept_addr s)) = Some i \<and> S_ISSOCK (st_mode i) \<and> S_RWX_only (st_mode i) \<and> fresh (now s) i)
    then serv_accept_copy uidptr s w = Some (accept s, map_option (\<lambda>_. st_uid (the (names w (cstr (accept_addr s))))) uidptr,
       \<lparr>names = (names w)(cstr (accept_addr s) := None), open_fds = insert (accept s) (open_fds w)\<rparr>)
    else \<exists>r < 0. serv_accept_copy uidptr s w = Some (r, uidptr, w)"
proof (cases "malloc_ok s \<and> 0 \<le> accept s")
  case False
  then show ?thesis by (auto simp: serv_accept_copy_def serv_accept_with_def)
next
  case True
  have closed: "close_fd (accept s) (open_fd (accept s) w) = w" using assms(2) by (cases w) (simp add: close_fd_def open_fd_def)
  show ?thesis
  proof (cases "names w (cstr (accept_addr s))")
    case None
    then show ?thesis using True assms(1) closed by (auto simp: serv_accept_copy_def serv_accept_with_def Let_def open_fd_def)
  next
    case (Some i)
    let ?good = "S_ISSOCK (st_mode i) \<and> S_RWX_only (st_mode i) \<and> fresh (now s) i"
    have n: "names (open_fd (accept s) w) = names w" by (simp add: open_fd_def)
    have e: "serv_accept_copy uidptr s w =
      (if \<not> S_ISSOCK (st_mode i) then Some (-4, uidptr, w) else if \<not> S_RWX_only (st_mode i) then Some (-5, uidptr, w) else if \<not> fresh (now s) i then Some (-6, uidptr, w)
       else Some (accept s, map_option (\<lambda>_. st_uid i) uidptr, unlink (cstr (accept_addr s)) (open_fd (accept s) w)))"
      using True Some assms(1) by (auto simp: serv_accept_copy_def serv_accept_with_def S_RWX_only_def fresh_def Let_def n closed split: option.split)
    show ?thesis
    proof (cases ?good)
      case good: True
      then show ?thesis using e True Some by (cases w) (simp add: unlink_def open_fd_def)
    next
      case bad: False
      then have "\<exists>r < 0. serv_accept_copy uidptr s w = Some (r, uidptr, w)" unfolding e by auto
      then show ?thesis using bad Some by auto
    qed
  qed
qed

definition socket0 :: inode where
  "socket0 = \<lparr>st_mode = 12 * 4096 + 448, st_uid = 1000, st_atime = 40, st_mtime = 40, st_ctime = 40\<rparr>"

definition world1 :: world where
  "world1 = \<lparr>names = Map.empty(client_path 7 \<mapsto> socket0), open_fds = {}\<rparr>"

theorem local_conn_verdict_witness:
  "serv_accept_copy (Some 0) sys0 world1 = Some (5, Some 1000, \<lparr>names = Map.empty, open_fds = {5}\<rparr>)"
proof -
  have l: "length (accept_addr sys0) \<le> sun_path_size" "accept sys0 \<notin> open_fds world1" using client_path_length [of 7] by (simp_all add: sys0_def world1_def sun_path_size_def)
  have "addr_of 7 (accept_addr sys0)" by (simp add: addr_of_def sys0_def)
  then have c: "cstr (accept_addr sys0) = client_path 7" by (rule addr_of_cstr)
  have "S_ISSOCK (st_mode socket0)" "S_RWX_only (st_mode socket0)" "fresh (now sys0) socket0" by (simp_all add: socket0_def S_ISSOCK_def S_RWX_only_def fresh_def sys0_def)
  moreover have "malloc_ok sys0" "accept sys0 = 5" "names world1 (client_path 7) = Some socket0" by (simp_all add: sys0_def world1_def)
  ultimately show ?thesis using local_conn_verdict [OF l, of "Some 0"] by (simp add: c) (simp add: world1_def socket0_def)
qed

text \<open>A failing \<open>cli_conn\<close> or \<open>serv_listen\<close> leaves no descriptor open, and a failing \<open>cli_conn\<close> no name.\<close>

theorem local_conn_no_leak:
  assumes "socket c \<notin> open_fds w" "getpid c < 10 ^ 20"
  shows "\<exists>r w'. cli_conn c name w = Some (r, w') \<and> (r < 0 \<longrightarrow> open_fds w' = open_fds w \<and> (names w' = names w \<or> names w' = (names w)(client_path (getpid c) := None))) \<and>
     (fst (serv_listen c name w) < 0 \<longrightarrow> open_fds (snd (serv_listen c name w)) = open_fds w)"
  using client_path_length [OF assms(2)] assms(1)
  by (auto simp: cli_conn_def serv_listen_def Let_def sun_path_size_def unlink_def close_fd_def open_fd_def bind_name_def chmod_def)

theorem local_conn_no_leak_witness:
  "\<exists>r w'. cli_conn (sys0\<lparr>connect_ok := False\<rparr>) ''/tmp/opend'' world0 = Some (r, w') \<and> (r < 0 \<longrightarrow> open_fds w' = {})"
  using local_conn_no_leak [of "sys0\<lparr>connect_ok := False\<rparr>" world0 "''/tmp/opend''"] by (auto simp: sys0_def world0_def)

end
