(* ===== verification/Spec2Isabelle.thy ===== *)
theory Spec2Isabelle
  imports Clrs_Sorting Merge_Sorts Heap_Sorts Quick_Sorts Avl_Tree Search_Tree Priority_Queues Db_Props
    Printer_Sched Printer_Admin Printer_Submit Printer_Request Printer_Status
    Max_Subarray Mem_Stream Hash_Quad Semaphores Job_Queue Foo_Refs
    Open_Server Open_Loop Tty_Modes File_Walk Rot13 Barrier_Sort Disjoint_Set Relay
    Popen Apue_Lib Textbook_Lists Stack_Queue Binomial_Queue Random_Range Unix_Conn
begin

text \<open>
  \<^bold>\<open>Verification of the C programs of the repository.\<close>

  The repository collects programs written while working through textbooks. Its C code with logic of its own is: the database
  library and the print spooler of \<open>src/apue/apue.3e\<close> with a second version of the database in \<open>src/apue/20db\<close>, the
  semaphore library, the memory streams and other library functions of the same tree, the algorithms of \<open>src/clrs\<close>, and the
  data structures of \<open>src/data_structure_and_algorithm\<close>. These are the components below. Each is modelled by definitions that
  translate its functions one by one, and the properties (numbered \<open>C1\<close>, \<open>C2\<close>, and so on, in the texts in front of the theorems)
  are proved about these definitions.

  \<^bold>\<open>Conventions.\<close> A C function is a HOL function that takes and returns the state it works on. \<^const>\<open>None\<close> is undefined behaviour
  or the end of the process: an access outside of an array, a null or freed pointer that is followed, an uninitialised cell that is read, a signed
  overflow, a call of \<open>err_sys\<close>, \<open>err_dump\<close>, \<open>log_sys\<close> or \<open>log_quit\<close>. So a theorem that a call returns \<^const>\<open>Some\<close> value also says that
  none of these happens. The error returns of the code are values of sum or option types. Arrays are lists with checked accesses
  (\<open>rd\<close>, \<open>wr\<close>); indices that the code never makes negative are natural numbers, and \<open>int\<close> arithmetic that can overflow is checked or wrapped
  explicitly. Buffers are strings of bytes. Allocation, the C library and the system calls are modelled where the code depends on them: the
  results of \<open>malloc\<close> and of other calls that may fail are arguments of the functions. Functions that the repository calls but does not
  contain (\<open>swapchildren\<close>, \<open>isfull\<close>, \<open>nextprime\<close>, \<open>hash\<close>, \<open>insertionsort\<close>, \<open>IsFull\<close>, \<open>initialize\<close>, \<open>getaddrinfo\<close> and such) are parameters, and what a theorem
  needs of them is a hypothesis. Integers in memory are little-endian.
  Loops are recursive functions with a termination proof; a loop that need not end is a \<open>partial_function\<close> into an option type,
  so that \<^const>\<open>None\<close> also means that it does not return. The only fuel is the depth of the recursion in \<open>File_Walk\<close>, and
  the theorems there say that the depth of the file hierarchy is enough. The transition systems of \<open>Rot13\<close>, \<open>Barrier_Sort\<close> and \<open>Foo_Refs\<close> come with bounds on the length of a run.

  \<^bold>\<open>Shared theories.\<close> \<open>Prelude\<close>: the total-correctness predicate \<open>returns\<close>, arrays, segments, permutations, and the contracts of a sorting function
  (\<open>array_sorter\<close>) and of a dynamic set (\<open>search_set\<close>) as locales. \<open>C_Library\<close>: files with \<open>lseek\<close>, \<open>read\<close>, \<open>write\<close>; decimal output and input;
  C strings. \<open>Heap_Order\<close>: the order of an array heap for both directions. \<open>Linked_Lists\<close>: doubly linked lists in a store of nodes (locale
  \<open>links\<close>). \<open>Byte_Streams\<close>: sockets as sequences of events, \<open>readn\<close>, \<open>writen\<close>, \<open>tread\<close>, \<open>treadn\<close> (locale \<open>reader\<close>).

  \<^bold>\<open>The database library\<close> (\<open>apue.3e/db/db.c\<close>, \<open>lib/lockreg.c\<close>, \<open>20db/db.c\<close>, and the programs \<open>20db/db_test.c\<close>, \<open>db/t4.c\<close>). \<open>Db_Model\<close> has every function on the
  struct \<open>DB\<close> and the bytes of the two files; \<open>Db20_Model\<close> the second version, which differs in one constant. \<open>Db_Bytes\<close> proves what reading
  and writing fields and records does to bytes, \<open>Db_Chains\<close> relates the files to a pointer map, \<open>Db_Refine\<close> and \<open>Db_Store\<close> show what
  searching, deleting and storing do to it, and \<open>Db_Props\<close> concludes: every sequence of calls after \<open>db_open\<close> answers as a finite map does, a scan
  delivers every record once, no record lock is left, index records are read back as written, the test program prints what it should, and a key with a
  separator breaks the library. The interface is the locale \<open>kv_store\<close>, interpreted for both versions.

  \<^bold>\<open>The print spooler\<close> (\<open>apue.3e/printer\<close>: \<open>printd.c\<close>, \<open>print.c\<close>, \<open>util.c\<close>, \<open>print.h\<close>, \<open>ipp.h\<close>; \<open>lib/readn.c\<close>, \<open>lib/writen.c\<close>). \<open>Printer_Jobs\<close>: the globals of
  the daemon, the job list and the worker list on a store of nodes, the locks (locale \<open>job_queue\<close>). \<open>Printer_Sched\<close>: client threads and
  printer thread as a step relation; jobs are finished in the order in which they were accepted, and no wake-up is lost. \<open>Printer_Admin\<close>: job
  numbers, the job file, and the defect of the worker list. \<open>Printer_Client\<close>: the client, the protocol, the server thread that spools a job, recovery at
  start-up, the configuration file; \<open>Printer_Submit\<close> composes client and server. \<open>Printer_Ipp\<close>, \<open>Printer_Request\<close>: the IPP and HTTP request
  in fixed buffers and a turn of the printer thread. \<open>Printer_Status\<close>: the parser of the printer's answer.

  \<^bold>\<open>The open server\<close> (\<open>apue.3e/ipc2/opend\<close>, \<open>ipc2/open/open.c\<close>, \<open>lib/bufargs.c\<close>, \<open>sendfd.c\<close>, \<open>senderr.c\<close>, \<open>recvfd.c\<close>). \<open>Open_Args\<close>: \<open>strtok\<close> and \<open>buf_args\<close> on a buffer.
  \<open>Fd_Passing\<close>: the two-byte protocol for descriptors and errors over a connection that cuts data into pieces anywhere, and the one cut that the receiver does not accept. \<open>Open_Server\<close>: a request and its answer,
  client and server together. \<open>Open_Loop\<close>: the table of clients and the two main loops; the one with \<open>select\<close> serves every client under its
  identity, the one with \<open>poll\<close> does not once a client has left. \<open>Unix_Conn\<close> (\<open>lib/servlisten.c\<close>, \<open>servaccept.c\<close>, \<open>cliconn.c\<close>, \<open>17.3serv_accept.c\<close>): how the server learns who
  its client is, and the buffer that the library allocates too small.

  \<^bold>\<open>Library functions.\<close> \<open>Semaphores\<close> (\<open>lib/semaph.c\<close>): System V semaphores with undo, interleaved system calls of any number of processes; the
  protocol of create, close and exit is safe, and two races are exhibited. \<open>Mem_Stream\<close> (\<open>exercises/fmemopen.c\<close>): a
  memory stream refines a bounded file (locale \<open>bounded_file\<close>). \<open>Tty_Modes\<close> (\<open>lib/ttymodes.c\<close>, \<open>18.11break_and_raw.c\<close>): terminal modes over any driver; a session leaves
  the terminal as it was, and raw mode in the copy fails on some terminals. \<open>File_Walk\<close> (\<open>filedir/ftw8.c\<close>, \<open>4.22ftw.c\<close>, \<open>lib/pathalloc.c\<close>): the walk through a file
  hierarchy with one growing pathname buffer visits every file once. \<open>Rot13\<close> (\<open>advio/rot13a.c\<close>, \<open>14.5.3rot_13_aio.c\<close>): eight asynchronous requests at a time, finished by
  the system in any order; the output is right and every run ends, but not in the copy, which never releases a buffer.
  \<open>Popen\<close> (\<open>lib/popen.c\<close>, \<open>15.3popen_and_pclose.c\<close>): streams to child processes refine a map, and the child has the right descriptors; the copy writes behind its array. \<open>Apue_Lib\<close>
  (\<open>lib/error.c\<close>, \<open>lib/errorlog.c\<close>, \<open>threadctl/timeout.c\<close>, \<open>threadctl/detach.c\<close>): no message overruns its buffer, and timeouts are exact.

  \<^bold>\<open>Threads\<close> (\<open>apue.3e/threads\<close> and the copies in \<open>src/apue\<close>). \<open>Job_Queue\<close> (\<open>rwlock.c\<close>, \<open>11.6.4job_queue.c\<close>): the queue refines a list of jobs; the copy
  loses jobs. \<open>Foo_Model\<close> (\<open>mutex1.c\<close>, \<open>mutex2.c\<close>, \<open>mutex3.c\<close>, \<open>11.6.2avoid_deadlock1.c\<close>): reference-counted objects, one control
  state per mutex operation, where a data race or the use of a freed object is an explicit fault. \<open>Ref_Counts\<close> (locale \<open>discipline\<close>) has the rules of reference counting under mutexes for
  any set of control states, \<open>Foo_Table\<close> the hash chains, \<open>Foo_Inv\<close> the interpretation and the invariant, \<open>Foo_Steps\<close> the functions, and
  \<open>Foo_Refs\<close> concludes: no fault, exact counts, no leak, no deadlock, every call returns. \<open>Barrier_Sort\<close> (\<open>barrier.c\<close>): threads that sort slices, a barrier, and
  a merge; right under every schedule.

  \<^bold>\<open>The port relay\<close> (\<open>network/lcx/lcx.c\<close>). \<open>Relay\<close>: the command line on the cells of \<open>argv\<close>, the loop that carries data in both directions over any sequence of partial
  reads and writes, and the loops that make pairs of connections with the descriptors they keep open.

  \<^bold>\<open>Algorithms.\<close> \<open>Clrs_Sorting\<close>, \<open>Merge_Sorts\<close>, \<open>Heap_Sorts\<close>, \<open>Quick_Sorts\<close>: \<open>clrs/sorting.c\<close>, \<open>clrs/problems/02.4inversions.c\<close>, \<open>data_structure_and_algorithm/sort\<close>.
  \<open>Max_Subarray\<close>: the three algorithms of \<open>clrs/exercises/04.1.3maxsubarray.c\<close> agree. \<open>Random_Range\<close>: which numbers
  \<open>clrs/exercises/05.1.2random_ab.c\<close> can return.

  \<^bold>\<open>Data structures\<close> (\<open>data_structure_and_algorithm\<close>). \<open>Avl_Tree\<close>, \<open>Search_Tree\<close>, \<open>Priority_Queues\<close> (leftist and binary heap, locale \<open>priority_queue\<close>),
  \<open>Hash_Quad\<close> (quadratic probing), \<open>Disjoint_Set\<close> (the partition is right, the union by height degenerates), \<open>Textbook_Lists\<close> (linked lists on a
  store, and the hash table with separate chaining made of them), \<open>Stack_Queue\<close> (array stack and circular queue), \<open>Binomial_Queue\<close>.

  \<^bold>\<open>Not modelled.\<close> Programs whose whole effect is a sequence of system calls: the demonstrations of files, processes, signals, terminals, sockets
  and daemons of \<open>src/apue\<close>, the main functions of the spooler, and the rest of \<open>src/network\<close> (\<open>arpspoof.c\<close>, the TLS and TUN programs).
  \<open>myfact_wrap.c\<close> is generated by SWIG. The Python, JavaScript and SQL parts are not C, the TUN programs are C++.
  Several of the data structures do not compile; they are modelled with repairs, which the texts of their theories and properties name: misspelt names, in \<open>heap.c\<close> the
  assignment to \<open>x->elements[i]\<close>, and in \<open>binominal_queue.c\<close> a wrong name and two missing indices. The hash table of \<open>hashsep.c\<close>, whose array is never allocated, is modelled both as
  written and with the allocation. The overlapping \<open>sprintf\<close> by which \<open>_db_dodelete\<close> rewrites an index record, undefined in C, is taken to copy the key onto itself.
  Output on the terminal and log messages are left out except where a text says so.
\<close>

end
